(* ===== verification/Prelude.thy ===== *)
theory Prelude imports Complex_Main "HOL-Library.Multiset" begin

text \<open>
  Shared vocabulary of the development: the arithmetic conversions of C++ that several
  components use, the loop rule for counted loops, and the facts about arrays (lists updated
  by index), filters and index lists that the component proofs share.

  Numbers.  The program computes on \<open>float\<close> and \<open>double\<close>.  They are modelled by the
  exact type \<^typ>\<open>real\<close>: rounding, overflow to infinity and NaN are outside the model, and
  comparisons and arithmetic are written in the order of the code.  Signed and unsigned indices
  are \<^typ>\<open>int\<close> and \<^typ>\<open>nat\<close>; machine words are used where the width matters.
\<close>

section \<open>Collections of facts\<close>

named_theorems arr_simps \<open>reading and writing arrays by index\<close>
named_theorems len_simps \<open>operations that keep the length of an array\<close>

section \<open>Conversions of C++\<close>

text \<open>\<open>(int)x\<close>: truncation towards zero; \<open>std::lround\<close>: to nearest, halves away from zero.\<close>

definition c_trunc :: "real \<Rightarrow> int" where
  "c_trunc x = (if 0 \<le> x then \<lfloor>x\<rfloor> else \<lceil>x\<rceil>)"

definition c_lround :: "real \<Rightarrow> int" where
  "c_lround x = (if 0 \<le> x then \<lfloor>x + 1/2\<rfloor> else - \<lfloor>1/2 - x\<rfloor>)"

text \<open>\<open>a % b\<close> and \<open>a / b\<close> on signed integers truncate towards zero.\<close>

definition c_div :: "int \<Rightarrow> int \<Rightarrow> int" where
  "c_div a b = sgn a * sgn b * (\<bar>a\<bar> div \<bar>b\<bar>)"

definition c_mod :: "int \<Rightarrow> int \<Rightarrow> int" where
  "c_mod a b = a - b * c_div a b"

lemma c_trunc_of_int [simp]: "c_trunc (of_int k) = k"
  by (simp add: c_trunc_def)

lemma c_lround_of_int [simp]: "c_lround (of_int k) = k"
proof -
  have "\<lfloor>of_int k + 1/2 :: real\<rfloor> = k" and "\<lfloor>1/2 - of_int k :: real\<rfloor> = - k"
    by linarith+
  then show ?thesis by (simp add: c_lround_def)
qed

lemma c_trunc_nonneg: "0 \<le> x \<Longrightarrow> 0 \<le> c_trunc x"
  by (simp add: c_trunc_def)

lemma c_trunc_mono: "x \<le> y \<Longrightarrow> c_trunc x \<le> c_trunc y"
proof -
  have "\<lceil>x\<rceil> \<le> \<lfloor>y\<rfloor>" if "x < 0" "0 \<le> y"
    using that by (meson ceiling_le_zero order.trans order.strict_implies_order zero_le_floor)
  then show "x \<le> y \<Longrightarrow> c_trunc x \<le> c_trunc y"
    by (auto simp: c_trunc_def intro: floor_mono ceiling_mono)
qed

lemma c_trunc_le: "0 \<le> x \<Longrightarrow> of_int (c_trunc x) \<le> x"
  by (simp add: c_trunc_def)

lemma c_mod_nonneg: "0 \<le> a \<Longrightarrow> 0 < b \<Longrightarrow> c_mod a b = a mod b"
  by (cases "a = 0")
     (simp_all add: c_mod_def c_div_def minus_mult_div_eq_mod)

section \<open>Counted loops\<close>

text \<open>
  A loop \<open>for (k = a; k < b; k++)\<close> is \<open>fold body [a..<b]\<close>; the rule below is its invariant
  rule.
\<close>

lemma fold_upt_inv:
  assumes "a \<le> b" and "I a s"
    and "\<And>k s. a \<le> k \<Longrightarrow> k < b \<Longrightarrow> I k s \<Longrightarrow> I (Suc k) (f k s)"
  shows "I b (fold f [a..<b] s)"
  using assms(1)
proof (induction b rule: dec_induct)
  case base
  show ?case using assms(2) by simp
next
  case (step k)
  then show ?case
    using assms(3) [of k "fold f [a..<k] s"] by simp
qed

lemma fold_upt0_inv:
  assumes "I 0 s" and "\<And>k s. k < n \<Longrightarrow> I k s \<Longrightarrow> I (Suc k) (f k s)"
  shows "I n (fold f [0..<n] s)"
  using fold_upt_inv [of 0 n I s f] assms by simp

lemma fold_inv:
  assumes "I s" and "\<And>x s. x \<in> set xs \<Longrightarrow> I s \<Longrightarrow> I (f x s)"
  shows "I (fold f xs s)"
  using assms by (induction xs arbitrary: s) auto

section \<open>Arrays\<close>

lemma nth_update [arr_simps]:
  "i < length xs \<Longrightarrow> xs[i := a] ! j = (if i = j then a else xs ! j)"
  by (simp add: nth_list_update)

lemma length_update [len_simps]: "length (xs[i := a]) = length xs"
  by simp

lemma update_append_nth: "k < length xs \<Longrightarrow> (xs[k := a]) = take k xs @ a # drop (Suc k) xs"
  by (rule upd_conv_take_nth_drop)

lemma sum_swap_two:
  fixes f :: "nat \<Rightarrow> real"
  assumes "finite A" "a \<in> A" "b \<in> A" "a \<noteq> b"
  shows "sum f A = f a + f b + sum f (A - {a, b})"
proof -
  have "sum f A = f a + sum f (A - {a})"
    using assms by (simp add: sum.remove)
  also have "sum f (A - {a}) = f b + sum f (A - {a} - {b})"
    using assms by (simp add: sum.remove)
  finally show ?thesis by (simp add: Diff_insert2 [symmetric] insert_commute algebra_simps)
qed

section \<open>Index lists\<close>

text \<open>The positions of a list at which a test holds, in order.\<close>

definition idx_where :: "('a \<Rightarrow> bool) \<Rightarrow> 'a list \<Rightarrow> nat list" where
  "idx_where P xs = filter (\<lambda>i. P (xs ! i)) [0..<length xs]"

lemma set_idx_where [simp]: "set (idx_where P xs) = {i. i < length xs \<and> P (xs ! i)}"
  by (auto simp: idx_where_def)

lemma distinct_idx_where [simp]: "distinct (idx_where P xs)"
  by (simp add: idx_where_def)

lemma sorted_idx_where: "sorted (idx_where P xs)"
  by (simp add: idx_where_def sorted_wrt_filter)

section \<open>Associations\<close>

text \<open>
  The result of an association step of a tracker: matched pairs and the unmatched of both sides;
  together they list every element of \<open>A\<close> once, and every element of \<open>B\<close> once.
\<close>

definition assoc_ok :: "nat set \<Rightarrow> nat set \<Rightarrow> (nat \<times> nat) list \<times> nat list \<times> nat list \<Rightarrow> bool" where
  "assoc_ok A B = (\<lambda>(matches, ua, ub).
     distinct (map fst matches @ ua) \<and> set (map fst matches @ ua) = A \<and>
     distinct (map snd matches @ ub) \<and> set (map snd matches @ ub) = B)"

section \<open>Bounded histories\<close>

text \<open>
  Both trackers keep the last points of a track in a container: they append the new point and,
  when there are more than \<open>cap\<close>, drop the oldest.  \<open>hist\<close> reads the container, \<open>push\<close> is the
  operation, \<open>point\<close> the point it appends.
\<close>

locale bounded_history =
  fixes hist :: "'t \<Rightarrow> 'a list" and push :: "'t \<Rightarrow> 't" and point :: "'t \<Rightarrow> 'a" and cap :: nat
  assumes push_law: "hist (push t) =
     (if length (hist t @ [point t]) > cap then tl (hist t @ [point t]) else hist t @ [point t])"
begin

lemma push_bound: "length (hist t) \<le> cap \<Longrightarrow> length (hist (push t)) \<le> cap"
  by (simp add: push_law)

text \<open>The container holds the last \<open>cap\<close> points of everything ever appended.\<close>

lemma push_recent:
  assumes "hist t = drop (length all - cap) all"
  shows "hist (push t) = drop (length (all @ [point t]) - cap) (all @ [point t])"
proof (cases "length all < cap")
  case True
  then show ?thesis using assms by (simp add: push_law)
next
  case False
  then have "length (hist t) = cap" using assms by simp
  moreover have "drop (Suc (length all) - cap) all = tl (hist t)" if "0 < cap"
    using assms False by (simp add: drop_Suc tl_drop Suc_diff_le)
  ultimately show ?thesis
    using False by (cases "cap = 0") (auto simp: push_law tl_append split: list.split)
qed

end

end
