(* ===== verification/Lapjv.thy ===== *)
theory Lapjv imports Prelude begin

text \<open>
  Model of \<open>src/src/bytetrack/lapjv.cpp\<close>: the Jonker-Volgenant solver of the linear assignment
  problem that ByteTrack calls through \<open>lapjv_internal\<close>.

  The C arrays are lists updated in place by index: \<open>cost[i][j]\<close> is \<open>cost ! i ! j\<close>, the
  assignment arrays \<open>x\<close> (row to column) and \<open>y\<close> (column to row) hold \<open>-1\<close> for ``none'' and are
  lists of \<^typ>\<open>int\<close>, the dual prices \<open>v\<close> and the distances \<open>d\<close> are lists of \<^typ>\<open>real\<close>.
  The array \<open>free_rows\<close> is the list of the entries the code has written: its tail is never read.
  Loops with a counter are \<open>fold\<close>; \<open>_carr_dense\<close> is a \<^theory_text>\<open>function\<close> with its termination
  proof; the three \<open>while\<close> loops that stop only because of what the data satisfies are
  \<^theory_text>\<open>partial_function (option)\<close>, so that not returning is the value \<^const>\<open>None\<close>.
  Allocation (\<open>NEW\<close>) is taken to succeed.
\<close>

section \<open>Column reduction and reduction transfer: \<open>_ccrrt_dense\<close>\<close>

definition LARGE :: real where
  "LARGE = 1000000"

text \<open>The loop that finds, for each column, its least cost and the row that has it.\<close>

definition ccrrt_min_step :: "real list list \<Rightarrow> nat \<Rightarrow> nat \<Rightarrow> real list \<times> int list \<Rightarrow> real list \<times> int list" where
  "ccrrt_min_step cost i j = (\<lambda>(v, y).
     let c = cost ! i ! j in
     if c < v ! j then (v[j := c], y[j := int i]) else (v, y))"

definition ccrrt_colmin :: "nat \<Rightarrow> real list list \<Rightarrow> real list \<times> int list" where
  "ccrrt_colmin n cost =
     fold (\<lambda>i. fold (ccrrt_min_step cost i) [0..<n]) [0..<n] (replicate n LARGE, replicate n 0)"

text \<open>The \<open>do ... while (j > 0)\<close> loop, from the last column to the first.\<close>

definition ccrrt_assign_step :: "nat \<Rightarrow> int list \<times> int list \<times> bool list \<Rightarrow> int list \<times> int list \<times> bool list" where
  "ccrrt_assign_step j = (\<lambda>(x, y, unique).
     let i = nat (y ! j) in
     if x ! i < 0 then (x[i := int j], y, unique)
     else (x, y[j := -1], unique[i := False]))"

definition ccrrt_assign :: "nat \<Rightarrow> int list \<Rightarrow> int list \<times> int list \<times> bool list" where
  "ccrrt_assign n y =
     fold ccrrt_assign_step (rev [0..<n]) (replicate n (-1), y, replicate n True)"

text \<open>The least reduced cost of a row over the columns other than \<open>j\<close>.\<close>

definition ccrrt_row_min :: "nat \<Rightarrow> real list \<Rightarrow> real list \<Rightarrow> nat \<Rightarrow> real" where
  "ccrrt_row_min n row v j =
     fold (\<lambda>j2 mn. if j2 = j then mn
                   else let c = row ! j2 - v ! j2 in if c < mn then c else mn)
       [0..<n] LARGE"

definition ccrrt_transfer_step ::
  "nat \<Rightarrow> real list list \<Rightarrow> int list \<Rightarrow> bool list \<Rightarrow> nat \<Rightarrow> nat list \<times> real list \<Rightarrow> nat list \<times> real list" where
  "ccrrt_transfer_step n cost x unique i = (\<lambda>(free_rows, v).
     if x ! i < 0 then (free_rows @ [i], v)
     else if unique ! i then
       let j = nat (x ! i); mn = ccrrt_row_min n (cost ! i) v j
       in (free_rows, v[j := v ! j - mn])
     else (free_rows, v))"

text \<open>The result: the free rows (their number is the C return value), \<open>x\<close>, \<open>y\<close> and \<open>v\<close>.\<close>

definition ccrrt_dense :: "nat \<Rightarrow> real list list \<Rightarrow> nat list \<times> int list \<times> int list \<times> real list" where
  "ccrrt_dense n cost =
     (let (v, y) = ccrrt_colmin n cost;
          (x, y, unique) = ccrrt_assign n y;
          (free_rows, v) = fold (ccrrt_transfer_step n cost x unique) [0..<n] ([], v)
      in (free_rows, x, y, v))"

section \<open>Augmenting row reduction: \<open>_carr_dense\<close>\<close>

text \<open>The two least reduced costs of a row and their columns \<open>(j1, v1, j2, v2)\<close>.\<close>

definition carr_two_min :: "nat \<Rightarrow> real list \<Rightarrow> real list \<Rightarrow> nat \<times> real \<times> int \<times> real" where
  "carr_two_min n row v =
     fold (\<lambda>j (j1, v1, j2, v2).
             let c = row ! j - v ! j in
             if c < v2 then
               (if v1 \<le> c then (j1, v1, int j, c) else (j, c, int j1, v1))
             else (j1, v1, j2, v2))
       [1..<n] (0, row ! 0 - v ! 0, -1, LARGE)"

record carr_state =
  cr_current :: nat
  cr_new :: nat          \<comment> \<open>\<open>new_free_rows\<close>\<close>
  cr_rr :: nat           \<comment> \<open>\<open>rr_cnt\<close>\<close>
  cr_free :: "nat list"  \<comment> \<open>\<open>free_rows\<close>\<close>
  cr_x :: "int list"
  cr_y :: "int list"
  cr_v :: "real list"

text \<open>One round of the \<open>while (current < n_free_rows)\<close> loop.\<close>

definition carr_body :: "nat \<Rightarrow> real list list \<Rightarrow> carr_state \<Rightarrow> carr_state" where
  "carr_body n cost s =
     (let rr = Suc (cr_rr s);
          free_i = cr_free s ! cr_current s;
          current = Suc (cr_current s);
          v = cr_v s; x = cr_x s; y = cr_y s;
          (j1, v1, j2, v2) = carr_two_min n (cost ! free_i) v;
          i0 = y ! j1;
          v1_new = v ! j1 - (v2 - v1);
          v1_lowers = v1_new < v ! j1
      in if rr < current * n then
           let v' = (if v1_lowers then v[j1 := v1_new] else v);
               (j1', i0') = (if \<not> v1_lowers \<and> 0 \<le> i0 \<and> 0 \<le> j2
                             then (nat j2, y ! nat j2) else (j1, i0));
               (current', free', new') =
                 (if 0 \<le> i0' then
                    (if v1_lowers then (current - 1, (cr_free s)[current - 1 := nat i0'], cr_new s)
                     else (current, (cr_free s)[cr_new s := nat i0'], Suc (cr_new s)))
                  else (current, cr_free s, cr_new s))
           in \<lparr>cr_current = current', cr_new = new', cr_rr = rr, cr_free = free',
               cr_x = x[free_i := int j1'], cr_y = y[j1' := int free_i], cr_v = v'\<rparr>
         else
           let (free', new') =
                 (if 0 \<le> i0 then ((cr_free s)[cr_new s := nat i0], Suc (cr_new s))
                  else (cr_free s, cr_new s))
           in \<lparr>cr_current = current, cr_new = new', cr_rr = rr, cr_free = free',
               cr_x = x[free_i := int j1], cr_y = y[j1 := int free_i], cr_v = v\<rparr>)"

lemma carr_body_rr: "cr_rr (carr_body n cost s) = Suc (cr_rr s)"
  by (simp add: carr_body_def Let_def split: prod.split)

lemma carr_body_current:
  "Suc (cr_current s) * n \<le> Suc (cr_rr s) \<Longrightarrow> cr_current (carr_body n cost s) = Suc (cr_current s)"
  by (simp add: carr_body_def Let_def split: prod.split)

text \<open>
  The loop ends: \<open>rr_cnt\<close> grows in every round, and once it has reached \<open>current * n\<close> no row is
  put back, so \<open>current\<close> grows too.
\<close>

function carr_loop :: "nat \<Rightarrow> real list list \<Rightarrow> nat \<Rightarrow> carr_state \<Rightarrow> carr_state" where
  "carr_loop n cost n_free s =
     (if cr_current s < n_free then carr_loop n cost n_free (carr_body n cost s) else s)"
  by pat_completeness auto
termination
proof (relation "measures [\<lambda>(n, cost, n_free, s). n_free * n - cr_rr s,
    \<lambda>(n, cost, n_free, s). n_free - cr_current s]", goal_cases)
  case (2 n cost n_free s)
  show ?case
  proof (cases "cr_rr s < n_free * n")
    case True
    then show ?thesis by (simp add: carr_body_rr diff_less_mono2)
  next
    case False
    from 2 have "Suc (cr_current s) * n \<le> n_free * n"
      by (intro mult_le_mono1) simp
    with False have "Suc (cr_current s) * n \<le> Suc (cr_rr s)" by simp
    with 2 False show ?thesis
      by (simp add: carr_body_rr carr_body_current)
  qed
qed simp

declare carr_loop.simps [simp del]

text \<open>The first \<open>new_free_rows\<close> entries of \<open>free_rows\<close> are the rows still free.\<close>

definition carr_dense ::
  "nat \<Rightarrow> real list list \<Rightarrow> nat list \<times> int list \<times> int list \<times> real list
     \<Rightarrow> nat list \<times> int list \<times> int list \<times> real list" where
  "carr_dense n cost = (\<lambda>(free_rows, x, y, v).
     let s = carr_loop n cost (length free_rows)
               \<lparr>cr_current = 0, cr_new = 0, cr_rr = 0, cr_free = free_rows,
                cr_x = x, cr_y = y, cr_v = v\<rparr>
     in (take (cr_new s) (cr_free s), cr_x s, cr_y s, cr_v s))"

section \<open>Shortest augmenting path: \<open>_find_dense\<close>, \<open>_scan_dense\<close>, \<open>find_path_dense\<close>\<close>

text \<open>
  \<open>cols[0..lo)\<close> are the columns ready, \<open>cols[lo..hi)\<close> those to scan at the current distance,
  \<open>cols[hi..n)\<close> the rest.
\<close>

definition find_step ::
  "nat \<Rightarrow> real list \<Rightarrow> nat \<Rightarrow> nat \<times> real \<times> nat list \<Rightarrow> nat \<times> real \<times> nat list" where
  "find_step lo d k = (\<lambda>(hi, mind, cols).
     let j = cols ! k in
     if d ! j \<le> mind then
       let (hi, mind) = (if d ! j < mind then (lo, d ! j) else (hi, mind));
           cols = cols[k := cols ! hi];
           cols = cols[hi := j]
       in (Suc hi, mind, cols)
     else (hi, mind, cols))"

definition find_dense :: "nat \<Rightarrow> nat \<Rightarrow> real list \<Rightarrow> nat list \<Rightarrow> nat \<times> nat list" where
  "find_dense n lo d cols =
     (let (hi, mind, cols) = fold (find_step lo d) [Suc lo..<n] (Suc lo, d ! (cols ! lo), cols)
      in (hi, cols))"

text \<open>The variables of \<open>find_path_dense\<close> that \<open>_scan_dense\<close> reads and writes by address.\<close>

record path_state =
  p_lo :: nat
  p_hi :: nat
  p_d :: "real list"
  p_cols :: "nat list"
  p_pred :: "nat list"

text \<open>
  The inner loop of \<open>_scan_dense\<close> over the positions \<open>k\<close> with its early \<open>return j\<close> (\<^const>\<open>Inl\<close>);
  \<open>hi\<close>, \<open>d\<close>, \<open>cols\<close> and \<open>pred\<close> are the loop's state.
\<close>

fun scan_row ::
  "real list \<Rightarrow> real list \<Rightarrow> real \<Rightarrow> real \<Rightarrow> nat \<Rightarrow> int list \<Rightarrow> nat list
     \<Rightarrow> nat \<times> real list \<times> nat list \<times> nat list
     \<Rightarrow> (nat \<times> real list \<times> nat list \<times> nat list) + (nat \<times> real list \<times> nat list \<times> nat list)" where
  "scan_row row v h mind i y [] st = Inr st"
| "scan_row row v h mind i y (k # ks) (hi, d, cols, pred) =
     (let j = cols ! k; cred = row ! j - v ! j - h in
      if cred < d ! j then
        let d = d[j := cred]; pred = pred[j := i] in
        if cred = mind then
          (if y ! j < 0 then Inl (j, d, cols, pred)
           else
             let cols = cols[k := cols ! hi];
                 cols = cols[hi := j]
             in scan_row row v h mind i y ks (Suc hi, d, cols, pred))
        else scan_row row v h mind i y ks (hi, d, cols, pred)
      else scan_row row v h mind i y ks (hi, d, cols, pred))"

text \<open>
  \<open>lo\<close> and \<open>hi\<close> are the local copies of \<open>*plo\<close> and \<open>*phi\<close>, written back only when the loop runs
  to its end.  The result \<open>-1\<close> is the C return value for ``no unassigned column reached''.
\<close>

partial_function (option) scan_dense ::
  "nat \<Rightarrow> real list list \<Rightarrow> int list \<Rightarrow> real list \<Rightarrow> nat \<Rightarrow> nat \<Rightarrow> path_state \<Rightarrow> (int \<times> path_state) option" where
  "scan_dense n cost y v lo hi p =
     (if lo = hi then Some (-1, p\<lparr>p_lo := lo, p_hi := hi\<rparr>)
      else
        let j = p_cols p ! lo; i = nat (y ! j); mind = p_d p ! j;
            h = cost ! i ! j - v ! j - mind
        in case scan_row (cost ! i) v h mind i y [hi..<n] (hi, p_d p, p_cols p, p_pred p) of
             Inl (j, d, cols, pred) \<Rightarrow> Some (int j, p\<lparr>p_d := d, p_cols := cols, p_pred := pred\<rparr>)
           | Inr (hi, d, cols, pred) \<Rightarrow>
               scan_dense n cost y v (Suc lo) hi (p\<lparr>p_d := d, p_cols := cols, p_pred := pred\<rparr>))"

text \<open>The part of a round of \<open>find_path_dense\<close>'s loop that runs when \<open>lo == hi\<close>.\<close>

definition path_find :: "nat \<Rightarrow> int list \<Rightarrow> path_state \<Rightarrow> path_state \<times> int" where
  "path_find n y p =
     (let (hi, cols) = find_dense n (p_lo p) (p_d p) (p_cols p);
          final_j = fold (\<lambda>k f. let j = cols ! k in if y ! j < 0 then int j else f)
                      [p_lo p..<hi] (-1)
      in (p\<lparr>p_hi := hi, p_cols := cols\<rparr>, final_j))"

partial_function (option) path_loop ::
  "nat \<Rightarrow> real list list \<Rightarrow> int list \<Rightarrow> real list \<Rightarrow> path_state \<Rightarrow> nat \<Rightarrow> int
     \<Rightarrow> (path_state \<times> nat \<times> int) option" where
  "path_loop n cost y v p n_ready final_j =
     (if final_j \<noteq> -1 then Some (p, n_ready, final_j)
      else
        let (p, n_ready, final_j) =
              (if p_lo p = p_hi p
               then let (p', f) = path_find n y p in (p', p_lo p, f)
               else (p, n_ready, final_j))
        in if final_j = -1 then
             Option.bind (scan_dense n cost y v (p_lo p) (p_hi p) p)
               (\<lambda>(final_j, p). path_loop n cost y v p n_ready final_j)
           else path_loop n cost y v p n_ready final_j)"

text \<open>The prices of the ready columns move by their distance to the end of the path.\<close>

definition path_prices :: "path_state \<Rightarrow> nat \<Rightarrow> real list \<Rightarrow> real list" where
  "path_prices p n_ready v =
     (let mind = p_d p ! (p_cols p ! p_lo p)
      in fold (\<lambda>k v. let j = p_cols p ! k in v[j := v ! j + (p_d p ! j - mind)]) [0..<n_ready] v)"

definition find_path_dense ::
  "nat \<Rightarrow> real list list \<Rightarrow> nat \<Rightarrow> int list \<Rightarrow> real list \<Rightarrow> (nat \<times> nat list \<times> real list) option" where
  "find_path_dense n cost start_i y v =
     (let p = \<lparr>p_lo = 0, p_hi = 0,
               p_d = map (\<lambda>i. cost ! start_i ! i - v ! i) [0..<n],
               p_cols = [0..<n], p_pred = replicate n start_i\<rparr>
      in map_option (\<lambda>(p, n_ready, final_j). (nat final_j, p_pred p, path_prices p n_ready v))
           (path_loop n cost y v p 0 (-1)))"

section \<open>Augmentation and the solver: \<open>_ca_dense\<close>, \<open>lapjv_internal\<close>\<close>

text \<open>The \<open>while (i != *pfree_i)\<close> loop that turns the path around.\<close>

partial_function (option) augment ::
  "nat \<Rightarrow> nat list \<Rightarrow> nat \<Rightarrow> int list \<Rightarrow> int list \<Rightarrow> (int list \<times> int list) option" where
  "augment free_i pred j x y =
     (let i = pred ! j;
          y = y[j := int i];
          j' = x ! i;
          x = x[i := int j]
      in if i = free_i then Some (x, y) else augment free_i pred (nat j') x y)"

declare scan_dense.simps [code] path_loop.simps [code] augment.simps [code]

fun ca_dense ::
  "nat \<Rightarrow> real list list \<Rightarrow> nat list \<Rightarrow> int list \<times> int list \<times> real list
     \<Rightarrow> (int list \<times> int list \<times> real list) option" where
  "ca_dense n cost [] st = Some st"
| "ca_dense n cost (free_i # fs) (x, y, v) =
     (case find_path_dense n cost free_i y v of
        None \<Rightarrow> None
      | Some (j, pred, v) \<Rightarrow>
          (case augment free_i pred j x y of
             None \<Rightarrow> None
           | Some (x, y) \<Rightarrow> ca_dense n cost fs (x, y, v)))"

text \<open>\<open>while (ret > 0 && i < 2)\<close>.\<close>

fun carr_rounds ::
  "nat \<Rightarrow> nat \<Rightarrow> real list list \<Rightarrow> nat list \<times> int list \<times> int list \<times> real list
     \<Rightarrow> nat list \<times> int list \<times> int list \<times> real list" where
  "carr_rounds 0 n cost st = st"
| "carr_rounds (Suc k) n cost st =
     (if 0 < length (fst st) then carr_rounds k n cost (carr_dense n cost st) else st)"

text \<open>The C return value and the arrays \<open>x\<close> and \<open>y\<close>; \<^const>\<open>None\<close> when it does not return.\<close>

definition lapjv_internal :: "nat \<Rightarrow> real list list \<Rightarrow> (int \<times> int list \<times> int list) option" where
  "lapjv_internal n cost =
     (let (free_rows, x, y, v) = carr_rounds 2 n cost (ccrrt_dense n cost)
      in if 0 < length free_rows
         then map_option (\<lambda>(x, y, v). (0, x, y)) (ca_dense n cost free_rows (x, y, v))
         else Some (int (length free_rows), x, y))"

end
