(* ===== verification/LapjvReduce.thy ===== *)
theory LapjvReduce imports Lapjv begin

text \<open>
  The invariant of the solver's arrays (\<open>lap_inv\<close>) and the proof that the first two phases,
  \<open>_ccrrt_dense\<close> and \<open>_carr_dense\<close>, establish and keep it.

  \<open>F\<close> is the set of the rows that are still free.  The other rows are in one-to-one
  correspondence, through \<open>x\<close> and \<open>y\<close>, with the columns \<open>j\<close> that have \<open>y[j] \<noteq> -1\<close>; the column
  of a matched row has the least reduced cost \<open>cost[i][j] - v[j]\<close> of the row; and an unmatched
  column has a price of at least zero.
\<close>

section \<open>The invariant\<close>

abbreviation rcost :: "real list list \<Rightarrow> real list \<Rightarrow> nat \<Rightarrow> nat \<Rightarrow> real" where
  "rcost cost v i j \<equiv> cost ! i ! j - v ! j"

definition cost_within :: "nat \<Rightarrow> real \<Rightarrow> real list list \<Rightarrow> bool" where
  "cost_within n C cost \<longleftrightarrow>
     (\<forall>i<n. \<forall>j<n. 0 \<le> cost ! i ! j \<and> cost ! i ! j \<le> C)"

definition pmatch :: "nat \<Rightarrow> nat set \<Rightarrow> int list \<Rightarrow> int list \<Rightarrow> bool" where
  "pmatch n F x y \<longleftrightarrow>
     length x = n \<and> length y = n \<and> F \<subseteq> {..<n} \<and>
     (\<forall>i<n. i \<notin> F \<longrightarrow> 0 \<le> x ! i \<and> x ! i < int n \<and> y ! nat (x ! i) = int i) \<and>
     (\<forall>j<n. y ! j \<noteq> -1 \<longrightarrow>
        0 \<le> y ! j \<and> y ! j < int n \<and> nat (y ! j) \<notin> F \<and> x ! nat (y ! j) = int j)"

definition dual_ok :: "nat \<Rightarrow> real list list \<Rightarrow> real list \<Rightarrow> int list \<Rightarrow> bool" where
  "dual_ok n cost v y \<longleftrightarrow>
     (\<forall>j<n. y ! j \<noteq> -1 \<longrightarrow>
        (\<forall>j'<n. rcost cost v (nat (y ! j)) j \<le> rcost cost v (nat (y ! j)) j'))"

definition free_low :: "nat \<Rightarrow> int list \<Rightarrow> real list \<Rightarrow> bool" where
  "free_low n y v \<longleftrightarrow> (\<forall>j<n. y ! j = -1 \<longrightarrow> 0 \<le> v ! j)"

definition lap_inv ::
  "nat \<Rightarrow> real list list \<Rightarrow> nat set \<Rightarrow> int list \<Rightarrow> int list \<Rightarrow> real list \<Rightarrow> bool" where
  "lap_inv n cost F x y v \<longleftrightarrow>
     length v = n \<and> pmatch n F x y \<and> dual_ok n cost v y \<and> free_low n y v"

lemma cost_withinD: "cost_within n C cost \<Longrightarrow> i < n \<Longrightarrow> j < n \<Longrightarrow> 0 \<le> cost ! i ! j \<and> cost ! i ! j \<le> C"
  by (simp add: cost_within_def)

lemma pmatch_lengths: "pmatch n F x y \<Longrightarrow> length x = n \<and> length y = n \<and> F \<subseteq> {..<n}"
  by (simp add: pmatch_def)

lemma pmatch_row:
  "pmatch n F x y \<Longrightarrow> i < n \<Longrightarrow> i \<notin> F \<Longrightarrow> 0 \<le> x ! i \<and> x ! i < int n \<and> y ! nat (x ! i) = int i"
  by (simp add: pmatch_def)

lemma pmatch_col:
  "pmatch n F x y \<Longrightarrow> j < n \<Longrightarrow> y ! j \<noteq> -1 \<Longrightarrow>
     0 \<le> y ! j \<and> y ! j < int n \<and> nat (y ! j) \<notin> F \<and> x ! nat (y ! j) = int j"
  by (simp add: pmatch_def)

lemma pmatch_y_neg: "pmatch n F x y \<Longrightarrow> j < n \<Longrightarrow> y ! j < 0 \<longleftrightarrow> y ! j = -1"
  using pmatch_col [of n F x y j] by fastforce

text \<open>While a row is free, so is a column.\<close>

lemma free_col_exists:
  assumes pm: "pmatch n F x y" and "F \<noteq> {}"
  shows "\<exists>j<n. y ! j = -1"
proof (rule ccontr)
  assume "\<not> ?thesis"
  then have all: "y ! j \<noteq> -1" if "j < n" for j using that by blast
  have inj: "inj_on (\<lambda>j. nat (y ! j)) {..<n}"
  proof (rule inj_onI)
    fix j k assume "j \<in> {..<n}" "k \<in> {..<n}" and eq: "nat (y ! j) = nat (y ! k)"
    then have "j < n" "k < n" by auto
    then have "x ! nat (y ! j) = int j" and "x ! nat (y ! k) = int k"
      using pmatch_col [OF pm \<open>j < n\<close>] pmatch_col [OF pm \<open>k < n\<close>] all by blast+
    with eq have "int j = int k" by metis
    then show "j = k" by simp
  qed
  have sub: "(\<lambda>j. nat (y ! j)) ` {..<n} \<subseteq> {..<n} - F"
    using pmatch_col [OF pm] all by fastforce
  have fin: "finite F" and "F \<subseteq> {..<n}"
    using pmatch_lengths [OF pm] finite_subset by blast+
  have "n = card ((\<lambda>j. nat (y ! j)) ` {..<n})"
    using card_image [OF inj] by simp
  also have "\<dots> \<le> card ({..<n} - F)"
    using sub by (intro card_mono) auto
  also have "\<dots> < n"
    using \<open>F \<noteq> {}\<close> \<open>F \<subseteq> {..<n}\<close> fin
    by (metis Diff_subset card_lessThan double_diff finite_lessThan psubsetI psubset_card_mono subset_antisym
        Diff_cancel)
  finally show False by simp
qed

text \<open>Hence no price is below minus the greatest cost, and reduced costs stay bounded.\<close>

lemma price_lower:
  assumes inv: "lap_inv n cost F x y v" and "F \<noteq> {}" and cw: "cost_within n C cost" and "j < n"
  shows "- C \<le> v ! j"
proof -
  from inv have pm: "pmatch n F x y" and d: "dual_ok n cost v y" and f: "free_low n y v"
    by (auto simp: lap_inv_def)
  obtain k where k: "k < n" "y ! k = -1" using free_col_exists [OF pm \<open>F \<noteq> {}\<close>] by blast
  show ?thesis
  proof (cases "y ! j = -1")
    case True
    then have "0 \<le> v ! j" using f \<open>j < n\<close> by (simp add: free_low_def)
    moreover have "0 \<le> C" using cost_withinD [OF cw \<open>j < n\<close> \<open>j < n\<close>] by linarith
    ultimately show ?thesis by simp
  next
    case False
    let ?i = "nat (y ! j)"
    have i: "?i < n" using pmatch_col [OF pm \<open>j < n\<close> False] by auto
    have "rcost cost v ?i j \<le> rcost cost v ?i k"
      using d \<open>j < n\<close> False k by (simp add: dual_ok_def)
    moreover have "0 \<le> v ! k" using f k by (simp add: free_low_def)
    ultimately show ?thesis
      using cost_withinD [OF cw i \<open>j < n\<close>] cost_withinD [OF cw i \<open>k < n\<close>] by linarith
  qed
qed

lemma rcost_bound:
  assumes "lap_inv n cost F x y v" and "F \<noteq> {}" and "cost_within n C cost" and "i < n" "j < n"
  shows "rcost cost v i j \<le> 2 * C"
  using price_lower [OF assms(1-3) \<open>j < n\<close>] cost_withinD [OF assms(3-5)] by linarith

text \<open>Assigning a free row to its best column, whose price may fall, keeps the invariant.\<close>

lemma lap_inv_assign:
  assumes inv: "lap_inv n cost F x y v" and "i \<in> F" and "j < n"
    and v': "v' = v[j := w]" "w \<le> v ! j"
    and best: "\<And>j'. j' < n \<Longrightarrow> rcost cost v' i j \<le> rcost cost v' i j'"
  shows "lap_inv n cost (F - {i} \<union> (if 0 \<le> y ! j then {nat (y ! j)} else {}))
           (x[i := int j]) (y[j := int i]) v'"
proof -
  from inv have pm: "pmatch n F x y" and d: "dual_ok n cost v y" and f: "free_low n y v"
    and lv: "length v = n" by (auto simp: lap_inv_def)
  let ?F = "F - {i} \<union> (if 0 \<le> y ! j then {nat (y ! j)} else {})"
  from pm have lx: "length x = n" and ly: "length y = n" and "F \<subseteq> {..<n}" and i: "i < n"
    using \<open>i \<in> F\<close> by (auto simp: pmatch_def)
  have yj: "0 \<le> y ! j \<longleftrightarrow> y ! j \<noteq> -1" using pmatch_y_neg [OF pm \<open>j < n\<close>] by auto
  have pm': "pmatch n ?F (x[i := int j]) (y[j := int i])"
    unfolding pmatch_def
  proof (intro conjI allI impI)
    show "?F \<subseteq> {..<n}" using \<open>F \<subseteq> {..<n}\<close> pmatch_col [OF pm \<open>j < n\<close>] yj by auto
  next
    fix r assume r: "r < n" "r \<notin> ?F"
    show "0 \<le> x[i := int j] ! r" "x[i := int j] ! r < int n"
      using r pmatch_row [OF pm, of r] \<open>j < n\<close> i lx by (auto simp: nth_list_update)
    show "y[j := int i] ! nat (x[i := int j] ! r) = int r"
    proof (cases "r = i")
      case True
      then show ?thesis using i lx ly \<open>j < n\<close> by simp
    next
      case False
      then have "r \<notin> F" using r by auto
      note row = pmatch_row [OF pm \<open>r < n\<close> this]
      have "nat (x ! r) \<noteq> j"
      proof
        assume "nat (x ! r) = j"
        with row have "y ! j = int r" by auto
        with r show False by auto
      qed
      with row False ly show ?thesis by simp
    qed
  next
    fix k assume k: "k < n" "y[j := int i] ! k \<noteq> -1"
    show "0 \<le> y[j := int i] ! k" "y[j := int i] ! k < int n"
      using k pmatch_col [OF pm, of k] i ly \<open>j < n\<close> by (auto simp: nth_list_update split: if_splits)
    show "nat (y[j := int i] ! k) \<notin> ?F"
    proof (cases "k = j")
      case True
      then show ?thesis using \<open>j < n\<close> ly \<open>i \<in> F\<close> pmatch_col [OF pm \<open>j < n\<close>] yj by auto
    next
      case False
      then have yk: "y ! k \<noteq> -1" using k by simp
      note col = pmatch_col [OF pm \<open>k < n\<close> yk]
      have "nat (y ! k) \<noteq> nat (y ! j)" if "0 \<le> y ! j"
      proof
        assume "nat (y ! k) = nat (y ! j)"
        then show False using col pmatch_col [OF pm \<open>j < n\<close>] that yj False by auto
      qed
      then show ?thesis using col False by auto
    qed
    show "x[i := int j] ! nat (y[j := int i] ! k) = int k"
      using k pmatch_col [OF pm, of k] i lx ly \<open>i \<in> F\<close> \<open>j < n\<close> by (auto simp: nth_list_update split: if_splits)
  qed (use lx ly in auto)
  have dual': "dual_ok n cost v' (y[j := int i])"
    unfolding dual_ok_def
  proof (intro allI impI)
    fix k k' assume k: "k < n" "y[j := int i] ! k \<noteq> -1" and k': "k' < n"
    show "rcost cost v' (nat (y[j := int i] ! k)) k \<le> rcost cost v' (nat (y[j := int i] ! k)) k'"
    proof (cases "k = j")
      case True
      then show ?thesis using best k' \<open>j < n\<close> ly by simp
    next
      case False
      then have "y ! k \<noteq> -1" using k by simp
      then have "rcost cost v (nat (y ! k)) k \<le> rcost cost v (nat (y ! k)) k'"
        using d k k' by (simp add: dual_ok_def)
      moreover have "v' ! k' \<le> v ! k'" using v' lv \<open>j < n\<close> by (auto simp: nth_list_update)
      ultimately show ?thesis using False v' by simp
    qed
  qed
  have "free_low n (y[j := int i]) v'"
    using f v' lv ly \<open>j < n\<close> by (auto simp: free_low_def nth_list_update split: if_splits)
  with pm' dual' lv v' show ?thesis by (simp add: lap_inv_def)
qed

section \<open>\<open>_ccrrt_dense\<close>\<close>

text \<open>What the search for the column minima has established of a column after \<open>m\<close> rows.\<close>

definition colmin_ok :: "real list list \<Rightarrow> nat \<Rightarrow> nat \<Rightarrow> real list \<Rightarrow> int list \<Rightarrow> bool" where
  "colmin_ok cost m j v y \<longleftrightarrow>
     (if m = 0 then v ! j = LARGE \<and> y ! j = 0
      else 0 \<le> y ! j \<and> y ! j < int m \<and> v ! j = cost ! nat (y ! j) ! j \<and>
           (\<forall>i<m. v ! j \<le> cost ! i ! j))"

lemma colmin_ok_step:
  assumes "colmin_ok cost m j v y" and "j < length v" "j < length y" and "cost ! m ! j < LARGE"
    and "(v', y') = ccrrt_min_step cost m j (v, y)"
  shows "colmin_ok cost (Suc m) j v' y'"
  using assms
  by (auto simp: colmin_ok_def ccrrt_min_step_def Let_def less_Suc_eq split: if_splits)

lemma colmin_ok_other:
  assumes "colmin_ok cost m k v y" and "k \<noteq> j" and "(v', y') = ccrrt_min_step cost m' j (v, y)"
  shows "colmin_ok cost m k v' y'"
  using assms by (auto simp: colmin_ok_def ccrrt_min_step_def Let_def split: if_splits)

lemma ccrrt_min_row:
  assumes len: "length v = n" "length y = n" and ok: "\<forall>j<n. colmin_ok cost m j v y"
    and lt: "\<forall>j<n. cost ! m ! j < LARGE"
  shows "case fold (ccrrt_min_step cost m) [0..<n] (v, y) of (v', y') \<Rightarrow>
           length v' = n \<and> length y' = n \<and> (\<forall>j<n. colmin_ok cost (Suc m) j v' y')"
proof -
  let ?I = "\<lambda>k (v', y'). length v' = n \<and> length y' = n \<and>
     (\<forall>j<n. colmin_ok cost (if j < k then Suc m else m) j v' y')"
  have "?I n (fold (ccrrt_min_step cost m) [0..<n] (v, y))"
  proof (rule fold_upt0_inv [where I = ?I])
    show "?I 0 (v, y)" using len ok by simp
  next
    fix k and s :: "real list \<times> int list"
    assume "k < n" and inv: "?I k s"
    obtain v0 y0 where s: "s = (v0, y0)" by (cases s)
    obtain v1 y1 where step: "ccrrt_min_step cost m k (v0, y0) = (v1, y1)"
      by (cases "ccrrt_min_step cost m k (v0, y0)")
    have "length v1 = length v0" "length y1 = length y0"
      using step by (auto simp: ccrrt_min_step_def Let_def split: if_splits)
    moreover have "colmin_ok cost (if j < Suc k then Suc m else m) j v1 y1" if "j < n" for j
    proof (cases "j = k")
      case True
      then show ?thesis
        using colmin_ok_step [OF _ _ _ _ step [symmetric]] inv s \<open>k < n\<close> lt by fastforce
    next
      case False
      then show ?thesis
        using colmin_ok_other [OF _ False step [symmetric]] inv s \<open>j < n\<close> by fastforce
    qed
    ultimately show "?I (Suc k) (ccrrt_min_step cost m k s)"
      using inv s step by simp
  qed
  then show ?thesis by (auto split: prod.splits)
qed

lemma ccrrt_colmin_ok:
  assumes "0 < n" and lt: "\<forall>i<n. \<forall>j<n. cost ! i ! j < LARGE"
    and "ccrrt_colmin n cost = (v, y)"
  shows "length v = n \<and> length y = n \<and> (\<forall>j<n. colmin_ok cost n j v y)"
proof -
  let ?I = "\<lambda>m (v', y'). length v' = n \<and> length y' = n \<and> (\<forall>j<n. colmin_ok cost m j v' y')"
  have "?I n (ccrrt_colmin n cost)"
    unfolding ccrrt_colmin_def
  proof (rule fold_upt0_inv [where I = ?I])
    show "?I 0 (replicate n LARGE, replicate n 0)"
      by (simp add: colmin_ok_def)
  next
    fix m and s :: "real list \<times> int list"
    assume "m < n" "?I m s"
    then show "?I (Suc m) (fold (ccrrt_min_step cost m) [0..<n] s)"
      using ccrrt_min_row [of "fst s" n "snd s" cost m] lt by (cases s) auto
  qed
  then show ?thesis using assms(3) by simp
qed

text \<open>The rows that got a column are matched to it; a column met twice is unmatched again.\<close>

lemma ccrrt_assign_fold:
  assumes len: "length y0 = n" and rng: "\<forall>j<n. 0 \<le> y0 ! j \<and> y0 ! j < int n"
    and js: "distinct js" "set js \<subseteq> {..<n}"
  shows "case fold ccrrt_assign_step js (replicate n (-1), y0, replicate n True) of (x, y, u) \<Rightarrow>
     length x = n \<and> length y = n \<and>
     (\<forall>j<n. j \<notin> set js \<longrightarrow> y ! j = y0 ! j) \<and>
     (\<forall>j\<in>set js. y ! j = -1 \<or> (y ! j = y0 ! j \<and> x ! nat (y0 ! j) = int j)) \<and>
     (\<forall>i<n. x ! i = -1 \<or> (\<exists>j\<in>set js. x ! i = int j \<and> y ! j = int i \<and> y0 ! j = int i))"
  using js
proof (induction js rule: rev_induct)
  case Nil
  show ?case using len by simp
next
  case (snoc j js)
  obtain x y u where st: "fold ccrrt_assign_step js (replicate n (-1), y0, replicate n True) = (x, y, u)"
    by (metis prod_cases3)
  from snoc.prems have j: "j < n" "j \<notin> set js" and js: "distinct js" "set js \<subseteq> {..<n}" by auto
  from snoc.IH [OF js] st have IH: "length x = n" "length y = n"
    "\<forall>k<n. k \<notin> set js \<longrightarrow> y ! k = y0 ! k"
    "\<forall>k\<in>set js. y ! k = -1 \<or> (y ! k = y0 ! k \<and> x ! nat (y0 ! k) = int k)"
    "\<forall>i<n. x ! i = -1 \<or> (\<exists>k\<in>set js. x ! i = int k \<and> y ! k = int i \<and> y0 ! k = int i)"
    by simp_all
  let ?i = "nat (y0 ! j)"
  have yj: "y ! j = y0 ! j" and i: "?i < n" "int ?i = y0 ! j" using IH(3) j rng by auto
  show ?case
  proof (cases "x ! ?i < 0")
    case True
    let ?x = "x[?i := int j]"
    have "\<forall>k\<in>set js. y ! k = -1 \<or> (y ! k = y0 ! k \<and> ?x ! nat (y0 ! k) = int k)"
    proof
      fix k assume "k \<in> set js"
      then have "y ! k = -1 \<or> (y ! k = y0 ! k \<and> x ! nat (y0 ! k) = int k)" using IH(4) by blast
      moreover have "nat (y0 ! k) \<noteq> ?i" if "x ! nat (y0 ! k) = int k" using that True by auto
      ultimately show "y ! k = -1 \<or> (y ! k = y0 ! k \<and> ?x ! nat (y0 ! k) = int k)" by auto
    qed
    moreover have xi: "?x ! ?i = int j" using i IH(1) by simp
    moreover have "\<forall>r<n. ?x ! r = -1 \<or>
        (\<exists>k\<in>insert j (set js). ?x ! r = int k \<and> y ! k = int r \<and> y0 ! k = int r)"
    proof (intro allI impI)
      fix r assume "r < n"
      show "?x ! r = -1 \<or> (\<exists>k\<in>insert j (set js). ?x ! r = int k \<and> y ! k = int r \<and> y0 ! k = int r)"
      proof (cases "r = ?i")
        case True
        then show ?thesis using xi i yj by auto
      next
        case False
        then show ?thesis using IH(5) \<open>r < n\<close> by auto
      qed
    qed
    moreover have "ccrrt_assign_step j (x, y, u) = (?x, y, u)"
      using True yj by (simp add: ccrrt_assign_step_def Let_def)
    ultimately show ?thesis using IH(1,2,3) yj by (simp add: st)
  next
    case False
    let ?y = "y[j := -1]"
    have keep: "?y ! k = y ! k" if "k \<noteq> j" for k using that by simp
    have "\<forall>k\<in>set js. ?y ! k = -1 \<or> (?y ! k = y0 ! k \<and> x ! nat (y0 ! k) = int k)"
      using IH(4) keep j by metis
    moreover have "\<forall>r<n. x ! r = -1 \<or> (\<exists>k\<in>set js. x ! r = int k \<and> ?y ! k = int r \<and> y0 ! k = int r)"
      using IH(5) keep j by metis
    moreover have "?y ! j = -1" using j IH(2) by simp
    moreover have "ccrrt_assign_step j (x, y, u) = (x, ?y, u[?i := False])"
      using False yj by (simp add: ccrrt_assign_step_def Let_def)
    ultimately show ?thesis using IH(1,2,3) by (simp add: st)
  qed
qed

lemma ccrrt_assign_pmatch:
  assumes "length y0 = n" and "\<forall>j<n. 0 \<le> y0 ! j \<and> y0 ! j < int n"
    and "ccrrt_assign n y0 = (x, y, u)"
  shows "pmatch n {i. i < n \<and> x ! i < 0} x y"
    and "\<forall>j<n. y ! j \<noteq> -1 \<longrightarrow> y ! j = y0 ! j"
proof -
  have "set (rev [0..<n]) = {..<n}" by auto
  with ccrrt_assign_fold [OF assms(1,2), of "rev [0..<n]"] assms(3)
  have *: "length x = n" "length y = n"
    "\<forall>j<n. y ! j = -1 \<or> (y ! j = y0 ! j \<and> x ! nat (y0 ! j) = int j)"
    "\<forall>i<n. x ! i = -1 \<or> (\<exists>j<n. x ! i = int j \<and> y ! j = int i \<and> y0 ! j = int i)"
    by (auto simp: ccrrt_assign_def)
  then show "\<forall>j<n. y ! j \<noteq> -1 \<longrightarrow> y ! j = y0 ! j" by auto
  show "pmatch n {i. i < n \<and> x ! i < 0} x y"
    unfolding pmatch_def using * assms(2) by fastforce
qed

lemma ccrrt_row_min_bounds:
  assumes nn: "\<forall>k<n. 0 \<le> row ! k - v ! k"
  shows "0 \<le> ccrrt_row_min n row v j"
    and "k < n \<Longrightarrow> k \<noteq> j \<Longrightarrow> ccrrt_row_min n row v j \<le> row ! k - v ! k"
proof -
  let ?I = "\<lambda>m mn. 0 \<le> mn \<and> (\<forall>k<m. k \<noteq> j \<longrightarrow> mn \<le> row ! k - v ! k)"
  have "?I n (ccrrt_row_min n row v j)"
    unfolding ccrrt_row_min_def
    by (rule fold_upt0_inv [where I = ?I]) (use nn in \<open>auto simp: LARGE_def Let_def less_Suc_eq\<close>)
  then show "0 \<le> ccrrt_row_min n row v j"
    and "k < n \<Longrightarrow> k \<noteq> j \<Longrightarrow> ccrrt_row_min n row v j \<le> row ! k - v ! k" by auto
qed

lemma lap_inv_lower_price:
  assumes inv: "lap_inv n cost F x y v" and i: "i < n" "i \<notin> F"
    and m: "0 \<le> m" "rcost cost v i (nat (x ! i)) = 0"
      "\<And>k. k < n \<Longrightarrow> k \<noteq> nat (x ! i) \<Longrightarrow> m \<le> rcost cost v i k"
  shows "lap_inv n cost F x y (v[nat (x ! i) := v ! nat (x ! i) - m])"
proof -
  let ?j = "nat (x ! i)" and ?v = "v[nat (x ! i) := v ! nat (x ! i) - m]"
  from inv have pm: "pmatch n F x y" and d: "dual_ok n cost v y" and f: "free_low n y v"
    and lv: "length v = n" by (auto simp: lap_inv_def)
  have j: "?j < n" "y ! ?j = int i" using pmatch_row [OF pm i] by auto
  have le: "?v ! k \<le> v ! k" for k using m lv j by (cases "k = ?j") auto
  have "dual_ok n cost ?v y"
    unfolding dual_ok_def
  proof (intro allI impI)
    fix k k' assume k: "k < n" "y ! k \<noteq> -1" "k' < n"
    show "rcost cost ?v (nat (y ! k)) k \<le> rcost cost ?v (nat (y ! k)) k'"
    proof (cases "k = ?j")
      case True
      then have *: "nat (y ! k) = i" "?v ! k = v ! k - m" using j lv by auto
      show ?thesis
      proof (cases "k' = k")
        case False
        then have "m \<le> rcost cost v i k'" using m(3) k True by simp
        then show ?thesis using * m(2) le [of k'] True by simp
      qed simp
    next
      case False
      then show ?thesis
        using d k le [of k'] unfolding dual_ok_def by fastforce
    qed
  qed
  moreover have "free_low n y ?v"
    using f j lv by (auto simp: free_low_def nth_list_update)
  ultimately show ?thesis using pm lv by (simp add: lap_inv_def)
qed

lemma ccrrt_transfer_fold:
  assumes inv: "lap_inv n cost {i. i < n \<and> x ! i < 0} x y v"
    and nn: "\<forall>r<n. \<forall>k<n. 0 \<le> rcost cost v r k"
    and tight: "\<forall>r<n. 0 \<le> x ! r \<longrightarrow> rcost cost v r (nat (x ! r)) = 0"
    and res: "fold (ccrrt_transfer_step n cost x u) [0..<n] ([], v) = (free_rows, v')"
  shows "lap_inv n cost {i. i < n \<and> x ! i < 0} x y v'"
    and "free_rows = filter (\<lambda>i. x ! i < 0) [0..<n]"
proof -
  let ?F = "{i. i < n \<and> x ! i < 0}"
  let ?I = "\<lambda>i (fr, v'). fr = filter (\<lambda>i. x ! i < 0) [0..<i] \<and> lap_inv n cost ?F x y v' \<and>
     (\<forall>r<n. \<forall>k<n. 0 \<le> rcost cost v' r k) \<and>
     (\<forall>r<n. i \<le> r \<longrightarrow> 0 \<le> x ! r \<longrightarrow> rcost cost v' r (nat (x ! r)) = 0)"
  have "?I n (fold (ccrrt_transfer_step n cost x u) [0..<n] ([], v))"
  proof (rule fold_upt0_inv [where I = ?I])
    show "?I 0 ([], v)" using inv nn tight by simp
  next
    fix i and s :: "nat list \<times> real list"
    assume i: "i < n" and I: "?I i s"
    obtain fr w where s: "s = (fr, w)" by (cases s)
    from I s have fr: "fr = filter (\<lambda>i. x ! i < 0) [0..<i]" and W: "lap_inv n cost ?F x y w"
      and nnw: "\<forall>r<n. \<forall>k<n. 0 \<le> rcost cost w r k"
      and tw: "\<forall>r<n. i \<le> r \<longrightarrow> 0 \<le> x ! r \<longrightarrow> rcost cost w r (nat (x ! r)) = 0" by simp_all
    show "?I (Suc i) (ccrrt_transfer_step n cost x u i s)"
    proof (cases "0 \<le> x ! i \<and> u ! i")
      case False
      then show ?thesis
        using fr W nnw tw by (auto simp: s ccrrt_transfer_step_def)
    next
      case True
      let ?j = "nat (x ! i)"
      let ?m = "ccrrt_row_min n (cost ! i) w ?j"
      let ?w = "w[?j := w ! ?j - ?m]"
      have pm: "pmatch n ?F x y" and lw: "length w = n" using W by (auto simp: lap_inv_def)
      have iF: "i \<notin> ?F" using True by simp
      note row = pmatch_row [OF pm i iF]
      have m: "0 \<le> ?m" "\<And>k. k < n \<Longrightarrow> k \<noteq> ?j \<Longrightarrow> ?m \<le> rcost cost w i k"
        using ccrrt_row_min_bounds [of n "cost ! i" w] nnw i by auto
      have "lap_inv n cost ?F x y ?w"
        by (rule lap_inv_lower_price [OF W i iF m(1) _ m(2)]) (use tw i True in auto)
      moreover have "\<forall>r<n. \<forall>k<n. 0 \<le> rcost cost ?w r k"
      proof (intro allI impI)
        fix r k assume "r < n" "k < n"
        moreover have "?w ! k \<le> w ! k" using m(1) lw row by (cases "k = ?j") auto
        ultimately show "0 \<le> rcost cost ?w r k" using nnw by fastforce
      qed
      moreover have "rcost cost ?w r (nat (x ! r)) = 0" if r: "r < n" "Suc i \<le> r" "0 \<le> x ! r" for r
      proof -
        have "r \<notin> ?F" using r by simp
        then have "y ! nat (x ! r) = int r" using pmatch_row [OF pm \<open>r < n\<close>] by auto
        then have "nat (x ! r) \<noteq> ?j" using row r by auto
        then show ?thesis using tw r by simp
      qed
      ultimately show ?thesis
        using True fr by (simp add: s ccrrt_transfer_step_def Let_def)
    qed
  qed
  then show "lap_inv n cost ?F x y v'" and "free_rows = filter (\<lambda>i. x ! i < 0) [0..<n]"
    using res by auto
qed

text \<open>The state handed to the later phases: a list of free rows and the arrays.\<close>

definition lap_state_ok ::
  "nat \<Rightarrow> real list list \<Rightarrow> nat list \<times> int list \<times> int list \<times> real list \<Rightarrow> bool" where
  "lap_state_ok n cost = (\<lambda>(fr, x, y, v). distinct fr \<and> lap_inv n cost (set fr) x y v)"

lemma ccrrt_dense_ok:
  assumes n: "0 < n" and cw: "cost_within n C cost" and C: "C < LARGE"
  shows "lap_state_ok n cost (ccrrt_dense n cost)"
proof -
  obtain v0 y0 where cm: "ccrrt_colmin n cost = (v0, y0)" by (cases "ccrrt_colmin n cost")
  obtain x y u where as: "ccrrt_assign n y0 = (x, y, u)" by (metis prod_cases3)
  obtain fr v where tr: "fold (ccrrt_transfer_step n cost x u) [0..<n] ([], v0) = (fr, v)"
    by (cases "fold (ccrrt_transfer_step n cost x u) [0..<n] ([], v0)")
  let ?F = "{i. i < n \<and> x ! i < 0}"
  have "\<forall>i<n. \<forall>j<n. cost ! i ! j < LARGE"
    using cost_withinD [OF cw] C by (meson order_le_less_trans)
  from ccrrt_colmin_ok [OF n this cm] have len: "length v0 = n" "length y0 = n"
    and ok: "\<And>j. j < n \<Longrightarrow> colmin_ok cost n j v0 y0" by auto
  have y0: "\<forall>j<n. 0 \<le> y0 ! j \<and> y0 ! j < int n"
    and v0: "\<And>j. j < n \<Longrightarrow> v0 ! j = cost ! nat (y0 ! j) ! j"
    using ok n by (auto simp: colmin_ok_def)
  have low: "v0 ! j \<le> cost ! i ! j" if "i < n" "j < n" for i j
    using ok [OF \<open>j < n\<close>] that unfolding colmin_ok_def by (metis not_less_zero)
  note pm = ccrrt_assign_pmatch(1) [OF len(2) y0 as] and keep = ccrrt_assign_pmatch(2) [OF len(2) y0 as]
  have nn: "\<forall>r<n. \<forall>k<n. 0 \<le> rcost cost v0 r k" using low by auto
  have tight0: "rcost cost v0 (nat (y ! j)) j = 0" if "j < n" "y ! j \<noteq> -1" for j
    using keep v0 that by simp
  have "dual_ok n cost v0 y"
    unfolding dual_ok_def using tight0 nn pmatch_col [OF pm] by fastforce
  moreover have "free_low n y v0"
    unfolding free_low_def
  proof (intro allI impI)
    fix j assume "j < n"
    moreover from this y0 have "nat (y0 ! j) < n" by auto
    ultimately show "0 \<le> v0 ! j" using v0 cost_withinD [OF cw] by simp
  qed
  ultimately have inv: "lap_inv n cost ?F x y v0" using pm len by (simp add: lap_inv_def)
  have "\<forall>r<n. 0 \<le> x ! r \<longrightarrow> rcost cost v0 r (nat (x ! r)) = 0"
  proof (intro allI impI)
    fix r assume r: "r < n" "0 \<le> x ! r"
    then have "r \<notin> ?F" by simp
    from pmatch_row [OF pm \<open>r < n\<close> this]
    have "0 \<le> x ! r" "nat (x ! r) < n" "y ! nat (x ! r) = int r" by auto
    then show "rcost cost v0 r (nat (x ! r)) = 0" using tight0 [of "nat (x ! r)"] by simp
  qed
  from ccrrt_transfer_fold [OF inv nn this tr]
  have "lap_inv n cost ?F x y v" "fr = filter (\<lambda>i. x ! i < 0) [0..<n]" by auto
  moreover from this have "set fr = ?F" by auto
  ultimately show ?thesis
    by (simp add: lap_state_ok_def ccrrt_dense_def cm as tr)
qed

section \<open>\<open>_carr_dense\<close>\<close>

text \<open>\<open>(j1, v1)\<close> is the least reduced cost of the row, \<open>(j2, v2)\<close> the least of the others.\<close>

lemma carr_two_min_ok:
  assumes n: "0 < n" and lt: "\<forall>k<n. row ! k - v ! k < LARGE"
    and res: "carr_two_min n row v = (j1, v1, j2, v2)"
  shows "j1 < n" and "v1 = row ! j1 - v ! j1" and "k < n \<Longrightarrow> v1 \<le> row ! k - v ! k"
    and "k < n \<Longrightarrow> k \<noteq> j1 \<Longrightarrow> v2 \<le> row ! k - v ! k" and "v1 \<le> v2"
    and "0 \<le> j2 \<Longrightarrow> nat j2 < n \<and> v2 = row ! nat j2 - v ! nat j2"
proof -
  let ?r = "\<lambda>k. row ! k - v ! k"
  let ?I = "\<lambda>m (j1, v1, j2, v2). j1 < m \<and> v1 = ?r j1 \<and> v1 \<le> v2 \<and> v2 \<le> LARGE \<and>
     (\<forall>k<m. v1 \<le> ?r k) \<and> (\<forall>k<m. k \<noteq> j1 \<longrightarrow> v2 \<le> ?r k) \<and>
     (0 \<le> (j2 :: int) \<longrightarrow> nat j2 < m \<and> v2 = ?r (nat j2))"
  have "?I n (carr_two_min n row v)"
    unfolding carr_two_min_def
  proof (rule fold_upt_inv [where I = ?I])
    show "1 \<le> n" using n by simp
    have "?r 0 < LARGE" using lt n by simp
    then show "?I 1 (0, ?r 0, -1, LARGE)" by simp
  next
    fix m and s :: "nat \<times> real \<times> int \<times> real"
    assume m: "1 \<le> m" "m < n" and I: "?I m s"
    obtain a b c d where s: "s = (a, b, c, d)" by (cases s)
    have "?r m < LARGE" using lt m by simp
    with I show "?I (Suc m) ((\<lambda>j (j1, v1, j2, v2). let c = row ! j - v ! j in
             if c < v2 then (if v1 \<le> c then (j1, v1, int j, c) else (j, c, int j1, v1))
             else (j1, v1, j2, v2)) m s)"
      by (auto simp: s Let_def less_Suc_eq order_less_imp_le intro: order_trans)
  qed
  then show "j1 < n" and "v1 = row ! j1 - v ! j1" and "k < n \<Longrightarrow> v1 \<le> row ! k - v ! k"
    and "k < n \<Longrightarrow> k \<noteq> j1 \<Longrightarrow> v2 \<le> row ! k - v ! k" and "v1 \<le> v2"
    and "0 \<le> j2 \<Longrightarrow> nat j2 < n \<and> v2 = row ! nat j2 - v ! nat j2"
    using res by auto
qed

text \<open>The rows still free are the kept prefix of \<open>free_rows\<close> and its unread suffix.\<close>

definition carr_free :: "carr_state \<Rightarrow> nat list" where
  "carr_free s = take (cr_new s) (cr_free s) @ drop (cr_current s) (cr_free s)"

definition carr_inv :: "nat \<Rightarrow> real list list \<Rightarrow> nat \<Rightarrow> carr_state \<Rightarrow> bool" where
  "carr_inv n cost m s \<longleftrightarrow>
     length (cr_free s) = m \<and> cr_new s \<le> cr_current s \<and> cr_current s \<le> m \<and>
     distinct (carr_free s) \<and> lap_inv n cost (set (carr_free s)) (cr_x s) (cr_y s) (cr_v s)"

lemma take_update_snoc: "k < length xs \<Longrightarrow> take (Suc k) (xs[k := a]) = take k xs @ [a]"
  by (simp add: take_Suc_conv_app_nth)

lemma carr_put_back:
  assumes "c < length fr" "nw \<le> c"
  shows "take nw (fr[c := a]) @ drop c (fr[c := a]) = take nw fr @ a # drop (Suc c) fr"
  using assms by (simp add: Cons_nth_drop_Suc [symmetric])

lemma carr_put_new:
  assumes "c < length fr" "nw \<le> c"
  shows "take (Suc nw) (fr[nw := a]) @ drop (Suc c) (fr[nw := a]) = take nw fr @ a # drop (Suc c) fr"
  using assms by (simp add: take_update_snoc)

lemma carr_inv_assign:
  assumes inv: "carr_inv n cost m s" and cur: "cr_current s < m"
    and i: "i = cr_free s ! cr_current s" and j: "j < n"
    and w: "w \<le> cr_v s ! j"
    and best: "\<And>k. k < n \<Longrightarrow> rcost cost ((cr_v s)[j := w]) i j \<le> rcost cost ((cr_v s)[j := w]) i k"
    and s': "length (cr_free s') = m" "cr_new s' \<le> cr_current s'" "cr_current s' \<le> m"
      "cr_x s' = (cr_x s)[i := int j]" "cr_y s' = (cr_y s)[j := int i]" "cr_v s' = (cr_v s)[j := w]"
    and fr: "carr_free s' = take (cr_new s) (cr_free s) @
        (if 0 \<le> cr_y s ! j then [nat (cr_y s ! j)] else []) @ drop (Suc (cr_current s)) (cr_free s)"
  shows "carr_inv n cost m s'"
proof -
  let ?t = "take (cr_new s) (cr_free s)" and ?d = "drop (Suc (cr_current s)) (cr_free s)"
  let ?y = "cr_y s ! j"
  have len: "length (cr_free s) = m" and L: "lap_inv n cost (set (carr_free s)) (cr_x s) (cr_y s) (cr_v s)"
    and dst: "distinct (carr_free s)" using inv by (auto simp: carr_inv_def)
  have cf: "carr_free s = ?t @ i # ?d"
    using cur len i by (simp add: carr_free_def Cons_nth_drop_Suc [symmetric])
  have iF: "i \<in> set (carr_free s)" by (simp add: cf)
  have pm: "pmatch n (set (carr_free s)) (cr_x s) (cr_y s)" using L by (simp add: lap_inv_def)
  have fresh: "nat ?y \<notin> set (carr_free s)" if "0 \<le> ?y"
    using pmatch_col [OF pm j] that by auto
  have "set (carr_free s') = set (carr_free s) - {i} \<union> (if 0 \<le> ?y then {nat ?y} else {})"
    using dst fr by (auto simp: cf)
  moreover have "distinct (carr_free s')"
    using dst fr fresh by (auto simp: cf)
  moreover have "lap_inv n cost (set (carr_free s) - {i} \<union> (if 0 \<le> ?y then {nat ?y} else {}))
      ((cr_x s)[i := int j]) ((cr_y s)[j := int i]) ((cr_v s)[j := w])"
    by (rule lap_inv_assign [OF L iF j refl w]) (rule best)
  ultimately show ?thesis using s' by (simp add: carr_inv_def)
qed

lemma carr_body_ok:
  assumes inv: "carr_inv n cost m s" and cur: "cr_current s < m"
    and cw: "cost_within n C cost" and C: "2 * C < LARGE"
  shows "carr_inv n cost m (carr_body n cost s)"
proof -
  let ?i = "cr_free s ! cr_current s" and ?v = "cr_v s"
  obtain j1 v1 j2 v2 where tm: "carr_two_min n (cost ! ?i) ?v = (j1, v1, j2, v2)"
    by (metis prod_cases4)
  have len: "length (cr_free s) = m" "cr_new s \<le> cr_current s"
    and L: "lap_inv n cost (set (carr_free s)) (cr_x s) (cr_y s) ?v"
    using inv by (auto simp: carr_inv_def)
  have "?i \<in> set (carr_free s)"
    using cur len by (simp add: carr_free_def Cons_nth_drop_Suc [symmetric])
  then have i: "?i < n" and ne: "set (carr_free s) \<noteq> {}"
    using L by (auto simp: lap_inv_def pmatch_def)
  have "\<forall>k<n. cost ! ?i ! k - ?v ! k < LARGE"
    using rcost_bound [OF L ne cw i] C by fastforce
  note two = carr_two_min_ok [OF _ this tm]
  have n: "0 < n" using i by simp
  have lv: "length ?v = n" using L by (simp add: lap_inv_def)
  let ?w = "?v ! j1 - (v2 - v1)" and ?own = "cr_y s ! j1"
  define swap where "swap = (\<not> ?w < ?v ! j1 \<and> 0 \<le> ?own \<and> 0 \<le> j2 \<and> Suc (cr_rr s) < Suc (cr_current s) * n)"
  show ?thesis
  proof (cases "Suc (cr_rr s) < Suc (cr_current s) * n \<and> ?w < ?v ! j1")
    case True
    show ?thesis
    proof (rule carr_inv_assign [OF inv cur refl two(1) [OF n], where w = ?w])
      show "?w \<le> ?v ! j1" using True by simp
      show "rcost cost (?v[j1 := ?w]) ?i j1 \<le> rcost cost (?v[j1 := ?w]) ?i k" if "k < n" for k
        using two(2-4) [OF n] that lv two(1) [OF n] by (cases "k = j1") auto
    qed (use True tm len cur carr_put_back [of "cr_current s" "cr_free s" "cr_new s"]
         in \<open>simp_all add: carr_body_def Let_def carr_free_def\<close>)
  next
    case False
    define j where "j = (if swap then nat j2 else j1)"
    have v2: "v1 = v2" if swap using that two(5) [OF n] unfolding swap_def by simp
    have tight: "rcost cost ?v ?i j = v1"
    proof (cases swap)
      case True
      then have "0 \<le> j2" by (simp add: swap_def)
      then show ?thesis using two(6) [OF n] v2 True by (simp add: j_def)
    next
      case False
      then show ?thesis using two(2) [OF n] by (simp add: j_def)
    qed
    have body: "carr_body n cost s =
       \<lparr>cr_current = Suc (cr_current s),
        cr_new = (if 0 \<le> cr_y s ! j then Suc (cr_new s) else cr_new s), cr_rr = Suc (cr_rr s),
        cr_free = (if 0 \<le> cr_y s ! j then (cr_free s)[cr_new s := nat (cr_y s ! j)] else cr_free s),
        cr_x = (cr_x s)[?i := int j], cr_y = (cr_y s)[j := int ?i], cr_v = ?v\<rparr>"
    proof (cases "Suc (cr_rr s) < Suc (cr_current s) * n")
      case True
      then have low: "\<not> ?w < ?v ! j1" using False by simp
      show ?thesis
        by (cases swap; cases "0 \<le> ?own")
           (use True low in \<open>simp_all add: carr_body_def tm Let_def j_def swap_def\<close>)
    next
      case False
      then show ?thesis by (simp add: carr_body_def tm Let_def j_def swap_def)
    qed
    have free': "carr_free (carr_body n cost s) = take (cr_new s) (cr_free s) @
        (if 0 \<le> cr_y s ! j then [nat (cr_y s ! j)] else []) @ drop (Suc (cr_current s)) (cr_free s)"
      using carr_put_new [of "cr_current s" "cr_free s" "cr_new s"] cur len
      unfolding body by (simp add: carr_free_def)
    show ?thesis
    proof (rule carr_inv_assign [OF inv cur refl, where j = j and w = "?v ! j"])
      show "j < n" using two(1,6) [OF n] by (auto simp: j_def swap_def)
      show "rcost cost (?v[j := ?v ! j]) ?i j \<le> rcost cost (?v[j := ?v ! j]) ?i k" if "k < n" for k
        using two(3) [OF n that] tight by simp
      show "cr_new (carr_body n cost s) \<le> cr_current (carr_body n cost s)"
        using len(2) by (simp add: body)
      show "carr_free (carr_body n cost s) = take (cr_new s) (cr_free s) @
        (if 0 \<le> cr_y s ! j then [nat (cr_y s ! j)] else []) @ drop (Suc (cr_current s)) (cr_free s)"
        by (rule free')
      show "length (cr_free (carr_body n cost s)) = m" "cr_current (carr_body n cost s) \<le> m"
        using len(1) cur by (simp_all add: body)
    qed (simp_all add: body)
  qed
qed

lemma carr_loop_ok:
  assumes "carr_inv n cost m s" and "cost_within n C cost" and "2 * C < LARGE"
  shows "carr_inv n cost m (carr_loop n cost m s) \<and> m \<le> cr_current (carr_loop n cost m s)"
  using assms
proof (induction n cost m s rule: carr_loop.induct)
  case (1 n cost m s)
  show ?case
  proof (cases "cr_current s < m")
    case True
    then show ?thesis
      using 1 carr_body_ok [OF 1(2) True 1(3,4)] by (simp add: carr_loop.simps [of n cost m s])
  next
    case False
    then show ?thesis using 1(2) by (simp add: carr_loop.simps [of n cost m s])
  qed
qed

lemma carr_dense_ok:
  assumes ok: "lap_state_ok n cost st" and cw: "cost_within n C cost" and C: "2 * C < LARGE"
  shows "lap_state_ok n cost (carr_dense n cost st)"
proof -
  obtain fr x y v where st: "st = (fr, x, y, v)" by (metis prod_cases4)
  let ?s = "\<lparr>cr_current = 0, cr_new = 0, cr_rr = 0, cr_free = fr, cr_x = x, cr_y = y, cr_v = v\<rparr>"
  let ?t = "carr_loop n cost (length fr) ?s"
  have "carr_inv n cost (length fr) ?s"
    using ok by (simp add: st lap_state_ok_def carr_inv_def carr_free_def)
  from carr_loop_ok [OF this cw C] have "carr_inv n cost (length fr) ?t" "length fr \<le> cr_current ?t" by auto
  moreover from this have "carr_free ?t = take (cr_new ?t) (cr_free ?t)"
    by (simp add: carr_inv_def carr_free_def)
  ultimately show ?thesis
    by (simp add: st carr_dense_def Let_def lap_state_ok_def carr_inv_def)
qed

lemma carr_rounds_ok:
  assumes "lap_state_ok n cost st" and "cost_within n C cost" and "2 * C < LARGE"
  shows "lap_state_ok n cost (carr_rounds k n cost st)"
  using assms carr_dense_ok by (induction k arbitrary: st) auto

end
