(* ===== verification/LapjvPath.thy ===== *)
theory LapjvPath imports LapjvReduce begin

text \<open>
  The shortest augmenting path phase: \<open>find_path_dense\<close> returns, the path it finds ends in an
  unmatched column, the new prices keep every matched row on a column of least reduced cost,
  and \<open>augment\<close> turns the path around without losing a matched row.

  The columns are kept in the array \<open>cols\<close>: positions below \<open>lo\<close> are ready, positions from
  \<open>lo\<close> to \<open>hi\<close> are to be scanned, and all of them are at distance at most \<open>mu\<close>.
\<close>

section \<open>The search invariant\<close>

definition pred_ok ::
  "real list list \<Rightarrow> real list \<Rightarrow> nat \<Rightarrow> int list \<Rightarrow> nat \<Rightarrow> real list \<Rightarrow> nat list \<Rightarrow> nat list \<Rightarrow> nat \<Rightarrow> bool" where
  "pred_ok cost v s y L d cols pred m \<longleftrightarrow>
     (pred ! (cols ! m) = s \<and> d ! (cols ! m) = rcost cost v s (cols ! m)) \<or>
     (\<exists>k<L. k < m \<and> y ! (cols ! k) = int (pred ! (cols ! m)) \<and>
        d ! (cols ! m) = d ! (cols ! k) + rcost cost v (pred ! (cols ! m)) (cols ! m)
                                        - rcost cost v (pred ! (cols ! m)) (cols ! k))"

lemma pred_ok_transfer:
  assumes ok: "pred_ok cost v s y L d cols pred q"
    and eq: "cols' ! m = cols ! q" "d' ! (cols ! q) = d ! (cols ! q)" "pred' ! (cols ! q) = pred ! (cols ! q)"
    and low: "\<And>k. k < L \<Longrightarrow> k < q \<Longrightarrow> k < m \<and> cols' ! k = cols ! k \<and> d' ! (cols ! k) = d ! (cols ! k)"
  shows "pred_ok cost v s y L d' cols' pred' m"
  using ok unfolding pred_ok_def [of cost v s y L d cols pred q]
proof (elim disjE exE conjE)
  fix k assume k: "k < L" "k < q" "y ! (cols ! k) = int (pred ! (cols ! q))"
    "d ! (cols ! q) = d ! (cols ! k) + rcost cost v (pred ! (cols ! q)) (cols ! q)
                                        - rcost cost v (pred ! (cols ! q)) (cols ! k)"
  with low [OF k(1,2)] eq show ?thesis
    unfolding pred_ok_def by (intro disjI2 exI [of _ k]) simp
qed (simp add: pred_ok_def eq)

text \<open>The distance of a column is at most the one through a scanned column.\<close>

definition relaxed ::
  "real list list \<Rightarrow> real list \<Rightarrow> int list \<Rightarrow> real list \<Rightarrow> nat \<Rightarrow> nat \<Rightarrow> bool" where
  "relaxed cost v y d c j \<longleftrightarrow>
     d ! j \<le> d ! c + rcost cost v (nat (y ! c)) j - rcost cost v (nat (y ! c)) c"

definition path_core ::
  "nat \<Rightarrow> real list list \<Rightarrow> real list \<Rightarrow> nat \<Rightarrow> int list \<Rightarrow> nat \<Rightarrow> nat \<Rightarrow> nat \<Rightarrow> nat \<Rightarrow> real
     \<Rightarrow> real list \<Rightarrow> nat list \<Rightarrow> nat list \<Rightarrow> bool" where
  "path_core n cost v s y nr L lo hi mu d cols pred \<longleftrightarrow>
     length d = n \<and> length pred = n \<and> length cols = n \<and> distinct cols \<and> set cols = {..<n} \<and>
     nr \<le> lo \<and> lo \<le> L \<and> L \<le> hi \<and> hi \<le> n \<and>
     (\<forall>k<hi. y ! (cols ! k) \<noteq> -1 \<and> d ! (cols ! k) \<le> mu) \<and>
     (\<forall>k<hi. nr \<le> k \<longrightarrow> d ! (cols ! k) = mu) \<and>
     (\<forall>j<n. d ! j \<le> rcost cost v s j) \<and>
     (\<forall>k<lo. \<forall>j<n. relaxed cost v y d (cols ! k) j) \<and>
     (\<forall>m<n. pred_ok cost v s y L d cols pred m)"

definition todo_above :: "nat \<Rightarrow> nat \<Rightarrow> real \<Rightarrow> real list \<Rightarrow> nat list \<Rightarrow> bool" where
  "todo_above n hi mu d cols \<longleftrightarrow> (\<forall>k<n. hi \<le> k \<longrightarrow> mu < d ! (cols ! k))"

lemma core_cols:
  assumes "path_core n cost v s y nr L lo hi mu d cols pred"
  shows "length cols = n" "distinct cols" "set cols = {..<n}" "k < n \<Longrightarrow> cols ! k < n"
  using assms nth_mem [of k cols] by (auto simp: path_core_def)

lemma core_neq:
  assumes "path_core n cost v s y nr L lo hi mu d cols pred" and "k < n" "m < n" "k \<noteq> m"
  shows "cols ! k \<noteq> cols ! m"
  using assms by (simp add: path_core_def nth_eq_iff_index_eq)

text \<open>Reordering the positions from \<open>hi\<close> on.\<close>

lemma core_permute:
  assumes core: "path_core n cost v s y nr L lo hi mu d cols pred"
    and len: "length cols' = n" and set': "set cols' = {..<n}"
    and same: "\<And>k. k < hi \<Longrightarrow> cols' ! k = cols ! k"
  shows "path_core n cost v s y nr L lo hi mu d cols' pred"
proof -
  note cc = core_cols [OF core]
  have le: "L \<le> hi" "lo \<le> L" "hi \<le> n" using core by (auto simp: path_core_def)
  have dist: "distinct cols'"
    using len set' by (simp add: card_distinct)
  have "pred_ok cost v s y L d cols' pred m" if "m < n" for m
  proof -
    have "cols' ! m \<in> set cols" using cc set' len that nth_mem by metis
    then obtain q where q: "q < n" "cols' ! m = cols ! q" using cc(1) by (metis in_set_conv_nth)
    have old: "pred_ok cost v s y L d cols pred q" using core q by (simp add: path_core_def)
    show ?thesis
    proof (cases "m < hi")
      case True
      then have "q = m" using q same cc that by (simp add: nth_eq_iff_index_eq)
      with same True le show ?thesis by (intro pred_ok_transfer [OF old]) auto
    next
      case False
      with q same le show ?thesis by (intro pred_ok_transfer [OF old]) auto
    qed
  qed
  moreover have "relaxed cost v y d (cols' ! k) j" if "k < lo" "j < n" for k j
    using core that same le by (simp add: path_core_def)
  ultimately show ?thesis
    using core len set' dist same by (auto simp: path_core_def)
qed

text \<open>One more column at the current distance.\<close>

lemma core_extend:
  assumes core: "path_core n cost v s y nr L lo hi mu d cols pred"
    and "hi < n" "y ! (cols ! hi) \<noteq> -1" "d ! (cols ! hi) = mu"
  shows "path_core n cost v s y nr L lo (Suc hi) mu d cols pred"
  using assms by (auto simp: path_core_def less_Suc_eq)

lemma core_extend_upto:
  assumes "hi \<le> h" and core: "path_core n cost v s y nr L lo hi mu d cols pred"
    and "h \<le> n" and new: "\<And>k. hi \<le> k \<Longrightarrow> k < h \<Longrightarrow> y ! (cols ! k) \<noteq> -1 \<and> d ! (cols ! k) = mu"
  shows "path_core n cost v s y nr L lo h mu d cols pred"
  using assms(1,3,4)
  by (induction h rule: dec_induct) (use core in \<open>simp_all add: core_extend\<close>)

text \<open>A larger distance, when everything found so far is ready.\<close>

lemma core_advance:
  assumes "path_core n cost v s y nr lo lo lo mu d cols pred" and "mu \<le> mu'"
  shows "path_core n cost v s y lo lo lo lo mu' d cols pred"
  using assms by (fastforce simp: path_core_def)

text \<open>The column at \<open>lo\<close> has been scanned.\<close>

lemma core_ready:
  assumes "path_core n cost v s y nr (Suc lo) lo hi mu d cols pred"
    and "\<And>j. j < n \<Longrightarrow> relaxed cost v y d (cols ! lo) j"
  shows "path_core n cost v s y nr (Suc lo) (Suc lo) hi mu d cols pred"
  using assms by (auto simp: path_core_def less_Suc_eq)

lemma core_start_scan:
  assumes "path_core n cost v s y nr lo lo hi mu d cols pred" and "lo < hi"
  shows "path_core n cost v s y nr (Suc lo) lo hi mu d cols pred"
  using assms by (fastforce simp: path_core_def pred_ok_def less_Suc_eq)

text \<open>A shorter way, through the column at \<open>lo\<close>, to a column from position \<open>hi\<close> on.\<close>

lemma core_relax:
  assumes core: "path_core n cost v s y nr (Suc lo) lo hi mu d cols pred"
    and k: "hi \<le> k" "k < n" and j: "j = cols ! k"
    and i: "0 \<le> y ! (cols ! lo)" "i = nat (y ! (cols ! lo))"
    and cred: "cred = d ! (cols ! lo) + rcost cost v i j - rcost cost v i (cols ! lo)"
    and less: "cred < d ! j"
  shows "path_core n cost v s y nr (Suc lo) lo hi mu (d[j := cred]) cols (pred[j := i])"
proof -
  have le: "lo < hi" "hi \<le> n" and len: "length d = n" "length pred = n"
    using core by (auto simp: path_core_def)
  have jn: "j < n" using core_cols(4) [OF core k(2)] j by simp
  have keep: "cols ! q \<noteq> j" if "q < hi" for q
    using core_neq [OF core, of q k] that k le j by auto
  have "relaxed cost v y (d[j := cred]) (cols ! q) r" if "q < lo" "r < n" for q r
  proof -
    have "relaxed cost v y d (cols ! q) r" using core that by (simp add: path_core_def)
    then show ?thesis
      using keep [of q] that le less jn len by (cases "r = j") (auto simp: relaxed_def)
  qed
  moreover have "pred_ok cost v s y (Suc lo) (d[j := cred]) cols (pred[j := i]) m" if "m < n" for m
  proof (cases "m = k")
    case True
    have "lo < m" using True le k by simp
    moreover have "cols ! lo \<noteq> j" using keep le by simp
    ultimately show ?thesis
      using True j jn len i cred
      unfolding pred_ok_def by (intro disjI2 exI [of _ lo]) auto
  next
    case False
    then have mj: "cols ! m \<noteq> j" using core_neq [OF core that k(2)] j by auto
    have "pred_ok cost v s y (Suc lo) d cols pred m" using core that by (simp add: path_core_def)
    then show ?thesis
    proof (rule pred_ok_transfer)
      fix q assume "q < Suc lo" "q < m"
      then have "cols ! q \<noteq> j" using keep le by simp
      then show "q < m \<and> cols ! q = cols ! q \<and> d[j := cred] ! (cols ! q) = d ! (cols ! q)"
        using \<open>q < m\<close> by simp
    qed (use mj in simp_all)
  qed
  moreover have "d[j := cred] ! r \<le> rcost cost v s r" if "r < n" for r
  proof -
    have "d ! r \<le> rcost cost v s r" using core that by (simp add: path_core_def)
    then show ?thesis using less len jn by (cases "r = j") auto
  qed
  moreover have "d[j := cred] ! (cols ! q) = d ! (cols ! q)" if "q < hi" for q
    using keep [OF that] by auto
  ultimately show ?thesis
    using core by (simp add: path_core_def)
qed

section \<open>\<open>_find_dense\<close>\<close>

lemma swap_cols:
  assumes "k < length cols" "h < length cols"
  shows "set (cols[k := cols ! h, h := cols ! k]) = set cols"
    and "length (cols[k := cols ! h, h := cols ! k]) = length cols"
  using set_swap [OF assms] by simp_all

definition found_upto :: "nat \<Rightarrow> nat \<Rightarrow> nat \<Rightarrow> nat list \<Rightarrow> real list \<Rightarrow> nat \<times> real \<times> nat list \<Rightarrow> bool" where
  "found_upto n lo k cols0 d = (\<lambda>(hi, mind, cols).
     lo < hi \<and> hi \<le> k \<and> length cols = n \<and> set cols = set cols0 \<and>
     (\<forall>m<lo. cols ! m = cols0 ! m) \<and>
     (\<forall>m<hi. lo \<le> m \<longrightarrow> d ! (cols ! m) = mind) \<and>
     (\<forall>m<k. hi \<le> m \<longrightarrow> mind < d ! (cols ! m)))"

lemma find_step_ok:
  assumes I: "found_upto n lo k cols0 d (hi, mind, cols)" and k: "k < n"
  shows "found_upto n lo (Suc k) cols0 d (find_step lo d k (hi, mind, cols))"
proof -
  let ?j = "cols ! k"
  have le: "lo < hi" "hi \<le> k" and len: "length cols = n" "set cols = set cols0"
    and same: "\<forall>m<lo. cols ! m = cols0 ! m"
    and eq: "\<forall>m<hi. lo \<le> m \<longrightarrow> d ! (cols ! m) = mind"
    and gt: "\<forall>m<k. hi \<le> m \<longrightarrow> mind < d ! (cols ! m)"
    using I by (simp_all add: found_upto_def)
  consider (above) "mind < d ! ?j" | (equal) "d ! ?j = mind" | (below) "d ! ?j < mind" by linarith
  then show ?thesis
  proof cases
    case above
    then show ?thesis
      using le len same eq gt by (simp add: found_upto_def find_step_def less_Suc_eq)
  next
    case equal
    let ?c = "cols[k := cols ! hi, hi := ?j]"
    have c: "find_step lo d k (hi, mind, cols) = (Suc hi, mind, ?c)"
      using equal by (simp add: find_step_def Let_def)
    have nth: "?c ! m = (if m = hi then ?j else if m = k then cols ! hi else cols ! m)" if "m < n" for m
      using that le len k by (auto simp: nth_list_update)
    have "d ! (?c ! m) = mind" if "m < Suc hi" "lo \<le> m" for m
      using that eq equal nth [of m] le k by (cases "m = hi") auto
    moreover have "mind < d ! (?c ! m)" if "m < Suc k" "Suc hi \<le> m" for m
      using that gt nth [of m] le k by (cases "m = k") auto
    ultimately show ?thesis
      using le len same k swap_cols [of k cols hi] by (simp add: c found_upto_def)
  next
    case below
    let ?c = "cols[k := cols ! lo, lo := ?j]"
    have c: "find_step lo d k (hi, mind, cols) = (Suc lo, d ! ?j, ?c)"
      using below by (simp add: find_step_def Let_def)
    have nth: "?c ! m = (if m = lo then ?j else if m = k then cols ! lo else cols ! m)" if "m < n" for m
      using that le len k by (auto simp: nth_list_update)
    have "d ! (?c ! m) = d ! ?j" if "m < Suc lo" "lo \<le> m" for m
      using that nth [of m] le k by (cases "m = lo") auto
    moreover have "d ! ?j < d ! (?c ! m)" if m: "m < Suc k" "Suc lo \<le> m" for m
    proof -
      have "mind \<le> d ! (?c ! m)"
      proof (cases "m = k")
        case True
        then show ?thesis using nth [of m] m k eq le by simp
      next
        case False
        then have "m < k" using m by simp
        then have "d ! (cols ! m) = mind \<or> mind < d ! (cols ! m)"
          using m eq gt by (metis Suc_leD not_less)
        then show ?thesis using nth [of m] m k False by auto
      qed
      with below show ?thesis by simp
    qed
    ultimately show ?thesis
      using le len same k swap_cols [of k cols lo] by (simp add: c found_upto_def)
  qed
qed

lemma find_dense_ok:
  assumes "lo < n" "length cols = n" and res: "find_dense n lo d cols = (hi, cols')"
  shows "\<exists>mind. found_upto n lo n cols d (hi, mind, cols')"
proof -
  let ?s = "fold (find_step lo d) [Suc lo..<n] (Suc lo, d ! (cols ! lo), cols)"
  have "found_upto n lo n cols d ?s"
  proof (rule fold_upt_inv [where I = "\<lambda>k s. found_upto n lo k cols d s"])
    show "Suc lo \<le> n" using assms by simp
    show "found_upto n lo (Suc lo) cols d (Suc lo, d ! (cols ! lo), cols)"
      using assms by (auto simp: found_upto_def less_Suc_eq)
  next
    fix k and s :: "nat \<times> real \<times> nat list"
    assume "Suc lo \<le> k" "k < n" "found_upto n lo k cols d s"
    then show "found_upto n lo (Suc k) cols d (find_step lo d k s)"
      using find_step_ok by (metis prod_cases3)
  qed
  moreover obtain h m c where s: "?s = (h, m, c)" by (metis prod_cases3)
  ultimately show ?thesis using res by (auto simp: find_dense_def)
qed

lemma final_fold:
  assumes "r = fold (\<lambda>k f. let j = cols ! k in if y ! j < 0 then int j else f) [lo..<hi] (-1)"
  shows "r = -1 \<and> (\<forall>k. lo \<le> k \<and> k < hi \<longrightarrow> 0 \<le> y ! (cols ! k)) \<or>
     (\<exists>k. lo \<le> k \<and> k < hi \<and> r = int (cols ! k) \<and> y ! (cols ! k) < (0::int))"
  unfolding assms
proof (induction hi)
  case (Suc hi)
  show ?case
  proof (cases "lo \<le> hi")
    case True
    then show ?thesis using Suc by (auto simp: Let_def less_Suc_eq)
  qed simp
qed simp

section \<open>\<open>_scan_dense\<close>\<close>

text \<open>The search has reached the unmatched column \<open>j\<close> at distance \<open>mu\<close>.\<close>

definition path_end ::
  "nat \<Rightarrow> real list list \<Rightarrow> real list \<Rightarrow> nat \<Rightarrow> int list \<Rightarrow> nat
     \<Rightarrow> real list \<Rightarrow> nat list \<Rightarrow> nat list \<Rightarrow> nat \<Rightarrow> bool" where
  "path_end n cost v s y nr d cols pred j \<longleftrightarrow>
     (\<exists>L lo hi mu m. path_core n cost v s y nr L lo hi mu d cols pred \<and> hi \<le> m \<and> m < n \<and>
        j = cols ! m \<and> y ! j = -1 \<and> d ! j = mu \<and> d ! (cols ! nr) = mu \<and>
        (\<forall>k<n. hi \<le> k \<longrightarrow> mu \<le> d ! (cols ! k)))"

definition scan_ok ::
  "nat \<Rightarrow> real list list \<Rightarrow> real list \<Rightarrow> nat \<Rightarrow> int list \<Rightarrow> nat \<Rightarrow> nat \<Rightarrow> real \<Rightarrow> nat \<Rightarrow> nat
     \<Rightarrow> nat \<Rightarrow> real list \<Rightarrow> nat list \<Rightarrow> nat list \<Rightarrow> bool" where
  "scan_ok n cost v s y nr lo mu jl k hi d cols pred \<longleftrightarrow>
     path_core n cost v s y nr (Suc lo) lo hi mu d cols pred \<and> todo_above n hi mu d cols \<and>
     hi \<le> k \<and> k \<le> n \<and> cols ! lo = jl \<and> (\<forall>m<k. relaxed cost v y d jl (cols ! m))"

lemma relaxed_lower:
  assumes "relaxed cost v y d c r" and "c \<noteq> j" "j < length d" "cred \<le> d ! j"
  shows "relaxed cost v y (d[j := cred]) c r"
  using assms by (cases "r = j") (auto simp: relaxed_def)

lemma scan_ok_facts:
  assumes ok: "scan_ok n cost v s y nr lo mu jl k hi d cols pred"
  shows "lo < hi" "hi \<le> k" "d ! jl = mu" "y ! jl \<noteq> -1" "jl < n" "length d = n" "length cols = n"
proof -
  have core: "path_core n cost v s y nr (Suc lo) lo hi mu d cols pred" and jl: "cols ! lo = jl"
    using ok by (auto simp: scan_ok_def)
  then show le: "lo < hi" and "d ! jl = mu" and "y ! jl \<noteq> -1" and "length d = n" and "length cols = n"
    unfolding path_core_def by auto
  have "lo < n" using core le by (simp add: path_core_def)
  then show "jl < n" using core_cols(4) [OF core] jl by blast
  show "hi \<le> k" using ok by (simp add: scan_ok_def)
qed

lemma scan_ok_skip:
  assumes ok: "scan_ok n cost v s y nr lo mu jl k hi d cols pred" and k: "k < n"
    and rel: "relaxed cost v y d jl (cols ! k)"
  shows "scan_ok n cost v s y nr lo mu jl (Suc k) hi d cols pred"
  using assms by (auto simp: scan_ok_def less_Suc_eq)

text \<open>The new distance of the column at position \<open>k\<close>.\<close>

lemma scan_relax:
  assumes ok: "scan_ok n cost v s y nr lo mu jl k hi d cols pred" and k: "k < n"
    and i: "0 \<le> y ! jl" "i = nat (y ! jl)" and j: "j = cols ! k"
    and cred: "cred = mu + rcost cost v i j - rcost cost v i jl"
    and ge: "mu \<le> cred" and less: "cred < d ! j"
  shows "path_core n cost v s y nr (Suc lo) lo hi mu (d[j := cred]) cols (pred[j := i])"
    and "\<forall>m<Suc k. relaxed cost v y (d[j := cred]) jl (cols ! m)"
    and "\<forall>m<n. hi \<le> m \<longrightarrow> m \<noteq> k \<longrightarrow> mu < d[j := cred] ! (cols ! m)"
proof -
  note f = scan_ok_facts [OF ok]
  have core: "path_core n cost v s y nr (Suc lo) lo hi mu d cols pred" and jl: "cols ! lo = jl"
    using ok by (auto simp: scan_ok_def)
  show "path_core n cost v s y nr (Suc lo) lo hi mu (d[j := cred]) cols (pred[j := i])"
    by (rule core_relax [OF core f(2) k j, unfolded jl]) (use i cred less f in simp_all)
  have jn: "j < n" using core_cols(4) [OF core k] j by simp
  have "jl \<noteq> j" using core_neq [OF core, of lo k] f k jl j by auto
  show "\<forall>m<Suc k. relaxed cost v y (d[j := cred]) jl (cols ! m)"
  proof (intro allI impI)
    fix m assume "m < Suc k"
    show "relaxed cost v y (d[j := cred]) jl (cols ! m)"
    proof (cases "m = k")
      case True
      then show ?thesis using j jn f cred i \<open>jl \<noteq> j\<close> by (simp add: relaxed_def)
    next
      case False
      then have "relaxed cost v y d jl (cols ! m)" using ok \<open>m < Suc k\<close> by (simp add: scan_ok_def)
      then show ?thesis using relaxed_lower \<open>jl \<noteq> j\<close> jn f less by simp
    qed
  qed
  show "\<forall>m<n. hi \<le> m \<longrightarrow> m \<noteq> k \<longrightarrow> mu < d[j := cred] ! (cols ! m)"
  proof (intro allI impI)
    fix m assume m: "m < n" "hi \<le> m" "m \<noteq> k"
    then have "cols ! m \<noteq> j" using core_neq [OF core, of m k] k j by simp
    then show "mu < d[j := cred] ! (cols ! m)" using ok m by (simp add: scan_ok_def todo_above_def)
  qed
qed

lemma scan_ok_above:
  assumes ok: "scan_ok n cost v s y nr lo mu jl k hi d cols pred" and k: "k < n"
    and i: "0 \<le> y ! jl" "i = nat (y ! jl)" and j: "j = cols ! k"
    and cred: "cred = mu + rcost cost v i j - rcost cost v i jl"
    and gt: "mu < cred" and less: "cred < d ! j"
  shows "scan_ok n cost v s y nr lo mu jl (Suc k) hi (d[j := cred]) cols (pred[j := i])"
proof -
  note r = scan_relax [OF ok k i j cred _ less]
  note f = scan_ok_facts [OF ok]
  have core: "path_core n cost v s y nr (Suc lo) lo hi mu d cols pred" using ok by (simp add: scan_ok_def)
  have "j < n" using core_cols(4) [OF core k] j by simp
  then have "mu < d[j := cred] ! (cols ! k)" using gt j f by simp
  then have "todo_above n hi mu (d[j := cred]) cols"
    using r(3) gt unfolding todo_above_def by (metis less_imp_le)
  then show ?thesis using r(1,2) gt ok k by (simp add: scan_ok_def)
qed

lemma scan_ok_swap:
  assumes ok: "scan_ok n cost v s y nr lo mu jl k hi d cols pred" and k: "k < n"
    and i: "0 \<le> y ! jl" "i = nat (y ! jl)" and j: "j = cols ! k"
    and cred: "mu = mu + rcost cost v i j - rcost cost v i jl"
    and less: "mu < d ! j" and yj: "y ! j \<noteq> -1"
  shows "scan_ok n cost v s y nr lo mu jl (Suc k) (Suc hi) (d[j := mu]) (cols[k := cols ! hi, hi := j])
           (pred[j := i])"
proof -
  note r = scan_relax [OF ok k i j cred _ less]
  note f = scan_ok_facts [OF ok]
  let ?c = "cols[k := cols ! hi, hi := j]" and ?d = "d[j := mu]"
  have core: "path_core n cost v s y nr (Suc lo) lo hi mu d cols pred" using ok by (simp add: scan_ok_def)
  note cc = core_cols [OF core]
  have jn: "j < n" and hk: "hi < n" using cc(4) [OF k] j f k by simp_all
  have nth: "?c ! m = (if m = hi then j else if m = k then cols ! hi else cols ! m)" if "m < n" for m
    using that f k j hk by (auto simp: nth_list_update)
  have "path_core n cost v s y nr (Suc lo) lo hi mu ?d ?c (pred[j := i])"
    by (rule core_permute [OF r(1)])
       (use f k hk j cc swap_cols [of k cols hi] in \<open>simp_all add: nth\<close>)
  then have "path_core n cost v s y nr (Suc lo) lo (Suc hi) mu ?d ?c (pred[j := i])"
    by (rule core_extend) (use hk nth [OF hk] yj jn f in simp_all)
  moreover have "todo_above n (Suc hi) mu ?d ?c"
    unfolding todo_above_def
  proof (intro allI impI)
    fix m assume m: "m < n" "Suc hi \<le> m"
    show "mu < ?d ! (?c ! m)" using nth [OF m(1)] r(3) m hk f by (cases "m = k") auto
  qed
  moreover have "relaxed cost v y ?d jl (?c ! m)" if "m < Suc k" for m
    using nth [of m] r(2) that k f j by (auto split: if_splits)
  moreover have "?c ! lo = jl" using nth [of lo] f k ok by (simp add: scan_ok_def)
  ultimately show ?thesis using ok k by (simp add: scan_ok_def)
qed

lemma scan_row_ok:
  assumes inv: "lap_inv n cost F x y v"
    and ok: "scan_ok n cost v s y nr lo mu jl k hi d cols pred"
    and h: "i = nat (y ! jl)" "h = rcost cost v i jl - mu"
  shows "case scan_row (cost ! i) v h mu i y [k..<n] (hi, d, cols, pred) of
           Inl (j, d', cols', pred') \<Rightarrow> path_end n cost v s y nr d' cols' pred' j
         | Inr (hi', d', cols', pred') \<Rightarrow>
             path_core n cost v s y nr (Suc lo) (Suc lo) hi' mu d' cols' pred' \<and>
             todo_above n hi' mu d' cols'"
  using ok
proof (induction "n - k" arbitrary: k hi d cols pred)
  case 0
  then have "k = n" by (simp add: scan_ok_def)
  have core: "path_core n cost v s y nr (Suc lo) lo hi mu d cols pred" using "0.prems" by (simp add: scan_ok_def)
  have "relaxed cost v y d (cols ! lo) j" if "j < n" for j
  proof -
    have "j \<in> set cols" using core_cols(3) [OF core] that by simp
    then obtain m where "m < n" "j = cols ! m"
      using core_cols(1) [OF core] by (metis in_set_conv_nth)
    then show ?thesis using "0.prems" \<open>k = n\<close> by (simp add: scan_ok_def)
  qed
  from core_ready [OF core this] show ?case
    using "0.prems" \<open>k = n\<close> by (simp add: scan_ok_def)
next
  case (Suc t)
  then have k: "k < n" by simp
  note f = scan_ok_facts [OF Suc.prems]
  have pm: "pmatch n F x y" and dual: "dual_ok n cost v y" using inv by (auto simp: lap_inv_def)
  note yl = pmatch_col [OF pm f(5) f(4)]
  let ?j = "cols ! k"
  let ?cred = "cost ! i ! ?j - v ! ?j - h"
  have core: "path_core n cost v s y nr (Suc lo) lo hi mu d cols pred" using Suc.prems by (simp add: scan_ok_def)
  have jn: "?j < n" using core_cols(4) [OF core k] .
  have cred: "?cred = mu + rcost cost v i ?j - rcost cost v i jl" using h by simp
  have ge: "mu \<le> ?cred" using dual f(4,5) jn h cred unfolding dual_ok_def by fastforce
  have ks: "[k..<n] = k # [Suc k..<n]" using k by (simp add: upt_rec)
  have t: "t = n - Suc k" using Suc.hyps(2) by simp
  show ?case
  proof (cases "?cred < d ! ?j")
    case False
    then have "relaxed cost v y d jl ?j" using cred f(3) h by (simp add: relaxed_def)
    from Suc.hyps(1) [OF t scan_ok_skip [OF Suc.prems k this]] show ?thesis
      using False by (simp add: ks Let_def)
  next
    case less: True
    show ?thesis
    proof (cases "?cred = mu")
      case False
      then have "mu < ?cred" using ge by simp
      from Suc.hyps(1) [OF t scan_ok_above [OF Suc.prems k _ h(1) refl cred this less]] show ?thesis
        using less False yl by (simp add: ks Let_def)
    next
      case True': True
      show ?thesis
      proof (cases "y ! ?j < 0")
        case True
        have "path_end n cost v s y nr (d[?j := ?cred]) cols (pred[?j := i]) ?j"
          unfolding path_end_def
        proof (intro exI conjI)
          note r = scan_relax [OF Suc.prems k _ h(1) refl cred ge less]
          show c: "path_core n cost v s y nr (Suc lo) lo hi mu (d[?j := ?cred]) cols (pred[?j := i])"
            using r(1) yl by simp
          show "d[?j := ?cred] ! (cols ! nr) = mu"
            using c unfolding path_core_def by auto
          show "d[?j := ?cred] ! ?j = mu" using jn f(6) \<open>?cred = mu\<close> by simp
          then show "\<forall>q<n. hi \<le> q \<longrightarrow> mu \<le> d[?j := ?cred] ! (cols ! q)"
            using r(3) yl by (metis less_imp_le order_refl)
        qed (use f(2) k True pmatch_y_neg [OF pm jn] in auto)
        then show ?thesis using less True \<open>?cred = mu\<close> by (simp add: ks Let_def)
      next
        case False
        have less': "mu < d ! ?j" using less True' by simp
        have st: "scan_row (cost ! i) v h mu i y [k..<n] (hi, d, cols, pred) =
          scan_row (cost ! i) v h mu i y [Suc k..<n]
            (Suc hi, d[?j := mu], cols[k := cols ! hi, hi := ?j], pred[?j := i])"
          using False less' by (simp add: ks Let_def True')
        have "scan_ok n cost v s y nr lo mu jl (Suc k) (Suc hi) (d[?j := mu])
            (cols[k := cols ! hi, hi := ?j]) (pred[?j := i])"
          by (rule scan_ok_swap [OF Suc.prems k _ h(1) refl _ less'])
             (use yl cred True' False in simp_all)
        from Suc.hyps(1) [OF t this] show ?thesis unfolding st .
      qed
    qed
  qed
qed

lemma scan_dense_ok:
  assumes inv: "lap_inv n cost F x y v"
    and "path_core n cost v s y nr lo lo hi mu (p_d p) (p_cols p) (p_pred p)"
    and "todo_above n hi mu (p_d p) (p_cols p)"
  shows "\<exists>f p'. scan_dense n cost y v lo hi p = Some (f, p') \<and>
     ((f = -1 \<and> lo \<le> p_lo p' \<and> (lo < hi \<longrightarrow> lo < p_lo p') \<and> p_hi p' = p_lo p' \<and>
       path_core n cost v s y nr (p_lo p') (p_lo p') (p_lo p') mu (p_d p') (p_cols p') (p_pred p') \<and>
       todo_above n (p_lo p') mu (p_d p') (p_cols p')) \<or>
      (\<exists>j. f = int j \<and> p_lo p' = p_lo p \<and>
       path_end n cost v s y nr (p_d p') (p_cols p') (p_pred p') j))"
  using assms(2,3)
proof (induction "n - lo" arbitrary: lo hi p rule: less_induct)
  case less
  note core = less.prems(1) and todo = less.prems(2)
  show ?case
  proof (cases "lo = hi")
    case True
    let ?p = "p\<lparr>p_lo := lo, p_hi := hi\<rparr>"
    have "scan_dense n cost y v lo hi p = Some (-1, ?p)"
      unfolding True by (subst scan_dense.simps) simp
    moreover have "path_core n cost v s y nr (p_lo ?p) (p_lo ?p) (p_lo ?p) mu (p_d ?p) (p_cols ?p) (p_pred ?p)"
      and "todo_above n (p_lo ?p) mu (p_d ?p) (p_cols ?p)" using core todo True by simp_all
    ultimately show ?thesis using True by (intro exI [of _ "-1"] exI [of _ ?p]) simp
  next
    case False
    then have lh: "lo < hi" "hi \<le> n" using core by (auto simp: path_core_def)
    let ?jl = "p_cols p ! lo"
    let ?i = "nat (y ! ?jl)" and ?mu = "p_d p ! ?jl"
    let ?h = "cost ! ?i ! ?jl - v ! ?jl - ?mu"
    have mu: "?mu = mu" using core lh unfolding path_core_def by auto
    have yl: "y ! ?jl \<noteq> -1" using core lh unfolding path_core_def by auto
    have jl: "?jl < n" using core_cols(4) [OF core, of lo] lh by simp
    have pm: "pmatch n F x y" and dual: "dual_ok n cost v y" using inv by (auto simp: lap_inv_def)
    have "relaxed cost v y (p_d p) ?jl (p_cols p ! m)" if "m < hi" for m
    proof -
      have m: "p_cols p ! m < n" using core_cols(4) [OF core, of m] that lh by simp
      have "rcost cost v ?i ?jl \<le> rcost cost v ?i (p_cols p ! m)"
        using dual jl yl m by (simp add: dual_ok_def)
      moreover have "p_d p ! (p_cols p ! m) \<le> mu" using core that unfolding path_core_def by simp
      ultimately show ?thesis using mu by (simp add: relaxed_def)
    qed
    then have "scan_ok n cost v s y nr lo mu ?jl hi hi (p_d p) (p_cols p) (p_pred p)"
      using core_start_scan [OF core lh(1)] todo lh by (simp add: scan_ok_def)
    note row = scan_row_ok [OF inv this refl, of ?h, unfolded mu, OF refl]
    let ?r = "scan_row (cost ! ?i) v (rcost cost v ?i ?jl - mu) mu ?i y [hi..<n] (hi, p_d p, p_cols p, p_pred p)"
    show ?thesis
    proof (cases ?r)
      case (Inl e)
      obtain j d c pr where e: "e = (j, d, c, pr)" by (metis prod_cases4)
      have "path_end n cost v s y nr d c pr j" using row by (simp add: Inl e)
      then show ?thesis
        using False mu Inl e by (simp add: scan_dense.simps [of n cost y v lo hi] Let_def)
    next
      case (Inr e)
      obtain hi' d c pr where e: "e = (hi', d, c, pr)" by (metis prod_cases4)
      let ?p = "p\<lparr>p_d := d, p_cols := c, p_pred := pr\<rparr>"
      have st: "scan_dense n cost y v lo hi p = scan_dense n cost y v (Suc lo) hi' ?p"
        using False mu Inr e by (simp add: scan_dense.simps [of n cost y v lo hi] Let_def)
      have "path_core n cost v s y nr (Suc lo) (Suc lo) hi' mu d c pr" "todo_above n hi' mu d c"
        using row by (simp_all add: Inr e)
      then have "path_core n cost v s y nr (Suc lo) (Suc lo) hi' mu (p_d ?p) (p_cols ?p) (p_pred ?p)"
        "todo_above n hi' mu (p_d ?p) (p_cols ?p)" by simp_all
      moreover have "n - Suc lo < n - lo" using lh by simp
      ultimately obtain f p' where r: "scan_dense n cost y v (Suc lo) hi' ?p = Some (f, p')"
        and c: "(f = -1 \<and> Suc lo \<le> p_lo p' \<and> p_hi p' = p_lo p' \<and>
       path_core n cost v s y nr (p_lo p') (p_lo p') (p_lo p') mu (p_d p') (p_cols p') (p_pred p') \<and>
       todo_above n (p_lo p') mu (p_d p') (p_cols p')) \<or>
      (\<exists>j. f = int j \<and> p_lo p' = p_lo ?p \<and>
       path_end n cost v s y nr (p_d p') (p_cols p') (p_pred p') j)"
        using less.hyps [of "Suc lo" hi' ?p] by blast
      have "p_lo ?p = p_lo p" by simp
      with c r show ?thesis
        unfolding st by (intro exI [of _ f] exI [of _ p']) auto
    qed
  qed
qed

section \<open>\<open>find_path_dense\<close>\<close>

lemma path_find_ok:
  assumes core: "path_core n cost v s y nr lo lo lo mu (p_d p) (p_cols p) (p_pred p)"
    and todo: "todo_above n lo mu (p_d p) (p_cols p)" and lo: "lo < n" "p_lo p = lo"
    and pos: "\<And>j. j < n \<Longrightarrow> y ! j < 0 \<longleftrightarrow> y ! j = -1"
    and res: "path_find n y p = (p', f)"
  shows "p_lo p' = lo" and "(\<exists>mu'. f = -1 \<and> lo < p_hi p' \<and>
       path_core n cost v s y lo lo lo (p_hi p') mu' (p_d p') (p_cols p') (p_pred p') \<and>
       todo_above n (p_hi p') mu' (p_d p') (p_cols p')) \<or>
     (\<exists>j. f = int j \<and> path_end n cost v s y lo (p_d p') (p_cols p') (p_pred p') j)"
proof -
  let ?d = "p_d p"
  note cc = core_cols [OF core]
  obtain hi c where fd: "find_dense n lo ?d (p_cols p) = (hi, c)" by (cases "find_dense n lo ?d (p_cols p)")
  have p': "p' = p\<lparr>p_hi := hi, p_cols := c\<rparr>"
    and f: "f = fold (\<lambda>k f. let j = c ! k in if y ! j < 0 then int j else f) [lo..<hi] (-1)"
    using res fd lo by (simp_all add: path_find_def)
  show "p_lo p' = lo" using p' lo by simp
  obtain mind where fu: "found_upto n lo n (p_cols p) ?d (hi, mind, c)"
    using find_dense_ok [OF lo(1) cc(1) fd] by blast
  have h: "lo < hi" "hi \<le> n" and c: "length c = n" "set c = {..<n}" "\<And>m. m < lo \<Longrightarrow> c ! m = p_cols p ! m"
    and eq: "\<And>m. m < hi \<Longrightarrow> lo \<le> m \<Longrightarrow> ?d ! (c ! m) = mind"
    and gt: "\<And>m. m < n \<Longrightarrow> hi \<le> m \<Longrightarrow> mind < ?d ! (c ! m)"
    using fu cc(3) by (simp_all add: found_upto_def)
  have pc: "path_core n cost v s y nr lo lo lo mu ?d c (p_pred p)"
    by (rule core_permute [OF core c])
  have "mu < mind"
  proof -
    have "c ! lo \<in> set (p_cols p)" using c lo cc(3) nth_mem [of lo c] by simp
    then obtain q where q: "q < n" "c ! lo = p_cols p ! q" using cc(1) by (metis in_set_conv_nth)
    have "\<not> q < lo"
    proof
      assume "q < lo"
      then have "c ! lo = c ! q" using q c by simp
      then show False using core_neq [OF pc, of lo q] lo q \<open>q < lo\<close> by simp
    qed
    then have "mu < ?d ! (c ! lo)" using todo q by (simp add: todo_above_def)
    then show ?thesis using eq [of lo] h by simp
  qed
  then have pc': "path_core n cost v s y lo lo lo lo mind ?d c (p_pred p)"
    using core_advance [OF pc] by simp
  have cn: "c ! k < n" if "k < n" for k using c that nth_mem [of k c] by auto
  from final_fold [OF f]
  show "(\<exists>mu'. f = -1 \<and> lo < p_hi p' \<and>
       path_core n cost v s y lo lo lo (p_hi p') mu' (p_d p') (p_cols p') (p_pred p') \<and>
       todo_above n (p_hi p') mu' (p_d p') (p_cols p')) \<or>
     (\<exists>j. f = int j \<and> path_end n cost v s y lo (p_d p') (p_cols p') (p_pred p') j)"
  proof (elim disjE exE conjE)
    assume "f = -1" and nn: "\<forall>k. lo \<le> k \<and> k < hi \<longrightarrow> 0 \<le> y ! (c ! k)"
    have "path_core n cost v s y lo lo lo hi mind ?d c (p_pred p)"
      by (rule core_extend_upto [OF _ pc' h(2)]) (use h nn eq in force)+
    moreover have "todo_above n hi mind ?d c" using gt by (simp add: todo_above_def)
    ultimately show ?thesis using \<open>f = -1\<close> h p' by auto
  next
    fix k assume k: "lo \<le> k" "k < hi" and fk: "f = int (c ! k)" and neg: "y ! (c ! k) < 0"
    have "path_end n cost v s y lo ?d c (p_pred p) (c ! k)"
      unfolding path_end_def
    proof (intro exI conjI)
      show "path_core n cost v s y lo lo lo lo mind ?d c (p_pred p)" by (rule pc')
      show "\<forall>m<n. lo \<le> m \<longrightarrow> mind \<le> ?d ! (c ! m)"
        using eq gt by (metis less_imp_le not_less order_refl)
      show "y ! (c ! k) = -1" using neg pos [OF cn, of k] k h by simp
    qed (use k h eq in auto)
    then show ?thesis using fk p' by simp
  qed
qed

lemma path_loop_ok:
  assumes inv: "lap_inv n cost F x y v" and F: "F \<noteq> {}"
    and "path_core n cost v s y nr (p_lo p) (p_lo p) (p_lo p) mu (p_d p) (p_cols p) (p_pred p)"
    and "todo_above n (p_lo p) mu (p_d p) (p_cols p)" and "p_hi p = p_lo p"
  shows "\<exists>p' j. path_loop n cost y v p r (-1) = Some (p', p_lo p', int j) \<and>
     path_end n cost v s y (p_lo p') (p_d p') (p_cols p') (p_pred p') j"
  using assms(3-5)
proof (induction "n - p_lo p" arbitrary: p r nr mu rule: less_induct)
  case less
  have pm: "pmatch n F x y" using inv by (simp add: lap_inv_def)
  have lo: "p_lo p < n"
  proof (rule ccontr)
    assume "\<not> ?thesis"
    then have le: "n \<le> p_lo p" by simp
    obtain j where "j < n" "y ! j = -1" using free_col_exists [OF pm F] by blast
    moreover then obtain k where "k < n" "p_cols p ! k = j"
      using core_cols [OF less.prems(1)] by (metis in_set_conv_nth lessThan_iff)
    ultimately show False using less.prems(1) le unfolding path_core_def by fastforce
  qed
  obtain p1 f where pf: "path_find n y p = (p1, f)" by (cases "path_find n y p")
  note found = path_find_ok [OF less.prems(1,2) lo refl pmatch_y_neg [OF pm] pf]
  show ?case
  proof (cases "f = -1")
    case False
    then obtain j where j: "f = int j" "path_end n cost v s y (p_lo p) (p_d p1) (p_cols p1) (p_pred p1) j"
      using found(2) by blast
    have "path_loop n cost y v p r (-1) = path_loop n cost y v p1 (p_lo p) f"
      using less.prems(3) False by (simp add: path_loop.simps [of n cost y v p r] pf)
    also have "\<dots> = Some (p1, p_lo p, f)"
      using False by (simp add: path_loop.simps [of n cost y v p1])
    finally show ?thesis using j found(1) by auto
  next
    case True
    then obtain mu' where m: "p_lo p < p_hi p1"
       "path_core n cost v s y (p_lo p) (p_lo p) (p_lo p) (p_hi p1) mu' (p_d p1) (p_cols p1) (p_pred p1)"
       "todo_above n (p_hi p1) mu' (p_d p1) (p_cols p1)"
      using found(2) by auto
    from scan_dense_ok [OF inv m(2,3)] obtain g p2
      where sd: "scan_dense n cost y v (p_lo p) (p_hi p1) p1 = Some (g, p2)"
      and cs: "(g = -1 \<and> p_lo p < p_lo p2 \<and> p_hi p2 = p_lo p2 \<and>
         path_core n cost v s y (p_lo p) (p_lo p2) (p_lo p2) (p_lo p2) mu' (p_d p2) (p_cols p2) (p_pred p2) \<and>
         todo_above n (p_lo p2) mu' (p_d p2) (p_cols p2)) \<or>
        (\<exists>j. g = int j \<and> p_lo p2 = p_lo p \<and>
         path_end n cost v s y (p_lo p) (p_d p2) (p_cols p2) (p_pred p2) j)"
      using m(1) found(1) by auto
    have st: "path_loop n cost y v p r (-1) = path_loop n cost y v p2 (p_lo p) g"
      using less.prems(3) True sd found(1) by (simp add: path_loop.simps [of n cost y v p r] pf)
    from cs show ?thesis
    proof (elim disjE exE conjE)
      fix j assume "g = int j" "p_lo p2 = p_lo p"
        "path_end n cost v s y (p_lo p) (p_d p2) (p_cols p2) (p_pred p2) j"
      then show ?thesis unfolding st by (auto simp: path_loop.simps [of n cost y v p2])
    next
      assume a: "g = -1" "p_lo p < p_lo p2" "p_hi p2 = p_lo p2"
        "path_core n cost v s y (p_lo p) (p_lo p2) (p_lo p2) (p_lo p2) mu' (p_d p2) (p_cols p2) (p_pred p2)"
        "todo_above n (p_lo p2) mu' (p_d p2) (p_cols p2)"
      then show ?thesis
        unfolding st using less.hyps [OF _ a(4,5,3)] lo by simp
    qed
  qed
qed

text \<open>Every ready column's price moves down to the length of the path.\<close>

lemma path_prices_nth:
  assumes dist: "distinct cols" "length cols = n" "set cols = {..<n}" and lv: "length v = n"
    and nr: "nr \<le> n" and mu: "p_d p ! (p_cols p ! p_lo p) = mu" "p_cols p = cols" "p_d p = d"
  shows "length (path_prices p nr v) = n"
    and "m < n \<Longrightarrow> path_prices p nr v ! (cols ! m) =
           v ! (cols ! m) + (if m < nr then d ! (cols ! m) - mu else 0)"
proof -
  let ?f = "\<lambda>k v. let j = cols ! k in v[j := v ! j + (d ! j - mu)]"
  let ?I = "\<lambda>k w. length w = n \<and>
     (\<forall>m<n. w ! (cols ! m) = v ! (cols ! m) + (if m < k then d ! (cols ! m) - mu else 0))"
  have "?I nr (fold ?f [0..<nr] v)"
  proof (rule fold_upt0_inv [where I = ?I])
    show "?I 0 v" using lv by simp
  next
    fix k and w :: "real list"
    assume k: "k < nr" and I: "?I k w"
    have cn: "cols ! m < n" if "m < n" for m using dist that nth_mem [of m cols] by auto
    have ne: "cols ! k = cols ! m \<longleftrightarrow> k = m" if "m < n" for m
      using that k nr dist by (simp add: nth_eq_iff_index_eq)
    show "?I (Suc k) (?f k w)"
      using I k nr cn [of k] by (auto simp: Let_def nth_list_update ne less_Suc_eq)
  qed
  then show "length (path_prices p nr v) = n"
    and "m < n \<Longrightarrow> path_prices p nr v ! (cols ! m) =
           v ! (cols ! m) + (if m < nr then d ! (cols ! m) - mu else 0)"
    using mu by (auto simp: path_prices_def Let_def)
qed

definition tight :: "nat \<Rightarrow> real list list \<Rightarrow> real list \<Rightarrow> nat \<Rightarrow> nat \<Rightarrow> bool" where
  "tight n cost v i j \<longleftrightarrow> (\<forall>j'<n. rcost cost v i j \<le> rcost cost v i j')"

lemma dual_ok_tight: "dual_ok n cost v y \<longleftrightarrow> (\<forall>j<n. y ! j \<noteq> -1 \<longrightarrow> tight n cost v (nat (y ! j)) j)"
  by (simp add: dual_ok_def tight_def)

text \<open>
  What the rest of the solver needs of a path: a set \<open>M\<close> of positions such that the row
  \<open>pred\<close> of each of its columns is tight there and is the start row or is matched to a column of
  \<open>M\<close> at an earlier position.
\<close>

definition path_back ::
  "nat \<Rightarrow> real list list \<Rightarrow> real list \<Rightarrow> nat \<Rightarrow> int list \<Rightarrow> nat list \<Rightarrow> nat list \<Rightarrow> nat set \<Rightarrow> bool" where
  "path_back n cost v s y cols pred M \<longleftrightarrow>
     length cols = n \<and> distinct cols \<and> set cols = {..<n} \<and>
     (\<forall>a\<in>M. a < n \<and> tight n cost v (pred ! (cols ! a)) (cols ! a) \<and>
        (pred ! (cols ! a) = s \<or> (\<exists>k\<in>M. k < a \<and> y ! (cols ! k) = int (pred ! (cols ! a)))))"

text \<open>
  How far the price of the column at position \<open>m\<close> falls: by \<open>mu - d\<close> for the columns at distance
  at most \<open>mu\<close>, not at all for the others.
\<close>

lemma price_drop:
  assumes core: "path_core n cost v s y nr L lo hi mu d cols pred"
    and far: "\<And>k. k < n \<Longrightarrow> hi \<le> k \<Longrightarrow> mu \<le> d ! (cols ! k)" and m: "m < n"
    and v': "v' ! (cols ! m) = v ! (cols ! m) + (if m < nr then d ! (cols ! m) - mu else 0)"
  shows "v' ! (cols ! m) \<le> v ! (cols ! m)"
    and "v' ! (cols ! m) \<le> v ! (cols ! m) + d ! (cols ! m) - mu"
    and "d ! (cols ! m) \<le> mu \<Longrightarrow> v' ! (cols ! m) = v ! (cols ! m) + d ! (cols ! m) - mu"
proof -
  have le: "nr \<le> hi" and lt: "k < hi \<Longrightarrow> d ! (cols ! k) \<le> mu" and eq: "k < hi \<Longrightarrow> nr \<le> k \<Longrightarrow> d ! (cols ! k) = mu" for k
    using core by (auto simp: path_core_def)
  have "m < nr \<and> d ! (cols ! m) \<le> mu \<or> nr \<le> m \<and> mu \<le> d ! (cols ! m)"
    using le lt [of m] eq [of m] far [of m] m by (cases "m < nr"; cases "m < hi") auto
  then show "v' ! (cols ! m) \<le> v ! (cols ! m)"
    and "v' ! (cols ! m) \<le> v ! (cols ! m) + d ! (cols ! m) - mu"
    and "d ! (cols ! m) \<le> mu \<Longrightarrow> v' ! (cols ! m) = v ! (cols ! m) + d ! (cols ! m) - mu"
    using v' by auto
qed

lemma path_end_prices:
  assumes inv: "lap_inv n cost F x y v"
    and ends: "path_end n cost v s y (p_lo p) (p_d p) (p_cols p) (p_pred p) j"
    and v': "v' = path_prices p (p_lo p) v"
  shows "j < n" "y ! j = -1" "length v' = n" "dual_ok n cost v' y"
    and "\<And>c. c < n \<Longrightarrow> y ! c = -1 \<Longrightarrow> v' ! c = v ! c"
    and "\<exists>M. path_back n cost v' s y (p_cols p) (p_pred p) M \<and> (\<exists>m\<in>M. j = p_cols p ! m)"
proof -
  let ?d = "p_d p" and ?c = "p_cols p" and ?pred = "p_pred p" and ?nr = "p_lo p"
  obtain L lo hi mu q where core: "path_core n cost v s y ?nr L lo hi mu ?d ?c ?pred"
    and q: "hi \<le> q" "q < n" "j = ?c ! q" and yj: "y ! j = -1" and dj: "?d ! j = mu"
    and nr: "?d ! (?c ! ?nr) = mu" and far: "\<And>k. k < n \<Longrightarrow> hi \<le> k \<Longrightarrow> mu \<le> ?d ! (?c ! k)"
    using ends unfolding path_end_def by blast
  have dual: "dual_ok n cost v y" and lv: "length v = n" using inv by (auto simp: lap_inv_def)
  note cc = core_cols [OF core]
  have le: "?nr \<le> lo" "lo \<le> L" "L \<le> hi" "hi \<le> n" using core by (auto simp: path_core_def)
  have "?nr \<le> n" using le by simp
  note pp = path_prices_nth [OF cc(2,1,3) lv this nr refl refl, folded v']
  show "length v' = n" by (rule pp(1))
  note drop = price_drop [OF core far _ pp(2)]
  have pos: "\<exists>m<n. c = ?c ! m" if "c < n" for c
  proof -
    have "c \<in> set ?c" using that cc(3) by simp
    then show ?thesis using cc(1) by (metis in_set_conv_nth)
  qed
  have low: "v' ! c \<le> v ! c" "v' ! c \<le> v ! c + ?d ! c - mu"
    and low_eq: "?d ! c \<le> mu \<Longrightarrow> v' ! c = v ! c + ?d ! c - mu" if "c < n" for c
    using pos [OF that] drop by auto
  have near: "y ! (?c ! k) \<noteq> -1" "?d ! (?c ! k) \<le> mu" if "k < hi" for k
    using core that by (auto simp: path_core_def)
  have tight_old: "tight n cost v' (nat (y ! (?c ! m))) (?c ! m)" if m: "m < n" "y ! (?c ! m) \<noteq> -1" for m
    unfolding tight_def
  proof (intro allI impI)
    fix j' assume j': "j' < n"
    let ?i = "nat (y ! (?c ! m))"
    have cm: "?c ! m < n" using cc(4) m by simp
    have old: "rcost cost v ?i (?c ! m) \<le> rcost cost v ?i j'" using dual cm m j' by (simp add: dual_ok_def)
    show "rcost cost v' ?i (?c ! m) \<le> rcost cost v' ?i j'"
    proof (cases "m < ?nr")
      case True
      then have "relaxed cost v y ?d (?c ! m) j'" using core le j' by (auto simp: path_core_def)
      moreover have "v' ! (?c ! m) = v ! (?c ! m) + ?d ! (?c ! m) - mu"
        using low_eq [OF cm] near [of m] True le by simp
      ultimately show ?thesis using low(2) [OF j'] by (simp add: relaxed_def)
    next
      case False
      then have "v' ! (?c ! m) = v ! (?c ! m)" using pp(2) [OF m(1)] by simp
      then show ?thesis using old low(1) [OF j'] by simp
    qed
  qed
  show "dual_ok n cost v' y" unfolding dual_ok_tight using tight_old pos by blast
  show "j < n" using q cc(4) by simp
  show "y ! j = -1" by (rule yj)
  show "v' ! c = v ! c" if c: "c < n" "y ! c = -1" for c
  proof -
    obtain m where m: "m < n" "c = ?c ! m" using pos c by blast
    then have "\<not> m < ?nr" using near(1) [of m] c le by auto
    then show ?thesis using pp(2) [OF m(1)] m by simp
  qed
  let ?M = "insert q {..<hi}"
  have "path_back n cost v' s y ?c ?pred ?M"
    unfolding path_back_def
  proof (intro conjI ballI)
    fix a assume a: "a \<in> ?M"
    then show an: "a < n" using q le by auto
    have ca: "?c ! a < n" using cc(4) an by simp
    have da: "v' ! (?c ! a) = v ! (?c ! a) + ?d ! (?c ! a) - mu"
      using low_eq [OF ca] a near(2) q dj by auto
    have "pred_ok cost v s y L ?d ?c ?pred a" using core an by (simp add: path_core_def)
    then consider (start) "?pred ! (?c ! a) = s" "?d ! (?c ! a) = rcost cost v s (?c ! a)"
      | (via) k where "k < L" "k < a" "y ! (?c ! k) = int (?pred ! (?c ! a))"
          "?d ! (?c ! a) = ?d ! (?c ! k) + rcost cost v (?pred ! (?c ! a)) (?c ! a)
                                        - rcost cost v (?pred ! (?c ! a)) (?c ! k)"
      unfolding pred_ok_def by blast
    then have "tight n cost v' (?pred ! (?c ! a)) (?c ! a) \<and>
      (?pred ! (?c ! a) = s \<or> (\<exists>k\<in>?M. k < a \<and> y ! (?c ! k) = int (?pred ! (?c ! a))))"
    proof cases
      case start
      have "rcost cost v' s (?c ! a) \<le> rcost cost v' s j'" if "j' < n" for j'
      proof -
        have "?d ! j' \<le> rcost cost v s j'" using core that by (simp add: path_core_def)
        then show ?thesis using low(2) [OF that] da start(2) by simp
      qed
      with start show ?thesis by (simp add: tight_def)
    next
      case via
      have kh: "k < hi" using via le by simp
      then have kn: "k < n" and ck: "?c ! k < n" using le cc(4) [of k] by simp_all
      have "v' ! (?c ! k) = v ! (?c ! k) + ?d ! (?c ! k) - mu"
        using low_eq [OF ck] near(2) [OF kh] by simp
      then have "rcost cost v' (?pred ! (?c ! a)) (?c ! a) = rcost cost v' (?pred ! (?c ! a)) (?c ! k)"
        using via(4) da by simp
      moreover have "tight n cost v' (?pred ! (?c ! a)) (?c ! k)"
        using tight_old [OF kn near(1) [OF kh]] via(3) by simp
      ultimately show ?thesis using via kh by (auto simp: tight_def)
    qed
    then show "tight n cost v' (?pred ! (?c ! a)) (?c ! a)"
      and "?pred ! (?c ! a) = s \<or> (\<exists>k\<in>?M. k < a \<and> y ! (?c ! k) = int (?pred ! (?c ! a)))" by auto
  qed (use cc in auto)
  then show "\<exists>M. path_back n cost v' s y ?c ?pred M \<and> (\<exists>m\<in>M. j = ?c ! m)" using q by blast
qed

lemma find_path_ok:
  assumes inv: "lap_inv n cost F x y v" and s: "s \<in> F"
  shows "\<exists>j pred v' cols M. find_path_dense n cost s y v = Some (j, pred, v') \<and> j < n \<and> y ! j = -1 \<and>
     length v' = n \<and> dual_ok n cost v' y \<and> (\<forall>c<n. y ! c = -1 \<longrightarrow> v' ! c = v ! c) \<and>
     path_back n cost v' s y cols pred M \<and> (\<exists>m\<in>M. j = cols ! m)"
proof -
  let ?d = "map (\<lambda>i. cost ! s ! i - v ! i) [0..<n]"
  let ?p = "\<lparr>p_lo = 0, p_hi = 0, p_d = ?d, p_cols = [0..<n], p_pred = replicate n s\<rparr>"
  let ?mu = "Min (insert 0 (set ?d)) - 1"
  have "set [0..<n] = {..<n}" by auto
  then have "path_core n cost v s y 0 0 0 0 ?mu ?d [0..<n] (replicate n s)"
    by (simp add: path_core_def pred_ok_def)
  moreover have "todo_above n 0 ?mu ?d [0..<n]"
    unfolding todo_above_def
  proof (intro allI impI)
    fix k assume "k < n"
    then have "?d ! ([0..<n] ! k) \<in> insert 0 (set ?d)" by simp
    then have "Min (insert 0 (set ?d)) \<le> ?d ! ([0..<n] ! k)" by (intro Min_le) simp_all
    then show "?mu < ?d ! ([0..<n] ! k)" by linarith
  qed
  ultimately obtain p' j where r: "path_loop n cost y v ?p 0 (-1) = Some (p', p_lo p', int j)"
    and e: "path_end n cost v s y (p_lo p') (p_d p') (p_cols p') (p_pred p') j"
    using path_loop_ok [OF inv, of s 0 ?p ?mu 0] s by auto
  have "find_path_dense n cost s y v = Some (j, p_pred p', path_prices p' (p_lo p') v)"
    using r by (simp add: find_path_dense_def)
  with path_end_prices [OF inv e refl] show ?thesis by blast
qed

section \<open>Augmentation\<close>

lemma pmatch_shift:
  assumes pm: "pmatch n F x (y[j := -1])" and ly: "length y = n" and j: "j < n" and i: "i < n"
    and c: "c < n" "c \<noteq> j" "y ! c = int i"
  shows "x ! i = int c" "pmatch n F (x[i := int j]) ((y[j := int i])[c := -1])" "i \<notin> F"
proof -
  have yc: "y[j := -1] ! c = int i" using c ly by simp
  note col = pmatch_col [OF pm c(1)]
  show xi: "x ! i = int c" and iF: "i \<notin> F" using col yc by auto
  have lx: "length x = n" and Fn: "F \<subseteq> {..<n}" using pmatch_lengths [OF pm] by auto
  show "pmatch n F (x[i := int j]) ((y[j := int i])[c := -1])"
    unfolding pmatch_def
  proof (intro conjI allI impI)
    fix r assume r: "r < n" "r \<notin> F"
    note row = pmatch_row [OF pm r]
    show "0 \<le> x[i := int j] ! r" "x[i := int j] ! r < int n"
      using row lx i j by (auto simp: nth_list_update)
    show "(y[j := int i])[c := -1] ! nat (x[i := int j] ! r) = int r"
    proof (cases "r = i")
      case True
      then show ?thesis using lx ly i j c by simp
    next
      case False
      have nj: "nat (x ! r) \<noteq> j" using row ly j by auto
      have "nat (x ! r) \<noteq> c"
      proof
        assume "nat (x ! r) = c"
        then have "int r = int i" using row yc by auto
        then show False using False by simp
      qed
      then show ?thesis using False row nj ly by simp
    qed
  next
    fix k assume k: "k < n" and nk: "(y[j := int i])[c := -1] ! k \<noteq> -1"
    then have kc: "k \<noteq> c" using ly by auto
    have "0 \<le> (y[j := int i])[c := -1] ! k \<and> (y[j := int i])[c := -1] ! k < int n \<and>
      nat ((y[j := int i])[c := -1] ! k) \<notin> F \<and> x[i := int j] ! nat ((y[j := int i])[c := -1] ! k) = int k"
    proof (cases "k = j")
      case True
      then show ?thesis using kc ly lx i j iF by simp
    next
      case False
      then have "y ! k \<noteq> -1" "y[j := -1] ! k = y ! k" using nk kc ly k by auto
      then have col': "0 \<le> y ! k" "y ! k < int n" "nat (y ! k) \<notin> F" "x ! nat (y ! k) = int k"
        using pmatch_col [OF pm k] by simp_all
      have "nat (y ! k) \<noteq> i" using col' xi kc by auto
      then show ?thesis using col' kc False by simp
    qed
    then show "0 \<le> (y[j := int i])[c := -1] ! k" "(y[j := int i])[c := -1] ! k < int n"
      "nat ((y[j := int i])[c := -1] ! k) \<notin> F"
      "x[i := int j] ! nat ((y[j := int i])[c := -1] ! k) = int k" by auto
  qed (use lx ly Fn in auto)
qed

end
