(* ===== verification/LapjvOpt.thy ===== *)
theory LapjvOpt imports LapjvPath begin

text \<open>
  \<open>augment\<close> and the loop over the free rows, and the correctness of \<open>lapjv_internal\<close>: it returns,
  with \<open>x\<close> and \<open>y\<close> inverse to each other, and no assignment of the rows has a smaller total cost.
\<close>

section \<open>Turning a path around\<close>

lemma pmatch_finish:
  assumes pm: "pmatch n F x (y[j := -1])" and ly: "length y = n" and j: "j < n" and s: "s \<in> F"
  shows "pmatch n (F - {s}) (x[s := int j]) (y[j := int s])"
proof -
  have lx: "length x = n" and Fn: "F \<subseteq> {..<n}" and sn: "s < n"
    using pmatch_lengths [OF pm] s by auto
  show ?thesis
    unfolding pmatch_def
  proof (intro conjI allI impI)
    fix r assume r: "r < n" "r \<notin> F - {s}"
    have "0 \<le> x[s := int j] ! r \<and> x[s := int j] ! r < int n \<and> y[j := int s] ! nat (x[s := int j] ! r) = int r"
    proof (cases "r = s")
      case True
      then show ?thesis using lx ly sn j by simp
    next
      case False
      then have row: "0 \<le> x ! r" "x ! r < int n" "y[j := -1] ! nat (x ! r) = int r"
        using pmatch_row [OF pm r(1)] r by auto
      then have "nat (x ! r) \<noteq> j" using ly j by auto
      then show ?thesis using row False by simp
    qed
    then show "0 \<le> x[s := int j] ! r" "x[s := int j] ! r < int n"
      "y[j := int s] ! nat (x[s := int j] ! r) = int r" by auto
  next
    fix k assume k: "k < n" and nk: "y[j := int s] ! k \<noteq> -1"
    have "0 \<le> y[j := int s] ! k \<and> y[j := int s] ! k < int n \<and> nat (y[j := int s] ! k) \<notin> F - {s} \<and>
      x[s := int j] ! nat (y[j := int s] ! k) = int k"
    proof (cases "k = j")
      case True
      then show ?thesis using lx ly sn j by simp
    next
      case False
      then have "y[j := -1] ! k \<noteq> -1" using nk by simp
      from pmatch_col [OF pm k this] False
      have col: "0 \<le> y ! k" "y ! k < int n" "nat (y ! k) \<notin> F" "x ! nat (y ! k) = int k" by auto
      moreover have "nat (y ! k) \<noteq> s" using col s by auto
      ultimately show ?thesis using False by simp
    qed
    then show "0 \<le> y[j := int s] ! k" "y[j := int s] ! k < int n" "nat (y[j := int s] ! k) \<notin> F - {s}"
      "x[s := int j] ! nat (y[j := int s] ! k) = int k" by auto
  qed (use lx ly Fn in auto)
qed

lemma augment_ok:
  assumes pb: "path_back n cost v s y0 cols pred M" and s: "s \<in> F"
    and "a \<in> M" and "length y = n"
    and "pmatch n F x (y[cols ! a := -1])" and "dual_ok n cost v (y[cols ! a := -1])"
    and "\<And>k. k \<in> M \<Longrightarrow> k < a \<Longrightarrow> y ! (cols ! k) = y0 ! (cols ! k)"
    and "\<And>c. c < n \<Longrightarrow> y ! c = -1 \<Longrightarrow> y0 ! c = -1"
  shows "\<exists>x' y'. augment s pred (cols ! a) x y = Some (x', y') \<and> pmatch n (F - {s}) x' y' \<and>
     dual_ok n cost v y' \<and> (\<forall>c<n. y' ! c = -1 \<longrightarrow> y0 ! c = -1)"
  using assms(3-)
proof (induction a arbitrary: x y rule: less_induct)
  case (less a)
  let ?j = "cols ! a"
  let ?i = "pred ! ?j"
  have cols: "length cols = n" "distinct cols" "set cols = {..<n}" using pb by (auto simp: path_back_def)
  have a: "a < n" and ti: "tight n cost v ?i ?j"
    and via: "?i = s \<or> (\<exists>k\<in>M. k < a \<and> y0 ! (cols ! k) = int ?i)"
    using pb less.prems(1) by (auto simp: path_back_def)
  have j: "?j < n" using a cols nth_mem [of a cols] by auto
  note ly = less.prems(2) and pm = less.prems(3)
  have dual: "dual_ok n cost v (y[?j := int ?i])"
    unfolding dual_ok_tight
  proof (intro allI impI)
    fix c assume c: "c < n" "y[?j := int ?i] ! c \<noteq> -1"
    show "tight n cost v (nat (y[?j := int ?i] ! c)) c"
    proof (cases "c = ?j")
      case True
      then show ?thesis using ti j ly by simp
    next
      case False
      then have "y[?j := -1] ! c \<noteq> -1" "y[?j := -1] ! c = y ! c" "y[?j := int ?i] ! c = y ! c"
        using c by simp_all
      then show ?thesis using less.prems(4) c(1) unfolding dual_ok_tight by metis
    qed
  qed
  have neg: "y0 ! c = -1" if "c < n" "y[?j := int ?i] ! c = -1" for c
    using less.prems(6) [of c] that j ly by (cases "c = ?j") auto
  show ?case
  proof (cases "?i = s")
    case True
    have "augment s pred ?j x y = Some (x[s := int ?j], y[?j := int s])"
      using True by (subst augment.simps) (simp add: Let_def)
    then show ?thesis
      using pmatch_finish [OF pm ly j s] dual neg True by auto
  next
    case False
    then obtain k where k: "k \<in> M" "k < a" "y0 ! (cols ! k) = int ?i" using via by blast
    let ?c = "cols ! k"
    have c: "?c < n" "?c \<noteq> ?j"
      using k a cols nth_mem [of k cols] by (auto simp: nth_eq_iff_index_eq)
    have yc: "y ! ?c = int ?i" using less.prems(5) [OF k(1,2)] k(3) by simp
    have "y[?j := -1] ! ?c \<noteq> -1" "y[?j := -1] ! ?c = int ?i" using yc c by simp_all
    then have i: "?i < n" using pmatch_col [OF pm c(1)] by simp
    note sh = pmatch_shift [OF pm ly j i c yc]
    have st: "augment s pred ?j x y = augment s pred ?c (x[?i := int ?j]) (y[?j := int ?i])"
      using False sh(1) by (subst augment.simps) (simp add: Let_def)
    have "\<exists>x' y'. augment s pred ?c (x[?i := int ?j]) (y[?j := int ?i]) = Some (x', y') \<and>
       pmatch n (F - {s}) x' y' \<and> dual_ok n cost v y' \<and> (\<forall>c<n. y' ! c = -1 \<longrightarrow> y0 ! c = -1)"
    proof (rule less.IH [OF k(2,1) _ sh(2)])
      show "dual_ok n cost v ((y[?j := int ?i])[?c := -1])"
        using dual ly c unfolding dual_ok_def by (auto simp: nth_list_update)
      show "(y[?j := int ?i]) ! (cols ! q) = y0 ! (cols ! q)" if "q \<in> M" "q < k" for q
      proof -
        have "cols ! q \<noteq> ?j" using that k a cols by (simp add: nth_eq_iff_index_eq)
        then show ?thesis using less.prems(5) [of q] that k by simp
      qed
    qed (use ly neg in simp_all)
    then show ?thesis unfolding st .
  qed
qed

section \<open>All free rows\<close>

lemma ca_dense_ok:
  assumes "distinct fs" and "lap_inv n cost (set fs) x y v"
  shows "\<exists>x' y' v'. ca_dense n cost fs (x, y, v) = Some (x', y', v') \<and> lap_inv n cost {} x' y' v'"
  using assms
proof (induction fs arbitrary: x y v)
  case (Cons s fs)
  let ?F = "set (s # fs)"
  have pm: "pmatch n ?F x y" and fl: "free_low n y v" using Cons.prems by (auto simp: lap_inv_def)
  have ly: "length y = n" using pmatch_lengths [OF pm] by simp
  obtain j pred v' cols M m where fp: "find_path_dense n cost s y v = Some (j, pred, v')"
    and j: "j < n" "y ! j = -1" and v': "length v' = n" "dual_ok n cost v' y"
      "\<forall>c<n. y ! c = -1 \<longrightarrow> v' ! c = v ! c"
    and pb: "path_back n cost v' s y cols pred M" and m: "m \<in> M" "j = cols ! m"
    using find_path_ok [OF Cons.prems(2) list.set_intros(1)] by blast
  have yj: "y[j := -1] = y" using j(2) by (metis list_update_id)
  have "\<exists>x' y'. augment s pred (cols ! m) x y = Some (x', y') \<and> pmatch n (?F - {s}) x' y' \<and>
     dual_ok n cost v' y' \<and> (\<forall>c<n. y' ! c = -1 \<longrightarrow> y ! c = -1)"
    by (rule augment_ok [OF pb _ m(1) ly]) (use pm v' yj m in simp_all)
  then obtain x1 y1 where au: "augment s pred j x y = Some (x1, y1)"
    and pm1: "pmatch n (?F - {s}) x1 y1" and d1: "dual_ok n cost v' y1"
    and neg: "\<forall>c<n. y1 ! c = -1 \<longrightarrow> y ! c = -1" using m(2) by auto
  have "free_low n y1 v'" using fl v'(3) neg by (simp add: free_low_def)
  moreover have "?F - {s} = set fs" using Cons.prems(1) by auto
  ultimately have "lap_inv n cost (set fs) x1 y1 v'"
    using pm1 d1 v'(1) by (simp add: lap_inv_def)
  then show ?case using Cons.IH [of x1 y1 v'] Cons.prems(1) fp au by simp
qed simp

section \<open>\<open>lapjv_internal\<close>\<close>

definition inverse_assignment :: "nat \<Rightarrow> int list \<Rightarrow> int list \<Rightarrow> bool" where
  "inverse_assignment n x y \<longleftrightarrow>
     length x = n \<and> length y = n \<and>
     (\<forall>i<n. 0 \<le> x ! i \<and> x ! i < int n \<and> y ! nat (x ! i) = int i) \<and>
     (\<forall>j<n. 0 \<le> y ! j \<and> y ! j < int n \<and> x ! nat (y ! j) = int j)"

definition total_cost :: "nat \<Rightarrow> real list list \<Rightarrow> int list \<Rightarrow> real" where
  "total_cost n cost x = (\<Sum>i<n. cost ! i ! nat (x ! i))"

lemma inverse_assignment_bij:
  assumes "inverse_assignment n x y"
  shows "bij_betw (\<lambda>i. nat (x ! i)) {..<n} {..<n}"
  by (rule bij_betw_byWitness [where f' = "\<lambda>j. nat (y ! j)"])
     (use assms in \<open>auto simp: inverse_assignment_def\<close>)

lemma lap_inv_complete:
  assumes "lap_inv n cost {} x y v"
  shows "inverse_assignment n x y"
proof -
  have pm: "pmatch n {} x y" using assms by (simp add: lap_inv_def)
  have no: "y ! j \<noteq> -1" if j: "j < n" for j
  proof
    assume yj: "y ! j = -1"
    have inj: "inj_on (\<lambda>i. nat (x ! i)) {..<n}"
    proof (rule inj_onI)
      fix i k assume ik: "i \<in> {..<n}" "k \<in> {..<n}" and eq: "nat (x ! i) = nat (x ! k)"
      have "int i = y ! nat (x ! i)" using pmatch_row [OF pm, of i] ik(1) by simp
      also have "\<dots> = int k" using pmatch_row [OF pm, of k] ik(2) unfolding eq by simp
      finally have "int i = int k" .
      then show "i = k" by simp
    qed
    have "(\<lambda>i. nat (x ! i)) ` {..<n} \<subseteq> {..<n} - {j}"
    proof (rule image_subsetI)
      fix i assume "i \<in> {..<n}"
      then have row: "0 \<le> x ! i" "x ! i < int n" "y ! nat (x ! i) = int i"
        using pmatch_row [OF pm, of i] by auto
      then have "nat (x ! i) \<noteq> j" using yj by auto
      then show "nat (x ! i) \<in> {..<n} - {j}" using row by auto
    qed
    then have "card {..<n} \<le> card ({..<n} - {j})"
      using card_image [OF inj] card_mono by (metis finite_Diff finite_lessThan)
    then show False using j by simp
  qed
  then show ?thesis
    using pm by (simp add: inverse_assignment_def pmatch_def)
qed

lemma lap_inv_optimal:
  assumes inv: "lap_inv n cost {} x y v" and bij: "bij_betw q {..<n} {..<n}"
  shows "total_cost n cost x \<le> (\<Sum>i<n. cost ! i ! q i)"
proof -
  note ia = lap_inv_complete [OF inv]
  have tightx: "rcost cost v i (nat (x ! i)) \<le> rcost cost v i (q i)" if i: "i < n" for i
  proof -
    have xi: "0 \<le> x ! i" "x ! i < int n" "y ! nat (x ! i) = int i"
      using ia i by (auto simp: inverse_assignment_def)
    then have y: "nat (x ! i) < n" "y ! nat (x ! i) \<noteq> -1" "nat (y ! nat (x ! i)) = i" by auto
    have "q i < n" using bij_betwE [OF bij] i by simp
    then show ?thesis
      using inv y unfolding lap_inv_def dual_ok_def by metis
  qed
  have sx: "(\<Sum>i<n. v ! nat (x ! i)) = (\<Sum>j<n. v ! j)"
    by (rule sum.reindex_bij_betw [OF inverse_assignment_bij [OF ia], of "\<lambda>j. v ! j"])
  have sq: "(\<Sum>i<n. v ! q i) = (\<Sum>j<n. v ! j)"
    by (rule sum.reindex_bij_betw [OF bij, of "\<lambda>j. v ! j"])
  have "total_cost n cost x - (\<Sum>j<n. v ! j) = (\<Sum>i<n. rcost cost v i (nat (x ! i)))"
    by (simp add: total_cost_def sx [symmetric] sum_subtractf)
  also have "\<dots> \<le> (\<Sum>i<n. rcost cost v i (q i))"
    by (intro sum_mono) (use tightx in auto)
  also have "\<dots> = (\<Sum>i<n. cost ! i ! q i) - (\<Sum>j<n. v ! j)"
    by (simp add: sq [symmetric] sum_subtractf)
  finally show ?thesis by simp
qed

lemma lapjv_correct:
  assumes n: "0 < n" and cw: "cost_within n C cost" and C: "2 * C < LARGE"
  shows "\<exists>x y. lapjv_internal n cost = Some (0, x, y) \<and> inverse_assignment n x y \<and>
     (\<forall>q. bij_betw q {..<n} {..<n} \<longrightarrow> total_cost n cost x \<le> (\<Sum>i<n. cost ! i ! q i))"
proof -
  have "0 \<le> C" using cost_withinD [OF cw n n] by linarith
  then have "C < LARGE" using C by simp
  note st = carr_rounds_ok [OF ccrrt_dense_ok [OF n cw this] cw C, of 2]
  obtain fr x y v where r: "carr_rounds 2 n cost (ccrrt_dense n cost) = (fr, x, y, v)"
    by (metis prod_cases4)
  have fr: "distinct fr" "lap_inv n cost (set fr) x y v" using st by (simp_all add: r lap_state_ok_def)
  from ca_dense_ok [OF this] obtain x' y' v'
    where ca: "ca_dense n cost fr (x, y, v) = Some (x', y', v')" and inv: "lap_inv n cost {} x' y' v'" by blast
  have "lapjv_internal n cost = Some (0, x', y')"
    using ca by (cases fr) (auto simp: lapjv_internal_def r)
  with lap_inv_complete [OF inv] lap_inv_optimal [OF inv] show ?thesis by blast
qed

section \<open>Properties\<close>

text \<open>
  C4.  The solver answers the assignment problem: for costs that stay below half of \<open>LARGE\<close> it
  returns 0, the row and column solutions are inverse to each other, and no assignment of the
  rows to distinct columns has a smaller total cost.
\<close>

theorem lapjv_internal_optimal:
  assumes "0 < n" "cost_within n C cost" "2 * C < LARGE"
  shows "\<exists>x y. lapjv_internal n cost = Some (0, x, y) \<and> inverse_assignment n x y \<and>
     (\<forall>q. bij_betw q {..<n} {..<n} \<longrightarrow> total_cost n cost x \<le> (\<Sum>i<n. cost ! i ! q i))"
  by (rule lapjv_correct [OF assms])

theorem lapjv_internal_optimal_witness:
  "lapjv_internal 3 [[4, 1, 3], [2, 0, 5], [3, 2, 2]] = Some (0, [1, 0, 2], [1, 0, 2]) \<and>
   total_cost 3 [[4, 1, 3], [2, 0, 5], [3, 2, 2]] [1, 0, 2]
     \<le> (\<Sum>i<3. [[4, 1, 3], [2, 0, 5], [3, 2, 2]] ! i ! id i)"
proof -
  let ?M = "[[4, 1, 3], [2, 0, 5], [3, 2, 2]] :: real list list"
  have r: "lapjv_internal 3 ?M = Some (0, [1, 0, 2], [1, 0, 2])" by code_simp
  have "cost_within 3 5 ?M"
    by (auto simp: cost_within_def less_Suc_eq numeral_eq_Suc)
  from lapjv_internal_optimal [OF _ this]
  have "\<forall>q. bij_betw q {..<3} {..<3} \<longrightarrow> total_cost 3 ?M [1, 0, 2] \<le> (\<Sum>i<3. ?M ! i ! q i)"
    by (simp add: r LARGE_def)
  from this [rule_format, OF bij_betw_id] r show ?thesis by simp
qed

end
