(* ===== verification/LinAlg.thy ===== *)
theory LinAlg imports Prelude begin

text \<open>
  The Eigen operations the program uses on small fixed-size matrices: a matrix is the list of its
  rows, a row vector is a list of reals.  The dimensions are read off the operands.
  \<open>quad\<close> is the quadratic form of a matrix; \<open>covar\<close> says that a matrix is a covariance:
  symmetric and positive semidefinite.
\<close>

type_synonym vec = "real list"
type_synonym mat = "real list list"

definition mat_mk :: "nat \<Rightarrow> nat \<Rightarrow> (nat \<Rightarrow> nat \<Rightarrow> real) \<Rightarrow> mat" where
  "mat_mk r c f = map (\<lambda>i. map (f i) [0..<c]) [0..<r]"

definition is_mat :: "nat \<Rightarrow> nat \<Rightarrow> mat \<Rightarrow> bool" where
  "is_mat r c A \<longleftrightarrow> length A = r \<and> (\<forall>row\<in>set A. length row = c)"

definition n_cols :: "mat \<Rightarrow> nat" where
  "n_cols A = (case A of [] \<Rightarrow> 0 | row # _ \<Rightarrow> length row)"

definition mat_ident :: "nat \<Rightarrow> nat \<Rightarrow> mat" where
  "mat_ident r c = mat_mk r c (\<lambda>i j. if i = j then 1 else 0)"

definition mat_mul :: "mat \<Rightarrow> mat \<Rightarrow> mat" where
  "mat_mul A B = mat_mk (length A) (n_cols B) (\<lambda>i j. \<Sum>k<length B. A ! i ! k * B ! k ! j)"

definition mat_trans :: "mat \<Rightarrow> mat" where
  "mat_trans A = mat_mk (n_cols A) (length A) (\<lambda>i j. A ! j ! i)"

definition mat_add :: "mat \<Rightarrow> mat \<Rightarrow> mat" where
  "mat_add A B = mat_mk (length A) (n_cols A) (\<lambda>i j. A ! i ! j + B ! i ! j)"

definition mat_sub :: "mat \<Rightarrow> mat \<Rightarrow> mat" where
  "mat_sub A B = mat_mk (length A) (n_cols A) (\<lambda>i j. A ! i ! j - B ! i ! j)"

text \<open>\<open>asDiagonal()\<close> of a vector; a matrix applied to a column vector.\<close>

definition mat_diag :: "vec \<Rightarrow> mat" where
  "mat_diag v = mat_mk (length v) (length v) (\<lambda>i j. if i = j then v ! i else 0)"

definition mat_vec :: "mat \<Rightarrow> vec \<Rightarrow> vec" where
  "mat_vec A v = map (\<lambda>i. \<Sum>k<length v. A ! i ! k * v ! k) [0..<length A]"

definition vec_add :: "vec \<Rightarrow> vec \<Rightarrow> vec" where
  "vec_add u v = map (\<lambda>i. u ! i + v ! i) [0..<length u]"

definition vec_sub :: "vec \<Rightarrow> vec \<Rightarrow> vec" where
  "vec_sub u v = map (\<lambda>i. u ! i - v ! i) [0..<length u]"

section \<open>Dimensions and entries\<close>

lemma is_mat_mk [simp]: "is_mat r c (mat_mk r c f)"
  by (auto simp: is_mat_def mat_mk_def)

lemma mat_mk_entry [simp]: "i < r \<Longrightarrow> j < c \<Longrightarrow> mat_mk r c f ! i ! j = f i j"
  by (simp add: mat_mk_def)

lemma length_mat_mk [simp]: "length (mat_mk r c f) = r"
  by (simp add: mat_mk_def)

lemma n_cols_is_mat: "is_mat r c A \<Longrightarrow> 0 < r \<Longrightarrow> n_cols A = c"
  by (cases A) (auto simp: is_mat_def n_cols_def)

lemma is_mat_length: "is_mat r c A \<Longrightarrow> length A = r"
  by (simp add: is_mat_def)

lemma is_mat_row: "is_mat r c A \<Longrightarrow> i < r \<Longrightarrow> length (A ! i) = c"
  by (simp add: is_mat_def)

lemma mat_mul_eq:
  assumes "is_mat r m A" "is_mat m c B" "0 < m"
  shows "mat_mul A B = mat_mk r c (\<lambda>i j. \<Sum>k<m. A ! i ! k * B ! k ! j)"
  using assms by (simp add: mat_mul_def n_cols_is_mat is_mat_length)

lemma mat_trans_eq:
  assumes "is_mat r c A" "0 < r"
  shows "mat_trans A = mat_mk c r (\<lambda>i j. A ! j ! i)"
  using assms by (simp add: mat_trans_def n_cols_is_mat is_mat_length)

lemma mat_add_eq:
  assumes "is_mat r c A" "0 < r"
  shows "mat_add A B = mat_mk r c (\<lambda>i j. A ! i ! j + B ! i ! j)"
  using assms by (simp add: mat_add_def n_cols_is_mat is_mat_length)

lemma mat_sub_eq:
  assumes "is_mat r c A" "0 < r"
  shows "mat_sub A B = mat_mk r c (\<lambda>i j. A ! i ! j - B ! i ! j)"
  using assms by (simp add: mat_sub_def n_cols_is_mat is_mat_length)

lemma mat_mk_cong:
  "(\<And>i j. i < r \<Longrightarrow> j < c \<Longrightarrow> f i j = g i j) \<Longrightarrow> mat_mk r c f = mat_mk r c g"
  by (simp add: mat_mk_def)

lemma length_mat_vec [simp]: "length (mat_vec A v) = length A"
  by (simp add: mat_vec_def)

lemma length_vec_add [simp]: "length (vec_add u v) = length u"
  by (simp add: vec_add_def)

lemma length_vec_sub [simp]: "length (vec_sub u v) = length u"
  by (simp add: vec_sub_def)

lemma vec_entries [simp]:
  "i < length u \<Longrightarrow> vec_add u v ! i = u ! i + v ! i"
  "i < length u \<Longrightarrow> vec_sub u v ! i = u ! i - v ! i"
  "i < length A \<Longrightarrow> mat_vec A w ! i = (\<Sum>k<length w. A ! i ! k * w ! k)"
  by (simp_all add: vec_add_def vec_sub_def mat_vec_def)

lemma is_mat_diag [simp]: "is_mat (length v) (length v) (mat_diag v)"
  by (simp add: mat_diag_def)

lemma mat_diag_entry [simp]:
  "i < length v \<Longrightarrow> j < length v \<Longrightarrow> mat_diag v ! i ! j = (if i = j then v ! i else 0)"
  by (simp add: mat_diag_def)

section \<open>Quadratic forms and covariances\<close>

definition quad :: "nat \<Rightarrow> (nat \<Rightarrow> nat \<Rightarrow> real) \<Rightarrow> (nat \<Rightarrow> real) \<Rightarrow> real" where
  "quad n P x = (\<Sum>i<n. \<Sum>j<n. x i * P i j * x j)"

definition covar :: "nat \<Rightarrow> mat \<Rightarrow> bool" where
  "covar n A \<longleftrightarrow> is_mat n n A \<and> (\<forall>i<n. \<forall>j<n. A ! i ! j = A ! j ! i) \<and>
     (\<forall>x. 0 \<le> quad n (\<lambda>i j. A ! i ! j) x)"

lemma quad_cong:
  assumes "\<And>i j. i < n \<Longrightarrow> j < n \<Longrightarrow> P i j = Q i j"
  shows "quad n P x = quad n Q x"
  using assms by (simp add: quad_def)

lemma quad_add: "quad n (\<lambda>i j. P i j + Q i j) x = quad n P x + quad n Q x"
  by (simp add: quad_def algebra_simps sum.distrib)

lemma quad_diag: "quad n (\<lambda>i j. if i = j then w i else 0) x = (\<Sum>i<n. w i * (x i)\<^sup>2)"
proof -
  have "quad n (\<lambda>i j. if i = j then w i else 0) x = (\<Sum>i<n. \<Sum>j<n. if i = j then x i * w i * x j else 0)"
    unfolding quad_def by (intro sum.cong refl) simp
  also have "\<dots> = (\<Sum>i<n. x i * w i * x i)" by simp
  finally show ?thesis by (simp add: power2_eq_square algebra_simps)
qed

lemma quad_diag_nonneg: "(\<And>i. i < n \<Longrightarrow> 0 \<le> w i) \<Longrightarrow> 0 \<le> quad n (\<lambda>i j. if i = j then w i else 0) x"
  unfolding quad_diag by (intro sum_nonneg) simp

text \<open>A diagonal entry of a covariance is a variance.\<close>

lemma quad_unit:
  assumes "k < n"
  shows "quad n P (\<lambda>i. if i = k then 1 else 0) = P k k"
proof -
  have "quad n P (\<lambda>i. if i = k then 1 else 0) = (\<Sum>i<n. if i = k then \<Sum>j<n. if j = k then P i j else 0 else 0)"
    unfolding quad_def by (intro sum.cong refl) (simp add: if_distrib cong: if_cong)
  then show ?thesis using assms by simp
qed

lemma covar_diag_nonneg: "covar n A \<Longrightarrow> k < n \<Longrightarrow> 0 \<le> A ! k ! k"
  using quad_unit [of k n "\<lambda>i j. A ! i ! j"] by (simp add: covar_def) metis

text \<open>The congruence \<open>F P F\<^sup>T\<close> of a covariance is one: its form at \<open>x\<close> is that of \<open>P\<close> at \<open>F\<^sup>T x\<close>.\<close>

lemma sum_rotate:
  fixes g :: "nat \<Rightarrow> nat \<Rightarrow> nat \<Rightarrow> real"
  shows "(\<Sum>j<a. \<Sum>l<b. \<Sum>k<c. g j l k) = (\<Sum>l<b. \<Sum>k<c. \<Sum>j<a. g j l k)"
proof -
  have "(\<Sum>j<a. \<Sum>l<b. \<Sum>k<c. g j l k) = (\<Sum>l<b. \<Sum>j<a. \<Sum>k<c. g j l k)" by (rule sum.swap)
  also have "\<dots> = (\<Sum>l<b. \<Sum>k<c. \<Sum>j<a. g j l k)" by (intro sum.cong refl sum.swap)
  finally show ?thesis .
qed

lemma quad_congruence:
  "quad r (\<lambda>i j. \<Sum>l<n. (\<Sum>k<n. F i k * P k l) * F j l) x = quad n P (\<lambda>k. \<Sum>i<r. F i k * x i)"
proof -
  have "quad r (\<lambda>i j. \<Sum>l<n. (\<Sum>k<n. F i k * P k l) * F j l) x =
      (\<Sum>i<r. \<Sum>j<r. \<Sum>l<n. \<Sum>k<n. x i * F i k * P k l * F j l * x j)"
    unfolding quad_def by (simp add: sum_distrib_left sum_distrib_right algebra_simps)
  also have "\<dots> = (\<Sum>i<r. \<Sum>l<n. \<Sum>k<n. \<Sum>j<r. x i * F i k * P k l * F j l * x j)"
    by (rule sum.cong [OF refl], rule sum_rotate)
  also have "\<dots> = (\<Sum>k<n. \<Sum>l<n. \<Sum>i<r. \<Sum>j<r. x i * F i k * P k l * F j l * x j)"
  proof -
    have "(\<Sum>i<r. \<Sum>l<n. \<Sum>k<n. \<Sum>j<r. x i * F i k * P k l * F j l * x j) =
        (\<Sum>i<r. \<Sum>k<n. \<Sum>l<n. \<Sum>j<r. x i * F i k * P k l * F j l * x j)"
      by (rule sum.cong [OF refl], rule sum.swap)
    also have "\<dots> = (\<Sum>k<n. \<Sum>i<r. \<Sum>l<n. \<Sum>j<r. x i * F i k * P k l * F j l * x j)"
      by (rule sum.swap)
    also have "\<dots> = (\<Sum>k<n. \<Sum>l<n. \<Sum>i<r. \<Sum>j<r. x i * F i k * P k l * F j l * x j)"
      by (rule sum.cong [OF refl], rule sum.swap)
    finally show ?thesis .
  qed
  also have "\<dots> = quad n P (\<lambda>k. \<Sum>i<r. F i k * x i)"
    unfolding quad_def by (simp add: sum_distrib_left sum_distrib_right algebra_simps)
  finally show ?thesis .
qed

lemma covar_congruence:
  assumes P: "covar n P" and F: "is_mat r n F" and "0 < n" "0 < r"
  shows "covar r (mat_mul (mat_mul F P) (mat_trans F))"
    and "i < r \<Longrightarrow> j < r \<Longrightarrow> mat_mul (mat_mul F P) (mat_trans F) ! i ! j =
           (\<Sum>l<n. (\<Sum>k<n. F ! i ! k * P ! k ! l) * F ! j ! l)"
proof -
  have dP: "is_mat n n P" using P by (simp add: covar_def)
  let ?C = "mat_mul (mat_mul F P) (mat_trans F)"
  have FP: "mat_mul F P = mat_mk r n (\<lambda>i l. \<Sum>k<n. F ! i ! k * P ! k ! l)"
    by (rule mat_mul_eq [OF F dP \<open>0 < n\<close>])
  have FT: "mat_trans F = mat_mk n r (\<lambda>i j. F ! j ! i)" by (rule mat_trans_eq [OF F \<open>0 < r\<close>])
  have C: "?C = mat_mk r r (\<lambda>i j. \<Sum>l<n. (\<Sum>k<n. F ! i ! k * P ! k ! l) * F ! j ! l)"
    unfolding FP FT
    by (subst mat_mul_eq [OF is_mat_mk is_mat_mk \<open>0 < n\<close>]) (rule mat_mk_cong, simp)
  then show entry: "?C ! i ! j = (\<Sum>l<n. (\<Sum>k<n. F ! i ! k * P ! k ! l) * F ! j ! l)" if "i < r" "j < r" for i j
    using that by simp
  have "?C ! i ! j = ?C ! j ! i" if ij: "i < r" "j < r" for i j
  proof -
    have "?C ! i ! j = (\<Sum>l<n. \<Sum>k<n. F ! i ! k * P ! k ! l * F ! j ! l)"
      using entry [OF ij] by (simp add: sum_distrib_right)
    also have "\<dots> = (\<Sum>k<n. \<Sum>l<n. F ! i ! k * P ! k ! l * F ! j ! l)" by (rule sum.swap)
    also have "\<dots> = (\<Sum>k<n. \<Sum>l<n. F ! j ! l * P ! l ! k * F ! i ! k)"
      using P by (intro sum.cong refl) (simp add: covar_def)
    also have "\<dots> = ?C ! j ! i"
      using entry [OF ij(2,1)] by (simp add: sum_distrib_right)
    finally show ?thesis .
  qed
  moreover have "0 \<le> quad r (\<lambda>i j. ?C ! i ! j) x" for x
  proof -
    have "quad r (\<lambda>i j. ?C ! i ! j) x =
        quad r (\<lambda>i j. \<Sum>l<n. (\<Sum>k<n. F ! i ! k * P ! k ! l) * F ! j ! l) x"
      by (rule quad_cong) (simp add: entry)
    also have "\<dots> = quad n (\<lambda>k l. P ! k ! l) (\<lambda>k. \<Sum>i<r. F ! i ! k * x i)"
      by (rule quad_congruence)
    finally show ?thesis using P by (simp add: covar_def)
  qed
  ultimately show "covar r ?C" by (simp add: covar_def C)
qed

lemma covar_add_diag:
  assumes A: "covar n A" and w: "\<And>i. i < n \<Longrightarrow> 0 \<le> w ! i" "length w = n" and "0 < n"
  shows "covar n (mat_add A (mat_diag w))"
proof -
  have dA: "is_mat n n A" using A by (simp add: covar_def)
  have eq: "mat_add A (mat_diag w) = mat_mk n n (\<lambda>i j. A ! i ! j + (if i = j then w ! i else 0))"
    unfolding mat_add_eq [OF dA \<open>0 < n\<close>] by (rule mat_mk_cong) (simp add: w(2))
  have "quad n (\<lambda>i j. mat_add A (mat_diag w) ! i ! j) x =
      quad n (\<lambda>i j. A ! i ! j) x + quad n (\<lambda>i j. if i = j then w ! i else 0) x" for x
    unfolding quad_add [symmetric] by (rule quad_cong) (simp add: eq)
  moreover have "0 \<le> quad n (\<lambda>i j. if i = j then w ! i else 0) x" for x
    by (rule quad_diag_nonneg) (simp add: w(1))
  ultimately show ?thesis using A by (simp add: covar_def eq)
qed

end
