(* ===== verification/ByteKalman.thy ===== *)
theory ByteKalman imports LinAlg begin

text \<open>
  Model of \<open>src/src/bytetrack/kalmanFilter.cpp\<close>: the constant velocity Kalman filter of a box
  \<open>(cx, cy, aspect, height)\<close>.  The matrix products are those of \<^theory_text>\<open>LinAlg\<close>.  Eigen's
  Cholesky solver is not part of the repository: \<open>solve S B\<close> stands for
  \<open>S.llt().solve(B)\<close>, \<open>llt_l S\<close> for \<open>S.llt().matrixL()\<close> and \<open>tri_solve L d\<close> for
  \<open>L.triangularView<Lower>().solve<OnTheRight>(d)\<close>; they are arguments of the definitions, and
  the lemmas name what they rely on (\<open>llt_solver\<close>, \<open>llt_factor\<close>, \<open>solves_right\<close>).

  The lemmas show that a covariance stays symmetric, positive semidefinite and decoupled (a
  coordinate is only correlated with its own velocity) through all three operations, that a
  measurement never raises a variance, and that the gating distance is the Mahalanobis distance.
\<close>

section \<open>The filter\<close>

definition chi2inv95 :: vec where
  "chi2inv95 = [0, 3.8415, 5.9915, 7.8147, 9.4877, 11.070, 12.592, 14.067, 15.507, 16.919]"

definition std_weight_position :: real where "std_weight_position = 1 / 20"

definition std_weight_velocity :: real where "std_weight_velocity = 1 / 160"

text \<open>The constructor: identity plus \<open>dt = 1\<close> from each velocity to its coordinate.\<close>

definition motion_mat :: mat where
  "motion_mat = fold (\<lambda>i m. m[i := (m ! i)[4 + i := 1]]) [0..<4] (mat_ident 8 8)"

definition update_mat :: mat where
  "update_mat = mat_ident 4 8"

definition kf_initiate :: "vec \<Rightarrow> vec \<times> mat" where
  "kf_initiate measurement =
     (let mean_pos = measurement;
          mean_vel = replicate 4 0;
          mean = map (\<lambda>i. if i < 4 then mean_pos ! i else mean_vel ! (i - 4)) [0..<8];
          h = measurement ! 3;
          std = [2 * std_weight_position * h, 2 * std_weight_position * h, 1/100,
                 2 * std_weight_position * h,
                 10 * std_weight_velocity * h, 10 * std_weight_velocity * h, 1/100000,
                 10 * std_weight_velocity * h];
          tmp = map (\<lambda>s. s\<^sup>2) std
      in (mean, mat_diag tmp))"

definition kf_predict :: "vec \<times> mat \<Rightarrow> vec \<times> mat" where
  "kf_predict = (\<lambda>(mean, covariance).
     let std_pos = [std_weight_position * mean ! 3, std_weight_position * mean ! 3, 1/100,
                    std_weight_position * mean ! 3];
         std_vel = [std_weight_velocity * mean ! 3, std_weight_velocity * mean ! 3, 1/100000,
                    std_weight_velocity * mean ! 3];
         tmp = map (\<lambda>s. s\<^sup>2) (std_pos @ std_vel);
         motion_cov = mat_diag tmp;
         mean1 = mat_vec motion_mat mean;
         covariance1 = mat_mul (mat_mul motion_mat covariance) (mat_trans motion_mat)
     in (mean1, mat_add covariance1 motion_cov))"

definition kf_project :: "vec \<times> mat \<Rightarrow> vec \<times> mat" where
  "kf_project = (\<lambda>(mean, covariance).
     let std = [std_weight_position * mean ! 3, std_weight_position * mean ! 3, 1/10,
                std_weight_position * mean ! 3];
         mean1 = mat_vec update_mat mean;
         covariance1 = mat_mul (mat_mul update_mat covariance) (mat_trans update_mat);
         diag = mat_diag (map (\<lambda>s. s\<^sup>2) std)
     in (mean1, mat_add covariance1 diag))"

definition kf_update :: "(mat \<Rightarrow> mat \<Rightarrow> mat) \<Rightarrow> vec \<times> mat \<Rightarrow> vec \<Rightarrow> vec \<times> mat" where
  "kf_update solve = (\<lambda>(mean, covariance) measurement.
     let (projected_mean, projected_cov) = kf_project (mean, covariance);
         B = mat_trans (mat_mul covariance (mat_trans update_mat));
         kalman_gain = mat_trans (solve projected_cov B);
         innovation = vec_sub measurement projected_mean;
         tmp = mat_vec kalman_gain innovation;
         new_mean = vec_add mean tmp;
         new_covariance = mat_sub covariance
           (mat_mul (mat_mul kalman_gain projected_cov) (mat_trans kalman_gain))
     in (new_mean, new_covariance))"

text \<open>
  \<open>only_position\<close> ends the process (\<open>exit(0)\<close>): no result.  Otherwise one squared distance per
  measurement.
\<close>

definition kf_gating_distance ::
  "(mat \<Rightarrow> mat) \<Rightarrow> (mat \<Rightarrow> mat \<Rightarrow> mat) \<Rightarrow> vec \<times> mat \<Rightarrow> vec list \<Rightarrow> bool \<Rightarrow> vec option" where
  "kf_gating_distance llt_l tri_solve st measurements only_position =
     (let (mean1, covariance1) = kf_project st in
      if only_position then None
      else
        let d = map (\<lambda>box. vec_sub box mean1) measurements;
            factor = llt_l covariance1;
            z = tri_solve factor d
        in Some (map (\<lambda>row. sum_list (map (\<lambda>e. e * e) row)) z))"

section \<open>What the lemmas rely on of the solver\<close>

definition positive_vec :: "nat \<Rightarrow> vec \<Rightarrow> bool" where
  "positive_vec n w \<longleftrightarrow> length w = n \<and> (\<forall>a<n. 0 < w ! a)"

text \<open>The solver solves the systems of a positive diagonal matrix.\<close>

definition llt_solver :: "(mat \<Rightarrow> mat \<Rightarrow> mat) \<Rightarrow> bool" where
  "llt_solver solve \<longleftrightarrow> (\<forall>w B. positive_vec 4 w \<longrightarrow> is_mat 4 8 B \<longrightarrow>
     is_mat 4 8 (solve (mat_diag w) B) \<and> mat_mul (mat_diag w) (solve (mat_diag w) B) = B)"

text \<open>
  The factor of a positive diagonal matrix is lower triangular with a positive diagonal and
  gives the matrix back; the triangular solver solves \<open>X L = d\<close> for a positive diagonal \<open>L\<close>.
\<close>

definition llt_factor :: "(mat \<Rightarrow> mat) \<Rightarrow> bool" where
  "llt_factor llt_l \<longleftrightarrow> (\<forall>w. positive_vec 4 w \<longrightarrow>
     is_mat 4 4 (llt_l (mat_diag w)) \<and>
     (\<forall>i<4. 0 < llt_l (mat_diag w) ! i ! i \<and> (\<forall>j<4. i < j \<longrightarrow> llt_l (mat_diag w) ! i ! j = 0)) \<and>
     mat_mul (llt_l (mat_diag w)) (mat_trans (llt_l (mat_diag w))) = mat_diag w)"

definition solves_right :: "(mat \<Rightarrow> mat \<Rightarrow> mat) \<Rightarrow> bool" where
  "solves_right tri_solve \<longleftrightarrow> (\<forall>w d. positive_vec 4 w \<longrightarrow> is_mat (length d) 4 d \<longrightarrow>
     is_mat (length d) 4 (tri_solve (mat_diag w) d) \<and> mat_mul (tri_solve (mat_diag w) d) (mat_diag w) = d)"

text \<open>The solver on diagonal matrices, which is all the witnesses need.\<close>

definition diag_solve :: "mat \<Rightarrow> mat \<Rightarrow> mat" where
  "diag_solve S B = mat_mk 4 8 (\<lambda>a i. B ! a ! i / S ! a ! a)"

lemma sum_diag_left:
  fixes f :: "nat \<Rightarrow> real"
  assumes "a < n"
  shows "(\<Sum>k<n. (if a = k then w else 0) * f k) = w * f a"
proof -
  have "(\<Sum>k<n. (if a = k then w else 0) * f k) = (\<Sum>k<n. if a = k then w * f k else 0)"
    by (intro sum.cong refl) simp
  then show ?thesis using assms by simp
qed

lemma diag_mul_entry:
  assumes w: "length w = n" and X: "is_mat n c X" and "0 < n" "a < n" "i < c"
  shows "mat_mul (mat_diag w) X ! a ! i = w ! a * X ! a ! i"
proof -
  have dw: "is_mat n n (mat_diag w)" using w is_mat_diag [of w] by simp
  have "mat_mul (mat_diag w) X ! a ! i = (\<Sum>k<n. mat_diag w ! a ! k * X ! k ! i)"
    using assms by (simp add: mat_mul_eq [OF dw X])
  also have "\<dots> = (\<Sum>k<n. (if a = k then w ! a else 0) * X ! k ! i)"
    using assms by (intro sum.cong refl) simp
  also have "\<dots> = w ! a * X ! a ! i" by (rule sum_diag_left [OF \<open>a < n\<close>])
  finally show ?thesis .
qed

lemma mat_eqI:
  assumes "is_mat r c A" "is_mat r c B" and "\<And>i j. i < r \<Longrightarrow> j < c \<Longrightarrow> A ! i ! j = B ! i ! j"
  shows "A = B"
  by (rule nth_equalityI) (use assms in \<open>auto simp: is_mat_def intro!: nth_equalityI\<close>)

lemma is_mat_mul: "is_mat r m A \<Longrightarrow> is_mat m c B \<Longrightarrow> 0 < m \<Longrightarrow> is_mat r c (mat_mul A B)"
  by (simp add: mat_mul_eq)

lemma diag_solve_llt: "llt_solver diag_solve"
  unfolding llt_solver_def
proof (intro allI impI conjI)
  fix w :: vec and B :: mat
  assume w: "positive_vec 4 w" and B: "is_mat 4 8 B"
  show X: "is_mat 4 8 (diag_solve (mat_diag w) B)" by (simp add: diag_solve_def)
  have lw: "length w = 4" using w by (simp add: positive_vec_def)
  have dw: "is_mat 4 4 (mat_diag w)" using lw is_mat_diag [of w] by simp
  show "mat_mul (mat_diag w) (diag_solve (mat_diag w) B) = B"
  proof (rule mat_eqI [OF _ B])
    show "is_mat 4 8 (mat_mul (mat_diag w) (diag_solve (mat_diag w) B))"
      by (rule is_mat_mul [OF dw X]) simp
    fix a i :: nat assume ai: "a < 4" "i < 8"
    then have "0 < w ! a" using w by (simp add: positive_vec_def)
    with ai show "mat_mul (mat_diag w) (diag_solve (mat_diag w) B) ! a ! i = B ! a ! i"
      using diag_mul_entry [OF lw X] lw by (simp add: diag_solve_def)
  qed
qed


section \<open>The invariant of a covariance\<close>

text \<open>A coordinate is only correlated with its own velocity.\<close>

definition coupled :: "mat \<Rightarrow> bool" where
  "coupled P \<longleftrightarrow> (\<forall>i<8. \<forall>j<8. i mod 4 \<noteq> j mod 4 \<longrightarrow> P ! i ! j = 0)"

definition kf_ok :: "vec \<times> mat \<Rightarrow> bool" where
  "kf_ok st \<longleftrightarrow> length (fst st) = 8 \<and> covar 8 (snd st) \<and> coupled (snd st)"

lemma motion_mat_mat: "is_mat 8 8 motion_mat"
  by code_simp

lemma update_mat_mat: "is_mat 4 8 update_mat"
  by (simp add: update_mat_def mat_ident_def)

lemma motion_mat_entries:
  "\<forall>i\<in>set [0..<8]. \<forall>j\<in>set [0..<8].
     motion_mat ! i ! j = (if i = j then 1 else 0) + (if i < 4 \<and> i + 4 = j then 1 else 0)"
  by code_simp

lemma motion_sum:
  assumes "i < 8"
  shows "(\<Sum>k<8. motion_mat ! i ! k * f k) = f i + (if i < 4 then f (i + 4) else 0)"
proof -
  have "(\<Sum>k<8. motion_mat ! i ! k * f k) =
      (\<Sum>k<8. (if i = k then f k else 0) + (if i + 4 = k then (if i < 4 then f k else 0) else 0))"
    using motion_mat_entries assms by (intro sum.cong refl) (auto simp: algebra_simps)
  then show ?thesis using assms by (simp add: sum.distrib)
qed

lemma update_sum:
  assumes "a < 4"
  shows "(\<Sum>k<8. update_mat ! a ! k * f k) = f a"
proof -
  have "(\<Sum>k<8. update_mat ! a ! k * f k) = (\<Sum>k<8. if a = k then f k else 0)"
    using assms by (intro sum.cong refl) (auto simp: update_mat_def mat_ident_def)
  then show ?thesis using assms by simp
qed

lemma sum_first:
  fixes f :: "nat \<Rightarrow> real"
  assumes "a \<le> n"
  shows "(\<Sum>j<n. if j < a then f j else 0) = (\<Sum>j<a. f j)"
  by (rule sum.mono_neutral_cong_right) (use assms in auto)

text \<open>\<open>initiate\<close>.\<close>

lemma coupled_diag: "length w = 8 \<Longrightarrow> coupled (mat_diag w)"
  by (auto simp: coupled_def)

lemma covar_diag:
  assumes "length w = n" "\<And>i. i < n \<Longrightarrow> 0 \<le> w ! i"
  shows "covar n (mat_diag w)"
proof -
  have "quad n (\<lambda>i j. mat_diag w ! i ! j) x = quad n (\<lambda>i j. if i = j then w ! i else 0) x" for x
    by (rule quad_cong) (use assms in simp)
  moreover have "0 \<le> quad n (\<lambda>i j. if i = j then w ! i else 0) x" for x
    by (rule quad_diag_nonneg) (use assms in simp)
  ultimately show ?thesis using assms is_mat_diag [of w] by (simp add: covar_def)
qed

lemma squares_nonneg: "i < length xs \<Longrightarrow> 0 \<le> map (\<lambda>s. s\<^sup>2) xs ! (i::nat)" for xs :: vec
  by simp

lemma kf_initiate_ok: "kf_ok (kf_initiate m)"
  unfolding kf_ok_def kf_initiate_def Let_def
  by (simp only: fst_conv snd_conv, intro conjI covar_diag coupled_diag squares_nonneg) simp_all

text \<open>\<open>predict\<close>.\<close>

lemma kf_predict_ok:
  assumes "kf_ok st"
  shows "kf_ok (kf_predict st)"
proof -
  obtain mean P where st: "st = (mean, P)" by (cases st)
  have lm: "length mean = 8" and P: "covar 8 P" and cp: "coupled P"
    using assms by (auto simp: kf_ok_def st)
  let ?C = "mat_mul (mat_mul motion_mat P) (mat_trans motion_mat)"
  note cg = covar_congruence [OF P motion_mat_mat]
  define w where "w = map (\<lambda>s::real. s\<^sup>2)
    ([std_weight_position * mean ! 3, std_weight_position * mean ! 3, 1/100, std_weight_position * mean ! 3] @
     [std_weight_velocity * mean ! 3, std_weight_velocity * mean ! 3, 1/100000, std_weight_velocity * mean ! 3])"
  have w: "length w = 8" "\<And>i. i < 8 \<Longrightarrow> 0 \<le> w ! i" 
    unfolding w_def by (simp, rule squares_nonneg, simp)
  have pr: "kf_predict st = (mat_vec motion_mat mean, mat_add ?C (mat_diag w))"
    by (simp add: st kf_predict_def Let_def w_def)
  have C: "covar 8 ?C" by (rule cg(1)) simp_all
  have zero: "?C ! i ! j = 0" if ij: "i < 8" "j < 8" "i mod 4 \<noteq> j mod 4" for i j
  proof -
    have P0: "P ! k ! l = 0" if "k < 8" "l < 8" "k mod 4 = i mod 4" "l mod 4 = j mod 4" for k l
      using cp that ij by (simp add: coupled_def)
    have "?C ! i ! j = (\<Sum>l<8. motion_mat ! j ! l * (\<Sum>k<8. motion_mat ! i ! k * P ! k ! l))"
      using cg(2) ij by (simp add: mult.commute)
    then show ?thesis
      using ij by (simp add: motion_sum P0)
  qed
  have "coupled (mat_add ?C (mat_diag w))"
    unfolding coupled_def using C w zero by (auto simp: covar_def mat_add_eq [of 8 8])
  then show ?thesis
    using covar_add_diag [OF C w(2,1)] is_mat_length [OF motion_mat_mat] by (simp add: pr kf_ok_def)
qed

lemma kf_predict_mean:
  assumes "length mean = 8" "i < 8"
  shows "fst (kf_predict (mean, P)) ! i = mean ! i + (if i < 4 then mean ! (i + 4) else 0)"
  using assms is_mat_length [OF motion_mat_mat] by (simp add: kf_predict_def Let_def motion_sum)

text \<open>\<open>project\<close>: of a decoupled covariance a positive diagonal matrix.\<close>

definition innov_var :: "vec \<times> mat \<Rightarrow> vec" where
  "innov_var st = map (\<lambda>a. snd st ! a ! a +
     (if a = 2 then (1/10)\<^sup>2 else (std_weight_position * fst st ! 3)\<^sup>2)) [0..<4]"

lemma less_4: "a < 4 \<longleftrightarrow> a = 0 \<or> a = 1 \<or> a = 2 \<or> a = (3::nat)"
  by auto

lemma kf_project_ok:
  assumes ok: "kf_ok st"
  shows "kf_project st = (take 4 (fst st), mat_diag (innov_var st))"
    and "fst st ! 3 \<noteq> 0 \<Longrightarrow> positive_vec 4 (innov_var st)"
proof -
  obtain mean P where st: "st = (mean, P)" by (cases st)
  have lm: "length mean = 8" and P: "covar 8 P" and cp: "coupled P"
    using ok by (auto simp: kf_ok_def st)
  let ?C = "mat_mul (mat_mul update_mat P) (mat_trans update_mat)"
  define w where "w = map (\<lambda>s::real. s\<^sup>2)
    [std_weight_position * mean ! 3, std_weight_position * mean ! 3, 1/10, std_weight_position * mean ! 3]"
  have lw: "length w = 4" by (simp add: w_def)
  note cg = covar_congruence [OF P update_mat_mat]
  have C: "is_mat 4 4 ?C" using cg(1) by (simp add: covar_def)
  have entry: "?C ! a ! b = P ! a ! b" if "a < 4" "b < 4" for a b
  proof -
    have "?C ! a ! b = (\<Sum>l<8. update_mat ! b ! l * (\<Sum>k<8. update_mat ! a ! k * P ! k ! l))"
      using cg(2) that by (simp add: mult.commute)
    then show ?thesis using that by (simp add: update_sum)
  qed
  have "mat_add ?C (mat_diag w) = mat_diag (innov_var st)"
  proof (rule mat_eqI)
    show "is_mat 4 4 (mat_add ?C (mat_diag w))" using C by (simp add: mat_add_eq)
    show "is_mat 4 4 (mat_diag (innov_var st))"
      using is_mat_diag [of "innov_var st"] by (simp add: innov_var_def)
    fix a b :: nat assume ab: "a < 4" "b < 4"
    have "P ! a ! b = 0" if "a \<noteq> b" using cp ab that by (simp add: coupled_def)
    moreover have "w ! a = (if a = 2 then (1/10)\<^sup>2 else (std_weight_position * mean ! 3)\<^sup>2)"
      using ab(1) unfolding less_4 w_def by auto
    ultimately show "mat_add ?C (mat_diag w) ! a ! b = mat_diag (innov_var st) ! a ! b"
      using ab C entry [OF ab] lw by (cases "a = b") (simp_all add: mat_add_eq st innov_var_def)
  qed
  moreover have "mat_vec update_mat mean = take 4 mean"
    by (rule nth_equalityI)
       (use lm is_mat_length [OF update_mat_mat] in \<open>simp_all add: update_sum\<close>)
  ultimately show "kf_project st = (take 4 (fst st), mat_diag (innov_var st))"
    by (simp add: st kf_project_def Let_def w_def)
  show "positive_vec 4 (innov_var st)" if "fst st ! 3 \<noteq> 0"
    using that covar_diag_nonneg [OF P]
    by (auto simp: positive_vec_def innov_var_def st std_weight_position_def intro!: add_nonneg_pos)
qed

text \<open>
  \<open>update\<close>.  With the innovation variances \<open>w\<close>, the gain is \<open>P[i][a] / w[a]\<close> and the new
  covariance \<open>P[i][j] - sum of P[i][a] P[j][a] / w[a]\<close>.
\<close>

lemma kf_update_entries:
  assumes ok: "kf_ok (mean, P)" and nz: "mean ! 3 \<noteq> 0" and slv: "llt_solver solve"
    and w: "w = innov_var (mean, P)" and res: "kf_update solve (mean, P) z = (mean', P')"
  shows "length mean' = 8" and "is_mat 8 8 P'"
    and "i < 8 \<Longrightarrow> length z = 4 \<Longrightarrow> mean' ! i = mean ! i + (\<Sum>a<4. P ! i ! a / w ! a * (z ! a - mean ! a))"
    and "i < 8 \<Longrightarrow> j < 8 \<Longrightarrow> P' ! i ! j = P ! i ! j - (\<Sum>a<4. P ! i ! a * P ! j ! a / w ! a)"
proof -
  have lm: "length mean = 8" and dP: "is_mat 8 8 P" using ok by (auto simp: kf_ok_def covar_def)
  have pos: "positive_vec 4 w" and pj: "kf_project (mean, P) = (take 4 mean, mat_diag w)"
    using kf_project_ok [OF ok] nz w by simp_all
  have lw: "length w = 4" and w0: "\<And>a. a < 4 \<Longrightarrow> w ! a \<noteq> 0" using pos by (auto simp: positive_vec_def)
  have dw: "is_mat 4 4 (mat_diag w)" using is_mat_diag [of w] lw by simp
  let ?PH = "mat_mul P (mat_trans update_mat)"
  let ?B = "mat_trans ?PH"
  let ?X = "solve (mat_diag w) ?B"
  let ?K = "mat_trans ?X"
  have HT: "mat_trans update_mat = mat_mk 8 4 (\<lambda>i j. update_mat ! j ! i)"
    by (rule mat_trans_eq [OF update_mat_mat]) simp
  have PH: "?PH = mat_mk 8 4 (\<lambda>i a. P ! i ! a)"
    unfolding HT by (subst mat_mul_eq [OF dP is_mat_mk]) (auto intro!: mat_mk_cong simp: update_sum mult.commute)
  have B: "?B = mat_mk 4 8 (\<lambda>a i. P ! i ! a)"
    unfolding PH by (subst mat_trans_eq [OF is_mat_mk]) (auto intro!: mat_mk_cong)
  have X: "is_mat 4 8 ?X" and XB: "mat_mul (mat_diag w) ?X = ?B"
    using slv pos unfolding llt_solver_def by (simp_all add: B)
  have Xe: "?X ! a ! i = P ! i ! a / w ! a" if "a < 4" "i < 8" for a i
  proof -
    have "w ! a * ?X ! a ! i = ?B ! a ! i"
      using diag_mul_entry [OF lw X _ that] XB by simp
    then show ?thesis using w0 that by (simp add: B field_simps)
  qed
  have K: "?K = mat_mk 8 4 (\<lambda>i a. P ! i ! a / w ! a)"
    by (subst mat_trans_eq [OF X]) (auto intro!: mat_mk_cong simp: Xe)
  have KT: "mat_trans ?K = mat_mk 4 8 (\<lambda>a i. P ! i ! a / w ! a)"
    unfolding K by (subst mat_trans_eq [OF is_mat_mk]) (auto intro!: mat_mk_cong)
  have KS: "mat_mul ?K (mat_diag w) = mat_mk 8 4 (\<lambda>i a. P ! i ! a)"
    unfolding K
  proof (subst mat_mul_eq [OF is_mat_mk dw], simp, rule mat_mk_cong)
    fix i j :: nat assume ij: "i < 8" "j < 4"
    have "(\<Sum>k<4. mat_mk 8 4 (\<lambda>i a. P ! i ! a / w ! a) ! i ! k * mat_diag w ! k ! j) =
        (\<Sum>k<4. (if j = k then w ! j else 0) * (P ! i ! k / w ! k))"
      using ij lw by (intro sum.cong refl) auto
    also have "\<dots> = w ! j * (P ! i ! j / w ! j)" by (rule sum_diag_left [OF ij(2)])
    finally show "(\<Sum>k<4. mat_mk 8 4 (\<lambda>i a. P ! i ! a / w ! a) ! i ! k * mat_diag w ! k ! j) = P ! i ! j"
      using w0 [OF ij(2)] by simp
  qed
  have KSK: "mat_mul (mat_mul ?K (mat_diag w)) (mat_trans ?K) =
      mat_mk 8 8 (\<lambda>i j. \<Sum>a<4. P ! i ! a * P ! j ! a / w ! a)"
    unfolding KS KT by (subst mat_mul_eq [OF is_mat_mk is_mat_mk]) (auto intro!: mat_mk_cong)
  have m': "mean' = vec_add mean (mat_vec ?K (vec_sub z (take 4 mean)))"
    and P': "P' = mat_sub P (mat_mul (mat_mul ?K (mat_diag w)) (mat_trans ?K))"
    using res by (simp_all add: kf_update_def pj Let_def)
  show "length mean' = 8" by (simp add: m' lm)
  show "is_mat 8 8 P'" unfolding P' by (simp add: mat_sub_eq [OF dP])
  show "P' ! i ! j = P ! i ! j - (\<Sum>a<4. P ! i ! a * P ! j ! a / w ! a)" if "i < 8" "j < 8"
    using that unfolding P' KSK by (simp add: mat_sub_eq [OF dP])
  show "mean' ! i = mean ! i + (\<Sum>a<4. P ! i ! a / w ! a * (z ! a - mean ! a))" if "i < 8" "length z = 4"
    using that lm unfolding m' K by (simp add: less_4)
qed

text \<open>Completing the square: the new covariance is a form of the old one plus the noise.\<close>

lemma update_quad:
  fixes P :: "nat \<Rightarrow> nat \<Rightarrow> real" and w r :: "nat \<Rightarrow> real"
  assumes sym: "\<And>i j. i < n \<Longrightarrow> j < n \<Longrightarrow> P i j = P j i" and mn: "m \<le> n"
    and diag: "\<And>a b. a < m \<Longrightarrow> b < m \<Longrightarrow> a \<noteq> b \<Longrightarrow> P a b = 0"
    and w: "\<And>a. a < m \<Longrightarrow> w a = P a a + r a" "\<And>a. a < m \<Longrightarrow> w a \<noteq> 0"
    and u: "u = (\<lambda>a. (\<Sum>i<n. x i * P i a) / w a)"
  shows "quad n (\<lambda>i j. P i j - (\<Sum>a<m. P i a * P j a / w a)) x =
     quad n P (\<lambda>i. x i - (if i < m then u i else 0)) + (\<Sum>a<m. r a * (u a)\<^sup>2)"
proof -
  let ?h = "\<lambda>i. if i < m then u i else 0"
  let ?s = "\<lambda>a. \<Sum>i<n. x i * P i a"
  have su: "?s a = w a * u a" if "a < m" for a using w(2) [OF that] by (simp add: u)
  have pick: "(\<Sum>j<n. f j * ?h j) = (\<Sum>a<m. f a * u a)" for f
  proof -
    have "(\<Sum>j<n. f j * ?h j) = (\<Sum>j<n. if j < m then f j * u j else 0)" by (intro sum.cong refl) simp
    then show ?thesis using sum_first [OF mn, of "\<lambda>j. f j * u j"] by simp
  qed
  have xPh: "(\<Sum>i<n. \<Sum>j<n. x i * P i j * ?h j) = (\<Sum>a<m. w a * (u a)\<^sup>2)"
  proof -
    have "(\<Sum>i<n. \<Sum>j<n. x i * P i j * ?h j) = (\<Sum>j<n. (\<Sum>i<n. x i * P i j) * ?h j)"
      by (subst sum.swap) (simp add: sum_distrib_right)
    also have "\<dots> = (\<Sum>a<m. ?s a * u a)" by (rule pick)
    also have "\<dots> = (\<Sum>a<m. w a * (u a)\<^sup>2)"
      by (intro sum.cong refl) (simp add: su power2_eq_square)
    finally show ?thesis .
  qed
  have hPx: "(\<Sum>i<n. \<Sum>j<n. ?h i * P i j * x j) = (\<Sum>i<n. \<Sum>j<n. x i * P i j * ?h j)"
    by (subst sum.swap) (intro sum.cong refl, simp add: sym algebra_simps)
  have hPh: "(\<Sum>i<n. \<Sum>j<n. ?h i * P i j * ?h j) = (\<Sum>a<m. P a a * (u a)\<^sup>2)"
  proof -
    have "(\<Sum>i<n. \<Sum>j<n. ?h i * P i j * ?h j) = (\<Sum>i<n. (\<Sum>a<m. P i a * u a) * ?h i)"
    proof (rule sum.cong [OF refl])
      fix i
      have "(\<Sum>j<n. ?h i * P i j * ?h j) = ?h i * (\<Sum>j<n. P i j * ?h j)"
        by (simp only: sum_distrib_left mult.assoc)
      also have "\<dots> = (\<Sum>a<m. P i a * u a) * ?h i"
        unfolding pick [of "P i"] by (rule mult.commute)
      finally show "(\<Sum>j<n. ?h i * P i j * ?h j) = (\<Sum>a<m. P i a * u a) * ?h i" .
    qed
    also have "\<dots> = (\<Sum>b<m. (\<Sum>a<m. P b a * u a) * u b)" by (rule pick)
    also have "\<dots> = (\<Sum>b<m. P b b * (u b)\<^sup>2)"
    proof (intro sum.cong refl)
      fix b assume b: "b \<in> {..<m}"
      have "(\<Sum>a<m. P b a * u a) = (\<Sum>a<m. if b = a then P b a * u a else 0)"
        using diag b by (intro sum.cong refl) auto
      then show "(\<Sum>a<m. P b a * u a) * u b = P b b * (u b)\<^sup>2"
        using b by (simp add: power2_eq_square)
    qed
    finally show ?thesis .
  qed
  have "quad n (\<lambda>i j. P i j - (\<Sum>a<m. P i a * P j a / w a)) x =
      quad n P x - (\<Sum>i<n. \<Sum>j<n. \<Sum>a<m. x i * P i a * P j a * x j / w a)"
    by (simp add: quad_def algebra_simps sum_subtractf sum_distrib_left sum_distrib_right)
  also have "(\<Sum>i<n. \<Sum>j<n. \<Sum>a<m. x i * P i a * P j a * x j / w a) =
      (\<Sum>a<m. \<Sum>i<n. \<Sum>j<n. x i * P i a * P j a * x j / w a)"
    using sum_rotate [of "\<lambda>a i j. x i * P i a * P j a * x j / w a" n n m] by simp
  also have "\<dots> = (\<Sum>a<m. ?s a * ?s a / w a)"
    by (intro sum.cong refl) (simp add: sum_product sum_divide_distrib algebra_simps)
  also have "\<dots> = (\<Sum>a<m. w a * (u a)\<^sup>2)"
    by (intro sum.cong refl) (simp add: su w(2) power2_eq_square)
  finally have L: "quad n (\<lambda>i j. P i j - (\<Sum>a<m. P i a * P j a / w a)) x =
      quad n P x - (\<Sum>a<m. w a * (u a)\<^sup>2)" .
  have "quad n P (\<lambda>i. x i - ?h i) = quad n P x - (\<Sum>i<n. \<Sum>j<n. x i * P i j * ?h j)
      - (\<Sum>i<n. \<Sum>j<n. ?h i * P i j * x j) + (\<Sum>i<n. \<Sum>j<n. ?h i * P i j * ?h j)"
    unfolding quad_def by (simp only: left_diff_distrib right_diff_distrib sum_subtractf sum.distrib)
  also have "\<dots> = quad n P x - 2 * (\<Sum>a<m. w a * (u a)\<^sup>2) + (\<Sum>a<m. P a a * (u a)\<^sup>2)"
    unfolding hPx xPh hPh by simp
  finally have R: "quad n P (\<lambda>i. x i - ?h i) =
      quad n P x - 2 * (\<Sum>a<m. w a * (u a)\<^sup>2) + (\<Sum>a<m. P a a * (u a)\<^sup>2)" .
  have "(\<Sum>a<m. w a * (u a)\<^sup>2) = (\<Sum>a<m. P a a * (u a)\<^sup>2) + (\<Sum>a<m. r a * (u a)\<^sup>2)"
    by (simp add: sum.distrib [symmetric] w(1) algebra_simps)
  with L R show ?thesis by simp
qed

lemma kf_update_ok:
  assumes ok: "kf_ok st" and nz: "fst st ! 3 \<noteq> 0" and slv: "llt_solver solve"
  shows "kf_ok (kf_update solve st z)"
    and "k < 8 \<Longrightarrow> snd (kf_update solve st z) ! k ! k \<le> snd st ! k ! k"
proof -
  obtain mean P where st: "st = (mean, P)" by (cases st)
  obtain mean' P' where r: "kf_update solve (mean, P) z = (mean', P')"
    by (cases "kf_update solve (mean, P) z")
  define w where "w = innov_var (mean, P)"
  have P: "covar 8 P" and cp: "coupled P" using ok by (auto simp: kf_ok_def st)
  note en = kf_update_entries [OF ok [unfolded st] nz [unfolded st, simplified] slv w_def r]
  have pos: "positive_vec 4 w" using kf_project_ok(2) [OF ok nz] by (simp add: w_def st)
  then have wp: "\<And>a. a < 4 \<Longrightarrow> 0 < w ! a" by (simp add: positive_vec_def)
  have P'e: "P' ! i ! j = P ! i ! j - (\<Sum>a<4. P ! i ! a * P ! j ! a / w ! a)" if "i < 8" "j < 8" for i j
    using en(4) that .
  have sym: "P ! i ! j = P ! j ! i" if "i < 8" "j < 8" for i j using P that by (simp add: covar_def)
  define rr where "rr a = (if a = 2 then (1/10)\<^sup>2 else (std_weight_position * mean ! 3)\<^sup>2)" for a :: nat
  have "0 \<le> quad 8 (\<lambda>i j. P' ! i ! j) x" for x
  proof -
    define u where "u = (\<lambda>a. (\<Sum>i<8. x i * P ! i ! a) / w ! a)"
    have "quad 8 (\<lambda>i j. P' ! i ! j) x =
        quad 8 (\<lambda>i j. P ! i ! j - (\<Sum>a<4. P ! i ! a * P ! j ! a / w ! a)) x"
      by (rule quad_cong) (rule P'e)
    also have "\<dots> = quad 8 (\<lambda>i j. P ! i ! j) (\<lambda>i. x i - (if i < 4 then u i else 0)) +
        (\<Sum>a<4. rr a * (u a)\<^sup>2)"
    proof (rule update_quad)
      show "u = (\<lambda>a. (\<Sum>i<8. x i * P ! i ! a) / w ! a)" by (rule u_def)
      show "w ! a = P ! a ! a + rr a" if "a < 4" for a using that by (simp add: w_def innov_var_def rr_def)
      show "w ! a \<noteq> 0" if "a < 4" for a using wp [OF that] by simp
      show "P ! a ! b = 0" if "a < 4" "b < 4" "a \<noteq> b" for a b using cp that by (simp add: coupled_def)
    qed (use sym in simp_all)
    also have "0 \<le> \<dots>"
      using P by (intro add_nonneg_nonneg sum_nonneg) (auto simp: covar_def rr_def)
    finally show ?thesis .
  qed
  moreover have "P' ! i ! j = P' ! j ! i" if "i < 8" "j < 8" for i j
    using P'e [OF that] P'e [OF that(2,1)] sym [OF that] by (simp add: mult.commute)
  ultimately have "covar 8 P'" using en(2) by (simp add: covar_def)
  moreover have "coupled P'"
    unfolding coupled_def
  proof (intro allI impI)
    fix i j :: nat assume ij: "i < 8" "j < 8" "i mod 4 \<noteq> j mod 4"
    have "P ! i ! a * P ! j ! a / w ! a = 0" if "a < 4" for a
      using cp ij that unfolding coupled_def by (cases "i mod 4 = a") auto
    then have "(\<Sum>a<4. P ! i ! a * P ! j ! a / w ! a) = 0" by (intro sum.neutral) simp
    moreover have "P ! i ! j = 0" using cp ij by (simp add: coupled_def)
    ultimately show "P' ! i ! j = 0" using P'e [OF ij(1,2)] by simp
  qed
  ultimately show "kf_ok (kf_update solve st z)" using en(1) by (simp add: kf_ok_def st r)
  show "snd (kf_update solve st z) ! k ! k \<le> snd st ! k ! k" if "k < 8"
  proof -
    have "0 \<le> (\<Sum>a<4. P ! k ! a * P ! k ! a / w ! a)"
      using wp by (intro sum_nonneg divide_nonneg_pos) auto
    then show ?thesis using P'e [OF that that] by (simp add: st r)
  qed
qed

section \<open>The gating distance\<close>

lemma llt_factor_diag:
  assumes fac: "llt_factor llt_l" and w: "positive_vec 4 w"
  shows "llt_l (mat_diag w) = mat_diag (map sqrt w)"
proof -
  let ?L = "llt_l (mat_diag w)"
  have L: "is_mat 4 4 ?L" and pos: "\<And>i. i < 4 \<Longrightarrow> 0 < ?L ! i ! i"
    and low: "\<And>i j. i < j \<Longrightarrow> j < 4 \<Longrightarrow> ?L ! i ! j = 0"
    and LL: "mat_mul ?L (mat_trans ?L) = mat_diag w"
    using fac w by (auto simp: llt_factor_def)
  have lw: "length w = 4" using w by (simp add: positive_vec_def)
  have dot: "(\<Sum>k<4. ?L ! i ! k * ?L ! j ! k) = (if i = j then w ! i else 0)" if "i < 4" "j < 4" for i j
  proof -
    have LT: "is_mat 4 4 (mat_trans ?L)" by (simp add: mat_trans_eq [OF L])
    have "mat_mul ?L (mat_trans ?L) ! i ! j = (\<Sum>k<4. ?L ! i ! k * ?L ! j ! k)"
      using that by (subst mat_mul_eq [OF L LT]) (simp_all add: mat_trans_eq [OF L])
    then show ?thesis using LL that lw by simp
  qed
  have four: "(\<Sum>k<4. f k) = f 0 + f 1 + f 2 + f (3::nat)" for f :: "nat \<Rightarrow> real"
    by (simp add: eval_nat_numeral)
  have col0: "?L ! i ! 0 = 0" if "0 < i" "i < 4" for i
    using dot [of 0 i] that low [of 0] pos [of 0] by (simp add: four)
  have col1: "?L ! i ! 1 = 0" if "1 < i" "i < 4" for i
    using dot [of 1 i] that low [of 1] pos [of 1] col0 by (simp add: four)
  have col2: "?L ! i ! 2 = 0" if "2 < i" "i < 4" for i
    using dot [of 2 i] that low [of 2] pos [of 2] col0 [of 2] col1 [of 2] by (simp add: four)
  have off: "?L ! i ! j = 0" if "i < 4" "j < 4" "i \<noteq> j" for i j
    using that low [of i j] col0 [of i] col1 [of i] col2 [of i] unfolding less_4 by auto
  have "?L ! i ! i = sqrt (w ! i)" if "i < 4" for i
  proof -
    have "(\<Sum>k<4. ?L ! i ! k * ?L ! i ! k) = (\<Sum>k<4. if i = k then ?L ! i ! k * ?L ! i ! k else 0)"
      using off that by (intro sum.cong refl) auto
    then have "?L ! i ! i * ?L ! i ! i = w ! i" using dot [of i i] that by simp
    then show ?thesis using pos [OF that] by (metis less_imp_le real_sqrt_mult_self real_sqrt_unique power2_eq_square)
  qed
  then show ?thesis
    using off lw is_mat_diag [of "map sqrt w"] by (intro mat_eqI [OF L]) simp_all
qed

lemma kf_gating_ok:
  assumes ok: "kf_ok st" and nz: "fst st ! 3 \<noteq> 0" and fac: "llt_factor llt_l"
    and tri: "solves_right tri_solve" and ms: "\<And>m. m \<in> set ms \<Longrightarrow> length m = 4"
  shows "kf_gating_distance llt_l tri_solve st ms False =
     Some (map (\<lambda>m. \<Sum>a<4. (m ! a - fst st ! a)\<^sup>2 / innov_var st ! a) ms)"
proof -
  let ?w = "innov_var st" and ?s = "map sqrt (innov_var st)"
  let ?d = "map (\<lambda>box. vec_sub box (take 4 (fst st))) ms"
  have pos: "positive_vec 4 ?w" and pj: "kf_project st = (take 4 (fst st), mat_diag ?w)"
    using kf_project_ok [OF ok] nz by simp_all
  have lw: "length ?w = 4" and lm: "length (fst st) = 8" using pos ok by (auto simp: positive_vec_def kf_ok_def)
  have spos: "positive_vec 4 ?s" using pos by (simp add: positive_vec_def)
  let ?z = "tri_solve (mat_diag ?s) ?d"
  have d: "is_mat (length ?d) 4 ?d" using ms by (simp add: is_mat_def)
  have z: "is_mat (length ?d) 4 ?z" "mat_mul ?z (mat_diag ?s) = ?d"
    using tri spos d unfolding solves_right_def by blast+
  have ds: "is_mat 4 4 (mat_diag ?s)" using is_mat_diag [of ?s] lw by simp
  have ze: "?z ! i ! a = (ms ! i ! a - fst st ! a) / sqrt (?w ! a)" if i: "i < length ms" and a: "a < 4" for i a
  proof -
    have "mat_mul ?z (mat_diag ?s) ! i ! a = (\<Sum>k<4. ?z ! i ! k * mat_diag ?s ! k ! a)"
      using i a by (simp add: mat_mul_eq [OF z(1) ds])
    also have "\<dots> = (\<Sum>k<4. (if a = k then sqrt (?w ! a) else 0) * ?z ! i ! k)"
      using a lw by (intro sum.cong refl) auto
    also have "\<dots> = sqrt (?w ! a) * ?z ! i ! a" by (rule sum_diag_left [OF a])
    finally have "sqrt (?w ! a) * ?z ! i ! a = ms ! i ! a - fst st ! a"
      using z(2) i a ms lm by simp
    moreover have "0 < sqrt (?w ! a)" using pos a by (simp add: positive_vec_def)
    ultimately show ?thesis by (simp add: field_simps)
  qed
  have "sum_list (map (\<lambda>e. e * e) (?z ! i)) = (\<Sum>a<4. (ms ! i ! a - fst st ! a)\<^sup>2 / ?w ! a)"
    if i: "i < length ms" for i
  proof -
    have li: "length (?z ! i) = 4" using is_mat_row [OF z(1)] i by simp
    have "sum_list (map (\<lambda>e. e * e) (?z ! i)) = (\<Sum>a<4. ?z ! i ! a * ?z ! i ! a)"
      using li by (simp add: sum_list_sum_nth atLeast0LessThan)
    also have "\<dots> = (\<Sum>a<4. (ms ! i ! a - fst st ! a)\<^sup>2 / ?w ! a)"
    proof (intro sum.cong refl)
      fix a :: nat assume "a \<in> {..<4}"
      then have "a < 4" "0 < ?w ! a" using pos by (auto simp: positive_vec_def)
      then show "?z ! i ! a * ?z ! i ! a = (ms ! i ! a - fst st ! a)\<^sup>2 / ?w ! a"
        using ze [OF i] by (simp add: power2_eq_square)
    qed
    finally show ?thesis .
  qed
  then have "map (\<lambda>row. sum_list (map (\<lambda>e. e * e) row)) ?z =
      map (\<lambda>m. \<Sum>a<4. (m ! a - fst st ! a)\<^sup>2 / ?w ! a) ms"
    using is_mat_length [OF z(1)] by (intro nth_equalityI) simp_all
  then show ?thesis
    by (simp add: kf_gating_distance_def pj llt_factor_diag [OF fac pos])
qed

section \<open>Concrete solvers for the witnesses\<close>

definition diag_llt :: "mat \<Rightarrow> mat" where
  "diag_llt S = mat_diag (map (\<lambda>a. sqrt (S ! a ! a)) [0..<4])"

definition diag_right :: "mat \<Rightarrow> mat \<Rightarrow> mat" where
  "diag_right L d = mat_mk (length d) 4 (\<lambda>i a. d ! i ! a / L ! a ! a)"

lemma diag_llt_factor: "llt_factor diag_llt"
proof -
  have "mat_mul (diag_llt (mat_diag w)) (mat_trans (diag_llt (mat_diag w))) = mat_diag w \<and>
      is_mat 4 4 (diag_llt (mat_diag w)) \<and>
      (\<forall>i<4. 0 < diag_llt (mat_diag w) ! i ! i \<and> (\<forall>j<4. i < j \<longrightarrow> diag_llt (mat_diag w) ! i ! j = 0))"
    if w: "positive_vec 4 w" for w
  proof -
    let ?s = "map sqrt w"
    have lw: "length w = 4" and pos: "\<And>a. a < 4 \<Longrightarrow> 0 < w ! a" using w by (auto simp: positive_vec_def)
    have "map (\<lambda>a. sqrt (mat_diag w ! a ! a)) [0..<4] = ?s"
      using lw by (intro nth_equalityI) auto
    then have L: "diag_llt (mat_diag w) = mat_diag ?s" by (simp add: diag_llt_def)
    have s: "is_mat 4 4 (mat_diag ?s)" using is_mat_diag [of ?s] lw by simp
    have t: "is_mat 4 4 (mat_trans (mat_diag ?s))" by (simp add: mat_trans_eq [OF s])
    have "mat_mul (mat_diag ?s) (mat_trans (mat_diag ?s)) = mat_diag w"
    proof (rule mat_eqI)
      show "is_mat 4 4 (mat_mul (mat_diag ?s) (mat_trans (mat_diag ?s)))"
        by (rule is_mat_mul [OF s t]) simp
      show "is_mat 4 4 (mat_diag w)" using is_mat_diag [of w] lw by simp
      fix i j :: nat assume ij: "i < 4" "j < 4"
      have "mat_mul (mat_diag ?s) (mat_trans (mat_diag ?s)) ! i ! j =
          (\<Sum>k<4. mat_diag ?s ! i ! k * mat_trans (mat_diag ?s) ! k ! j)"
        using ij by (simp add: mat_mul_eq [OF s t])
      also have "\<dots> = (\<Sum>k<4. (if i = k then sqrt (w ! i) else 0) * mat_diag ?s ! j ! k)"
        using ij lw by (intro sum.cong refl) (auto simp: mat_trans_eq [OF s])
      also have "\<dots> = sqrt (w ! i) * mat_diag ?s ! j ! i" by (rule sum_diag_left [OF ij(1)])
      also have "\<dots> = mat_diag w ! i ! j" using ij lw pos [OF ij(1)] by auto
      finally show "mat_mul (mat_diag ?s) (mat_trans (mat_diag ?s)) ! i ! j = mat_diag w ! i ! j" .
    qed
    then show ?thesis using s pos lw by (simp add: L)
  qed
  then show ?thesis by (simp add: llt_factor_def)
qed

lemma diag_right_solves: "solves_right diag_right"
  unfolding solves_right_def
proof (intro allI impI conjI)
  fix w :: vec and d :: mat
  assume w: "positive_vec 4 w" and d: "is_mat (length d) 4 d"
  have lw: "length w = 4" and pos: "\<And>a. a < 4 \<Longrightarrow> w ! a \<noteq> 0"
    using w by (auto simp: positive_vec_def)
  show z: "is_mat (length d) 4 (diag_right (mat_diag w) d)" by (simp add: diag_right_def)
  have ds: "is_mat 4 4 (mat_diag w)" using is_mat_diag [of w] lw by simp
  show "mat_mul (diag_right (mat_diag w) d) (mat_diag w) = d"
  proof (rule mat_eqI [OF is_mat_mul [OF z ds] d])
    fix i j :: nat assume ij: "i < length d" "j < 4"
    have "mat_mul (diag_right (mat_diag w) d) (mat_diag w) ! i ! j =
        (\<Sum>k<4. (if j = k then w ! j else 0) * (diag_right (mat_diag w) d ! i ! k))"
      using ij lw by (simp add: mat_mul_eq [OF z ds]) (intro sum.cong refl, auto)
    also have "\<dots> = w ! j * (diag_right (mat_diag w) d ! i ! j)" by (rule sum_diag_left [OF ij(2)])
    also have "\<dots> = d ! i ! j" using ij lw pos by (simp add: diag_right_def)
    finally show "mat_mul (diag_right (mat_diag w) d) (mat_diag w) ! i ! j = d ! i ! j" .
  qed simp
qed

section \<open>Properties\<close>

text \<open>
  The prediction keeps a covariance a covariance (symmetric, positive semidefinite,
  coordinates not coupled with each other), moves the box by its velocity and leaves the
  velocity alone.
\<close>

lemma kf_predict_step:
  assumes "kf_ok st"
  shows "kf_ok (kf_predict st) \<and>
    (\<forall>i<8. fst (kf_predict st) ! i = fst st ! i + (if i < 4 then fst st ! (i + 4) else 0))"
  using kf_predict_ok [OF assms] kf_predict_mean [of "fst st" _ "snd st"] assms
  by (simp add: kf_ok_def)

text \<open>
  C21.  A measurement update keeps a covariance a covariance, and no variance grows: what the
  filter knows of each coordinate never gets less by a measurement.
\<close>

theorem kf_update_contracts:
  assumes "kf_ok st" "fst st ! 3 \<noteq> 0" "llt_solver solve"
  shows "kf_ok (kf_update solve st z) \<and>
    (\<forall>k<8. snd (kf_update solve st z) ! k ! k \<le> snd st ! k ! k)"
  using kf_update_ok [OF assms] by blast

theorem kf_update_contracts_witness:
  "kf_ok (kf_update diag_solve (kf_initiate [10, 20, 1/2, 40]) [11, 21, 1/2, 42])"
  using kf_update_contracts [OF kf_initiate_ok [of "[10, 20, 1/2, 40]"] _ diag_solve_llt,
      of "[11, 21, 1/2, 42]"]
  by (simp add: kf_initiate_def Let_def)

text \<open>
  C22.  The gating distance of a measurement is its squared Mahalanobis distance to the projected
  state: the code solves \<open>X L = d\<close> and not \<open>L X = d\<close>, which gives the same number because
  the coordinates of the filter's covariance are never coupled.
\<close>

theorem kf_gating_mahalanobis:
  assumes "kf_ok st" "fst st ! 3 \<noteq> 0" "llt_factor llt_l" "solves_right tri_solve"
    and "\<forall>m\<in>set ms. length m = 4"
  shows "kf_gating_distance llt_l tri_solve st ms False =
     Some (map (\<lambda>m. \<Sum>a<4. (m ! a - fst st ! a)\<^sup>2 / innov_var st ! a) ms)"
  by (rule kf_gating_ok) (use assms in auto)

theorem kf_gating_mahalanobis_witness:
  "kf_gating_distance diag_llt diag_right (kf_initiate [10, 20, 1/2, 40]) [[11, 21, 1/2, 42]] False =
     Some [\<Sum>a<4. ([11, 21, 1/2, 42] ! a - fst (kf_initiate [10, 20, 1/2, 40]) ! a)\<^sup>2 /
        innov_var (kf_initiate [10, 20, 1/2, 40]) ! a]"
  using kf_gating_mahalanobis [OF kf_initiate_ok [of "[10, 20, 1/2, 40]"] _ diag_llt_factor diag_right_solves,
      of "[[11, 21, 1/2, 42]]"]
  by (simp add: kf_initiate_def Let_def)

end
