(* ===== verification/STrack.thy ===== *)
theory STrack imports ByteKalman begin

text \<open>
  Model of \<open>src/src/bytetrack/STrack.cpp\<close>: one ByteTrack track, its life cycle
  New, Tracked, Lost, Removed, and its box in the three forms the code keeps.

  \<open>float\<close> vectors of length four are lists \<open>[x, y, w, h]\<close> or \<open>[x1, y1, x2, y2]\<close>.  The static
  counter of \<open>next_id\<close> is passed in and out.  The constructor leaves \<open>mean\<close> and \<open>covariance\<close>
  uninitialised: they are empty here, and no operation reads them before \<open>activate\<close>.
\<close>

section \<open>State\<close>

datatype track_state = New | Tracked | Lost | Removed

record strack =
  is_activated :: bool
  track_id :: int
  state :: track_state
  tlwh0 :: vec            \<comment> \<open>\<open>_tlwh\<close>, the box of the detection\<close>
  tlwh :: vec
  tlbr :: vec
  frame_id :: int
  tracklet_len :: int
  start_frame :: int
  mean :: vec
  covariance :: mat
  score :: real
  name :: string
  label :: int
  last_center :: "int \<times> int"
  now_center :: "int \<times> int"
  speed_1s :: real
  speed_1m :: real
  speed_all :: real
  liveness :: real
  trajectory :: "(real \<times> real) list"

text \<open>The enumeration's order, as the library's.\<close>

instantiation track_state :: linorder
begin

definition rank_of :: "track_state \<Rightarrow> nat" where
  "rank_of s = (case s of New \<Rightarrow> 0 | Tracked \<Rightarrow> 1 | Lost \<Rightarrow> 2 | Removed \<Rightarrow> 3)"

definition less_eq_track_state :: "track_state \<Rightarrow> track_state \<Rightarrow> bool" where
  "less_eq_track_state a b \<longleftrightarrow> rank_of a \<le> rank_of b"

definition less_track_state :: "track_state \<Rightarrow> track_state \<Rightarrow> bool" where
  "less_track_state a b \<longleftrightarrow> rank_of a < rank_of b"

instance
  by standard
     (auto simp: less_eq_track_state_def less_track_state_def rank_of_def split: track_state.splits)

end

section \<open>Boxes\<close>

definition tlwh_to_xyah :: "vec \<Rightarrow> vec" where
  "tlwh_to_xyah b =
     (let b = b[0 := b ! 0 + b ! 2 / 2];
          b = b[1 := b ! 1 + b ! 3 / 2]
      in b[2 := b ! 2 / b ! 3])"

definition tlbr_to_tlwh :: "vec \<Rightarrow> vec" where
  "tlbr_to_tlwh b =
     (let b = b[2 := b ! 2 - b ! 0]
      in b[3 := b ! 3 - b ! 1])"

definition static_tlwh :: "strack \<Rightarrow> strack" where
  "static_tlwh t =
     (if state t = New
      then t\<lparr>tlwh := [tlwh0 t ! 0, tlwh0 t ! 1, tlwh0 t ! 2, tlwh0 t ! 3]\<rparr>
      else
        let b = [mean t ! 0, mean t ! 1, mean t ! 2, mean t ! 3];
            b = b[2 := b ! 2 * b ! 3];
            b = b[0 := b ! 0 - b ! 2 / 2];
            b = b[1 := b ! 1 - b ! 3 / 2]
        in t\<lparr>tlwh := b\<rparr>)"

definition static_tlbr :: "strack \<Rightarrow> strack" where
  "static_tlbr t =
     (let b = tlwh t;
          b = b[2 := b ! 2 + b ! 0];
          b = b[3 := b ! 3 + b ! 1]
      in t\<lparr>tlbr := b\<rparr>)"

definition to_xyah :: "strack \<Rightarrow> vec" where
  "to_xyah t = tlwh_to_xyah (tlwh t)"

section \<open>The life cycle\<close>

definition new_strack :: "vec \<Rightarrow> real \<Rightarrow> string \<Rightarrow> int \<Rightarrow> strack" where
  "new_strack box sc nm lb =
     static_tlbr (static_tlwh
       \<lparr>is_activated = False, track_id = 0, state = New, tlwh0 = box,
        tlwh = replicate 4 0, tlbr = replicate 4 0, frame_id = 0, tracklet_len = 0,
        start_frame = 0, mean = [], covariance = [], score = sc, name = nm, label = lb,
        last_center = (0, 0), now_center = (0, 0), speed_1s = 0, speed_1m = 0,
        speed_all = 0, liveness = 0, trajectory = []\<rparr>)"

definition next_id :: "int \<Rightarrow> int \<times> int" where
  "next_id cnt = (let cnt = cnt + 1 in (cnt, cnt))"

definition center :: "strack \<Rightarrow> real \<times> real" where
  "center t = (tlwh t ! 0 + tlwh t ! 2 * (1/2), tlwh t ! 1 + tlwh t ! 3 * (1/2))"

text \<open>\<open>trajectory.push_back(..); if (trajectory.size() > 50) trajectory.pop_front();\<close>\<close>

definition push_trajectory :: "strack \<Rightarrow> strack" where
  "push_trajectory t =
     (let tr = trajectory t @ [center t]
      in t\<lparr>trajectory := (if length tr > 50 then tl tr else tr)\<rparr>)"

definition activate :: "int \<Rightarrow> int \<Rightarrow> strack \<Rightarrow> strack \<times> int" where
  "activate fid cnt t =
     (let (tid, cnt) = next_id cnt;
          t = t\<lparr>track_id := tid\<rparr>;
          tmp = [tlwh0 t ! 0, tlwh0 t ! 1, tlwh0 t ! 2, tlwh0 t ! 3];
          (m, c) = kf_initiate (tlwh_to_xyah tmp);
          t = t\<lparr>mean := m, covariance := c\<rparr>;
          t = static_tlbr (static_tlwh t);
          t = t\<lparr>trajectory := [center t], tracklet_len := 0, state := Tracked\<rparr>;
          t = (if fid = 1 then t\<lparr>is_activated := True\<rparr> else t)
      in (t\<lparr>frame_id := fid, start_frame := fid\<rparr>, cnt))"

definition re_activate ::
  "(mat \<Rightarrow> mat \<Rightarrow> mat) \<Rightarrow> strack \<Rightarrow> int \<Rightarrow> bool \<Rightarrow> int \<Rightarrow> strack \<Rightarrow> strack \<times> int" where
  "re_activate solve new_track fid new_id cnt t =
     (let (m, c) = kf_update solve (mean t, covariance t) (tlwh_to_xyah (tlwh new_track));
          t = t\<lparr>mean := m, covariance := c\<rparr>;
          t = push_trajectory (static_tlbr (static_tlwh t));
          t = t\<lparr>tracklet_len := 0, state := Tracked, is_activated := True, frame_id := fid,
                score := score new_track, name := name new_track, label := label new_track\<rparr>
      in if new_id then (let (tid, cnt) = next_id cnt in (t\<lparr>track_id := tid\<rparr>, cnt))
         else (t, cnt))"

definition st_update :: "(mat \<Rightarrow> mat \<Rightarrow> mat) \<Rightarrow> strack \<Rightarrow> int \<Rightarrow> strack \<Rightarrow> strack" where
  "st_update solve new_track fid t =
     (let t = t\<lparr>frame_id := fid, tracklet_len := tracklet_len t + 1\<rparr>;
          (m, c) = kf_update solve (mean t, covariance t) (tlwh_to_xyah (tlwh new_track));
          t = t\<lparr>mean := m, covariance := c\<rparr>;
          t = push_trajectory (static_tlbr (static_tlwh t))
      in t\<lparr>state := Tracked, is_activated := True,
           score := score new_track, name := name new_track, label := label new_track\<rparr>)"

definition mark_lost :: "strack \<Rightarrow> strack" where "mark_lost t = t\<lparr>state := Lost\<rparr>"

definition mark_removed :: "strack \<Rightarrow> strack" where "mark_removed t = t\<lparr>state := Removed\<rparr>"

definition end_frame :: "strack \<Rightarrow> int" where "end_frame t = frame_id t"

text \<open>The body of \<open>multi_predict\<close>'s loop: the prediction of one track of the pool.\<close>

definition predict_one :: "strack \<Rightarrow> strack" where
  "predict_one t =
     (let t = (if state t \<noteq> Tracked then t\<lparr>mean := (mean t)[7 := 0]\<rparr> else t);
          (m, c) = kf_predict (mean t, covariance t);
          t = t\<lparr>mean := m, covariance := c\<rparr>
      in static_tlbr (static_tlwh t))"

section \<open>Lemmas\<close>

text \<open>The box conversions are inverse to each other.\<close>

definition xyah_to_tlwh :: "vec \<Rightarrow> vec" where
  "xyah_to_tlwh m = [m ! 0 - m ! 2 * m ! 3 / 2, m ! 1 - m ! 3 / 2, m ! 2 * m ! 3, m ! 3]"

lemma length_4: "length b = 4 \<longleftrightarrow> (\<exists>p q r s. b = [p, q, r, s])"
  by (auto simp: numeral_eq_Suc length_Suc_conv)

lemma xyah_roundtrip:
  assumes "length b = 4" "b ! 3 \<noteq> 0"
  shows "xyah_to_tlwh (tlwh_to_xyah b) = b"
  using assms by (auto simp: length_4 xyah_to_tlwh_def tlwh_to_xyah_def Let_def)

lemma static_tlwh_mean:
  "state t \<noteq> New \<Longrightarrow> tlwh (static_tlwh t) = xyah_to_tlwh (mean t)"
  by (simp add: static_tlwh_def xyah_to_tlwh_def Let_def)

text \<open>What each operation leaves alone or sets.\<close>

lemma static_fields [simp]:
  "is_activated (static_tlwh t) = is_activated t" "is_activated (static_tlbr t) = is_activated t"
  "track_id (static_tlwh t) = track_id t" "track_id (static_tlbr t) = track_id t"
  "state (static_tlwh t) = state t" "state (static_tlbr t) = state t"
  "mean (static_tlwh t) = mean t" "mean (static_tlbr t) = mean t"
  "covariance (static_tlwh t) = covariance t" "covariance (static_tlbr t) = covariance t"
  "trajectory (static_tlwh t) = trajectory t" "trajectory (static_tlbr t) = trajectory t"
  "frame_id (static_tlwh t) = frame_id t" "frame_id (static_tlbr t) = frame_id t"
  "start_frame (static_tlwh t) = start_frame t" "start_frame (static_tlbr t) = start_frame t"
  "tlwh (static_tlbr t) = tlwh t"
  by (simp_all add: static_tlwh_def static_tlbr_def Let_def)

lemma push_fields [simp]:
  "is_activated (push_trajectory t) = is_activated t" "track_id (push_trajectory t) = track_id t"
  "state (push_trajectory t) = state t" "mean (push_trajectory t) = mean t"
  "covariance (push_trajectory t) = covariance t" "frame_id (push_trajectory t) = frame_id t"
  "start_frame (push_trajectory t) = start_frame t" "tlwh (push_trajectory t) = tlwh t"
  by (simp_all add: push_trajectory_def Let_def)

lemma new_strack_fields [simp]:
  "state (new_strack b s nm l) = New" "is_activated (new_strack b s nm l) = False"
  "track_id (new_strack b s nm l) = 0" "trajectory (new_strack b s nm l) = []"
  by (simp_all add: new_strack_def)

lemma st_update_fields [simp]:
  "state (st_update solve d f t) = Tracked" "is_activated (st_update solve d f t)"
  "track_id (st_update solve d f t) = track_id t" "frame_id (st_update solve d f t) = f"
  "start_frame (st_update solve d f t) = start_frame t"
  by (simp_all add: st_update_def Let_def split: prod.split)

lemma re_activate_fields [simp]:
  "state (fst (re_activate solve d f False c t)) = Tracked"
  "is_activated (fst (re_activate solve d f False c t))"
  "track_id (fst (re_activate solve d f False c t)) = track_id t"
  "frame_id (fst (re_activate solve d f False c t)) = f"
  "snd (re_activate solve d f False c t) = c"
  by (simp_all add: re_activate_def Let_def split: prod.split)

lemma activate_fields [simp]:
  "state (fst (activate f c t)) = Tracked" "track_id (fst (activate f c t)) = c + 1"
  "is_activated (fst (activate f c t)) \<longleftrightarrow> is_activated t \<or> f = 1"
  "frame_id (fst (activate f c t)) = f" "start_frame (fst (activate f c t)) = f"
  "snd (activate f c t) = c + 1"
  by (simp_all add: activate_def Let_def next_id_def split: prod.split)

lemma mark_fields [simp]:
  "state (mark_lost t) = Lost" "track_id (mark_lost t) = track_id t"
  "state (mark_removed t) = Removed" "track_id (mark_removed t) = track_id t"
  "is_activated (mark_lost t) = is_activated t" "is_activated (mark_removed t) = is_activated t"
  by (simp_all add: mark_lost_def mark_removed_def)

lemma predict_one_fields [simp]:
  "state (predict_one t) = state t" "track_id (predict_one t) = track_id t"
  "is_activated (predict_one t) = is_activated t" "trajectory (predict_one t) = trajectory t"
  "frame_id (predict_one t) = frame_id t"
  by (simp_all add: predict_one_def Let_def split: prod.split)

section \<open>The life of a track\<close>

interpretation st_hist: bounded_history trajectory push_trajectory center 50
  by unfold_locales (simp add: push_trajectory_def Let_def)

text \<open>
  Everything the tracker does to a track after it was born by \<open>activate\<close>: a prediction, a
  matched detection, finding it again, losing it and giving it up.  The detection it was born
  from has a height: of a flat box the filter's aspect ratio is a division by zero.
\<close>

inductive track_step :: "(mat \<Rightarrow> mat \<Rightarrow> mat) \<Rightarrow> strack \<Rightarrow> strack \<Rightarrow> bool" for solve where
  predicted: "track_step solve t (predict_one t)"
| updated: "track_step solve t (st_update solve det fid t)"
| found: "track_step solve t (fst (re_activate solve det fid False cnt t))"
| lost: "track_step solve t (mark_lost t)"
| removed: "track_step solve t (mark_removed t)"

inductive track_life :: "(mat \<Rightarrow> mat \<Rightarrow> mat) \<Rightarrow> int \<Rightarrow> strack \<Rightarrow> bool" for solve ident where
  born: "ident = cnt + 1 \<Longrightarrow> box ! 3 \<noteq> 0 \<Longrightarrow> track_life solve ident (fst (activate fid cnt (new_strack box sc nm lb)))"
| lived: "track_life solve ident t \<Longrightarrow> track_step solve t t' \<Longrightarrow> track_life solve ident t'"

definition box_consistent :: "strack \<Rightarrow> bool" where
  "box_consistent t \<longleftrightarrow> tlwh t = xyah_to_tlwh (mean t) \<and>
     tlbr t = [tlwh t ! 0, tlwh t ! 1, tlwh t ! 2 + tlwh t ! 0, tlwh t ! 3 + tlwh t ! 1]"

lemma static_boxes:
  assumes "state t \<noteq> New"
  shows "box_consistent (static_tlbr (static_tlwh t))"
proof -
  have "\<exists>a b c d. tlwh (static_tlwh t) = [a, b, c, d]"
    using assms by (simp add: static_tlwh_mean xyah_to_tlwh_def)
  then show ?thesis
    using assms by (auto simp: box_consistent_def static_tlbr_def static_tlwh_mean Let_def xyah_to_tlwh_def)
qed

definition life_ok :: "strack \<Rightarrow> bool" where
  "life_ok t \<longleftrightarrow> state t \<noteq> New \<and> box_consistent t \<and> 1 \<le> length (trajectory t) \<and> length (trajectory t) \<le> 50"

lemma push_nonempty: "1 \<le> length (trajectory (push_trajectory t))"
  by (simp add: push_trajectory_def Let_def)

lemma box_consistent_push [simp]: "box_consistent (push_trajectory t) = box_consistent t"
  by (simp add: box_consistent_def push_trajectory_def Let_def)

lemma refreshed_life_ok:
  assumes "state t \<noteq> New" "length (trajectory t) \<le> 50"
  shows "life_ok (push_trajectory (static_tlbr (static_tlwh t)))"
  using static_boxes [OF assms(1)] assms st_hist.push_bound [of "static_tlbr (static_tlwh t)"] push_nonempty
  by (simp add: life_ok_def)

lemma life_ok_simps [simp]:
  "life_ok (t\<lparr>is_activated := a\<rparr>) = life_ok t" "life_ok (t\<lparr>score := s\<rparr>) = life_ok t"
  "life_ok (t\<lparr>name := n\<rparr>) = life_ok t" "life_ok (t\<lparr>label := l\<rparr>) = life_ok t"
  "life_ok (t\<lparr>frame_id := f\<rparr>) = life_ok t" "life_ok (t\<lparr>tracklet_len := k\<rparr>) = life_ok t"
  "life_ok t \<Longrightarrow> st \<noteq> New \<Longrightarrow> life_ok (t\<lparr>state := st\<rparr>)"
  by (simp_all add: life_ok_def box_consistent_def)

lemma track_step_ok:
  assumes "track_step solve t t'" "life_ok t"
  shows "life_ok t' \<and> track_id t' = track_id t"
  using assms(1)
proof (cases rule: track_step.cases)
  case predicted
  have "life_ok (predict_one t)"
    using assms(2) static_boxes by (simp add: predict_one_def Let_def life_ok_def split: prod.split)
  then show ?thesis using predicted by simp
next
  case (updated det fid)
  let ?u = "t\<lparr>frame_id := fid, tracklet_len := tracklet_len t + 1\<rparr>"
  let ?k = "kf_update solve (mean ?u, covariance ?u) (tlwh_to_xyah (tlwh det))"
  have "life_ok (push_trajectory (static_tlbr (static_tlwh (?u\<lparr>mean := fst ?k, covariance := snd ?k\<rparr>))))"
    by (rule refreshed_life_ok) (use assms(2) in \<open>simp_all add: life_ok_def\<close>)
  then show ?thesis unfolding updated
    by (auto simp: st_update_def Let_def split: prod.splits)
next
  case (found det fid cnt)
  let ?k = "kf_update solve (mean t, covariance t) (tlwh_to_xyah (tlwh det))"
  have "life_ok (push_trajectory (static_tlbr (static_tlwh (t\<lparr>mean := fst ?k, covariance := snd ?k\<rparr>))))"
    by (rule refreshed_life_ok) (use assms(2) in \<open>simp_all add: life_ok_def\<close>)
  then show ?thesis unfolding found
    by (auto simp: re_activate_def Let_def split: prod.splits)
next
  case lost
  show ?thesis unfolding lost
    using assms(2) by (simp add: mark_lost_def)
next
  case removed
  show ?thesis unfolding removed
    using assms(2) by (simp add: mark_removed_def)
qed

lemma activate_boxes:
  assumes "box ! 3 \<noteq> 0"
  shows "tlwh (fst (activate fid cnt (new_strack box sc nm lb))) = [box ! 0, box ! 1, box ! 2, box ! 3]"
    and "life_ok (fst (activate fid cnt (new_strack box sc nm lb)))"
proof -
  define n where "n = (new_strack box sc nm lb)\<lparr>track_id := cnt + 1\<rparr>"
  define k where "k = kf_initiate (tlwh_to_xyah [box ! 0, box ! 1, box ! 2, box ! 3])"
  define t where "t = static_tlbr (static_tlwh (n\<lparr>mean := fst k, covariance := snd k\<rparr>))"
  have n: "state n = New" "tlwh0 n = box" "trajectory n = []"
    by (simp_all add: n_def) (simp add: new_strack_def static_tlbr_def static_tlwh_def Let_def)
  have t: "tlwh t = [box ! 0, box ! 1, box ! 2, box ! 3]" "mean t = fst k"
      "tlbr t = [tlwh t ! 0, tlwh t ! 1, tlwh t ! 2 + tlwh t ! 0, tlwh t ! 3 + tlwh t ! 1]"
    by (simp_all add: t_def static_tlbr_def static_tlwh_def n Let_def)
  have "xyah_to_tlwh (fst k) = [box ! 0, box ! 1, box ! 2, box ! 3]"
    using assms by (simp add: k_def kf_initiate_def tlwh_to_xyah_def xyah_to_tlwh_def Let_def)
  then have bc: "box_consistent t" using t by (simp add: box_consistent_def)
  have a: "fst (activate fid cnt (new_strack box sc nm lb)) =
      (if fid = 1 then t\<lparr>trajectory := [center t], tracklet_len := 0, state := Tracked, is_activated := True,
          frame_id := fid, start_frame := fid\<rparr>
       else t\<lparr>trajectory := [center t], tracklet_len := 0, state := Tracked, frame_id := fid, start_frame := fid\<rparr>)"
    using n(2) by (simp add: activate_def next_id_def t_def k_def n_def [symmetric] Let_def split: prod.split)
       (simp add: n_def Let_def)
  show "tlwh (fst (activate fid cnt (new_strack box sc nm lb))) = [box ! 0, box ! 1, box ! 2, box ! 3]"
    by (simp add: a t)
  show "life_ok (fst (activate fid cnt (new_strack box sc nm lb)))"
    using bc by (simp add: a life_ok_def box_consistent_def)
qed

section \<open>Properties\<close>

text \<open>
  C26.  Whatever happens to a track after its birth, it keeps the id it was given, it never goes
  back to New, the box it reports is the one its filter's mean says (in both forms), and its
  trajectory holds at least one and at most 50 points.
\<close>

theorem track_life_invariant:
  assumes "track_life solve ident t"
  shows "track_id t = ident \<and> state t \<noteq> New \<and> box_consistent t \<and>
     1 \<le> length (trajectory t) \<and> length (trajectory t) \<le> 50"
proof -
  from assms have "track_id t = ident \<and> life_ok t"
  proof (induction rule: track_life.induct)
    case (born cnt fid box sc nm lb)
    then show ?case using activate_boxes(2) by simp
  next
    case (lived t t')
    then show ?case using track_step_ok by metis
  qed
  then show ?thesis by (simp add: life_ok_def)
qed

theorem track_life_invariant_witness:
  "box_consistent (mark_lost (predict_one (fst (activate 1 6 (new_strack [0, 0, 4, 8] (9/10) ''p'' 0)))))"
proof -
  let ?t = "fst (activate 1 6 (new_strack [0, 0, 4, 8] (9/10) ''p'' 0))"
  have "track_life diag_solve 7 ?t" by (rule track_life.born) simp_all
  from track_life.lived [OF track_life.lived [OF this track_step.predicted] track_step.lost]
  have "track_life diag_solve 7 (mark_lost (predict_one ?t))" .
  from track_life_invariant [OF this] show ?thesis by blast
qed

text \<open>
  The measurement form of a box and its corner form are inverse to each other: the box a
  fresh track reports is the one that was detected, as long as its height is not zero.
\<close>

lemma activate_keeps_box:
  assumes "length box = 4" "box ! 3 \<noteq> 0"
  shows "tlwh (fst (activate fid cnt (new_strack box sc nm lb))) = box"
  using activate_boxes(1) [OF assms(2)] assms(1) by (auto simp: length_4)

end
