(* ===== verification/ByteAssign.thy ===== *)
theory ByteAssign imports LapjvOpt STrack begin

text \<open>
  Model of the association step of \<open>src/src/bytetrack/BYTETracker.cpp\<close>: \<open>ious\<close>,
  \<open>iou_distance\<close>, the wrapper \<open>lapjv\<close> around the solver, and \<open>linear_assignment\<close>.

  The interface to the solver is the locale \<open>assignment_solver\<close>: it returns an optimal
  assignment of a square cost matrix whose entries are bounded.  Its lemmas analyse the extended
  matrix the wrapper builds and show that the pairs it reports are an optimal gated matching.
  \<^const>\<open>lapjv_internal\<close> is the interpretation.
\<close>

section \<open>Overlap\<close>

text \<open>The entry \<open>ious[n][k]\<close>; the code counts pixels, hence the \<open>+ 1\<close>.\<close>

definition iou_entry :: "vec \<Rightarrow> vec \<Rightarrow> real" where
  "iou_entry a b =
     (let box_area = (b ! 2 - b ! 0 + 1) * (b ! 3 - b ! 1 + 1);
          iw = min (a ! 2) (b ! 2) - max (a ! 0) (b ! 0) + 1
      in if 0 < iw then
           let ih = min (a ! 3) (b ! 3) - max (a ! 1) (b ! 1) + 1
           in if 0 < ih then
                let ua = (a ! 2 - a ! 0 + 1) * (a ! 3 - a ! 1 + 1) + box_area - iw * ih
                in iw * ih / ua
              else 0
         else 0)"

definition ious :: "vec list \<Rightarrow> vec list \<Rightarrow> mat" where
  "ious atlbrs btlbrs =
     (if atlbrs = [] \<or> btlbrs = [] then []
      else map (\<lambda>a. map (iou_entry a) btlbrs) atlbrs)"

text \<open>
  \<open>iou_distance\<close> with sizes, on the boxes of the two lists of tracks; the second version, without
  sizes, is the one \<open>remove_duplicate_stracks\<close> calls.
\<close>

definition iou_distance :: "strack list \<Rightarrow> strack list \<Rightarrow> mat \<times> nat \<times> nat" where
  "iou_distance atracks btracks =
     (if atracks = [] \<or> btracks = [] then ([], length atracks, length btracks)
      else
        let i = ious (map tlbr atracks) (map tlbr btracks)
        in (map (map (\<lambda>x. 1 - x)) i, length atracks, length btracks))"

definition iou_distance2 :: "strack list \<Rightarrow> strack list \<Rightarrow> mat" where
  "iou_distance2 atracks btracks = map (map (\<lambda>x. 1 - x)) (ious (map tlbr atracks) (map tlbr btracks))"

section \<open>The wrapper around the solver\<close>

definition LONG_MAX :: real where "LONG_MAX = 9223372036854775807"

text \<open>The square matrix handed to the solver when the costs are extended.\<close>

definition extend_costs :: "mat \<Rightarrow> real \<Rightarrow> mat" where
  "extend_costs cost cost_limit =
     (let n_rows = length cost; n_cols = length (cost ! 0); n = n_rows + n_cols;
          cost_max = fold (\<lambda>i. fold (\<lambda>j m. if m < cost ! i ! j then cost ! i ! j else m) [0..<n_cols])
                       [0..<n_rows] (-1);
          fill = (if cost_limit < LONG_MAX then cost_limit / 2 else cost_max + 1)
      in mat_mk n n (\<lambda>i j. if i < n_rows \<and> j < n_cols then cost ! i ! j
                            else if n_rows \<le> i \<and> n_cols \<le> j then 0 else fill))"

text \<open>
  \<open>lapjv\<close>: the arrays \<open>rowsol\<close> and \<open>colsol\<close> and the cost.  \<^const>\<open>None\<close> stands for the two
  \<open>exit(1)\<close> calls and for a solver that does not return.  When the matrix is not extended the
  code leaves the resized, zero-filled \<open>rowsol\<close> and \<open>colsol\<close> as they are.
\<close>

definition bt_lapjv :: "mat \<Rightarrow> bool \<Rightarrow> real \<Rightarrow> bool \<Rightarrow> (int list \<times> int list \<times> real) option" where
  "bt_lapjv cost extend_cost cost_limit return_cost =
     (let n_rows = length cost; n_cols = length (cost ! 0) in
      if n_rows \<noteq> n_cols \<and> \<not> extend_cost then None
      else
        let ext = extend_cost \<or> cost_limit < LONG_MAX;
            n = (if ext then n_rows + n_cols else n_rows);
            cost_c = (if ext then extend_costs cost cost_limit else cost)
        in case lapjv_internal n cost_c of
             None \<Rightarrow> None
           | Some (ret, x_c, y_c) \<Rightarrow>
               if ret \<noteq> 0 then None
               else if n \<noteq> n_rows then
                 let x_c = map (\<lambda>x. if int n_cols \<le> x then -1 else x) x_c;
                     y_c = map (\<lambda>y. if int n_rows \<le> y then -1 else y) y_c;
                     rowsol = take n_rows x_c;
                     colsol = take n_cols y_c;
                     opt = (if return_cost
                            then fold (\<lambda>i opt. if 0 \<le> rowsol ! i
                                              then opt + cost_c ! i ! nat (rowsol ! i) else opt)
                                   [0..<n_rows] 0
                            else 0)
                 in Some (rowsol, colsol, opt)
               else
                 let rowsol = replicate n_rows 0; colsol = replicate n_cols 0;
                     opt = (if return_cost
                            then fold (\<lambda>i opt. opt + cost_c ! i ! nat (rowsol ! i)) [0..<n_rows] 0
                            else 0)
                 in Some (rowsol, colsol, opt))"

text \<open>\<open>linear_assignment\<close>: the matches and the unmatched rows and columns.\<close>

definition linear_assignment ::
  "mat \<Rightarrow> nat \<Rightarrow> nat \<Rightarrow> real \<Rightarrow> ((nat \<times> nat) list \<times> nat list \<times> nat list) option" where
  "linear_assignment cost_matrix size_a size_b thresh =
     (if cost_matrix = [] then Some ([], [0..<size_a], [0..<size_b])
      else
        map_option (\<lambda>(rowsol, colsol, _).
          (map (\<lambda>i. (i, nat (rowsol ! i))) (idx_where (\<lambda>r. 0 \<le> r) rowsol),
           idx_where (\<lambda>r. \<not> 0 \<le> r) rowsol,
           idx_where (\<lambda>c. c < 0) colsol))
        (bt_lapjv cost_matrix True thresh True))"

section \<open>The distances are between zero and one\<close>

text \<open>This holds for every pair of boxes, also for those the Kalman filter turned inside out.\<close>

lemma iou_entry_bounds: "0 \<le> iou_entry a b \<and> iou_entry a b \<le> 1"
proof -
  let ?iw = "min (a ! 2) (b ! 2) - max (a ! 0) (b ! 0) + 1"
  let ?ih = "min (a ! 3) (b ! 3) - max (a ! 1) (b ! 1) + 1"
  let ?A = "(a ! 2 - a ! 0 + 1) * (a ! 3 - a ! 1 + 1)"
  let ?B = "(b ! 2 - b ! 0 + 1) * (b ! 3 - b ! 1 + 1)"
  show ?thesis
  proof (cases "0 < ?iw \<and> 0 < ?ih")
    case True
    have "?iw * ?ih \<le> ?A" "?iw * ?ih \<le> ?B"
      using True by (auto intro!: mult_mono)
    moreover have "0 < ?iw * ?ih" using True by simp
    ultimately have "0 < ?A + ?B - ?iw * ?ih" "?iw * ?ih \<le> ?A + ?B - ?iw * ?ih" by linarith+
    then show ?thesis using True \<open>0 < ?iw * ?ih\<close> by (simp add: iou_entry_def Let_def)
  next
    case False
    then show ?thesis by (auto simp: iou_entry_def Let_def)
  qed
qed

text \<open>A box overlaps itself fully.\<close>

lemma iou_entry_refl:
  assumes "a ! 0 \<le> a ! 2" "a ! 1 \<le> a ! 3"
  shows "iou_entry a a = 1"
  using assms by (simp add: iou_entry_def Let_def)

lemma iou_entry_sym: "iou_entry a b = iou_entry b a"
  by (simp add: iou_entry_def Let_def min.commute max.commute algebra_simps)

lemma iou_distance_shape:
  assumes "iou_distance atracks btracks = (dists, na, nb)"
  shows "na = length atracks" "nb = length btracks"
    and "dists = [] \<longleftrightarrow> atracks = [] \<or> btracks = []"
    and "dists \<noteq> [] \<Longrightarrow> length dists = na \<and> length (dists ! 0) = nb \<and> 0 < nb \<and>
      (\<forall>i<na. \<forall>j<nb. dists ! i ! j = 1 - iou_entry (tlbr (atracks ! i)) (tlbr (btracks ! j)))"
  using assms by (auto simp: iou_distance_def ious_def split: if_splits)

section \<open>Gated matchings\<close>

text \<open>
  A gated matching pairs some rows below \<open>r\<close> with distinct columns below \<open>c\<close>; its gain is the
  sum of \<open>cost - limit\<close> over its pairs.
\<close>

definition gated :: "nat \<Rightarrow> nat \<Rightarrow> (nat \<Rightarrow> nat option) \<Rightarrow> bool" where
  "gated r c m \<longleftrightarrow> (\<forall>i<r. \<forall>j. m i = Some j \<longrightarrow> j < c) \<and>
     (\<forall>i<r. \<forall>k<r. \<forall>j. m i = Some j \<longrightarrow> m k = Some j \<longrightarrow> i = k)"

definition gain :: "mat \<Rightarrow> real \<Rightarrow> nat \<Rightarrow> (nat \<Rightarrow> nat option) \<Rightarrow> real" where
  "gain cost th r m = (\<Sum>i<r. case m i of None \<Rightarrow> 0 | Some j \<Rightarrow> cost ! i ! j - th)"

text \<open>Every gated matching is the restriction of a permutation of the extended matrix.\<close>

lemma gated_extend:
  assumes m: "gated r c m"
  shows "\<exists>q. bij_betw q {..<r + c} {..<r + c} \<and> (\<forall>i<r. case m i of None \<Rightarrow> c \<le> q i | Some j \<Rightarrow> q i = j)"
proof -
  define row where "row j = (if \<exists>i<r. m i = Some j then Some (SOME i. i < r \<and> m i = Some j) else None)" for j
  have row_Some: "i < r \<and> m i = Some j" if "row j = Some i" for i j
    using that someI_ex [of "\<lambda>i. i < r \<and> m i = Some j"] by (auto simp: row_def split: if_splits)
  have row_eq: "row j = Some i" if "i < r" "m i = Some j" for i j
  proof -
    have "row j \<noteq> None" using that by (auto simp: row_def)
    then obtain k where "row j = Some k" by blast
    then show ?thesis using row_Some [of j k] that m unfolding gated_def by metis
  qed
  have mc: "j < c" if "i < r" "m i = Some j" for i j using m that by (auto simp: gated_def)
  define q where "q i = (if i < r then (case m i of Some j \<Rightarrow> j | None \<Rightarrow> c + i)
      else (case row (i - r) of Some k \<Rightarrow> c + k | None \<Rightarrow> i - r))" for i
  define p where "p j = (if j < c then (case row j of Some i \<Rightarrow> i | None \<Rightarrow> r + j)
      else (case m (j - c) of None \<Rightarrow> j - c | Some k \<Rightarrow> r + k))" for j
  have pq: "p (q i) = i \<and> q i < r + c" if i: "i < r + c" for i
  proof (cases "i < r")
    case True
    then show ?thesis
      using mc [OF True] row_eq [OF True] by (cases "m i") (auto simp: p_def q_def)
  next
    case False
    then have "i - r < c" using i by simp
    then show ?thesis
      using False row_Some [of "i - r"] by (cases "row (i - r)") (auto simp: p_def q_def)
  qed
  have qp: "q (p j) = j \<and> p j < r + c" if j: "j < r + c" for j
  proof (cases "j < c")
    case True
    then show ?thesis
      using row_Some [of j] by (cases "row j") (auto simp: p_def q_def)
  next
    case False
    then have jr: "j - c < r" using j by simp
    show ?thesis
      using False jr mc [OF jr] row_eq [OF jr] by (cases "m (j - c)") (auto simp: p_def q_def)
  qed
  have "bij_betw q {..<r + c} {..<r + c}"
    by (rule bij_betw_byWitness [where f' = p]) (use pq qp in auto)
  moreover have "case m i of None \<Rightarrow> c \<le> q i | Some j \<Rightarrow> q i = j" if "i < r" for i
    using that by (auto simp: q_def split: option.splits)
  ultimately show ?thesis by blast
qed

text \<open>The cost of a permutation of the extended matrix is its gain plus a constant.\<close>

definition ext_entry :: "mat \<Rightarrow> nat \<Rightarrow> nat \<Rightarrow> real \<Rightarrow> nat \<Rightarrow> nat \<Rightarrow> real" where
  "ext_entry cost r c th i j =
     (if i < r \<and> j < c then cost ! i ! j else if r \<le> i \<and> c \<le> j then 0 else th / 2)"

lemma ext_total:
  assumes q: "bij_betw q {..<r + c} {..<r + c}"
  shows "(\<Sum>i<r + c. ext_entry cost r c th i (q i)) =
     gain cost th r (\<lambda>i. if q i < c then Some (q i) else None) + th / 2 * real (r + c)"
proof -
  let ?n = "r + c"
  have low: "(\<Sum>i<?n. if q i < c then (1::real) else 0) = real c"
  proof -
    have "(\<Sum>i<?n. if q i < c then (1::real) else 0) = (\<Sum>j<?n. if j < c then 1 else 0)"
      by (rule sum.reindex_bij_betw [OF q, of "\<lambda>j. if j < c then (1::real) else 0"])
    also have "\<dots> = (\<Sum>j<c. 1)" by (rule sum_first) simp
    finally show ?thesis by simp
  qed
  have split: "(\<Sum>i<?n. f i) = (\<Sum>i<r. f i) + (\<Sum>i\<in>{r..<?n}. f i)" for f :: "nat \<Rightarrow> real"
    by (simp add: sum.atLeastLessThan_concat [of 0 r ?n f, symmetric] lessThan_atLeast0)
  have "(\<Sum>i<?n. ext_entry cost r c th i (q i)) =
      (\<Sum>i<r. if q i < c then cost ! i ! q i else th / 2) + (\<Sum>i\<in>{r..<?n}. if q i < c then th / 2 else 0)"
    unfolding split by (intro arg_cong2 [where f = "(+)"] sum.cong refl) (auto simp: ext_entry_def)
  also have "(\<Sum>i\<in>{r..<?n}. if q i < c then th / 2 else 0) =
      th / 2 * (\<Sum>i\<in>{r..<?n}. if q i < c then 1 else 0)"
    by (simp add: sum_distrib_left if_distrib cong: if_cong)
  also have "(\<Sum>i\<in>{r..<?n}. if q i < c then (1::real) else 0) =
      real c - (\<Sum>i<r. if q i < c then 1 else 0)"
    using low split [of "\<lambda>i. if q i < c then 1 else 0"] by simp
  also have "(\<Sum>i<r. if q i < c then cost ! i ! q i else th / 2) +
      th / 2 * (real c - (\<Sum>i<r. if q i < c then 1 else 0)) =
      (\<Sum>i<r. (if q i < c then cost ! i ! q i else th / 2) - th / 2 * (if q i < c then 1 else 0)) + th / 2 * real c"
    by (simp add: sum_subtractf sum_distrib_left algebra_simps)
  also have "(\<Sum>i<r. (if q i < c then cost ! i ! q i else th / 2) - th / 2 * (if q i < c then 1 else 0)) =
      (\<Sum>i<r. (if q i < c then cost ! i ! q i - th else 0) + th / 2)"
    by (intro sum.cong refl) (simp add: field_simps)
  also have "\<dots> = (\<Sum>i<r. if q i < c then cost ! i ! q i - th else 0) + th / 2 * real r"
    unfolding sum.distrib by simp
  also have "(\<Sum>i<r. if q i < c then cost ! i ! q i - th else 0) =
      gain cost th r (\<lambda>i. if q i < c then Some (q i) else None)"
    unfolding gain_def by (intro sum.cong refl) simp
  finally show ?thesis by (simp add: algebra_simps)
qed

section \<open>The solver's interface\<close>

locale assignment_solver =
  fixes solve :: "nat \<Rightarrow> mat \<Rightarrow> (int \<times> int list \<times> int list) option"
    and limit :: real
  assumes optimal: "0 < n \<Longrightarrow> cost_within n C cost \<Longrightarrow> C < limit \<Longrightarrow>
    \<exists>x y. solve n cost = Some (0, x, y) \<and> inverse_assignment n x y \<and>
      (\<forall>q. bij_betw q {..<n} {..<n} \<longrightarrow> total_cost n cost x \<le> (\<Sum>i<n. cost ! i ! q i))"
begin

text \<open>The pairs of real rows and columns in the solution of the extended matrix.\<close>

lemma gated_solution:
  assumes "0 < r + c" and C: "C < limit" "0 \<le> th" "th / 2 \<le> C"
    and cost: "\<And>i j. i < r \<Longrightarrow> j < c \<Longrightarrow> 0 \<le> cost ! i ! j \<and> cost ! i ! j \<le> C"
    and ext: "ext = mat_mk (r + c) (r + c) (ext_entry cost r c th)"
  obtains x y where "solve (r + c) ext = Some (0, x, y)" "inverse_assignment (r + c) x y"
    "\<And>m. gated r c m \<Longrightarrow>
       gain cost th r (\<lambda>i. if x ! i < int c then Some (nat (x ! i)) else None) \<le> gain cost th r m"
    "\<And>i. i < r \<Longrightarrow> x ! i < int c \<Longrightarrow> cost ! i ! nat (x ! i) \<le> th"
proof -
  let ?n = "r + c"
  have "cost_within ?n C ext"
    using C cost by (auto simp: cost_within_def ext ext_entry_def)
  then obtain x y where sol: "solve ?n ext = Some (0, x, y)" and ia: "inverse_assignment ?n x y"
    and opt: "\<And>q. bij_betw q {..<?n} {..<?n} \<Longrightarrow> total_cost ?n ext x \<le> (\<Sum>i<?n. ext ! i ! q i)"
    using optimal [OF \<open>0 < r + c\<close> _ C(1)] by blast
  let ?x = "\<lambda>i. nat (x ! i)"
  let ?m = "\<lambda>i. if x ! i < int c then Some (nat (x ! i)) else None"
  have bx: "bij_betw ?x {..<?n} {..<?n}" by (rule inverse_assignment_bij [OF ia])
  have pos: "0 \<le> x ! i" if "i < ?n" for i using ia that by (simp add: inverse_assignment_def)
  have ext_sum: "(\<Sum>i<?n. ext ! i ! q i) = (\<Sum>i<?n. ext_entry cost r c th i (q i))"
    if "bij_betw q {..<?n} {..<?n}" for q
    using bij_betwE [OF that] by (intro sum.cong refl) (auto simp: ext)
  have best: "gain cost th r ?m \<le> gain cost th r m" if m: "gated r c m" for m
  proof -
    obtain q where q: "bij_betw q {..<?n} {..<?n}"
      and qm: "\<And>i. i < r \<Longrightarrow> (case m i of None \<Rightarrow> c \<le> q i | Some j \<Rightarrow> q i = j)"
      using gated_extend [OF m] by blast
    have gm: "gain cost th r (\<lambda>i. if q i < c then Some (q i) else None) = gain cost th r m"
      unfolding gain_def
      using qm m by (intro sum.cong refl) (fastforce simp: gated_def split: option.splits)
    have gx: "gain cost th r (\<lambda>i. if ?x i < c then Some (?x i) else None) = gain cost th r ?m"
      unfolding gain_def using pos by (intro sum.cong refl) (simp add: nat_less_iff)
    have "total_cost ?n ext x \<le> (\<Sum>i<?n. ext ! i ! q i)" by (rule opt [OF q])
    then show ?thesis
      using ext_sum [OF bx] ext_sum [OF q] ext_total [OF bx, of cost th] ext_total [OF q, of cost th] gm gx
      by (simp add: total_cost_def)
  qed
  have inj: "i = k" if "i < r" "k < r" "?m i = Some j" "?m k = Some j" for i j k
  proof -
    have "?x i = ?x k" using that by (auto split: if_splits)
    then show ?thesis using bx that by (auto simp: bij_betw_def inj_on_def)
  qed
  have gm: "gated r c ?m"
    unfolding gated_def using inj pos by (auto split: if_splits simp: nat_less_iff)
  have "cost ! i ! nat (x ! i) \<le> th" if i: "i < r" "x ! i < int c" for i
  proof -
    have "gated r c (?m(i := None))" using gm by (auto simp: gated_def)
    from best [OF this] have "gain cost th r ?m \<le> gain cost th r (?m(i := None))" .
    moreover have "gain cost th r ?m = (cost ! i ! nat (x ! i) - th) + gain cost th r (?m(i := None))"
    proof -
      have fin: "finite {..<r}" and mem: "i \<in> {..<r}" using i by auto
      have "(\<Sum>k\<in>{..<r} - {i}. case ?m k of None \<Rightarrow> 0 | Some j \<Rightarrow> cost ! k ! j - th) =
          (\<Sum>k\<in>{..<r} - {i}. case (?m(i := None)) k of None \<Rightarrow> 0 | Some j \<Rightarrow> cost ! k ! j - th)"
        by (intro sum.cong refl) simp
      then show ?thesis
        unfolding gain_def sum.remove [OF fin mem] using i by simp
    qed
    ultimately show ?thesis by simp
  qed
  with sol ia best show ?thesis using that by blast
qed

end

interpretation lap: assignment_solver lapjv_internal "LARGE / 2"
  by unfold_locales (rule lapjv_correct, auto)

section \<open>\<open>linear_assignment\<close>\<close>

text \<open>A result that pairs or leaves over every row and every column exactly once.\<close>

definition matching_of :: "(nat \<times> nat) list \<Rightarrow> nat \<Rightarrow> nat option" where
  "matching_of matches = map_of matches"

lemma extend_costs_eq:
  assumes "th < LONG_MAX"
  shows "extend_costs cost th =
    mat_mk (length cost + length (cost ! 0)) (length cost + length (cost ! 0))
      (ext_entry cost (length cost) (length (cost ! 0)) th)"
  unfolding extend_costs_def Let_def
  by (rule mat_mk_cong) (use assms in \<open>simp add: ext_entry_def\<close>)

lemma map_of_idx:
  "map_of (map (\<lambda>i. (i, f i)) (idx_where P xs)) i = (if i < length xs \<and> P (xs ! i) then Some (f i) else None)"
proof -
  have "map_of (map (\<lambda>i. (i, f i)) ks) i = (if i \<in> set ks then Some (f i) else None)" for ks
    by (induction ks) auto
  then show ?thesis by simp
qed

lemma linear_assignment_ok:
  assumes shape: "length cost = r" "length (cost ! 0) = c" "0 < r" "0 < c"
    and entries: "\<And>i j. i < r \<Longrightarrow> j < c \<Longrightarrow> 0 \<le> cost ! i ! j \<and> cost ! i ! j \<le> 1"
    and th: "0 \<le> th" "th < LARGE"
  shows "\<exists>matches ua ub. linear_assignment cost r c th = Some (matches, ua, ub) \<and>
     assoc_ok {..<r} {..<c} (matches, ua, ub) \<and>
     (\<forall>(i, j)\<in>set matches. cost ! i ! j \<le> th) \<and>
     (\<forall>m. gated r c m \<longrightarrow> gain cost th r (matching_of matches) \<le> gain cost th r m)"
proof -
  let ?n = "r + c" and ?C = "max 1 (th / 2)"
  let ?ext = "mat_mk ?n ?n (ext_entry cost r c th)"
  have C: "?C < LARGE / 2" "th / 2 \<le> ?C" "th < LONG_MAX" using th by (auto simp: LARGE_def LONG_MAX_def)
  have ec: "0 \<le> cost ! i ! j \<and> cost ! i ! j \<le> ?C" if "i < r" "j < c" for i j
    using entries [OF that] by auto
  obtain x y where sol: "lapjv_internal ?n ?ext = Some (0, x, y)" and ia: "inverse_assignment ?n x y"
    and best: "\<And>m. gated r c m \<Longrightarrow>
       gain cost th r (\<lambda>i. if x ! i < int c then Some (nat (x ! i)) else None) \<le> gain cost th r m"
    and le: "\<And>i. i < r \<Longrightarrow> x ! i < int c \<Longrightarrow> cost ! i ! nat (x ! i) \<le> th"
    using lap.gated_solution [OF _ C(1) th(1) C(2) ec refl] shape by blast
  define rowsol where "rowsol = take r (map (\<lambda>x. if int c \<le> x then -1 else x) x)"
  define colsol where "colsol = take c (map (\<lambda>y. if int r \<le> y then -1 else y) y)"
  have lx: "length x = ?n" "length y = ?n" using ia by (auto simp: inverse_assignment_def)
  have rs: "length rowsol = r" "\<And>i. i < r \<Longrightarrow> rowsol ! i = (if int c \<le> x ! i then -1 else x ! i)"
    and cs: "length colsol = c" "\<And>j. j < c \<Longrightarrow> colsol ! j = (if int r \<le> y ! j then -1 else y ! j)"
    using lx by (auto simp: rowsol_def colsol_def)
  have xp: "0 \<le> x ! i" "y ! nat (x ! i) = int i" if "i < ?n" for i
    using ia that by (auto simp: inverse_assignment_def)
  have yp: "0 \<le> y ! j" "x ! nat (y ! j) = int j" "y ! j < int ?n" if "j < ?n" for j
    using ia that by (auto simp: inverse_assignment_def)
  have rp: "0 \<le> rowsol ! i \<longleftrightarrow> x ! i < int c" if "i < r" for i
    using rs(2) [OF that] xp(1) [of i] that by auto
  have cp: "colsol ! j < 0 \<longleftrightarrow> \<not> y ! j < int r" if "j < c" for j
    using cs(2) [OF that] yp(1) [of j] that by auto
  define ms where "ms = map (\<lambda>i. (i, nat (rowsol ! i))) (idx_where (\<lambda>r. 0 \<le> r) rowsol)"
  let ?ua = "idx_where (\<lambda>r. \<not> 0 \<le> r) rowsol" and ?ub = "idx_where (\<lambda>c. c < 0) colsol"
  obtain opt where bt: "bt_lapjv cost True th True = Some (rowsol, colsol, opt)"
    using sol shape by (simp add: bt_lapjv_def extend_costs_eq [OF C(3)] rowsol_def colsol_def Let_def)
  have la: "linear_assignment cost r c th = Some (ms, ?ua, ?ub)"
    using shape by (auto simp: linear_assignment_def bt ms_def)
  have set_ms: "set ms = {(i, nat (x ! i)) |i. i < r \<and> x ! i < int c}"
    using rs xp(1) by (fastforce simp: image_iff ms_def)
  have fst_ms: "map fst ms = idx_where (\<lambda>r. 0 \<le> r) rowsol" by (simp add: comp_def ms_def)
  have snd_ms: "map snd ms = map (\<lambda>i. nat (rowsol ! i)) (idx_where (\<lambda>r. 0 \<le> r) rowsol)" by (simp add: comp_def ms_def)
  have inj: "inj_on (\<lambda>i. nat (rowsol ! i)) (set (idx_where (\<lambda>r. 0 \<le> r) rowsol))"
  proof (rule inj_onI)
    fix i k assume i: "i \<in> set (idx_where (\<lambda>r. 0 \<le> r) rowsol)" and k: "k \<in> set (idx_where (\<lambda>r. 0 \<le> r) rowsol)"
      and eq: "nat (rowsol ! i) = nat (rowsol ! k)"
    have "rowsol ! i = x ! i" "rowsol ! k = x ! k" "i < ?n" "k < ?n" using i k rs rp by auto
    then have "int i = y ! nat (rowsol ! i)" "int k = y ! nat (rowsol ! k)" using xp(2) by simp_all
    with eq have "int i = int k" by metis
    then show "i = k" by simp
  qed
  have cols: "j \<in> set (map snd ms) \<longleftrightarrow> y ! j < int r" if j: "j < c" for j
  proof
    assume "j \<in> set (map snd ms)"
    then obtain i where i: "i < r" "x ! i < int c" "j = nat (x ! i)" using set_ms by auto
    then show "y ! j < int r" using xp(2) [of i] by simp
  next
    assume yj: "y ! j < int r"
    let ?i = "nat (y ! j)"
    have "?i < r" "x ! ?i = int j" using yj yp [of j] j by auto
    then obtain i where i: "i < r" "x ! i = int j" by blast
    then have "i < r \<and> x ! i < int c" using j by simp
    then have "(i, nat (x ! i)) \<in> set ms" unfolding set_ms by blast
    then have "(i, j) \<in> set ms" using i(2) by simp
    then show "j \<in> set (map snd ms)" by (metis image_eqI set_map snd_conv)
  qed
  have sub: "set (map snd ms) \<subseteq> {..<c}"
  proof
    fix j assume "j \<in> set (map snd ms)"
    then obtain i where "i < r" "x ! i < int c" "j = nat (x ! i)" using set_ms by auto
    then show "j \<in> {..<c}" using xp(1) [of i] by (simp add: nat_less_iff)
  qed
  have "assoc_ok {..<r} {..<c} (ms, ?ua, ?ub)"
    unfolding assoc_ok_def prod.case
  proof (intro conjI)
    show "distinct (map fst ms @ ?ua)" unfolding fst_ms by auto
    show "set (map fst ms @ ?ua) = {..<r}" unfolding fst_ms using rs(1) by auto
    have "distinct (map snd ms)" unfolding snd_ms distinct_map using inj by simp
    then show "distinct (map snd ms @ ?ub)" using cols cp cs(1) by auto
    show "set (map snd ms @ ?ub) = {..<c}"
      using cols cp cs(1) sub by auto
  qed
  moreover have "\<forall>(i, j)\<in>set ms. cost ! i ! j \<le> th" unfolding set_ms using le by auto
  moreover have "gain cost th r (matching_of ms) \<le> gain cost th r m" if "gated r c m" for m
  proof -
    have "gain cost th r (matching_of ms) =
        gain cost th r (\<lambda>i. if x ! i < int c then Some (nat (x ! i)) else None)"
      unfolding gain_def
    proof (intro sum.cong refl)
      fix i assume "i \<in> {..<r}"
      then have i: "i < r" by simp
      have "matching_of ms i = (if x ! i < int c then Some (nat (x ! i)) else None)"
        unfolding matching_of_def ms_def map_of_idx using i rs rp [OF i] by auto
      then show "(case matching_of ms i of None \<Rightarrow> 0 | Some j \<Rightarrow> cost ! i ! j - th) =
          (case if x ! i < int c then Some (nat (x ! i)) else None of None \<Rightarrow> 0 | Some j \<Rightarrow> cost ! i ! j - th)"
        by simp
    qed
    with best [OF that] show ?thesis by simp
  qed
  ultimately show ?thesis using la by blast
qed

text \<open>Boxes against boxes: the matrix of \<open>iou_distance\<close> always meets the solver's bounds.\<close>

lemma associate_ok:
  assumes d: "iou_distance atracks btracks = (dists, na, nb)" and th: "0 \<le> th" "th < LARGE"
  shows "\<exists>res. linear_assignment dists na nb th = Some res \<and>
     assoc_ok {..<length atracks} {..<length btracks} res \<and>
     (\<forall>(i, j)\<in>set (fst res). 1 - iou_entry (tlbr (atracks ! i)) (tlbr (btracks ! j)) \<le> th)"
proof (cases "dists = []")
  case True
  then show ?thesis
    using iou_distance_shape [OF d] by (auto simp: linear_assignment_def assoc_ok_def)
next
  case False
  note sh = iou_distance_shape(1,2) [OF d] iou_distance_shape(4) [OF d False]
  have "0 < na" using sh(3) False by auto
  then obtain matches ua ub where la: "linear_assignment dists na nb th = Some (matches, ua, ub)"
    and ok: "assoc_ok {..<na} {..<nb} (matches, ua, ub)" and le: "\<forall>(i, j)\<in>set matches. dists ! i ! j \<le> th"
    using linear_assignment_ok [of dists na nb th] sh(3) th iou_entry_bounds by auto
  have "i < na \<and> j < nb" if "(i, j) \<in> set matches" for i j
    using ok that by (force simp: assoc_ok_def)
  then show ?thesis using la ok le sh by fastforce
qed

section \<open>Properties\<close>

text \<open>
  The overlap of two boxes lies between 0 and 1 and does not depend on their order, for
  every pair of boxes, also for those a filter turned inside out.
\<close>

lemma iou_entry_range:
  "0 \<le> iou_entry a b \<and> iou_entry a b \<le> 1 \<and> iou_entry a b = iou_entry b a"
  using iou_entry_bounds [of a b] iou_entry_sym [of a b] by (intro conjI) auto

text \<open>
  C10.  The gated assignment of ByteTrack: the rows and columns split into matched pairs and two
  lists of unmatched ones, no matched pair costs more than the threshold, and among all matchings
  of rows with distinct columns it has the least sum of \<open>cost - threshold\<close>.
\<close>

theorem linear_assignment_optimal:
  assumes "length cost = r" "length (cost ! 0) = c" "0 < r" "0 < c"
    and "\<forall>i<r. \<forall>j<c. 0 \<le> cost ! i ! j \<and> cost ! i ! j \<le> 1"
    and "0 \<le> th" "th < LARGE"
  shows "\<exists>matches ua ub. linear_assignment cost r c th = Some (matches, ua, ub) \<and>
     assoc_ok {..<r} {..<c} (matches, ua, ub) \<and>
     (\<forall>(i, j)\<in>set matches. cost ! i ! j \<le> th) \<and>
     (\<forall>m. gated r c m \<longrightarrow> gain cost th r (matching_of matches) \<le> gain cost th r m)"
  by (rule linear_assignment_ok) (use assms in auto)

theorem linear_assignment_optimal_witness:
  "linear_assignment [[1/10, 1/5], [1/5, 9/10]] 2 2 (1/2) = Some ([(0, 1), (1, 0)], [], []) \<and>
   gain [[1/10, 1/5], [1/5, 9/10]] (1/2) 2 (matching_of [(0, 1), (1, 0)])
     \<le> gain [[1/10, 1/5], [1/5, 9/10]] (1/2) 2 Some"
proof -
  let ?M = "[[1/10, 1/5], [1/5, 9/10]] :: mat"
  have r: "linear_assignment ?M 2 2 (1/2) = Some ([(0, 1), (1, 0)], [], [])" by code_simp
  have "\<forall>i<2. \<forall>j<2. 0 \<le> ?M ! i ! j \<and> ?M ! i ! j \<le> 1"
    by (auto simp: less_Suc_eq numeral_eq_Suc)
  moreover have "gated 2 2 Some" by (simp add: gated_def)
  ultimately show ?thesis
    using linear_assignment_optimal [of ?M 2 2 "1/2"] by (simp add: r LARGE_def)
qed

end
