(* ===== verification/ByteTracker.thy ===== *)
theory ByteTracker imports ByteAssign begin

text \<open>
  Model of \<open>BYTETracker\<close> (\<open>src/src/bytetrack/BYTETracker.cpp\<close>): the lists of tracked, lost and
  removed tracks and the step \<open>update\<close> that one frame makes.

  The vectors of \<open>STrack*\<close> point into \<open>tracked_stracks\<close> and \<open>lost_stracks\<close>, which \<open>update\<close>
  changes through them while it also collects copies: a pointer is a reference \<open>sref\<close> into the
  two lists, kept in the working state \<open>bt_work\<close> and read and written through \<open>deref\<close> and
  \<open>modify_ref\<close>.  The method's local variables \<open>lost_stracks\<close> and \<open>removed_stracks\<close>, which shadow
  the members, are \<open>wk_newly_lost\<close> and \<open>wk_removed\<close>.
\<close>

section \<open>State\<close>

record object_det =
  ob_rect :: "real \<times> real \<times> real \<times> real"   \<comment> \<open>\<open>x, y, width, height\<close>\<close>
  ob_label :: int
  ob_prob :: real
  ob_name :: string

record byte_tracker =
  bt_track_thresh :: real
  bt_high_thresh :: real
  bt_match_thresh :: real
  bt_frame_id :: int
  bt_max_time_lost :: int
  bt_tracked :: "strack list"
  bt_lost :: "strack list"
  bt_removed :: "strack list"

definition new_byte_tracker :: "int \<Rightarrow> int \<Rightarrow> real \<Rightarrow> real \<Rightarrow> real \<Rightarrow> byte_tracker" where
  "new_byte_tracker frame_rate track_buffer track_thresh high_thresh match_thresh =
     \<lparr>bt_track_thresh = track_thresh, bt_high_thresh = high_thresh, bt_match_thresh = match_thresh,
      bt_frame_id = 0,
      bt_max_time_lost = c_trunc (real_of_int frame_rate / 30 * real_of_int track_buffer),
      bt_tracked = [], bt_lost = [], bt_removed = []\<rparr>"

datatype sref = InTracked nat | InLost nat

record bt_work =
  wk_tracked :: "strack list"
  wk_lost :: "strack list"
  wk_activated :: "strack list"
  wk_refind :: "strack list"
  wk_newly_lost :: "strack list"
  wk_removed :: "strack list"
  wk_count :: int

fun deref :: "bt_work \<Rightarrow> sref \<Rightarrow> strack" where
  "deref w (InTracked i) = wk_tracked w ! i"
| "deref w (InLost i) = wk_lost w ! i"

fun modify_ref :: "(strack \<Rightarrow> strack) \<Rightarrow> sref \<Rightarrow> bt_work \<Rightarrow> bt_work" where
  "modify_ref f (InTracked i) w = w\<lparr>wk_tracked := (wk_tracked w)[i := f (wk_tracked w ! i)]\<rparr>"
| "modify_ref f (InLost i) w = w\<lparr>wk_lost := (wk_lost w)[i := f (wk_lost w ! i)]\<rparr>"

section \<open>Lists of tracks\<close>

definition joint_refs :: "bt_work \<Rightarrow> sref list \<Rightarrow> sref list" where
  "joint_refs w tlista =
     (let (res, ex) = fold (\<lambda>r (res, ex). (res @ [r], insert (track_id (deref w r)) ex)) tlista ([], {});
          (res, ex) = fold (\<lambda>i (res, ex).
              let tid = track_id (wk_lost w ! i) in
              if tid \<notin> ex then (res @ [InLost i], insert tid ex) else (res, ex))
            [0..<length (wk_lost w)] (res, ex)
      in res)"

definition joint_stracks :: "strack list \<Rightarrow> strack list \<Rightarrow> strack list" where
  "joint_stracks tlista tlistb =
     (let (res, ex) = fold (\<lambda>t (res, ex). (res @ [t], insert (track_id t) ex)) tlista ([], {});
          (res, ex) = fold (\<lambda>t (res, ex).
              let tid = track_id t in
              if tid \<notin> ex then (res @ [t], insert tid ex) else (res, ex))
            tlistb (res, ex)
      in res)"

definition sub_stracks :: "strack list \<Rightarrow> strack list \<Rightarrow> strack list" where
  "sub_stracks tlista tlistb =
     (let remove_ids = set (map track_id tlistb)
      in filter (\<lambda>t. track_id t \<notin> remove_ids) tlista)"

definition remove_duplicate_stracks :: "strack list \<Rightarrow> strack list \<Rightarrow> strack list \<times> strack list" where
  "remove_duplicate_stracks stracksa stracksb =
     (let pdist = iou_distance2 stracksa stracksb;
          pairs = concat (map (\<lambda>i. map (\<lambda>j. (i, j))
                    (filter (\<lambda>j. pdist ! i ! j < 15/100) [0..<length (pdist ! i)]))
                    [0..<length pdist]);
          (dupa, dupb) = fold (\<lambda>(p, q) (dupa, dupb).
              let timep = frame_id (stracksa ! p) - start_frame (stracksa ! p);
                  timeq = frame_id (stracksb ! q) - start_frame (stracksb ! q)
              in if timeq < timep then (dupa, dupb @ [q]) else (dupa @ [p], dupb))
            pairs ([], [])
      in (map ((!) stracksa) (filter (\<lambda>i. i \<notin> set dupa) [0..<length stracksa]),
          map ((!) stracksb) (filter (\<lambda>i. i \<notin> set dupb) [0..<length stracksb])))"

section \<open>The stages of \<open>update\<close>\<close>

definition det_strack :: "object_det \<Rightarrow> strack" where
  "det_strack ob =
     (let (x, y, width, height) = ob_rect ob
      in new_strack (tlbr_to_tlwh [x, y, x + width, y + height]) (ob_prob ob) (ob_name ob) (ob_label ob))"

text \<open>The detections at or above the threshold and those below it.\<close>

definition split_detections :: "real \<Rightarrow> object_det list \<Rightarrow> strack list \<times> strack list" where
  "split_detections track_thresh objects =
     (map det_strack (filter (\<lambda>ob. track_thresh \<le> ob_prob ob) objects),
      map det_strack (filter (\<lambda>ob. \<not> track_thresh \<le> ob_prob ob) objects))"

text \<open>The unconfirmed tracks and the others.\<close>

definition split_tracked :: "strack list \<Rightarrow> sref list \<times> sref list" where
  "split_tracked tracked =
     (map InTracked (idx_where (\<lambda>t. \<not> is_activated t) tracked),
      map InTracked (idx_where is_activated tracked))"

definition multi_predict :: "sref list \<Rightarrow> bt_work \<Rightarrow> bt_work" where
  "multi_predict stracks w = fold (modify_ref predict_one) stracks w"

text \<open>One matched pair: a tracked track is updated, any other re-activated; a copy is kept.\<close>

definition match_step ::
  "(mat \<Rightarrow> mat \<Rightarrow> mat) \<Rightarrow> int \<Rightarrow> sref list \<Rightarrow> strack list \<Rightarrow> nat \<times> nat \<Rightarrow> bt_work \<Rightarrow> bt_work" where
  "match_step solve fid pool dets = (\<lambda>(i, j) w.
     let r = pool ! i; det = dets ! j in
     if state (deref w r) = Tracked then
       let w = modify_ref (st_update solve det fid) r w
       in w\<lparr>wk_activated := wk_activated w @ [deref w r]\<rparr>
     else
       let w = modify_ref (\<lambda>t. fst (re_activate solve det fid False (wk_count w) t)) r w
       in w\<lparr>wk_refind := wk_refind w @ [deref w r]\<rparr>)"

text \<open>Association of the pool with the strong detections; also the detections left over.\<close>

definition first_association ::
  "(mat \<Rightarrow> mat \<Rightarrow> mat) \<Rightarrow> int \<Rightarrow> real \<Rightarrow> sref list \<Rightarrow> strack list \<Rightarrow> bt_work
     \<Rightarrow> (bt_work \<times> strack list \<times> sref list) option" where
  "first_association solve fid match_thresh pool detections w =
     (let (dists, na, nb) = iou_distance (map (deref w) pool) detections in
      map_option (\<lambda>(matches, u_track, u_detection).
        let w = fold (match_step solve fid pool detections) matches w;
            detections_cp = map ((!) detections) u_detection;
            r_tracked = filter (\<lambda>r. state (deref w r) = Tracked) (map ((!) pool) u_track)
        in (w, detections_cp, r_tracked))
      (linear_assignment dists na nb match_thresh))"

definition lose_step :: "sref list \<Rightarrow> nat \<Rightarrow> bt_work \<Rightarrow> bt_work" where
  "lose_step pool i w =
     (let r = pool ! i in
      if state (deref w r) \<noteq> Lost then
        let w = modify_ref mark_lost r w
        in w\<lparr>wk_newly_lost := wk_newly_lost w @ [deref w r]\<rparr>
      else w)"

text \<open>Association of the remaining tracked tracks with the weak detections.\<close>

definition second_association ::
  "(mat \<Rightarrow> mat \<Rightarrow> mat) \<Rightarrow> int \<Rightarrow> sref list \<Rightarrow> strack list \<Rightarrow> bt_work \<Rightarrow> bt_work option" where
  "second_association solve fid r_tracked detections w =
     (let (dists, na, nb) = iou_distance (map (deref w) r_tracked) detections in
      map_option (\<lambda>(matches, u_track, u_detection).
        let w = fold (match_step solve fid r_tracked detections) matches w
        in fold (lose_step r_tracked) u_track w)
      (linear_assignment dists na nb (1/2)))"

definition confirm_step ::
  "(mat \<Rightarrow> mat \<Rightarrow> mat) \<Rightarrow> int \<Rightarrow> sref list \<Rightarrow> strack list \<Rightarrow> nat \<times> nat \<Rightarrow> bt_work \<Rightarrow> bt_work" where
  "confirm_step solve fid unconfirmed dets = (\<lambda>(i, j) w.
     let w = modify_ref (st_update solve (dets ! j) fid) (unconfirmed ! i) w
     in w\<lparr>wk_activated := wk_activated w @ [deref w (unconfirmed ! i)]\<rparr>)"

definition remove_step :: "sref list \<Rightarrow> nat \<Rightarrow> bt_work \<Rightarrow> bt_work" where
  "remove_step unconfirmed i w =
     (let w = modify_ref mark_removed (unconfirmed ! i) w
      in w\<lparr>wk_removed := wk_removed w @ [deref w (unconfirmed ! i)]\<rparr>)"

text \<open>Association of the unconfirmed tracks; those left over are removed.\<close>

definition third_association ::
  "(mat \<Rightarrow> mat \<Rightarrow> mat) \<Rightarrow> int \<Rightarrow> sref list \<Rightarrow> strack list \<Rightarrow> bt_work \<Rightarrow> (bt_work \<times> nat list) option" where
  "third_association solve fid unconfirmed detections w =
     (let (dists, na, nb) = iou_distance (map (deref w) unconfirmed) detections in
      map_option (\<lambda>(matches, u_unconfirmed, u_detection).
        let w = fold (confirm_step solve fid unconfirmed detections) matches w
        in (fold (remove_step unconfirmed) u_unconfirmed w, u_detection))
      (linear_assignment dists na nb (7/10)))"

text \<open>New tracks from the strong detections nobody claimed.\<close>

definition birth_step :: "int \<Rightarrow> real \<Rightarrow> strack list \<Rightarrow> nat \<Rightarrow> bt_work \<Rightarrow> bt_work" where
  "birth_step fid high_thresh detections j w =
     (let track = detections ! j in
      if score track < high_thresh then w
      else let (track, cnt) = activate fid (wk_count w) track
           in w\<lparr>wk_activated := wk_activated w @ [track], wk_count := cnt\<rparr>)"

definition expire_step :: "int \<Rightarrow> int \<Rightarrow> nat \<Rightarrow> bt_work \<Rightarrow> bt_work" where
  "expire_step fid max_time_lost i w =
     (if max_time_lost < fid - end_frame (wk_lost w ! i) then
        let w = modify_ref mark_removed (InLost i) w
        in w\<lparr>wk_removed := wk_removed w @ [wk_lost w ! i]\<rparr>
      else w)"

text \<open>The new lists of the tracker from the collected ones.\<close>

definition merge_stage :: "bt_work \<Rightarrow> strack list \<Rightarrow> strack list \<times> strack list \<times> strack list" where
  "merge_stage w old_removed =
     (let tracked = filter (\<lambda>t. state t = Tracked) (wk_tracked w);
          tracked = joint_stracks tracked (wk_activated w);
          tracked = joint_stracks tracked (wk_refind w);
          lost = sub_stracks (wk_lost w) tracked @ wk_newly_lost w;
          lost = sub_stracks lost old_removed;
          removed = old_removed @ wk_removed w;
          (resa, resb) = remove_duplicate_stracks tracked lost
      in (resa, resb, removed))"

text \<open>The speed and liveness of one reported track.\<close>

definition SPEED_MAX :: real where "SPEED_MAX = 2"
definition POSTURE_PROP :: real where "POSTURE_PROP = 4/10"
definition SPEED_PROP :: real where "SPEED_PROP = 6/10"
definition LINENESS_PROP :: real where "LINENESS_PROP = 8/10"

definition foot_point :: "vec \<Rightarrow> int \<times> int" where
  "foot_point b = (c_trunc (b ! 0 + b ! 2 / 2), c_trunc (b ! 1 + 2 * b ! 3 / 3))"

definition measure_speed :: "strack \<Rightarrow> strack" where
  "measure_speed t =
     (let now = foot_point (tlwh t);
          speed_x = real_of_int \<bar>fst now - fst (last_center t)\<bar>;
          speed_y = real_of_int \<bar>snd now - snd (last_center t)\<bar>;
          speed = sqrt (speed_x * speed_x + speed_y * speed_y)
      in t\<lparr>now_center := now, speed_1s := speed, speed_all := speed_all t + speed,
            last_center := now\<rparr>)"

definition liveness_step :: "int \<Rightarrow> strack \<Rightarrow> strack" where
  "liveness_step fps t =
     (let s = speed_all t / real_of_int fps;
          s = (if s < 1/2 then 0 else s);
          l = LINENESS_PROP * liveness t + (1 - LINENESS_PROP) *
                (POSTURE_PROP * real_of_int (label t) + SPEED_PROP * s / SPEED_MAX);
          l = (if 1 < l then 1 else l)
      in t\<lparr>speed_1m := s, speed_all := 0, liveness := l\<rparr>)"

definition speed_step :: "int \<Rightarrow> int \<Rightarrow> strack \<Rightarrow> strack" where
  "speed_step fps num_frames t =
     (let t = (if num_frames = 1 then t\<lparr>last_center := foot_point (tlwh t)\<rparr> else t)
      in if c_mod num_frames fps = 0 then liveness_step fps (measure_speed t) else t)"

definition output_stage :: "int \<Rightarrow> int \<Rightarrow> strack list \<Rightarrow> strack list \<times> strack list" where
  "output_stage fps num_frames tracked =
     (let tracked = map (\<lambda>t. if is_activated t then speed_step fps num_frames t else t) tracked
      in (filter is_activated tracked, tracked))"

text \<open>
  \<open>update\<close>: the reported tracks, the tracker and the id counter; \<^const>\<open>None\<close> when the solver
  ends the process or does not return.
\<close>

definition bt_update ::
  "(mat \<Rightarrow> mat \<Rightarrow> mat) \<Rightarrow> object_det list \<Rightarrow> int \<Rightarrow> int \<Rightarrow> byte_tracker \<times> int
     \<Rightarrow> (strack list \<times> byte_tracker \<times> int) option" where
  "bt_update solve objects fps num_frames = (\<lambda>(bt, cnt).
     let fid = bt_frame_id bt + 1;
         (detections, detections_low) = split_detections (bt_track_thresh bt) objects;
         w = \<lparr>wk_tracked = bt_tracked bt, wk_lost = bt_lost bt, wk_activated = [], wk_refind = [],
              wk_newly_lost = [], wk_removed = [], wk_count = cnt\<rparr>;
         (unconfirmed, confirmed) = split_tracked (bt_tracked bt);
         pool = joint_refs w confirmed;
         w = multi_predict pool w
     in Option.bind (first_association solve fid (bt_match_thresh bt) pool detections w)
          (\<lambda>(w, detections_cp, r_tracked).
        Option.bind (second_association solve fid r_tracked detections_low w) (\<lambda>w.
        Option.bind (third_association solve fid unconfirmed detections_cp w)
          (\<lambda>(w, u_detection).
            let w = fold (birth_step fid (bt_high_thresh bt) detections_cp) u_detection w;
                w = fold (expire_step fid (bt_max_time_lost bt)) [0..<length (wk_lost w)] w;
                (tracked, lost, removed) = merge_stage w (bt_removed bt);
                (out, tracked) = output_stage fps num_frames tracked
            in Some (out, bt\<lparr>bt_frame_id := fid, bt_tracked := tracked, bt_lost := lost,
                             bt_removed := removed\<rparr>, wk_count w)))))"

definition get_color :: "int \<Rightarrow> int \<times> int \<times> int" where
  "get_color idx =
     (let idx = idx + 3
      in (c_mod (37 * idx) 255, c_mod (17 * idx) 255, c_mod (29 * idx) 255))"

end
