(* ===== verification/ByteInv.thy ===== *)
theory ByteInv imports ByteTracker begin

text \<open>
  What one call of \<open>BYTETracker::update\<close> keeps: the tracks of the tracker have distinct ids, the
  tracked ones are in state Tracked and no lost one is.  The proof follows the references: \<open>A\<close>,
  \<open>M\<close>, \<open>R\<close> and \<open>B\<close> are the references to the tracks updated, newly lost, removed and found
  again so far in this frame.
\<close>

section \<open>References\<close>

definition trefs :: "bt_work \<Rightarrow> sref set" where
  "trefs w = InTracked ` {..<length (wk_tracked w)}"

definition lrefs :: "bt_work \<Rightarrow> sref set" where
  "lrefs w = InLost ` {..<length (wk_lost w)}"

definition tid :: "bt_work \<Rightarrow> sref \<Rightarrow> int" where
  "tid w r = track_id (deref w r)"

lemma refs_disjoint: "trefs w \<inter> lrefs w = {}"
  by (auto simp: trefs_def lrefs_def)

lemma modify_ref_deref:
  assumes "r \<in> trefs w \<union> lrefs w"
  shows "deref (modify_ref f r w) q = (if q = r then f (deref w r) else deref w q)"
  using assms by (cases r; cases q) (auto simp: trefs_def lrefs_def nth_list_update)

lemma modify_ref_fields [simp]:
  "wk_activated (modify_ref f r w) = wk_activated w" "wk_refind (modify_ref f r w) = wk_refind w"
  "wk_newly_lost (modify_ref f r w) = wk_newly_lost w" "wk_removed (modify_ref f r w) = wk_removed w"
  "wk_count (modify_ref f r w) = wk_count w"
  "length (wk_tracked (modify_ref f r w)) = length (wk_tracked w)"
  "length (wk_lost (modify_ref f r w)) = length (wk_lost w)"
  by (cases r; simp)+

lemma deref_collect [simp]:
  "deref (w\<lparr>wk_activated := a\<rparr>) r = deref w r" "deref (w\<lparr>wk_refind := a\<rparr>) r = deref w r"
  "deref (w\<lparr>wk_newly_lost := a\<rparr>) r = deref w r" "deref (w\<lparr>wk_removed := a\<rparr>) r = deref w r"
  "deref (w\<lparr>wk_count := c\<rparr>) r = deref w r"
  by (cases r; simp)+

lemma refs_cong:
  "length (wk_tracked w) = length (wk_tracked w0) \<Longrightarrow> length (wk_lost w) = length (wk_lost w0) \<Longrightarrow>
   trefs w = trefs w0 \<and> lrefs w = lrefs w0"
  by (simp add: trefs_def lrefs_def)

section \<open>The invariant of a frame\<close>

definition w_shape :: "bt_work \<Rightarrow> bt_work \<Rightarrow> bool" where
  "w_shape w0 w \<longleftrightarrow>
     length (wk_tracked w) = length (wk_tracked w0) \<and> length (wk_lost w) = length (wk_lost w0) \<and>
     (\<forall>r\<in>trefs w0 \<union> lrefs w0. tid w r = tid w0 r)"

definition w_sets :: "bt_work \<Rightarrow> sref set \<Rightarrow> sref set \<Rightarrow> sref set \<Rightarrow> sref set \<Rightarrow> bool" where
  "w_sets w0 A M R B \<longleftrightarrow>
     A \<union> M \<union> R \<subseteq> trefs w0 \<and> A \<inter> (M \<union> R) = {} \<and> M \<inter> R = {} \<and> B \<subseteq> lrefs w0"

definition w_states :: "bt_work \<Rightarrow> sref set \<Rightarrow> sref set \<Rightarrow> sref set \<Rightarrow> bt_work \<Rightarrow> bool" where
  "w_states w0 M R B w \<longleftrightarrow>
     (\<forall>r\<in>trefs w0. state (deref w r) = (if r \<in> M then Lost else if r \<in> R then Removed else Tracked)) \<and>
     (\<forall>r\<in>lrefs w0. state (deref w r) = Tracked \<longrightarrow> r \<in> B)"

definition w_lists :: "bt_work \<Rightarrow> sref set \<Rightarrow> sref set \<Rightarrow> sref set \<Rightarrow> bt_work \<Rightarrow> bool" where
  "w_lists w0 A M B w \<longleftrightarrow>
     wk_count w0 \<le> wk_count w \<and>
     track_id ` set (wk_activated w) = tid w0 ` A \<union> {wk_count w0<..wk_count w} \<and>
     track_id ` set (wk_refind w) = tid w0 ` B \<and>
     distinct (map track_id (wk_newly_lost w)) \<and> track_id ` set (wk_newly_lost w) = tid w0 ` M \<and>
     (\<forall>t\<in>set (wk_activated w) \<union> set (wk_refind w). state t = Tracked) \<and>
     (\<forall>t\<in>set (wk_newly_lost w). state t = Lost)"

definition winv :: "bt_work \<Rightarrow> sref set \<Rightarrow> sref set \<Rightarrow> sref set \<Rightarrow> sref set \<Rightarrow> bt_work \<Rightarrow> bool" where
  "winv w0 A M R B w \<longleftrightarrow>
     w_shape w0 w \<and> w_sets w0 A M R B \<and> w_states w0 M R B w \<and> w_lists w0 A M B w"

lemma w_shape_refs: "w_shape w0 w \<Longrightarrow> trefs w = trefs w0 \<and> lrefs w = lrefs w0"
  unfolding w_shape_def using refs_cong by blast

text \<open>A reference not yet used in this frame.\<close>

definition unused :: "bt_work \<Rightarrow> sref set \<Rightarrow> sref set \<Rightarrow> sref set \<Rightarrow> sref set \<Rightarrow> sref set" where
  "unused w0 A M R B = (trefs w0 \<union> lrefs w0) - (A \<union> M \<union> R \<union> B)"

text \<open>Changing a track in place keeps the shape when it keeps the id.\<close>

lemma modify_shape:
  assumes W: "w_shape w0 w" and r: "r \<in> trefs w0 \<union> lrefs w0"
    and id: "track_id (f (deref w r)) = track_id (deref w r)"
  shows "w_shape w0 (modify_ref f r w)"
proof -
  have "r \<in> trefs w \<union> lrefs w" using r w_shape_refs [OF W] by simp
  note d = modify_ref_deref [OF this, of f]
  have "tid (modify_ref f r w) q = tid w q" for q using id by (simp add: tid_def d)
  then show ?thesis using W by (simp add: w_shape_def)
qed

lemma modify_states:
  assumes W: "w_shape w0 w" "w_states w0 M R B w" and r: "r \<in> trefs w0 \<union> lrefs w0"
    and M': "M - {r} = M' - {r}" "R - {r} = R' - {r}" "B - {r} \<subseteq> B'"
    and t: "r \<in> trefs w0 \<Longrightarrow> state (f (deref w r)) = (if r \<in> M' then Lost else if r \<in> R' then Removed else Tracked)"
    and l: "r \<in> lrefs w0 \<Longrightarrow> state (f (deref w r)) = Tracked \<Longrightarrow> r \<in> B'"
  shows "w_states w0 M' R' B' (modify_ref f r w)"
proof -
  have "r \<in> trefs w \<union> lrefs w" using r w_shape_refs [OF W(1)] by simp
  note d = modify_ref_deref [OF this, of f]
  show ?thesis
    unfolding w_states_def
  proof (intro conjI ballI impI)
    fix q assume q: "q \<in> trefs w0"
    show "state (deref (modify_ref f r w) q) = (if q \<in> M' then Lost else if q \<in> R' then Removed else Tracked)"
    proof (cases "q = r")
      case True
      then show ?thesis using t q by (simp add: d)
    next
      case False
      then have "q \<in> M \<longleftrightarrow> q \<in> M'" "q \<in> R \<longleftrightarrow> q \<in> R'" using M' by auto
      then show ?thesis using W(2) q False by (simp add: d w_states_def)
    qed
  next
    fix q assume q: "q \<in> lrefs w0" "state (deref (modify_ref f r w) q) = Tracked"
    show "q \<in> B'"
    proof (cases "q = r")
      case True
      then show ?thesis using l q by (simp add: d)
    next
      case False
      then have "q \<in> B" using W(2) q by (simp add: d w_states_def)
      then show ?thesis using M' False by auto
    qed
  qed
qed

lemma collect_shape [simp]:
  "w_shape w0 (w\<lparr>wk_activated := a\<rparr>) = w_shape w0 w" "w_shape w0 (w\<lparr>wk_refind := a\<rparr>) = w_shape w0 w"
  "w_shape w0 (w\<lparr>wk_newly_lost := a\<rparr>) = w_shape w0 w" "w_shape w0 (w\<lparr>wk_removed := a\<rparr>) = w_shape w0 w"
  "w_shape w0 (w\<lparr>wk_count := c\<rparr>) = w_shape w0 w"
  "w_states w0 M R B (w\<lparr>wk_activated := a\<rparr>) = w_states w0 M R B w"
  "w_states w0 M R B (w\<lparr>wk_refind := a\<rparr>) = w_states w0 M R B w"
  "w_states w0 M R B (w\<lparr>wk_newly_lost := a\<rparr>) = w_states w0 M R B w"
  "w_states w0 M R B (w\<lparr>wk_removed := a\<rparr>) = w_states w0 M R B w"
  "w_states w0 M R B (w\<lparr>wk_count := c\<rparr>) = w_states w0 M R B w"
  by (simp_all add: w_shape_def w_states_def tid_def)

lemma modify_lists [simp]: "w_lists w0 A M B (modify_ref f r w) = w_lists w0 A M B w"
  by (simp add: w_lists_def)

lemma match_step_inv:
  assumes W: "winv w0 A M R B w" and r: "pool ! i \<in> unused w0 A M R B"
  shows "winv w0 (A \<union> ({pool ! i} \<inter> trefs w0)) M R (B \<union> ({pool ! i} \<inter> lrefs w0))
           (match_step solve fid pool dets (i, j) w)"
proof -
  let ?r = "pool ! i" and ?w = "match_step solve fid pool dets (i, j) w"
  define f where "f = (if state (deref w ?r) = Tracked then st_update solve (dets ! j) fid
     else (\<lambda>t. fst (re_activate solve (dets ! j) fid False (wk_count w) t)))"
  have S: "w_shape w0 w" "w_sets w0 A M R B" "w_states w0 M R B w" "w_lists w0 A M B w"
    using W by (auto simp: winv_def)
  have rr: "?r \<in> trefs w0 \<union> lrefs w0" "?r \<notin> A" "?r \<notin> M" "?r \<notin> R" "?r \<notin> B" using r by (auto simp: unused_def)
  have ff: "state (f t) = Tracked" "track_id (f t) = track_id t" for t by (simp_all add: f_def)
  have "?r \<in> trefs w \<union> lrefs w" using rr w_shape_refs [OF S(1)] by simp
  note d = modify_ref_deref [OF this, of f]
  have id: "track_id (deref w ?r) = tid w0 ?r" using S(1) rr by (auto simp: w_shape_def tid_def)
  have st: "state (deref w ?r) = Tracked \<longleftrightarrow> ?r \<in> trefs w0"
    using S(3) rr refs_disjoint unfolding w_states_def by fastforce
  have w': "?w = (let w = modify_ref f ?r w in
      if ?r \<in> trefs w0 then w\<lparr>wk_activated := wk_activated w @ [deref w ?r]\<rparr>
      else w\<lparr>wk_refind := wk_refind w @ [deref w ?r]\<rparr>)"
    using st by (simp add: match_step_def Let_def f_def)
  have shape: "w_shape w0 (modify_ref f ?r w)" by (rule modify_shape [OF S(1) rr(1)], rule ff(2))
  have states: "w_states w0 M R (B \<union> ({?r} \<inter> lrefs w0)) (modify_ref f ?r w)"
    by (rule modify_states [OF S(1,3) rr(1)]) (use rr ff in auto)
  have sets: "w_sets w0 (A \<union> ({?r} \<inter> trefs w0)) M R (B \<union> ({?r} \<inter> lrefs w0))"
    using S(2) rr by (auto simp: w_sets_def)
  have "w_lists w0 (A \<union> ({?r} \<inter> trefs w0)) M (B \<union> ({?r} \<inter> lrefs w0)) ?w"
  proof (cases "?r \<in> trefs w0")
    case True
    moreover have "?r \<notin> lrefs w0" using True refs_disjoint by blast
    ultimately show ?thesis using S(4) ff id by (auto simp: w_lists_def w' d)
  next
    case False
    then have "?r \<in> lrefs w0" using rr by blast
    with False show ?thesis using S(4) ff id by (auto simp: w_lists_def w' d)
  qed
  moreover have "w_shape w0 ?w" "w_states w0 M R (B \<union> ({?r} \<inter> lrefs w0)) ?w"
    using shape states by (simp_all add: w' Let_def)
  ultimately show ?thesis using sets by (simp add: winv_def)
qed

text \<open>A loop over references, each used once.\<close>

lemma fold_refs:
  assumes step: "\<And>x X w. P X w \<Longrightarrow> g x \<in> U - X \<Longrightarrow> P (insert (g x) X) (f x w)"
    and "P X w" "distinct (map g xs)" "g ` set xs \<subseteq> U - X"
  shows "P (X \<union> g ` set xs) (fold f xs w)"
  using assms(2-)
proof (induction xs arbitrary: X w)
  case (Cons x xs)
  have "P (insert (g x) X) (f x w)" by (rule step) (use Cons.prems in auto)
  moreover have "g ` set xs \<subseteq> U - insert (g x) X"
  proof -
    have "g x \<notin> g ` set xs" "g ` set xs \<subseteq> U - X" using Cons.prems by simp_all
    then show ?thesis by blast
  qed
  ultimately have "P (insert (g x) X \<union> g ` set xs) (fold f xs (f x w))"
    using Cons.IH [of "insert (g x) X" "f x w"] Cons.prems(2) by simp
  moreover have "insert (g x) X \<union> g ` set xs = X \<union> g ` set (x # xs)" by auto
  ultimately show ?case by simp
qed simp

text \<open>All pairs of an association; the references of its rows are used up.\<close>

definition rows_of :: "sref list \<Rightarrow> (nat \<times> nat) list \<Rightarrow> sref set" where
  "rows_of pool ms = (\<lambda>p. pool ! fst p) ` set ms"

lemma match_fold_inv:
  assumes W: "winv w0 A M R B w" and "distinct (map (\<lambda>p. pool ! fst p) ms)"
    and "rows_of pool ms \<subseteq> unused w0 A M R B"
  shows "winv w0 (A \<union> (rows_of pool ms \<inter> trefs w0)) M R (B \<union> (rows_of pool ms \<inter> lrefs w0))
           (fold (match_step solve fid pool dets) ms w)"
proof -
  let ?P = "\<lambda>X w. winv w0 (A \<union> (X \<inter> trefs w0)) M R (B \<union> (X \<inter> lrefs w0)) w"
  have "?P ({} \<union> (\<lambda>p. pool ! fst p) ` set ms) (fold (match_step solve fid pool dets) ms w)"
  proof (rule fold_refs [where P = ?P and U = "unused w0 A M R B"])
    fix p :: "nat \<times> nat" and X w
    assume PX: "?P X w" and p: "pool ! fst p \<in> unused w0 A M R B - X"
    then have "pool ! fst p \<in> unused w0 (A \<union> (X \<inter> trefs w0)) M R (B \<union> (X \<inter> lrefs w0))"
      by (auto simp: unused_def)
    from match_step_inv [OF PX this, of solve fid dets "snd p"]
    show "?P (insert (pool ! fst p) X) (match_step solve fid pool dets p w)"
      by (simp add: Int_insert_left insert_absorb Un_insert_right split: if_splits)
  qed (use assms in \<open>auto simp: rows_of_def\<close>)
  then show ?thesis by (simp add: rows_of_def)
qed

lemma confirm_step_inv:
  assumes W: "winv w0 A M R B w" and r: "pool ! i \<in> unused w0 A M R B" and t: "pool ! i \<in> trefs w0"
  shows "winv w0 (insert (pool ! i) A) M R B (confirm_step solve fid pool dets (i, j) w)"
proof -
  let ?r = "pool ! i" and ?f = "st_update solve (dets ! j) fid"
  have S: "w_shape w0 w" "w_sets w0 A M R B" "w_states w0 M R B w" "w_lists w0 A M B w"
    using W by (auto simp: winv_def)
  have rr: "?r \<in> trefs w0 \<union> lrefs w0" "?r \<notin> M" "?r \<notin> R" using r by (auto simp: unused_def)
  have nl: "?r \<notin> lrefs w0" using t refs_disjoint by blast
  have "?r \<in> trefs w \<union> lrefs w" using rr w_shape_refs [OF S(1)] by simp
  note d = modify_ref_deref [OF this, of ?f]
  have id: "track_id (deref w ?r) = tid w0 ?r" using S(1) rr by (auto simp: w_shape_def tid_def)
  have "w_shape w0 (modify_ref ?f ?r w)" by (rule modify_shape [OF S(1) rr(1)]) simp
  moreover have "w_states w0 M R B (modify_ref ?f ?r w)"
    by (rule modify_states [OF S(1,3) rr(1)]) (use rr nl in auto)
  moreover have "w_sets w0 (insert ?r A) M R B" using S(2) rr t by (auto simp: w_sets_def)
  moreover have "w_lists w0 (insert ?r A) M B (confirm_step solve fid pool dets (i, j) w)"
    using S(4) id by (auto simp: w_lists_def confirm_step_def Let_def d)
  ultimately show ?thesis by (simp add: winv_def confirm_step_def Let_def)
qed

lemma lose_step_inv:
  assumes W: "winv w0 A M R B w" and r: "pool ! i \<in> unused w0 A M R B" and t: "pool ! i \<in> trefs w0"
    and inj: "inj_on (tid w0) (trefs w0)"
  shows "winv w0 A (insert (pool ! i) M) R B (lose_step pool i w)"
proof -
  let ?r = "pool ! i"
  have S: "w_shape w0 w" "w_sets w0 A M R B" "w_states w0 M R B w" "w_lists w0 A M B w"
    using W by (auto simp: winv_def)
  have rr: "?r \<in> trefs w0 \<union> lrefs w0" "?r \<notin> A" "?r \<notin> M" "?r \<notin> R" using r by (auto simp: unused_def)
  have nl: "?r \<notin> lrefs w0" using t refs_disjoint by blast
  have "?r \<in> trefs w \<union> lrefs w" using rr w_shape_refs [OF S(1)] by simp
  note d = modify_ref_deref [OF this, of mark_lost]
  have id: "track_id (deref w ?r) = tid w0 ?r" using S(1) rr by (auto simp: w_shape_def tid_def)
  have st: "state (deref w ?r) = Tracked" using S(3) t rr by (simp add: w_states_def)
  have "w_shape w0 (modify_ref mark_lost ?r w)" by (rule modify_shape [OF S(1) rr(1)]) simp
  moreover have "w_states w0 (insert ?r M) R B (modify_ref mark_lost ?r w)"
    by (rule modify_states [OF S(1,3) rr(1)]) (use rr nl in auto)
  moreover have "w_sets w0 A (insert ?r M) R B" using S(2) rr t by (auto simp: w_sets_def)
  moreover have "w_lists w0 A (insert ?r M) B (lose_step pool i w)"
  proof -
    have "M \<subseteq> trefs w0" using S(2) by (simp add: w_sets_def)
    then have "tid w0 ?r \<notin> tid w0 ` M" using inj t rr by (auto simp: inj_on_def)
    then have "tid w0 ?r \<notin> track_id ` set (wk_newly_lost w)" using S(4) by (simp add: w_lists_def)
    then show ?thesis using S(4) id st by (simp add: w_lists_def lose_step_def Let_def d)
  qed
  ultimately show ?thesis by (simp add: winv_def lose_step_def Let_def st)
qed

lemma remove_step_inv:
  assumes W: "winv w0 A M R B w" and r: "pool ! i \<in> unused w0 A M R B" and t: "pool ! i \<in> trefs w0"
  shows "winv w0 A M (insert (pool ! i) R) B (remove_step pool i w)"
proof -
  let ?r = "pool ! i"
  have S: "w_shape w0 w" "w_sets w0 A M R B" "w_states w0 M R B w" "w_lists w0 A M B w"
    using W by (auto simp: winv_def)
  have rr: "?r \<in> trefs w0 \<union> lrefs w0" "?r \<notin> A" "?r \<notin> M" using r by (auto simp: unused_def)
  have nl: "?r \<notin> lrefs w0" using t refs_disjoint by blast
  have "w_shape w0 (modify_ref mark_removed ?r w)" by (rule modify_shape [OF S(1) rr(1)]) simp
  moreover have "w_states w0 M (insert ?r R) B (modify_ref mark_removed ?r w)"
    by (rule modify_states [OF S(1,3) rr(1)]) (use rr nl in auto)
  moreover have "w_sets w0 A M (insert ?r R) B" using S(2) rr t by (auto simp: w_sets_def)
  moreover have "w_lists w0 A M B (remove_step pool i w)"
    using S(4) by (simp add: w_lists_def remove_step_def Let_def)
  ultimately show ?thesis by (simp add: winv_def remove_step_def Let_def)
qed

section \<open>The stages\<close>

text \<open>The rows of an association of a pool of distinct references: matched or left over.\<close>

lemma association_rows:
  assumes ok: "assoc_ok {..<length pool} B (ms, ua, ub)" and d: "distinct pool"
  shows "distinct (map (\<lambda>p. pool ! fst p) ms)" "distinct (map ((!) pool) ua)"
    and "rows_of pool ms \<union> (!) pool ` set ua = set pool" "rows_of pool ms \<inter> (!) pool ` set ua = {}"
proof -
  have a: "distinct (map fst ms @ ua)" "set (map fst ms @ ua) = {..<length pool}"
    using ok by (auto simp: assoc_ok_def)
  have inj: "inj_on ((!) pool) {..<length pool}"
    using d by (auto simp: inj_on_def nth_eq_iff_index_eq)
  have m: "map ((!) pool) (map fst ms @ ua) = map (\<lambda>p. pool ! fst p) ms @ map ((!) pool) ua"
    by (simp add: comp_def)
  have "distinct (map ((!) pool) (map fst ms @ ua))"
    using a inj by (simp add: distinct_map del: map_append)
  then have dd: "distinct (map (\<lambda>p. pool ! fst p) ms @ map ((!) pool) ua)" unfolding m .
  then show "distinct (map (\<lambda>p. pool ! fst p) ms)" "distinct (map ((!) pool) ua)"
    and "rows_of pool ms \<inter> (!) pool ` set ua = {}" by (auto simp: rows_of_def)
  have "set (map ((!) pool) (map fst ms @ ua)) = (!) pool ` {..<length pool}"
    using a(2) by (simp only: set_map)
  also have "\<dots> = set pool" by (auto simp: set_conv_nth)
  finally show "rows_of pool ms \<union> (!) pool ` set ua = set pool"
    unfolding m by (simp add: rows_of_def)
qed

lemma first_association_ok:
  assumes W: "winv w0 {} {} {} {} w" and pool: "distinct pool" "set pool \<subseteq> trefs w0 \<union> lrefs w0"
    and th: "0 \<le> th" "th < LARGE"
  shows "\<exists>w' cp rt A B. first_association solve fid th pool dets w = Some (w', cp, rt) \<and>
     winv w0 A {} {} B w' \<and> A \<subseteq> set pool \<and> distinct rt \<and> set rt \<subseteq> set pool \<inter> trefs w0 - A"
proof -
  obtain dists na nb where d: "iou_distance (map (deref w) pool) dets = (dists, na, nb)" by (metis prod_cases3)
  obtain ms ua ub where la: "linear_assignment dists na nb th = Some (ms, ua, ub)"
    and ok: "assoc_ok {..<length pool} {..<length dets} (ms, ua, ub)"
    using associate_ok [OF d th] by auto
  note ar = association_rows [OF ok pool(1)]
  let ?w = "fold (match_step solve fid pool dets) ms w"
  let ?A = "rows_of pool ms \<inter> trefs w0" and ?B = "rows_of pool ms \<inter> lrefs w0"
  let ?rt = "filter (\<lambda>r. state (deref ?w r) = Tracked) (map ((!) pool) ua)"
  have "rows_of pool ms \<subseteq> unused w0 {} {} {} {}" using ar(3) pool(2) by (auto simp: unused_def)
  from match_fold_inv [OF W ar(1) this]
  have W': "winv w0 ?A {} {} ?B ?w" by simp
  have "set ?rt \<subseteq> set pool \<inter> trefs w0 - ?A"
  proof
    fix r assume "r \<in> set ?rt"
    then have r: "r \<in> (!) pool ` set ua" and st: "state (deref ?w r) = Tracked" by auto
    have rp: "r \<in> set pool" "r \<notin> rows_of pool ms" using r ar(3,4) by auto
    have "r \<notin> lrefs w0"
    proof
      assume "r \<in> lrefs w0"
      then have "r \<in> ?B" using W' st by (simp add: winv_def w_states_def)
      then show False using rp by simp
    qed
    then show "r \<in> set pool \<inter> trefs w0 - ?A" using rp pool(2) by auto
  qed
  moreover have "distinct ?rt" by (rule distinct_filter [OF ar(2)])
  moreover have "first_association solve fid th pool dets w = Some (?w, map ((!) dets) ub, ?rt)"
    by (simp add: first_association_def d la Let_def)
  moreover have "?A \<subseteq> set pool" using ar(3) by auto
  ultimately show ?thesis using W' by blast
qed

lemma second_association_ok:
  assumes W: "winv w0 A {} {} B w" and rt: "distinct rt" "set rt \<subseteq> trefs w0 - A"
    and inj: "inj_on (tid w0) (trefs w0)"
  shows "\<exists>w' A' M. second_association solve fid rt dets w = Some w' \<and>
     winv w0 (A \<union> A') M {} B w' \<and> A' \<union> M = set rt"
proof -
  obtain dists na nb where d: "iou_distance (map (deref w) rt) dets = (dists, na, nb)" by (metis prod_cases3)
  obtain ms ua ub where la: "linear_assignment dists na nb (1/2) = Some (ms, ua, ub)"
    and ok: "assoc_ok {..<length rt} {..<length dets} (ms, ua, ub)"
    using associate_ok [OF d, of "1/2"] by (auto simp: LARGE_def)
  note ar = association_rows [OF ok rt(1)]
  have Bl: "B \<subseteq> lrefs w0" using W by (simp add: winv_def w_sets_def)
  let ?w = "fold (match_step solve fid rt dets) ms w"
  have sub: "rows_of rt ms \<subseteq> trefs w0 - A" "(!) rt ` set ua \<subseteq> trefs w0 - A" using ar(3) rt(2) by auto
  then have "rows_of rt ms \<subseteq> unused w0 A {} {} B"
    using Bl refs_disjoint [of w0] unfolding unused_def by blast
  note W' = match_fold_inv [OF W ar(1) this]
  have i: "rows_of rt ms \<inter> trefs w0 = rows_of rt ms" "rows_of rt ms \<inter> lrefs w0 = {}"
    using sub refs_disjoint [of w0] by blast+
  from W' have W1: "winv w0 (A \<union> rows_of rt ms) {} {} B ?w"
    unfolding i by simp
  have "winv w0 (A \<union> rows_of rt ms) ({} \<union> (!) rt ` set ua) {} B (fold (lose_step rt) ua ?w)"
  proof (rule fold_refs [where P = "\<lambda>X w. winv w0 (A \<union> rows_of rt ms) X {} B w" and U = "trefs w0 - (A \<union> rows_of rt ms)"])
    fix i X w assume P: "winv w0 (A \<union> rows_of rt ms) X {} B w" and i: "rt ! i \<in> trefs w0 - (A \<union> rows_of rt ms) - X"
    show "winv w0 (A \<union> rows_of rt ms) (insert (rt ! i) X) {} B (lose_step rt i w)"
      by (rule lose_step_inv [OF P _ _ inj]) (use i Bl refs_disjoint [of w0] in \<open>auto simp: unused_def\<close>)
  qed (use W1 ar sub in auto)
  moreover have "second_association solve fid rt dets w = Some (fold (lose_step rt) ua ?w)"
    by (simp add: second_association_def d la Let_def)
  ultimately show ?thesis using ar(3) by (metis Un_empty_left)
qed

lemma third_association_ok:
  assumes W: "winv w0 A M {} B w" and un: "distinct un" "set un \<subseteq> trefs w0 - (A \<union> M)"
  shows "\<exists>w' ud A' R. third_association solve fid un dets w = Some (w', ud) \<and>
     winv w0 (A \<union> A') M R B w' \<and> A' \<union> R = set un"
proof -
  obtain dists na nb where d: "iou_distance (map (deref w) un) dets = (dists, na, nb)" by (metis prod_cases3)
  obtain ms ua ub where la: "linear_assignment dists na nb (7/10) = Some (ms, ua, ub)"
    and ok: "assoc_ok {..<length un} {..<length dets} (ms, ua, ub)"
    using associate_ok [OF d, of "7/10"] by (auto simp: LARGE_def)
  note ar = association_rows [OF ok un(1)]
  have Bl: "B \<subseteq> lrefs w0" using W by (simp add: winv_def w_sets_def)
  let ?w = "fold (confirm_step solve fid un dets) ms w"
  have sub: "rows_of un ms \<subseteq> trefs w0 - (A \<union> M)" "(!) un ` set ua \<subseteq> trefs w0 - (A \<union> M)"
    using ar(3) un(2) by auto
  have W1: "winv w0 (A \<union> (\<lambda>p. un ! fst p) ` set ms) M {} B ?w"
  proof (rule fold_refs [where P = "\<lambda>X w. winv w0 X M {} B w" and U = "trefs w0 - M"])
    fix p :: "nat \<times> nat" and X w
    assume P: "winv w0 X M {} B w" and i: "un ! fst p \<in> trefs w0 - M - X"
    show "winv w0 (insert (un ! fst p) X) M {} B (confirm_step solve fid un dets p w)"
      using confirm_step_inv [OF P, of un "fst p" solve fid dets "snd p"] i Bl refs_disjoint [of w0]
      by (auto simp: unused_def)
  qed (use W ar sub in \<open>auto simp: rows_of_def\<close>)
  have "winv w0 (A \<union> rows_of un ms) M ({} \<union> (!) un ` set ua) B (fold (remove_step un) ua ?w)"
  proof (rule fold_refs [where P = "\<lambda>X w. winv w0 (A \<union> rows_of un ms) M X B w"
        and U = "trefs w0 - (A \<union> rows_of un ms \<union> M)"])
    fix i X w assume P: "winv w0 (A \<union> rows_of un ms) M X B w"
      and i: "un ! i \<in> trefs w0 - (A \<union> rows_of un ms \<union> M) - X"
    show "winv w0 (A \<union> rows_of un ms) M (insert (un ! i) X) B (remove_step un i w)"
      by (rule remove_step_inv [OF P]) (use i Bl refs_disjoint [of w0] in \<open>auto simp: unused_def\<close>)
  qed (use W1 ar sub in \<open>auto simp: rows_of_def\<close>)
  moreover have "third_association solve fid un dets w = Some (fold (remove_step un) ua ?w, ub)"
    by (simp add: third_association_def d la Let_def)
  ultimately show ?thesis using ar(3) by (metis Un_empty_left)
qed

lemma birth_fold_inv:
  assumes "winv w0 A M R B w"
  shows "winv w0 A M R B (fold (birth_step fid hi dets) js w)"
proof (rule fold_inv [where I = "winv w0 A M R B"])
  show "winv w0 A M R B w" by (rule assms)
next
  fix j w assume W: "winv w0 A M R B w"
  show "winv w0 A M R B (birth_step fid hi dets j w)"
  proof (cases "score (dets ! j) < hi")
    case True
    then show ?thesis using W by (simp add: birth_step_def Let_def)
  next
    case False
    obtain t c where a: "activate fid (wk_count w) (dets ! j) = (t, c)"
      by (cases "activate fid (wk_count w) (dets ! j)")
    then have t: "state t = Tracked" "track_id t = wk_count w + 1" "c = wk_count w + 1"
      using activate_fields [of fid "wk_count w" "dets ! j"] by simp_all
    have b: "birth_step fid hi dets j w = w\<lparr>wk_activated := wk_activated w @ [t], wk_count := c\<rparr>"
      using False by (simp add: birth_step_def Let_def a)
    have "w_lists w0 A M B (birth_step fid hi dets j w)"
      unfolding b using W t by (auto simp: winv_def w_lists_def)
    moreover have "w_shape w0 (birth_step fid hi dets j w)" "w_states w0 M R B (birth_step fid hi dets j w)"
      unfolding b using W by (simp_all add: winv_def)
    ultimately show ?thesis using W by (simp add: winv_def)
  qed
qed

lemma expire_fold_inv:
  assumes W: "winv w0 A M R B w"
  shows "winv w0 A M R B (fold (expire_step fid mt) [0..<length (wk_lost w)] w)"
proof (rule fold_inv [where I = "winv w0 A M R B"])
  show "winv w0 A M R B w" by (rule W)
next
  fix i w1 assume i: "i \<in> set [0..<length (wk_lost w)]" and W1: "winv w0 A M R B w1"
  show "winv w0 A M R B (expire_step fid mt i w1)"
  proof (cases "mt < fid - end_frame (wk_lost w1 ! i)")
    case False
    then show ?thesis using W1 by (simp add: expire_step_def)
  next
    case True
    have S: "w_shape w0 w1" "w_states w0 M R B w1" using W1 by (auto simp: winv_def)
    have "length (wk_lost w) = length (wk_lost w0)" using W by (simp add: winv_def w_shape_def)
    then have r: "InLost i \<in> lrefs w0" using i by (simp add: lrefs_def)
    then have nt: "InLost i \<notin> trefs w0" using refs_disjoint by blast
    have "w_shape w0 (modify_ref mark_removed (InLost i) w1)"
      by (rule modify_shape [OF S(1)]) (use r in auto)
    moreover have "w_states w0 M R B (modify_ref mark_removed (InLost i) w1)"
      by (rule modify_states [OF S]) (use r nt in auto)
    moreover have "w_lists w0 A M B (expire_step fid mt i w1)"
      using W1 True by (simp add: winv_def w_lists_def expire_step_def Let_def)
    ultimately show ?thesis
      using W1 True unfolding winv_def expire_step_def Let_def by (simp del: modify_ref.simps)
  qed
qed

section \<open>The lists of tracks\<close>

abbreviation ids :: "strack list \<Rightarrow> int set" where
  "ids ts \<equiv> track_id ` set ts"

lemma joint_stracks_ok:
  "set (joint_stracks a b) \<subseteq> set a \<union> set b" "set a \<subseteq> set (joint_stracks a b)"
  "ids (joint_stracks a b) = ids a \<union> ids b"
  "distinct (map track_id a) \<Longrightarrow> distinct (map track_id (joint_stracks a b))"
proof -
  let ?f = "\<lambda>t (res, ex). (res @ [t], insert (track_id t) ex)"
  let ?g = "\<lambda>t (res, ex). let tid = track_id t in
      if tid \<notin> ex then (res @ [t], insert tid ex) else (res, ex)"
  have f: "fold ?f xs (res, ex) = (res @ xs, ex \<union> ids xs)" for xs res ex
    by (induction xs arbitrary: res ex) auto
  have g: "case fold ?g xs (res, ids res) of (res', ex') \<Rightarrow>
      set res' \<subseteq> set res \<union> set xs \<and> set res \<subseteq> set res' \<and> ids res' = ids res \<union> ids xs \<and>
      (distinct (map track_id res) \<longrightarrow> distinct (map track_id res'))" for xs res
  proof (induction xs arbitrary: res)
    case (Cons t xs)
    show ?case
    proof (cases "track_id t \<in> ids res")
      case True
      then show ?thesis using Cons.IH [of res] by (auto simp: Let_def split: prod.splits)
    next
      case False
      have "insert (track_id t) (ids res) = ids (res @ [t])" by simp
      then show ?thesis using Cons.IH [of "res @ [t]"] False
        by (auto simp: Let_def split: prod.splits)
    qed
  qed simp
  have j: "joint_stracks a b = fst (fold ?g b (a, ids a))"
    by (simp add: joint_stracks_def f Let_def split: prod.split)
  from g [of a b]
  show "set (joint_stracks a b) \<subseteq> set a \<union> set b" "set a \<subseteq> set (joint_stracks a b)"
    "ids (joint_stracks a b) = ids a \<union> ids b"
    "distinct (map track_id a) \<Longrightarrow> distinct (map track_id (joint_stracks a b))"
    unfolding j by (auto split: prod.splits)
qed

lemma sub_stracks_ok:
  "set (sub_stracks a b) = {t \<in> set a. track_id t \<notin> ids b}"
  "distinct (map track_id a) \<Longrightarrow> distinct (map track_id (sub_stracks a b))"
  by (auto simp: sub_stracks_def distinct_map_filter)

lemma remove_duplicates_ok:
  assumes "remove_duplicate_stracks a b = (a', b')"
  shows "set a' \<subseteq> set a" "set b' \<subseteq> set b"
    "distinct (map track_id a) \<Longrightarrow> distinct (map track_id a')"
    "distinct (map track_id b) \<Longrightarrow> distinct (map track_id b')"
proof -
  have sel: "set (map ((!) c) (filter P [0..<length c])) \<subseteq> set c" for c :: "strack list" and P
    by auto
  have dis: "distinct (map track_id c) \<Longrightarrow> distinct (map track_id (map ((!) c) (filter P [0..<length c])))"
    for c :: "strack list" and P
    by (auto simp: distinct_map inj_on_def comp_def) (metis (no_types) distinct_conv_nth length_map nth_map distinct_map inj_on_def)
  obtain P Q where "a' = map ((!) a) (filter P [0..<length a])" "b' = map ((!) b) (filter Q [0..<length b])"
    using assms unfolding remove_duplicate_stracks_def Let_def by (auto split: prod.splits)
  then show "set a' \<subseteq> set a" "set b' \<subseteq> set b"
    "distinct (map track_id a) \<Longrightarrow> distinct (map track_id a')"
    "distinct (map track_id b) \<Longrightarrow> distinct (map track_id b')"
    using sel dis by metis+
qed

section \<open>One frame\<close>

definition bt_inv :: "byte_tracker \<times> int \<Rightarrow> bool" where
  "bt_inv = (\<lambda>(bt, cnt).
     distinct (map track_id (bt_tracked bt @ bt_lost bt)) \<and>
     (\<forall>t\<in>set (bt_tracked bt @ bt_lost bt). track_id t \<le> cnt) \<and>
     (\<forall>t\<in>set (bt_tracked bt). state t = Tracked) \<and> (\<forall>t\<in>set (bt_lost bt). state t \<noteq> Tracked))"

definition start_work :: "byte_tracker \<Rightarrow> int \<Rightarrow> bt_work" where
  "start_work bt cnt =
     \<lparr>wk_tracked = bt_tracked bt, wk_lost = bt_lost bt, wk_activated = [], wk_refind = [],
      wk_newly_lost = [], wk_removed = [], wk_count = cnt\<rparr>"

lemma start_refs:
  "trefs (start_work bt cnt) = InTracked ` {..<length (bt_tracked bt)}"
  "lrefs (start_work bt cnt) = InLost ` {..<length (bt_lost bt)}"
  by (simp_all add: trefs_def lrefs_def start_work_def)

lemma start_tid:
  "tid (start_work bt cnt) (InTracked i) = track_id (bt_tracked bt ! i)"
  "tid (start_work bt cnt) (InLost i) = track_id (bt_lost bt ! i)"
  by (simp_all add: tid_def start_work_def)

lemma start_inj:
  assumes "bt_inv (bt, cnt)"
  shows "inj_on (tid (start_work bt cnt)) (trefs (start_work bt cnt) \<union> lrefs (start_work bt cnt))"
proof -
  let ?ts = "bt_tracked bt" and ?ls = "bt_lost bt"
  have d: "distinct (map track_id ?ts)" "distinct (map track_id ?ls)" "ids ?ts \<inter> ids ?ls = {}"
    using assms by (auto simp: bt_inv_def)
  have t: "i = k" if "i < length ?ts" "k < length ?ts" "track_id (?ts ! i) = track_id (?ts ! k)" for i k
    using d(1) that by (metis length_map nth_eq_iff_index_eq nth_map)
  have l: "i = k" if "i < length ?ls" "k < length ?ls" "track_id (?ls ! i) = track_id (?ls ! k)" for i k
    using d(2) that by (metis length_map nth_eq_iff_index_eq nth_map)
  have x: "track_id (?ts ! i) \<noteq> track_id (?ls ! k)" if "i < length ?ts" "k < length ?ls" for i k
    using d(3) that by (metis disjoint_iff imageI nth_mem)
  show ?thesis
    by (rule inj_onI) (use t l x in \<open>auto simp: start_refs start_tid\<close>, use x in metis)
qed

lemma start_inv:
  assumes "bt_inv (bt, cnt)"
  shows "winv (start_work bt cnt) {} {} {} {} (start_work bt cnt)"
  using assms
  by (auto simp: winv_def w_shape_def w_sets_def w_states_def w_lists_def trefs_def lrefs_def bt_inv_def start_work_def)

lemma predict_inv:
  assumes W: "winv w0 {} {} {} {} w" and p: "set pool \<subseteq> trefs w0 \<union> lrefs w0"
  shows "winv w0 {} {} {} {} (multi_predict pool w)"
  unfolding multi_predict_def
proof (rule fold_inv [where I = "winv w0 {} {} {} {}"])
  show "winv w0 {} {} {} {} w" by (rule W)
next
  fix r w assume r: "r \<in> set pool" and I: "winv w0 {} {} {} {} w"
  have S: "w_shape w0 w" "w_states w0 {} {} {} w" using I by (auto simp: winv_def)
  have rr: "r \<in> trefs w0 \<union> lrefs w0" using r p by auto
  have "w_shape w0 (modify_ref predict_one r w)" by (rule modify_shape [OF S(1) rr]) simp
  moreover have "w_states w0 {} {} {} (modify_ref predict_one r w)"
    by (rule modify_states [OF S rr]) (use S(2) in \<open>auto simp: w_states_def\<close>)
  ultimately show "winv w0 {} {} {} {} (modify_ref predict_one r w)" using I by (simp add: winv_def)
qed

lemma joint_refs_ok:
  assumes "distinct rs" "set rs \<subseteq> trefs w"
  shows "distinct (joint_refs w rs)" "set (joint_refs w rs) \<subseteq> set rs \<union> lrefs w"
proof -
  let ?f = "\<lambda>r (res, ex). (res @ [r], insert (track_id (deref w r)) ex)"
  let ?g = "\<lambda>i (res, ex). let tid = track_id (wk_lost w ! i) in
      if tid \<notin> ex then (res @ [InLost i], insert tid ex) else (res, ex)"
  let ?I = "\<lambda>k (res, ex :: int set). distinct res \<and> set res \<subseteq> set rs \<union> InLost ` {..<k}"
  have f: "fst (fold ?f xs (res, ex)) = res @ xs" for xs res ex
    by (induction xs arbitrary: res ex) auto
  obtain ex where ex: "fold ?f rs ([], {}) = (rs, ex)"
    using f [of rs "[]" "{}"] by (cases "fold ?f rs ([], {})") simp
  have nl: "InLost k \<notin> set rs" for k using assms(2) by (auto simp: trefs_def)
  have "?I (length (wk_lost w)) (fold ?g [0..<length (wk_lost w)] (rs, ex))"
  proof (rule fold_upt0_inv [where I = ?I])
    show "?I 0 (rs, ex)" using assms(1) by simp
  next
    fix k and s :: "sref list \<times> int set" assume "?I k s"
    then show "?I (Suc k) (?g k s)"
      using nl [of k] by (cases s) (auto simp: Let_def less_Suc_eq)
  qed
  then show "distinct (joint_refs w rs)" "set (joint_refs w rs) \<subseteq> set rs \<union> lrefs w"
    by (auto simp: joint_refs_def ex lrefs_def Let_def split: prod.splits)
qed

text \<open>The new lists: ids and states.\<close>

lemma merge_ok:
  assumes W: "winv w0 A M R B w" and inj: "inj_on (tid w0) (trefs w0 \<union> lrefs w0)"
    and le: "\<And>r. r \<in> trefs w0 \<union> lrefs w0 \<Longrightarrow> tid w0 r \<le> wk_count w0"
    and res: "merge_stage w old = (ts, ls, rs)"
  shows "distinct (map track_id (ts @ ls))" "\<forall>t\<in>set ts. state t = Tracked" "\<forall>t\<in>set ls. state t \<noteq> Tracked"
    "\<forall>t\<in>set (ts @ ls). track_id t \<le> wk_count w"
proof -
  have S: "w_shape w0 w" "w_sets w0 A M R B" "w_states w0 M R B w" "w_lists w0 A M B w"
    using W by (auto simp: winv_def)
  have refs: "trefs w = trefs w0" "lrefs w = lrefs w0" using w_shape_refs [OF S(1)] by auto
  have cnt: "wk_count w0 \<le> wk_count w" using S(4) by (simp add: w_lists_def)
  have tid_eq: "tid w r = tid w0 r" if "r \<in> trefs w0 \<union> lrefs w0" for r using S(1) that by (auto simp: w_shape_def)
  have in_t: "\<exists>r\<in>trefs w0. deref w r = t" if "t \<in> set (wk_tracked w)" for t
    using that unfolding refs(1) [symmetric] by (auto simp: trefs_def in_set_conv_nth)
  have in_l: "\<exists>r\<in>lrefs w0. deref w r = t" if "t \<in> set (wk_lost w)" for t
    using that unfolding refs(2) [symmetric] by (auto simp: lrefs_def in_set_conv_nth)
  have inj': "inj_on (tid w) (trefs w \<union> lrefs w)"
    using inj tid_eq unfolding refs by (simp add: inj_on_def)
  have dt: "distinct (map track_id (wk_tracked w))"
  proof -
    have "InTracked i = InTracked k" if "i < length (wk_tracked w)" "k < length (wk_tracked w)"
      "track_id (wk_tracked w ! i) = track_id (wk_tracked w ! k)" for i k
      using inj_onD [OF inj', of "InTracked i" "InTracked k"] that by (auto simp: trefs_def tid_def)
    then show ?thesis by (auto simp: distinct_conv_nth)
  qed
  have dl: "distinct (map track_id (wk_lost w))"
  proof -
    have "InLost i = InLost k" if "i < length (wk_lost w)" "k < length (wk_lost w)"
      "track_id (wk_lost w ! i) = track_id (wk_lost w ! k)" for i k
      using inj_onD [OF inj', of "InLost i" "InLost k"] that by (auto simp: lrefs_def tid_def)
    then show ?thesis by (auto simp: distinct_conv_nth)
  qed
  let ?t0 = "filter (\<lambda>t. state t = Tracked) (wk_tracked w)"
  let ?t1 = "joint_stracks ?t0 (wk_activated w)"
  let ?t2 = "joint_stracks ?t1 (wk_refind w)"
  let ?l0 = "sub_stracks (wk_lost w) ?t2 @ wk_newly_lost w"
  let ?l1 = "sub_stracks ?l0 old"
  have rd: "remove_duplicate_stracks ?t2 ?l1 = (ts, ls)"
    using res by (simp add: merge_stage_def Let_def split: prod.splits)
  note rdo = remove_duplicates_ok [OF rd]
  have t0: "ids ?t0 \<subseteq> tid w0 ` (trefs w0 - M)"
  proof
    fix x assume "x \<in> ids ?t0"
    then obtain t where t: "t \<in> set (wk_tracked w)" "state t = Tracked" "x = track_id t" by auto
    then obtain r where r: "r \<in> trefs w0" "deref w r = t" using in_t by blast
    then have "r \<notin> M" using S(3) t by (auto simp: w_states_def split: if_splits)
    moreover have "x = tid w0 r" using tid_eq [of r] r t by (simp add: tid_def)
    ultimately show "x \<in> tid w0 ` (trefs w0 - M)" using r by auto
  qed
  have Mt: "M \<subseteq> trefs w0" "A \<subseteq> trefs w0 - M" "B \<subseteq> lrefs w0" using S(2) by (auto simp: w_sets_def)
  have act: "ids (wk_activated w) = tid w0 ` A \<union> {wk_count w0<..wk_count w}"
    and ref: "ids (wk_refind w) = tid w0 ` B" and new: "ids (wk_newly_lost w) = tid w0 ` M"
    and dn: "distinct (map track_id (wk_newly_lost w))"
    using S(4) by (auto simp: w_lists_def)
  have t2: "ids ?t2 = ids ?t0 \<union> tid w0 ` A \<union> {wk_count w0<..wk_count w} \<union> tid w0 ` B"
    unfolding joint_stracks_ok(3) act ref by blast
  have d2: "distinct (map track_id ?t2)"
    by (intro joint_stracks_ok(4)) (use dt in \<open>simp add: distinct_map_filter\<close>)
  have newt: "ids (wk_newly_lost w) \<inter> ids ?t2 = {}"
  proof -
    have "tid w0 m \<notin> ids ?t2" if m: "m \<in> M" for m
    proof
      assume "tid w0 m \<in> ids ?t2"
      then consider "tid w0 m \<in> tid w0 ` (trefs w0 - M)" | "tid w0 m \<in> {wk_count w0<..wk_count w}"
        | "tid w0 m \<in> tid w0 ` lrefs w0"
        unfolding t2 using t0 Mt by blast
      then show False
      proof cases
        case 1
        then show False using inj m Mt by (auto simp: inj_on_def)
      next
        case 2
        then show False using le [of m] m Mt by auto
      next
        case 3
        then obtain q where q: "q \<in> lrefs w0" "tid w0 m = tid w0 q" by auto
        then have "m = q" using inj m Mt by (auto simp: inj_on_def)
        then show False using q m Mt refs_disjoint [of w0] by auto
      qed
    qed
    then show ?thesis unfolding new by blast
  qed
  have lostids: "ids (sub_stracks (wk_lost w) ?t2) \<subseteq> tid w0 ` lrefs w0"
    using in_l tid_eq by (fastforce simp: sub_stracks_ok tid_def)
  have d0: "distinct (map track_id ?l0)"
  proof -
    have "tid w0 ` lrefs w0 \<inter> tid w0 ` M = {}"
      using inj Mt refs_disjoint [of w0] by (fastforce simp: inj_on_def)
    then have "ids (sub_stracks (wk_lost w) ?t2) \<inter> ids (wk_newly_lost w) = {}"
      using lostids unfolding new by blast
    then show ?thesis using sub_stracks_ok(2) [OF dl] dn by auto
  qed
  have dl1: "distinct (map track_id ?l1)" by (rule sub_stracks_ok(2) [OF d0])
  have "ids ?l1 \<inter> ids ?t2 = {}"
    using newt by (auto simp: sub_stracks_ok)
  then have "ids ls \<inter> ids ts = {}" using rdo(1,2) by blast
  then show "distinct (map track_id (ts @ ls))" using rdo(3) [OF d2] rdo(4) [OF dl1] by auto
  have st2: "state t = Tracked" if "t \<in> set ?t2" for t
  proof -
    have "t \<in> set ?t0 \<union> set (wk_activated w) \<union> set (wk_refind w)"
      using that joint_stracks_ok(1) [of ?t1 "wk_refind w"] joint_stracks_ok(1) [of ?t0 "wk_activated w"] by blast
    then show ?thesis using S(4) by (auto simp: w_lists_def)
  qed
  then show "\<forall>t\<in>set ts. state t = Tracked" using rdo(1) by blast
  have "state t \<noteq> Tracked" if "t \<in> set ?l1" for t
  proof
    assume st: "state t = Tracked"
    have "t \<in> set (sub_stracks (wk_lost w) ?t2)"
      using that st S(4) by (auto simp: sub_stracks_ok w_lists_def)
    then have t: "t \<in> set (wk_lost w)" "track_id t \<notin> ids ?t2" by (auto simp: sub_stracks_ok)
    then obtain r where r: "r \<in> lrefs w0" "deref w r = t" using in_l by blast
    then have "r \<in> B" using S(3) st by (simp add: w_states_def)
    then have "track_id t \<in> tid w0 ` B" using tid_eq [of r] r by (auto simp: tid_def)
    then show False using t unfolding t2 by blast
  qed
  then show "\<forall>t\<in>set ls. state t \<noteq> Tracked" using rdo(2) by blast
  have bound: "tid w0 r \<le> wk_count w" if "r \<in> trefs w0 \<union> lrefs w0" for r
    using le [OF that] cnt by simp
  have "x \<le> wk_count w" if x: "x \<in> ids ?t2" for x
  proof -
    from x have "x \<in> ids ?t0 \<or> x \<in> tid w0 ` A \<or> x \<in> {wk_count w0<..wk_count w} \<or> x \<in> tid w0 ` B"
      unfolding t2 by (simp only: Un_iff disj_assoc)
    moreover have "x \<in> ids ?t0 \<Longrightarrow> x \<in> tid w0 ` (trefs w0 - M)" using t0 by (rule subsetD)
    ultimately consider "x \<in> tid w0 ` (trefs w0 - M)" | "x \<in> tid w0 ` A" | "x \<le> wk_count w" | "x \<in> tid w0 ` B"
      by (metis greaterThanAtMost_iff)
    then show ?thesis using bound Mt by cases auto
  qed
  moreover have "x \<le> wk_count w" if x: "x \<in> ids ?l1" for x
  proof -
    have "x \<in> ids ?l0" using x unfolding sub_stracks_ok(1) [of ?l0 old] by blast
    then have "x \<in> tid w0 ` lrefs w0 \<or> x \<in> tid w0 ` M"
      using lostids new by (simp only: set_append image_Un) blast
    then show ?thesis using bound Mt by auto
  qed
  ultimately have "x \<le> wk_count w" if "x \<in> ids ?t2 \<union> ids ?l1" for x
    using that by blast
  then show "\<forall>t\<in>set (ts @ ls). track_id t \<le> wk_count w" using rdo(1,2) by (auto simp: subset_iff)
qed

lemma speed_step_fields [simp]:
  "track_id (speed_step fps nf t) = track_id t" "state (speed_step fps nf t) = state t"
  "is_activated (speed_step fps nf t) = is_activated t"
  by (simp_all add: speed_step_def measure_speed_def liveness_step_def Let_def)

lemma bt_update_ok:
  assumes inv: "bt_inv (bt, cnt)" and th: "0 \<le> bt_match_thresh bt" "bt_match_thresh bt < LARGE"
  shows "\<exists>out bt' cnt'. bt_update solve objects fps nf (bt, cnt) = Some (out, bt', cnt') \<and>
     bt_inv (bt', cnt') \<and> cnt \<le> cnt' \<and> bt_match_thresh bt' = bt_match_thresh bt \<and>
     out = filter is_activated (bt_tracked bt')"
proof -
  let ?w0 = "start_work bt cnt" and ?fid = "bt_frame_id bt + 1"
  obtain dets low where sd: "split_detections (bt_track_thresh bt) objects = (dets, low)"
    by (cases "split_detections (bt_track_thresh bt) objects")
  define un where "un = map InTracked (idx_where (\<lambda>t. \<not> is_activated t) (bt_tracked bt))"
  define cf where "cf = map InTracked (idx_where is_activated (bt_tracked bt))"
  define pool where "pool = joint_refs ?w0 cf"
  note inj = start_inj [OF inv]
  have un: "distinct un" "set un \<subseteq> trefs ?w0" and cf: "distinct cf" "set cf \<subseteq> trefs ?w0"
    and ucf: "set un \<inter> set cf = {}"
    by (auto simp: un_def cf_def start_refs distinct_map inj_on_def)
  have pool: "distinct pool" "set pool \<subseteq> set cf \<union> lrefs ?w0"
    using joint_refs_ok [OF cf] by (simp_all add: pool_def)
  then have pool': "set pool \<subseteq> trefs ?w0 \<union> lrefs ?w0" using cf by blast
  have up: "set un \<inter> set pool = {}" using pool(2) un(2) ucf refs_disjoint [of ?w0] by blast
  let ?w1 = "multi_predict pool ?w0"
  have W1: "winv ?w0 {} {} {} {} ?w1" by (rule predict_inv [OF start_inv [OF inv] pool'])
  from first_association_ok [OF W1 pool(1) pool' th] obtain w2 cp rt A B
    where fa: "first_association solve ?fid (bt_match_thresh bt) pool dets ?w1 = Some (w2, cp, rt)"
      and W2: "winv ?w0 A {} {} B w2" and A: "A \<subseteq> set pool" "distinct rt" "set rt \<subseteq> set pool \<inter> trefs ?w0 - A"
    by blast
  have injt: "inj_on (tid ?w0) (trefs ?w0)" using inj by (rule inj_on_subset) simp
  have rt: "set rt \<subseteq> trefs ?w0 - A" using A(3) by blast
  from second_association_ok [OF W2 A(2) rt injt] obtain w3 A2 M
    where sa: "second_association solve ?fid rt low w2 = Some w3"
      and W3: "winv ?w0 (A \<union> A2) M {} B w3" and AM: "A2 \<union> M = set rt" by blast
  have un3: "set un \<subseteq> trefs ?w0 - (A \<union> A2 \<union> M)" using un up A AM by blast
  from third_association_ok [OF W3 un(1) un3] obtain w4 ud A3 R
    where ta: "third_association solve ?fid un cp w3 = Some (w4, ud)"
      and W4: "winv ?w0 (A \<union> A2 \<union> A3) M R B w4" by blast
  let ?w5 = "fold (birth_step ?fid (bt_high_thresh bt) cp) ud w4"
  let ?w6 = "fold (expire_step ?fid (bt_max_time_lost bt)) [0..<length (wk_lost ?w5)] ?w5"
  have W6: "winv ?w0 (A \<union> A2 \<union> A3) M R B ?w6"
    by (intro expire_fold_inv birth_fold_inv W4)
  obtain ts ls rs where mg: "merge_stage ?w6 (bt_removed bt) = (ts, ls, rs)" by (metis prod_cases3)
  have le: "tid ?w0 r \<le> wk_count ?w0" if "r \<in> trefs ?w0 \<union> lrefs ?w0" for r
    using inv that by (auto simp: start_refs start_tid bt_inv_def) (auto simp: start_work_def)
  note mo = merge_ok [OF W6 inj le mg]
  let ?s = "\<lambda>t. if is_activated t then speed_step fps nf t else t"
  let ?ts = "map ?s ts"
  have os: "output_stage fps nf ts = (filter is_activated ?ts, ?ts)" by (simp add: output_stage_def Let_def)
  let ?bt = "bt\<lparr>bt_frame_id := ?fid, bt_tracked := ?ts, bt_lost := ls, bt_removed := rs\<rparr>"
  have upd: "bt_update solve objects fps nf (bt, cnt) = Some (filter is_activated ?ts, ?bt, wk_count ?w6)"
    using fa sa ta mg os
    by (simp add: bt_update_def Let_def sd split_tracked_def un_def [symmetric] cf_def [symmetric]
        start_work_def [symmetric] pool_def [symmetric])
  have "map track_id ?ts = map track_id ts" by simp
  then have "bt_inv (?bt, wk_count ?w6)"
    using mo by (auto simp: bt_inv_def simp del: map_map)
  moreover have "cnt \<le> wk_count ?w6"
    using W6 by (simp add: winv_def w_lists_def start_work_def)
  ultimately show ?thesis
    using upd by (intro exI [of _ "filter is_activated ?ts"] exI [of _ ?bt] exI [of _ "wk_count ?w6"]) simp
qed

lemma new_byte_tracker_inv: "bt_inv (new_byte_tracker r b t h m, cnt)"
  by (simp add: bt_inv_def new_byte_tracker_def)

text \<open>A run of the tracker over a sequence of frames: the detections of each frame with its
  rate and number; the reported tracks of every frame.\<close>

fun bt_run ::
  "(mat \<Rightarrow> mat \<Rightarrow> mat) \<Rightarrow> (object_det list \<times> int \<times> int) list \<Rightarrow> byte_tracker \<times> int
     \<Rightarrow> (strack list list \<times> byte_tracker \<times> int) option" where
  "bt_run solve [] st = Some ([], st)"
| "bt_run solve ((objects, fps, nf) # frames) st =
     Option.bind (bt_update solve objects fps nf st) (\<lambda>(out, st').
       map_option (\<lambda>(outs, st''). (out # outs, st'')) (bt_run solve frames st'))"

lemma bt_run_ok:
  assumes "bt_inv (bt, cnt)" "0 \<le> bt_match_thresh bt" "bt_match_thresh bt < LARGE"
  shows "\<exists>outs st'. bt_run solve frames (bt, cnt) = Some (outs, st') \<and> bt_inv st' \<and>
     length outs = length frames \<and>
     (\<forall>out\<in>set outs. distinct (map track_id out) \<and> (\<forall>t\<in>set out. is_activated t \<and> state t = Tracked))"
  using assms
proof (induction frames arbitrary: bt cnt)
  case (Cons fr frames)
  obtain objects fps nf where fr: "fr = (objects, fps, nf)" by (cases fr) auto
  obtain out bt' cnt' where u: "bt_update solve objects fps nf (bt, cnt) = Some (out, bt', cnt')"
    and inv: "bt_inv (bt', cnt')" and m: "bt_match_thresh bt' = bt_match_thresh bt"
    and out: "out = filter is_activated (bt_tracked bt')"
    using bt_update_ok [OF Cons.prems] by blast
  from Cons.IH [OF inv] m Cons.prems obtain outs st' where
    r: "bt_run solve frames (bt', cnt') = Some (outs, st')" "bt_inv st'" "length outs = length frames"
      "\<forall>out\<in>set outs. distinct (map track_id out) \<and> (\<forall>t\<in>set out. is_activated t \<and> state t = Tracked)"
    by auto
  have "distinct (map track_id out) \<and> (\<forall>t\<in>set out. is_activated t \<and> state t = Tracked)"
    using inv by (auto simp: out bt_inv_def distinct_map_filter)
  then show ?case using r by (simp add: fr u)
qed simp

section \<open>A frame without detections\<close>

text \<open>Loops over distinct positions of a list, and over references to them that collect changed copies.\<close>

lemma fold_update_where:
  "fold (\<lambda>i ys. ys[i := f (ys ! i)]) (idx_where P xs) xs = map (\<lambda>t. if P t then f t else t) xs"
proof -
  have l: "length (fold (\<lambda>i ys. ys[i := f (ys ! i)]) js ys) = length ys" for js ys
    by (induction js arbitrary: ys) simp_all
  have "distinct js \<Longrightarrow> k < length ys \<Longrightarrow>
      fold (\<lambda>i ys. ys[i := f (ys ! i)]) js ys ! k = (if k \<in> set js then f (ys ! k) else ys ! k)" for js ys k
  proof (induction js arbitrary: ys)
    case (Cons a js)
    then show ?case by (cases "k = a") simp_all
  qed simp
  from this [of "idx_where P xs"] show ?thesis by (intro nth_equalityI) (simp_all add: l)
qed

lemma map_idx_where: "map (\<lambda>i. f (xs ! i)) (idx_where P xs) = map f (filter P xs)"
proof -
  have "map ((!) xs) (idx_where P xs) = filter P (map ((!) xs) [0..<length xs])"
    by (simp add: idx_where_def filter_map comp_def)
  then have "map f (map ((!) xs) (idx_where P xs)) = map f (filter P xs)" by (simp only: map_nth)
  then show ?thesis by (simp add: comp_def)
qed

lemma fold_indices: "fold (\<lambda>i. g (xs ! i)) [0..<length xs] = fold g xs"
proof -
  have "fold g (map ((!) xs) [0..<length xs]) = fold (g \<circ> (!) xs) [0..<length xs]" by (rule fold_map)
  then show ?thesis by (simp add: map_nth comp_def)
qed

lemma predict_all:
  "multi_predict (map InTracked (idx_where P (wk_tracked w)) @ map InLost [0..<length (wk_lost w)]) w =
     w\<lparr>wk_tracked := map (\<lambda>t. if P t then predict_one t else t) (wk_tracked w), wk_lost := map predict_one (wk_lost w)\<rparr>"
proof -
  have t: "fold (modify_ref f) (map InTracked js) w = w\<lparr>wk_tracked := fold (\<lambda>i ys. ys[i := f (ys ! i)]) js (wk_tracked w)\<rparr>" for f js w
    by (induction js arbitrary: w) simp_all
  have l: "fold (modify_ref f) (map InLost js) w = w\<lparr>wk_lost := fold (\<lambda>i ys. ys[i := f (ys ! i)]) js (wk_lost w)\<rparr>" for f js w
    by (induction js arbitrary: w) simp_all
  have "idx_where (\<lambda>t. True) xs = [0..<length xs]" for xs :: "strack list" by (simp add: idx_where_def)
  with fold_update_where [of predict_one "\<lambda>t. True" "wk_lost w"]
  have "fold (\<lambda>i ys. ys[i := predict_one (ys ! i)]) [0..<length (wk_lost w)] (wk_lost w) = map predict_one (wk_lost w)" by simp
  then show ?thesis by (simp add: multi_predict_def t l fold_update_where)
qed

lemma lose_all:
  assumes "\<forall>t\<in>set (wk_tracked w). P t \<longrightarrow> state t \<noteq> Lost"
  shows "fold (lose_step (map InTracked (idx_where P (wk_tracked w)))) [0..<length (idx_where P (wk_tracked w))] w =
     w\<lparr>wk_tracked := map (\<lambda>t. if P t then mark_lost t else t) (wk_tracked w),
       wk_newly_lost := wk_newly_lost w @ map mark_lost (filter P (wk_tracked w))\<rparr>"
proof -
  have "distinct js \<Longrightarrow> \<forall>i\<in>set js. i < length (wk_tracked w) \<and> state (wk_tracked w ! i) \<noteq> Lost \<Longrightarrow>
     fold (\<lambda>r. lose_step [r] 0) (map InTracked js) w =
     w\<lparr>wk_tracked := fold (\<lambda>i ys. ys[i := mark_lost (ys ! i)]) js (wk_tracked w),
       wk_newly_lost := wk_newly_lost w @ map (\<lambda>i. mark_lost (wk_tracked w ! i)) js\<rparr>" for js w
  proof (induction js arbitrary: w)
    case (Cons i js)
    let ?w = "w\<lparr>wk_tracked := (wk_tracked w)[i := mark_lost (wk_tracked w ! i)], wk_newly_lost := wk_newly_lost w @ [mark_lost (wk_tracked w ! i)]\<rparr>"
    have "lose_step [InTracked i] 0 w = ?w" using Cons.prems by (simp add: lose_step_def Let_def)
    moreover have "map (\<lambda>k. mark_lost (wk_tracked ?w ! k)) js = map (\<lambda>k. mark_lost (wk_tracked w ! k)) js"
      using Cons.prems by (intro map_cong) (auto simp: nth_list_update)
    moreover have "\<forall>k\<in>set js. k < length (wk_tracked ?w) \<and> state (wk_tracked ?w ! k) \<noteq> Lost" using Cons.prems by (auto simp: nth_list_update)
    ultimately show ?case using Cons.IH [of ?w] Cons.prems by simp
  qed simp
  from this [of "idx_where P (wk_tracked w)" w] assms
  have "fold (\<lambda>r. lose_step [r] 0) (map InTracked (idx_where P (wk_tracked w))) w =
     w\<lparr>wk_tracked := map (\<lambda>t. if P t then mark_lost t else t) (wk_tracked w),
       wk_newly_lost := wk_newly_lost w @ map mark_lost (filter P (wk_tracked w))\<rparr>"
    by (simp add: fold_update_where map_idx_where)
  moreover have "fold (lose_step rs) [0..<length rs] w = fold (\<lambda>r. lose_step [r] 0) rs w" for rs
  proof -
    have "fold (lose_step rs) [0..<length rs] w = fold (\<lambda>i. lose_step [rs ! i] 0) [0..<length rs] w"
      by (rule fold_cong) (simp_all add: lose_step_def fun_eq_iff)
    then show ?thesis by (simp only: fold_indices [of "\<lambda>r. lose_step [r] 0" rs])
  qed
  note this [of "map InTracked (idx_where P (wk_tracked w))"]
  ultimately show ?thesis by simp
qed

lemma remove_all:
  "fold (remove_step (map InTracked (idx_where P (wk_tracked w)))) [0..<length (idx_where P (wk_tracked w))] w =
     w\<lparr>wk_tracked := map (\<lambda>t. if P t then mark_removed t else t) (wk_tracked w),
       wk_removed := wk_removed w @ map mark_removed (filter P (wk_tracked w))\<rparr>"
proof -
  have "distinct js \<Longrightarrow> \<forall>i\<in>set js. i < length (wk_tracked w) \<Longrightarrow>
     fold (\<lambda>r. remove_step [r] 0) (map InTracked js) w =
     w\<lparr>wk_tracked := fold (\<lambda>i ys. ys[i := mark_removed (ys ! i)]) js (wk_tracked w),
       wk_removed := wk_removed w @ map (\<lambda>i. mark_removed (wk_tracked w ! i)) js\<rparr>" for js w
  proof (induction js arbitrary: w)
    case (Cons i js)
    let ?w = "w\<lparr>wk_tracked := (wk_tracked w)[i := mark_removed (wk_tracked w ! i)], wk_removed := wk_removed w @ [mark_removed (wk_tracked w ! i)]\<rparr>"
    have "remove_step [InTracked i] 0 w = ?w" using Cons.prems by (simp add: remove_step_def Let_def)
    moreover have "map (\<lambda>k. mark_removed (wk_tracked ?w ! k)) js = map (\<lambda>k. mark_removed (wk_tracked w ! k)) js"
      using Cons.prems by (intro map_cong) (auto simp: nth_list_update)
    ultimately show ?case using Cons.IH [of ?w] Cons.prems by simp
  qed simp
  from this [of "idx_where P (wk_tracked w)" w]
  have "fold (\<lambda>r. remove_step [r] 0) (map InTracked (idx_where P (wk_tracked w))) w =
     w\<lparr>wk_tracked := map (\<lambda>t. if P t then mark_removed t else t) (wk_tracked w),
       wk_removed := wk_removed w @ map mark_removed (filter P (wk_tracked w))\<rparr>"
    by (simp add: fold_update_where map_idx_where)
  moreover have "fold (remove_step rs) [0..<length rs] w = fold (\<lambda>r. remove_step [r] 0) rs w" for rs
  proof -
    have "fold (remove_step rs) [0..<length rs] w = fold (\<lambda>i. remove_step [rs ! i] 0) [0..<length rs] w"
      by (rule fold_cong) (simp_all add: remove_step_def fun_eq_iff)
    then show ?thesis by (simp only: fold_indices [of "\<lambda>r. remove_step [r] 0" rs])
  qed
  note this [of "map InTracked (idx_where P (wk_tracked w))"]
  ultimately show ?thesis by simp
qed

lemma expire_all:
  "fold (expire_step fid mx) [0..<length (wk_lost w)] w =
     w\<lparr>wk_lost := map (\<lambda>t. if mx < fid - frame_id t then mark_removed t else t) (wk_lost w),
       wk_removed := wk_removed w @ map mark_removed (filter (\<lambda>t. mx < fid - frame_id t) (wk_lost w))\<rparr>"
proof -
  let ?F = "\<lambda>t. if mx < fid - frame_id t then mark_removed t else t" and ?E = "\<lambda>t. mx < fid - frame_id t"
  have "k \<le> length (wk_lost w) \<Longrightarrow> fold (expire_step fid mx) [0..<k] w =
     w\<lparr>wk_lost := map ?F (take k (wk_lost w)) @ drop k (wk_lost w),
       wk_removed := wk_removed w @ map mark_removed (filter ?E (take k (wk_lost w)))\<rparr>" for k
  proof (induction k)
    case (Suc k)
    have "drop k (wk_lost w) = wk_lost w ! k # drop (Suc k) (wk_lost w)" using Suc.prems by (simp add: Cons_nth_drop_Suc)
    then show ?case using Suc by (simp add: expire_step_def end_frame_def Let_def take_Suc_conv_app_nth nth_append list_update_append)
  qed simp
  from this [of "length (wk_lost w)"] show ?thesis by simp
qed

text \<open>All tracks of an invariant tracker are in the pool: the confirmed ones, then the lost ones.\<close>

lemma joint_refs_all:
  assumes "distinct (map track_id (bt_tracked bt @ bt_lost bt))"
  shows "joint_refs (start_work bt cnt) (map InTracked (idx_where P (bt_tracked bt))) =
     map InTracked (idx_where P (bt_tracked bt)) @ map InLost [0..<length (bt_lost bt)]"
proof -
  let ?w = "start_work bt cnt" and ?ls = "bt_lost bt" and ?rs = "map InTracked (idx_where P (bt_tracked bt))"
  let ?g = "\<lambda>i (res, ex). let tid = track_id (wk_lost ?w ! i) in if tid \<notin> ex then (res @ [InLost i], insert tid ex) else (res, ex)"
  have f: "fold (\<lambda>r (res, ex). (res @ [r], insert (track_id (deref ?w r)) ex)) rs (res, ex) = (res @ rs, ex \<union> (track_id \<circ> deref ?w) ` set rs)" for rs res ex
    by (induction rs arbitrary: res ex) auto
  define ex where "ex = (track_id \<circ> deref ?w) ` set ?rs"
  have "ex \<subseteq> ids (bt_tracked bt)" by (auto simp: ex_def start_work_def)
  then have ex: "ex \<inter> ids ?ls = {}" using assms by auto
  have d: "distinct (map track_id ?ls)" using assms by simp
  have "k \<le> length ?ls \<Longrightarrow> fold ?g [0..<k] (?rs, ex) = (?rs @ map InLost [0..<k], ex \<union> ids (take k ?ls))" for k
  proof (induction k)
    case (Suc k)
    have "track_id (?ls ! k) \<notin> ids (take k ?ls)"
    proof
      assume "track_id (?ls ! k) \<in> ids (take k ?ls)"
      then obtain i where "i < k" "track_id (?ls ! i) = track_id (?ls ! k)" using Suc.prems by (auto simp: in_set_conv_nth)
      then show False using d Suc.prems nth_eq_iff_index_eq [OF d, of i k] by simp
    qed
    moreover have "track_id (?ls ! k) \<notin> ex" using ex Suc.prems by auto
    ultimately show ?case using Suc by (simp add: start_work_def take_Suc_conv_app_nth Let_def)
  qed simp
  note second = this [of "length ?ls"]
  have "fold (\<lambda>r (res, ex). (res @ [r], insert (track_id (deref ?w r)) ex)) ?rs ([], {}) = (?rs, ex)" by (simp only: f ex_def) simp
  then show ?thesis using second by (simp add: joint_refs_def) (simp add: start_work_def)
qed

text \<open>A lost track after its frame: predicted, and marked when it has been lost for too long.\<close>

definition expired :: "byte_tracker \<Rightarrow> strack \<Rightarrow> bool" where
  "expired bt t \<longleftrightarrow> bt_max_time_lost bt < bt_frame_id bt + 1 - frame_id t"

definition grown_old :: "byte_tracker \<Rightarrow> strack \<Rightarrow> strack" where
  "grown_old bt t = (if expired bt t then mark_removed (predict_one t) else predict_one t)"

lemma empty_frame:
  assumes inv: "bt_inv (bt, cnt)"
  shows "bt_update solve [] fps nf (bt, cnt) = Some ([], bt\<lparr>bt_frame_id := bt_frame_id bt + 1, bt_tracked := [],
      bt_lost := filter (\<lambda>t. track_id t \<notin> ids (bt_removed bt))
        (map (grown_old bt) (bt_lost bt) @ map (mark_lost \<circ> predict_one) (filter is_activated (bt_tracked bt))),
      bt_removed := bt_removed bt @ map mark_removed (filter (\<lambda>t. \<not> is_activated t) (bt_tracked bt)) @
        map (grown_old bt) (filter (expired bt) (bt_lost bt))\<rparr>, cnt)"
proof -
  let ?fid = "bt_frame_id bt + 1" and ?ts = "bt_tracked bt" and ?ls = "bt_lost bt"
  let ?cf = "map InTracked (idx_where is_activated ?ts)" and ?un = "map InTracked (idx_where (\<lambda>t. \<not> is_activated t) ?ts)"
  define p where "p = ?cf @ map InLost [0..<length ?ls]"
  have st: "\<forall>t\<in>set ?ts. state t = Tracked" "\<forall>t\<in>set ?ls. state t \<noteq> Tracked" using inv by (auto simp: bt_inv_def)
  have none: "iou_distance xs [] = ([], length xs, 0)" "iou_distance2 [] xs = []" for xs
    by (simp_all add: iou_distance_def iou_distance2_def ious_def)
  have la: "linear_assignment [] n m th = Some ([], [0..<n], [0..<m])" for n m th
    by (simp add: linear_assignment_def)
  define w0 where "w0 = start_work bt cnt"
  have w0: "wk_tracked w0 = ?ts" "wk_lost w0 = ?ls" by (simp_all add: w0_def start_work_def)
  have pool: "joint_refs w0 ?cf = p" unfolding w0_def p_def by (rule joint_refs_all) (use inv in \<open>simp add: bt_inv_def\<close>)
  define w1 where "w1 = w0\<lparr>wk_tracked := map (\<lambda>t. if is_activated t then predict_one t else t) ?ts, wk_lost := map predict_one ?ls\<rparr>"
  have w1: "multi_predict p w0 = w1" using predict_all [of is_activated w0] by (simp add: w0 w1_def p_def)
  have "filter (\<lambda>r. state (deref w1 r) = Tracked) p = ?cf"
    using st by (auto simp: w1_def p_def filter_empty_conv filter_id_conv)
  then have fa: "first_association solve ?fid th p [] w1 = Some (w1, [], ?cf)" for th
    by (simp add: first_association_def none la map_nth)
  have i1: "idx_where is_activated (wk_tracked w1) = idx_where is_activated ?ts"
    by (auto simp: w1_def idx_where_def intro!: filter_cong split: if_splits)
  define w2 where "w2 = w1\<lparr>wk_tracked := map (\<lambda>t. if is_activated t then mark_lost (predict_one t) else t) ?ts,
      wk_newly_lost := map (mark_lost \<circ> predict_one) (filter is_activated ?ts)\<rparr>"
  have "fold (lose_step ?cf) [0..<length (idx_where is_activated ?ts)] w1 = w2"
  proof -
    have "map (\<lambda>t. if is_activated t then mark_lost t else t) (map (\<lambda>t. if is_activated t then predict_one t else t) xs) =
        map (\<lambda>t. if is_activated t then mark_lost (predict_one t) else t) xs" for xs
      by (induction xs) simp_all
    moreover have "map mark_lost (filter is_activated (map (\<lambda>t. if is_activated t then predict_one t else t) xs)) =
        map (mark_lost \<circ> predict_one) (filter is_activated xs)" for xs
      by (induction xs) simp_all
    moreover have "\<forall>t\<in>set (wk_tracked w1). is_activated t \<longrightarrow> state t \<noteq> Lost" using st(1) by (auto simp: w1_def)
    ultimately show ?thesis using lose_all [of w1 is_activated] unfolding i1
      by (simp add: w2_def w1_def w0_def start_work_def)
  qed
  then have sa: "second_association solve ?fid ?cf [] w1 = Some w2" by (simp add: second_association_def none la)
  have i2: "idx_where (\<lambda>t. \<not> is_activated t) (wk_tracked w2) = idx_where (\<lambda>t. \<not> is_activated t) ?ts"
    by (auto simp: w2_def idx_where_def intro!: filter_cong split: if_splits)
  define w3 where "w3 = w2\<lparr>wk_tracked := map (\<lambda>t. if is_activated t then mark_lost (predict_one t) else mark_removed t) ?ts,
      wk_removed := map mark_removed (filter (\<lambda>t. \<not> is_activated t) ?ts)\<rparr>"
  have "fold (remove_step ?un) [0..<length (idx_where (\<lambda>t. \<not> is_activated t) ?ts)] w2 = w3"
  proof -
    have "filter (\<lambda>t. \<not> is_activated t) (map (\<lambda>t. if is_activated t then mark_lost (predict_one t) else t) xs) = filter (\<lambda>t. \<not> is_activated t) xs" for xs
      by (induction xs) simp_all
    moreover have "map (\<lambda>t. if \<not> is_activated t then mark_removed t else t) (map (\<lambda>t. if is_activated t then mark_lost (predict_one t) else t) xs) =
        map (\<lambda>t. if is_activated t then mark_lost (predict_one t) else mark_removed t) xs" for xs
      by (induction xs) simp_all
    ultimately show ?thesis using remove_all [of "\<lambda>t. \<not> is_activated t" w2] unfolding i2
      by (simp add: w3_def w2_def w1_def w0_def start_work_def)
  qed
  then have ta: "third_association solve ?fid ?un [] w2 = Some (w3, [])" by (simp add: third_association_def none la)
  define w4 where "w4 = w3\<lparr>wk_lost := map (grown_old bt) ?ls,
      wk_removed := map mark_removed (filter (\<lambda>t. \<not> is_activated t) ?ts) @ map (grown_old bt) (filter (expired bt) ?ls)\<rparr>"
  have ex: "fold (expire_step ?fid (bt_max_time_lost bt)) [0..<length (wk_lost w3)] w3 = w4"
  proof -
    have "map (\<lambda>t. if bt_max_time_lost bt < ?fid - frame_id t then mark_removed t else t) (map predict_one xs) = map (grown_old bt) xs" for xs
      by (simp add: grown_old_def expired_def)
    moreover have "map mark_removed (filter (\<lambda>t. bt_max_time_lost bt < ?fid - frame_id t) (map predict_one xs)) = map (grown_old bt) (filter (expired bt) xs)" for xs
      by (induction xs) (simp_all add: grown_old_def expired_def)
    moreover have "wk_lost w3 = map predict_one ?ls" by (simp add: w3_def w2_def w1_def)
    ultimately show ?thesis unfolding expire_all by (simp add: w4_def w3_def)
  qed
  have "filter (\<lambda>t. state t = Tracked) (wk_tracked w4) = []" by (auto simp: w4_def w3_def filter_empty_conv)
  moreover have "joint_stracks [] [] = []" by (simp add: joint_stracks_def)
  moreover have "remove_duplicate_stracks [] xs = ([], xs)" for xs by (simp add: remove_duplicate_stracks_def none map_nth)
  moreover have "wk_activated w4 = []" "wk_refind w4 = []" by (simp_all add: w4_def w3_def w2_def w1_def w0_def start_work_def)
  ultimately have mg: "merge_stage w4 (bt_removed bt) = ([], filter (\<lambda>t. track_id t \<notin> ids (bt_removed bt)) (wk_lost w4 @ wk_newly_lost w4), bt_removed bt @ wk_removed w4)"
    by (simp add: merge_stage_def sub_stracks_def Let_def)
  have "split_detections th [] = ([], [])" for th by (simp add: split_detections_def)
  then have "bt_update solve [] fps nf (bt, cnt) = Some ([], bt\<lparr>bt_frame_id := ?fid, bt_tracked := [],
      bt_lost := filter (\<lambda>t. track_id t \<notin> ids (bt_removed bt)) (wk_lost w4 @ wk_newly_lost w4),
      bt_removed := bt_removed bt @ wk_removed w4\<rparr>, wk_count w4)"
    using fa sa ta ex mg pool w1
    by (simp add: bt_update_def split_tracked_def output_stage_def Let_def w0_def [unfolded start_work_def, symmetric])
  then show ?thesis by (simp add: w4_def w3_def w2_def w1_def w0_def start_work_def)
qed

section \<open>Properties\<close>

text \<open>
  C6.  One frame of ByteTrack always produces a result, and keeps the tracker well formed: no two
  tracks of the tracked and lost lists share an id, the ids are the ones already handed out, the
  tracked ones are in state Tracked and no lost one is; the id counter never goes down.
\<close>

theorem bt_update_invariant:
  assumes "bt_inv (bt, cnt)" "0 \<le> bt_match_thresh bt" "bt_match_thresh bt < LARGE"
  shows "\<exists>out bt' cnt'. bt_update solve objects fps nf (bt, cnt) = Some (out, bt', cnt') \<and>
     bt_inv (bt', cnt') \<and> cnt \<le> cnt' \<and> out = filter is_activated (bt_tracked bt')"
  using bt_update_ok [OF assms, of solve objects fps nf] by metis

theorem bt_update_invariant_witness:
  "\<exists>out bt' cnt'. bt_update diag_solve [\<lparr>ob_rect = (0, 0, 4, 8), ob_label = 0, ob_prob = 9/10, ob_name = ''p''\<rparr>]
       30 2 (new_byte_tracker 30 30 (1/2) (6/10) (8/10), 0) = Some (out, bt', cnt') \<and> bt_inv (bt', cnt')"
  using bt_update_invariant [OF new_byte_tracker_inv [of 30 30 "1/2" "6/10" "8/10" 0],
      of diag_solve "[\<lparr>ob_rect = (0, 0, 4, 8), ob_label = 0, ob_prob = 9/10, ob_name = ''p''\<rparr>]" 30 2]
  by (auto simp: new_byte_tracker_def LARGE_def)

text \<open>
  C7.  From a fresh tracker every sequence of frames can be processed, and what each frame reports
  are confirmed tracks with pairwise distinct ids.
\<close>

theorem bt_run_reports_distinct:
  assumes "0 \<le> match_thresh" "match_thresh < LARGE"
  shows "\<exists>outs st'. bt_run solve frames (new_byte_tracker rate buffer track_thresh high_thresh match_thresh, cnt) =
       Some (outs, st') \<and> length outs = length frames \<and>
     (\<forall>out\<in>set outs. distinct (map track_id out) \<and> (\<forall>t\<in>set out. is_activated t \<and> state t = Tracked))"
proof -
  let ?bt = "new_byte_tracker rate buffer track_thresh high_thresh match_thresh"
  have "bt_match_thresh ?bt = match_thresh" by (simp add: new_byte_tracker_def)
  then show ?thesis using bt_run_ok [OF new_byte_tracker_inv [of rate buffer track_thresh high_thresh match_thresh cnt]] assms
    by fastforce
qed

theorem bt_run_reports_distinct_witness:
  "\<exists>outs st'. bt_run diag_solve [([], 30, 1), ([], 30, 2)] (new_byte_tracker 30 30 (1/2) (6/10) (8/10), 0) =
     Some (outs, st') \<and> length outs = 2"
  using bt_run_reports_distinct [of "8/10" diag_solve "[([], 30, 1), ([], 30, 2)]" 30 30 "1/2" "6/10" 0]
  by (auto simp: LARGE_def)

text \<open>
  Merging two lists of tracks keeps the first, adds of the second only ids the first does not
  have, and the difference removes exactly the tracks whose id occurs in the second.
\<close>

lemma joint_sub_stracks:
  assumes "distinct (map track_id a)"
  shows "distinct (map track_id (joint_stracks a b)) \<and> set a \<subseteq> set (joint_stracks a b) \<and>
     set (joint_stracks a b) \<subseteq> set a \<union> set b \<and>
     track_id ` set (joint_stracks a b) = track_id ` set a \<union> track_id ` set b \<and>
     set (sub_stracks a b) = {t \<in> set a. track_id t \<notin> track_id ` set b}"
  using joint_stracks_ok [of a b] sub_stracks_ok(1) [of a b] assms by blast

text \<open>
  C25.  A frame without detections, on any tracker in order: it reports nothing; the confirmed tracks
  become lost and the unconfirmed ones removed; a lost track stays lost, unless its id is already in the removed list,
  when it is dropped.  A lost track whose time is over is marked Removed and recorded as removed, but
  the list it is filtered against is the one of the earlier frames: it stays in the lost list too,
  in state Removed, for the next frame to match.
\<close>

theorem expired_track_stays_lost:
  assumes "bt_inv (bt, cnt)"
  shows "\<exists>bt'. bt_update solve [] fps nf (bt, cnt) = Some ([], bt', cnt) \<and> bt_tracked bt' = [] \<and>
     bt_lost bt' = filter (\<lambda>t. track_id t \<notin> ids (bt_removed bt))
       (map (grown_old bt) (bt_lost bt) @ map (mark_lost \<circ> predict_one) (filter is_activated (bt_tracked bt))) \<and>
     bt_removed bt' = bt_removed bt @ map mark_removed (filter (\<lambda>t. \<not> is_activated t) (bt_tracked bt)) @
       map (grown_old bt) (filter (expired bt) (bt_lost bt)) \<and>
     (\<forall>t\<in>set (bt_lost bt). expired bt t \<and> track_id t \<notin> ids (bt_removed bt) \<longrightarrow>
       (\<exists>t'\<in>set (bt_lost bt') \<inter> set (bt_removed bt'). state t' = Removed \<and> track_id t' = track_id t))"
proof -
  have "\<exists>t'\<in>set (filter (\<lambda>t. track_id t \<notin> ids (bt_removed bt))
       (map (grown_old bt) (bt_lost bt) @ map (mark_lost \<circ> predict_one) (filter is_activated (bt_tracked bt)))) \<inter>
      set (bt_removed bt @ map mark_removed (filter (\<lambda>t. \<not> is_activated t) (bt_tracked bt)) @ map (grown_old bt) (filter (expired bt) (bt_lost bt))).
      state t' = Removed \<and> track_id t' = track_id t"
    if "t \<in> set (bt_lost bt)" "expired bt t" "track_id t \<notin> ids (bt_removed bt)" for t
    using that by (intro bexI [of _ "grown_old bt t"]) (auto simp: grown_old_def)
  then show ?thesis unfolding empty_frame [OF assms] by simp
qed

text \<open>A confirmed track, a lost one whose time is over and a removed one of an earlier frame.\<close>

definition aging_tracker :: byte_tracker where
  "aging_tracker =
     \<lparr>bt_track_thresh = 1/2, bt_high_thresh = 6/10, bt_match_thresh = 8/10, bt_frame_id = 49, bt_max_time_lost = 30,
      bt_tracked = [fst (activate 1 2 (new_strack [50, 0, 4, 8] (9/10) ''p'' 0))],
      bt_lost = [mark_lost (fst (activate 1 1 (new_strack [0, 0, 4, 8] (9/10) ''p'' 0)))],
      bt_removed = [mark_removed (fst (activate 1 0 (new_strack [0, 0, 4, 8] (9/10) ''p'' 0)))]\<rparr>"

theorem expired_track_stays_lost_witness:
  "\<exists>bt'. bt_update diag_solve [] 30 50 (aging_tracker, 3) = Some ([], bt', 3) \<and> bt_tracked bt' = [] \<and>
     (\<exists>t'\<in>set (bt_lost bt'). state t' = Removed \<and> track_id t' = 2) \<and> (\<exists>t'\<in>set (bt_lost bt'). state t' = Lost \<and> track_id t' = 3)"
proof -
  have "bt_inv (aging_tracker, 3)" by (simp add: bt_inv_def aging_tracker_def)
  note expired_track_stays_lost [OF this, of diag_solve 30 50]
  moreover have "expired aging_tracker (hd (bt_lost aging_tracker))" by (simp add: expired_def aging_tracker_def mark_lost_def)
  ultimately show ?thesis by (fastforce simp: aging_tracker_def)
qed

end
