(* ===== verification/Results.thy ===== *)
theory Results imports Prelude begin

text \<open>
  The detection results of \<open>src/inc/postprocess.h\<close>, which the detector hands to a tracker and a
  tracker to the overlay: fixed arrays of 64 results, each with a name of at most 15 characters,
  a box and a trajectory array of 50 points.  An \<open>item_emitter\<close> is a loop that writes a list of
  items into a group, a \<open>group_emitter\<close> one that does so for tracks.
\<close>

section \<open>Data\<close>

definition OBJ_NAME_MAX_SIZE :: nat where "OBJ_NAME_MAX_SIZE = 16"
definition OBJ_NUMB_MAX_SIZE :: nat where "OBJ_NUMB_MAX_SIZE = 64"
definition OBJ_CLASS_NUM :: nat where "OBJ_CLASS_NUM = 80"
definition TRAJECTORY_POINT_MAX_SIZE :: nat where "TRAJECTORY_POINT_MAX_SIZE = 50"
definition NMS_THRESH :: real where "NMS_THRESH = 45/100"
definition BOX_THRESH :: real where "BOX_THRESH = 25/100"
definition PROP_BOX_SIZE :: nat where "PROP_BOX_SIZE = 5 + OBJ_CLASS_NUM"

lemmas result_sizes = OBJ_NAME_MAX_SIZE_def OBJ_NUMB_MAX_SIZE_def TRAJECTORY_POINT_MAX_SIZE_def

record box_rect =
  bx_left :: int
  bx_right :: int
  bx_top :: int
  bx_bottom :: int

record track_point =
  tp_x :: int
  tp_y :: int

record detect_result =
  re_name :: string
  re_class_id :: int
  re_track_id :: int
  re_trajectory_count :: int
  re_trajectory :: "track_point list"
  re_box :: box_rect
  re_prop :: real

record detect_group =
  dg_id :: int
  dg_count :: nat
  dg_results :: "detect_result list"

text \<open>The values \<open>memset(.., 0, ..)\<close> leaves.\<close>

definition zero_point :: track_point where "zero_point = \<lparr>tp_x = 0, tp_y = 0\<rparr>"

definition zero_result :: detect_result where
  "zero_result =
     \<lparr>re_name = [], re_class_id = 0, re_track_id = 0, re_trajectory_count = 0,
      re_trajectory = replicate TRAJECTORY_POINT_MAX_SIZE zero_point,
      re_box = \<lparr>bx_left = 0, bx_right = 0, bx_top = 0, bx_bottom = 0\<rparr>, re_prop = 0\<rparr>"

definition zero_group :: detect_group where
  "zero_group = \<lparr>dg_id = 0, dg_count = 0, dg_results = replicate OBJ_NUMB_MAX_SIZE zero_result\<rparr>"

section \<open>Writing results\<close>

text \<open>\<open>snprintf(buf, n, "%s", s)\<close>: the characters up to a terminator, at most \<open>n - 1\<close>.\<close>

definition c_snprintf :: "nat \<Rightarrow> string \<Rightarrow> string" where
  "c_snprintf n s = take (n - 1) (takeWhile (\<lambda>c. c \<noteq> CHR 0x00) s)"

text \<open>\<open>results[count++] = out\<close>.\<close>

definition add_result :: "detect_result \<Rightarrow> detect_group \<Rightarrow> detect_group" where
  "add_result r g = g\<lparr>dg_results := (dg_results g)[dg_count g := r], dg_count := dg_count g + 1\<rparr>"

definition round_point :: "real \<times> real \<Rightarrow> track_point" where
  "round_point p = \<lparr>tp_x = c_lround (fst p), tp_y = c_lround (snd p)\<rparr>"

text \<open>The last 50 points of a track's history, in order.\<close>

definition copy_trajectory :: "(real \<times> real) list \<Rightarrow> detect_result \<Rightarrow> detect_result" where
  "copy_trajectory trajectory out =
     (let total_points = int (length trajectory);
          keep_points = min total_points (int TRAJECTORY_POINT_MAX_SIZE);
          out = out\<lparr>re_trajectory_count := keep_points\<rparr>;
          start_index = max 0 (total_points - keep_points)
      in fold (\<lambda>i out. out\<lparr>re_trajectory := (re_trajectory out)[i := round_point (trajectory ! (nat start_index + i))]\<rparr>)
           [0..<nat keep_points] out)"

section \<open>Lemmas\<close>

lemma snprintf_length: "0 < n \<Longrightarrow> length (c_snprintf n s) < n"
  by (auto simp: c_snprintf_def)

lemma fold_write:
  "fold (\<lambda>i out. out\<lparr>re_trajectory := (re_trajectory out)[i := f i]\<rparr>) is out =
   out\<lparr>re_trajectory := fold (\<lambda>i xs. xs[i := f i]) is (re_trajectory out)\<rparr>"
  by (induction "is" arbitrary: out) simp_all

lemma fold_write_prefix:
  "n \<le> length xs \<Longrightarrow> fold (\<lambda>i xs. xs[i := f i]) [0..<n] xs = map f [0..<n] @ drop n xs"
  by (induction n) (simp_all add: list_update_append Cons_nth_drop_Suc [symmetric])

lemma copy_trajectory_eq:
  assumes "length (re_trajectory out) = TRAJECTORY_POINT_MAX_SIZE"
  shows "copy_trajectory tr out = out\<lparr>re_trajectory_count := int (min (length tr) 50),
    re_trajectory := map round_point (drop (length tr - 50) tr) @ drop (min (length tr) 50) (re_trajectory out)\<rparr>"
proof -
  let ?n = "min (length tr) 50"
  have n: "nat (min (int (length tr)) (int TRAJECTORY_POINT_MAX_SIZE)) = ?n"
    "nat (max 0 (int (length tr) - min (int (length tr)) (int TRAJECTORY_POINT_MAX_SIZE))) = length tr - 50"
    by (auto simp: result_sizes min_def max_def)
  have "map (\<lambda>i. round_point (tr ! (length tr - 50 + i))) [0..<?n] = map round_point (drop (length tr - 50) tr)"
    by (rule nth_equalityI) auto
  then show ?thesis
    using assms fold_write_prefix [of ?n "re_trajectory out" "\<lambda>i. round_point (tr ! (length tr - 50 + i))"]
    unfolding copy_trajectory_def Let_def fold_write n by (simp add: result_sizes min_def)
qed

definition result_ok :: "detect_result \<Rightarrow> bool" where
  "result_ok r \<longleftrightarrow> length (re_name r) < OBJ_NAME_MAX_SIZE \<and> length (re_trajectory r) = TRAJECTORY_POINT_MAX_SIZE \<and>
     0 \<le> re_trajectory_count r \<and> re_trajectory_count r \<le> int TRAJECTORY_POINT_MAX_SIZE"

definition group_ok :: "detect_group \<Rightarrow> bool" where
  "group_ok g \<longleftrightarrow> length (dg_results g) = OBJ_NUMB_MAX_SIZE \<and> dg_count g \<le> OBJ_NUMB_MAX_SIZE \<and> (\<forall>r\<in>set (dg_results g). result_ok r)"

lemma zero_result_ok: "result_ok zero_result"
  by (simp add: result_ok_def zero_result_def result_sizes)

lemma zero_group_ok: "group_ok (zero_group\<lparr>dg_id := i\<rparr>)"
  by (simp add: group_ok_def zero_group_def zero_result_ok)

lemma copy_trajectory_ok:
  assumes "result_ok out"
  shows "result_ok (copy_trajectory tr out)"
proof -
  have "length (re_trajectory out) = TRAJECTORY_POINT_MAX_SIZE" using assms by (simp add: result_ok_def)
  then show ?thesis using assms unfolding copy_trajectory_eq [OF \<open>length _ = _\<close>]
    by (auto simp: result_ok_def result_sizes min_def)
qed

text \<open>The results a group lists.\<close>

definition listed :: "detect_group \<Rightarrow> detect_result list" where
  "listed g = take (dg_count g) (dg_results g)"

section \<open>Emitters\<close>

text \<open>
  A loop that writes items into a group: it stops at 64 results, skips the items that are not
  kept and appends the rendering of the others, which is well formed for a valid item.
\<close>

locale item_emitter =
  fixes emit :: "'t list \<Rightarrow> detect_group \<Rightarrow> detect_group" and keep :: "'t \<Rightarrow> bool" and render :: "'t \<Rightarrow> detect_result"
    and valid :: "'t \<Rightarrow> bool"
  assumes emit_nil: "emit [] g = g"
    and emit_cons: "emit (t # ts) g =
      (if dg_count g \<ge> OBJ_NUMB_MAX_SIZE then g else if keep t then emit ts (add_result (render t) g) else emit ts g)"
    and render_ok: "valid t \<Longrightarrow> result_ok (render t)"
begin

lemma emit_steps:
  "\<not> dg_count g < OBJ_NUMB_MAX_SIZE \<Longrightarrow> emit (t # ts) g = g"
  "dg_count g < OBJ_NUMB_MAX_SIZE \<Longrightarrow> \<not> keep t \<Longrightarrow> emit (t # ts) g = emit ts g"
  "dg_count g < OBJ_NUMB_MAX_SIZE \<Longrightarrow> keep t \<Longrightarrow> emit (t # ts) g = emit ts (add_result (render t) g)"
  by (simp_all add: emit_cons)

lemma add_listed:
  assumes "dg_count g < OBJ_NUMB_MAX_SIZE" "group_ok g" "valid t"
  shows "group_ok (add_result (render t) g)" "listed (add_result (render t) g) = listed g @ [render t]"
  using assms render_ok [of t] set_update_subset_insert [of "dg_results g" "dg_count g" "render t"]
  by (auto simp: group_ok_def add_result_def listed_def take_Suc_conv_app_nth)

lemma add_count: "dg_count (add_result r g) = Suc (dg_count g)" "dg_id (add_result r g) = dg_id g"
  by (simp_all add: add_result_def)

lemma emit_listed:
  assumes "group_ok g" "\<forall>t\<in>set ts. valid t"
  shows "listed (emit ts g) = listed g @ take (OBJ_NUMB_MAX_SIZE - dg_count g) (map render (filter keep ts)) \<and>
     group_ok (emit ts g) \<and> dg_id (emit ts g) = dg_id g \<and>
     dg_count (emit ts g) = min OBJ_NUMB_MAX_SIZE (dg_count g + length (filter keep ts))"
  using assms
proof (induction ts arbitrary: g)
  case Nil
  then show ?case by (auto simp: emit_nil group_ok_def)
next
  case (Cons t ts)
  show ?case
  proof (cases "dg_count g < OBJ_NUMB_MAX_SIZE")
    case True
    then obtain k where k: "OBJ_NUMB_MAX_SIZE - dg_count g = Suc k" "OBJ_NUMB_MAX_SIZE - Suc (dg_count g) = k"
      by (metis Suc_diff_Suc)
    have v: "valid t" "\<forall>t\<in>set ts. valid t" using Cons.prems(2) by simp_all
    note a = add_listed [OF True Cons.prems(1) v(1)]
    show ?thesis
    proof (cases "keep t")
      case kp: True
      show ?thesis using Cons.IH [OF a(1) v(2)] a(2) k kp
        by (simp add: emit_steps(3) [OF True kp] add_count)
    next
      case False
      then show ?thesis using Cons.IH [OF Cons.prems(1) v(2)] by (simp add: emit_steps(2) [OF True False])
    qed
  next
    case False
    then show ?thesis using Cons.prems(1) by (simp add: emit_steps(1) group_ok_def)
  qed
qed

lemma emit_from_empty:
  assumes "\<forall>t\<in>set ts. valid t"
  shows "group_ok (emit ts (zero_group\<lparr>dg_id := i\<rparr>)) \<and> dg_id (emit ts (zero_group\<lparr>dg_id := i\<rparr>)) = i \<and>
   listed (emit ts (zero_group\<lparr>dg_id := i\<rparr>)) = map render (take OBJ_NUMB_MAX_SIZE (filter keep ts)) \<and>
   dg_count (emit ts (zero_group\<lparr>dg_id := i\<rparr>)) = min OBJ_NUMB_MAX_SIZE (length (filter keep ts))"
proof -
  have "dg_count (zero_group\<lparr>dg_id := i\<rparr>) = 0" "listed (zero_group\<lparr>dg_id := i\<rparr>) = []"
    by (simp_all add: zero_group_def listed_def)
  then show ?thesis using emit_listed [OF zero_group_ok assms, of i] by (simp add: take_map)
qed

end

text \<open>An emitter whose rendering is always well formed, as both tracker wrappers have one.\<close>

locale group_emitter =
  fixes emit :: "'t list \<Rightarrow> detect_group \<Rightarrow> detect_group" and keep :: "'t \<Rightarrow> bool" and render :: "'t \<Rightarrow> detect_result"
  assumes emit_nil: "emit [] g = g"
    and emit_cons: "emit (t # ts) g =
      (if dg_count g \<ge> OBJ_NUMB_MAX_SIZE then g else if keep t then emit ts (add_result (render t) g) else emit ts g)"
    and render_ok: "result_ok (render t)"

sublocale group_emitter \<subseteq> items: item_emitter emit keep render "\<lambda>_. True"
  by unfold_locales (simp_all add: emit_nil emit_cons render_ok)

context group_emitter
begin

lemma emit_fresh:
  "group_ok (emit ts (zero_group\<lparr>dg_id := i\<rparr>)) \<and> dg_id (emit ts (zero_group\<lparr>dg_id := i\<rparr>)) = i \<and>
   listed (emit ts (zero_group\<lparr>dg_id := i\<rparr>)) = map render (take OBJ_NUMB_MAX_SIZE (filter keep ts)) \<and>
   dg_count (emit ts (zero_group\<lparr>dg_id := i\<rparr>)) = min OBJ_NUMB_MAX_SIZE (length (filter keep ts))"
  by (rule items.emit_from_empty) simp

end

end
