(* ===== verification/ByteWrapper.thy ===== *)
theory ByteWrapper imports ByteInv Results begin

text \<open>
  Model of \<open>src/src/bytetrack/ByteTrackerWrapper.cpp\<close>: the adapter between the detector's groups and
  ByteTrack.  The static id counter of \<open>STrack\<close> is threaded beside the wrapper.
\<close>

section \<open>The wrapper\<close>

record byte_wrapper =
  bw_tracker :: byte_tracker
  bw_frame_count :: int
  bw_frame_rate :: int

definition new_byte_wrapper :: "int \<Rightarrow> int \<Rightarrow> real \<Rightarrow> real \<Rightarrow> real \<Rightarrow> byte_wrapper" where
  "new_byte_wrapper frame_rate track_buffer track_thresh high_thresh match_thresh =
     \<lparr>bw_tracker = new_byte_tracker (max 1 frame_rate) (max 1 track_buffer) track_thresh high_thresh match_thresh,
      bw_frame_count = 0, bw_frame_rate = max 1 frame_rate\<rparr>"

text \<open>The objects of a group: results with an empty box are dropped.\<close>

definition byte_objects :: "detect_group \<Rightarrow> object_det list" where
  "byte_objects detections =
     concat (map (\<lambda>i.
       let det = dg_results detections ! i;
           x1 = real_of_int (bx_left (re_box det)); y1 = real_of_int (bx_top (re_box det));
           x2 = real_of_int (bx_right (re_box det)); y2 = real_of_int (bx_bottom (re_box det))
       in if x2 \<le> x1 \<or> y2 \<le> y1 then []
          else [\<lparr>ob_rect = (x1, y1, x2 - x1, y2 - y1), ob_label = re_class_id det, ob_prob = re_prop det,
                 ob_name = re_name det\<rparr>])
     [0..<dg_count detections])"

definition byte_render :: "strack \<Rightarrow> detect_result" where
  "byte_render track =
     (let out = zero_result;
          out = out\<lparr>re_name := c_snprintf OBJ_NAME_MAX_SIZE (name track)\<rparr>;
          out = out\<lparr>re_class_id := label track, re_track_id := track_id track, re_prop := score track\<rparr>;
          out = out\<lparr>re_box := \<lparr>bx_left = c_lround (tlbr track ! 0), bx_right = c_lround (tlbr track ! 2),
                             bx_top = c_lround (tlbr track ! 1), bx_bottom = c_lround (tlbr track ! 3)\<rparr>\<rparr>
      in copy_trajectory (trajectory track) out)"

fun byte_emit :: "strack list \<Rightarrow> detect_group \<Rightarrow> detect_group" where
  "byte_emit [] g = g"
| "byte_emit (track # tracks) g =
     (if dg_count g \<ge> OBJ_NUMB_MAX_SIZE then g else byte_emit tracks (add_result (byte_render track) g))"

definition byte_wrapper_update ::
  "(mat \<Rightarrow> mat \<Rightarrow> mat) \<Rightarrow> detect_group \<Rightarrow> byte_wrapper \<times> int \<Rightarrow> (detect_group \<times> byte_wrapper \<times> int) option" where
  "byte_wrapper_update solve detections = (\<lambda>(w, cnt).
     let objects = byte_objects detections;
         frame_count = bw_frame_count w + 1
     in map_option (\<lambda>(tracks, bt, cnt).
          (byte_emit tracks (zero_group\<lparr>dg_id := dg_id detections\<rparr>),
           w\<lparr>bw_frame_count := frame_count, bw_tracker := bt\<rparr>, cnt))
        (bt_update solve objects (bw_frame_rate w) frame_count (bw_tracker w, cnt)))"

text \<open>\<open>Reset\<close> builds the tracker anew with the defaults of the other arguments.\<close>

definition byte_wrapper_reset :: "byte_wrapper \<Rightarrow> byte_wrapper" where
  "byte_wrapper_reset w =
     w\<lparr>bw_frame_count := 0, bw_tracker := new_byte_tracker (bw_frame_rate w) 30 (1/2) (6/10) (8/10)\<rparr>"

section \<open>Lemmas\<close>

lemma byte_render_fields:
  "re_track_id (byte_render t) = track_id t" "re_class_id (byte_render t) = label t"
  "re_prop (byte_render t) = score t" "result_ok (byte_render t)"
proof -
  let ?o = "zero_result\<lparr>re_name := c_snprintf OBJ_NAME_MAX_SIZE (name t), re_class_id := label t, re_track_id := track_id t,
     re_prop := score t, re_box := \<lparr>bx_left = c_lround (tlbr t ! 0), bx_right = c_lround (tlbr t ! 2),
       bx_top = c_lround (tlbr t ! 1), bx_bottom = c_lround (tlbr t ! 3)\<rparr>\<rparr>"
  have r: "byte_render t = copy_trajectory (trajectory t) ?o" by (simp add: byte_render_def Let_def)
  have "length (c_snprintf OBJ_NAME_MAX_SIZE (name t)) < OBJ_NAME_MAX_SIZE" by (rule snprintf_length) (simp add: result_sizes)
  then have ok: "result_ok ?o" using zero_result_ok by (simp add: result_ok_def)
  have len: "length (re_trajectory ?o) = TRAJECTORY_POINT_MAX_SIZE" using ok by (simp only: result_ok_def)
  show "result_ok (byte_render t)" unfolding r by (rule copy_trajectory_ok [OF ok])
  show "re_track_id (byte_render t) = track_id t" "re_class_id (byte_render t) = label t" "re_prop (byte_render t) = score t"
    unfolding r copy_trajectory_eq [OF len] by simp_all
qed

interpretation byte_out: group_emitter byte_emit "\<lambda>_. True" byte_render
  by unfold_locales (simp_all add: byte_render_fields)

definition bw_inv :: "byte_wrapper \<times> int \<Rightarrow> bool" where
  "bw_inv = (\<lambda>(w, cnt). bt_inv (bw_tracker w, cnt) \<and> 0 \<le> bt_match_thresh (bw_tracker w) \<and>
     bt_match_thresh (bw_tracker w) < LARGE)"

lemma new_byte_wrapper_inv:
  "0 \<le> m \<Longrightarrow> m < LARGE \<Longrightarrow> bw_inv (new_byte_wrapper fr tb a b m, cnt)"
  using new_byte_tracker_inv [of "max 1 fr" "max 1 tb" a b m cnt]
  by (simp add: bw_inv_def new_byte_wrapper_def new_byte_tracker_def)

lemma reset_inv: "bw_inv (byte_wrapper_reset w, cnt)"
  using new_byte_tracker_inv [of "bw_frame_rate w" 30 "1/2" "6/10" "8/10" cnt]
  by (simp add: bw_inv_def byte_wrapper_reset_def new_byte_tracker_def LARGE_def)

text \<open>After \<open>Reset\<close> the wrapper is a new one with the default options, whatever it was built with.\<close>

lemma reset_new:
  "0 < bw_frame_rate w \<Longrightarrow> byte_wrapper_reset w = new_byte_wrapper (bw_frame_rate w) 30 (1/2) (6/10) (8/10)"
  by (cases w) (simp add: byte_wrapper_reset_def new_byte_wrapper_def)

lemma byte_update_ok:
  assumes "bw_inv (w, cnt)"
  shows "\<exists>g w' cnt'. byte_wrapper_update solve dets (w, cnt) = Some (g, w', cnt') \<and> bw_inv (w', cnt') \<and> cnt \<le> cnt' \<and>
     bw_frame_rate w' = bw_frame_rate w \<and> group_ok g \<and> dg_id g = dg_id dets \<and>
     distinct (map re_track_id (listed g)) \<and> (\<forall>r\<in>set (listed g). re_track_id r \<le> cnt')"
proof -
  from assms have i: "bt_inv (bw_tracker w, cnt)" "0 \<le> bt_match_thresh (bw_tracker w)" "bt_match_thresh (bw_tracker w) < LARGE"
    by (simp_all add: bw_inv_def)
  from bt_update_ok [OF i] obtain out bt' cnt' where
    u: "bt_update solve (byte_objects dets) (bw_frame_rate w) (bw_frame_count w + 1) (bw_tracker w, cnt) = Some (out, bt', cnt')"
      "bt_inv (bt', cnt')" "cnt \<le> cnt'" "bt_match_thresh bt' = bt_match_thresh (bw_tracker w)"
      "out = filter is_activated (bt_tracked bt')" by blast
  let ?g = "byte_emit out (zero_group\<lparr>dg_id := dg_id dets\<rparr>)"
  note e = byte_out.emit_fresh [of out "dg_id dets"]
  have l: "listed ?g = map byte_render (take OBJ_NUMB_MAX_SIZE out)" using e by simp
  then have ids: "map re_track_id (listed ?g) = map track_id (take OBJ_NUMB_MAX_SIZE out)"
    by (simp add: comp_def byte_render_fields)
  have d: "distinct (map track_id out)" and b: "\<forall>t\<in>set out. track_id t \<le> cnt'"
    using u(2) unfolding u(5) bt_inv_def by (auto simp: distinct_map_filter)
  have "distinct (map re_track_id (listed ?g))" unfolding ids using d by (simp add: take_map [symmetric])
  moreover have "\<forall>r\<in>set (listed ?g). re_track_id r \<le> cnt'" unfolding l using b by (auto simp: byte_render_fields dest: in_set_takeD)
  moreover have "bw_inv (w\<lparr>bw_frame_count := bw_frame_count w + 1, bw_tracker := bt'\<rparr>, cnt')"
    using u(2,4) i by (simp add: bw_inv_def)
  ultimately show ?thesis using u(1,3) e by (simp add: byte_wrapper_update_def)
qed

section \<open>Properties\<close>

text \<open>A session: updates and resets in any order, from a new wrapper.\<close>

inductive byte_session :: "(mat \<Rightarrow> mat \<Rightarrow> mat) \<Rightarrow> byte_wrapper \<times> int \<Rightarrow> byte_wrapper \<times> int \<Rightarrow> bool" for solve st0 where
  opened: "byte_session solve st0 st0"
| update: "byte_session solve st0 st \<Longrightarrow> byte_wrapper_update solve dets st = Some (g, st') \<Longrightarrow> byte_session solve st0 st'"
| reset: "byte_session solve st0 (w, cnt) \<Longrightarrow> byte_session solve st0 (byte_wrapper_reset w, cnt)"

lemma byte_session_inv: "byte_session solve st0 st \<Longrightarrow> bw_inv st0 \<Longrightarrow> bw_inv st"
proof (induction rule: byte_session.induct)
  case (update st dets g st')
  obtain w cnt where st: "st = (w, cnt)" by (cases st)
  then show ?case using byte_update_ok [of w cnt solve dets] update by auto
qed (auto simp: reset_inv)

text \<open>
  C32.  However updates and resets of the ByteTrack wrapper are interleaved, the next \<open>Update\<close> returns
  a well-formed group: at most 64 results, names and trajectories within their arrays, pairwise
  distinct track ids, none beyond the id counter, under the id of the detections.
\<close>

theorem byte_wrapper_safe:
  assumes "byte_session solve (new_byte_wrapper fr tb a b m, c0) (w, cnt)" "0 \<le> m" "m < LARGE"
  shows "\<exists>g w' cnt'. byte_wrapper_update solve dets (w, cnt) = Some (g, w', cnt') \<and> group_ok g \<and> dg_id g = dg_id dets \<and>
     dg_count g \<le> 64 \<and> distinct (map re_track_id (listed g)) \<and> (\<forall>r\<in>set (listed g). re_track_id r \<le> cnt')"
proof -
  have "bw_inv (w, cnt)" using byte_session_inv [OF assms(1) new_byte_wrapper_inv [OF assms(2,3)]] .
  from byte_update_ok [OF this, of solve dets] show ?thesis by (auto simp: group_ok_def OBJ_NUMB_MAX_SIZE_def)
qed

theorem byte_wrapper_safe_witness:
  "\<exists>g w' cnt'. byte_wrapper_update diag_solve (zero_group\<lparr>dg_id := 7\<rparr>) (byte_wrapper_reset (new_byte_wrapper 25 60 (1/2) (6/10) (8/10)), 0)
     = Some (g, w', cnt') \<and> dg_id g = 7 \<and> dg_count g \<le> 64"
proof -
  let ?w = "new_byte_wrapper 25 60 (1/2) (6/10) (8/10)"
  have "byte_session diag_solve (?w, 0) (byte_wrapper_reset ?w, 0)"
    by (rule byte_session.reset [OF byte_session.opened])
  from byte_wrapper_safe [OF this, of "zero_group\<lparr>dg_id := 7\<rparr>"] show ?thesis by (auto simp: LARGE_def)
qed

end
