(* ===== verification/Munkres.thy ===== *)
theory Munkres imports LinAlg begin

text \<open>
  Model of \<open>src/inc/deepsort/munkres.h\<close> and the parts of \<open>matrix.h\<close> it uses, and of
  \<open>HungarianOper::Solve\<close>: the assignment solver of DeepSort.  The mask of the zeros is a matrix
  of marks, \<open>row_mask\<close> and \<open>col_mask\<close> are the covered rows and columns, and the five steps are
  functions from the state of the solver to the number of the next step and the new state.
  \<open>Data\<close> is \<open>double\<close> at the only instance; entries are reals, so no entry is infinite and
  \<open>replace_infinites\<close> writes none.
\<close>

section \<open>The matrix class\<close>

definition mx_max :: "mat \<Rightarrow> real" where
  "mx_max m = fold (\<lambda>i acc. fold (\<lambda>j acc. max acc (m ! i ! j)) [0..<n_cols m] acc) [0..<length m] (m ! 0 ! 0)"

text \<open>\<open>resize\<close>: the entries both matrices have are kept, the others get the default.\<close>

definition mx_resize :: "mat \<Rightarrow> nat \<Rightarrow> nat \<Rightarrow> real \<Rightarrow> mat" where
  "mx_resize m rows columns default_value =
     mat_mk rows columns (\<lambda>i j. if i < length m \<and> j < n_cols m then m ! i ! j else default_value)"

section \<open>The solver's state\<close>

datatype mark = NORMAL | STAR | PRIME

record munkres =
  mk_mat :: mat
  mk_mask :: "mark list list"
  mk_row :: "bool list"
  mk_col :: "bool list"
  mk_saverow :: nat
  mk_savecol :: nat

definition set_mark :: "nat \<Rightarrow> nat \<Rightarrow> mark \<Rightarrow> mark list list \<Rightarrow> mark list list" where
  "set_mark i j k mks = mks[i := (mks ! i)[j := k]]"

definition mk_size :: "munkres \<Rightarrow> nat" where
  "mk_size s = length (mk_mat s)"

section \<open>The steps\<close>

text \<open>The smallest entry of a line, as far as the loop looks: it stops once it is not positive.\<close>

definition line_min :: "real list \<Rightarrow> real" where
  "line_min xs = fold (\<lambda>x m. if m > 0 then min m x else m) (tl xs) (hd xs)"

definition minimize_line :: "real list \<Rightarrow> real list" where
  "minimize_line xs = (let m = line_min xs in if m > 0 then map (\<lambda>x. x - m) xs else xs)"

definition minimize_along_direction :: "bool \<Rightarrow> mat \<Rightarrow> mat" where
  "minimize_along_direction over_columns m =
     (if over_columns then mat_trans (map minimize_line (mat_trans m)) else map minimize_line m)"

text \<open>The first uncovered entry with the value; the row and column the loops leave behind.\<close>

definition find_uncovered :: "real \<Rightarrow> munkres \<Rightarrow> bool \<times> nat \<times> nat" where
  "find_uncovered item s =
     (let n = mk_size s in
      case List.find (\<lambda>(r, c). \<not> mk_row s ! r \<and> \<not> mk_col s ! c \<and> mk_mat s ! r ! c = item)
             (List.product [0..<n] [0..<n]) of
        Some (r, c) \<Rightarrow> (True, r, c)
      | None \<Rightarrow> (False, n, if \<exists>r<n. \<not> mk_row s ! r then n else mk_savecol s))"

text \<open>Step 1: in each row the first zero whose column has no star in the rows above.\<close>

definition star_row :: "mat \<Rightarrow> nat \<Rightarrow> mark list list \<Rightarrow> mark list list" where
  "star_row m row mks =
     (case List.find (\<lambda>col. m ! row ! col = 0 \<and> (\<forall>nrow<row. mks ! nrow ! col \<noteq> STAR)) [0..<length m] of
        Some col \<Rightarrow> set_mark row col STAR mks
      | None \<Rightarrow> mks)"

definition step1 :: "munkres \<Rightarrow> nat \<times> munkres" where
  "step1 s = (2, s\<lparr>mk_mask := fold (star_row (mk_mat s)) [0..<mk_size s] (mk_mask s)\<rparr>)"

definition step2 :: "munkres \<Rightarrow> nat \<times> munkres" where
  "step2 s =
     (let n = mk_size s;
          stars = filter (\<lambda>(r, c). mk_mask s ! r ! c = STAR) (List.product [0..<n] [0..<n]);
          s = s\<lparr>mk_col := fold (\<lambda>(r, c) cm. cm[c := True]) stars (mk_col s)\<rparr>
      in (if n \<le> length stars then 0 else 3, s))"

definition step3 :: "munkres \<Rightarrow> nat \<times> munkres" where
  "step3 s =
     (let (found, r, c) = find_uncovered 0 s;
          s = s\<lparr>mk_saverow := r, mk_savecol := c\<rparr>
      in if \<not> found then (5, s)
         else
           let s = s\<lparr>mk_mask := set_mark r c PRIME (mk_mask s)\<rparr> in
           case List.find (\<lambda>ncol. mk_mask s ! r ! ncol = STAR) [0..<mk_size s] of
             Some ncol \<Rightarrow> (3, s\<lparr>mk_row := (mk_row s)[r := True], mk_col := (mk_col s)[ncol := False]\<rparr>)
           | None \<Rightarrow> (4, s))"

text \<open>The alternating path of step 4, from the primed zero, as the list \<open>seq\<close>.\<close>

definition star_in_col :: "mark list list \<Rightarrow> nat \<Rightarrow> nat \<Rightarrow> (nat \<times> nat) list \<Rightarrow> nat option" where
  "star_in_col mks n c seq = List.find (\<lambda>r. mks ! r ! c = STAR \<and> (r, c) \<notin> set seq) [0..<n]"

definition prime_in_row :: "mark list list \<Rightarrow> nat \<Rightarrow> nat \<Rightarrow> (nat \<times> nat) list \<Rightarrow> nat option" where
  "prime_in_row mks n r seq = List.find (\<lambda>c. mks ! r ! c = PRIME \<and> (r, c) \<notin> set seq) [0..<n]"

lemma find_upt_Some: "List.find P [0..<n] = Some k \<Longrightarrow> k < n \<and> P k"
  by (auto simp: find_Some_iff)

lemma find_upt_None: "List.find P [0..<n] = None \<Longrightarrow> k < n \<Longrightarrow> \<not> P k"
  by (auto simp: find_None_iff)

function alternating_path ::
  "mark list list \<Rightarrow> nat \<Rightarrow> nat \<Rightarrow> (nat \<times> nat) list \<Rightarrow> (nat \<times> nat) list" where
  "alternating_path mks n col seq =
     (case star_in_col mks n col seq of
        None \<Rightarrow> seq
      | Some row \<Rightarrow>
          let seq = seq @ [(row, col)] in
          case prime_in_row mks n row seq of
            None \<Rightarrow> seq
          | Some col \<Rightarrow> alternating_path mks n col (seq @ [(row, col)]))"
  by pat_completeness auto
termination
proof (relation "measure (\<lambda>(mks, n, col, seq). card ({..<n} \<times> {..<n} - set seq))", goal_cases)
  case (2 mks n col seq row seq' col')
  have "row < n" "col' < n" "(row, col') \<notin> set seq'"
    using 2 by (auto simp: star_in_col_def prime_in_row_def dest: find_upt_Some)
  then have "(row, col') \<in> {..<n} \<times> {..<n} - set seq" "{..<n} \<times> {..<n} - set (seq' @ [(row, col')]) \<subseteq> {..<n} \<times> {..<n} - set seq"
    using 2 by auto
  then have "{..<n} \<times> {..<n} - set (seq' @ [(row, col')]) \<subset> {..<n} \<times> {..<n} - set seq" by auto
  then show ?case by (simp add: psubset_card_mono)
qed simp

declare alternating_path.simps [simp del]

definition flip_mark :: "nat \<times> nat \<Rightarrow> mark list list \<Rightarrow> mark list list" where
  "flip_mark = (\<lambda>(i, j) mks.
     let mks = (if mks ! i ! j = STAR then set_mark i j NORMAL mks else mks)
     in if mks ! i ! j = PRIME then set_mark i j STAR mks else mks)"

definition step4 :: "munkres \<Rightarrow> nat \<times> munkres" where
  "step4 s =
     (let n = mk_size s;
          z0 = (mk_saverow s, mk_savecol s);
          seq = alternating_path (mk_mask s) n (mk_savecol s) [z0];
          mks = fold flip_mark seq (mk_mask s);
          mks = map (map (\<lambda>k. if k = PRIME then NORMAL else k)) mks
      in (2, s\<lparr>mk_mask := mks, mk_row := map (\<lambda>_. False) (mk_row s), mk_col := map (\<lambda>_. False) (mk_col s)\<rparr>))"

definition smallest_uncovered :: "munkres \<Rightarrow> real" where
  "smallest_uncovered s =
     (let n = mk_size s in
      fold (\<lambda>row h. if mk_row s ! row then h
          else fold (\<lambda>col h. if mk_col s ! col then h
              else if h > mk_mat s ! row ! col \<and> mk_mat s ! row ! col \<noteq> 0 then mk_mat s ! row ! col
              else h) [0..<n] h) [0..<n] 100000)"

definition step5 :: "munkres \<Rightarrow> nat \<times> munkres" where
  "step5 s =
     (let n = mk_size s; h = smallest_uncovered s;
          m = mat_mk n n (\<lambda>i j. if mk_row s ! i then mk_mat s ! i ! j + h else mk_mat s ! i ! j);
          m = mat_mk n n (\<lambda>i j. if mk_col s ! j then m ! i ! j else m ! i ! j - h)
      in (3, s\<lparr>mk_mat := m\<rparr>))"

section \<open>\<open>solve\<close>\<close>

definition munkres_step :: "nat \<Rightarrow> munkres \<Rightarrow> nat \<times> munkres" where
  "munkres_step k s =
     (if k = 1 then step1 s else if k = 2 then step2 s else if k = 3 then step3 s
      else if k = 4 then step4 s else step5 s)"

text \<open>The loop \<open>while (step)\<close>; \<^const>\<open>None\<close> when it does not end.\<close>

partial_function (option) munkres_loop :: "nat \<Rightarrow> munkres \<Rightarrow> munkres option" where
  "munkres_loop k s =
     (if k = 0 then Some s else case munkres_step k s of (k', s') \<Rightarrow> munkres_loop k' s')"

declare munkres_loop.simps [code]

definition munkres_start :: "mat \<Rightarrow> munkres" where
  "munkres_start m =
     (let rows = length m; columns = n_cols m; size = max rows columns;
          matrix = (if rows \<noteq> columns then mx_resize m size size (mx_max m) else m);
          matrix = minimize_along_direction (rows \<ge> columns) matrix;
          matrix = minimize_along_direction (rows < columns) matrix
      in \<lparr>mk_mat = matrix, mk_mask = replicate size (replicate size NORMAL),
          mk_row = replicate size False, mk_col = replicate size False,
          mk_saverow = 0, mk_savecol = 0\<rparr>)"

definition munkres_solve :: "mat \<Rightarrow> mat option" where
  "munkres_solve m =
     (let rows = length m; columns = n_cols m in
      map_option (\<lambda>s.
        let n = mk_size s;
            matrix = mat_mk n n (\<lambda>i j. if mk_mask s ! i ! j = STAR then 0 else -1)
        in mx_resize matrix rows columns 0)
      (munkres_loop 1 (munkres_start m)))"

text \<open>\<open>HungarianOper::Solve\<close>: the positions of the zeros, row by row.\<close>

definition hungarian_solve :: "mat \<Rightarrow> (nat \<times> nat) list option" where
  "hungarian_solve cost_matrix =
     (let rows = length cost_matrix; cols = n_cols cost_matrix in
      map_option (\<lambda>matrix.
        filter (\<lambda>(row, col). c_trunc (matrix ! row ! col) = 0) (List.product [0..<rows] [0..<cols]))
      (munkres_solve cost_matrix))"

end
