(* ===== verification/MunkresOpt.thy ===== *)
theory MunkresOpt imports Munkres begin

text \<open>
  The correctness of the DeepSort assignment solver: every step keeps the matrix a reduction of
  the cost matrix with nonnegative entries and the stars a partial matching on its zeros, the loop
  ends, and the starred positions it ends with are an assignment of least total cost.
\<close>

section \<open>The invariant of the solver\<close>

definition mk_dims :: "nat \<Rightarrow> munkres \<Rightarrow> bool" where
  "mk_dims n s \<longleftrightarrow> is_mat n n (mk_mat s) \<and> length (mk_mask s) = n \<and> (\<forall>r<n. length (mk_mask s ! r) = n) \<and>
     length (mk_row s) = n \<and> length (mk_col s) = n"

definition starred :: "nat \<Rightarrow> mark list list \<Rightarrow> nat \<Rightarrow> nat \<Rightarrow> bool" where
  "starred n mks i j \<longleftrightarrow> i < n \<and> j < n \<and> mks ! i ! j = STAR"

definition primed :: "nat \<Rightarrow> mark list list \<Rightarrow> nat \<Rightarrow> nat \<Rightarrow> bool" where
  "primed n mks i j \<longleftrightarrow> i < n \<and> j < n \<and> mks ! i ! j = PRIME"

definition star_matching :: "nat \<Rightarrow> mark list list \<Rightarrow> bool" where
  "star_matching n mks \<longleftrightarrow>
     (\<forall>i j k. starred n mks i j \<longrightarrow> starred n mks i k \<longrightarrow> j = k) \<and>
     (\<forall>i k j. starred n mks i j \<longrightarrow> starred n mks k j \<longrightarrow> i = k)"

definition star_rows :: "nat \<Rightarrow> mark list list \<Rightarrow> nat set" where
  "star_rows n mks = {i. \<exists>j. starred n mks i j}"

definition star_cols :: "nat \<Rightarrow> mark list list \<Rightarrow> nat set" where
  "star_cols n mks = {j. \<exists>i. starred n mks i j}"

text \<open>The matrix is the costs minus a price per row and per column.\<close>

definition reduced :: "nat \<Rightarrow> (nat \<Rightarrow> nat \<Rightarrow> real) \<Rightarrow> mat \<Rightarrow> bool" where
  "reduced n c m \<longleftrightarrow> (\<exists>u v. \<forall>i<n. \<forall>j<n. m ! i ! j = c i j - u i - v j) \<and>
     (\<forall>i<n. \<forall>j<n. 0 \<le> m ! i ! j)"

definition mk_inv :: "nat \<Rightarrow> (nat \<Rightarrow> nat \<Rightarrow> real) \<Rightarrow> munkres \<Rightarrow> bool" where
  "mk_inv n c s \<longleftrightarrow> 0 < n \<and> mk_dims n s \<and> reduced n c (mk_mat s) \<and> star_matching n (mk_mask s) \<and>
     (\<forall>i<n. \<forall>j<n. mk_mask s ! i ! j \<noteq> NORMAL \<longrightarrow> mk_mat s ! i ! j = 0)"

text \<open>Before step 2: nothing is covered, nothing is primed.\<close>

definition fresh :: "nat \<Rightarrow> munkres \<Rightarrow> bool" where
  "fresh n s \<longleftrightarrow> (\<forall>i<n. \<not> mk_row s ! i \<and> \<not> mk_col s ! i) \<and> (\<forall>i j. \<not> primed n (mk_mask s) i j)"

text \<open>
  The covers: a column is covered when it has a star whose row is not; a covered row has a star
  and a primed zero.  Going from a prime to the star of its column the rank goes down.
\<close>

definition cover_ok :: "nat \<Rightarrow> munkres \<Rightarrow> bool" where
  "cover_ok n s \<longleftrightarrow>
     (\<forall>j<n. mk_col s ! j \<longleftrightarrow> (\<exists>i. starred n (mk_mask s) i j \<and> \<not> mk_row s ! i)) \<and>
     (\<forall>i<n. mk_row s ! i \<longrightarrow> i \<in> star_rows n (mk_mask s)) \<and> card (star_rows n (mk_mask s)) < n"

definition ranked :: "nat \<Rightarrow> munkres \<Rightarrow> (nat \<Rightarrow> nat) \<Rightarrow> bool" where
  "ranked n s f \<longleftrightarrow> (\<forall>i j k. primed n (mk_mask s) i j \<longrightarrow> starred n (mk_mask s) k j \<longrightarrow> mk_row s ! k \<and> f k < f i)"

text \<open>The primes of rows other than \<open>x\<close> are those of the covered rows, one in each.\<close>

definition primes_ok :: "nat \<Rightarrow> nat option \<Rightarrow> munkres \<Rightarrow> bool" where
  "primes_ok n x s \<longleftrightarrow>
     (\<forall>i j. primed n (mk_mask s) i j \<longrightarrow> (mk_row s ! i \<or> x = Some i) \<and> \<not> mk_col s ! j) \<and>
     (\<forall>i<n. mk_row s ! i \<longrightarrow> (\<exists>j. primed n (mk_mask s) i j)) \<and>
     (\<forall>i j k. primed n (mk_mask s) i j \<longrightarrow> primed n (mk_mask s) i k \<longrightarrow> j = k)"

definition searching :: "nat \<Rightarrow> (nat \<Rightarrow> nat \<Rightarrow> real) \<Rightarrow> munkres \<Rightarrow> bool" where
  "searching n c s \<longleftrightarrow> mk_inv n c s \<and> cover_ok n s \<and> primes_ok n None s \<and> (\<exists>f. ranked n s f)"

text \<open>Step 4 starts from a primed zero in a row that is not covered and has no star.\<close>

definition path_ready :: "nat \<Rightarrow> (nat \<Rightarrow> nat \<Rightarrow> real) \<Rightarrow> munkres \<Rightarrow> bool" where
  "path_ready n c s \<longleftrightarrow> mk_inv n c s \<and> cover_ok n s \<and> primes_ok n (Some (mk_saverow s)) s \<and>
     (\<exists>f. ranked n s f) \<and> primed n (mk_mask s) (mk_saverow s) (mk_savecol s) \<and>
     mk_saverow s \<notin> star_rows n (mk_mask s)"

definition uncovered :: "nat \<Rightarrow> munkres \<Rightarrow> (nat \<times> nat) set" where
  "uncovered n s = {(i, j). i < n \<and> j < n \<and> \<not> mk_row s ! i \<and> \<not> mk_col s ! j}"

definition uncovered_zero :: "nat \<Rightarrow> munkres \<Rightarrow> bool" where
  "uncovered_zero n s \<longleftrightarrow> (\<exists>(i, j)\<in>uncovered n s. mk_mat s ! i ! j = 0)"

lemma mk_dims_size [simp]: "mk_dims n s \<Longrightarrow> mk_size s = n"
  by (auto simp: mk_dims_def mk_size_def is_mat_def)

lemma set_mark_entry:
  assumes "length mks = n" "\<forall>r<n. length (mks ! r) = n" "i < n" "j < n" "r < n" "k < n"
  shows "set_mark i j x mks ! r ! k = (if r = i \<and> k = j then x else mks ! r ! k)"
  using assms by (simp add: set_mark_def nth_list_update)

lemma set_mark_dims:
  "length (set_mark i j x mks) = length mks"
  "i < length mks \<Longrightarrow> r < length mks \<Longrightarrow> length (set_mark i j x mks ! r) = length (mks ! r)"
  by (simp_all add: set_mark_def nth_list_update)

lemma star_rows_finite [simp]: "finite (star_rows n mks)" "finite (star_cols n mks)"
  "star_rows n mks \<subseteq> {..<n}" "star_cols n mks \<subseteq> {..<n}"
  by (rule finite_subset [of _ "{..<n}"]; force simp: star_rows_def star_cols_def starred_def)+
     (auto simp: star_rows_def star_cols_def starred_def)

lemma star_cols_card:
  assumes "star_matching n mks"
  shows "card (star_cols n mks) = card (star_rows n mks)"
proof -
  define f where "f i = (SOME j. starred n mks i j)" for i
  have f: "starred n mks i (f i)" if "i \<in> star_rows n mks" for i
    using that someI_ex [of "\<lambda>j. starred n mks i j"] by (auto simp: star_rows_def f_def)
  have "bij_betw f (star_rows n mks) (star_cols n mks)"
    unfolding bij_betw_def
  proof (intro conjI inj_onI set_eqI iffI)
    fix i k assume "i \<in> star_rows n mks" "k \<in> star_rows n mks" "f i = f k"
    then show "i = k" using f [of i] f [of k] assms by (auto simp: star_matching_def)
  next
    fix j assume "j \<in> f ` star_rows n mks"
    then show "j \<in> star_cols n mks" using f by (auto simp: star_cols_def)
  next
    fix j assume "j \<in> star_cols n mks"
    then obtain i where i: "starred n mks i j" by (auto simp: star_cols_def)
    then have "i \<in> star_rows n mks" by (auto simp: star_rows_def)
    then show "j \<in> f ` star_rows n mks"
      using f [of i] i assms unfolding star_matching_def by blast
  qed
  then show ?thesis by (simp add: bij_betw_same_card)
qed

section \<open>Step 1\<close>

definition starring :: "nat \<Rightarrow> mat \<Rightarrow> nat \<Rightarrow> mark list list \<Rightarrow> bool" where
  "starring n m k mks \<longleftrightarrow> length mks = n \<and> (\<forall>r<n. length (mks ! r) = n) \<and> star_matching n mks \<and>
     (\<forall>i<n. \<forall>j<n. mks ! i ! j \<noteq> PRIME \<and> (mks ! i ! j = STAR \<longrightarrow> m ! i ! j = 0 \<and> i < k))"

lemma star_row_ok:
  assumes "starring n m k mks" "k < n" "is_mat n n m"
  shows "starring n m (Suc k) (star_row m k mks)"
proof (cases "List.find (\<lambda>col. m ! k ! col = 0 \<and> (\<forall>nrow<k. mks ! nrow ! col \<noteq> STAR)) [0..<n]")
  case None
  then have "star_row m k mks = mks" using assms by (simp add: star_row_def is_mat_length)
  then show ?thesis using assms by (auto simp: starring_def less_Suc_eq)
next
  case (Some col)
  then have e: "star_row m k mks = set_mark k col STAR mks"
    using assms by (simp add: star_row_def is_mat_length)
  from find_upt_Some [OF Some]
  have col: "col < n" "m ! k ! col = 0" "\<And>r. r < k \<Longrightarrow> mks ! r ! col \<noteq> STAR" by auto
  have d: "length mks = n" "\<forall>r<n. length (mks ! r) = n" using assms by (auto simp: starring_def)
  note en = set_mark_entry [OF d \<open>k < n\<close> \<open>col < n\<close>]
  have no: "mks ! i ! j \<noteq> STAR" if "k \<le> i" "i < n" "j < n" for i j
    using assms that unfolding starring_def by (meson not_le)
  have st: "starred n (set_mark k col STAR mks) i j \<longleftrightarrow> (i = k \<and> j = col) \<or> starred n mks i j" for i j
    using en [of i j] \<open>k < n\<close> \<open>col < n\<close> by (auto simp: starred_def)
  have new: "\<not> starred n mks k j" "\<not> starred n mks i col" for i j
    using no col by (auto simp: starred_def) (meson not_le)
  have "star_matching n (set_mark k col STAR mks)"
    using assms new unfolding star_matching_def st starring_def by blast
  then show ?thesis
    using assms e d en col by (auto simp: starring_def set_mark_dims less_Suc_eq split: if_splits)
qed

lemma step1_ok:
  assumes s: "mk_inv n c s" "fresh n s" and mks: "starring n (mk_mat s) 0 (mk_mask s)"
  shows "fst (step1 s) = 2" "mk_inv n c (snd (step1 s))" "fresh n (snd (step1 s))"
proof -
  have m: "is_mat n n (mk_mat s)" and n: "mk_size s = n" using s by (auto simp: mk_inv_def mk_dims_def mk_size_def is_mat_length)
  define mks' where "mks' = fold (star_row (mk_mat s)) [0..<n] (mk_mask s)"
  have *: "starring n (mk_mat s) n mks'"
    unfolding mks'_def
    by (rule fold_upt0_inv [where I = "starring n (mk_mat s)"]) (use mks star_row_ok m in auto)
  have e: "snd (step1 s) = s\<lparr>mk_mask := mks'\<rparr>" by (simp add: step1_def mks'_def n)
  have z: "mk_mat s ! i ! j = 0" if "i < n" "j < n" "mks' ! i ! j \<noteq> NORMAL" for i j
    using * that unfolding starring_def by (metis mark.exhaust)
  show "fst (step1 s) = 2" by (simp add: step1_def)
  show "mk_inv n c (snd (step1 s))"
    using s(1) * z by (simp add: e mk_inv_def mk_dims_def starring_def)
  show "fresh n (snd (step1 s))"
    using s(2) * by (simp add: e fresh_def starring_def primed_def)
qed

section \<open>Step 2\<close>

lemma cover_fold:
  "length (fold (\<lambda>(r, c) cm. cm[c := True]) xs cm) = length cm \<and>
   (j < length cm \<longrightarrow> fold (\<lambda>(r, c) cm. cm[c := True]) xs cm ! j = (cm ! j \<or> j \<in> snd ` set xs))"
proof (induction xs arbitrary: cm)
  case (Cons x xs)
  obtain r k where x: "x = (r, k)" by (cases x)
  show ?case using Cons.IH [of "cm[k := True]"] by (cases "j = k") (auto simp: x nth_list_update)
qed simp

lemma star_list:
  assumes "mk_size s = n"
  defines "stars \<equiv> filter (\<lambda>(r, c). mk_mask s ! r ! c = STAR) (List.product [0..<n] [0..<n])"
  shows "set stars = {(i, j). starred n (mk_mask s) i j}"
    and "star_matching n (mk_mask s) \<Longrightarrow> length stars = card (star_rows n (mk_mask s))"
proof -
  show st: "set stars = {(i, j). starred n (mk_mask s) i j}"
    by (auto simp: stars_def starred_def)
  assume m: "star_matching n (mk_mask s)"
  have "distinct stars" by (simp add: stars_def distinct_product)
  then have "length stars = card (set stars)" by (simp add: distinct_card)
  also have "\<dots> = card (fst ` set stars)"
    by (rule card_image [symmetric]) (use m in \<open>auto simp: st inj_on_def star_matching_def\<close>)
  also have "fst ` set stars = star_rows n (mk_mask s)" by (force simp: st star_rows_def)
  finally show "length stars = card (star_rows n (mk_mask s))" .
qed

lemma step2_ok:
  assumes inv: "mk_inv n c s" and fr: "fresh n s"
  shows "(fst (step2 s) = 0 \<and> mk_inv n c (snd (step2 s)) \<and> star_rows n (mk_mask (snd (step2 s))) = {..<n}) \<or>
     (fst (step2 s) = 3 \<and> searching n c (snd (step2 s)) \<and> (\<forall>i<n. \<not> mk_row (snd (step2 s)) ! i))"
    and "mk_mask (snd (step2 s)) = mk_mask s"
proof -
  have n: "mk_size s = n" and m: "star_matching n (mk_mask s)" and d: "mk_dims n s"
    using inv by (auto simp: mk_inv_def)
  define stars where "stars = filter (\<lambda>(r, c). mk_mask s ! r ! c = STAR) (List.product [0..<n] [0..<n])"
  define cm where "cm = fold (\<lambda>(r, c) cm. cm[c := True]) stars (mk_col s)"
  note sl = star_list [OF n, folded stars_def]
  have e: "step2 s = (if n \<le> length stars then 0 else 3, s\<lparr>mk_col := cm\<rparr>)"
    by (simp add: step2_def n stars_def cm_def Let_def)
  have cm: "length cm = n" "\<And>j. j < n \<Longrightarrow> cm ! j \<longleftrightarrow> (\<exists>i. starred n (mk_mask s) i j)"
    using cover_fold [of stars "mk_col s"] d fr sl(1) by (auto simp: cm_def mk_dims_def fresh_def image_iff)
  have inv': "mk_inv n c (s\<lparr>mk_col := cm\<rparr>)" using inv cm by (simp add: mk_inv_def mk_dims_def)
  show "mk_mask (snd (step2 s)) = mk_mask s" by (simp add: e)
  show "(fst (step2 s) = 0 \<and> mk_inv n c (snd (step2 s)) \<and> star_rows n (mk_mask (snd (step2 s))) = {..<n}) \<or>
     (fst (step2 s) = 3 \<and> searching n c (snd (step2 s)) \<and> (\<forall>i<n. \<not> mk_row (snd (step2 s)) ! i))"
  proof (cases "n \<le> length stars")
    case True
    then have "star_rows n (mk_mask s) = {..<n}"
      using sl(2) [OF m] by (intro card_subset_eq) (auto intro: antisym simp: card_mono [of "{..<n}", simplified])
    then show ?thesis using True inv' by (simp add: e)
  next
    case False
    then have "searching n c (s\<lparr>mk_col := cm\<rparr>)"
      using inv' cm fr sl(2) [OF m]
      by (auto simp: searching_def cover_ok_def primes_ok_def ranked_def fresh_def starred_def)
    then show ?thesis using False fr by (simp add: e fresh_def)
  qed
qed

section \<open>Step 3\<close>

lemma find_mem_Some: "List.find P xs = Some x \<Longrightarrow> x \<in> set xs \<and> P x"
  by (auto simp: find_Some_iff)

lemma find_uncovered_cases:
  assumes "mk_dims n s"
  shows "(\<exists>r k. find_uncovered 0 s = (True, r, k) \<and> (r, k) \<in> uncovered n s \<and> mk_mat s ! r ! k = 0) \<or>
     (\<exists>r k. find_uncovered 0 s = (False, r, k) \<and> \<not> uncovered_zero n s)"
proof (cases "List.find (\<lambda>(r, c). \<not> mk_row s ! r \<and> \<not> mk_col s ! c \<and> mk_mat s ! r ! c = 0)
             (List.product [0..<n] [0..<n])")
  case None
  then have "\<not> uncovered_zero n s"
    by (auto simp: find_None_iff uncovered_zero_def uncovered_def)
  then show ?thesis using None assms by (auto simp: find_uncovered_def)
next
  case (Some p)
  then obtain r k where "p = (r, k)" "r < n" "k < n" "\<not> mk_row s ! r" "\<not> mk_col s ! k" "mk_mat s ! r ! k = 0"
    using find_mem_Some by (cases p) fastforce
  then show ?thesis using Some assms by (auto simp: find_uncovered_def uncovered_def)
qed

lemma inv_saves [simp]: "mk_inv n c (s\<lparr>mk_saverow := r, mk_savecol := k\<rparr>) = mk_inv n c s"
  by (simp add: mk_inv_def mk_dims_def)

text \<open>The new prime: what it does to the marks.\<close>

lemma prime_marks:
  assumes inv: "mk_inv n c s" and un: "(r, k) \<in> uncovered n s" "mk_mat s ! r ! k = 0" and cov: "cover_ok n s"
  defines "mks \<equiv> set_mark r k PRIME (mk_mask s)"
  shows "starred n mks i j = starred n (mk_mask s) i j"
    and "primed n mks i j \<longleftrightarrow> (i = r \<and> j = k) \<or> primed n (mk_mask s) i j"
    and "mk_inv n c (s\<lparr>mk_mask := mks\<rparr>)"
proof -
  have d: "length (mk_mask s) = n" "\<forall>r<n. length (mk_mask s ! r) = n" and rk: "r < n" "k < n"
    using inv un by (auto simp: mk_inv_def mk_dims_def uncovered_def)
  note en = set_mark_entry [OF d rk]
  have "\<not> starred n (mk_mask s) r k" using un cov by (auto simp: uncovered_def cover_ok_def)
  then show st: "starred n mks i j = starred n (mk_mask s) i j" for i j
    by (auto simp: starred_def mks_def en cong: conj_cong)
  show "primed n mks i j \<longleftrightarrow> (i = r \<and> j = k) \<or> primed n (mk_mask s) i j"
    using rk by (auto simp: primed_def mks_def en cong: conj_cong)
  have "star_matching n mks" using inv by (simp add: star_matching_def st mk_inv_def)
  moreover have "\<forall>i<n. \<forall>j<n. mks ! i ! j \<noteq> NORMAL \<longrightarrow> mk_mat s ! i ! j = 0"
    using inv en un by (auto simp: mks_def mk_inv_def)
  ultimately show "mk_inv n c (s\<lparr>mk_mask := mks\<rparr>)"
    using inv rk d by (auto simp: mk_inv_def mk_dims_def mks_def set_mark_dims)
qed

definition covered_rows :: "nat \<Rightarrow> munkres \<Rightarrow> nat set" where
  "covered_rows n s = {i. i < n \<and> mk_row s ! i}"

lemma step3_cases:
  assumes d: "mk_dims n s" and e: "find_uncovered 0 s = (found, r, k)"
  defines "t \<equiv> s\<lparr>mk_saverow := r, mk_savecol := k\<rparr>"
  defines "u \<equiv> t\<lparr>mk_mask := set_mark r k PRIME (mk_mask s)\<rparr>"
  shows "\<not> found \<Longrightarrow> step3 s = (5, t)"
    and "found \<Longrightarrow> (\<forall>j<n. mk_mask u ! r ! j \<noteq> STAR) \<Longrightarrow> step3 s = (4, u)"
    and "found \<Longrightarrow> j < n \<Longrightarrow> mk_mask u ! r ! j = STAR \<Longrightarrow>
      \<exists>j<n. mk_mask u ! r ! j = STAR \<and> step3 s = (3, u\<lparr>mk_row := (mk_row s)[r := True], mk_col := (mk_col s)[j := False]\<rparr>)"
proof -
  have n: "mk_size (s\<lparr>mk_saverow := r, mk_savecol := k, mk_mask := mks\<rparr>) = n" for mks
    using d by (auto simp: mk_size_def mk_dims_def is_mat_def)
  show "\<not> found \<Longrightarrow> step3 s = (5, t)" by (simp add: step3_def e t_def)
  show "step3 s = (4, u)" if "found" "\<forall>j<n. mk_mask u ! r ! j \<noteq> STAR"
  proof -
    have "List.find (\<lambda>ncol. set_mark r k PRIME (mk_mask s) ! r ! ncol = STAR) [0..<n] = None"
      using that by (simp add: u_def t_def find_None_iff)
    then show ?thesis using that n by (simp add: step3_def e t_def u_def)
  qed
  show "\<exists>j<n. mk_mask u ! r ! j = STAR \<and> step3 s = (3, u\<lparr>mk_row := (mk_row s)[r := True], mk_col := (mk_col s)[j := False]\<rparr>)"
    if f: "found" and j: "j < n" "mk_mask u ! r ! j = STAR"
  proof (cases "List.find (\<lambda>ncol. set_mark r k PRIME (mk_mask s) ! r ! ncol = STAR) [0..<n]")
    case None
    then show ?thesis using j by (auto simp: u_def t_def find_None_iff)
  next
    case (Some l)
    then show ?thesis
      using f n find_upt_Some [OF Some] by (auto simp: step3_def e t_def u_def)
  qed
qed

text \<open>The ranks after a new prime in row \<open>r\<close>.\<close>

lemma prime_ranked:
  assumes rk: "ranked n s f" and cov: "cover_ok n s" and pr: "primes_ok n None s"
    and un: "(r, k) \<in> uncovered n s"
    and st: "\<And>i j. starred n (mk_mask u) i j = starred n (mk_mask s) i j"
    and pm: "\<And>i j. primed n (mk_mask u) i j \<longleftrightarrow> (i = r \<and> j = k) \<or> primed n (mk_mask s) i j"
    and row: "\<And>i. i < n \<Longrightarrow> mk_row s ! i \<Longrightarrow> mk_row u ! i"
  shows "ranked n u (f(r := Suc (Max (f ` {..<n}))))"
  unfolding ranked_def st pm
proof (intro allI impI)
  fix i j l assume p: "i = r \<and> j = k \<or> primed n (mk_mask s) i j" and l: "starred n (mk_mask s) l j"
  have ln: "l < n" using l by (simp add: starred_def)
  have r: "\<not> mk_row s ! r" "\<not> mk_col s ! k" "k < n" using un by (auto simp: uncovered_def)
  have *: "mk_row s ! l \<and> (f l < f i \<or> i = r)"
    using p
  proof
    assume "i = r \<and> j = k"
    then show ?thesis using cov l r by (auto simp: cover_ok_def)
  next
    assume "primed n (mk_mask s) i j"
    then show ?thesis using rk l by (auto simp: ranked_def)
  qed
  then have "l \<noteq> r" using r by auto
  moreover have "f l < Suc (Max (f ` {..<n}))" using ln by (simp add: le_imp_less_Suc)
  ultimately show "mk_row u ! l \<and> (f(r := Suc (Max (f ` {..<n})))) l < (f(r := Suc (Max (f ` {..<n})))) i"
    using * row [OF ln] by auto
qed

lemma prime_path_ready:
  assumes s: "searching n c s" and un: "(r, k) \<in> uncovered n s" "mk_mat s ! r ! k = 0"
  defines "u \<equiv> s\<lparr>mk_saverow := r, mk_savecol := k, mk_mask := set_mark r k PRIME (mk_mask s)\<rparr>"
  assumes no: "\<forall>j<n. mk_mask u ! r ! j \<noteq> STAR"
  shows "path_ready n c u"
proof -
  have inv: "mk_inv n c s" and cov: "cover_ok n s" and pr: "primes_ok n None s"
    using s by (auto simp: searching_def)
  obtain f where rk: "ranked n s f" using s by (auto simp: searching_def)
  note pm = prime_marks [OF inv un cov]
  have st: "starred n (mk_mask u) i j = starred n (mk_mask s) i j"
    and pr': "primed n (mk_mask u) i j \<longleftrightarrow> (i = r \<and> j = k) \<or> primed n (mk_mask s) i j" for i j
    using pm(1,2) by (simp_all add: u_def)
  have r: "r < n" "k < n" "\<not> mk_row s ! r" "\<not> mk_col s ! k" using un by (auto simp: uncovered_def)
  have "ranked n u (f(r := Suc (Max (f ` {..<n}))))"
    by (rule prime_ranked [OF rk cov pr un(1) st pr']) (simp add: u_def)
  moreover have "mk_inv n c u" using pm(3) by (simp add: u_def mk_inv_def mk_dims_def)
  moreover have "cover_ok n u" using cov by (simp add: cover_ok_def star_rows_def st) (simp add: u_def)
  moreover have "primes_ok n (Some r) u"
    using pr r unfolding primes_ok_def pr' by (auto simp: u_def)
  moreover have "r \<notin> star_rows n (mk_mask u)" using no by (auto simp: star_rows_def starred_def)
  ultimately show ?thesis by (auto simp: path_ready_def pr') (simp_all add: u_def)
qed

lemma prime_searching:
  assumes s: "searching n c s" and un: "(r, k) \<in> uncovered n s" "mk_mat s ! r ! k = 0"
  defines "u \<equiv> s\<lparr>mk_saverow := r, mk_savecol := k, mk_mask := set_mark r k PRIME (mk_mask s)\<rparr>"
  assumes j: "j < n" "mk_mask u ! r ! j = STAR"
  shows "searching n c (u\<lparr>mk_row := (mk_row s)[r := True], mk_col := (mk_col s)[j := False]\<rparr>)"
proof -
  let ?v = "u\<lparr>mk_row := (mk_row s)[r := True], mk_col := (mk_col s)[j := False]\<rparr>"
  have inv: "mk_inv n c s" and cov: "cover_ok n s" and pr: "primes_ok n None s" and mt: "star_matching n (mk_mask s)"
    using s by (auto simp: searching_def mk_inv_def)
  obtain f where rk: "ranked n s f" using s by (auto simp: searching_def)
  note pm = prime_marks [OF inv un cov]
  have st: "starred n (mk_mask ?v) i j = starred n (mk_mask s) i j"
    and pr': "primed n (mk_mask ?v) i j \<longleftrightarrow> (i = r \<and> j = k) \<or> primed n (mk_mask s) i j" for i j
    using pm(1,2) by (simp_all add: u_def)
  have r: "r < n" "k < n" "\<not> mk_row s ! r" "\<not> mk_col s ! k" using un by (auto simp: uncovered_def)
  have len: "length (mk_row s) = n" "length (mk_col s) = n" using inv by (auto simp: mk_inv_def mk_dims_def)
  have rj: "starred n (mk_mask s) r j" using j r st [of r j] by (simp add: starred_def)
  have "ranked n ?v (f(r := Suc (Max (f ` {..<n}))))"
    by (rule prime_ranked [OF rk cov pr un(1) st pr']) (simp add: nth_list_update len r)
  moreover have "mk_inv n c ?v" using pm(3) len by (simp add: u_def mk_inv_def mk_dims_def)
  moreover have "cover_ok n ?v"
    unfolding cover_ok_def star_rows_def st
  proof (intro conjI allI impI)
    fix l assume l: "l < n"
    have lr: "i = r \<longleftrightarrow> l = j" if "starred n (mk_mask s) i l" for i
      using mt rj that unfolding star_matching_def by blast
    have rows: "mk_row ?v ! i = (i = r \<or> mk_row s ! i)" if "starred n (mk_mask s) i l" for i
      using r(1) len that by (simp add: nth_list_update starred_def)
    have "mk_col ?v ! l = (mk_col s ! l \<and> l \<noteq> j)" using l j(1) len by (simp add: nth_list_update)
    also have "\<dots> = ((\<exists>i. starred n (mk_mask s) i l \<and> \<not> mk_row s ! i) \<and> l \<noteq> j)"
      using cov l by (simp add: cover_ok_def)
    also have "\<dots> = (\<exists>i. starred n (mk_mask s) i l \<and> \<not> mk_row ?v ! i)" using lr rows by metis
    finally show "mk_col ?v ! l = (\<exists>i. starred n (mk_mask s) i l \<and> \<not> mk_row ?v ! i)" .
  next
    fix i assume i: "i < n" "mk_row ?v ! i"
    then have "i = r \<or> mk_row s ! i" using r(1) len by (simp add: nth_list_update split: if_splits)
    then show "i \<in> {i. \<exists>j. starred n (mk_mask s) i j}"
      using cov rj i(1) by (auto simp: cover_ok_def star_rows_def)
  next
    show "card {i. \<exists>j. starred n (mk_mask s) i j} < n" using cov by (simp add: cover_ok_def star_rows_def)
  qed
  moreover have "primes_ok n None ?v"
  proof -
    have rows: "mk_row ?v ! i = (i = r \<or> mk_row s ! i)" if "i < n" for i
      using r(1) len that by (simp add: nth_list_update)
    have cols: "mk_col ?v ! l = (mk_col s ! l \<and> l \<noteq> j)" if "l < n" for l
      using len that by (cases "l = j") simp_all
    have bound: "i < n \<and> l < n" if "primed n (mk_mask s) i l" for i l using that by (simp add: primed_def)
    have nr: "\<not> primed n (mk_mask s) r l" for l using pr r(3) by (auto simp: primes_ok_def)
    have old: "mk_row s ! i \<and> \<not> mk_col s ! l" if "primed n (mk_mask s) i l" for i l
      using pr that by (auto simp: primes_ok_def)
    have uni: "l = l'" if "primed n (mk_mask s) i l" "primed n (mk_mask s) i l'" for i l l'
      using pr that by (auto simp: primes_ok_def)
    have ex: "\<exists>l. primed n (mk_mask s) i l" if "i < n" "mk_row s ! i" for i
      using pr that by (auto simp: primes_ok_def)
    show ?thesis
      unfolding primes_ok_def pr'
    proof (intro conjI allI impI)
      fix i l assume p: "i = r \<and> l = k \<or> primed n (mk_mask s) i l"
      then have "i < n" "l < n" using bound r by auto
      then show "mk_row ?v ! i \<or> None = Some i" "\<not> mk_col ?v ! l"
        using p old r rows cols by blast+
    next
      fix i assume "i < n" "mk_row ?v ! i"
      then show "\<exists>l. i = r \<and> l = k \<or> primed n (mk_mask s) i l" using rows ex by blast
    next
      fix i l l' assume "i = r \<and> l = k \<or> primed n (mk_mask s) i l" "i = r \<and> l' = k \<or> primed n (mk_mask s) i l'"
      then show "l = l'" using uni nr by blast
    qed
  qed
  ultimately show ?thesis by (auto simp: searching_def)
qed

lemma step3_ok:
  assumes s: "searching n c s"
  shows "(fst (step3 s) = 5 \<and> searching n c (snd (step3 s)) \<and> \<not> uncovered_zero n (snd (step3 s)) \<and>
          \<not> uncovered_zero n s \<and> mk_mat (snd (step3 s)) = mk_mat s \<and>
          uncovered n (snd (step3 s)) = uncovered n s \<and>
          covered_rows n (snd (step3 s)) = covered_rows n s) \<or>
     (fst (step3 s) = 3 \<and> searching n c (snd (step3 s)) \<and>
          (\<exists>r<n. r \<notin> covered_rows n s \<and> covered_rows n (snd (step3 s)) = insert r (covered_rows n s))) \<or>
     (fst (step3 s) = 4 \<and> path_ready n c (snd (step3 s)) \<and>
          covered_rows n (snd (step3 s)) = covered_rows n s)" (is ?A)
    and "star_rows n (mk_mask (snd (step3 s))) = star_rows n (mk_mask s)" (is ?S)
proof -
  have inv: "mk_inv n c s" and cov: "cover_ok n s" and pr: "primes_ok n None s"
    and d: "mk_dims n s" and mt: "star_matching n (mk_mask s)"
    using s by (auto simp: searching_def mk_inv_def)
  obtain f where rk: "ranked n s f" using s by (auto simp: searching_def)
  obtain found r k where e: "find_uncovered 0 s = (found, r, k)" by (metis prod_cases3)
  define t where "t = s\<lparr>mk_saverow := r, mk_savecol := k\<rparr>"
  define u where "u = t\<lparr>mk_mask := set_mark r k PRIME (mk_mask s)\<rparr>"
  have u: "u = s\<lparr>mk_saverow := r, mk_savecol := k, mk_mask := set_mark r k PRIME (mk_mask s)\<rparr>"
    by (simp add: u_def t_def)
  note c3 = step3_cases [OF d e, folded t_def, folded u_def]
  have "?A \<and> ?S"
  proof (cases found)
    case False
    then have nz: "\<not> uncovered_zero n s" using find_uncovered_cases [OF d] e by auto
    have "searching n c t" using s by (simp add: t_def searching_def cover_ok_def primes_ok_def ranked_def)
    moreover have "uncovered n t = uncovered n s" by (simp add: t_def uncovered_def)
    moreover have "uncovered_zero n t = uncovered_zero n s" by (simp add: t_def uncovered_zero_def uncovered_def)
    ultimately show ?thesis using False nz c3(1) by (simp add: t_def covered_rows_def)
  next
    case True
    then have un: "(r, k) \<in> uncovered n s" "mk_mat s ! r ! k = 0"
      using find_uncovered_cases [OF d] e by auto
    have st: "star_rows n (mk_mask u) = star_rows n (mk_mask s)"
      using prime_marks(1) [OF inv un cov] by (simp add: star_rows_def u)
    have r: "r < n" "r \<notin> covered_rows n s" using un by (auto simp: uncovered_def covered_rows_def)
    have len: "length (mk_row s) = n" using d by (simp add: mk_dims_def)
    show ?thesis
    proof (cases "\<exists>j<n. mk_mask u ! r ! j = STAR")
      case False
      then have "step3 s = (4, u)" using c3(2) True by blast
      moreover have "path_ready n c u"
        using prime_path_ready [OF s un, folded u] False by blast
      moreover have "covered_rows n u = covered_rows n s" by (simp add: u covered_rows_def)
      ultimately show ?thesis using st by simp
    next
      case T: True
      then obtain j where j: "j < n" "mk_mask u ! r ! j = STAR"
        "step3 s = (3, u\<lparr>mk_row := (mk_row s)[r := True], mk_col := (mk_col s)[j := False]\<rparr>)"
        using c3(3) True by blast
      have "covered_rows n (snd (step3 s)) = insert r (covered_rows n s)"
        using r len by (auto simp: j(3) covered_rows_def nth_list_update split: if_splits)
      then show ?thesis
        using prime_searching [OF s un, folded u, OF j(1,2)] r st by (auto simp: j(3))
    qed
  qed
  then show ?A ?S by blast+
qed

section \<open>Step 5\<close>

text \<open>The bound \<open>h\<close> below which step 5 looks, as the value of a set of entries.\<close>

definition least_of :: "(nat \<times> nat) set \<Rightarrow> mat \<Rightarrow> real \<Rightarrow> bool" where
  "least_of U m h \<longleftrightarrow> h \<le> 100000 \<and> (\<forall>(i, j)\<in>U. m ! i ! j \<noteq> 0 \<longrightarrow> h \<le> m ! i ! j) \<and>
     (h = 100000 \<or> (\<exists>(i, j)\<in>U. m ! i ! j \<noteq> 0 \<and> h = m ! i ! j))"

lemma least_of_insert:
  assumes "least_of U m h"
  shows "least_of (insert (i, j) U) m (if h > m ! i ! j \<and> m ! i ! j \<noteq> 0 then m ! i ! j else h)"
  using assms unfolding least_of_def by (auto simp: not_less)

lemma smallest_ok:
  assumes "mk_size s = n"
  shows "least_of (uncovered n s) (mk_mat s) (smallest_uncovered s)"
proof -
  let ?U = "\<lambda>r k. {(i, j). \<not> mk_row s ! i \<and> \<not> mk_col s ! j \<and> j < n \<and> (i < r \<or> i = r \<and> j < k)}"
  let ?f = "\<lambda>row col h. if mk_col s ! col then h
              else if h > mk_mat s ! row ! col \<and> mk_mat s ! row ! col \<noteq> 0 then mk_mat s ! row ! col else h"
  have inner: "least_of (?U r n) (mk_mat s) (fold (?f r) [0..<n] h)"
    if "least_of (?U r 0) (mk_mat s) h" "\<not> mk_row s ! r" for r h
  proof (rule fold_upt0_inv [where I = "\<lambda>k h. least_of (?U r k) (mk_mat s) h"])
    fix k h assume k: "k < n" "least_of (?U r k) (mk_mat s) h"
    have "?U r (Suc k) = (if mk_col s ! k then ?U r k else insert (r, k) (?U r k))"
      using k(1) that(2) by (auto simp: less_Suc_eq)
    then show "least_of (?U r (Suc k)) (mk_mat s) (?f r k h)"
      using least_of_insert [OF k(2), of r k] k(2) by (simp split: if_splits)
  qed (rule that(1))
  have "least_of (?U n 0) (mk_mat s)
      (fold (\<lambda>row h. if mk_row s ! row then h else fold (?f row) [0..<n] h) [0..<n] 100000)"
  proof (rule fold_upt0_inv [where I = "\<lambda>r h. least_of (?U r 0) (mk_mat s) h"])
    show "least_of (?U 0 0) (mk_mat s) 100000" by (auto simp: least_of_def)
  next
    fix r h assume r: "r < n" "least_of (?U r 0) (mk_mat s) h"
    show "least_of (?U (Suc r) 0) (mk_mat s) (if mk_row s ! r then h else fold (?f r) [0..<n] h)"
    proof (cases "mk_row s ! r")
      case True
      then have "?U (Suc r) 0 = ?U r 0" by (auto simp: less_Suc_eq)
      then show ?thesis using True r by simp
    next
      case False
      have "?U (Suc r) 0 = ?U r n" by (auto simp: less_Suc_eq)
      then show ?thesis using False inner [OF r(2) False] by simp
    qed
  qed
  moreover have "?U n 0 = uncovered n s" by (auto simp: uncovered_def)
  ultimately show ?thesis using assms by (simp add: smallest_uncovered_def Let_def)
qed

text \<open>How many times \<open>100000\<close> fits into the uncovered entries, until one of them is zero.\<close>

definition excess :: "nat \<Rightarrow> munkres \<Rightarrow> nat" where
  "excess n s = (if uncovered_zero n s then 0
     else Suc (nat \<lfloor>(\<Sum>(i, j)\<in>uncovered n s. mk_mat s ! i ! j) / 100000\<rfloor>))"

lemma uncovered_finite [simp]: "finite (uncovered n s)"
  by (rule finite_subset [of _ "{..<n} \<times> {..<n}"]) (auto simp: uncovered_def)

lemma uncovered_nonempty:
  assumes cov: "cover_ok n s" and m: "star_matching n (mk_mask s)"
  shows "uncovered n s \<noteq> {}"
proof -
  have c: "card (star_rows n (mk_mask s)) < n" using cov by (simp add: cover_ok_def)
  then have "star_rows n (mk_mask s) \<noteq> {..<n}" by (metis card_lessThan less_irrefl)
  then obtain i where "i < n" "i \<notin> star_rows n (mk_mask s)" using star_rows_finite(3) by blast
  moreover have "star_cols n (mk_mask s) \<noteq> {..<n}" using star_cols_card [OF m] c by (metis card_lessThan less_irrefl)
  then obtain j where "j < n" "j \<notin> star_cols n (mk_mask s)" using star_rows_finite(4) by blast
  ultimately have "(i, j) \<in> uncovered n s"
    using cov by (auto simp: uncovered_def cover_ok_def star_cols_def)
  then show ?thesis by blast
qed

lemma step5_ok:
  assumes s: "searching n c s" and nz: "\<not> uncovered_zero n s"
  shows "fst (step5 s) = 3" "searching n c (snd (step5 s))"
    "mk_mask (snd (step5 s)) = mk_mask s" "covered_rows n (snd (step5 s)) = covered_rows n s"
    "excess n (snd (step5 s)) < excess n s"
proof -
  have inv: "mk_inv n c s" and cov: "cover_ok n s" and pr: "primes_ok n None s" and mt: "star_matching n (mk_mask s)"
    and d: "mk_dims n s" and red: "reduced n c (mk_mat s)"
    using s by (auto simp: searching_def mk_inv_def)
  have n: "mk_size s = n" using d by simp
  define h where "h = smallest_uncovered s"
  have lo: "least_of (uncovered n s) (mk_mat s) h" unfolding h_def by (rule smallest_ok [OF n])
  let ?m = "mk_mat s"
  have nonneg: "0 \<le> ?m ! i ! j" if "i < n" "j < n" for i j using red that by (auto simp: reduced_def)
  have upos: "0 < ?m ! i ! j" if "(i, j) \<in> uncovered n s" for i j
    using nonneg [of i j] nz that unfolding uncovered_zero_def uncovered_def by force
  have hpos: "0 < h" using lo upos by (auto simp: least_of_def)
  have hle: "h \<le> ?m ! i ! j" if "(i, j) \<in> uncovered n s" for i j
    using lo upos [OF that] that by (force simp: least_of_def)
  define m' where "m' = mat_mk n n (\<lambda>i j. if mk_col s ! j
      then mat_mk n n (\<lambda>i j. if mk_row s ! i then ?m ! i ! j + h else ?m ! i ! j) ! i ! j
      else mat_mk n n (\<lambda>i j. if mk_row s ! i then ?m ! i ! j + h else ?m ! i ! j) ! i ! j - h)"
  have e: "step5 s = (3, s\<lparr>mk_mat := m'\<rparr>)" unfolding m'_def h_def by (simp add: step5_def n Let_def)
  have m': "m' ! i ! j = ?m ! i ! j + (if mk_row s ! i then h else 0) - (if mk_col s ! j then 0 else h)"
    if "i < n" "j < n" for i j using that by (simp add: m'_def)
  have nn: "0 \<le> m' ! i ! j" if "i < n" "j < n" for i j
    using nonneg [OF that] hle [of i j] hpos that by (auto simp: m' uncovered_def)
  have zero: "m' ! i ! j = 0" if "i < n" "j < n" "mk_mask s ! i ! j \<noteq> NORMAL" for i j
  proof -
    have "mk_row s ! i \<longleftrightarrow> \<not> mk_col s ! j"
    proof (cases "mk_mask s ! i ! j = STAR")
      case True
      then have st: "starred n (mk_mask s) i j" using that by (simp add: starred_def)
      have "mk_col s ! j \<longleftrightarrow> (\<exists>k. starred n (mk_mask s) k j \<and> \<not> mk_row s ! k)"
        using cov that by (auto simp: cover_ok_def)
      then show ?thesis using st mt unfolding star_matching_def by blast
    next
      case False
      then have "primed n (mk_mask s) i j" using that by (cases "mk_mask s ! i ! j") (auto simp: primed_def)
      then show ?thesis using pr by (auto simp: primes_ok_def)
    qed
    then show ?thesis using inv that by (auto simp: m' mk_inv_def)
  qed
  obtain u v where uv: "\<And>i j. i < n \<Longrightarrow> j < n \<Longrightarrow> ?m ! i ! j = c i j - u i - v j"
    using red unfolding reduced_def by blast
  define u' where "u' i = u i - (if mk_row s ! i then h else 0)" for i
  define v' where "v' j = v j + (if mk_col s ! j then 0 else h)" for j
  have "m' ! i ! j = c i j - u' i - v' j" if "i < n" "j < n" for i j
    using uv [OF that] m' [OF that] by (simp add: u'_def v'_def)
  then have "\<exists>u v. \<forall>i<n. \<forall>j<n. m' ! i ! j = c i j - u i - v j"
    by (intro exI [of _ u'] exI [of _ v']) simp
  then have "reduced n c m'" using nn by (simp add: reduced_def)
  then have "mk_inv n c (s\<lparr>mk_mat := m'\<rparr>)"
    using inv zero by (simp add: mk_inv_def mk_dims_def m'_def)
  then show "searching n c (snd (step5 s))"
    using s by (simp add: e searching_def cover_ok_def primes_ok_def ranked_def)
  show "fst (step5 s) = 3" "mk_mask (snd (step5 s)) = mk_mask s" "covered_rows n (snd (step5 s)) = covered_rows n s"
    by (simp_all add: e covered_rows_def)
  have un: "uncovered n (s\<lparr>mk_mat := m'\<rparr>) = uncovered n s" by (simp add: uncovered_def)
  have um: "m' ! i ! j = ?m ! i ! j - h" if "(i, j) \<in> uncovered n s" for i j
    using that by (auto simp: m' uncovered_def)
  show "excess n (snd (step5 s)) < excess n s"
  proof (cases "uncovered_zero n (s\<lparr>mk_mat := m'\<rparr>)")
    case True
    then show ?thesis using nz by (simp add: e excess_def)
  next
    case False
    have h: "h = 100000"
    proof (rule ccontr)
      assume "h \<noteq> 100000"
      then obtain i j where "(i, j) \<in> uncovered n s" "h = ?m ! i ! j" using lo by (auto simp: least_of_def)
      then have "uncovered_zero n (s\<lparr>mk_mat := m'\<rparr>)"
        unfolding uncovered_zero_def un by (intro bexI [of _ "(i, j)"]) (simp_all add: um)
      then show False using False by simp
    qed
    let ?S = "\<Sum>(i, j)\<in>uncovered n s. ?m ! i ! j" and ?S' = "\<Sum>(i, j)\<in>uncovered n s. m' ! i ! j"
    let ?k = "card (uncovered n s)"
    have "?S' = (\<Sum>(i, j)\<in>uncovered n s. ?m ! i ! j - h)"
      by (rule sum.cong [OF refl]) (auto simp: um)
    also have "\<dots> = ?S - real ?k * h" by (simp add: case_prod_beta sum_subtractf)
    finally have S': "?S' = ?S - real ?k * h" .
    have "0 < ?k" using uncovered_nonempty [OF cov mt] by (simp add: card_gt_0_iff)
    moreover have "0 \<le> ?S'"
      by (rule sum_nonneg) (use nn in \<open>auto simp: uncovered_def\<close>)
    ultimately have "?S' / 100000 \<le> ?S / 100000 - 1" "0 \<le> ?S' / 100000" using S' h by auto
    then have "nat \<lfloor>?S' / 100000\<rfloor> < nat \<lfloor>?S / 100000\<rfloor>" by linarith
    then show ?thesis using False nz by (simp add: e excess_def un)
  qed
qed

section \<open>Step 4\<close>

text \<open>The alternating path so far, up to the prime \<open>(r, c)\<close>, from the prime in row \<open>r0\<close>.\<close>

definition path_sofar ::
  "nat \<Rightarrow> mark list list \<Rightarrow> (nat \<Rightarrow> nat) \<Rightarrow> nat \<Rightarrow> (nat \<times> nat) list \<Rightarrow> nat \<Rightarrow> nat \<Rightarrow> bool" where
  "path_sofar n mks f r0 seq r c \<longleftrightarrow> distinct seq \<and> primed n mks r c \<and> (r, c) \<in> set seq \<and>
     (\<forall>i j. (i, j) \<in> set seq \<longrightarrow> primed n mks i j \<or> starred n mks i j) \<and>
     (\<forall>i j. (i, j) \<in> set seq \<longrightarrow> starred n mks i j \<longrightarrow>
        f r \<le> f i \<and> (\<exists>j'. (i, j') \<in> set seq \<and> primed n mks i j')) \<and>
     (\<forall>i j. (i, j) \<in> set seq \<longrightarrow> primed n mks i j \<longrightarrow> \<not> (i = r \<and> j = c) \<longrightarrow>
        (\<exists>i'. starred n mks i' j \<and> (i', j) \<in> set seq)) \<and>
     (\<forall>i j. (i, j) \<in> set seq \<longrightarrow> primed n mks i j \<longrightarrow>
        i = r0 \<or> (\<exists>j'. starred n mks i j' \<and> (i, j') \<in> set seq)) \<and>
     (\<forall>i k j. (i, j) \<in> set seq \<longrightarrow> (k, j) \<in> set seq \<longrightarrow> primed n mks i j \<longrightarrow> primed n mks k j \<longrightarrow> i = k)"

definition path_done :: "nat \<Rightarrow> mark list list \<Rightarrow> nat \<Rightarrow> (nat \<times> nat) list \<Rightarrow> bool" where
  "path_done n mks r0 seq \<longleftrightarrow> distinct seq \<and>
     (\<forall>i j. (i, j) \<in> set seq \<longrightarrow> primed n mks i j \<or> starred n mks i j) \<and>
     (\<forall>i j. (i, j) \<in> set seq \<longrightarrow> starred n mks i j \<longrightarrow> (\<exists>j'. (i, j') \<in> set seq \<and> primed n mks i j')) \<and>
     (\<forall>i j k. (i, j) \<in> set seq \<longrightarrow> primed n mks i j \<longrightarrow> starred n mks k j \<longrightarrow> (k, j) \<in> set seq) \<and>
     (\<forall>i j. (i, j) \<in> set seq \<longrightarrow> primed n mks i j \<longrightarrow>
        i = r0 \<or> (\<exists>j'. starred n mks i j' \<and> (i, j') \<in> set seq)) \<and>
     (\<forall>i k j. (i, j) \<in> set seq \<longrightarrow> (k, j) \<in> set seq \<longrightarrow> primed n mks i j \<longrightarrow> primed n mks k j \<longrightarrow> i = k)"

lemma not_both: "starred n mks i j \<Longrightarrow> \<not> primed n mks i j"
  by (simp add: starred_def primed_def)

lemma path_step:
  assumes p: "path_sofar n mks f r0 seq r c" and m: "star_matching n mks"
    and rk: "\<And>i j k. primed n mks i j \<Longrightarrow> starred n mks k j \<Longrightarrow> f k < f i"
    and r0: "r0 \<notin> star_rows n mks" and k: "starred n mks k c" "(k, c) \<notin> set seq"
    and c': "primed n mks k c'"
  shows "path_sofar n mks f r0 (seq @ [(k, c), (k, c')]) k c'" and "(k, c') \<notin> set seq"
proof -
  have rc: "primed n mks r c" "(r, c) \<in> set seq" and dis: "distinct seq" using p by (auto simp: path_sofar_def)
  have kr: "k \<noteq> r0" using r0 k by (auto simp: star_rows_def)
  have cc: "c' \<noteq> c" using k(1) c' not_both by blast
  show new: "(k, c') \<notin> set seq"
  proof
    assume "(k, c') \<in> set seq"
    then obtain j where "starred n mks k j" "(k, j) \<in> set seq" using p c' kr unfolding path_sofar_def by blast
    then show False using m k unfolding star_matching_def by metis
  qed
  have lt: "f k < f r" using rk rc k by blast
  have fresh_col: "i = k" if h: "(i, c') \<in> set seq" "primed n mks i c'" for i
  proof -
    have "\<not> (i = r \<and> c' = c)" using cc by auto
    then obtain l where l: "starred n mks l c'" "(l, c') \<in> set seq"
      using p h unfolding path_sofar_def by blast
    then have "f r \<le> f l" using p unfolding path_sofar_def by blast
    moreover have "f l < f k" using rk c' l by blast
    ultimately show ?thesis using lt by linarith
  qed
  note k' = not_both [OF k(1)] and c'' = not_both [of n mks k c']
  show "path_sofar n mks f r0 (seq @ [(k, c), (k, c')]) k c'"
    unfolding path_sofar_def
  proof (intro conjI allI impI)
    show "distinct (seq @ [(k, c), (k, c')])" using dis new k(2) cc by auto
    show "primed n mks k c'" by (rule c')
    show "(k, c') \<in> set (seq @ [(k, c), (k, c')])" by simp
  next
    fix i j assume "(i, j) \<in> set (seq @ [(k, c), (k, c')])"
    then show "primed n mks i j \<or> starred n mks i j" using p k c' unfolding path_sofar_def by auto
  next
    fix i j assume a: "(i, j) \<in> set (seq @ [(k, c), (k, c')])" "starred n mks i j"
    then have "(i, j) \<in> set seq \<or> (i, j) = (k, c)" using c' c'' by auto
    then show "f k \<le> f i" using p a(2) lt unfolding path_sofar_def by fastforce
  next
    fix i j assume a: "(i, j) \<in> set (seq @ [(k, c), (k, c')])" "starred n mks i j"
    then have "(i, j) \<in> set seq \<or> (i, j) = (k, c)" using c' c'' by auto
    then show "\<exists>j'. (i, j') \<in> set (seq @ [(k, c), (k, c')]) \<and> primed n mks i j'"
    proof
      assume "(i, j) \<in> set seq"
      then obtain j' where "(i, j') \<in> set seq" "primed n mks i j'" using p a(2) unfolding path_sofar_def by blast
      then show ?thesis by auto
    qed (use c' in auto)
  next
    fix i j assume a: "(i, j) \<in> set (seq @ [(k, c), (k, c')])" "primed n mks i j" "\<not> (i = k \<and> j = c')"
    then have s: "(i, j) \<in> set seq" using k' by auto
    show "\<exists>i'. starred n mks i' j \<and> (i', j) \<in> set (seq @ [(k, c), (k, c')])"
    proof (cases "i = r \<and> j = c")
      case False
      then obtain i' where "starred n mks i' j" "(i', j) \<in> set seq" using p s a(2) unfolding path_sofar_def by blast
      then show ?thesis by auto
    qed (use k in auto)
  next
    fix i j assume a: "(i, j) \<in> set (seq @ [(k, c), (k, c')])" "primed n mks i j"
    show "i = r0 \<or> (\<exists>j'. starred n mks i j' \<and> (i, j') \<in> set (seq @ [(k, c), (k, c')]))"
    proof (cases "(i, j) \<in> set seq")
      case True
      then have "i = r0 \<or> (\<exists>j'. starred n mks i j' \<and> (i, j') \<in> set seq)" using p a(2) unfolding path_sofar_def by blast
      then show ?thesis by auto
    next
      case False
      then have "i = k" using a by auto
      then show ?thesis using k by auto
    qed
  next
    fix i l j assume a: "(i, j) \<in> set (seq @ [(k, c), (k, c')])" "(l, j) \<in> set (seq @ [(k, c), (k, c')])"
      "primed n mks i j" "primed n mks l j"
    have "((i, j) \<in> set seq \<or> (i, j) = (k, c')) \<and> ((l, j) \<in> set seq \<or> (l, j) = (k, c'))"
      using a k' by auto
    moreover have "i = l" if "(i, j) \<in> set seq" "(l, j) \<in> set seq"
      using p a that unfolding path_sofar_def by blast
    ultimately show "i = l" using fresh_col a by auto
  qed
qed

lemma path_end:
  assumes p: "path_sofar n mks f r0 seq r c" and m: "star_matching n mks"
    and rk: "\<And>i j k. primed n mks i j \<Longrightarrow> starred n mks k j \<Longrightarrow> f k < f i"
    and e: "\<And>k. starred n mks k c \<Longrightarrow> (k, c) \<in> set seq"
  shows "path_done n mks r0 seq"
proof -
  have none: "\<not> starred n mks k c" for k
  proof
    assume k: "starred n mks k c"
    then have "f r \<le> f k" using p e unfolding path_sofar_def by blast
    moreover have "f k < f r" using rk k p unfolding path_sofar_def by blast
    ultimately show False by simp
  qed
  have "(k, j) \<in> set seq" if h: "(i, j) \<in> set seq" "primed n mks i j" "starred n mks k j" for i j k
  proof -
    have "\<not> (i = r \<and> j = c)" using none h by auto
    then obtain i' where "starred n mks i' j" "(i', j) \<in> set seq" using p h unfolding path_sofar_def by blast
    then show ?thesis using m h(3) unfolding star_matching_def by metis
  qed
  then show ?thesis using p unfolding path_sofar_def path_done_def by blast
qed

lemma alternating_path_ok:
  assumes "path_sofar n mks f r0 seq r c" "star_matching n mks"
    and "\<And>i j k. primed n mks i j \<Longrightarrow> starred n mks k j \<Longrightarrow> f k < f i"
    and "r0 \<notin> star_rows n mks"
    and "\<And>i j k. primed n mks i j \<Longrightarrow> starred n mks k j \<Longrightarrow> \<exists>l. primed n mks k l"
  shows "path_done n mks r0 (alternating_path mks n c seq) \<and> set seq \<subseteq> set (alternating_path mks n c seq)"
  using assms
proof (induction mks n c seq arbitrary: r rule: alternating_path.induct)
  case (1 mks n c seq r)
  note rk = "1.prems"(3)
  have cn: "c < n" and rc: "primed n mks r c" using "1.prems"(1) by (auto simp: path_sofar_def primed_def)
  show ?case
  proof (cases "star_in_col mks n c seq")
    case None
    then have "path_done n mks r0 seq"
      using cn by (intro path_end [OF "1.prems"(1,2) rk])
        (auto simp: star_in_col_def starred_def find_None_iff)
    then show ?thesis using None by (simp add: alternating_path.simps)
  next
    case (Some k)
    then have k: "starred n mks k c" "(k, c) \<notin> set seq"
      using cn find_upt_Some by (auto simp: star_in_col_def starred_def)
    obtain l where l: "primed n mks k l" using "1.prems"(5) [OF rc k(1)] by blast
    note step = path_step [OF "1.prems"(1,2) rk "1.prems"(4) k l]
    have "l \<noteq> c" using k l not_both by blast
    then have "(k, l) \<notin> set (seq @ [(k, c)])" using step(2) by auto
    then have "prime_in_row mks n k (seq @ [(k, c)]) \<noteq> None"
      using l by (auto simp: prime_in_row_def find_None_iff primed_def)
    then obtain c' where c': "prime_in_row mks n k (seq @ [(k, c)]) = Some c'" by blast
    then have pc': "primed n mks k c'"
      using k find_upt_Some by (auto simp: prime_in_row_def primed_def starred_def)
    have e: "alternating_path mks n c seq = alternating_path mks n c' (seq @ [(k, c), (k, c')])"
      using Some c' by (simp add: alternating_path.simps [of mks n c seq])
    have "path_sofar n mks f r0 (seq @ [(k, c), (k, c')]) k c'"
      by (rule path_step(1) [OF "1.prems"(1,2) rk "1.prems"(4) k pc'])
    from "1.IH" [OF Some refl c'] this "1.prems"(2-5) show ?thesis
      by (simp add: e)
  qed
qed

text \<open>Flipping the marks of the path.\<close>

definition flipped :: "mark \<Rightarrow> mark" where
  "flipped k = (case k of STAR \<Rightarrow> NORMAL | PRIME \<Rightarrow> STAR | NORMAL \<Rightarrow> NORMAL)"

definition mask_dims :: "nat \<Rightarrow> mark list list \<Rightarrow> bool" where
  "mask_dims n mks \<longleftrightarrow> length mks = n \<and> (\<forall>r<n. length (mks ! r) = n)"

lemma flip_mark_entry:
  assumes "mask_dims n mks" "i < n" "j < n"
  shows "mask_dims n (flip_mark (i, j) mks)"
    and "r < n \<Longrightarrow> k < n \<Longrightarrow> flip_mark (i, j) mks ! r ! k = (if (r, k) = (i, j) then flipped (mks ! r ! k) else mks ! r ! k)"
proof -
  have d: "length mks = n" "\<forall>r<n. length (mks ! r) = n" using assms by (auto simp: mask_dims_def)
  note en = set_mark_entry [OF d assms(2,3)]
  have "flip_mark (i, j) mks = (if mks ! i ! j = STAR then set_mark i j NORMAL mks
      else if mks ! i ! j = PRIME then set_mark i j STAR mks else mks)"
    using en [of i j NORMAL] assms by (simp add: flip_mark_def Let_def)
  then show "mask_dims n (flip_mark (i, j) mks)"
    "r < n \<Longrightarrow> k < n \<Longrightarrow> flip_mark (i, j) mks ! r ! k = (if (r, k) = (i, j) then flipped (mks ! r ! k) else mks ! r ! k)"
    using d assms en by (auto simp: mask_dims_def set_mark_dims flipped_def split: mark.split)
qed

lemma flip_fold:
  assumes "mask_dims n mks" "distinct seq" "\<And>i j. (i, j) \<in> set seq \<Longrightarrow> i < n \<and> j < n"
  shows "mask_dims n (fold flip_mark seq mks) \<and> (\<forall>r<n. \<forall>k<n. fold flip_mark seq mks ! r ! k =
     (if (r, k) \<in> set seq then flipped (mks ! r ! k) else mks ! r ! k))"
  using assms
proof (induction seq arbitrary: mks)
  case (Cons p seq)
  obtain i j where p: "p = (i, j)" by (cases p)
  have ij: "i < n" "j < n" using Cons.prems(3) [of i j] p by auto
  note fm = flip_mark_entry [OF Cons.prems(1) ij]
  have sub: "distinct seq" "\<And>i j. (i, j) \<in> set seq \<Longrightarrow> i < n \<and> j < n" "(i, j) \<notin> set seq"
    using Cons.prems(2,3) by (auto simp: p)
  note ih = Cons.IH [OF fm(1) sub(1,2)]
  have "fold flip_mark seq (flip_mark (i, j) mks) ! r ! k =
      (if (r, k) \<in> set (p # seq) then flipped (mks ! r ! k) else mks ! r ! k)" if "r < n" "k < n" for r k
    using ih fm(2) [OF that] sub(3) that by (auto simp: p)
  then show ?case using ih by (simp add: p)
qed simp

lemma step4_ok:
  assumes s: "path_ready n c s"
  shows "fst (step4 s) = 2" "mk_inv n c (snd (step4 s))" "fresh n (snd (step4 s))"
    "star_rows n (mk_mask (snd (step4 s))) = insert (mk_saverow s) (star_rows n (mk_mask s))"
    "mk_saverow s \<notin> star_rows n (mk_mask s)" "mk_saverow s < n"
proof -
  define r0 c0 mks where "r0 = mk_saverow s" and "c0 = mk_savecol s" and "mks = mk_mask s"
  have inv: "mk_inv n c s" and cov: "cover_ok n s" and pr: "primes_ok n (Some r0) s" and mt: "star_matching n mks"
    and d: "mk_dims n s" and p0: "primed n mks r0 c0" and r0: "r0 \<notin> star_rows n mks"
    using s by (auto simp: path_ready_def mk_inv_def r0_def c0_def mks_def)
  obtain f where rk: "ranked n s f" using s by (auto simp: path_ready_def)
  have lt: "f k < f i" and row: "\<exists>l. primed n mks k l" if "primed n mks i j" "starred n mks k j" for i j k
    using rk that pr by (auto simp: ranked_def primes_ok_def mks_def) (metis starred_def)
  have uni: "j = k" if "primed n mks i j" "primed n mks i k" for i j k
    using pr that by (auto simp: primes_ok_def mks_def)
  have b: "r0 < n" "c0 < n" using p0 by (auto simp: primed_def)
  have n: "mk_size s = n" using d by simp
  define seq where "seq = alternating_path mks n c0 [(r0, c0)]"
  have "path_sofar n mks f r0 [(r0, c0)] r0 c0"
    using p0 not_both [of n mks r0 c0] by (auto simp: path_sofar_def)
  from alternating_path_ok [OF this mt lt r0 row]
  have pd: "path_done n mks r0 seq" and z0: "(r0, c0) \<in> set seq" by (auto simp: seq_def)
  have sb: "i < n \<and> j < n" if "(i, j) \<in> set seq" for i j
    using pd that by (auto simp: path_done_def primed_def starred_def)
  have md: "mask_dims n mks" using d by (simp add: mk_dims_def mask_dims_def mks_def)
  have "distinct seq" using pd by (simp add: path_done_def)
  note ff = flip_fold [OF md this sb]
  define mks' where "mks' = map (map (\<lambda>k. if k = PRIME then NORMAL else k)) (fold flip_mark seq mks)"
  have md': "mask_dims n mks'" using ff by (auto simp: mks'_def mask_dims_def)
  have en: "mks' ! i ! j = (if (i, j) \<in> set seq then flipped (mks ! i ! j)
      else if mks ! i ! j = PRIME then NORMAL else mks ! i ! j)" if "i < n" "j < n" for i j
    using ff that by (auto simp: mks'_def mask_dims_def flipped_def split: mark.split)
  have st: "starred n mks' i j \<longleftrightarrow> starred n mks i j \<and> (i, j) \<notin> set seq \<or> primed n mks i j \<and> (i, j) \<in> set seq" for i j
    by (auto simp: starred_def primed_def en flipped_def cong: conj_cong split: mark.splits)
  have np: "\<not> primed n mks' i j" for i j
    by (auto simp: primed_def en flipped_def split: mark.splits if_splits)
  have e: "step4 s = (2, s\<lparr>mk_mask := mks', mk_row := map (\<lambda>_. False) (mk_row s), mk_col := map (\<lambda>_. False) (mk_col s)\<rparr>)"
    by (simp add: step4_def n seq_def mks'_def mks_def r0_def c0_def Let_def)
  show "fst (step4 s) = 2" by (simp add: e)
  show "mk_saverow s \<notin> star_rows n (mk_mask s)" "mk_saverow s < n" using r0 b by (simp_all add: r0_def mks_def)
  note seqS = pd [unfolded path_done_def]
  have mt': "star_matching n mks'"
    unfolding star_matching_def st
  proof (intro conjI allI impI)
    fix i j k
    assume a: "starred n mks i j \<and> (i, j) \<notin> set seq \<or> primed n mks i j \<and> (i, j) \<in> set seq"
      and b: "starred n mks i k \<and> (i, k) \<notin> set seq \<or> primed n mks i k \<and> (i, k) \<in> set seq"
    have mixed: False if h: "starred n mks i j" "(i, j) \<notin> set seq" "primed n mks i k" "(i, k) \<in> set seq" for j k
    proof -
      have "i \<noteq> r0" using h r0 by (auto simp: star_rows_def)
      then obtain j' where "starred n mks i j'" "(i, j') \<in> set seq" using seqS h by blast
      then show False using mt h unfolding star_matching_def by metis
    qed
    show "j = k" using a b mixed uni mt unfolding star_matching_def by blast
  next
    fix i k j
    assume a: "starred n mks i j \<and> (i, j) \<notin> set seq \<or> primed n mks i j \<and> (i, j) \<in> set seq"
      and b: "starred n mks k j \<and> (k, j) \<notin> set seq \<or> primed n mks k j \<and> (k, j) \<in> set seq"
    show "i = k" using a b seqS mt unfolding star_matching_def by blast
  qed
  show "mk_inv n c (snd (step4 s))"
  proof -
    have "mk_mat s ! i ! j = 0" if h: "i < n" "j < n" "mks' ! i ! j \<noteq> NORMAL" for i j
    proof -
      have "mks ! i ! j \<noteq> NORMAL" using h en [OF h(1,2)] by (auto simp: flipped_def split: if_splits)
      then show ?thesis using inv h by (simp add: mk_inv_def mks_def)
    qed
    then show ?thesis using inv mt' md' by (simp add: e mk_inv_def mk_dims_def mask_dims_def)
  qed
  show "fresh n (snd (step4 s))" using d np by (simp add: e fresh_def mk_dims_def)
  have "star_rows n mks' = insert r0 (star_rows n mks)"
  proof (intro set_eqI iffI)
    fix i assume "i \<in> star_rows n mks'"
    then obtain j where "starred n mks' i j" by (auto simp: star_rows_def)
    then have "starred n mks i j \<or> primed n mks i j \<and> (i, j) \<in> set seq" using st by blast
    then show "i \<in> insert r0 (star_rows n mks)" using seqS unfolding star_rows_def by blast
  next
    fix i assume i: "i \<in> insert r0 (star_rows n mks)"
    show "i \<in> star_rows n mks'"
    proof (cases "i = r0")
      case True
      then show ?thesis using z0 p0 st by (auto simp: star_rows_def)
    next
      case False
      then obtain j where j: "starred n mks i j" using i by (auto simp: star_rows_def)
      show ?thesis
      proof (cases "(i, j) \<in> set seq")
        case True
        then obtain j' where "(i, j') \<in> set seq" "primed n mks i j'" using seqS j by blast
        then show ?thesis using st by (auto simp: star_rows_def)
      qed (use j st in \<open>auto simp: star_rows_def\<close>)
    qed
  qed
  then show "star_rows n (mk_mask (snd (step4 s))) = insert (mk_saverow s) (star_rows n (mk_mask s))"
    by (simp add: e r0_def mks_def)
qed

section \<open>The loop\<close>

definition stage :: "nat \<Rightarrow> (nat \<Rightarrow> nat \<Rightarrow> real) \<Rightarrow> nat \<Rightarrow> munkres \<Rightarrow> bool" where
  "stage n c k s \<longleftrightarrow> (k = 2 \<and> mk_inv n c s \<and> fresh n s) \<or> (k = 3 \<and> searching n c s) \<or>
     (k = 4 \<and> path_ready n c s) \<or> (k = 5 \<and> searching n c s \<and> \<not> uncovered_zero n s)"

definition finished :: "nat \<Rightarrow> (nat \<Rightarrow> nat \<Rightarrow> real) \<Rightarrow> munkres \<Rightarrow> bool" where
  "finished n c s \<longleftrightarrow> mk_inv n c s \<and> star_rows n (mk_mask s) = {..<n}"

text \<open>
  The measure of the loop: the rows without a star, then the rows not covered, then how often
  step 5 can still leave no zero.
\<close>

definition loop_measure :: "nat \<Rightarrow> nat \<times> munkres \<Rightarrow> nat \<times> nat \<times> nat" where
  "loop_measure n = (\<lambda>(k, s). (n - card (star_rows n (mk_mask s)),
     if k = 2 then Suc n else n - card (covered_rows n s),
     if k = 4 then 0 else if k = 5 then 2 * excess n s else 2 * excess n s + 1))"

definition loop_less :: "nat \<Rightarrow> ((nat \<times> munkres) \<times> (nat \<times> munkres)) set" where
  "loop_less n = inv_image (less_than <*lex*> less_than <*lex*> less_than) (loop_measure n)"

lemma loop_less_wf: "wf (loop_less n)"
  unfolding loop_less_def by (intro wf_inv_image wf_lex_prod wf_less_than)

lemma loop_lessI:
  "n - card (star_rows n (mk_mask s')) < n - card (star_rows n (mk_mask s)) \<Longrightarrow> ((k', s'), (k, s)) \<in> loop_less n"
  "star_rows n (mk_mask s') = star_rows n (mk_mask s) \<Longrightarrow>
     fst (snd (loop_measure n (k', s'))) < fst (snd (loop_measure n (k, s))) \<Longrightarrow> ((k', s'), (k, s)) \<in> loop_less n"
  "star_rows n (mk_mask s') = star_rows n (mk_mask s) \<Longrightarrow>
     fst (snd (loop_measure n (k', s'))) = fst (snd (loop_measure n (k, s))) \<Longrightarrow>
     snd (snd (loop_measure n (k', s'))) < snd (snd (loop_measure n (k, s))) \<Longrightarrow> ((k', s'), (k, s)) \<in> loop_less n"
  by (auto simp: loop_less_def loop_measure_def)

lemma covered_card: "card (covered_rows n s) \<le> n" "finite (covered_rows n s)"
proof -
  have "covered_rows n s \<subseteq> {..<n}" by (auto simp: covered_rows_def)
  then show "card (covered_rows n s) \<le> n" "finite (covered_rows n s)"
    using card_mono [of "{..<n}"] finite_subset by auto
qed

lemma excess_cong:
  "mk_mat s' = mk_mat s \<Longrightarrow> uncovered n s' = uncovered n s \<Longrightarrow> excess n s' = excess n s"
  by (simp add: excess_def uncovered_zero_def)

lemma stage_step:
  assumes st: "stage n c k s" and e: "munkres_step k s = (k', s')"
  shows "(k' = 0 \<and> finished n c s') \<or> (k' \<noteq> 0 \<and> stage n c k' s' \<and> ((k', s'), (k, s)) \<in> loop_less n)"
  using st unfolding stage_def [of n c k s]
proof (elim disjE conjE)
  assume k: "k = 2" and s: "mk_inv n c s" "fresh n s"
  have e2: "step2 s = (k', s')" using e k by (simp add: munkres_step_def)
  from step2_ok [OF s] consider "k' = 0" "finished n c s'" | "k' = 3" "searching n c s'"
    by (auto simp: e2 finished_def)
  then show ?thesis
  proof cases
    case 2
    have "star_rows n (mk_mask s') = star_rows n (mk_mask s)" using step2_ok(2) [OF s] by (simp add: e2)
    then have "((k', s'), (k, s)) \<in> loop_less n"
      by (rule loop_lessI(2)) (simp add: loop_measure_def k 2)
    then show ?thesis using 2 by (simp add: stage_def)
  qed simp
next
  assume k: "k = 3" and s: "searching n c s"
  have e3: "step3 s = (k', s')" using e k by (simp add: munkres_step_def)
  have sr: "star_rows n (mk_mask s') = star_rows n (mk_mask s)" using step3_ok(2) [OF s] by (simp add: e3)
  from step3_ok(1) [OF s] consider
      "k' = 5" "searching n c s'" "\<not> uncovered_zero n s'" "mk_mat s' = mk_mat s" "uncovered n s' = uncovered n s"
        "covered_rows n s' = covered_rows n s"
    | r where "k' = 3" "searching n c s'" "r < n" "r \<notin> covered_rows n s" "covered_rows n s' = insert r (covered_rows n s)"
    | "k' = 4" "path_ready n c s'" "covered_rows n s' = covered_rows n s"
    by (auto simp: e3)
  then show ?thesis
  proof cases
    case 1
    have "((k', s'), (k, s)) \<in> loop_less n"
      by (rule loop_lessI(3) [OF sr]) (simp_all add: loop_measure_def k 1 excess_cong [OF 1(4,5)])
    then show ?thesis using 1 by (simp add: stage_def)
  next
    case 2
    have "card (covered_rows n s') = Suc (card (covered_rows n s))" using 2 covered_card by simp
    then have "((k', s'), (k, s)) \<in> loop_less n"
      using covered_card(1) [of n s'] by (intro loop_lessI(2) [OF sr]) (simp add: loop_measure_def k 2(1))
    then show ?thesis using 2 by (simp add: stage_def)
  next
    case 3
    have "((k', s'), (k, s)) \<in> loop_less n"
      by (rule loop_lessI(3) [OF sr]) (simp_all add: loop_measure_def k 3)
    then show ?thesis using 3 by (simp add: stage_def)
  qed
next
  assume k: "k = 4" and s: "path_ready n c s"
  have e4: "step4 s = (k', s')" using e k by (simp add: munkres_step_def)
  note s4 = step4_ok [OF s, unfolded e4 fst_conv snd_conv]
  have "card (star_rows n (mk_mask s')) = Suc (card (star_rows n (mk_mask s)))" using s4 by simp
  moreover have "card (star_rows n (mk_mask s')) \<le> card {..<n}" by (rule card_mono) simp_all
  ultimately have "((k', s'), (k, s)) \<in> loop_less n" by (intro loop_lessI(1)) simp
  then show ?thesis using s4 by (simp add: stage_def)
next
  assume k: "k = 5" and s: "searching n c s" "\<not> uncovered_zero n s"
  have e5: "step5 s = (k', s')" using e k by (simp add: munkres_step_def)
  note s5 = step5_ok [OF s, unfolded e5 fst_conv snd_conv]
  have "((k', s'), (k, s)) \<in> loop_less n"
    by (rule loop_lessI(3)) (use s5 in \<open>simp_all add: loop_measure_def k\<close>)
  then show ?thesis using s5 by (simp add: stage_def)
qed

lemma munkres_loop_ok:
  assumes "stage n c k s" "k \<noteq> 0"
  shows "\<exists>s'. munkres_loop k s = Some s' \<and> finished n c s'"
proof -
  have "stage n c (fst p) (snd p) \<Longrightarrow> fst p \<noteq> 0 \<Longrightarrow> \<exists>s'. munkres_loop (fst p) (snd p) = Some s' \<and> finished n c s'" for p
  proof (induction p rule: wf_induct_rule [OF loop_less_wf [of n]])
    case (1 p)
    obtain k s where p: "p = (k, s)" by (cases p)
    obtain k' s' where e: "munkres_step k s = (k', s')" by (cases "munkres_step k s")
    have k: "k \<noteq> 0" and l: "munkres_loop k s = munkres_loop k' s'"
      using 1(3) e by (simp_all add: p munkres_loop.simps [of k s])
    have "stage n c k s" using 1(2) by (simp add: p)
    from stage_step [OF this e] consider "k' = 0" "finished n c s'"
      | "k' \<noteq> 0" "stage n c k' s'" "((k', s'), p) \<in> loop_less n" by (auto simp: p)
    then have "\<exists>s''. munkres_loop k' s' = Some s'' \<and> finished n c s''"
    proof cases
      case 1
      then show ?thesis by (simp add: munkres_loop.simps)
    next
      case 2
      with 1(1) [of "(k', s')"] show ?thesis by simp
    qed
    then show ?case by (simp add: p l)
  qed
  from this [of "(k, s)"] assms show ?thesis by simp
qed

section \<open>The start\<close>

lemma line_min_le:
  assumes "xs \<noteq> []" "\<forall>x\<in>set xs. 0 \<le> (x :: real)"
  shows "0 \<le> line_min xs \<and> (\<forall>x\<in>set xs. line_min xs \<le> x)"
proof -
  have "0 \<le> fold (\<lambda>x m. if m > 0 then min m x else m) ys a \<and> fold (\<lambda>x m. if m > 0 then min m x else m) ys a \<le> a \<and>
      (\<forall>y\<in>set ys. fold (\<lambda>x m. if m > 0 then min m x else m) ys a \<le> y)"
    if "0 \<le> a" "\<forall>y\<in>set ys. 0 \<le> y" for a :: real and ys
    using that
  proof (induction ys arbitrary: a)
    case (Cons y ys)
    let ?a = "if a > 0 then min a y else a"
    have "0 \<le> ?a" "?a \<le> a" "?a \<le> y" using Cons.prems by auto
    then show ?case using Cons.IH [of ?a] Cons.prems by force
  qed simp
  from this [of "hd xs" "tl xs"] assms show ?thesis
    by (cases xs) (auto simp: line_min_def)
qed

lemma reduced_rows:
  assumes r: "reduced n c m" and m: "is_mat n n m" and n: "0 < n"
  shows "reduced n c (map minimize_line m)" "is_mat n n (map minimize_line m)"
proof -
  have e: "\<exists>w. \<forall>j<n. map minimize_line m ! i ! j = m ! i ! j - w \<and> 0 \<le> m ! i ! j - w" if i: "i < n" for i
  proof -
    have li: "i < length m" "length (m ! i) = n" using m i by (auto simp: is_mat_def)
    have nn: "\<forall>x\<in>set (m ! i). 0 \<le> x" using r i li by (auto simp: reduced_def in_set_conv_nth)
    have "m ! i \<noteq> []" using li n by auto
    note lm = line_min_le [OF this nn]
    show ?thesis
    proof (cases "line_min (m ! i) > 0")
      case True
      then show ?thesis using lm li
        by (intro exI [of _ "line_min (m ! i)"]) (simp add: minimize_line_def Let_def)
    next
      case False
      then show ?thesis using nn li by (intro exI [of _ 0]) (simp add: minimize_line_def Let_def)
    qed
  qed
  obtain w where w: "\<And>i j. i < n \<Longrightarrow> j < n \<Longrightarrow> map minimize_line m ! i ! j = m ! i ! j - w i \<and> 0 \<le> m ! i ! j - w i"
    using e by metis
  obtain u v where uv: "\<And>i j. i < n \<Longrightarrow> j < n \<Longrightarrow> m ! i ! j = c i j - u i - v j"
    using r unfolding reduced_def by blast
  have "\<exists>u v. \<forall>i<n. \<forall>j<n. map minimize_line m ! i ! j = c i j - u i - v j"
    by (intro exI [of _ "\<lambda>i. u i + w i"] exI [of _ v]) (use w uv in simp)
  then show "reduced n c (map minimize_line m)" using w by (auto simp: reduced_def)
  show "is_mat n n (map minimize_line m)"
    using m by (auto simp: is_mat_def minimize_line_def Let_def)
qed

lemma reduced_trans:
  assumes "reduced n c m" "is_mat n n m" "0 < n"
  shows "reduced n (\<lambda>i j. c j i) (mat_trans m)" "is_mat n n (mat_trans m)"
proof -
  have t: "mat_trans m = mat_mk n n (\<lambda>i j. m ! j ! i)" using mat_trans_eq assms by blast
  obtain u v where uv: "\<And>i j. i < n \<Longrightarrow> j < n \<Longrightarrow> m ! i ! j = c i j - u i - v j"
    using assms unfolding reduced_def by blast
  have "\<exists>u v. \<forall>i<n. \<forall>j<n. mat_trans m ! i ! j = c j i - u i - v j"
    by (intro exI [of _ v] exI [of _ u]) (simp add: t uv)
  then show "reduced n (\<lambda>i j. c j i) (mat_trans m)" using assms by (auto simp: t reduced_def)
  show "is_mat n n (mat_trans m)" by (simp add: t)
qed

lemma minimize_ok:
  assumes "reduced n c m" "is_mat n n m" "0 < n"
  shows "reduced n c (minimize_along_direction b m)" "is_mat n n (minimize_along_direction b m)"
proof -
  note t1 = reduced_trans [OF assms]
  note t2 = reduced_rows [OF t1 assms(3)]
  note t3 = reduced_trans [OF t2 assms(3)]
  show "reduced n c (minimize_along_direction b m)" "is_mat n n (minimize_along_direction b m)"
    using reduced_rows [OF assms] t3 by (simp_all add: minimize_along_direction_def)
qed

text \<open>The square cost matrix: the rectangle filled up with its largest entry.\<close>

definition square_cost :: "mat \<Rightarrow> nat \<Rightarrow> nat \<Rightarrow> nat \<Rightarrow> nat \<Rightarrow> real" where
  "square_cost m r k i j = (if i < r \<and> j < k then m ! i ! j else mx_max m)"

lemma fold_max_ge: "a \<le> fold (\<lambda>j acc. max acc (f j)) xs (a :: real)"
  by (induction xs arbitrary: a) (auto intro: order.trans [OF max.cobounded1])

lemma mx_max_ge: "m ! 0 ! 0 \<le> mx_max m"
proof -
  have "a \<le> fold (\<lambda>i acc. fold (\<lambda>j acc. max acc (m ! i ! j)) ys acc) xs a" for a :: real and xs ys
    by (induction xs arbitrary: a) (auto intro: order.trans [OF fold_max_ge])
  then show ?thesis by (simp add: mx_max_def)
qed

lemma munkres_start_ok:
  assumes m: "is_mat r k m" "0 < r" "0 < k" and nn: "\<forall>i<r. \<forall>j<k. 0 \<le> m ! i ! j"
  defines "n \<equiv> max r k"
  shows "stage n (square_cost m r k) 2 (snd (step1 (munkres_start m)))" "fst (step1 (munkres_start m)) = 2"
proof -
  have dim: "length m = r" "n_cols m = k" using m by (auto simp: is_mat_length n_cols_is_mat)
  define sq where "sq = (if r \<noteq> k then mx_resize m n n (mx_max m) else m)"
  have n: "0 < n" using m by (simp add: n_def)
  have entries: "sq ! i ! j = square_cost m r k i j" if "i < n" "j < n" for i j
    using that dim by (auto simp: sq_def square_cost_def mx_resize_def n_def)
  have mat: "is_mat n n sq" using m by (auto simp: sq_def mx_resize_def n_def)
  have "0 \<le> mx_max m" using mx_max_ge [of m] nn m by force
  then have "0 \<le> square_cost m r k i j" for i j using nn by (auto simp: square_cost_def)
  moreover have "\<exists>u v. \<forall>i<n. \<forall>j<n. sq ! i ! j = square_cost m r k i j - u i - v j"
    by (intro exI [of _ "\<lambda>_. 0"]) (simp add: entries)
  ultimately have red: "reduced n (square_cost m r k) sq" by (simp add: reduced_def entries)
  define sq' where "sq' = minimize_along_direction (r < k) (minimize_along_direction (r \<ge> k) sq)"
  note m1 = minimize_ok [OF red mat n, of "r \<ge> k"]
  note m2 = minimize_ok [OF m1 n, of "r < k", folded sq'_def]
  have e: "munkres_start m = \<lparr>mk_mat = sq', mk_mask = replicate n (replicate n NORMAL),
          mk_row = replicate n False, mk_col = replicate n False, mk_saverow = 0, mk_savecol = 0\<rparr>"
    by (simp add: munkres_start_def dim Let_def sq'_def sq_def n_def)
  have fr: "fresh n (munkres_start m)" by (auto simp: e fresh_def primed_def)
  have st: "star_matching n (replicate n (replicate n NORMAL))" by (auto simp: star_matching_def starred_def)
  then have inv: "mk_inv n (square_cost m r k) (munkres_start m)"
    using m2 n by (auto simp: e mk_inv_def mk_dims_def)
  have "starring n (mk_mat (munkres_start m)) 0 (mk_mask (munkres_start m))"
    using st by (auto simp: e starring_def)
  from step1_ok [OF inv fr this]
  show "stage n (square_cost m r k) 2 (snd (step1 (munkres_start m)))" "fst (step1 (munkres_start m)) = 2"
    by (auto simp: stage_def)
qed

section \<open>The result\<close>

lemma finished_assignment:
  assumes "finished n c s"
  shows "\<exists>p. bij_betw p {..<n} {..<n} \<and> (\<forall>i<n. \<forall>j<n. mk_mask s ! i ! j = STAR \<longleftrightarrow> j = p i) \<and>
     (\<forall>q. bij_betw q {..<n} {..<n} \<longrightarrow> (\<Sum>i<n. c i (p i)) \<le> (\<Sum>i<n. c i (q i)))"
proof -
  have inv: "mk_inv n c s" and mt: "star_matching n (mk_mask s)" and all: "star_rows n (mk_mask s) = {..<n}"
    using assms by (auto simp: finished_def mk_inv_def)
  have "\<forall>i<n. \<exists>j. starred n (mk_mask s) i j" using all by (auto simp: star_rows_def)
  then obtain p where p: "\<And>i. i < n \<Longrightarrow> starred n (mk_mask s) i (p i)" by metis
  have star: "mk_mask s ! i ! j = STAR \<longleftrightarrow> j = p i" if "i < n" "j < n" for i j
  proof -
    have "mk_mask s ! i ! j = STAR \<longleftrightarrow> starred n (mk_mask s) i j" using that by (simp add: starred_def)
    then show ?thesis using p [OF that(1)] mt unfolding star_matching_def by metis
  qed
  have "inj_on p {..<n}"
    using p mt unfolding star_matching_def by (intro inj_onI) (metis lessThan_iff)
  moreover have "p ` {..<n} \<subseteq> {..<n}" using p by (auto simp: starred_def)
  ultimately have bij: "bij_betw p {..<n} {..<n}"
    by (simp add: bij_betw_def endo_inj_surj)
  obtain u v where uv: "\<And>i j. i < n \<Longrightarrow> j < n \<Longrightarrow> mk_mat s ! i ! j = c i j - u i - v j"
    using inv unfolding mk_inv_def reduced_def by blast
  have nn: "0 \<le> mk_mat s ! i ! j" if "i < n" "j < n" for i j using inv that by (auto simp: mk_inv_def reduced_def)
  have best: "(\<Sum>i<n. c i (p i)) \<le> (\<Sum>i<n. c i (q i))" if q: "bij_betw q {..<n} {..<n}" for q
  proof -
    have sv: "(\<Sum>i<n. v (q i)) = (\<Sum>j<n. v j)" if "bij_betw q {..<n} {..<n}" for q
      by (rule sum.reindex_bij_betw [OF that])
    have "(\<Sum>i<n. c i (p i)) = (\<Sum>i<n. u i + v (p i))"
    proof (rule sum.cong [OF refl])
      fix i assume "i \<in> {..<n}"
      then have i: "i < n" "p i < n" using p by (auto simp: starred_def)
      then have "mk_mask s ! i ! p i \<noteq> NORMAL" using star [OF i] by simp
      then have "mk_mat s ! i ! p i = 0" using inv i by (simp add: mk_inv_def)
      then show "c i (p i) = u i + v (p i)" using uv [OF i] by simp
    qed
    also have "\<dots> = (\<Sum>i<n. u i + v (q i))" by (simp add: sum.distrib sv [OF q] sv [OF bij])
    also have "\<dots> \<le> (\<Sum>i<n. c i (q i))"
    proof (rule sum_mono)
      fix i assume "i \<in> {..<n}"
      then have i: "i < n" "q i < n" using bij_betwE [OF q] by auto
      show "u i + v (q i) \<le> c i (q i)" using uv [OF i] nn [OF i] by simp
    qed
    finally show ?thesis .
  qed
  show ?thesis using bij star best by blast
qed

definition full_matching :: "nat \<Rightarrow> nat \<Rightarrow> (nat \<times> nat) list \<Rightarrow> bool" where
  "full_matching r k M \<longleftrightarrow> set M \<subseteq> {..<r} \<times> {..<k} \<and> distinct (map fst M) \<and> distinct (map snd M) \<and>
     length M = min r k"

definition matching_cost :: "mat \<Rightarrow> (nat \<times> nat) list \<Rightarrow> real" where
  "matching_cost m M = (\<Sum>(i, j)\<leftarrow>M. m ! i ! j)"

text \<open>The positions of a permutation inside the rectangle, and their number.\<close>

definition inside :: "nat \<Rightarrow> nat \<Rightarrow> (nat \<Rightarrow> nat) \<Rightarrow> nat set" where
  "inside r k q = {i. i < r \<and> q i < k}"

lemma inside_card:
  assumes q: "bij_betw q {..<max r k} {..<max r k}"
  shows "card (inside r k q) = min r k" "inside r k q \<subseteq> {..<max r k}" "inj_on q (inside r k q)"
proof -
  show sub: "inside r k q \<subseteq> {..<max r k}" by (auto simp: inside_def)
  show inj: "inj_on q (inside r k q)" using q sub by (auto simp: bij_betw_def intro: inj_on_subset)
  show "card (inside r k q) = min r k"
  proof (cases "r \<le> k")
    case True
    then have "inside r k q = {..<r}" using bij_betwE [OF q] by (force simp: inside_def)
    then show ?thesis using True by simp
  next
    case False
    have "q ` inside r k q = {..<k}"
    proof (intro equalityI subsetI)
      fix j assume "j \<in> {..<k}"
      then obtain i where "i < r" "q i = j" using q False unfolding bij_betw_def by (metis (no_types, lifting)
          imageE lessThan_iff linear max_def nat_less_le order_less_trans not_le)
      then show "j \<in> q ` inside r k q" using \<open>j \<in> {..<k}\<close> by (auto simp: inside_def)
    qed (auto simp: inside_def)
    then show ?thesis using card_image [OF inj] False by simp
  qed
qed

lemma inside_sum:
  assumes q: "bij_betw q {..<max r k} {..<max r k}"
  shows "(\<Sum>i<max r k. square_cost m r k i (q i)) =
     (\<Sum>i\<in>inside r k q. m ! i ! q i) + real (max r k - min r k) * mx_max m"
proof -
  let ?n = "max r k"
  note ic = inside_card [OF q]
  have "(\<Sum>i<?n. square_cost m r k i (q i)) =
      (\<Sum>i\<in>inside r k q. square_cost m r k i (q i)) + (\<Sum>i\<in>{..<?n} - inside r k q. square_cost m r k i (q i))"
    using sum.subset_diff [OF ic(2), of "\<lambda>i. square_cost m r k i (q i)"] by simp
  moreover have "(\<Sum>i\<in>inside r k q. square_cost m r k i (q i)) = (\<Sum>i\<in>inside r k q. m ! i ! q i)"
    by (rule sum.cong [OF refl]) (simp add: inside_def square_cost_def)
  moreover have "(\<Sum>i\<in>{..<?n} - inside r k q. square_cost m r k i (q i)) = (\<Sum>i\<in>{..<?n} - inside r k q. mx_max m)"
    by (rule sum.cong [OF refl]) (auto simp: inside_def square_cost_def)
  moreover have "card ({..<?n} - inside r k q) = ?n - min r k"
    using ic by (simp add: card_Diff_subset finite_subset [OF ic(2)])
  moreover have "min r k \<le> max r k" by simp
  ultimately show ?thesis by (simp add: of_nat_diff del: min.bounded_iff max.bounded_iff)
qed

text \<open>Every full matching of the rectangle extends to a permutation of the square.\<close>

lemma matching_extends:
  assumes M: "full_matching r k M"
  shows "\<exists>q. bij_betw q {..<max r k} {..<max r k} \<and>
     matching_cost m M = (\<Sum>i\<in>inside r k q. m ! i ! q i)"
proof -
  let ?n = "max r k" and ?A = "fst ` set M" and ?B = "snd ` set M"
  have sub: "set M \<subseteq> {..<r} \<times> {..<k}" and d: "distinct (map fst M)" "distinct (map snd M)" and len: "length M = min r k"
    using M by (auto simp: full_matching_def)
  have dM: "distinct M" using d(1) by (simp add: distinct_map)
  define g where "g i = the (map_of M i)" for i
  have g: "g i = j" if "(i, j) \<in> set M" for i j
    using map_of_is_SomeI [OF d(1) that] by (simp add: g_def)
  have A: "?A \<subseteq> {..<?n}" "?B \<subseteq> {..<?n}" using sub by force+
  have card: "card ?A = min r k" "card ?B = min r k"
    using d len by (metis distinct_card length_map set_map)+
  have inj: "inj_on snd (set M)" using d(2) by (simp add: distinct_map)
  have bg: "bij_betw g ?A ?B"
  proof (rule bij_betw_imageI)
    show "inj_on g ?A"
    proof (rule inj_onI)
      fix i i' assume "i \<in> ?A" "i' \<in> ?A" and eq: "g i = g i'"
      then obtain j j' where "(i, j) \<in> set M" "(i', j') \<in> set M" by force
      then show "i = i'" using eq g inj unfolding inj_on_def by fastforce
    qed
    show "g ` ?A = ?B" using g by force
  qed
  have "card ({..<?n} - ?A) = card ({..<?n} - ?B)"
    using A card by (simp add: card_Diff_subset)
  then obtain h where h: "bij_betw h ({..<?n} - ?A) ({..<?n} - ?B)"
    using finite_same_card_bij [of "{..<?n} - ?A" "{..<?n} - ?B"] by auto
  define q where "q i = (if i \<in> ?A then g i else h i)" for i
  have "bij_betw q (?A \<union> ({..<?n} - ?A)) (?B \<union> ({..<?n} - ?B))"
  proof (rule bij_betw_combine)
    show "bij_betw q ?A ?B" using bg by (rule bij_betw_cong [THEN iffD1, rotated]) (simp add: q_def)
    show "bij_betw q ({..<?n} - ?A) ({..<?n} - ?B)" using h by (rule bij_betw_cong [THEN iffD1, rotated]) (simp add: q_def)
  qed auto
  moreover have "?A \<union> ({..<?n} - ?A) = {..<?n}" "?B \<union> ({..<?n} - ?B) = {..<?n}" using A by auto
  ultimately have q: "bij_betw q {..<?n} {..<?n}" by simp
  have "?A \<subseteq> inside r k q" using sub g by (auto simp: inside_def q_def image_iff)
  then have AI: "?A = inside r k q"
    using inside_card [OF q] card by (intro card_subset_eq) (auto intro: finite_subset)
  have "matching_cost m M = (\<Sum>(i, j)\<in>set M. m ! i ! j)"
    by (simp add: matching_cost_def sum_list_distinct_conv_sum_set [OF dM])
  also have "\<dots> = (\<Sum>i\<in>?A. m ! i ! q i)"
  proof (rule sum.reindex_cong [of "\<lambda>i. (i, q i)"])
    show "inj_on (\<lambda>i. (i, q i)) ?A" by (auto intro: inj_onI)
    show "set M = (\<lambda>i. (i, q i)) ` ?A" using g by (force simp: q_def image_iff)
  qed simp
  finally show ?thesis using q AI by auto
qed

text \<open>The solver of DeepSort: the pairs \<open>HungarianOper::Solve\<close> returns.\<close>

lemma hungarian_correct:
  assumes m: "is_mat r k m" "0 < r" "0 < k" and nn: "\<forall>i<r. \<forall>j<k. 0 \<le> m ! i ! j"
  shows "\<exists>M. hungarian_solve m = Some M \<and> full_matching r k M \<and>
     (\<forall>M'. full_matching r k M' \<longrightarrow> matching_cost m M \<le> matching_cost m M')"
proof -
  let ?n = "max r k" and ?c = "square_cost m r k"
  have dim: "length m = r" "n_cols m = k" using m by (auto simp: is_mat_length n_cols_is_mat)
  obtain s1 where s1: "step1 (munkres_start m) = (2, s1)" "stage ?n ?c 2 s1"
    using munkres_start_ok [OF m nn] by (cases "step1 (munkres_start m)") auto
  from munkres_loop_ok [OF s1(2)] obtain s where s: "munkres_loop 2 s1 = Some s" "finished ?n ?c s" by auto
  have loop: "munkres_loop 1 (munkres_start m) = Some s"
    using s(1) s1(1) by (subst munkres_loop.simps) (simp add: munkres_step_def)
  obtain p where p: "bij_betw p {..<?n} {..<?n}"
      "\<And>i j. i < ?n \<Longrightarrow> j < ?n \<Longrightarrow> mk_mask s ! i ! j = STAR \<longleftrightarrow> j = p i"
    and best: "\<And>q. bij_betw q {..<?n} {..<?n} \<Longrightarrow> (\<Sum>i<?n. ?c i (p i)) \<le> (\<Sum>i<?n. ?c i (q i))"
    using finished_assignment [OF s(2)] by blast
  have size: "mk_size s = ?n" using s(2) by (auto simp: finished_def mk_inv_def)
  define sol where "sol = mx_resize (mat_mk ?n ?n (\<lambda>i j. if mk_mask s ! i ! j = STAR then 0 else -1)) r k 0"
  have sol: "munkres_solve m = Some sol" by (simp only: munkres_solve_def dim loop size sol_def Let_def option.map)
  have nc: "n_cols (mat_mk ?n ?n f) = ?n" for f using m by (simp add: n_cols_is_mat [OF is_mat_mk])
  have sole: "sol ! i ! j = (if j = p i then 0 else -1)" if "i < r" "j < k" for i j
    using that p(2) [of i j] by (simp add: sol_def mx_resize_def nc less_max_iff_disj)
  define M where "M = filter (\<lambda>(i, j). j = p i) (List.product [0..<r] [0..<k])"
  have "c_trunc (sol ! i ! j) = 0 \<longleftrightarrow> j = p i" if "i < r" "j < k" for i j
    using sole [OF that] c_trunc_of_int [of "-1"] c_trunc_of_int [of 0] by simp
  then have hs: "hungarian_solve m = Some M"
    by (simp add: hungarian_solve_def dim sol M_def cong: filter_cong) (intro filter_cong, auto)
  have setM: "set M = (\<lambda>i. (i, p i)) ` inside r k p" by (auto simp: M_def inside_def)
  have dM: "distinct M" by (simp add: M_def distinct_product)
  have injp: "inj_on p {..<?n}" using p(1) by (simp add: bij_betw_def)
  have "full_matching r k M"
  proof -
    have "inj_on fst (set M)" by (auto simp: setM inj_on_def)
    moreover have "inj_on snd (set M)" using inside_card(3) [OF p(1)] by (auto simp: setM inj_on_def)
    moreover have "length M = card (inside r k p)"
      using distinct_card [OF dM] by (simp add: setM card_image inj_on_def)
    ultimately show ?thesis
      using dM inside_card(1) [OF p(1)] by (auto simp: full_matching_def distinct_map setM inside_def)
  qed
  moreover have "matching_cost m M \<le> matching_cost m M'" if M': "full_matching r k M'" for M'
  proof -
    obtain q where q: "bij_betw q {..<?n} {..<?n}" and c': "matching_cost m M' = (\<Sum>i\<in>inside r k q. m ! i ! q i)"
      using matching_extends [OF M'] by blast
    have "matching_cost m M = (\<Sum>(i, j)\<in>set M. m ! i ! j)"
      by (simp add: matching_cost_def sum_list_distinct_conv_sum_set [OF dM])
    also have "\<dots> = (\<Sum>i\<in>inside r k p. m ! i ! p i)"
      unfolding setM by (subst sum.reindex) (auto simp: inj_on_def)
    finally show ?thesis using best [OF q] inside_sum [OF p(1), of m] inside_sum [OF q, of m] c' by simp
  qed
  ultimately show ?thesis using hs by blast
qed

section \<open>Properties\<close>

text \<open>
  C5.  The Munkres solver behind DeepSort returns for every matrix of nonnegative costs, square
  or not: the pairs it returns match every row or every column (whichever are fewer), no row or
  column twice, and no other such matching costs less.
\<close>

theorem hungarian_solve_optimal:
  assumes "is_mat r k m" "0 < r" "0 < k" "\<forall>i<r. \<forall>j<k. 0 \<le> m ! i ! j"
  shows "\<exists>M. hungarian_solve m = Some M \<and> full_matching r k M \<and>
     (\<forall>M'. full_matching r k M' \<longrightarrow> matching_cost m M \<le> matching_cost m M')"
  by (rule hungarian_correct [OF assms])

theorem hungarian_solve_optimal_witness:
  "hungarian_solve [[4, 1, 3], [2, 0, 5]] = Some [(0, 1), (1, 0)] \<and>
   matching_cost [[4, 1, 3], [2, 0, 5]] [(0, 1), (1, 0)] \<le> matching_cost [[4, 1, 3], [2, 0, 5]] [(0, 2), (1, 1)]"
proof -
  let ?M = "[[4, 1, 3], [2, 0, 5]] :: mat"
  have r: "hungarian_solve ?M = Some [(0, 1), (1, 0)]" by code_simp
  have nn: "\<forall>i<2. \<forall>j<3. 0 \<le> ?M ! i ! j" by (simp add: less_Suc_eq numeral_eq_Suc)
  have "full_matching 2 3 [(0, 2), (1, 1)]" by (simp add: full_matching_def)
  then show ?thesis
    using hungarian_solve_optimal [of 2 3 ?M, OF _ _ _ nn] r by (simp add: is_mat_def)
qed

end
