(* ===== verification/DeepKalman.thy ===== *)
theory DeepKalman imports ByteKalman begin

text \<open>
  Model of \<open>src/src/deepsort/kalmanfilter.cpp\<close>, the Kalman filter of the DeepSort tracker.  It is
  written apart from the one of ByteTrack; the lemmas show that the two compute the same
  functions, so what \<^theory_text>\<open>ByteKalman\<close> proves holds here as well.
\<close>

section \<open>The filter\<close>

definition mkf_std_position :: real where "mkf_std_position = 1 / 20"

definition mkf_std_velocity :: real where "mkf_std_velocity = 1 / 160"

definition mkf_chi2inv95 :: vec where
  "mkf_chi2inv95 = [0, 3.8415, 5.9915, 7.8147, 9.4877, 11.070, 12.592, 14.067, 15.507, 16.919]"

definition mkf_motion_mat :: mat where
  "mkf_motion_mat = fold (\<lambda>i m. m[i := (m ! i)[4 + i := 1]]) [0..<4] (mat_ident 8 8)"

definition mkf_update_mat :: mat where
  "mkf_update_mat = mat_ident 4 8"

definition mkf_initiate :: "vec \<Rightarrow> vec \<times> mat" where
  "mkf_initiate measurement =
     (let mean_pos = measurement;
          mean_vel = map (\<lambda>i. 0) [0..<4];
          mean = map (\<lambda>i. if i < 4 then mean_pos ! i else mean_vel ! (i - 4)) [0..<8];
          std = replicate 8 0;
          std = std[0 := 2 * mkf_std_position * measurement ! 3];
          std = std[1 := 2 * mkf_std_position * measurement ! 3];
          std = std[2 := 1/100];
          std = std[3 := 2 * mkf_std_position * measurement ! 3];
          std = std[4 := 10 * mkf_std_velocity * measurement ! 3];
          std = std[5 := 10 * mkf_std_velocity * measurement ! 3];
          std = std[6 := 1/100000];
          std = std[7 := 10 * mkf_std_velocity * measurement ! 3];
          tmp = map (\<lambda>s. s\<^sup>2) std
      in (mean, mat_diag tmp))"

definition mkf_predict :: "vec \<times> mat \<Rightarrow> vec \<times> mat" where
  "mkf_predict = (\<lambda>(mean, covariance).
     let std_pos = [mkf_std_position * mean ! 3, mkf_std_position * mean ! 3, 1/100,
                    mkf_std_position * mean ! 3];
         std_vel = [mkf_std_velocity * mean ! 3, mkf_std_velocity * mean ! 3, 1/100000,
                    mkf_std_velocity * mean ! 3];
         tmp = std_pos @ std_vel;
         tmp = map (\<lambda>s. s\<^sup>2) tmp;
         motion_cov = mat_diag tmp;
         mean1 = mat_vec mkf_motion_mat mean;
         covariance1 = mat_mul (mat_mul mkf_motion_mat covariance) (mat_trans mkf_motion_mat);
         covariance1 = mat_add covariance1 motion_cov
     in (mean1, covariance1))"

text \<open>Here the diagonal matrix is squared entry by entry, not the vector.\<close>

definition mkf_project :: "vec \<times> mat \<Rightarrow> vec \<times> mat" where
  "mkf_project = (\<lambda>(mean, covariance).
     let std = [mkf_std_position * mean ! 3, mkf_std_position * mean ! 3, 1/10,
                mkf_std_position * mean ! 3];
         mean1 = mat_vec mkf_update_mat mean;
         covariance1 = mat_mul (mat_mul mkf_update_mat covariance) (mat_trans mkf_update_mat);
         diag = mat_diag std;
         diag = map (map (\<lambda>s. s\<^sup>2)) diag;
         covariance1 = mat_add covariance1 diag
     in (mean1, covariance1))"

definition mkf_update :: "(mat \<Rightarrow> mat \<Rightarrow> mat) \<Rightarrow> vec \<times> mat \<Rightarrow> vec \<Rightarrow> vec \<times> mat" where
  "mkf_update solve = (\<lambda>(mean, covariance) measurement.
     let pa = mkf_project (mean, covariance);
         projected_mean = fst pa;
         projected_cov = snd pa;
         B = mat_trans (mat_mul covariance (mat_trans mkf_update_mat));
         kalman_gain = mat_trans (solve projected_cov B);
         innovation = vec_sub measurement projected_mean;
         tmp = mat_vec kalman_gain innovation;
         new_mean = vec_add mean tmp;
         new_covariance = mat_sub covariance
           (mat_mul (mat_mul kalman_gain projected_cov) (mat_trans kalman_gain))
     in (new_mean, new_covariance))"

text \<open>\<open>only_position\<close> prints and ends the process: no result.\<close>

definition mkf_gating_distance ::
  "(mat \<Rightarrow> mat) \<Rightarrow> (mat \<Rightarrow> mat \<Rightarrow> mat) \<Rightarrow> vec \<times> mat \<Rightarrow> vec list \<Rightarrow> bool \<Rightarrow> vec option" where
  "mkf_gating_distance llt_l tri_solve st measurements only_position =
     (let pa = mkf_project st in
      if only_position then None
      else
        let mean1 = fst pa;
            covariance1 = snd pa;
            d = map (\<lambda>box. vec_sub box mean1) measurements;
            factor = llt_l covariance1;
            z = tri_solve factor d
        in Some (map (\<lambda>row. sum_list (map (\<lambda>e. e * e) row)) z))"

section \<open>The two filters agree\<close>

lemma mkf_consts:
  "mkf_std_position = std_weight_position" "mkf_std_velocity = std_weight_velocity"
  "mkf_motion_mat = motion_mat" "mkf_update_mat = update_mat" "mkf_chi2inv95 = chi2inv95"
  by (simp_all add: mkf_std_position_def std_weight_position_def mkf_std_velocity_def
      std_weight_velocity_def mkf_motion_mat_def motion_mat_def mkf_update_mat_def update_mat_def
      mkf_chi2inv95_def chi2inv95_def)

lemma mkf_initiate_eq: "mkf_initiate z = kf_initiate z"
  by (simp add: mkf_initiate_def kf_initiate_def Let_def mkf_consts numeral_eq_Suc)

lemma mkf_predict_eq: "mkf_predict st = kf_predict st"
  by (cases st) (simp add: mkf_predict_def kf_predict_def Let_def mkf_consts)

lemma square_diag: "map (map (\<lambda>s. s\<^sup>2)) (mat_diag v) = mat_diag (map (\<lambda>s. s\<^sup>2) v)"
  by (simp add: mat_diag_def mat_mk_def)

lemma mkf_project_eq: "mkf_project st = kf_project st"
  by (cases st) (simp only: mkf_project_def kf_project_def Let_def mkf_consts square_diag prod.case)

lemma mkf_update_eq: "mkf_update solve st z = kf_update solve st z"
  by (cases st) (simp add: mkf_update_def kf_update_def Let_def mkf_consts mkf_project_eq split_beta)

lemma mkf_gating_eq: "mkf_gating_distance l t st ms p = kf_gating_distance l t st ms p"
  by (simp add: mkf_gating_distance_def kf_gating_distance_def Let_def mkf_project_eq split_beta)

section \<open>The filters as an interface\<close>

text \<open>
  What a tracker relies on of its filter: the three operations keep a state well formed, the
  update only where the state is usable (the height of the box is not zero).
\<close>

locale box_filter =
  fixes initiate :: "vec \<Rightarrow> 's" and predict :: "'s \<Rightarrow> 's" and update :: "'m \<Rightarrow> 's \<Rightarrow> vec \<Rightarrow> 's"
    and wf :: "'s \<Rightarrow> bool" and usable :: "'s \<Rightarrow> bool" and good :: "'m \<Rightarrow> bool"
  assumes initiate_wf: "wf (initiate z)"
    and predict_wf: "wf s \<Longrightarrow> wf (predict s)"
    and update_wf: "good m \<Longrightarrow> wf s \<Longrightarrow> usable s \<Longrightarrow> wf (update m s z)"
begin

text \<open>One frame of a track: a prediction, then a measurement when one was matched.\<close>

fun track_frames :: "'m \<Rightarrow> vec option list \<Rightarrow> 's \<Rightarrow> 's" where
  "track_frames m [] s = s"
| "track_frames m (None # zs) s = track_frames m zs (predict s)"
| "track_frames m (Some z # zs) s = track_frames m zs (update m (predict s) z)"

fun all_usable :: "'m \<Rightarrow> vec option list \<Rightarrow> 's \<Rightarrow> bool" where
  "all_usable m [] s = True"
| "all_usable m (None # zs) s = all_usable m zs (predict s)"
| "all_usable m (Some z # zs) s = (usable (predict s) \<and> all_usable m zs (update m (predict s) z))"

lemma frames_wf: "good m \<Longrightarrow> wf s \<Longrightarrow> all_usable m zs s \<Longrightarrow> wf (track_frames m zs s)"
  by (induction m zs s rule: track_frames.induct) (auto intro: predict_wf update_wf)

lemma life_wf: "good m \<Longrightarrow> all_usable m zs (initiate z) \<Longrightarrow> wf (track_frames m zs (initiate z))"
  by (intro frames_wf initiate_wf)

end

interpretation byte_filter: box_filter kf_initiate kf_predict kf_update kf_ok "\<lambda>st. fst st ! 3 \<noteq> 0" llt_solver
  by unfold_locales (simp_all add: kf_initiate_ok kf_predict_ok kf_update_ok)

interpretation deep_filter: box_filter mkf_initiate mkf_predict mkf_update kf_ok "\<lambda>st. fst st ! 3 \<noteq> 0" llt_solver
  by unfold_locales (simp_all add: mkf_initiate_eq mkf_predict_eq mkf_update_eq kf_initiate_ok kf_predict_ok kf_update_ok)

section \<open>Properties\<close>

text \<open>
  The two Kalman filters of the program are the same filter: every operation of
  \<open>MyKalmanFilter\<close> equals the one of \<open>byte_kalman::KalmanFilter\<close>.
\<close>

lemma kalman_filters_agree:
  "mkf_initiate z = kf_initiate z \<and> mkf_predict st = kf_predict st \<and>
   mkf_project st = kf_project st \<and> mkf_update solve st z = kf_update solve st z \<and>
   mkf_gating_distance llt_l tri_solve st ms p = kf_gating_distance llt_l tri_solve st ms p"
  by (simp only: mkf_initiate_eq mkf_predict_eq mkf_project_eq mkf_update_eq mkf_gating_eq)


text \<open>
  The covariance of a DeepSort track stays a covariance through its whole life: any sequence
  of predictions and matched measurements from the first detection, as long as no measurement is
  taken while the predicted height is zero.
\<close>

lemma deep_track_covariance:
  assumes "llt_solver solve" "deep_filter.all_usable solve zs (mkf_initiate z)"
  shows "covar 8 (snd (deep_filter.track_frames solve zs (mkf_initiate z))) \<and>
    coupled (snd (deep_filter.track_frames solve zs (mkf_initiate z)))"
  using deep_filter.life_wf [OF assms] by (simp add: kf_ok_def)

end
