(* ===== verification/DeepTrack.thy ===== *)
theory DeepTrack imports DeepKalman begin

text \<open>
  Model of \<open>src/src/deepsort/track.cpp\<close> and of the detection rows of \<open>src/inc/deepsort/model.hpp\<close>:
  one DeepSort track with its life cycle Tentative, Confirmed, Deleted, its Kalman state, the
  appearance features collected since the last frame, and its trajectory of at most 50 points.
\<close>

section \<open>Detections\<close>

record clsconf =
  cc_cls :: int
  cc_conf :: real

record detection_row =
  dr_tlwh :: vec
  dr_confidence :: real
  dr_feature :: vec

definition kRatio :: real where "kRatio = 1/2"

definition dr_to_xyah :: "detection_row \<Rightarrow> vec" where
  "dr_to_xyah d =
     (let ret = dr_tlwh d;
          ret = ret[0 := ret ! 0 + ret ! 2 * kRatio];
          ret = ret[1 := ret ! 1 + ret ! 3 * kRatio]
      in ret[2 := ret ! 2 / ret ! 3])"

definition dr_to_tlbr :: "detection_row \<Rightarrow> vec" where
  "dr_to_tlbr d =
     (let ret = dr_tlwh d;
          ret = ret[0 := ret ! 0 + ret ! 2]
      in ret[1 := ret ! 1 + ret ! 3])"

definition dr_update_feature :: "vec \<Rightarrow> detection_row \<Rightarrow> detection_row" where
  "dr_update_feature f d = d\<lparr>dr_feature := f\<rparr>"

section \<open>Tracks\<close>

datatype deep_state = Tentative | Confirmed | Deleted

record deep_track =
  dt_tsu :: int            \<comment> \<open>\<open>time_since_update\<close>\<close>
  dt_id :: int
  dt_features :: mat
  dt_mean :: vec
  dt_cov :: mat
  dt_hits :: int
  dt_age :: int
  dt_n_init :: int
  dt_max_age :: int
  dt_state :: deep_state
  dt_cls :: int
  dt_conf :: real
  dt_trajectory :: "(real \<times> real) list"

definition MAX_TRAJECTORY_LEN :: nat where "MAX_TRAJECTORY_LEN = 50"

definition new_track :: "vec \<Rightarrow> mat \<Rightarrow> int \<Rightarrow> int \<Rightarrow> int \<Rightarrow> vec \<Rightarrow> deep_track" where
  "new_track m c tid n_init max_age feature =
     \<lparr>dt_tsu = 0, dt_id = tid, dt_features = [feature], dt_mean = m, dt_cov = c, dt_hits = 1,
      dt_age = 1, dt_n_init = n_init, dt_max_age = max_age, dt_state = Tentative,
      dt_cls = -1, dt_conf = -1, dt_trajectory = []\<rparr>"

definition new_track_cls :: "vec \<Rightarrow> mat \<Rightarrow> int \<Rightarrow> int \<Rightarrow> int \<Rightarrow> vec \<Rightarrow> int \<Rightarrow> real \<Rightarrow> deep_track" where
  "new_track_cls m c tid n_init max_age feature cls conf =
     \<lparr>dt_tsu = 0, dt_id = tid, dt_features = [feature], dt_mean = m, dt_cov = c, dt_hits = 1,
      dt_age = 1, dt_n_init = n_init, dt_max_age = max_age, dt_state = Tentative,
      dt_cls = cls, dt_conf = conf, dt_trajectory = []\<rparr>"

definition predit :: "deep_track \<Rightarrow> deep_track" where
  "predit t =
     (let (m, c) = mkf_predict (dt_mean t, dt_cov t);
          t = t\<lparr>dt_mean := m, dt_cov := c\<rparr>;
          t = t\<lparr>dt_age := dt_age t + 1\<rparr>
      in t\<lparr>dt_tsu := dt_tsu t + 1\<rparr>)"

text \<open>\<open>mean.leftCols(4)\<close>, the width from the aspect ratio, then the corner from the center.\<close>

definition to_tlwh :: "deep_track \<Rightarrow> vec" where
  "to_tlwh t =
     (let ret = take 4 (dt_mean t);
          ret = ret[2 := ret ! 2 * ret ! 3];
          ret = ret[0 := ret ! 0 - ret ! 2 / 2]
      in ret[1 := ret ! 1 - ret ! 3 / 2])"

definition features_append_one :: "vec \<Rightarrow> deep_track \<Rightarrow> deep_track" where
  "features_append_one f t = t\<lparr>dt_features := dt_features t @ [f]\<rparr>"

definition append_trajectory :: "real \<Rightarrow> real \<Rightarrow> deep_track \<Rightarrow> deep_track" where
  "append_trajectory cx cy t =
     (let tr = dt_trajectory t @ [(cx, cy)]
      in t\<lparr>dt_trajectory := (if length tr > MAX_TRAJECTORY_LEN then tl tr else tr)\<rparr>)"

definition clear_trajectory :: "deep_track \<Rightarrow> deep_track" where
  "clear_trajectory t = t\<lparr>dt_trajectory := []\<rparr>"

text \<open>The center of the track's box, and the point appended to the trajectory.\<close>

definition box_center :: "deep_track \<Rightarrow> real \<times> real" where
  "box_center t = (let b = to_tlwh t in (b ! 0 + b ! 2 / 2, b ! 1 + b ! 3 / 2))"

definition push_center :: "deep_track \<Rightarrow> deep_track" where
  "push_center t = append_trajectory (fst (box_center t)) (snd (box_center t)) t"

text \<open>The first half of both \<open>update\<close> methods: filter, features, hits and state.\<close>

definition absorb :: "(mat \<Rightarrow> mat \<Rightarrow> mat) \<Rightarrow> detection_row \<Rightarrow> deep_track \<Rightarrow> deep_track" where
  "absorb solve d t =
     (let pa = mkf_update solve (dt_mean t, dt_cov t) (dr_to_xyah d);
          t = t\<lparr>dt_mean := fst pa, dt_cov := snd pa\<rparr>;
          t = features_append_one (dr_feature d) t;
          t = t\<lparr>dt_hits := dt_hits t + 1\<rparr>;
          t = t\<lparr>dt_tsu := 0\<rparr>
      in if dt_state t = Tentative \<and> dt_hits t \<ge> dt_n_init t then t\<lparr>dt_state := Confirmed\<rparr> else t)"

definition dt_update :: "(mat \<Rightarrow> mat \<Rightarrow> mat) \<Rightarrow> detection_row \<Rightarrow> deep_track \<Rightarrow> deep_track" where
  "dt_update solve d t = push_center (absorb solve d t)"

definition dt_update_cls :: "(mat \<Rightarrow> mat \<Rightarrow> mat) \<Rightarrow> detection_row \<Rightarrow> clsconf \<Rightarrow> deep_track \<Rightarrow> deep_track" where
  "dt_update_cls solve d pair_det t =
     push_center ((absorb solve d t)\<lparr>dt_cls := cc_cls pair_det, dt_conf := cc_conf pair_det\<rparr>)"

definition mark_missed :: "deep_track \<Rightarrow> deep_track" where
  "mark_missed t =
     (if dt_state t = Tentative then t\<lparr>dt_state := Deleted\<rparr>
      else if dt_tsu t > dt_max_age t then t\<lparr>dt_state := Deleted\<rparr>
      else t)"

definition is_confirmed :: "deep_track \<Rightarrow> bool" where "is_confirmed t \<longleftrightarrow> dt_state t = Confirmed"

definition is_deleted :: "deep_track \<Rightarrow> bool" where "is_deleted t \<longleftrightarrow> dt_state t = Deleted"

definition is_tentative :: "deep_track \<Rightarrow> bool" where "is_tentative t \<longleftrightarrow> dt_state t = Tentative"

section \<open>What the operations leave alone\<close>

lemma predit_fields [simp]:
  "dt_tsu (predit t) = dt_tsu t + 1" "dt_id (predit t) = dt_id t" "dt_state (predit t) = dt_state t"
  "dt_hits (predit t) = dt_hits t" "dt_n_init (predit t) = dt_n_init t" "dt_max_age (predit t) = dt_max_age t"
  "dt_features (predit t) = dt_features t" "dt_trajectory (predit t) = dt_trajectory t"
  "dt_age (predit t) = dt_age t + 1" "dt_cls (predit t) = dt_cls t" "dt_conf (predit t) = dt_conf t"
  by (simp_all add: predit_def Let_def split: prod.split)

lemma new_track_fields [simp]:
  "dt_tsu (new_track_cls m c i n a f k p) = 0" "dt_id (new_track_cls m c i n a f k p) = i"
  "dt_state (new_track_cls m c i n a f k p) = Tentative" "dt_hits (new_track_cls m c i n a f k p) = 1"
  "dt_n_init (new_track_cls m c i n a f k p) = n" "dt_max_age (new_track_cls m c i n a f k p) = a"
  "dt_trajectory (new_track_cls m c i n a f k p) = []" "dt_features (new_track_cls m c i n a f k p) = [f]"
  "dt_age (new_track_cls m c i n a f k p) = 1"
  by (simp_all add: new_track_cls_def)

lemma absorb_fields [simp]:
  "dt_tsu (absorb solve d t) = 0" "dt_id (absorb solve d t) = dt_id t" "dt_hits (absorb solve d t) = dt_hits t + 1"
  "dt_n_init (absorb solve d t) = dt_n_init t" "dt_max_age (absorb solve d t) = dt_max_age t"
  "dt_trajectory (absorb solve d t) = dt_trajectory t" "dt_age (absorb solve d t) = dt_age t"
  "dt_features (absorb solve d t) = dt_features t @ [dr_feature d]"
  "dt_state (absorb solve d t) =
     (if dt_state t = Tentative \<and> dt_hits t + 1 \<ge> dt_n_init t then Confirmed else dt_state t)"
  by (simp_all add: absorb_def features_append_one_def Let_def)

lemma push_center_fields [simp]:
  "dt_tsu (push_center t) = dt_tsu t" "dt_id (push_center t) = dt_id t" "dt_hits (push_center t) = dt_hits t"
  "dt_n_init (push_center t) = dt_n_init t" "dt_max_age (push_center t) = dt_max_age t"
  "dt_state (push_center t) = dt_state t" "dt_features (push_center t) = dt_features t"
  "dt_age (push_center t) = dt_age t" "dt_cls (push_center t) = dt_cls t" "dt_conf (push_center t) = dt_conf t"
  by (simp_all add: push_center_def append_trajectory_def Let_def)

lemma update_cls_fields [simp]:
  "dt_tsu (dt_update_cls solve d p t) = 0" "dt_id (dt_update_cls solve d p t) = dt_id t"
  "dt_hits (dt_update_cls solve d p t) = dt_hits t + 1" "dt_n_init (dt_update_cls solve d p t) = dt_n_init t"
  "dt_max_age (dt_update_cls solve d p t) = dt_max_age t" "dt_age (dt_update_cls solve d p t) = dt_age t"
  "dt_features (dt_update_cls solve d p t) = dt_features t @ [dr_feature d]"
  "dt_state (dt_update_cls solve d p t) =
     (if dt_state t = Tentative \<and> dt_hits t + 1 \<ge> dt_n_init t then Confirmed else dt_state t)"
  by (simp_all add: dt_update_cls_def)

lemma mark_missed_fields [simp]:
  "dt_tsu (mark_missed t) = dt_tsu t" "dt_id (mark_missed t) = dt_id t" "dt_hits (mark_missed t) = dt_hits t"
  "dt_n_init (mark_missed t) = dt_n_init t" "dt_max_age (mark_missed t) = dt_max_age t"
  "dt_features (mark_missed t) = dt_features t" "dt_trajectory (mark_missed t) = dt_trajectory t"
  "dt_age (mark_missed t) = dt_age t"
  "dt_state (mark_missed t) =
     (if dt_state t = Tentative \<or> dt_tsu t > dt_max_age t then Deleted else dt_state t)"
  by (simp_all add: mark_missed_def)

lemmas track_ops = predit_fields new_track_fields absorb_fields push_center_fields update_cls_fields mark_missed_fields

interpretation dt_hist: bounded_history dt_trajectory push_center box_center MAX_TRAJECTORY_LEN
  by unfold_locales (simp add: push_center_def append_trajectory_def Let_def)

section \<open>The life of a track\<close>

inductive deep_step :: "(mat \<Rightarrow> mat \<Rightarrow> mat) \<Rightarrow> deep_track \<Rightarrow> deep_track \<Rightarrow> bool" for solve where
  predicted: "deep_step solve t (predit t)"
| matched: "deep_step solve t (dt_update_cls solve d p t)"
| missed: "deep_step solve t (mark_missed t)"
| fitted: "dt_state t = Confirmed \<Longrightarrow> deep_step solve t (t\<lparr>dt_features := []\<rparr>)"

inductive deep_life :: "(mat \<Rightarrow> mat \<Rightarrow> mat) \<Rightarrow> deep_track \<Rightarrow> deep_track \<Rightarrow> bool" for solve t0 where
  start: "deep_life solve t0 t0"
| go: "deep_life solve t0 t \<Longrightarrow> deep_step solve t t' \<Longrightarrow> deep_life solve t0 t'"

inductive_simps deep_step_simps: "deep_step solve t t'"

definition deep_ok :: "deep_track \<Rightarrow> bool" where
  "deep_ok t \<longleftrightarrow> 0 \<le> dt_tsu t \<and> dt_tsu t < dt_age t \<and> 1 \<le> dt_hits t \<and>
     (dt_state t = Tentative \<longrightarrow> dt_hits t = 1 \<or> dt_hits t < dt_n_init t) \<and>
     (dt_state t = Confirmed \<longrightarrow> dt_n_init t \<le> dt_hits t \<and> 2 \<le> dt_hits t) \<and>
     length (dt_trajectory t) \<le> MAX_TRAJECTORY_LEN \<and> int (length (dt_trajectory t)) < dt_hits t"

lemma push_center_length:
  "length (dt_trajectory (push_center t)) \<le> Suc (length (dt_trajectory t))"
  by (simp add: push_center_def append_trajectory_def Let_def)

lemma deep_step_ok:
  assumes "deep_step solve t t'" "deep_ok t"
  shows "deep_ok t' \<and> dt_id t' = dt_id t"
  using assms(1) unfolding deep_step_simps
proof (elim disjE exE conjE)
  fix d p assume t': "t' = dt_update_cls solve d p t"
  let ?u = "(absorb solve d t)\<lparr>dt_cls := cc_cls p, dt_conf := cc_conf p\<rparr>"
  have "length (dt_trajectory (push_center ?u)) \<le> MAX_TRAJECTORY_LEN"
    by (rule dt_hist.push_bound) (use assms(2) in \<open>simp add: deep_ok_def\<close>)
  then show ?thesis
    using assms(2) push_center_length [of ?u] by (auto simp: t' deep_ok_def) (auto simp: dt_update_cls_def)
qed (use assms(2) in \<open>auto simp: deep_ok_def split: if_splits\<close>)

lemma new_track_ok: "deep_ok (new_track_cls m c i n a f k p)"
  by (simp add: deep_ok_def)

section \<open>Properties\<close>

text \<open>
  C27.  The life of a DeepSort track: it keeps its id, a confirmed track has been matched at least
  \<open>n_init\<close> times and a tentative one fewer (its first detection aside), the frames since its
  last match are fewer than its age, and its trajectory holds at most 50 points and fewer points
  than it has matches.
\<close>

theorem deep_life_invariant:
  assumes "deep_life solve (new_track_cls m c i n a f k p) t"
  shows "dt_id t = i \<and> 0 \<le> dt_tsu t \<and> dt_tsu t < dt_age t \<and>
     (dt_state t = Tentative \<longrightarrow> dt_hits t = 1 \<or> dt_hits t < dt_n_init t) \<and>
     (dt_state t = Confirmed \<longrightarrow> dt_n_init t \<le> dt_hits t \<and> 2 \<le> dt_hits t) \<and>
     length (dt_trajectory t) \<le> 50 \<and> int (length (dt_trajectory t)) < dt_hits t"
proof -
  from assms have "deep_ok t \<and> dt_id t = i"
    by (induction rule: deep_life.induct) (use new_track_ok deep_step_ok in \<open>auto simp: new_track_ok\<close>)
  then show ?thesis by (simp add: deep_ok_def MAX_TRAJECTORY_LEN_def)
qed

theorem deep_life_invariant_witness:
  "dt_tsu (mark_missed (predit (new_track_cls [0, 0, 1, 8, 0, 0, 0, 0] [] 7 2 30 [] 0 1))) <
   dt_age (mark_missed (predit (new_track_cls [0, 0, 1, 8, 0, 0, 0, 0] [] 7 2 30 [] 0 1)))"
proof -
  let ?t = "new_track_cls [0, 0, 1, 8, 0, 0, 0, 0] [] 7 2 30 [] 0 1"
  have "deep_life diag_solve ?t (mark_missed (predit ?t))"
    by (rule deep_life.go [OF deep_life.go [OF deep_life.start deep_step.predicted] deep_step.missed])
  from deep_life_invariant [OF this] show ?thesis by blast
qed

end
