(* ===== verification/DeepAssign.thy ===== *)
theory DeepAssign imports MunkresOpt DeepTrack begin

text \<open>
  Model of \<open>src/src/deepsort/linear_assignment.cpp\<close>: the gated minimum cost matching of tracks and
  detections and the cascade over the tracks' ages.  A cost function gets the tracks, the
  detections and the indices to compare; \<^const>\<open>None\<close> is a failed assertion below it, or a solver
  that does not return.
\<close>

section \<open>Matching\<close>

type_synonym cost_fun = "deep_track list \<Rightarrow> detection_row list \<Rightarrow> nat list \<Rightarrow> nat list \<Rightarrow> mat option"

record matchd =
  md_matches :: "(nat \<times> nat) list"
  md_utracks :: "nat list"
  md_udets :: "nat list"

definition INFTY_COST :: real where "INFTY_COST = 100000"

text \<open>The cap of the costs: \<open>max_distance + 1e-5\<close>.\<close>

definition cap_costs :: "real \<Rightarrow> mat \<Rightarrow> mat" where
  "cap_costs max_distance = map (map (\<lambda>c. if c > max_distance then max_distance + 1/100000 else c))"

text \<open>The unmatched of both sides, and the pairs the solver chose beyond the limit.\<close>

definition split_solution ::
  "mat \<Rightarrow> real \<Rightarrow> nat list \<Rightarrow> nat list \<Rightarrow> (nat \<times> nat) list \<Rightarrow> matchd" where
  "split_solution cost_matrix max_distance track_indices detection_indices indices =
     (let udets = map ((!) detection_indices)
            (filter (\<lambda>col. \<forall>p\<in>set indices. snd p \<noteq> col) [0..<length detection_indices]);
          utracks = map ((!) track_indices)
            (filter (\<lambda>row. \<forall>p\<in>set indices. fst p \<noteq> row) [0..<length track_indices])
      in fold (\<lambda>(row, col) res.
           if cost_matrix ! row ! col > max_distance
           then res\<lparr>md_utracks := md_utracks res @ [track_indices ! row],
                    md_udets := md_udets res @ [detection_indices ! col]\<rparr>
           else res\<lparr>md_matches := md_matches res @ [(track_indices ! row, detection_indices ! col)]\<rparr>)
         indices \<lparr>md_matches = [], md_utracks = utracks, md_udets = udets\<rparr>)"

definition min_cost_matching ::
  "cost_fun \<Rightarrow> real \<Rightarrow> deep_track list \<Rightarrow> detection_row list \<Rightarrow> nat list \<Rightarrow> nat list \<Rightarrow> matchd option" where
  "min_cost_matching cost_fun max_distance tracks detections track_indices detection_indices =
     (if detection_indices = [] \<or> track_indices = []
      then Some \<lparr>md_matches = [], md_utracks = track_indices, md_udets = detection_indices\<rparr>
      else
        Option.bind (cost_fun tracks detections track_indices detection_indices) (\<lambda>cost_matrix.
          let cost_matrix = cap_costs max_distance cost_matrix in
          map_option (split_solution cost_matrix max_distance track_indices detection_indices)
            (hungarian_solve cost_matrix)))"

text \<open>One level of the cascade: the tracks missed for \<open>level\<close> frames against what is left.\<close>

definition cascade_level ::
  "cost_fun \<Rightarrow> real \<Rightarrow> deep_track list \<Rightarrow> detection_row list \<Rightarrow> nat list \<Rightarrow> nat
     \<Rightarrow> (nat \<times> nat) list \<times> nat list \<Rightarrow> ((nat \<times> nat) list \<times> nat list) option" where
  "cascade_level cost_fun max_distance tracks detections track_indices level = (\<lambda>(matches, udets).
     if udets = [] then Some (matches, udets)
     else
       let track_indices_l = filter (\<lambda>k. dt_tsu (tracks ! k) = 1 + int level) track_indices in
       if track_indices_l = [] then Some (matches, udets)
       else
         map_option (\<lambda>tmp. (matches @ md_matches tmp, md_udets tmp))
           (min_cost_matching cost_fun max_distance tracks detections track_indices_l udets))"

fun cascade_loop ::
  "cost_fun \<Rightarrow> real \<Rightarrow> deep_track list \<Rightarrow> detection_row list \<Rightarrow> nat list \<Rightarrow> nat list
     \<Rightarrow> (nat \<times> nat) list \<times> nat list \<Rightarrow> ((nat \<times> nat) list \<times> nat list) option" where
  "cascade_loop cost_fun max_distance tracks detections track_indices [] st = Some st"
| "cascade_loop cost_fun max_distance tracks detections track_indices (level # levels) st =
     Option.bind (cascade_level cost_fun max_distance tracks detections track_indices level st)
       (cascade_loop cost_fun max_distance tracks detections track_indices levels)"

definition matching_cascade ::
  "cost_fun \<Rightarrow> real \<Rightarrow> int \<Rightarrow> deep_track list \<Rightarrow> detection_row list \<Rightarrow> nat list \<Rightarrow> nat list \<Rightarrow> matchd option" where
  "matching_cascade cost_fun max_distance cascade_depth tracks detections track_indices detection_indices =
     (let detection_indices = detection_indices @ [0..<length detections] in
      map_option (\<lambda>(matches, udets).
        \<lparr>md_matches = matches,
         md_utracks = filter (\<lambda>tid. tid \<notin> set (map fst matches)) track_indices,
         md_udets = udets\<rparr>)
      (cascade_loop cost_fun max_distance tracks detections track_indices [0..<nat cascade_depth]
         ([], detection_indices)))"

text \<open>\<open>gate_cost_matrix\<close>: \<^const>\<open>None\<close> when \<open>only_position\<close> ends the process.\<close>

fun gate_rows ::
  "(mat \<Rightarrow> mat) \<Rightarrow> (mat \<Rightarrow> mat \<Rightarrow> mat) \<Rightarrow> deep_track list \<Rightarrow> vec list \<Rightarrow> real \<Rightarrow> bool \<Rightarrow> nat list \<Rightarrow> mat \<Rightarrow> mat option" where
  "gate_rows llt_l tri_solve tracks measurements gated_cost only_position [] cost_matrix = Some cost_matrix"
| "gate_rows llt_l tri_solve tracks measurements gated_cost only_position (k # ks) (row # rows) =
     Option.bind (mkf_gating_distance llt_l tri_solve (dt_mean (tracks ! k), dt_cov (tracks ! k)) measurements only_position)
       (\<lambda>gating_distance.
         map_option ((#) (map2 (\<lambda>g c. if g > mkf_chi2inv95 ! (if only_position then 2 else 4) then gated_cost else c)
             gating_distance row))
           (gate_rows llt_l tri_solve tracks measurements gated_cost only_position ks rows))"
| "gate_rows llt_l tri_solve tracks measurements gated_cost only_position (k # ks) [] = None"

definition gate_cost_matrix ::
  "(mat \<Rightarrow> mat) \<Rightarrow> (mat \<Rightarrow> mat \<Rightarrow> mat) \<Rightarrow> mat \<Rightarrow> deep_track list \<Rightarrow> detection_row list \<Rightarrow> nat list \<Rightarrow> nat list
     \<Rightarrow> real \<Rightarrow> bool \<Rightarrow> mat option" where
  "gate_cost_matrix llt_l tri_solve cost_matrix tracks detections track_indices detection_indices gated_cost only_position =
     (let measurements = map (\<lambda>i. dr_to_xyah (detections ! i)) detection_indices in
      gate_rows llt_l tri_solve tracks measurements gated_cost only_position track_indices cost_matrix)"

section \<open>Lemmas\<close>

definition md_of :: "matchd \<Rightarrow> (nat \<times> nat) list \<times> nat list \<times> nat list" where
  "md_of r = (md_matches r, md_utracks r, md_udets r)"

lemma split_fold:
  "fold (\<lambda>(row, col) res.
       if cost ! row ! col > th
       then res\<lparr>md_utracks := md_utracks res @ [ti ! row], md_udets := md_udets res @ [di ! col]\<rparr>
       else res\<lparr>md_matches := md_matches res @ [(ti ! row, di ! col)]\<rparr>) I res =
   \<lparr>md_matches = md_matches res @ map (\<lambda>(r, c). (ti ! r, di ! c)) (filter (\<lambda>(r, c). \<not> cost ! r ! c > th) I),
    md_utracks = md_utracks res @ map (\<lambda>(r, c). ti ! r) (filter (\<lambda>(r, c). cost ! r ! c > th) I),
    md_udets = md_udets res @ map (\<lambda>(r, c). di ! c) (filter (\<lambda>(r, c). cost ! r ! c > th) I)\<rparr>"
  by (induction I arbitrary: res) (auto split: prod.splits)

text \<open>A list of positions that lists each position once lists each element once.\<close>

lemma pick_all:
  assumes "distinct ps" "set ps = {..<length xs}" "distinct xs"
  shows "distinct (map ((!) xs) ps)" "set (map ((!) xs) ps) = set xs"
proof -
  have "inj_on ((!) xs) (set ps)" using assms by (intro inj_on_nth) auto
  then show "distinct (map ((!) xs) ps)" using assms(1) by (simp add: distinct_map)
  show "set (map ((!) xs) ps) = set xs" unfolding set_map assms(2) by (auto simp: set_conv_nth)
qed

lemma positions:
  fixes P :: "'a \<Rightarrow> bool"
  assumes d: "distinct (map f I)" and b: "\<And>p. p \<in> set I \<Longrightarrow> f p < n"
  defines "ps \<equiv> map f (filter (\<lambda>p. \<not> P p) I) @ filter (\<lambda>k. \<forall>p\<in>set I. f p \<noteq> k) [0..<n] @ map f (filter P I)"
  shows "distinct ps" "set ps = {..<n}"
proof -
  have inj: "inj_on f (set I)" and dI: "distinct I" using d by (simp_all add: distinct_map)
  have "distinct (map f (filter Q I))" for Q
    using inj dI by (auto simp: distinct_map intro: inj_on_subset)
  moreover have "f ` (set I \<inter> {p. \<not> P p}) \<inter> f ` (set I \<inter> {p. P p}) = {}"
    using inj by (auto simp: inj_on_def)
  ultimately show "distinct ps" by (auto simp: ps_def inj_on_def)
  show "set ps = {..<n}"
  proof (intro equalityI subsetI)
    fix k assume k: "k \<in> {..<n}"
    show "k \<in> set ps"
    proof (cases "\<forall>p\<in>set I. f p \<noteq> k")
      case True
      then show ?thesis using k by (simp add: ps_def)
    next
      case False
      then obtain p where "p \<in> set I" "k = f p" by blast
      then show ?thesis by (cases "P p") (auto simp: ps_def)
    qed
  qed (use b in \<open>auto simp: ps_def\<close>)
qed

lemma split_solution_ok:
  fixes cost :: mat and th :: real
  assumes I: "full_matching (length ti) (length di) I" and ti: "distinct ti" and di: "distinct di"
  defines "res \<equiv> split_solution cost th ti di I"
  shows "assoc_ok (set ti) (set di) (md_of res)"
    and "\<forall>(t, d)\<in>set (md_matches res). \<exists>r<length ti. \<exists>c<length di. t = ti ! r \<and> d = di ! c \<and> \<not> cost ! r ! c > th"
proof -
  let ?P = "\<lambda>(r, c). cost ! r ! c > th"
  have sub: "set I \<subseteq> {..<length ti} \<times> {..<length di}" and d: "distinct (map fst I)" "distinct (map snd I)"
    using I by (auto simp: full_matching_def)
  have b: "fst p < length ti" "snd p < length di" if "p \<in> set I" for p using sub that by auto
  note rows = positions [OF d(1) b(1), where P = ?P] and cols = positions [OF d(2) b(2), where P = ?P]
  define rs where "rs = map fst (filter (\<lambda>p. \<not> ?P p) I) @
      filter (\<lambda>k. \<forall>p\<in>set I. fst p \<noteq> k) [0..<length ti] @ map fst (filter ?P I)"
  define cs where "cs = map snd (filter (\<lambda>p. \<not> ?P p) I) @
      filter (\<lambda>k. \<forall>p\<in>set I. snd p \<noteq> k) [0..<length di] @ map snd (filter ?P I)"
  have r: "map fst (md_matches res) @ md_utracks res = map ((!) ti) rs"
    unfolding res_def split_solution_def Let_def split_fold rs_def by (simp add: split_def comp_def)
  have c: "map snd (md_matches res) @ md_udets res = map ((!) di) cs"
    unfolding res_def split_solution_def Let_def split_fold cs_def by (simp add: split_def comp_def)
  note pick_all [OF rows [folded rs_def] ti] pick_all [OF cols [folded cs_def] di]
  then show "assoc_ok (set ti) (set di) (md_of res)"
    by (simp only: assoc_ok_def md_of_def prod.case r c simp_thms)
  show "\<forall>(t, d)\<in>set (md_matches res). \<exists>r<length ti. \<exists>c<length di. t = ti ! r \<and> d = di ! c \<and> \<not> cost ! r ! c > th"
    using sub by (auto simp: res_def split_solution_def split_fold Let_def)
qed

definition cost_ok :: "cost_fun \<Rightarrow> deep_track list \<Rightarrow> detection_row list \<Rightarrow> nat list \<Rightarrow> nat list \<Rightarrow> bool" where
  "cost_ok cf tracks dets ti di \<longleftrightarrow> (\<exists>m. cf tracks dets ti di = Some m \<and> is_mat (length ti) (length di) m \<and>
     (\<forall>i<length ti. \<forall>j<length di. 0 \<le> m ! i ! j))"

lemma cap_costs_entry:
  assumes "is_mat r k m"
  shows "is_mat r k (cap_costs th m)"
    and "i < r \<Longrightarrow> j < k \<Longrightarrow> cap_costs th m ! i ! j = (if m ! i ! j > th then th + 1/100000 else m ! i ! j)"
  using assms by (auto simp: cap_costs_def is_mat_def)

text \<open>
  The matching of \<open>min_cost_matching\<close>: it returns, it splits both index lists into matched and
  unmatched, and what it matched was within the limit.
\<close>

lemma min_cost_matching_ok:
  assumes ok: "ti \<noteq> [] \<Longrightarrow> di \<noteq> [] \<Longrightarrow> cost_ok cf tracks dets ti di" and th: "0 \<le> th"
    and ti: "distinct ti" and di: "distinct di"
  shows "\<exists>res. min_cost_matching cf th tracks dets ti di = Some res \<and> assoc_ok (set ti) (set di) (md_of res) \<and>
     (\<forall>(t, d)\<in>set (md_matches res). \<exists>m r c. cf tracks dets ti di = Some m \<and> r < length ti \<and> c < length di \<and>
        t = ti ! r \<and> d = di ! c \<and> m ! r ! c \<le> th)"
proof (cases "di = [] \<or> ti = []")
  case True
  then show ?thesis using ti di by (auto simp: min_cost_matching_def assoc_ok_def md_of_def)
next
  case False
  then obtain m where m: "cf tracks dets ti di = Some m" and mat: "is_mat (length ti) (length di) m"
    and nn: "\<forall>i<length ti. \<forall>j<length di. 0 \<le> m ! i ! j" using ok by (auto simp: cost_ok_def)
  note cc = cap_costs_entry [OF mat, where th = th]
  have "\<forall>i<length ti. \<forall>j<length di. 0 \<le> cap_costs th m ! i ! j" using cc(2) nn th by simp
  from hungarian_correct [OF cc(1) _ _ this] False
  obtain I where I: "hungarian_solve (cap_costs th m) = Some I" "full_matching (length ti) (length di) I" by auto
  note sp = split_solution_ok [OF I(2) ti di, where cost = "cap_costs th m" and th = th]
  have "\<exists>m r c. cf tracks dets ti di = Some m \<and> r < length ti \<and> c < length di \<and>
        t = ti ! r \<and> d = di ! c \<and> m ! r ! c \<le> th"
    if h: "(t, d) \<in> set (md_matches (split_solution (cap_costs th m) th ti di I))" for t d
  proof -
    obtain r c where r: "r < length ti" "c < length di" "t = ti ! r" "d = di ! c" "\<not> cap_costs th m ! r ! c > th"
      using sp(2) h by blast
    then have "m ! r ! c \<le> th" using cc(2) [OF r(1,2)] by (auto split: if_splits)
    then show ?thesis using m r by blast
  qed
  then show ?thesis using False I(1) m sp(1) by (auto simp: min_cost_matching_def)
qed

text \<open>The cascade.\<close>

lemma cascade_loop_ok:
  assumes ok: "\<And>ti di. set ti \<subseteq> set tracks_i \<Longrightarrow> set di \<subseteq> B \<Longrightarrow> ti \<noteq> [] \<Longrightarrow> di \<noteq> [] \<Longrightarrow> cost_ok cf tracks dets ti di"
    and th: "0 \<le> th" and ti: "distinct tracks_i" and lv: "distinct levels"
    and st: "distinct (map fst ms)" "distinct (map snd ms @ ud)" "set (map snd ms @ ud) = B"
      "fst ` set ms \<subseteq> set tracks_i" "\<forall>p\<in>set ms. \<forall>l\<in>set levels. dt_tsu (tracks ! fst p) \<noteq> 1 + int l"
  shows "\<exists>ms' ud'. cascade_loop cf th tracks dets tracks_i levels (ms, ud) = Some (ms', ud') \<and>
     distinct (map fst ms') \<and> distinct (map snd ms' @ ud') \<and> set (map snd ms' @ ud') = B \<and> fst ` set ms' \<subseteq> set tracks_i"
  using st lv
proof (induction levels arbitrary: ms ud)
  case (Cons l levels)
  let ?ti = "filter (\<lambda>k. dt_tsu (tracks ! k) = 1 + int l) tracks_i"
  have l: "l \<notin> set levels" "distinct levels" using Cons.prems(6) by auto
  show ?case
  proof (cases "ud = [] \<or> ?ti = []")
    case True
    then have "cascade_level cf th tracks dets tracks_i l (ms, ud) = Some (ms, ud)"
      by (auto simp: cascade_level_def Let_def)
    then show ?thesis using Cons.IH [OF Cons.prems(1-4)] Cons.prems(5) l by simp
  next
    case False
    have "distinct ud" "set ud \<subseteq> B" using Cons.prems(2,3) by auto
    with ok [of ?ti ud] ti th obtain res where res: "min_cost_matching cf th tracks dets ?ti ud = Some res"
      and as: "assoc_ok (set ?ti) (set ud) (md_of res)"
      using min_cost_matching_ok [of ?ti ud cf tracks dets th] by auto
    have lev: "cascade_level cf th tracks dets tracks_i l (ms, ud) = Some (ms @ md_matches res, md_udets res)"
      using False res by (auto simp: cascade_level_def Let_def)
    have as': "distinct (map fst (md_matches res))" "fst ` set (md_matches res) \<subseteq> set ?ti"
      "distinct (map snd (md_matches res) @ md_udets res)" "set (map snd (md_matches res) @ md_udets res) = set ud"
      using as by (auto simp: assoc_ok_def md_of_def)
    have new: "dt_tsu (tracks ! fst p) = 1 + int l" if "p \<in> set (md_matches res)" for p using as'(2) that by auto
    have "\<exists>ms' ud'. cascade_loop cf th tracks dets tracks_i levels (ms @ md_matches res, md_udets res) = Some (ms', ud') \<and>
       distinct (map fst ms') \<and> distinct (map snd ms' @ ud') \<and> set (map snd ms' @ ud') = B \<and> fst ` set ms' \<subseteq> set tracks_i"
    proof (rule Cons.IH)
      show "distinct (map fst (ms @ md_matches res))"
        using Cons.prems(1,5) as'(1) new by auto
      show "distinct (map snd (ms @ md_matches res) @ md_udets res)"
        using Cons.prems(2) as'(3,4) by auto
      show "set (map snd (ms @ md_matches res) @ md_udets res) = B" using Cons.prems(3) as'(4) by auto
      show "fst ` set (ms @ md_matches res) \<subseteq> set tracks_i" using Cons.prems(4) as'(2) by auto
      show "\<forall>p\<in>set (ms @ md_matches res). \<forall>l\<in>set levels. dt_tsu (tracks ! fst p) \<noteq> 1 + int l"
        using Cons.prems(5) new l(1) by auto
      show "distinct levels" by (rule l(2))
    qed
    then show ?thesis by (simp add: lev)
  qed
qed auto

lemma matching_cascade_ok:
  assumes ok: "\<And>ti di. set ti \<subseteq> set tracks_i \<Longrightarrow> set di \<subseteq> {..<length dets} \<Longrightarrow> ti \<noteq> [] \<Longrightarrow> di \<noteq> [] \<Longrightarrow> cost_ok cf tracks dets ti di"
    and th: "0 \<le> th" and ti: "distinct tracks_i"
  shows "\<exists>res. matching_cascade cf th depth tracks dets tracks_i [] = Some res \<and>
     assoc_ok (set tracks_i) {..<length dets} (md_of res)"
proof -
  obtain ms ud where c: "cascade_loop cf th tracks dets tracks_i [0..<nat depth] ([], [0..<length dets]) = Some (ms, ud)"
    and p: "distinct (map fst ms)" "distinct (map snd ms @ ud)" "set (map snd ms @ ud) = {..<length dets}"
      "fst ` set ms \<subseteq> set tracks_i"
    using cascade_loop_ok [OF ok th ti, of "{..<length dets}" "[0..<nat depth]" "[]" "[0..<length dets]"]
    by (auto simp: atLeast0LessThan)
  show ?thesis using c p ti by (auto simp: matching_cascade_def assoc_ok_def md_of_def)
qed

end
