(* ===== verification/NnMatching.thy ===== *)
theory NnMatching imports LinAlg begin

text \<open>
  Model of \<open>src/src/deepsort/nn_matching.cpp\<close>: the appearance metric of DeepSort, with the
  gallery of feature rows it keeps per track id.  A row of features is a vector of 512 numbers in
  the program; the model takes any length.  A normalised row whose norm is zero is NaN in the
  program and the zero vector here.
\<close>

section \<open>The metric\<close>

datatype metric_type = euclidean | cosine

record nn_metric =
  nm_type :: metric_type
  nm_threshold :: real                \<comment> \<open>\<open>mating_threshold\<close>\<close>
  nm_budget :: nat
  nm_samples :: "int \<rightharpoonup> mat"

definition new_metric :: "metric_type \<Rightarrow> real \<Rightarrow> nat \<Rightarrow> nn_metric" where
  "new_metric metric matching_threshold budget =
     \<lparr>nm_type = metric, nm_threshold = matching_threshold, nm_budget = budget, nm_samples = Map.empty\<rparr>"

definition dot :: "vec \<Rightarrow> vec \<Rightarrow> real" where
  "dot u v = sum_list (map2 (*) u v)"

definition normalise :: "vec \<Rightarrow> vec" where
  "normalise r = map (\<lambda>x. x / sqrt (dot r r)) r"

text \<open>One entry per pair of a row of \<open>a\<close> and a row of \<open>b\<close>.\<close>

definition cosine_distance :: "mat \<Rightarrow> mat \<Rightarrow> bool \<Rightarrow> mat" where
  "cosine_distance a b data_is_normalized =
     (let aa = (if data_is_normalized then a else map normalise a);
          bb = (if data_is_normalized then b else map normalise b)
      in map (\<lambda>x. map (\<lambda>y. 1 - dot x y) bb) aa)"

definition pdist :: "mat \<Rightarrow> mat \<Rightarrow> mat" where
  "pdist x y =
     (if x = [] \<or> y = [] then replicate (length x) (replicate (length y) 0)
      else map (\<lambda>u. map (\<lambda>v. max (- 2 * dot u v + dot u u + dot v v) 0) y) x)"

text \<open>The least and the greatest entry of each column; Eigen asserts that there is a row.\<close>

definition col_min :: "nat \<Rightarrow> mat \<Rightarrow> vec option" where
  "col_min c m = (if m = [] then None else Some (map (\<lambda>j. Min (set (map (\<lambda>row. row ! j) m))) [0..<c]))"

definition col_max :: "nat \<Rightarrow> mat \<Rightarrow> vec option" where
  "col_max c m = (if m = [] then None else Some (map (\<lambda>j. Max (set (map (\<lambda>row. row ! j) m))) [0..<c]))"

definition nncosine_distance :: "mat \<Rightarrow> mat \<Rightarrow> vec option" where
  "nncosine_distance x y = col_min (length y) (cosine_distance x y False)"

definition nneuclidean_distance :: "mat \<Rightarrow> mat \<Rightarrow> vec option" where
  "nneuclidean_distance x y = map_option (map (\<lambda>d. max d 0)) (col_max (length y) (pdist x y))"

text \<open>
  \<open>distance\<close>: a row of costs per target.  A target without a gallery would be given an empty one
  by \<open>samples[target]\<close>, on which the minimum fails an assertion: \<^const>\<open>None\<close>.
\<close>

fun all_some :: "'a option list \<Rightarrow> 'a list option" where
  "all_some [] = Some []"
| "all_some (None # xs) = None"
| "all_some (Some x # xs) = map_option ((#) x) (all_some xs)"

definition nn_distance :: "nn_metric \<Rightarrow> mat \<Rightarrow> int list \<Rightarrow> mat option" where
  "nn_distance nm features targets =
     all_some (map (\<lambda>target.
       let x = (case nm_samples nm target of Some g \<Rightarrow> g | None \<Rightarrow> []) in
       case nm_type nm of
         euclidean \<Rightarrow> nneuclidean_distance x features
       | cosine \<Rightarrow> nncosine_distance x features) targets)"

section \<open>\<open>partial_fit\<close>\<close>

text \<open>\<open>block(start, 0, rows, 512)\<close>; out of range it is a failed assertion.\<close>

definition block_rows :: "int \<Rightarrow> nat \<Rightarrow> mat \<Rightarrow> mat option" where
  "block_rows start rows m =
     (if 0 \<le> start \<and> nat start + rows \<le> length m then Some (take rows (drop (nat start) m)) else None)"

definition fit_gallery :: "nat \<Rightarrow> mat \<Rightarrow> mat \<Rightarrow> mat option" where
  "fit_gallery budget old new =
     (let oldSize = length old; addSize = length new; newSize = oldSize + addSize in
      if newSize \<le> budget then Some (old @ new)
      else if oldSize < budget then
        (if addSize \<ge> budget then block_rows 0 budget new
         else map_option (\<lambda>b. b @ new) (block_rows (int addSize - 1) (budget - addSize) old))
      else
        (if addSize \<ge> budget then block_rows 0 budget new
         else map_option (\<lambda>b. b @ new @ drop budget old) (block_rows (int addSize - 1) (budget - addSize) old)))"

fun fit_all :: "nat \<Rightarrow> (int \<times> mat) list \<Rightarrow> (int \<rightharpoonup> mat) \<Rightarrow> (int \<rightharpoonup> mat) option" where
  "fit_all budget [] samples = Some samples"
| "fit_all budget ((track_id, new) # tid_feats) samples =
     (case samples track_id of
        Some old \<Rightarrow> Option.bind (fit_gallery budget old new)
          (\<lambda>g. fit_all budget tid_feats (samples(track_id \<mapsto> g)))
      | None \<Rightarrow> fit_all budget tid_feats (samples(track_id \<mapsto> new)))"

definition partial_fit :: "(int \<times> mat) list \<Rightarrow> int list \<Rightarrow> nn_metric \<Rightarrow> nn_metric option" where
  "partial_fit tid_feats active_targets nm =
     map_option (\<lambda>samples. nm\<lparr>nm_samples := samples |` set active_targets\<rparr>)
       (fit_all (nm_budget nm) tid_feats (nm_samples nm))"

section \<open>Lemmas\<close>

lemma all_some_iff: "all_some xs = Some ys \<longleftrightarrow> xs = map Some ys"
proof (induction xs arbitrary: ys)
  case (Cons x xs)
  then show ?case by (cases x; cases ys) auto
qed auto

lemma all_some_ex: "(\<forall>x\<in>set xs. x \<noteq> None) \<Longrightarrow> \<exists>ys. all_some xs = Some ys"
  by (induction xs rule: all_some.induct) auto

lemma dot_sum: "length u = length v \<Longrightarrow> dot u v = (\<Sum>i<length u. u ! i * v ! i)"
  by (simp add: dot_def sum_list_sum_nth atLeast0LessThan)

lemma dot_self_nonneg: "0 \<le> dot u u"
  by (simp add: dot_sum sum_nonneg)

text \<open>Cauchy and Schwarz, on the model's dot product.\<close>

lemma dot_cauchy:
  assumes "length u = length v"
  shows "(dot u v)\<^sup>2 \<le> dot u u * dot v v"
proof -
  have q: "0 \<le> dot u u * t\<^sup>2 + 2 * dot u v * t + dot v v" for t
  proof -
    have "0 \<le> (\<Sum>i<length u. (t * u ! i + v ! i)\<^sup>2)" by (rule sum_nonneg) simp
    also have "\<dots> = dot u u * t\<^sup>2 + 2 * dot u v * t + dot v v"
      using assms by (simp add: dot_sum power2_eq_square algebra_simps sum.distrib sum_distrib_left)
    finally show ?thesis .
  qed
  show ?thesis
  proof (cases "dot u u = 0")
    case True
    have "dot u v = 0"
    proof (rule ccontr)
      assume "dot u v \<noteq> 0"
      then show False using q [of "- (dot v v + 1) / (2 * dot u v)"] True dot_self_nonneg [of v] by (simp add: field_simps)
    qed
    then show ?thesis using True by simp
  next
    case False
    then have "0 < dot u u" using dot_self_nonneg [of u] by simp
    then show ?thesis using q [of "- dot u v / dot u u"] by (simp add: field_simps power2_eq_square)
  qed
qed

lemma normalise_dot:
  assumes "length u = length v"
  shows "dot (normalise u) (normalise v) = dot u v / (sqrt (dot u u) * sqrt (dot v v))"
  using assms by (simp add: dot_sum normalise_def sum_divide_distrib)

lemma cosine_bounds:
  assumes "length u = length v"
  shows "0 \<le> 1 - dot (normalise u) (normalise v) \<and> 1 - dot (normalise u) (normalise v) \<le> 2"
proof -
  let ?d = "sqrt (dot u u) * sqrt (dot v v)"
  have d0: "0 \<le> ?d" using dot_self_nonneg by simp
  have "\<bar>dot u v\<bar> = sqrt ((dot u v)\<^sup>2)" by simp
  also have "\<dots> \<le> sqrt (dot u u * dot v v)" by (rule real_sqrt_le_mono [OF dot_cauchy [OF assms]])
  finally have le: "\<bar>dot u v\<bar> \<le> ?d" by (simp add: real_sqrt_mult)
  have "\<bar>dot u v / ?d\<bar> \<le> 1"
  proof (cases "?d = 0")
    case True
    show ?thesis unfolding True by simp
  next
    case False
    then have "0 < ?d" using d0 by (simp add: less_le)
    moreover have "\<bar>dot u v / ?d\<bar> = \<bar>dot u v\<bar> / ?d" using d0 by (metis abs_divide abs_of_nonneg)
    ultimately show ?thesis using le by (simp only: pos_divide_le_eq mult_1)
  qed
  then show ?thesis unfolding normalise_dot [OF assms] abs_le_iff by linarith
qed

lemma fit_gallery_small:
  assumes "length new \<le> 1" "old \<noteq> []" "length old \<le> budget" "1 < budget"
  shows "fit_gallery budget old new =
     Some (if length old + length new \<le> budget then old @ new else take (budget - 1) old @ new)"
proof (cases "length old + length new \<le> budget")
  case False
  then have "length new = 1" "length old = budget" using assms by auto
  then show ?thesis using assms by (simp add: fit_gallery_def block_rows_def)
qed (simp add: fit_gallery_def)

text \<open>Every cost lies between 0 and 2 when all rows have the same length.\<close>

definition rows_of_length :: "nat \<Rightarrow> mat \<Rightarrow> bool" where
  "rows_of_length d m \<longleftrightarrow> (\<forall>row\<in>set m. length row = d)"

definition galleries_ok :: "nat \<Rightarrow> nn_metric \<Rightarrow> bool" where
  "galleries_ok d nm \<longleftrightarrow> (\<forall>t g. nm_samples nm t = Some g \<longrightarrow> g \<noteq> [] \<and> rows_of_length d g)"

lemma nncosine_ok:
  assumes "x \<noteq> []" "rows_of_length d x" "rows_of_length d y"
  shows "\<exists>v. nncosine_distance x y = Some v \<and> length v = length y \<and> (\<forall>e\<in>set v. 0 \<le> e \<and> e \<le> 2)"
proof -
  let ?D = "cosine_distance x y False"
  have D: "?D = map (\<lambda>u. map (\<lambda>w. 1 - dot (normalise u) (normalise w)) y) x"
    by (simp add: cosine_distance_def comp_def)
  have ne: "?D \<noteq> []" using assms(1) by (simp add: D)
  have "0 \<le> Min (set (map (\<lambda>row. row ! j) ?D)) \<and> Min (set (map (\<lambda>row. row ! j) ?D)) \<le> 2" if j: "j < length y" for j
  proof -
    have "Min (set (map (\<lambda>row. row ! j) ?D)) \<in> set (map (\<lambda>row. row ! j) ?D)"
      using ne by (intro Min_in) simp_all
    then obtain u where u: "u \<in> set x" and e: "Min (set (map (\<lambda>row. row ! j) ?D)) = 1 - dot (normalise u) (normalise (y ! j))"
      using j by (auto simp: D)
    have "length u = length (y ! j)" using assms(2,3) u j by (auto simp: rows_of_length_def)
    from cosine_bounds [OF this] show ?thesis unfolding e .
  qed
  then show ?thesis
    using ne by (intro exI [of _ "map (\<lambda>j. Min (set (map (\<lambda>row. row ! j) ?D))) [0..<length y]"])
      (auto simp: nncosine_distance_def col_min_def)
qed

lemma nn_distance_ok:
  assumes "galleries_ok d nm" "nm_type nm = cosine" "rows_of_length d features" "set targets \<subseteq> dom (nm_samples nm)"
  shows "\<exists>m. nn_distance nm features targets = Some m \<and> is_mat (length targets) (length features) m \<and>
     (\<forall>row\<in>set m. \<forall>e\<in>set row. 0 \<le> e \<and> e \<le> 2)"
proof -
  let ?f = "\<lambda>target. nncosine_distance (case nm_samples nm target of Some g \<Rightarrow> g | None \<Rightarrow> []) features"
  have e: "nn_distance nm features targets = all_some (map ?f targets)"
    using assms(2) by (simp add: nn_distance_def Let_def)
  have ok: "\<exists>v. ?f t = Some v \<and> length v = length features \<and> (\<forall>e\<in>set v. 0 \<le> e \<and> e \<le> 2)" if t: "t \<in> set targets" for t
  proof -
    obtain g where "nm_samples nm t = Some g" using assms(4) t by blast
    then show ?thesis using assms(1,3) nncosine_ok [of g d features] by (auto simp: galleries_ok_def)
  qed
  then have "\<forall>x\<in>set (map ?f targets). x \<noteq> None" by force
  then obtain m where m: "all_some (map ?f targets) = Some m" using all_some_ex by blast
  then have mm: "map ?f targets = map Some m" by (simp add: all_some_iff)
  have "\<exists>t\<in>set targets. ?f t = Some row" if "row \<in> set m" for row
  proof -
    have "Some row \<in> set (map Some m)" using that by simp
    then show ?thesis unfolding mm [symmetric] by auto
  qed
  then have "\<forall>row\<in>set m. length row = length features \<and> (\<forall>e\<in>set row. 0 \<le> e \<and> e \<le> 2)"
    using ok by (metis option.inject)
  moreover have "length m = length targets" using arg_cong [OF mm, of length] by simp
  ultimately show ?thesis using m e by (auto simp: is_mat_def)
qed

text \<open>One feature after the other, as the tracker feeds a confirmed track.\<close>

fun feed :: "nat \<Rightarrow> mat \<Rightarrow> mat \<Rightarrow> mat option" where
  "feed budget g [] = Some g"
| "feed budget g (f # fs) = Option.bind (fit_gallery budget g [f]) (\<lambda>g. feed budget g fs)"

lemma feed_full:
  assumes "1 < budget" "length g = budget"
  shows "feed budget g fs = Some (if fs = [] then g else take (budget - 1) g @ [last fs])"
  using assms
proof (induction fs arbitrary: g)
  case (Cons f fs)
  have "fit_gallery budget g [f] = Some (take (budget - 1) g @ [f])"
    using fit_gallery_small [of "[f]" g budget] Cons.prems by (cases g) auto
  then show ?case using Cons.IH [of "take (budget - 1) g @ [f]"] Cons.prems by simp
qed simp

lemma feed_all:
  assumes "1 < budget" "g \<noteq> []" "length g \<le> budget"
  shows "feed budget g fs = Some (if length g + length fs \<le> budget then g @ fs
     else take (budget - 1) (g @ fs) @ [last fs])"
  using assms
proof (induction fs arbitrary: g)
  case (Cons f fs)
  show ?case
  proof (cases "length g = budget")
    case True
    then show ?thesis using feed_full [OF Cons.prems(1) True, of "f # fs"] by simp
  next
    case False
    then have "fit_gallery budget g [f] = Some (g @ [f])" "length (g @ [f]) \<le> budget"
      using fit_gallery_small [of "[f]" g budget] Cons.prems by auto
    then show ?thesis
      using Cons.IH [of "g @ [f]"] Cons.prems False by (cases "fs = []") auto
  qed
qed simp

section \<open>Properties\<close>

text \<open>The cosine distance of two vectors, and vectors that have one: a vector of length 0 is divided by 0, which is NaN in the code.\<close>

definition cosine_dist :: "vec \<Rightarrow> vec \<Rightarrow> real" where
  "cosine_dist u v = 1 - dot u v / (sqrt (dot u u) * sqrt (dot v v))"

definition has_direction :: "vec \<Rightarrow> bool" where
  "has_direction v \<longleftrightarrow> dot v v \<noteq> 0"

lemma cosine_dist_self: "has_direction v \<Longrightarrow> cosine_dist v v = 0"
  using dot_self_nonneg [of v] by (simp add: cosine_dist_def has_direction_def flip: real_sqrt_mult)

lemma nncosine_entry:
  assumes "rows_of_length d x" "rows_of_length d y" "nncosine_distance x y = Some v" "j < length y"
  shows "v ! j = Min ((\<lambda>u. cosine_dist u (y ! j)) ` set x)"
proof -
  let ?D = "map (\<lambda>u. map (\<lambda>w. 1 - dot (normalise u) (normalise w)) y) x"
  have "x \<noteq> []" using assms(3) by (auto simp: nncosine_distance_def cosine_distance_def col_min_def)
  then have "v ! j = Min (set (map (\<lambda>row. row ! j) ?D))"
    using assms(3,4) by (auto simp: nncosine_distance_def cosine_distance_def col_min_def comp_def)
  moreover have "set (map (\<lambda>row. row ! j) ?D) = (\<lambda>u. cosine_dist u (y ! j)) ` set x"
  proof -
    have "map (\<lambda>w. 1 - dot (normalise u) (normalise w)) y ! j = cosine_dist u (y ! j)" if u: "u \<in> set x" for u
    proof -
      have "length u = length (y ! j)" using assms(1,2,4) u by (auto simp: rows_of_length_def)
      then show ?thesis using assms(4) by (simp add: cosine_dist_def normalise_dot)
    qed
    then show ?thesis by (auto simp: image_image)
  qed
  ultimately show ?thesis by (simp only:)
qed

text \<open>
  C28.  The appearance costs, for features and galleries of vectors that are not 0: with a gallery for
  every target the metric answers, with a row per target and a column per feature; an entry is the
  smallest cosine distance between the feature and the features of the target's gallery.  Every cost lies between 0
  and 2, and a feature that is in the gallery costs nothing.
\<close>

theorem nn_distance_range:
  assumes "galleries_ok d nm" "nm_type nm = cosine" "rows_of_length d features" "set targets \<subseteq> dom (nm_samples nm)"
    and "\<forall>f\<in>set features. has_direction f" "\<forall>t\<in>set targets. \<forall>u\<in>set (the (nm_samples nm t)). has_direction u"
  shows "\<exists>m. nn_distance nm features targets = Some m \<and> is_mat (length targets) (length features) m \<and>
     (\<forall>i<length targets. \<forall>j<length features. let g = the (nm_samples nm (targets ! i)) in
        m ! i ! j = Min ((\<lambda>u. cosine_dist u (features ! j)) ` set g) \<and> 0 \<le> m ! i ! j \<and> m ! i ! j \<le> 2 \<and>
        (features ! j \<in> set g \<longrightarrow> m ! i ! j = 0))"
proof -
  from nn_distance_ok [OF assms(1-4)] obtain m where m: "nn_distance nm features targets = Some m"
    "is_mat (length targets) (length features) m" "\<forall>row\<in>set m. \<forall>e\<in>set row. 0 \<le> e \<and> e \<le> 2" by blast
  have "m ! i ! j = Min ((\<lambda>u. cosine_dist u (features ! j)) ` set g) \<and> 0 \<le> m ! i ! j \<and> m ! i ! j \<le> 2 \<and>
        (features ! j \<in> set g \<longrightarrow> m ! i ! j = 0)"
    if i: "i < length targets" and j: "j < length features" and g: "g = the (nm_samples nm (targets ! i))" for i j g
  proof -
    have ti: "targets ! i \<in> set targets" and fj: "features ! j \<in> set features" using i j by simp_all
    then have s: "nm_samples nm (targets ! i) = Some g" using assms(4) g by force
    have "map (\<lambda>target. nncosine_distance (case nm_samples nm target of Some g \<Rightarrow> g | None \<Rightarrow> []) features) targets = map Some m"
      using m(1) assms(2) by (simp add: nn_distance_def Let_def all_some_iff)
    from arg_cong [OF this, of "\<lambda>xs. xs ! i"] have v: "nncosine_distance g features = Some (m ! i)"
      using i s m(2) by (simp add: is_mat_def)
    have rg: "rows_of_length d g" using assms(1) s by (simp add: galleries_ok_def)
    have e: "m ! i ! j = Min ((\<lambda>u. cosine_dist u (features ! j)) ` set g)" by (rule nncosine_entry [OF rg assms(3) v j])
    have row: "m ! i \<in> set m" "m ! i ! j \<in> set (m ! i)" using m(2) i j by (simp_all add: is_mat_def)
    then have r: "0 \<le> m ! i ! j" "m ! i ! j \<le> 2" using m(3) by blast+
    moreover have "m ! i ! j = 0" if f: "features ! j \<in> set g"
    proof -
      have "cosine_dist (features ! j) (features ! j) = 0" using assms(5) fj cosine_dist_self by blast
      then have "m ! i ! j \<le> 0" using f unfolding e by (metis Min_le finite_imageI finite_set imageI)
      with r show ?thesis by simp
    qed
    ultimately show ?thesis using e by blast
  qed
  note entries = this
  show ?thesis unfolding Let_def by (intro exI [of _ m] conjI [OF m(1)] conjI [OF m(2)] allI impI entries) simp_all
qed

theorem nn_distance_range_witness:
  "\<exists>m. nn_distance ((new_metric cosine (1/2) 100)\<lparr>nm_samples := [7 \<mapsto> [[3, 4], [0, 1]]]\<rparr>) [[1, 0], [3, 4]] [7] = Some m \<and>
     is_mat 1 2 m \<and> m ! 0 ! 0 = 2/5 \<and> m ! 0 ! 1 = 0"
proof -
  let ?nm = "(new_metric cosine (1/2) 100)\<lparr>nm_samples := [7 \<mapsto> [[3, 4], [0, 1]]]\<rparr>"
  have "galleries_ok 2 ?nm" "nm_type ?nm = cosine" "rows_of_length 2 [[1, 0], [3, 4]]" "set [7] \<subseteq> dom (nm_samples ?nm)"
    "\<forall>f\<in>set [[1, 0], [3, 4]]. has_direction f" "\<forall>t\<in>set [7]. \<forall>u\<in>set (the (nm_samples ?nm t)). has_direction u"
    by (simp_all add: galleries_ok_def rows_of_length_def new_metric_def has_direction_def dot_def)
  from nn_distance_range [OF this] obtain m where m: "nn_distance ?nm [[1, 0], [3, 4]] [7] = Some m" "is_mat 1 2 m"
    and e: "\<forall>j<2. m ! 0 ! j = min (cosine_dist [3, 4] ([[1, 0], [3, 4]] ! j)) (cosine_dist [0, 1] ([[1, 0], [3, 4]] ! j)) \<and>
      ([[1, 0], [3, 4]] ! j = [3, 4 :: real] \<longrightarrow> m ! 0 ! j = 0)"
    by (auto simp: Let_def numeral_2_eq_2)
  from e [rule_format, of 0] e [rule_format, of 1] have "m ! 0 ! 0 = min (cosine_dist [3, 4] [1, 0]) (cosine_dist [0, 1] [1, 0])" "m ! 0 ! 1 = 0"
    by simp_all
  moreover have "sqrt 25 = 5" by (rule real_sqrt_unique) simp_all
  ultimately show ?thesis using m by (auto simp: cosine_dist_def dot_def)
qed

text \<open>
  C29.  The gallery of a track that is fed one feature per frame: it grows up to the budget, and
  from then on it keeps the oldest \<open>budget - 1\<close> features for ever and only replaces the last one
  (the block of old rows starts at \<open>addSize - 1\<close>, not at \<open>addSize\<close>).
\<close>

theorem gallery_keeps_oldest:
  assumes "1 < budget" "g \<noteq> []" "length g \<le> budget"
  shows "feed budget g fs = Some (if length g + length fs \<le> budget then g @ fs
     else take (budget - 1) (g @ fs) @ [last fs])"
  by (rule feed_all [OF assms])

theorem gallery_keeps_oldest_witness:
  "feed 2 [[1]] [[2], [3], [4]] = Some [[1], [4]]"
  using gallery_keeps_oldest [of 2 "[[1]]" "[[2], [3], [4]]"] by simp

end
