(* ===== verification/DeepTracker.thy ===== *)
theory DeepTracker imports DeepAssign NnMatching begin

text \<open>
  Model of \<open>src/src/deepsort/tracker.cpp\<close>: the DeepSort tracker.  The three operations of Eigen it
  reaches through the Kalman filter are the fields of an \<open>eigen_ops\<close>; \<^const>\<open>None\<close> is a failed
  assertion in one of the parts, or a solver that does not return.
\<close>

section \<open>State\<close>

record eigen_ops =
  eo_solve :: "mat \<Rightarrow> mat \<Rightarrow> mat"       \<comment> \<open>\<open>llt().solve\<close>\<close>
  eo_llt :: "mat \<Rightarrow> mat"                \<comment> \<open>\<open>llt().matrixL\<close>\<close>
  eo_tri :: "mat \<Rightarrow> mat \<Rightarrow> mat"         \<comment> \<open>\<open>triangularView<Lower>().solve<OnTheRight>\<close>\<close>

record deep_tracker =
  tk_metric :: nn_metric
  tk_max_iou :: real
  tk_max_age :: int
  tk_n_init :: int
  tk_next_idx :: int
  tk_tracks :: "deep_track list"

definition new_tracker :: "real \<Rightarrow> nat \<Rightarrow> real \<Rightarrow> int \<Rightarrow> int \<Rightarrow> deep_tracker" where
  "new_tracker max_cosine_distance nn_budget max_iou_distance max_age n_init =
     \<lparr>tk_metric = new_metric cosine max_cosine_distance nn_budget, tk_max_iou = max_iou_distance,
      tk_max_age = max_age, tk_n_init = n_init, tk_next_idx = 1, tk_tracks = []\<rparr>"

section \<open>The costs\<close>

definition deep_iou :: "vec \<Rightarrow> vec \<Rightarrow> real" where
  "deep_iou bbox candidate =
     (let bbox_tl_1 = bbox ! 0; bbox_tl_2 = bbox ! 1;
          bbox_br_1 = bbox ! 0 + bbox ! 2; bbox_br_2 = bbox ! 1 + bbox ! 3;
          area_bbox = bbox ! 2 * bbox ! 3;
          tl_1 = max bbox_tl_1 (candidate ! 0);
          tl_2 = max bbox_tl_2 (candidate ! 1);
          br_1 = min bbox_br_1 (candidate ! 2 + candidate ! 0);
          br_2 = min bbox_br_2 (candidate ! 3 + candidate ! 1);
          w = br_1 - tl_1; w = (if w < 0 then 0 else w);
          h = br_2 - tl_2; h = (if h < 0 then 0 else h);
          area_intersection = w * h;
          area_candidates = candidate ! 2 * candidate ! 3
      in area_intersection / (area_bbox + area_candidates - area_intersection))"

text \<open>\<open>iou\<close>: the overlap of one box with each candidate.\<close>

definition deep_ious :: "vec \<Rightarrow> mat \<Rightarrow> vec" where
  "deep_ious bbox candidates = map (deep_iou bbox) candidates"

definition iou_cost :: cost_fun where
  "iou_cost tracks dets track_indices detection_indices =
     Some (map (\<lambda>track_idx.
        if dt_tsu (tracks ! track_idx) > 1 then replicate (length detection_indices) INFTY_COST
        else map (\<lambda>o'. 1 - o') (deep_ious (to_tlwh (tracks ! track_idx))
               (map (\<lambda>k. dr_tlwh (dets ! k)) detection_indices)))
      track_indices)"

definition gated_matric :: "eigen_ops \<Rightarrow> nn_metric \<Rightarrow> cost_fun" where
  "gated_matric ops metric tracks dets track_indices detection_indices =
     (let features = map (\<lambda>i. dr_feature (dets ! i)) detection_indices;
          targets = map (\<lambda>i. dt_id (tracks ! i)) track_indices
      in Option.bind (nn_distance metric features targets) (\<lambda>cost_matrix.
           gate_cost_matrix (eo_llt ops) (eo_tri ops) cost_matrix tracks dets track_indices
             detection_indices INFTY_COST False))"

section \<open>The steps\<close>

definition tracker_predict :: "deep_tracker \<Rightarrow> deep_tracker" where
  "tracker_predict tk = tk\<lparr>tk_tracks := map predit (tk_tracks tk)\<rparr>"

text \<open>The cascade for the confirmed tracks, then the overlap for the others and the just missed.\<close>

definition tracker_match :: "eigen_ops \<Rightarrow> detection_row list \<Rightarrow> deep_tracker \<Rightarrow> matchd option" where
  "tracker_match ops detections tk =
     (let tracks = tk_tracks tk;
          confirmed_tracks = idx_where is_confirmed tracks;
          unconfirmed_tracks = idx_where (\<lambda>t. \<not> is_confirmed t) tracks
      in Option.bind
           (matching_cascade (gated_matric ops (tk_metric tk)) (nm_threshold (tk_metric tk)) (tk_max_age tk)
              tracks detections confirmed_tracks [])
           (\<lambda>matcha.
         let just_missed = filter (\<lambda>idx. dt_tsu (tracks ! idx) = 1) (md_utracks matcha);
             utracks_a = filter (\<lambda>idx. dt_tsu (tracks ! idx) \<noteq> 1) (md_utracks matcha)
         in map_option (\<lambda>matchb.
              \<lparr>md_matches = md_matches matcha @ md_matches matchb,
               md_utracks = utracks_a @ md_utracks matchb,
               md_udets = md_udets matchb\<rparr>)
            (min_cost_matching iou_cost (tk_max_iou tk) tracks detections
               (unconfirmed_tracks @ just_missed) (md_udets matcha))))"

definition initiate_track :: "detection_row \<Rightarrow> deep_tracker \<Rightarrow> deep_tracker" where
  "initiate_track detection tk =
     (let (m, c) = mkf_initiate (dr_to_xyah detection)
      in tk\<lparr>tk_tracks := tk_tracks tk @ [new_track m c (tk_next_idx tk) (tk_n_init tk) (tk_max_age tk)
              (dr_feature detection)],
            tk_next_idx := tk_next_idx tk + 1\<rparr>)"

definition initiate_track_cls :: "detection_row \<Rightarrow> clsconf \<Rightarrow> deep_tracker \<Rightarrow> deep_tracker" where
  "initiate_track_cls detection cc tk =
     (let (m, c) = mkf_initiate (dr_to_xyah detection)
      in tk\<lparr>tk_tracks := tk_tracks tk @ [new_track_cls m c (tk_next_idx tk) (tk_n_init tk) (tk_max_age tk)
              (dr_feature detection) (cc_cls cc) (cc_conf cc)],
            tk_next_idx := tk_next_idx tk + 1\<rparr>)"

text \<open>The end of both \<open>update\<close> methods: erase the deleted tracks and feed the galleries.\<close>

definition finish_update :: "deep_tracker \<Rightarrow> deep_tracker option" where
  "finish_update tk =
     (let tracks = filter (\<lambda>t. \<not> is_deleted t) (tk_tracks tk);
          active_targets = map dt_id (filter is_confirmed tracks);
          tid_features = map (\<lambda>t. (dt_id t, dt_features t)) (filter is_confirmed tracks);
          tracks = map (\<lambda>t. if is_confirmed t then t\<lparr>dt_features := []\<rparr> else t) tracks
      in map_option (\<lambda>metric. tk\<lparr>tk_tracks := tracks, tk_metric := metric\<rparr>)
           (partial_fit tid_features active_targets (tk_metric tk)))"

definition tracker_update :: "eigen_ops \<Rightarrow> detection_row list \<Rightarrow> deep_tracker \<Rightarrow> deep_tracker option" where
  "tracker_update ops detections tk =
     Option.bind (tracker_match ops detections tk) (\<lambda>res.
       let tracks = fold (\<lambda>(track_idx, detection_idx) ts.
                      ts[track_idx := dt_update (eo_solve ops) (detections ! detection_idx) (ts ! track_idx)])
                    (md_matches res) (tk_tracks tk);
           tracks = fold (\<lambda>track_idx ts. ts[track_idx := mark_missed (ts ! track_idx)]) (md_utracks res) tracks;
           tk = fold (\<lambda>detection_idx. initiate_track (detections ! detection_idx)) (md_udets res)
                  (tk\<lparr>tk_tracks := tracks\<rparr>)
       in finish_update tk)"

definition tracker_update_cls ::
  "eigen_ops \<Rightarrow> clsconf list \<Rightarrow> detection_row list \<Rightarrow> deep_tracker \<Rightarrow> deep_tracker option" where
  "tracker_update_cls ops clsConf detections tk =
     Option.bind (tracker_match ops detections tk) (\<lambda>res.
       let tracks = fold (\<lambda>(track_idx, detection_idx) ts.
                      ts[track_idx := dt_update_cls (eo_solve ops) (detections ! detection_idx)
                           (clsConf ! detection_idx) (ts ! track_idx)])
                    (md_matches res) (tk_tracks tk);
           tracks = fold (\<lambda>track_idx ts. ts[track_idx := mark_missed (ts ! track_idx)]) (md_utracks res) tracks;
           tk = fold (\<lambda>detection_idx. initiate_track_cls (detections ! detection_idx) (clsConf ! detection_idx))
                  (md_udets res) (tk\<lparr>tk_tracks := tracks\<rparr>)
       in finish_update tk)"

section \<open>The costs are not negative\<close>

lemma iou_ratio:
  fixes w :: real
  assumes "0 < w" "0 < h" "w \<le> aw" "h \<le> ah" "w \<le> bw" "h \<le> bh"
  shows "0 \<le> w * h / (aw * ah + bw * bh - w * h) \<and> w * h / (aw * ah + bw * bh - w * h) \<le> 1"
proof -
  define p u where "p = w * h" and "u = aw * ah + bw * bh - w * h"
  have "w * h \<le> aw * ah" "w * h \<le> bw * bh" using assms by (auto intro!: mult_mono)
  moreover have "0 < p" using assms by (simp add: p_def)
  ultimately have "0 < u" "p \<le> u" unfolding p_def u_def by linarith+
  with \<open>0 < p\<close> have "0 \<le> p / u \<and> p / u \<le> 1" by simp
  then show ?thesis by (simp only: p_def u_def)
qed

lemma deep_iou_range: "0 \<le> deep_iou b c \<and> deep_iou b c \<le> 1"
proof -
  define w where "w = min (b ! 0 + b ! 2) (c ! 2 + c ! 0) - max (b ! 0) (c ! 0)"
  define h where "h = min (b ! 1 + b ! 3) (c ! 3 + c ! 1) - max (b ! 1) (c ! 1)"
  have e: "deep_iou b c = (if w < 0 then 0 else w) * (if h < 0 then 0 else h) /
     (b ! 2 * b ! 3 + c ! 2 * c ! 3 - (if w < 0 then 0 else w) * (if h < 0 then 0 else h))"
    by (simp only: deep_iou_def Let_def w_def h_def)
  show ?thesis
  proof (cases "0 < w \<and> 0 < h")
    case True
    have "w \<le> b ! 2" "w \<le> c ! 2" "h \<le> b ! 3" "h \<le> c ! 3" unfolding w_def h_def by linarith+
    with iou_ratio [of w h "b ! 2" "b ! 3" "c ! 2" "c ! 3"] True show ?thesis by (simp add: e)
  next
    case False
    then have "w \<le> 0 \<or> h \<le> 0" by auto
    then have "(if w < 0 then 0 else w) * (if h < 0 then 0 else h) = 0" by auto
    then show ?thesis by (simp only: e) simp
  qed
qed

lemma iou_cost_ok: "cost_ok iou_cost tracks dets ti di"
proof -
  let ?m = "map (\<lambda>track_idx.
        if dt_tsu (tracks ! track_idx) > 1 then replicate (length di) INFTY_COST
        else map (\<lambda>o'. 1 - o') (deep_ious (to_tlwh (tracks ! track_idx)) (map (\<lambda>k. dr_tlwh (dets ! k)) di))) ti"
  have "is_mat (length ti) (length di) ?m" by (auto simp: is_mat_def deep_ious_def)
  moreover have "0 \<le> ?m ! i ! j" if "i < length ti" "j < length di" for i j
    using that deep_iou_range by (auto simp: deep_ious_def INFTY_COST_def)
  ultimately show ?thesis unfolding cost_ok_def iou_cost_def by blast
qed

text \<open>The triangular solver returns a row per right-hand side.\<close>

definition keeps_rows :: "eigen_ops \<Rightarrow> bool" where
  "keeps_rows ops \<longleftrightarrow> (\<forall>L d. length (eo_tri ops L d) = length d)"

lemma gating_length:
  assumes "keeps_rows ops"
  shows "\<exists>g. mkf_gating_distance (eo_llt ops) (eo_tri ops) st ms False = Some g \<and> length g = length ms"
  using assms by (simp add: mkf_gating_distance_def Let_def keeps_rows_def)

lemma gate_rows_ok:
  assumes "keeps_rows ops" "is_mat (length ti) c m" "c = length ms" "\<forall>row\<in>set m. \<forall>e\<in>set row. 0 \<le> e" "0 \<le> gc"
  shows "\<exists>m'. gate_rows (eo_llt ops) (eo_tri ops) tracks ms gc False ti m = Some m' \<and> is_mat (length ti) c m' \<and>
     (\<forall>row\<in>set m'. \<forall>e\<in>set row. 0 \<le> e)"
  using assms(2,4)
proof (induction ti arbitrary: m)
  case Nil
  then show ?case by (auto simp: is_mat_def)
next
  case (Cons k ks)
  then obtain row rows where m: "m = row # rows" by (cases m) (auto simp: is_mat_def)
  obtain g where g: "mkf_gating_distance (eo_llt ops) (eo_tri ops) (dt_mean (tracks ! k), dt_cov (tracks ! k)) ms False = Some g"
    "length g = length ms" using gating_length [OF assms(1)] by blast
  have "is_mat (length ks) c rows" using Cons.prems by (auto simp: m is_mat_def)
  moreover have "\<forall>row\<in>set rows. \<forall>e\<in>set row. 0 \<le> e" using Cons.prems(2) by (simp add: m)
  ultimately obtain m' where m': "gate_rows (eo_llt ops) (eo_tri ops) tracks ms gc False ks rows = Some m'"
    "is_mat (length ks) c m'" "\<forall>row\<in>set m'. \<forall>e\<in>set row. 0 \<le> e" using Cons.IH [of rows] by blast
  let ?row = "map2 (\<lambda>g c. if g > mkf_chi2inv95 ! 4 then gc else c) g row"
  have "length row = c" using Cons.prems by (simp add: m is_mat_def)
  then have "length ?row = c" using g assms(3) by simp
  moreover have "\<forall>e\<in>set ?row. 0 \<le> e"
    using Cons.prems(2) assms(5) by (auto simp: m dest: set_zip_rightD)
  ultimately show ?case using g m' by (simp add: m is_mat_def)
qed

end
