(* ===== verification/DeepInv.thy ===== *)
theory DeepInv imports DeepTracker begin

text \<open>
  The invariant of the DeepSort tracker of \<^theory_text>\<open>DeepTracker\<close> and the proof that \<open>update\<close> keeps
  it: ids are distinct and below the counter, no deleted track is kept, the appearance metric has
  a gallery for the confirmed tracks and for no other, and a track's collected features fit it.
\<close>

section \<open>The parts of a matching step\<close>

lemma gated_matric_ok:
  assumes ops: "keeps_rows ops" and g: "galleries_ok d nm" and c: "nm_type nm = cosine"
    and f: "\<forall>k\<in>set di. length (dr_feature (dets ! k)) = d"
    and t: "\<forall>i\<in>set ti. dt_id (tracks ! i) \<in> dom (nm_samples nm)"
  shows "cost_ok (gated_matric ops nm) tracks dets ti di"
proof -
  let ?fs = "map (\<lambda>i. dr_feature (dets ! i)) di" and ?ts = "map (\<lambda>i. dt_id (tracks ! i)) ti"
  have "rows_of_length d ?fs" "set ?ts \<subseteq> dom (nm_samples nm)" using f t by (auto simp: rows_of_length_def)
  from nn_distance_ok [OF g c this] obtain m where m: "nn_distance nm ?fs ?ts = Some m"
    "is_mat (length ti) (length di) m" "\<forall>row\<in>set m. \<forall>e\<in>set row. 0 \<le> e" by auto
  from gate_rows_ok [OF ops m(2) _ m(3), of "map (\<lambda>i. dr_to_xyah (dets ! i)) di" INFTY_COST tracks]
  obtain m' where m': "gate_rows (eo_llt ops) (eo_tri ops) tracks (map (\<lambda>i. dr_to_xyah (dets ! i)) di) INFTY_COST False ti m = Some m'"
    "is_mat (length ti) (length di) m'" "\<forall>row\<in>set m'. \<forall>e\<in>set row. 0 \<le> e"
    by (auto simp: INFTY_COST_def)
  have "gated_matric ops nm tracks dets ti di = Some m'"
    using m(1) m'(1) by (simp add: gated_matric_def gate_cost_matrix_def)
  moreover have "0 \<le> m' ! i ! j" if "i < length ti" "j < length di" for i j
  proof -
    have "m' ! i \<in> set m'" "length (m' ! i) = length di" using m'(2) that(1) by (auto simp: is_mat_def)
    then show ?thesis using m'(3) that(2) by (metis nth_mem)
  qed
  ultimately show ?thesis using m'(2) by (auto simp: cost_ok_def)
qed

text \<open>Two partitions in a row, the second on what the first left over.\<close>

lemma assoc_then:
  assumes a: "assoc_ok A B (m1, u1, d1)" and b: "assoc_ok (C \<union> set j) (set d1) (m2, u2, d2)"
    and u1: "mset u1 = mset j + mset r" and d: "C \<inter> A = {}"
  shows "assoc_ok (A \<union> C) B (m1 @ m2, r @ u2, d2)"
proof -
  have e: "set u1 = set j \<union> set r" "distinct u1 = distinct (j @ r)"
    using u1 by (metis set_mset_mset set_mset_union, metis mset_append mset_eq_imp_distinct_iff)
  have m: "fst ` set m1 \<inter> set u1 = {}" "fst ` set m1 \<union> set u1 = A" "snd ` set m1 \<inter> set d1 = {}"
      "distinct (map fst m1)" "distinct (map snd m1)" "snd ` set m1 \<union> set d1 = B" "distinct u1"
    using a by (auto simp: assoc_ok_def)
  have n: "fst ` set m2 \<inter> set u2 = {}" "fst ` set m2 \<union> set u2 = C \<union> set j" "snd ` set m2 \<inter> set d2 = {}"
      "distinct (map fst m2)" "distinct u2" "distinct (map snd m2)" "distinct d2" "snd ` set m2 \<union> set d2 = set d1"
    using b by (auto simp: assoc_ok_def)
  have jr: "set j \<inter> set r = {}" "distinct r" using m(7) e(2) by auto
  have l: "(fst ` set m1 \<union> set r) \<inter> (fst ` set m2 \<union> set u2) = {}"
    unfolding n(2) using m(1,2) e(1) jr(1) d by blast
  have l': "fst ` set m1 \<union> set r \<union> (fst ` set m2 \<union> set u2) = A \<union> C"
    unfolding n(2) using m(2) e(1) by blast
  have r: "snd ` set m1 \<inter> (snd ` set m2 \<union> set d2) = {}" "snd ` set m1 \<union> (snd ` set m2 \<union> set d2) = B"
    unfolding n(8) by (rule m(3), rule m(6))
  have l1: "fst ` set m1 \<inter> set r = {}" using m(1) e(1) by blast
  have l2: "fst ` set m1 \<inter> fst ` set m2 = {}" "fst ` set m1 \<inter> set u2 = {}" "set r \<inter> fst ` set m2 = {}" "set r \<inter> set u2 = {}"
    "fst ` set m2 \<inter> set r = {}" using l by blast+
  have r2: "snd ` set m1 \<inter> snd ` set m2 = {}" "snd ` set m1 \<inter> set d2 = {}" using r(1) by blast+
  have "distinct (map fst (m1 @ m2) @ r @ u2)"
    by (simp only: map_append distinct_append set_append set_map Int_Un_distrib Int_Un_distrib2 Un_empty
        l1 l2 m(4) n(1,4,5) jr(2) simp_thms)
  moreover have "distinct (map snd (m1 @ m2) @ d2)"
    by (simp only: map_append distinct_append set_append set_map Int_Un_distrib Int_Un_distrib2 Un_empty
        r2 m(5) n(3,6,7) simp_thms)
  moreover have "set (map fst (m1 @ m2) @ r @ u2) = A \<union> C" unfolding l' [symmetric] by auto
  moreover have "set (map snd (m1 @ m2) @ d2) = B" unfolding r(2) [symmetric] by auto
  ultimately show ?thesis by (simp only: assoc_ok_def prod.case simp_thms)
qed

lemma mset_filter_parts: "mset xs = mset (filter P xs) + mset (filter (\<lambda>x. \<not> P x) xs)"
  by (induction xs) auto

text \<open>Without confirmed tracks the cascade leaves every detection.\<close>

lemma cascade_none: "cascade_loop cf th tracks dets [] levels (ms, ud) = Some (ms, ud)"
proof (induction levels)
  case (Cons l levels)
  have "cascade_level cf th tracks dets [] l (ms, ud) = Some (ms, ud)" by (simp add: cascade_level_def)
  then show ?case using Cons.IH by simp
qed simp

lemma tracker_match_ok:
  assumes ops: "keeps_rows ops" and g: "galleries_ok d (tk_metric tk)" and c: "nm_type (tk_metric tk) = cosine"
    and f: "\<forall>r\<in>set dets. length (dr_feature r) = d"
    and t: "\<forall>t\<in>set (tk_tracks tk). is_confirmed t \<longrightarrow> dt_id t \<in> dom (nm_samples (tk_metric tk))"
    and th: "0 \<le> nm_threshold (tk_metric tk)" "0 \<le> tk_max_iou tk"
  shows "\<exists>res. tracker_match ops dets tk = Some res \<and>
     assoc_ok {..<length (tk_tracks tk)} {..<length dets} (md_of res)"
proof -
  let ?ts = "tk_tracks tk" and ?cf = "gated_matric ops (tk_metric tk)"
  let ?C = "idx_where is_confirmed ?ts" and ?U = "idx_where (\<lambda>t. \<not> is_confirmed t) ?ts"
  have cost: "cost_ok ?cf ?ts dets ti di" if "set ti \<subseteq> set ?C" "set di \<subseteq> {..<length dets}" for ti di
  proof (rule gated_matric_ok [OF ops g c])
    show "\<forall>k\<in>set di. length (dr_feature (dets ! k)) = d" using that(2) f by auto
    have "is_confirmed (?ts ! i) \<and> ?ts ! i \<in> set ?ts" if "i \<in> set ti" for i
      using \<open>set ti \<subseteq> set ?C\<close> that by auto
    then show "\<forall>i\<in>set ti. dt_id (?ts ! i) \<in> dom (nm_samples (tk_metric tk))" using t by blast
  qed
  obtain a where a: "matching_cascade ?cf (nm_threshold (tk_metric tk)) (tk_max_age tk) ?ts dets ?C [] = Some a"
    and pa: "assoc_ok (set ?C) {..<length dets} (md_of a)"
    using matching_cascade_ok [of ?C dets ?cf ?ts, OF cost th(1)] by auto
  let ?J = "filter (\<lambda>idx. dt_tsu (?ts ! idx) = 1) (md_utracks a)"
  let ?R = "filter (\<lambda>idx. dt_tsu (?ts ! idx) \<noteq> 1) (md_utracks a)"
  have "distinct (md_utracks a)" "set (md_utracks a) \<subseteq> set ?C" "distinct (md_udets a)"
    using pa by (auto simp: assoc_ok_def md_of_def)
  then have "distinct (?U @ ?J)" by auto
  with min_cost_matching_ok [of "?U @ ?J" "md_udets a" iou_cost ?ts dets "tk_max_iou tk", OF iou_cost_ok th(2)]
  obtain b where b: "min_cost_matching iou_cost (tk_max_iou tk) ?ts dets (?U @ ?J) (md_udets a) = Some b"
    and pb: "assoc_ok (set (?U @ ?J)) (set (md_udets a)) (md_of b)"
    using \<open>distinct (md_udets a)\<close> by blast
  let ?res = "\<lparr>md_matches = md_matches a @ md_matches b, md_utracks = ?R @ md_utracks b, md_udets = md_udets b\<rparr>"
  have "assoc_ok (set ?C \<union> set ?U) {..<length dets} (md_matches a @ md_matches b, ?R @ md_utracks b, md_udets b)"
    by (rule assoc_then [OF pa [unfolded md_of_def] _ mset_filter_parts]) (use pb in \<open>auto simp: md_of_def\<close>)
  moreover have "set ?C \<union> set ?U = {..<length ?ts}" by auto
  ultimately have "assoc_ok {..<length ?ts} {..<length dets} (md_of ?res)" by (simp add: md_of_def)
  moreover have "tracker_match ops dets tk = Some ?res"
    using a b by (simp add: tracker_match_def Let_def)
  ultimately show ?thesis by blast
qed

section \<open>The galleries\<close>

text \<open>What \<open>partial_fit\<close> may be given: a first set of features, or at most one more row.\<close>

definition feed_ok :: "nat \<Rightarrow> nat \<Rightarrow> (int \<rightharpoonup> mat) \<Rightarrow> int \<times> mat \<Rightarrow> bool" where
  "feed_ok d budget samples = (\<lambda>(i, new). rows_of_length d new \<and>
     (if samples i = None then new \<noteq> [] \<and> length new \<le> budget else length new \<le> 1))"

definition samples_ok :: "nat \<Rightarrow> nat \<Rightarrow> (int \<rightharpoonup> mat) \<Rightarrow> bool" where
  "samples_ok d budget samples \<longleftrightarrow>
     (\<forall>i g. samples i = Some g \<longrightarrow> g \<noteq> [] \<and> rows_of_length d g \<and> length g \<le> budget)"

lemma fit_gallery_ok:
  assumes "length new \<le> 1" "old \<noteq> []" "length old \<le> budget" "1 < budget" "rows_of_length d old" "rows_of_length d new"
  shows "\<exists>g. fit_gallery budget old new = Some g \<and> g \<noteq> [] \<and> rows_of_length d g \<and> length g \<le> budget"
proof -
  from fit_gallery_small [OF assms(1-4)] show ?thesis
    using assms by (auto simp: rows_of_length_def dest: in_set_takeD)
qed

lemma fit_all_ok:
  assumes "samples_ok d budget samples" "1 < budget" "distinct (map fst feats)"
    "\<forall>x\<in>set feats. feed_ok d budget samples x"
  shows "\<exists>s. fit_all budget feats samples = Some s \<and> samples_ok d budget s \<and>
     dom s = dom samples \<union> fst ` set feats"
  using assms
proof (induction feats arbitrary: samples)
  case (Cons x feats)
  obtain i new where x: "x = (i, new)" by fastforce
  have fx: "feed_ok d budget samples (i, new)" using Cons.prems(4) by (simp add: x)
  obtain g where g: "fit_all budget (x # feats) samples = fit_all budget feats (samples(i \<mapsto> g))"
    and ok: "g \<noteq> []" "rows_of_length d g" "length g \<le> budget"
  proof (cases "samples i")
    case None
    then show ?thesis using fx that [of new] by (simp add: x feed_ok_def)
  next
    case (Some old)
    then show ?thesis
      using fx that fit_gallery_ok [of new old budget d] Cons.prems(1,2)
      by (auto simp: x feed_ok_def samples_ok_def)
  qed
  have "samples_ok d budget (samples(i \<mapsto> g))" using Cons.prems(1) ok by (auto simp: samples_ok_def)
  moreover have "\<forall>y\<in>set feats. feed_ok d budget (samples(i \<mapsto> g)) y"
    using Cons.prems(3,4) by (force simp: x feed_ok_def)
  moreover have "distinct (map fst feats)" using Cons.prems(3) by simp
  ultimately obtain s where s: "fit_all budget feats (samples(i \<mapsto> g)) = Some s" "samples_ok d budget s"
    "dom s = dom (samples(i \<mapsto> g)) \<union> fst ` set feats"
    using Cons.IH [of "samples(i \<mapsto> g)"] Cons.prems(2) by blast
  then show ?case unfolding g by (intro exI [of _ s]) (auto simp: x)
qed auto

lemma partial_fit_ok:
  assumes "samples_ok d (nm_budget nm) (nm_samples nm)" "1 < nm_budget nm" "distinct (map fst feats)"
    "\<forall>x\<in>set feats. feed_ok d (nm_budget nm) (nm_samples nm) x"
  shows "\<exists>s. partial_fit feats (map fst feats) nm = Some (nm\<lparr>nm_samples := s\<rparr>) \<and> samples_ok d (nm_budget nm) s \<and>
     dom s = fst ` set feats"
proof -
  from fit_all_ok [OF assms] obtain s where s: "fit_all (nm_budget nm) feats (nm_samples nm) = Some s"
    "samples_ok d (nm_budget nm) s" "dom s = dom (nm_samples nm) \<union> fst ` set feats" by blast
  have "partial_fit feats (map fst feats) nm = Some (nm\<lparr>nm_samples := s |` (fst ` set feats)\<rparr>)"
    using s(1) by (simp add: partial_fit_def)
  moreover have "samples_ok d (nm_budget nm) (s |` (fst ` set feats))"
    using s(2) by (auto simp: samples_ok_def restrict_map_def)
  ultimately show ?thesis using s(3) by (metis Un_upper2 dom_restrict inf.absorb2)
qed

section \<open>The invariant\<close>

definition conf_ids :: "deep_track list \<Rightarrow> int set" where
  "conf_ids ts = set (map dt_id (filter is_confirmed ts))"

lemma conf_ids_map:
  assumes "\<And>t. t \<in> set ts \<Longrightarrow> dt_id (f t) = dt_id t \<and> is_confirmed (f t) = is_confirmed t"
  shows "conf_ids (map f ts) = conf_ids ts"
  using assms by (induction ts) (auto simp: conf_ids_def)

definition deep_track_ok :: "nat \<Rightarrow> int \<Rightarrow> int \<Rightarrow> deep_track \<Rightarrow> bool" where
  "deep_track_ok d n_init next t \<longleftrightarrow> dt_id t < next \<and> dt_n_init t = n_init \<and> \<not> is_deleted t \<and> rows_of_length d (dt_features t) \<and>
     (if is_confirmed t then dt_features t = []
      else int (length (dt_features t)) = dt_hits t \<and> (dt_hits t = 1 \<or> dt_hits t < n_init))"

text \<open>
  \<open>d\<close> is the length of a feature row.  The budget holds at least two rows and what a track has
  collected when it is confirmed.
\<close>

definition tk_inv :: "nat \<Rightarrow> deep_tracker \<Rightarrow> bool" where
  "tk_inv d tk \<longleftrightarrow>
     distinct (map dt_id (tk_tracks tk)) \<and>
     (\<forall>t\<in>set (tk_tracks tk). deep_track_ok d (tk_n_init tk) (tk_next_idx tk) t) \<and>
     samples_ok d (nm_budget (tk_metric tk)) (nm_samples (tk_metric tk)) \<and>
     dom (nm_samples (tk_metric tk)) = conf_ids (tk_tracks tk) \<and>
     nm_type (tk_metric tk) = cosine \<and> 0 \<le> nm_threshold (tk_metric tk) \<and> 0 \<le> tk_max_iou tk \<and>
     1 < nm_budget (tk_metric tk) \<and> tk_n_init tk \<le> int (nm_budget (tk_metric tk))"

lemma new_tracker_inv:
  assumes "0 \<le> c" "1 < b" "0 \<le> i" "n \<le> int b"
  shows "tk_inv d (new_tracker c b i a n)"
  using assms by (simp add: tk_inv_def new_tracker_def new_metric_def samples_ok_def conf_ids_def)

lemma tracker_predict_inv:
  assumes "tk_inv d tk"
  shows "tk_inv d (tracker_predict tk)"
proof -
  have "conf_ids (map predit (tk_tracks tk)) = conf_ids (tk_tracks tk)"
    by (rule conf_ids_map) (simp add: is_confirmed_def)
  then show ?thesis using assms
    by (auto simp: tk_inv_def tracker_predict_def deep_track_ok_def is_confirmed_def is_deleted_def comp_def)
qed

text \<open>A track between the matching and the end of \<open>update\<close>, with the galleries of before.\<close>

definition mid_ok :: "nat \<Rightarrow> nat \<Rightarrow> int \<Rightarrow> (int \<rightharpoonup> mat) \<Rightarrow> int \<Rightarrow> deep_track \<Rightarrow> bool" where
  "mid_ok d budget n_init samples next t \<longleftrightarrow> dt_id t < next \<and> dt_n_init t = n_init \<and> rows_of_length d (dt_features t) \<and>
     (is_confirmed t \<longrightarrow> feed_ok d budget samples (dt_id t, dt_features t)) \<and>
     (is_tentative t \<longrightarrow> int (length (dt_features t)) = dt_hits t \<and> (dt_hits t = 1 \<or> dt_hits t < n_init))"

lemma states_split: "is_confirmed t \<or> is_tentative t \<or> is_deleted t"
  by (cases "dt_state t") (simp_all add: is_confirmed_def is_tentative_def is_deleted_def)

lemma matched_mid:
  assumes t: "deep_track_ok d n next t" and r: "length (dr_feature r) = d" and b: "1 < b" "n \<le> int b"
    and s: "samples (dt_id t) = None \<longleftrightarrow> \<not> is_confirmed t"
  shows "mid_ok d b n samples next (dt_update_cls solve r p t)"
proof (cases "dt_state t")
  case Tentative
  then have "int (length (dt_features t)) = dt_hits t" "dt_hits t = 1 \<or> dt_hits t < n" "samples (dt_id t) = None"
    "rows_of_length d (dt_features t)" "dt_id t < next" "dt_n_init t = n"
    using t s by (auto simp: deep_track_ok_def is_confirmed_def)
  then show ?thesis using Tentative r b
    by (simp add: mid_ok_def is_confirmed_def is_tentative_def feed_ok_def rows_of_length_def) linarith
next
  case Confirmed
  then show ?thesis using t s r
    by (auto simp: mid_ok_def is_confirmed_def is_tentative_def feed_ok_def rows_of_length_def deep_track_ok_def)
next
  case Deleted
  then show ?thesis using t by (simp add: deep_track_ok_def is_deleted_def)
qed

lemma missed_mid:
  assumes t: "deep_track_ok d n next t" and s: "samples (dt_id t) = None \<longleftrightarrow> \<not> is_confirmed t"
  shows "mid_ok d b n samples next (mark_missed t)"
  using assms
  by (cases "dt_state t")
    (auto simp: deep_track_ok_def mid_ok_def feed_ok_def is_confirmed_def is_deleted_def is_tentative_def rows_of_length_def)

lemma mid_later: "mid_ok d b n samples next t \<Longrightarrow> next \<le> next' \<Longrightarrow> mid_ok d b n samples next' t"
  by (auto simp: mid_ok_def)

lemma finish_update_ok:
  assumes d: "distinct (map dt_id (tk_tracks tk))"
    and m: "\<forall>t\<in>set (tk_tracks tk). mid_ok d (nm_budget (tk_metric tk)) (tk_n_init tk) (nm_samples (tk_metric tk)) (tk_next_idx tk) t"
    and s: "samples_ok d (nm_budget (tk_metric tk)) (nm_samples (tk_metric tk))" "nm_type (tk_metric tk) = cosine"
      "0 \<le> nm_threshold (tk_metric tk)" "0 \<le> tk_max_iou tk"
      "1 < nm_budget (tk_metric tk)" "tk_n_init tk \<le> int (nm_budget (tk_metric tk))"
  shows "\<exists>tk'. finish_update tk = Some tk' \<and> tk_inv d tk' \<and> tk_next_idx tk' = tk_next_idx tk \<and>
     map dt_id (tk_tracks tk') = map dt_id (filter (\<lambda>t. \<not> is_deleted t) (tk_tracks tk))"
proof -
  let ?b = "nm_budget (tk_metric tk)" and ?s = "nm_samples (tk_metric tk)"
  let ?ts = "filter (\<lambda>t. \<not> is_deleted t) (tk_tracks tk)"
  let ?cs = "filter is_confirmed ?ts"
  let ?feats = "map (\<lambda>t. (dt_id t, dt_features t)) ?cs"
  let ?new = "map (\<lambda>t. if is_confirmed t then t\<lparr>dt_features := []\<rparr> else t) ?ts"
  have dt: "distinct (map dt_id ?ts)" using d by (simp add: distinct_map_filter)
  have fst: "map fst ?feats = map dt_id ?cs" by (simp add: comp_def)
  have "distinct (map fst ?feats)" unfolding fst using dt by (simp only: distinct_map_filter)
  moreover have "\<forall>x\<in>set ?feats. feed_ok d ?b ?s x" using m by (auto simp: mid_ok_def)
  ultimately obtain s' where s': "partial_fit ?feats (map fst ?feats) (tk_metric tk) = Some (tk_metric tk\<lparr>nm_samples := s'\<rparr>)"
    "samples_ok d ?b s'" "dom s' = fst ` set ?feats" using partial_fit_ok [OF s(1,5)] by blast
  let ?tk = "tk\<lparr>tk_tracks := ?new, tk_metric := tk_metric tk\<lparr>nm_samples := s'\<rparr>\<rparr>"
  have e: "finish_update tk = Some ?tk" using s'(1) unfolding fst by (simp add: finish_update_def Let_def)
  have ids: "map dt_id ?new = map dt_id ?ts" by simp
  have "dom s' = conf_ids ?new"
  proof -
    have "conf_ids ?new = conf_ids ?ts" by (rule conf_ids_map) (simp add: is_confirmed_def)
    then show ?thesis unfolding s'(3) by (simp add: conf_ids_def image_image)
  qed
  moreover have "deep_track_ok d (tk_n_init tk) (tk_next_idx tk) t" if t: "t \<in> set ?new" for t
  proof -
    obtain u where u: "u \<in> set (tk_tracks tk)" "\<not> is_deleted u" "t = (if is_confirmed u then u\<lparr>dt_features := []\<rparr> else u)"
      using t by auto
    have "mid_ok d ?b (tk_n_init tk) ?s (tk_next_idx tk) u" using m u(1) by blast
    then show ?thesis using u(2,3) states_split [of u]
      by (auto simp: deep_track_ok_def mid_ok_def rows_of_length_def is_confirmed_def is_deleted_def is_tentative_def)
  qed
  ultimately have "dom s' = conf_ids ?new \<and> (\<forall>t\<in>set ?new. deep_track_ok d (tk_n_init tk) (tk_next_idx tk) t)" by blast
  moreover have "tk_tracks ?tk = ?new" "nm_samples (tk_metric ?tk) = s'" "nm_budget (tk_metric ?tk) = ?b"
    "tk_next_idx ?tk = tk_next_idx tk" "tk_n_init ?tk = tk_n_init tk" by simp_all
  ultimately have "tk_inv d ?tk" using s'(2) s dt unfolding tk_inv_def ids [symmetric] by simp
  then show ?thesis using e ids by auto
qed

section \<open>\<open>update\<close>\<close>

text \<open>A loop that changes each position of a list at most once.\<close>

lemma fold_at:
  assumes "distinct (map f ps)"
  shows "length (fold (\<lambda>p ys. ys[f p := g p (ys ! f p)]) ps xs) = length xs"
    and "k < length xs \<Longrightarrow> k \<notin> f ` set ps \<Longrightarrow> fold (\<lambda>p ys. ys[f p := g p (ys ! f p)]) ps xs ! k = xs ! k"
    and "p \<in> set ps \<Longrightarrow> f p < length xs \<Longrightarrow> fold (\<lambda>p ys. ys[f p := g p (ys ! f p)]) ps xs ! f p = g p (xs ! f p)"
  using assms
proof (induction ps arbitrary: xs k p)
  case (Cons q qs)
  {
    case 3
    then show ?case
    proof (cases "p = q")
      case True
      then have "f p \<notin> f ` set qs" using 3 by auto
      then show ?thesis using 3 Cons.IH(2) [where k = "f p" and xs = "xs[f q := g q (xs ! f q)]"] True by simp
    next
      case False
      then have "p \<in> set qs" using 3 by simp
      moreover from this have "f p \<noteq> f q" using 3 by (metis distinct.simps(2) imageI image_set list.simps(9))
      ultimately have "p \<in> set qs" "f p \<noteq> f q" by simp_all
      then show ?thesis using 3 Cons.IH(3) [where p = p and xs = "xs[f q := g q (xs ! f q)]"] by simp
    qed
  }
qed simp_all

text \<open>The tracks after the two loops over the matched and the missed.\<close>

definition moved :: "eigen_ops \<Rightarrow> clsconf list \<Rightarrow> detection_row list \<Rightarrow> matchd \<Rightarrow> deep_track list \<Rightarrow> deep_track list" where
  "moved ops clsConf dets res ts =
     fold (\<lambda>track_idx ts. ts[track_idx := mark_missed (ts ! track_idx)]) (md_utracks res)
       (fold (\<lambda>(track_idx, detection_idx) ts.
          ts[track_idx := dt_update_cls (eo_solve ops) (dets ! detection_idx) (clsConf ! detection_idx) (ts ! track_idx)])
        (md_matches res) ts)"

lemma moved_nth:
  assumes "assoc_ok {..<length ts} B (md_of res)"
  shows "length (moved ops cc dets res ts) = length ts"
    and "k < length ts \<Longrightarrow>
      (\<exists>j\<in>B. (k, j) \<in> set (md_matches res) \<and> moved ops cc dets res ts ! k = dt_update_cls (eo_solve ops) (dets ! j) (cc ! j) (ts ! k)) \<or>
      (k \<in> set (md_utracks res) \<and> moved ops cc dets res ts ! k = mark_missed (ts ! k))"
proof -
  let ?m = "fold (\<lambda>p ys. ys[fst p := dt_update_cls (eo_solve ops) (dets ! snd p) (cc ! snd p) (ys ! fst p)]) (md_matches res) ts"
  have m: "moved ops cc dets res ts = fold (\<lambda>i ys. ys[id i := mark_missed (ys ! id i)]) (md_utracks res) ?m"
    by (simp add: moved_def split_def)
  have d: "distinct (map fst (md_matches res))" "distinct (map id (md_utracks res))"
    "fst ` set (md_matches res) \<inter> set (md_utracks res) = {}" "fst ` set (md_matches res) \<union> set (md_utracks res) = {..<length ts}"
    "snd ` set (md_matches res) \<subseteq> B"
    using assms by (auto simp: assoc_ok_def md_of_def)
  note one = fold_at [OF d(1), where g = "\<lambda>p. dt_update_cls (eo_solve ops) (dets ! snd p) (cc ! snd p)" and xs = ts]
  note two = fold_at [OF d(2), where g = "\<lambda>_. mark_missed" and xs = ?m]
  show "length (moved ops cc dets res ts) = length ts" unfolding m two(1) one(1) ..
  show "(\<exists>j\<in>B. (k, j) \<in> set (md_matches res) \<and> moved ops cc dets res ts ! k = dt_update_cls (eo_solve ops) (dets ! j) (cc ! j) (ts ! k)) \<or>
      (k \<in> set (md_utracks res) \<and> moved ops cc dets res ts ! k = mark_missed (ts ! k))" if k: "k < length ts"
  proof (cases "k \<in> set (md_utracks res)")
    case True
    then have "k \<notin> fst ` set (md_matches res)" using d(3) by blast
    then show ?thesis using True k two(3) [of k] one(2) [OF k] by (simp add: m one(1))
  next
    case False
    then have "k \<in> fst ` set (md_matches res)" using d(4) k by blast
    then obtain j where j: "(k, j) \<in> set (md_matches res)" by auto
    then have "j \<in> B" using d(5) by auto
    then show ?thesis using j False k two(2) [of k] one(3) [OF j] by (auto simp: m one(1))
  qed
qed

lemma moved_ids:
  assumes "assoc_ok {..<length ts} B (md_of res)"
  shows "map dt_id (moved ops cc dets res ts) = map dt_id ts"
proof (rule nth_equalityI)
  show "length (map dt_id (moved ops cc dets res ts)) = length (map dt_id ts)" by (simp add: moved_nth(1) [OF assms])
  fix k assume "k < length (map dt_id (moved ops cc dets res ts))"
  then have k: "k < length ts" by (simp add: moved_nth(1) [OF assms])
  show "map dt_id (moved ops cc dets res ts) ! k = map dt_id ts ! k"
    using moved_nth(2) [OF assms k, of ops cc dets] k moved_nth(1) [OF assms, of ops cc dets] by auto
qed

text \<open>The births: one track per unmatched detection, with the next ids.\<close>

definition born :: "clsconf list \<Rightarrow> detection_row list \<Rightarrow> nat list \<Rightarrow> deep_tracker \<Rightarrow> deep_tracker" where
  "born cc dets js tk = fold (\<lambda>j. initiate_track_cls (dets ! j) (cc ! j)) js tk"

lemma births:
  assumes "\<forall>j\<in>set js. length (dr_feature (dets ! j)) = d"
  shows "\<exists>new. tk_tracks (born cc dets js tk) = tk_tracks tk @ new \<and> map dt_id new = map (\<lambda>k. tk_next_idx tk + int k) [0..<length js] \<and>
     tk_next_idx (born cc dets js tk) = tk_next_idx tk + int (length js) \<and> tk_metric (born cc dets js tk) = tk_metric tk \<and>
     tk_n_init (born cc dets js tk) = tk_n_init tk \<and> tk_max_iou (born cc dets js tk) = tk_max_iou tk \<and> tk_max_age (born cc dets js tk) = tk_max_age tk \<and>
     (\<forall>t\<in>set new. dt_state t = Tentative \<and> dt_hits t = 1 \<and> length (dt_features t) = 1 \<and> rows_of_length d (dt_features t) \<and>
        dt_n_init t = tk_n_init tk \<and> dt_tsu t = 0)"
  using assms
proof (induction js arbitrary: tk)
  case (Cons j js)
  obtain m c where mc: "mkf_initiate (dr_to_xyah (dets ! j)) = (m, c)" by fastforce
  let ?t = "new_track_cls m c (tk_next_idx tk) (tk_n_init tk) (tk_max_age tk) (dr_feature (dets ! j)) (cc_cls (cc ! j)) (cc_conf (cc ! j))"
  let ?tk = "tk\<lparr>tk_tracks := tk_tracks tk @ [?t], tk_next_idx := tk_next_idx tk + 1\<rparr>"
  have e: "born cc dets (j # js) tk = born cc dets js ?tk" by (simp add: born_def initiate_track_cls_def mc)
  have l: "map (\<lambda>k. tk_next_idx tk + int k) [0..<Suc (length js)] =
      tk_next_idx tk # map (\<lambda>k. tk_next_idx tk + 1 + int k) [0..<length js]"
    by (simp del: upt_Suc add: map_upt_Suc algebra_simps)
  from Cons.IH [of ?tk] Cons.prems obtain new where n:
    "tk_tracks (born cc dets js ?tk) = tk_tracks ?tk @ new"
    "map dt_id new = map (\<lambda>k. tk_next_idx tk + 1 + int k) [0..<length js]" and rest:
    "tk_next_idx (born cc dets js ?tk) = tk_next_idx tk + 1 + int (length js) \<and>
     tk_metric (born cc dets js ?tk) = tk_metric tk \<and>
     tk_n_init (born cc dets js ?tk) = tk_n_init tk \<and>
     tk_max_iou (born cc dets js ?tk) = tk_max_iou tk \<and>
     tk_max_age (born cc dets js ?tk) = tk_max_age tk \<and>
     (\<forall>t\<in>set new. dt_state t = Tentative \<and> dt_hits t = 1 \<and> length (dt_features t) = 1 \<and> rows_of_length d (dt_features t) \<and>
        dt_n_init t = tk_n_init tk \<and> dt_tsu t = 0)"
    by auto
  show ?case
    using n(1) n(2) rest Cons.prems unfolding e
    by (intro exI [of _ "?t # new"]) (simp add: l rows_of_length_def del: upt_Suc)
qed (simp add: born_def)

lemma update_cls_eq:
  "tracker_update_cls ops cc dets tk =
     Option.bind (tracker_match ops dets tk) (\<lambda>res.
       finish_update (born cc dets (md_udets res) (tk\<lparr>tk_tracks := moved ops cc dets res (tk_tracks tk)\<rparr>)))"
  by (simp add: tracker_update_cls_def moved_def born_def Let_def)

lemma update_cls_ok:
  assumes ops: "keeps_rows ops" and inv: "tk_inv d tk" and f: "\<forall>r\<in>set dets. length (dr_feature r) = d"
  shows "\<exists>res tk'. tracker_match ops dets tk = Some res \<and> assoc_ok {..<length (tk_tracks tk)} {..<length dets} (md_of res) \<and>
     tracker_update_cls ops cc dets tk = Some tk' \<and> tk_inv d tk' \<and>
     tk_next_idx tk' = tk_next_idx tk + int (length (md_udets res)) \<and>
     set (map dt_id (tk_tracks tk')) \<subseteq> set (map dt_id (tk_tracks tk)) \<union> {tk_next_idx tk..<tk_next_idx tk'}"
proof -
  let ?nm = "tk_metric tk" and ?ts = "tk_tracks tk"
  let ?b = "nm_budget ?nm" and ?s = "nm_samples ?nm" and ?n = "tk_n_init tk"
  have i: "distinct (map dt_id ?ts)" "\<forall>t\<in>set ?ts. deep_track_ok d ?n (tk_next_idx tk) t" "samples_ok d ?b ?s"
    "dom ?s = conf_ids ?ts" "nm_type ?nm = cosine" "0 \<le> nm_threshold ?nm" "0 \<le> tk_max_iou tk" "1 < ?b" "?n \<le> int ?b"
    using inv by (simp_all add: tk_inv_def)
  have g: "galleries_ok d ?nm" using i(3) by (auto simp: galleries_ok_def samples_ok_def)
  have dom: "is_confirmed t \<longleftrightarrow> ?s (dt_id t) \<noteq> None" if t: "t \<in> set ?ts" for t
  proof -
    have "dt_id t \<in> conf_ids ?ts \<longleftrightarrow> is_confirmed t"
      using i(1) t by (auto simp: conf_ids_def distinct_map dest: inj_onD)
    then show ?thesis unfolding i(4) [symmetric] by (simp add: domIff)
  qed
  have "\<forall>t\<in>set ?ts. is_confirmed t \<longrightarrow> dt_id t \<in> dom ?s" using dom by blast
  from tracker_match_ok [OF ops g i(5) f this i(6,7)] obtain res where
    res: "tracker_match ops dets tk = Some res" and as: "assoc_ok {..<length ?ts} {..<length dets} (md_of res)" by blast
  let ?mv = "moved ops cc dets res ?ts"
  let ?t1 = "tk\<lparr>tk_tracks := ?mv\<rparr>"
  have mid: "mid_ok d ?b ?n ?s (tk_next_idx tk) t" if t: "t \<in> set ?mv" for t
  proof -
    obtain k where k: "k < length ?ts" "t = ?mv ! k" using t moved_nth(1) [OF as] by (auto simp: in_set_conv_nth)
    then have kt: "?ts ! k \<in> set ?ts" by simp
    with i(2) dom have ok: "deep_track_ok d ?n (tk_next_idx tk) (?ts ! k)" "?s (dt_id (?ts ! k)) = None \<longleftrightarrow> \<not> is_confirmed (?ts ! k)"
      by blast+
    from moved_nth(2) [OF as k(1), of ops cc dets] show ?thesis
    proof (elim disjE bexE conjE)
      fix j assume j: "j \<in> {..<length dets}"
        and e: "?mv ! k = dt_update_cls (eo_solve ops) (dets ! j) (cc ! j) (?ts ! k)"
      have "length (dr_feature (dets ! j)) = d" using f j by simp
      then show ?thesis unfolding k(2) e by (intro matched_mid) (use ok i(8,9) in simp_all)
    next
      assume e: "?mv ! k = mark_missed (?ts ! k)"
      show ?thesis unfolding k(2) e by (intro missed_mid) (use ok in simp_all)
    qed
  qed
  have "set (md_udets res) \<subseteq> {..<length dets}" using as by (auto simp: assoc_ok_def md_of_def)
  then have "\<forall>j\<in>set (md_udets res). length (dr_feature (dets ! j)) = d" using f by auto
  from births [OF this, of cc ?t1] obtain new where
    b: "tk_tracks (born cc dets (md_udets res) ?t1) = ?mv @ new"
      "map dt_id new = map (\<lambda>k. tk_next_idx tk + int k) [0..<length (md_udets res)]"
      "tk_next_idx (born cc dets (md_udets res) ?t1) = tk_next_idx tk + int (length (md_udets res))"
      "tk_metric (born cc dets (md_udets res) ?t1) = ?nm" "tk_n_init (born cc dets (md_udets res) ?t1) = ?n"
      "tk_max_iou (born cc dets (md_udets res) ?t1) = tk_max_iou tk"
    and new: "\<forall>t\<in>set new. dt_state t = Tentative \<and> dt_hits t = 1 \<and> length (dt_features t) = 1 \<and> rows_of_length d (dt_features t) \<and>
        dt_n_init t = ?n \<and> dt_tsu t = 0" by auto
  let ?t2 = "born cc dets (md_udets res) ?t1"
  have ids: "dt_id ` set new = {tk_next_idx tk..<tk_next_idx ?t2}"
  proof -
    have "dt_id ` set new = (\<lambda>k. tk_next_idx tk + int k) ` {..<length (md_udets res)}"
      using arg_cong [OF b(2), of set] by (simp add: atLeast0LessThan)
    also have "\<dots> = {tk_next_idx tk..<tk_next_idx ?t2}"
      unfolding b(3) by (auto intro!: image_eqI [of _ _ "nat (x - tk_next_idx tk)" for x])
    finally show ?thesis .
  qed
  have "distinct (map dt_id (?mv @ new))"
  proof -
    have "distinct (map dt_id new)" unfolding b(2) by (simp add: distinct_map inj_on_def)
    moreover have "dt_id ` set ?mv \<inter> dt_id ` set new = {}" using mid unfolding ids by (force simp: mid_ok_def)
    moreover have "distinct (map dt_id ?mv)" unfolding moved_ids [OF as] by (rule i(1))
    ultimately show ?thesis by (simp only: map_append distinct_append set_map simp_thms)
  qed
  moreover have "\<forall>t\<in>set (?mv @ new). mid_ok d ?b ?n ?s (tk_next_idx ?t2) t"
  proof
    fix t assume "t \<in> set (?mv @ new)"
    then consider "t \<in> set ?mv" | "t \<in> set new" by auto
    then show "mid_ok d ?b ?n ?s (tk_next_idx ?t2) t"
    proof cases
      case 1
      then show ?thesis using mid_later [OF mid] unfolding b(3) by simp
    next
      case 2
      then have "dt_id t < tk_next_idx ?t2" using ids by (metis atLeastLessThan_iff imageI)
      then show ?thesis using new 2 by (simp add: mid_ok_def is_confirmed_def)
    qed
  qed
  ultimately obtain tk' where tk': "finish_update ?t2 = Some tk'" "tk_inv d tk'" "tk_next_idx tk' = tk_next_idx ?t2"
    "map dt_id (tk_tracks tk') = map dt_id (filter (\<lambda>t. \<not> is_deleted t) (?mv @ new))"
    using finish_update_ok [of ?t2 d] i(3,5-9) unfolding b(1,4,5,6) by blast
  have "set (map dt_id (tk_tracks tk')) \<subseteq> set (map dt_id ?mv) \<union> dt_id ` set new" unfolding tk'(4) by auto
  then have "set (map dt_id (tk_tracks tk')) \<subseteq> set (map dt_id ?ts) \<union> {tk_next_idx tk..<tk_next_idx tk'}"
    unfolding ids moved_ids [OF as] tk'(3) .
  moreover have "tracker_update_cls ops cc dets tk = Some tk'" using res tk'(1) by (simp add: update_cls_eq)
  moreover have "tk_next_idx tk' = tk_next_idx tk + int (length (md_udets res))" using tk'(3) b(3) by simp
  ultimately show ?thesis using res as tk'(2) by blast
qed

section \<open>Properties\<close>

text \<open>A run: one prediction and one update per frame.\<close>

fun deep_run :: "eigen_ops \<Rightarrow> (clsconf list \<times> detection_row list) list \<Rightarrow> deep_tracker \<Rightarrow> deep_tracker option" where
  "deep_run ops [] tk = Some tk"
| "deep_run ops ((cc, dets) # frames) tk =
     Option.bind (tracker_update_cls ops cc dets (tracker_predict tk)) (deep_run ops frames)"

lemma deep_run_ok:
  assumes "keeps_rows ops" "tk_inv d tk" "\<forall>(cc, dets)\<in>set frames. \<forall>r\<in>set dets. length (dr_feature r) = d"
  shows "\<exists>tk'. deep_run ops frames tk = Some tk' \<and> tk_inv d tk'"
  using assms(2,3)
proof (induction frames arbitrary: tk)
  case (Cons x frames)
  obtain cc dets where x: "x = (cc, dets)" by fastforce
  then have "\<forall>r\<in>set dets. length (dr_feature r) = d" using Cons.prems(2) by simp
  from update_cls_ok [OF assms(1) tracker_predict_inv [OF Cons.prems(1)] this, of cc] obtain t where
    "tracker_update_cls ops cc dets (tracker_predict tk) = Some t" "tk_inv d t" by blast
  then show ?case using Cons.IH [of t] Cons.prems(2) by (simp add: x)
qed simp

text \<open>
  C8.  One frame of the DeepSort tracker: with features of one length, \<open>update\<close> fails no assertion
  and returns; it keeps the invariant, the matching lists each track and each detection once as
  matched or unmatched, one id is used per unmatched detection, and no other id appears.
\<close>

theorem deep_update_invariant:
  assumes "keeps_rows ops" "tk_inv d tk" "\<forall>r\<in>set dets. length (dr_feature r) = d"
  shows "\<exists>res tk'. tracker_match ops dets tk = Some res \<and> assoc_ok {..<length (tk_tracks tk)} {..<length dets} (md_of res) \<and>
     tracker_update_cls ops cc dets tk = Some tk' \<and> tk_inv d tk' \<and>
     tk_next_idx tk' = tk_next_idx tk + int (length (md_udets res)) \<and>
     set (map dt_id (tk_tracks tk')) \<subseteq> set (map dt_id (tk_tracks tk)) \<union> {tk_next_idx tk..<tk_next_idx tk'}"
  by (rule update_cls_ok [OF assms])

definition plain_ops :: eigen_ops where
  "plain_ops = \<lparr>eo_solve = \<lambda>S B. B, eo_llt = \<lambda>S. S, eo_tri = \<lambda>L d. d\<rparr>"

lemma plain_keeps_rows: "keeps_rows plain_ops"
  by (simp add: plain_ops_def keeps_rows_def)

theorem deep_update_invariant_witness:
  "\<exists>tk'. tracker_update_cls plain_ops [\<lparr>cc_cls = 0, cc_conf = 1\<rparr>] [\<lparr>dr_tlwh = [0, 0, 4, 8], dr_confidence = 1, dr_feature = [3, 4]\<rparr>]
     (new_tracker (1/2) 100 (7/10) 30 2) = Some tk' \<and> tk_inv 2 tk'"
  using deep_update_invariant [OF plain_keeps_rows new_tracker_inv, of "1/2" 100 "7/10" 2
      "[\<lparr>dr_tlwh = [0, 0, 4, 8], dr_confidence = 1, dr_feature = [3, 4]\<rparr>]" 2 30] by fastforce

text \<open>
  C9.  Every sequence of frames is processed by the tracker as \<open>DeepSort::init\<close> builds it, and after
  each of them the tracks have distinct ids, no deleted track is kept, and the appearance metric
  holds galleries for exactly the confirmed tracks, of 1 to 100 rows.
\<close>

theorem deep_run_safe:
  assumes "keeps_rows ops" "\<forall>(cc, dets)\<in>set frames. \<forall>r\<in>set dets. length (dr_feature r) = d"
  shows "\<exists>tk. deep_run ops frames (new_tracker (1/2) 100 (7/10) 30 2) = Some tk \<and>
     distinct (map dt_id (tk_tracks tk)) \<and> (\<forall>t\<in>set (tk_tracks tk). dt_state t \<noteq> Deleted) \<and>
     dom (nm_samples (tk_metric tk)) = {dt_id t |t. t \<in> set (tk_tracks tk) \<and> dt_state t = Confirmed} \<and>
     (\<forall>i g. nm_samples (tk_metric tk) i = Some g \<longrightarrow> 1 \<le> length g \<and> length g \<le> nm_budget (tk_metric tk))"
proof -
  have "tk_inv d (new_tracker (1/2) 100 (7/10) 30 2)" by (rule new_tracker_inv) simp_all
  from deep_run_ok [OF assms(1) this assms(2)] obtain tk where
    tk: "deep_run ops frames (new_tracker (1/2) 100 (7/10) 30 2) = Some tk" "tk_inv d tk" by blast
  have "conf_ids (tk_tracks tk) = {dt_id t |t. t \<in> set (tk_tracks tk) \<and> dt_state t = Confirmed}"
    by (auto simp: conf_ids_def is_confirmed_def)
  then show ?thesis using tk
    by (auto simp: tk_inv_def deep_track_ok_def is_deleted_def samples_ok_def Suc_le_eq)
qed

theorem deep_run_safe_witness:
  "\<exists>tk. deep_run plain_ops [([\<lparr>cc_cls = 0, cc_conf = 1\<rparr>], [\<lparr>dr_tlwh = [0, 0, 4, 8], dr_confidence = 1, dr_feature = [3, 4]\<rparr>]), ([], [])]
     (new_tracker (1/2) 100 (7/10) 30 2) = Some tk \<and> distinct (map dt_id (tk_tracks tk))"
  using deep_run_safe [OF plain_keeps_rows, of "[([\<lparr>cc_cls = 0, cc_conf = 1\<rparr>], [\<lparr>dr_tlwh = [0, 0, 4, 8], dr_confidence = 1, dr_feature = [3, 4]\<rparr>]), ([], [])]" 2]
  by auto

end
