(* ===== verification/DeepSort.thy ===== *)
theory DeepSort imports DeepInv begin

text \<open>
  Model of \<open>src/src/deepsort/featuretensor.cpp\<close> and \<open>deepsort.cpp\<close>: the crop of each detection, the
  appearance features the network computes for it, and a frame of DeepSort.  The network with
  OpenCV's crop and resize is a function of the frame and the crop's rectangle; the threads that
  extract the two halves write disjoint data and are joined, so they are run one after the other.
\<close>

section \<open>Crops and features\<close>

record 'p image =
  im_cols :: int
  im_rows :: int
  im_pixels :: 'p

record crop_rect =
  cr_x :: int
  cr_y :: int
  cr_width :: int
  cr_height :: int

record 'p deep_env =
  de_ops :: eigen_ops
  de_net :: "'p image \<Rightarrow> crop_rect \<Rightarrow> vec"   \<comment> \<open>crop, resize and network\<close>
  de_feature_dim :: nat
  de_blank :: vec                              \<comment> \<open>the feature row of a \<open>DETECTION_ROW\<close> not yet written\<close>

definition crop_of :: "'p image \<Rightarrow> detection_row \<Rightarrow> crop_rect" where
  "crop_of img dbox =
     (let rect = \<lparr>cr_x = c_trunc (dr_tlwh dbox ! 0), cr_y = c_trunc (dr_tlwh dbox ! 1),
                  cr_width = c_trunc (dr_tlwh dbox ! 2), cr_height = c_trunc (dr_tlwh dbox ! 3)\<rparr>;
          rect = rect\<lparr>cr_x := c_trunc (real_of_int (cr_x rect) -
                        (real_of_int (cr_height rect) * (1/2) - real_of_int (cr_width rect)) * (1/2))\<rparr>;
          rect = rect\<lparr>cr_width := c_trunc (real_of_int (cr_height rect) * (1/2))\<rparr>;
          rect = rect\<lparr>cr_x := (if cr_x rect \<ge> 0 then cr_x rect else 0)\<rparr>;
          rect = rect\<lparr>cr_y := (if cr_y rect \<ge> 0 then cr_y rect else 0)\<rparr>;
          rect = rect\<lparr>cr_width := (if cr_x rect + cr_width rect \<le> im_cols img then cr_width rect else im_cols img - cr_x rect)\<rparr>
      in rect\<lparr>cr_height := (if cr_y rect + cr_height rect \<le> im_rows img then cr_height rect else im_rows img - cr_y rect)\<rparr>)"

text \<open>The crop is taken: it is not skipped as negative or empty.\<close>

definition crop_taken :: "crop_rect \<Rightarrow> bool" where
  "crop_taken rect \<longleftrightarrow> \<not> (cr_width rect < 0 \<or> cr_height rect < 0) \<and> \<not> (cr_width rect = 0 \<or> cr_height rect = 0)"

text \<open>
  \<open>det[i].feature[j] = output[j]\<close> for every \<open>j\<close> below \<open>featureDim\<close>.  The row is an Eigen matrix of a fixed size, which
  asserts its index, and the output has as many floats as the model gives: a dimension beyond one
  of them has no result, \<^const>\<open>None\<close>.
\<close>

definition put_feature :: "nat \<Rightarrow> vec \<Rightarrow> detection_row \<Rightarrow> detection_row" where
  "put_feature featureDim output d =
     d\<lparr>dr_feature := fold (\<lambda>j f. f[j := output ! j]) [0..<featureDim] (dr_feature d)\<rparr>"

definition write_feature :: "nat \<Rightarrow> vec \<Rightarrow> detection_row \<Rightarrow> detection_row option" where
  "write_feature featureDim output d =
     (if featureDim \<le> length output \<and> featureDim \<le> length (dr_feature d) then Some (put_feature featureDim output d) else None)"

text \<open>The loop over the crops, each with its number.\<close>

fun inference_turns :: "'p deep_env \<Rightarrow> 'p image \<Rightarrow> (nat \<times> crop_rect) list \<Rightarrow> detection_row list \<Rightarrow> detection_row list option" where
  "inference_turns env img [] det = Some det"
| "inference_turns env img ((i, rect) # imgMats) det =
     (if i \<ge> length det then None
      else Option.bind (write_feature (de_feature_dim env) (de_net env img rect) (det ! i)) (\<lambda>d.
        inference_turns env img imgMats (det[i := d])))"

definition do_inference :: "'p deep_env \<Rightarrow> 'p image \<Rightarrow> crop_rect list \<Rightarrow> detection_row list \<Rightarrow> detection_row list option" where
  "do_inference env img imgMats det = inference_turns env img (enumerate 0 imgMats) det"

definition get_rects_feature :: "'p deep_env \<Rightarrow> 'p image \<Rightarrow> detection_row list \<Rightarrow> (bool \<times> detection_row list) option" where
  "get_rects_feature env img det =
     (let mats = filter crop_taken (map (crop_of img) det)
      in map_option (Pair True) (do_inference env img mats det))"

section \<open>A frame\<close>

record detect_box =
  db_x1 :: real
  db_y1 :: real
  db_x2 :: real
  db_y2 :: real
  db_confidence :: real
  db_classID :: real
  db_trackID :: real

record deep_sort =
  ds_result :: "(int \<times> vec) list"
  ds_results :: "(clsconf \<times> vec) list"
  ds_tracker :: deep_tracker

definition track_interval :: int where "track_interval = 1"

definition new_deep_sort :: deep_sort where
  "new_deep_sort = \<lparr>ds_result = [], ds_results = [], ds_tracker = new_tracker (1/2) 100 (7/10) 30 2\<rparr>"

text \<open>The tracks a frame reports, and what is recorded of them.\<close>

definition reported :: "int \<Rightarrow> deep_track list \<Rightarrow> deep_track list" where
  "reported limit tracks = filter (\<lambda>t. \<not> (\<not> is_confirmed t \<or> dt_tsu t > limit)) tracks"

definition result_of :: "deep_track \<Rightarrow> int \<times> vec" where
  "result_of t = (dt_id t, to_tlwh t)"

definition results_of :: "deep_track \<Rightarrow> clsconf \<times> vec" where
  "results_of t = (\<lparr>cc_cls = dt_cls t, cc_conf = dt_conf t\<rparr>, to_tlwh t)"

text \<open>The boxes handed back: first from \<open>result\<close>, then class and confidence from \<open>results\<close>.\<close>

definition box_of :: "int \<times> vec \<Rightarrow> detect_box" where
  "box_of r = (let i = snd r in
     \<lparr>db_x1 = i ! 0, db_y1 = i ! 1, db_x2 = i ! 2 + i ! 0, db_y2 = i ! 3 + i ! 1, db_confidence = 1,
      db_classID = 0, db_trackID = real_of_int (fst r)\<rparr>)"

definition boxes_of :: "deep_sort \<Rightarrow> detect_box list" where
  "boxes_of ds =
     fold (\<lambda>i dets. let c = fst (ds_results ds ! i) in
         dets[i := (dets ! i)\<lparr>db_classID := real_of_int (cc_cls c), db_confidence := cc_conf c\<rparr>])
       [0..<length (ds_results ds)] (map box_of (ds_result ds))"

text \<open>The overload on \<open>DETECTIONS\<close>.\<close>

definition sort_detections :: "'p deep_env \<Rightarrow> 'p image \<Rightarrow> detection_row list \<Rightarrow> deep_sort \<Rightarrow> deep_sort option" where
  "sort_detections env frame detections ds =
     Option.bind (get_rects_feature env frame detections) (\<lambda>(flag, detections).
      if flag then
        map_option (\<lambda>tk. ds\<lparr>ds_tracker := tk, ds_result := ds_result ds @ map result_of (reported 1 (tk_tracks tk))\<rparr>)
          (tracker_update (de_ops env) detections (tracker_predict (ds_tracker ds)))
      else Some ds)"

text \<open>
  The overload on \<open>DETECTIONSV2\<close>: the features of the two halves are extracted apart; a half whose
  extraction has no result ends the process.
\<close>

definition extract_features :: "'p deep_env \<Rightarrow> 'p image \<Rightarrow> detection_row list \<Rightarrow> (bool \<times> bool \<times> detection_row list) option" where
  "extract_features env frame detections =
     (let numOfDetections = length detections in
      if numOfDetections < 2 then
        map_option (\<lambda>(flag1, detections). (flag1, True, detections)) (get_rects_feature env frame detections)
      else
        (let border = numOfDetections div 2 in
         Option.bind (get_rects_feature env frame (take border detections)) (\<lambda>(_, detectionsPart1).
         map_option (\<lambda>(_, detectionsPart2).
           (True, True,
             fold (\<lambda>idx ds. ds[idx := dr_update_feature
                 (if idx < border then dr_feature (detectionsPart1 ! idx) else dr_feature (detectionsPart2 ! (idx - border)))
                 (ds ! idx)])
               [0..<numOfDetections] detections))
           (get_rects_feature env frame (drop border detections)))))"

definition sort_detections_v2 ::
  "'p deep_env \<Rightarrow> 'p image \<Rightarrow> clsconf list \<times> detection_row list \<Rightarrow> deep_sort \<Rightarrow> deep_sort option" where
  "sort_detections_v2 env frame = (\<lambda>(clsConf, detections) ds.
     Option.bind (extract_features env frame detections) (\<lambda>(flag1, flag2, detections).
     if flag1 \<and> flag2 then
       map_option (\<lambda>tk.
         let ts = reported 1 (tk_tracks tk)
         in ds\<lparr>ds_tracker := tk, ds_result := map result_of ts, ds_results := map results_of ts\<rparr>)
       (tracker_update_cls (de_ops env) clsConf detections (tracker_predict (ds_tracker ds)))
     else Some ds))"

definition sort_frame ::
  "'p deep_env \<Rightarrow> 'p image \<Rightarrow> detect_box list \<Rightarrow> deep_sort \<Rightarrow> (detect_box list \<times> deep_sort) option" where
  "sort_frame env frame dets ds =
     (let detections = map (\<lambda>i. \<lparr>dr_tlwh = [db_x1 i, db_y1 i, db_x2 i - db_x1 i, db_y2 i - db_y1 i],
                                 dr_confidence = db_confidence i, dr_feature = de_blank env\<rparr>) dets;
          clsConf = map (\<lambda>i. \<lparr>cc_cls = c_trunc (db_classID i), cc_conf = db_confidence i\<rparr>) dets;
          ds = ds\<lparr>ds_result := [], ds_results := []\<rparr>
      in map_option (\<lambda>ds. (boxes_of ds, ds))
           (if length detections > 0 then sort_detections_v2 env frame (clsConf, detections) ds else Some ds))"

text \<open>A frame between two extractions: the tracks are only predicted.\<close>

definition sort_interval :: "deep_sort \<Rightarrow> detect_box list \<times> deep_sort" where
  "sort_interval ds =
     (let ds = ds\<lparr>ds_result := [], ds_results := []\<rparr>;
          ds = ds\<lparr>ds_tracker := tracker_predict (ds_tracker ds)\<rparr>;
          ts = reported (track_interval + 1) (tk_tracks (ds_tracker ds));
          ds = ds\<lparr>ds_result := map result_of ts, ds_results := map results_of ts\<rparr>
      in (boxes_of ds, ds))"

definition get_confirmed_tracks :: "deep_sort \<Rightarrow> deep_track list" where
  "get_confirmed_tracks ds = filter is_confirmed (tk_tracks (ds_tracker ds))"

section \<open>Lemmas\<close>

lemma put_feature_fields [simp]:
  "dr_tlwh (put_feature n out d) = dr_tlwh d" "length (dr_feature (put_feature n out d)) = length (dr_feature d)"
proof -
  have "length (fold (\<lambda>j f. f[j := out ! j]) js f) = length f" for js and f :: vec
    by (induction js arbitrary: f) simp_all
  then show "dr_tlwh (put_feature n out d) = dr_tlwh d" "length (dr_feature (put_feature n out d)) = length (dr_feature d)"
    by (simp_all add: put_feature_def)
qed

lemma put_feature_back: "dr_update_feature (dr_feature (put_feature n out d)) d = put_feature n out d"
  by (simp add: dr_update_feature_def put_feature_def)

lemma write_feature_Some:
  "write_feature n out d = Some d' \<longleftrightarrow> n \<le> length out \<and> n \<le> length (dr_feature d) \<and> d' = put_feature n out d"
  by (auto simp: write_feature_def)

lemma all_some_append: "all_some (xs @ ys) = Option.bind (all_some xs) (\<lambda>us. map_option ((@) us) (all_some ys))"
  by (induction xs rule: all_some.induct) (auto simp: option.map_comp comp_def map_option_case bind_map_option split: option.splits Option.bind_splits)

lemma all_some_cons: "all_some (x # xs) = Option.bind x (\<lambda>y. map_option ((#) y) (all_some xs))"
  by (cases x) simp_all

text \<open>The loop writes the crops' features into the first detections and leaves the others.\<close>

lemma inference_turns_eq:
  "length rs \<le> length det \<Longrightarrow> inference_turns env img (enumerate (length pre) rs) (pre @ det) =
     map_option (\<lambda>ds. pre @ ds @ drop (length rs) det)
       (all_some (map (\<lambda>(r, d). write_feature (de_feature_dim env) (de_net env img r) d) (zip rs det)))"
proof (induction rs arbitrary: pre det)
  case Nil
  then show ?case by simp
next
  case (Cons r rs)
  then obtain d ds where d: "det = d # ds" by (cases det) auto
  have "inference_turns env img (enumerate (length (pre @ [e])) rs) ((pre @ [e]) @ ds) =
     map_option (\<lambda>es. (pre @ [e]) @ es @ drop (length rs) ds)
       (all_some (map (\<lambda>(r, d). write_feature (de_feature_dim env) (de_net env img r) d) (zip rs ds)))" for e
    by (rule Cons.IH) (use Cons.prems d in simp)
  then show ?case
    by (cases "write_feature (de_feature_dim env) (de_net env img r) d") (simp_all add: d option.map_comp comp_def)
qed

lemma do_inference_eq:
  "length rs \<le> length det \<Longrightarrow> do_inference env img rs det =
     map_option (\<lambda>ds. ds @ drop (length rs) det)
       (all_some (map (\<lambda>(r, d). write_feature (de_feature_dim env) (de_net env img r) d) (zip rs det)))"
  using inference_turns_eq [of rs det env img "[]"] by (simp add: do_inference_def)

text \<open>What extraction leaves alone: the number of detections, their boxes, the feature length.\<close>

definition same_boxes :: "detection_row list \<Rightarrow> detection_row list \<Rightarrow> bool" where
  "same_boxes det det' \<longleftrightarrow> map dr_tlwh det' = map dr_tlwh det \<and>
     map (\<lambda>r. length (dr_feature r)) det' = map (\<lambda>r. length (dr_feature r)) det"

lemma same_boxes_nth:
  "same_boxes det det' \<longleftrightarrow> length det' = length det \<and>
     (\<forall>i<length det. dr_tlwh (det' ! i) = dr_tlwh (det ! i) \<and> length (dr_feature (det' ! i)) = length (dr_feature (det ! i)))"
  by (auto simp: same_boxes_def list_eq_iff_nth_eq)

text \<open>The feature dimension fits the row of every detection and what the network gives.\<close>

definition rows_fit :: "'p deep_env \<Rightarrow> detection_row list \<Rightarrow> bool" where
  "rows_fit env det \<longleftrightarrow> (\<forall>d\<in>set det. de_feature_dim env \<le> length (dr_feature d)) \<and>
     (\<forall>img r. de_feature_dim env \<le> length (de_net env img r))"

lemma get_rects_cases:
  obtains det' where "get_rects_feature env img det = Some (True, det')" "same_boxes det det'"
  | "get_rects_feature env img det = None" "\<not> rows_fit env det"
proof -
  define rs where "rs = filter crop_taken (map (crop_of img) det)"
  let ?ws = "map (\<lambda>(r, d). write_feature (de_feature_dim env) (de_net env img r) d) (zip rs det)"
  have l: "length rs \<le> length det" unfolding rs_def by (metis length_filter_le length_map)
  have g: "get_rects_feature env img det = map_option (\<lambda>ds. (True, ds @ drop (length rs) det)) (all_some ?ws)"
    using do_inference_eq [OF l, of env img] by (simp only: get_rects_feature_def Let_def rs_def [symmetric] option.map_comp comp_def)
  show ?thesis
  proof (cases "all_some ?ws")
    case None
    then have "None \<in> set ?ws" using all_some_ex [of ?ws] by (metis option.distinct(1))
    then obtain r d where "(r, d) \<in> set (zip rs det)" "write_feature (de_feature_dim env) (de_net env img r) d = None" by auto
    then have "d \<in> set det" "\<not> (de_feature_dim env \<le> length (de_net env img r) \<and> de_feature_dim env \<le> length (dr_feature d))"
      by (auto simp: write_feature_def dest: set_zip_rightD split: if_splits)
    then have "\<not> rows_fit env det" by (auto simp: rows_fit_def)
    then show ?thesis using None g that(2) by simp
  next
    case (Some ds)
    then have ws: "?ws = map Some ds" by (simp add: all_some_iff)
    then have n: "length ds = length rs" using l by (metis length_map length_zip min.absorb1)
    have "dr_tlwh (ds ! i) = dr_tlwh (det ! i) \<and> length (dr_feature (ds ! i)) = length (dr_feature (det ! i))" if i: "i < length ds" for i
    proof -
      have "?ws ! i = Some (ds ! i)" using i by (simp add: ws)
      moreover have "?ws ! i = write_feature (de_feature_dim env) (de_net env img (rs ! i)) (det ! i)"
        using i n l by simp
      ultimately show ?thesis by (simp add: write_feature_Some)
    qed
    then have "same_boxes det (ds @ drop (length rs) det)" using l n by (simp add: same_boxes_nth nth_append)
    then show ?thesis using Some g that(1) by simp
  qed
qed

lemma rows_fit_parts: "rows_fit env det \<Longrightarrow> rows_fit env (take b det) \<and> rows_fit env (drop b det)"
  by (auto simp: rows_fit_def dest: in_set_takeD in_set_dropD)

lemma extract_features_cases:
  obtains det' where "extract_features env frame det = Some (True, True, det')" "same_boxes det det'"
  | "extract_features env frame det = None" "\<not> rows_fit env det"
proof (cases "length det < 2")
  case True
  show ?thesis
  proof (cases rule: get_rects_cases [of env frame det])
    case (1 det')
    then show ?thesis using True that(1) [of det'] by (simp add: extract_features_def)
  next
    case 2
    then show ?thesis using True that(2) by (simp add: extract_features_def)
  qed
next
  case False
  let ?b = "length det div 2"
  show ?thesis
  proof (cases rule: get_rects_cases [of env frame "take ?b det"])
    case 2
    then have "extract_features env frame det = None" using False by (simp add: extract_features_def Let_def)
    then show ?thesis using that(2) 2(2) rows_fit_parts [of env det ?b] by blast
  next
    case (1 p)
    note p = 1
    show ?thesis
    proof (cases rule: get_rects_cases [of env frame "drop ?b det"])
      case 2
      then have "extract_features env frame det = None" using False p by (simp add: extract_features_def Let_def)
      then show ?thesis using that(2) 2(2) rows_fit_parts [of env det ?b] by blast
    next
      case (1 q)
      let ?f = "\<lambda>idx. if idx < ?b then dr_feature (p ! idx) else dr_feature (q ! (idx - ?b))"
      let ?o = "fold (\<lambda>i ds. ds[id i := dr_update_feature (?f i) (ds ! id i)]) [0..<length det] det"
      have d: "distinct (map id [0..<length det])" by simp
      note f = fold_at [OF d, where g = "\<lambda>i. dr_update_feature (?f i)" and xs = det]
      have e: "extract_features env frame det = Some (True, True, ?o)"
        using False p(1) 1(1) by (simp add: extract_features_def Let_def)
      have "length (?f i) = length (dr_feature (det ! i))" if "i < length det" for i
        using that p(2) 1(2) by (simp add: same_boxes_nth)
      then have "same_boxes det ?o" using f(1) f(3) by (simp add: same_boxes_nth dr_update_feature_def)
      with e show ?thesis by (rule that(1))
    qed
  qed
qed

lemma get_rects_all:
  assumes "\<forall>d\<in>set det. crop_taken (crop_of img d)"
  shows "get_rects_feature env img det = map_option (Pair True)
     (all_some (map (\<lambda>d. write_feature (de_feature_dim env) (de_net env img (crop_of img d)) d) det))"
proof -
  have f: "filter crop_taken (map (crop_of img) det) = map (crop_of img) det" using assms by (auto simp: filter_id_conv)
  have "zip (map (crop_of img) det) det = map (\<lambda>d. (crop_of img d, d)) det" by (simp add: zip_map1 zip_same_conv_map)
  then show ?thesis using do_inference_eq [of "map (crop_of img) det" det env img]
    by (simp add: get_rects_feature_def f comp_def option.map_comp)
qed

section \<open>Properties\<close>

text \<open>
  The crop of a detection: when OpenCV cuts it out of the frame it lies inside the frame, and
  it is at most half as wide as the detection is high.
\<close>

lemma crop_inside:
  assumes "0 \<le> im_cols img" "0 \<le> im_rows img" "crop_taken (crop_of img d)"
  shows "0 \<le> cr_x (crop_of img d) \<and> cr_x (crop_of img d) + cr_width (crop_of img d) \<le> im_cols img \<and>
     0 \<le> cr_y (crop_of img d) \<and> cr_y (crop_of img d) + cr_height (crop_of img d) \<le> im_rows img \<and>
     0 < cr_width (crop_of img d) \<and> 0 < cr_height (crop_of img d) \<and>
     cr_width (crop_of img d) \<le> c_trunc (real_of_int (c_trunc (dr_tlwh d ! 3)) * (1/2))"
proof -
  define x where "x = c_trunc (real_of_int (c_trunc (dr_tlwh d ! 0)) -
      (real_of_int (c_trunc (dr_tlwh d ! 3)) * (1/2) - real_of_int (c_trunc (dr_tlwh d ! 2))) * (1/2))"
  define w where "w = c_trunc (real_of_int (c_trunc (dr_tlwh d ! 3)) * (1/2))"
  define y h where "y = c_trunc (dr_tlwh d ! 1)" and "h = c_trunc (dr_tlwh d ! 3)"
  define X Y where "X = (if x \<ge> 0 then x else 0)" and "Y = (if y \<ge> 0 then y else 0)"
  have c: "cr_x (crop_of img d) = X" "cr_y (crop_of img d) = Y"
    "cr_width (crop_of img d) = (if X + w \<le> im_cols img then w else im_cols img - X)"
    "cr_height (crop_of img d) = (if Y + h \<le> im_rows img then h else im_rows img - Y)"
    by (simp_all only: crop_of_def Let_def crop_rect.simps x_def w_def y_def h_def X_def Y_def)
  have "0 \<le> X" "0 \<le> Y" by (simp_all add: X_def Y_def)
  moreover have "0 < cr_width (crop_of img d)" "0 < cr_height (crop_of img d)" using assms(3) by (simp_all add: crop_taken_def)
  ultimately show ?thesis unfolding c w_def [symmetric] by (simp split: if_splits)
qed

text \<open>
  C33.  When no crop is skipped, the extraction in two halves gives every detection the features of
  its own crop, as one pass over all of them would; it has no result exactly when one of these
  features does not fit its row or the network's output.
\<close>

theorem extract_features_split:
  assumes "\<forall>d\<in>set det. crop_taken (crop_of img d)"
  shows "extract_features env img det = map_option (\<lambda>ds. (True, True, ds))
     (all_some (map (\<lambda>d. write_feature (de_feature_dim env) (de_net env img (crop_of img d)) d) det))"
proof (cases "length det < 2")
  case True
  then show ?thesis using get_rects_all [OF assms, of env] by (simp add: extract_features_def option.map_comp comp_def)
next
  case False
  let ?b = "length det div 2" and ?w = "\<lambda>d. write_feature (de_feature_dim env) (de_net env img (crop_of img d)) d"
  have "\<forall>d\<in>set (take ?b det). crop_taken (crop_of img d)" "\<forall>d\<in>set (drop ?b det). crop_taken (crop_of img d)"
    using assms by (auto dest: in_set_takeD in_set_dropD)
  note p = this [THEN get_rects_all, of env]
  have a: "all_some (map ?w det) = Option.bind (all_some (map ?w (take ?b det))) (\<lambda>us. map_option ((@) us) (all_some (map ?w (drop ?b det))))"
    by (metis all_some_append append_take_drop_id map_append)
  show ?thesis
  proof (cases "all_some (map ?w det)")
    case None
    then have "all_some (map ?w (take ?b det)) = None \<or> all_some (map ?w (drop ?b det)) = None"
      unfolding a by (auto split: Option.bind_splits)
    then show ?thesis using False None p by (auto simp: extract_features_def Let_def split: Option.bind_splits)
  next
    case (Some ds)
    then obtain us vs where u: "all_some (map ?w (take ?b det)) = Some us" "all_some (map ?w (drop ?b det)) = Some vs" "ds = us @ vs"
      unfolding a by (auto simp: bind_eq_Some_conv)
    have "map ?w (take ?b det) = map Some us" using u(1) by (simp add: all_some_iff)
    from arg_cong [where f = length, OF this] have lu: "length us = ?b" by simp
    let ?f = "\<lambda>idx. if idx < ?b then dr_feature (us ! idx) else dr_feature (vs ! (idx - ?b))"
    have ds: "map ?w det = map Some ds" using Some by (simp add: all_some_iff)
    from arg_cong [where f = length, OF this] have l: "length ds = length det" by simp
    have f: "?f i = dr_feature (ds ! i)" for i by (simp add: u(3) lu nth_append)
    have d: "distinct (map id [0..<length det])" by simp
    note g = fold_at [OF d, where g = "\<lambda>i. dr_update_feature (?f i)" and xs = det]
    let ?o = "fold (\<lambda>i ds. ds[id i := dr_update_feature (?f i) (ds ! id i)]) [0..<length det] det"
    have e: "extract_features env img det = Some (True, True, ?o)"
      using False by (simp only: extract_features_def Let_def p u(1,2) option.map bind.bind_lunit prod.case id_apply if_False)
    have "?o = ds"
    proof (rule nth_equalityI)
      show "length ?o = length ds" unfolding g(1) l ..
      fix i assume "i < length ?o"
      then have i: "i < length det" unfolding g(1) .
      have "map ?w det ! i = map Some ds ! i" unfolding ds ..
      then have "?w (det ! i) = Some (ds ! i)" using i l by (simp only: nth_map)
      then have w: "ds ! i = put_feature (de_feature_dim env) (de_net env img (crop_of img (det ! i))) (det ! i)"
        by (simp add: write_feature_Some)
      have "i \<in> set [0..<length det]" "id i < length det" using i by simp_all
      from g(3) [OF this] have "?o ! i = dr_update_feature (?f i) (det ! i)" unfolding id_apply .
      then show "?o ! i = ds ! i" unfolding f w put_feature_back .
    qed
    then show ?thesis using e Some by simp
  qed
qed

text \<open>A network for the witnesses: the feature is the position of the crop.\<close>

definition crop_env :: "unit deep_env" where
  "crop_env = \<lparr>de_ops = plain_ops, de_net = \<lambda>img r. [real_of_int (cr_x r), real_of_int (cr_y r)], de_feature_dim = 2, de_blank = [0, 0]\<rparr>"

definition small_frame :: "unit image" where
  "small_frame = \<lparr>im_cols = 100, im_rows = 50, im_pixels = ()\<rparr>"

theorem extract_features_split_witness:
  "map_option (map dr_feature \<circ> snd \<circ> snd) (extract_features crop_env small_frame
     [\<lparr>dr_tlwh = [4, 8, 8, 16], dr_confidence = 1, dr_feature = [0, 0]\<rparr>, \<lparr>dr_tlwh = [20, 8, 8, 16], dr_confidence = 1, dr_feature = [0, 0]\<rparr>])
   = Some [[4, 8], [20, 8]]"
proof -
  let ?a = "\<lparr>dr_tlwh = [4, 8, 8, 16], dr_confidence = 1, dr_feature = [0, 0]\<rparr>"
  let ?b = "\<lparr>dr_tlwh = [20, 8, 8, 16], dr_confidence = 1, dr_feature = [0, 0]\<rparr>"
  have c: "crop_of small_frame ?a = \<lparr>cr_x = 4, cr_y = 8, cr_width = 8, cr_height = 16\<rparr>"
    "crop_of small_frame ?b = \<lparr>cr_x = 20, cr_y = 8, cr_width = 8, cr_height = 16\<rparr>"
    by (simp_all add: crop_of_def small_frame_def c_trunc_def)
  have "\<forall>d\<in>set [?a, ?b]. crop_taken (crop_of small_frame d)" by (simp add: c crop_taken_def)
  from extract_features_split [OF this, of crop_env] show ?thesis
    by (simp add: c write_feature_def put_feature_def crop_env_def numeral_2_eq_2)
qed

text \<open>
  A crop that is skipped shifts the features: the network's output for the second detection is
  written into the first, and the second keeps an unwritten row.
\<close>

lemma skipped_crop_misaligns:
  assumes "\<not> crop_taken (crop_of img a)" "crop_taken (crop_of img b)"
  shows "get_rects_feature env img [a, b] =
     map_option (\<lambda>a'. (True, [a', b])) (write_feature (de_feature_dim env) (de_net env img (crop_of img b)) a)"
  using assms by (cases "write_feature (de_feature_dim env) (de_net env img (crop_of img b)) a")
    (simp_all add: get_rects_feature_def do_inference_def)

lemma skipped_crop_misaligns_example:
  "map_option (map dr_feature \<circ> snd) (get_rects_feature crop_env small_frame
     [\<lparr>dr_tlwh = [4, 60, 8, 16], dr_confidence = 1, dr_feature = [0, 0]\<rparr>, \<lparr>dr_tlwh = [20, 8, 8, 16], dr_confidence = 1, dr_feature = [0, 0]\<rparr>])
   = Some [[20, 8], [0, 0]]"
proof -
  let ?a = "\<lparr>dr_tlwh = [4, 60, 8, 16], dr_confidence = 1, dr_feature = [0, 0]\<rparr>"
  let ?b = "\<lparr>dr_tlwh = [20, 8, 8, 16], dr_confidence = 1, dr_feature = [0, 0]\<rparr>"
  have c: "crop_of small_frame ?a = \<lparr>cr_x = 4, cr_y = 60, cr_width = 8, cr_height = -10\<rparr>"
    "crop_of small_frame ?b = \<lparr>cr_x = 20, cr_y = 8, cr_width = 8, cr_height = 16\<rparr>"
    by (simp_all add: crop_of_def small_frame_def c_trunc_def)
  have "\<not> crop_taken (crop_of small_frame ?a)" "crop_taken (crop_of small_frame ?b)" by (simp_all add: c crop_taken_def)
  from skipped_crop_misaligns [OF this, of crop_env] show ?thesis
    by (simp add: c write_feature_def put_feature_def crop_env_def numeral_2_eq_2)
qed

text \<open>
  The settings bound \<open>reid_feature_dim\<close> only from below: with a dimension above the row's the first crop that is
  taken ends the process.
\<close>

lemma oversized_dimension_aborts:
  assumes "\<exists>d\<in>set det. crop_taken (crop_of img d)" "\<forall>d\<in>set det. length (dr_feature d) < de_feature_dim env"
  shows "get_rects_feature env img det = None"
proof -
  obtain r rs where r: "filter crop_taken (map (crop_of img) det) = r # rs"
    using assms(1) by (cases "filter crop_taken (map (crop_of img) det)") (auto simp: filter_empty_conv)
  obtain d ds where d: "det = d # ds" using assms(1) by (cases det) auto
  have "write_feature (de_feature_dim env) (de_net env img r) d = None" using assms(2) by (simp add: d write_feature_def)
  then show ?thesis unfolding get_rects_feature_def r do_inference_def by (simp add: d)
qed

end
