(* ===== verification/DeepWrapper.thy ===== *)
theory DeepWrapper imports DeepSort Results begin

text \<open>
  Model of \<open>src/src/deepsort/DeepSortWrapper.cpp\<close>: the adapter between the detector's groups and
  DeepSort, with the re-identification interval and the label table.
\<close>

section \<open>Labels\<close>

definition CR :: char where "CR = CHR 0x0D"
definition NL :: char where "NL = CHR 0x0A"

text \<open>The lines \<open>std::getline\<close> reads from a file: the text after the last newline is a line if it is not empty.\<close>

fun getlines :: "string \<Rightarrow> string \<Rightarrow> string list" where
  "getlines line [] = (if line = [] then [] else [rev line])"
| "getlines line (c # cs) = (if c = NL then rev line # getlines [] cs else getlines (c # line) cs)"

text \<open>\<open>LoadLabels\<close>; \<^const>\<open>None\<close> is a file that cannot be opened.\<close>

definition load_labels :: "string option \<Rightarrow> string list" where
  "load_labels file =
     map (\<lambda>line. if line \<noteq> [] \<and> last line = CR then butlast line else line)
       (case file of None \<Rightarrow> [] | Some text \<Rightarrow> getlines [] text)"

definition lookup_label :: "string list \<Rightarrow> int \<Rightarrow> string" where
  "lookup_label labels class_id =
     (if class_id < 0 \<or> class_id \<ge> int (length labels) then ''unknown'' else labels ! nat class_id)"

section \<open>The wrapper\<close>

record deep_wrapper =
  dw_tracker :: deep_sort
  dw_labels :: "string list"
  dw_reid_interval :: int
  dw_frame_count :: int

definition new_deep_wrapper :: "string option \<Rightarrow> int \<Rightarrow> deep_wrapper" where
  "new_deep_wrapper label_file reid_interval =
     \<lparr>dw_tracker = new_deep_sort, dw_labels = load_labels label_file, dw_reid_interval = max 1 reid_interval,
      dw_frame_count = 0\<rparr>"

text \<open>The boxes of a group: results with an empty box are dropped.\<close>

definition deep_boxes :: "detect_group \<Rightarrow> detect_box list" where
  "deep_boxes detections =
     concat (map (\<lambda>i.
       let det = dg_results detections ! i; b = re_box det
       in if bx_right b \<le> bx_left b \<or> bx_bottom b \<le> bx_top b then []
          else [\<lparr>db_x1 = real_of_int (bx_left b), db_y1 = real_of_int (bx_top b), db_x2 = real_of_int (bx_right b),
                 db_y2 = real_of_int (bx_bottom b), db_confidence = re_prop det,
                 db_classID = real_of_int (re_class_id det), db_trackID = 0\<rparr>])
     [0..<dg_count detections])"

definition deep_render :: "string list \<Rightarrow> deep_track \<Rightarrow> detect_result" where
  "deep_render labels track =
     (let tlwh = to_tlwh track;
          out = zero_result;
          out = out\<lparr>re_class_id := dt_cls track, re_track_id := dt_id track,
                   re_prop := (if dt_conf track \<ge> 0 then dt_conf track else 1)\<rparr>;
          out = out\<lparr>re_box := \<lparr>bx_left = c_lround (tlwh ! 0), bx_right = c_lround (tlwh ! 0 + tlwh ! 2),
                             bx_top = c_lround (tlwh ! 1), bx_bottom = c_lround (tlwh ! 1 + tlwh ! 3)\<rparr>\<rparr>;
          out = out\<lparr>re_name := c_snprintf OBJ_NAME_MAX_SIZE (lookup_label labels (re_class_id out))\<rparr>
      in copy_trajectory (dt_trajectory track) out)"

fun deep_emit :: "string list \<Rightarrow> int \<Rightarrow> deep_track list \<Rightarrow> detect_group \<Rightarrow> detect_group" where
  "deep_emit labels reid_interval [] g = g"
| "deep_emit labels reid_interval (track # tracks) g =
     (if dg_count g \<ge> OBJ_NUMB_MAX_SIZE then g
      else if dt_tsu track > max 1 reid_interval then deep_emit labels reid_interval tracks g
      else deep_emit labels reid_interval tracks (add_result (deep_render labels track) g))"

text \<open>
  \<open>Update\<close>; \<^const>\<open>None\<close> for the pointer is a frame that is missing.  The conversion to BGR is part
  of the network's function of the frame.
\<close>

definition deep_wrapper_update ::
  "'p deep_env \<Rightarrow> 'p option \<Rightarrow> int \<Rightarrow> int \<Rightarrow> detect_group \<Rightarrow> deep_wrapper \<Rightarrow> (detect_group \<times> deep_wrapper) option" where
  "deep_wrapper_update env yuyv width height detections w =
     (let tracked_group = zero_group\<lparr>dg_id := dg_id detections\<rparr> in
      case yuyv of None \<Rightarrow> Some (tracked_group, w)
      | Some pixels \<Rightarrow>
        if width \<le> 0 \<or> height \<le> 0 then Some (tracked_group, w)
        else
          let frame_count = dw_frame_count w + 1;
              run_reid = (dg_count detections > 0 \<and>
                (dw_reid_interval w \<le> 1 \<or> c_mod (frame_count - 1) (dw_reid_interval w) = 0));
              bgr_mat = \<lparr>im_cols = width, im_rows = height, im_pixels = pixels\<rparr>;
              dets = (if run_reid then deep_boxes detections else [])
          in map_option (\<lambda>ds.
               let tracked_group = deep_emit (dw_labels w) (dw_reid_interval w) (get_confirmed_tracks ds) tracked_group;
                   tracked_group = (if dg_count tracked_group = 0 \<and> dg_count detections > 0 then detections else tracked_group)
               in (tracked_group, w\<lparr>dw_frame_count := frame_count, dw_tracker := ds\<rparr>))
             (if run_reid then
                if dets \<noteq> [] then map_option snd (sort_frame env bgr_mat dets (dw_tracker w))
                else Some (snd (sort_interval (dw_tracker w)))
              else Some (snd (sort_interval (dw_tracker w)))))"

section \<open>Lemmas\<close>



text \<open>A frame keeps the tracker's invariant, with network features of one length.\<close>

lemma same_boxes_lengths:
  assumes "\<forall>r\<in>set det. length (dr_feature r) = d" "same_boxes det det'"
  shows "length det' = length det \<and> (\<forall>r\<in>set det'. length (dr_feature r) = d)"
proof -
  have l: "length det' = length det" using assms(2) by (simp add: same_boxes_nth)
  have "length (dr_feature r) = d" if r: "r \<in> set det'" for r
  proof -
    obtain i where "i < length det" "r = det' ! i" using r l by (auto simp: in_set_conv_nth)
    then show ?thesis using assms by (simp add: same_boxes_nth)
  qed
  with l show ?thesis by blast
qed

text \<open>
  The configured feature dimension fits the feature row of a detection and what the network gives.
  Nothing in the code checks it: see \<open>oversized_dimension_aborts\<close>.
\<close>

definition features_fit :: "'p deep_env \<Rightarrow> bool" where
  "features_fit env \<longleftrightarrow> de_feature_dim env \<le> length (de_blank env) \<and> (\<forall>img r. de_feature_dim env \<le> length (de_net env img r))"

definition rows_of :: "'p deep_env \<Rightarrow> detect_box list \<Rightarrow> detection_row list" where
  "rows_of env dets = map (\<lambda>i. \<lparr>dr_tlwh = [db_x1 i, db_y1 i, db_x2 i - db_x1 i, db_y2 i - db_y1 i],
     dr_confidence = db_confidence i, dr_feature = de_blank env\<rparr>) dets"

lemma rows_of_fit: "features_fit env \<Longrightarrow> rows_fit env (rows_of env dets)"
  by (auto simp: features_fit_def rows_fit_def rows_of_def)

lemma sort_frame_cases:
  assumes ops: "keeps_rows (de_ops env)" and b: "length (de_blank env) = d" and inv: "tk_inv d (ds_tracker ds)" and ne: "dets \<noteq> []"
  obtains (sorted) boxes ds' cc rows where "sort_frame env frame dets ds = Some (boxes, ds')"
     "\<forall>r\<in>set rows. length (dr_feature r) = d"
     "tracker_update_cls (de_ops env) cc rows (tracker_predict (ds_tracker ds)) = Some (ds_tracker ds')"
     "tk_inv d (ds_tracker ds')"
  | (oversized) "sort_frame env frame dets ds = None" "\<not> features_fit env"
proof -
  let ?cc = "map (\<lambda>i. \<lparr>cc_cls = c_trunc (db_classID i), cc_conf = db_confidence i\<rparr>) dets"
  let ?ds = "ds\<lparr>ds_result := [], ds_results := []\<rparr>"
  have s: "sort_frame env frame dets ds = map_option (\<lambda>ds. (boxes_of ds, ds)) (sort_detections_v2 env frame (?cc, rows_of env dets) ?ds)"
    using ne by (simp add: sort_frame_def rows_of_def Let_def)
  show ?thesis
  proof (cases rule: extract_features_cases [of env frame "rows_of env dets"])
    case (1 rows)
    have "\<forall>r\<in>set (rows_of env dets). length (dr_feature r) = d" using b by (auto simp: rows_of_def)
    from same_boxes_lengths [OF this 1(2)] have r: "\<forall>r\<in>set rows. length (dr_feature r) = d" by blast
    from update_cls_ok [OF ops tracker_predict_inv [OF inv] r, of ?cc] obtain tk' where
      u: "tracker_update_cls (de_ops env) ?cc rows (tracker_predict (ds_tracker ds)) = Some tk'" "tk_inv d tk'" by blast
    let ?ts = "reported 1 (tk_tracks tk')"
    let ?ds' = "?ds\<lparr>ds_tracker := tk', ds_result := map result_of ?ts, ds_results := map results_of ?ts\<rparr>"
    have "sort_detections_v2 env frame (?cc, rows_of env dets) ?ds = Some ?ds'"
      using 1(1) u(1) by (simp add: sort_detections_v2_def Let_def)
    then show ?thesis using sorted [of _ ?ds' rows ?cc] s r u by simp
  next
    case 2
    then have "sort_frame env frame dets ds = None" by (simp add: s sort_detections_v2_def)
    then show ?thesis using oversized 2(2) rows_of_fit by blast
  qed
qed

lemma sort_interval_tracker: "ds_tracker (snd (sort_interval ds)) = tracker_predict (ds_tracker ds)"
  by (simp add: sort_interval_def Let_def)

section \<open>Re-identification at intervals\<close>

text \<open>
  Tracks that are all tentative and were last seen two frames ago or more match nothing: there is
  no confirmed track for the cascade, and every overlap cost is the infinite one.
\<close>

definition stale :: "deep_track list \<Rightarrow> bool" where
  "stale ts \<longleftrightarrow> (\<forall>t\<in>set ts. dt_state t = Tentative \<and> 1 < dt_tsu t)"

lemma stale_no_match:
  assumes st: "stale (tk_tracks tk)" and th: "0 \<le> tk_max_iou tk" "tk_max_iou tk < INFTY_COST"
    and m: "tracker_match ops dets tk = Some res"
  shows "md_matches res = []"
proof -
  let ?ts = "tk_tracks tk"
  have c: "idx_where is_confirmed ?ts = []"
    using st by (auto simp: idx_where_def stale_def is_confirmed_def filter_empty_conv)
  let ?U = "idx_where (\<lambda>t. \<not> is_confirmed t) ?ts"
  have cas: "matching_cascade cf th' n ?ts dets [] [] = Some \<lparr>md_matches = [], md_utracks = [], md_udets = [0..<length dets]\<rparr>" for cf th' n
    by (simp add: matching_cascade_def cascade_none)
  from min_cost_matching_ok [of ?U "[0..<length dets]" iou_cost ?ts dets "tk_max_iou tk", OF iou_cost_ok th(1)]
  obtain b where b: "min_cost_matching iou_cost (tk_max_iou tk) ?ts dets ?U [0..<length dets] = Some b"
    and le: "\<forall>(t, d)\<in>set (md_matches b). \<exists>m r c. iou_cost ?ts dets ?U [0..<length dets] = Some m \<and> r < length ?U \<and>
        c < length [0..<length dets] \<and> t = ?U ! r \<and> d = [0..<length dets] ! c \<and> m ! r ! c \<le> tk_max_iou tk"
    by auto
  have "md_matches b = []"
  proof (rule ccontr)
    assume "md_matches b \<noteq> []"
    then obtain p where "p \<in> set (md_matches b)" by (meson list.set_sel(1))
    with le obtain m r c where m: "iou_cost ?ts dets ?U [0..<length dets] = Some m" and r: "r < length ?U" "c < length [0..<length dets]"
      and l: "m ! r ! c \<le> tk_max_iou tk" by fastforce
    have "?U ! r \<in> set ?U" using r(1) by (rule nth_mem)
    then have "?ts ! (?U ! r) \<in> set ?ts" by auto
    then have "1 < dt_tsu (?ts ! (?U ! r))" using st by (simp add: stale_def)
    then have "m ! r ! c = INFTY_COST" using m r by (auto simp: iou_cost_def)
    then show False using l th(2) by simp
  qed
  then show ?thesis using m b by (auto simp: tracker_match_def Let_def c cas)
qed

lemma stale_update:
  assumes ops: "keeps_rows ops" and inv: "tk_inv d tk" and f: "\<forall>r\<in>set dets. length (dr_feature r) = d"
    and st: "stale (tk_tracks tk)" and th: "tk_max_iou tk < INFTY_COST"
    and u: "tracker_update_cls ops cc dets tk = Some tk'"
  shows "\<forall>t\<in>set (tk_tracks tk'). dt_state t = Tentative \<and> dt_tsu t = 0"
proof -
  from update_cls_ok [OF ops inv f, of cc] obtain res where res: "tracker_match ops dets tk = Some res"
    and as: "assoc_ok {..<length (tk_tracks tk)} {..<length dets} (md_of res)" by blast
  have "0 \<le> tk_max_iou tk" using inv by (simp add: tk_inv_def)
  from stale_no_match [OF st this th res] have nm: "md_matches res = []" .
  let ?mv = "moved ops cc dets res (tk_tracks tk)" and ?t1 = "tk\<lparr>tk_tracks := moved ops cc dets res (tk_tracks tk)\<rparr>"
  have del: "is_deleted t" if t: "t \<in> set ?mv" for t
  proof -
    obtain k where k: "k < length (tk_tracks tk)" "t = ?mv ! k" using t moved_nth(1) [OF as] by (auto simp: in_set_conv_nth)
    have "t = mark_missed (tk_tracks tk ! k)" using moved_nth(2) [OF as k(1), of ops cc dets] nm k(2) by auto
    moreover have "dt_state (tk_tracks tk ! k) = Tentative" using st k(1) by (simp add: stale_def)
    ultimately show ?thesis by (simp add: is_deleted_def)
  qed
  have "set (md_udets res) \<subseteq> {..<length dets}" using as by (auto simp: assoc_ok_def md_of_def)
  then have "\<forall>j\<in>set (md_udets res). length (dr_feature (dets ! j)) = d" using f by auto
  from births [OF this, of cc ?t1] obtain new where b: "tk_tracks (born cc dets (md_udets res) ?t1) = ?mv @ new"
    and new: "\<forall>t\<in>set new. dt_state t = Tentative \<and> dt_tsu t = 0" by auto
  have fu: "finish_update (born cc dets (md_udets res) ?t1) = Some tk'" using u res by (simp add: update_cls_eq)
  let ?ts = "filter (\<lambda>t. \<not> is_deleted t) (tk_tracks (born cc dets (md_udets res) ?t1))"
  have sub: "set ?ts \<subseteq> set new" using del unfolding b by auto
  have "tk_tracks tk' = map (\<lambda>t. if is_confirmed t then t\<lparr>dt_features := []\<rparr> else t) ?ts"
    using fu by (auto simp: finish_update_def Let_def)
  then show ?thesis using sub new by (auto simp: is_confirmed_def)
qed

text \<open>The state of a wrapper that extracts features only every \<open>r\<close> frames.\<close>

definition unconfirmed_since :: "nat \<Rightarrow> deep_wrapper \<Rightarrow> bool" where
  "unconfirmed_since d w \<longleftrightarrow> tk_inv d (ds_tracker (dw_tracker w)) \<and> tk_max_iou (ds_tracker (dw_tracker w)) < INFTY_COST \<and>
     2 \<le> dw_reid_interval w \<and> 0 \<le> dw_frame_count w \<and>
     (\<forall>t\<in>set (tk_tracks (ds_tracker (dw_tracker w))). dt_state t = Tentative \<and> 0 < dw_frame_count w \<and>
        (dw_frame_count w - 1) mod dw_reid_interval w \<le> dt_tsu t)"

lemma next_phase:
  assumes "2 \<le> (r::int)" "0 < c"
  shows "c mod r \<le> (c - 1) mod r + 1" "c mod r = 0 \<Longrightarrow> (c - 1) mod r = r - 1"
proof -
  have m: "0 \<le> (c - 1) mod r" "(c - 1) mod r < r" using assms by simp_all
  have e: "c mod r = ((c - 1) mod r + 1) mod r" by (metis add.commute add_diff_cancel_left' diff_add_eq mod_add_left_eq)
  show "c mod r \<le> (c - 1) mod r + 1" unfolding e using m by (intro zmod_le_nonneg_dividend) simp
  show "(c - 1) mod r = r - 1" if z: "c mod r = 0"
  proof (rule ccontr)
    assume "(c - 1) mod r \<noteq> r - 1"
    then have "((c - 1) mod r + 1) mod r = (c - 1) mod r + 1" using m by (intro mod_pos_pos_trivial) linarith+
    then show False using z m(1) unfolding e by linarith
  qed
qed

lemma finish_keeps: "finish_update tk = Some tk' \<Longrightarrow> tk_max_iou tk' = tk_max_iou tk"
  by (auto simp: finish_update_def Let_def)

lemma born_max_iou: "tk_max_iou (born cc dets js tk) = tk_max_iou tk"
  unfolding born_def
  by (induction js arbitrary: tk) (simp_all add: initiate_track_cls_def split: prod.split)

lemma update_max_iou: "tracker_update_cls ops cc dets tk = Some tk' \<Longrightarrow> tk_max_iou tk' = tk_max_iou tk"
  by (auto simp: update_cls_eq bind_eq_Some_conv born_max_iou dest: finish_keeps)

lemma predict_fields [simp]:
  "tk_max_iou (tracker_predict tk) = tk_max_iou tk" "tk_tracks (tracker_predict tk) = map predit (tk_tracks tk)"
  by (simp_all add: tracker_predict_def)

text \<open>The outcome of a valid frame: the new DeepSort state, and what is reported.\<close>

lemma wrapper_update_cases:
  assumes v: "0 < width" "0 < height" and ops: "keeps_rows (de_ops env)" and b: "length (de_blank env) = d"
    and inv: "tk_inv d (ds_tracker (dw_tracker w))"
  obtains (matched) g ds cc rows where
      "deep_wrapper_update env (Some px) width height dets w = Some (g, w\<lparr>dw_frame_count := dw_frame_count w + 1, dw_tracker := ds\<rparr>)"
      "g = (let tg = deep_emit (dw_labels w) (dw_reid_interval w) (get_confirmed_tracks ds) (zero_group\<lparr>dg_id := dg_id dets\<rparr>)
            in if dg_count tg = 0 \<and> dg_count dets > 0 then dets else tg)"
      "\<forall>r\<in>set rows. length (dr_feature r) = d" "tk_inv d (ds_tracker ds)"
      "tracker_update_cls (de_ops env) cc rows (tracker_predict (ds_tracker (dw_tracker w))) = Some (ds_tracker ds)"
      "dw_reid_interval w \<le> 1 \<or> c_mod (dw_frame_count w) (dw_reid_interval w) = 0"
  | (predicted) g ds where
      "deep_wrapper_update env (Some px) width height dets w = Some (g, w\<lparr>dw_frame_count := dw_frame_count w + 1, dw_tracker := ds\<rparr>)"
      "g = (let tg = deep_emit (dw_labels w) (dw_reid_interval w) (get_confirmed_tracks ds) (zero_group\<lparr>dg_id := dg_id dets\<rparr>)
            in if dg_count tg = 0 \<and> dg_count dets > 0 then dets else tg)"
      "ds_tracker ds = tracker_predict (ds_tracker (dw_tracker w))"
    | (oversized) "deep_wrapper_update env (Some px) width height dets w = None" "\<not> features_fit env"
proof (cases "dg_count dets > 0 \<and> (dw_reid_interval w \<le> 1 \<or> c_mod (dw_frame_count w) (dw_reid_interval w) = 0) \<and> deep_boxes dets \<noteq> []")
  case True
  let ?img = "\<lparr>im_cols = width, im_rows = height, im_pixels = px\<rparr>"
  from True have run: "dg_count dets > 0" "dw_reid_interval w \<le> 1 \<or> c_mod (dw_frame_count w) (dw_reid_interval w) = 0"
    and ne: "deep_boxes dets \<noteq> []" by simp_all
  show ?thesis
  proof (cases rule: sort_frame_cases [OF ops b inv ne, of ?img])
    case (1 boxes ds cc rows)
    show ?thesis
      by (rule matched [OF _ refl 1(2,4,3) run(2)]) (use v run ne 1(1) in \<open>simp add: deep_wrapper_update_def Let_def\<close>)
  next
    case 2
    show ?thesis by (rule oversized) (use v run ne 2 in \<open>simp_all add: deep_wrapper_update_def Let_def\<close>)
  qed
next
  case False
  show ?thesis
  proof (rule predicted [OF _ refl sort_interval_tracker])
    show "deep_wrapper_update env (Some px) width height dets w = Some (
       let tg = deep_emit (dw_labels w) (dw_reid_interval w) (get_confirmed_tracks (snd (sort_interval (dw_tracker w)))) (zero_group\<lparr>dg_id := dg_id dets\<rparr>)
       in if dg_count tg = 0 \<and> dg_count dets > 0 then dets else tg,
       w\<lparr>dw_frame_count := dw_frame_count w + 1, dw_tracker := snd (sort_interval (dw_tracker w))\<rparr>)"
      using v False by (auto simp: deep_wrapper_update_def Let_def)
  qed
qed

lemma no_confirmed:
  assumes "\<forall>t\<in>set (tk_tracks (ds_tracker ds)). dt_state t = Tentative"
  shows "get_confirmed_tracks ds = []"
  using assms by (auto simp: get_confirmed_tracks_def is_confirmed_def filter_empty_conv)

lemma unconfirmed_step:
  assumes v: "0 < width" "0 < height" and ops: "keeps_rows (de_ops env)" and b: "length (de_blank env) = d"
    and inv: "unconfirmed_since d w"
  obtains (goes_on) w' where "deep_wrapper_update env (Some px) width height dets w =
       Some (if dg_count dets > 0 then dets else zero_group\<lparr>dg_id := dg_id dets\<rparr>, w')" "unconfirmed_since d w'"
  | (stops) "deep_wrapper_update env (Some px) width height dets w = None" "\<not> features_fit env"
proof -
  let ?tk = "ds_tracker (dw_tracker w)" and ?r = "dw_reid_interval w" and ?c = "dw_frame_count w"
  have i: "tk_inv d ?tk" "tk_max_iou ?tk < INFTY_COST" "2 \<le> ?r" "0 \<le> ?c"
    and t: "\<And>t. t \<in> set (tk_tracks ?tk) \<Longrightarrow> dt_state t = Tentative \<and> 0 < ?c \<and> (?c - 1) mod ?r \<le> dt_tsu t"
    using inv by (auto simp: unconfirmed_since_def)
  show ?thesis
  proof (cases rule: wrapper_update_cases [OF v ops b i(1), where px = px and dets = dets, case_names matched predicted oversized])
    case oversized
    then show ?thesis by (rule stops)
  next
    case (matched g ds cc rows)
    have z: "?c mod ?r = 0" using matched(6) i(3,4) by (simp add: c_mod_nonneg)
    have "stale (tk_tracks (tracker_predict ?tk))"
    proof -
      have "dt_state u = Tentative \<and> 1 < dt_tsu u + 1" if u: "u \<in> set (tk_tracks ?tk)" for u
        using t [OF u] next_phase(2) [OF i(3) _ z] i(3) by auto
      then show ?thesis by (simp add: stale_def)
    qed
    from stale_update [OF ops tracker_predict_inv [OF i(1)] matched(3) this _ matched(5)] i(2)
    have new: "\<forall>t\<in>set (tk_tracks (ds_tracker ds)). dt_state t = Tentative \<and> dt_tsu t = 0" by simp
    then have "get_confirmed_tracks ds = []" by (intro no_confirmed) blast
    then have g: "g = (if dg_count dets > 0 then dets else zero_group\<lparr>dg_id := dg_id dets\<rparr>)"
      by (simp add: matched(2) zero_group_def)
    have "tk_max_iou (ds_tracker ds) < INFTY_COST" using update_max_iou [OF matched(5)] i(2) by simp
    then have "unconfirmed_since d (w\<lparr>dw_frame_count := ?c + 1, dw_tracker := ds\<rparr>)"
      using i(3,4) new matched(4) z by (simp add: unconfirmed_since_def)
    then show ?thesis using matched(1) g goes_on by blast
  next
    case (predicted g ds)
    have new: "dt_state u = Tentative \<and> ?c mod ?r \<le> dt_tsu u" if u: "u \<in> set (tk_tracks (ds_tracker ds))" for u
    proof -
      obtain v where v: "v \<in> set (tk_tracks ?tk)" "u = predit v" using u by (auto simp: predicted(3))
      then show ?thesis using t [OF v(1)] next_phase(1) [OF i(3)] by force
    qed
    then have "get_confirmed_tracks ds = []" by (intro no_confirmed) blast
    then have g: "g = (if dg_count dets > 0 then dets else zero_group\<lparr>dg_id := dg_id dets\<rparr>)"
      by (simp add: predicted(2) zero_group_def)
    have "unconfirmed_since d (w\<lparr>dw_frame_count := ?c + 1, dw_tracker := ds\<rparr>)"
      using i new tracker_predict_inv [OF i(1)] by (simp add: unconfirmed_since_def predicted(3))
    then show ?thesis using predicted(1) g goes_on by blast
  qed
qed

lemma new_wrapper_inv:
  shows "tk_inv d (ds_tracker (dw_tracker (new_deep_wrapper lf reid)))"
    and "2 \<le> reid \<Longrightarrow> unconfirmed_since d (new_deep_wrapper lf reid)"
proof -
  have t: "ds_tracker (dw_tracker (new_deep_wrapper lf reid)) = new_tracker (1/2) 100 (7/10) 30 2"
    by (simp add: new_deep_wrapper_def new_deep_sort_def)
  show i: "tk_inv d (ds_tracker (dw_tracker (new_deep_wrapper lf reid)))" unfolding t by (rule new_tracker_inv) simp_all
  show "unconfirmed_since d (new_deep_wrapper lf reid)" if "2 \<le> reid"
    using that i unfolding unconfirmed_since_def t by (simp add: new_deep_wrapper_def new_tracker_def INFTY_COST_def)
qed


section \<open>Properties\<close>

text \<open>A run: the frames one after the other, each a pointer that may be null, its size and its detections.\<close>

fun deep_feed :: "'p deep_env \<Rightarrow> ('p option \<times> int \<times> int \<times> detect_group) list \<Rightarrow> deep_wrapper
     \<Rightarrow> (detect_group list \<times> deep_wrapper) option" where
  "deep_feed env [] w = Some ([], w)"
| "deep_feed env ((px, width, height, dets) # frames) w =
     Option.bind (deep_wrapper_update env px width height dets w) (\<lambda>(g, w).
       map_option (\<lambda>(gs, w). (g # gs, w)) (deep_feed env frames w))"

text \<open>
  C19.  With a re-identification interval of two or more DeepSort never confirms a track: whatever the
  frames are, every one of them reports the detector's own results, without track ids or history,
  or nothing when there are none.  (Between two extractions a tentative track is predicted twice or
  more, then its overlap cost is infinite, so it is unmatched and deleted, and its detection
  starts a new tentative track.)  Only a configured feature dimension beyond the feature row of a
  detection or beyond the network's output can stop the run.
\<close>

theorem reid_interval_never_confirms:
  assumes "keeps_rows (de_ops env)" "2 \<le> reid" "\<forall>(px, width, height, dets)\<in>set frames. px \<noteq> None \<and> 0 < width \<and> 0 < height"
  shows "case deep_feed env frames (new_deep_wrapper lf reid) of
      None \<Rightarrow> \<not> features_fit env
    | Some (gs, w) \<Rightarrow>
        gs = map (\<lambda>(px, width, height, dets). if dg_count dets > 0 then dets else zero_group\<lparr>dg_id := dg_id dets\<rparr>) frames \<and>
        (\<forall>t\<in>set (tk_tracks (ds_tracker (dw_tracker w))). dt_state t = Tentative)"
proof -
  let ?gs = "map (\<lambda>(px, width, height, dets). if dg_count dets > 0 then dets else zero_group\<lparr>dg_id := dg_id dets\<rparr>)"
  have "case deep_feed env frames w of None \<Rightarrow> \<not> features_fit env
      | Some (gs, w') \<Rightarrow> gs = ?gs frames \<and> unconfirmed_since (length (de_blank env)) w'"
    if "unconfirmed_since (length (de_blank env)) w" for w
    using assms(3) that
  proof (induction frames arbitrary: w)
    case (Cons x frames)
    obtain px width height dets where x: "x = (Some px, width, height, dets)" "0 < width" "0 < height"
      using Cons.prems(1) by (cases x) auto
    show ?case
    proof (cases rule: unconfirmed_step [OF x(2,3) assms(1) refl Cons.prems(2), where px = px and dets = dets, case_names goes_on stops])
      case (goes_on w1)
      then show ?thesis using Cons.IH [of w1] Cons.prems(1) by (auto simp: x(1) split: option.splits prod.splits)
    next
      case stops
      then show ?thesis by (simp add: x(1))
    qed
  qed simp
  from this [OF new_wrapper_inv(2) [OF assms(2)], of lf] show ?thesis
    by (cases "deep_feed env frames (new_deep_wrapper lf reid)") (auto simp: unconfirmed_since_def)
qed

definition one_detection :: detect_group where
  "one_detection = add_result (zero_result\<lparr>re_name := ''person'', re_box := \<lparr>bx_left = 4, bx_right = 12, bx_top = 8, bx_bottom = 24\<rparr>, re_prop := 1\<rparr>) zero_group"

theorem reid_interval_never_confirms_witness:
  "\<exists>w. deep_feed crop_env [(Some (), 100, 50, one_detection), (Some (), 100, 50, one_detection), (Some (), 100, 50, one_detection)]
     (new_deep_wrapper None 2) = Some ([one_detection, one_detection, one_detection], w)"
proof -
  have "keeps_rows (de_ops crop_env)" by (simp add: crop_env_def plain_keeps_rows)
  moreover have "features_fit crop_env" by (simp add: features_fit_def crop_env_def)
  ultimately show ?thesis
    using reid_interval_never_confirms [of crop_env 2 "[(Some (), 100, 50, one_detection), (Some (), 100, 50, one_detection), (Some (), 100, 50, one_detection)]" None]
    by (auto simp: one_detection_def add_result_def zero_group_def split: option.splits)
qed



end
