(* ===== verification/DeepLive.thy ===== *)
theory DeepLive imports DeepInv begin

text \<open>
  The first two frames of a new DeepSort tracker: the detections of the first start tentative tracks, and those of
  the second that repeat the box of an earlier one are matched with its track by overlap, the only
  exact match among the boxes, and confirm it.
\<close>

section \<open>Overlap\<close>

lemma iou_same:
  assumes "0 < w" "0 < h"
  shows "deep_iou [x, y, w, h] [x, y, w, h] = 1"
proof -
  have "w * h \<noteq> 0" using assms by simp
  then show ?thesis using assms by (simp add: deep_iou_def Let_def)
qed

text \<open>Two intervals that overlap as far as both are long are the same.\<close>

lemma overlap_full:
  fixes x x' w w' :: real
  assumes "0 < w" "0 < w'" "W = (let d = min (x + w) (w' + x') - max x x' in if d < 0 then 0 else d)"
  shows "0 \<le> W" "W \<le> w" "W \<le> w'" "W = w \<Longrightarrow> W = w' \<Longrightarrow> x = x' \<and> w = w'"
  using assms by (auto simp: Let_def min_def max_def split: if_splits)

lemma iou_only_same:
  assumes p: "0 < w" "0 < h" "0 < w'" "0 < h'" and one: "deep_iou [x, y, w, h] [x', y', w', h'] = 1"
  shows "x = x' \<and> y = y' \<and> w = w' \<and> h = h'"
proof -
  define W where "W = (let d = min (x + w) (w' + x') - max x x' in if d < 0 then 0 else d)"
  define H where "H = (let d = min (y + h) (h' + y') - max y y' in if d < 0 then 0 else d)"
  note W = overlap_full [OF p(1,3) W_def] and H = overlap_full [OF p(2,4) H_def]
  have "deep_iou [x, y, w, h] [x', y', w', h'] = W * H / (w * h + w' * h' - W * H)"
    by (simp add: deep_iou_def W_def H_def Let_def numeral_eq_Suc)
  then have e: "W * H / (w * h + w' * h' - W * H) = 1" using one by (simp only:)
  then have "w * h + w' * h' - W * H \<noteq> 0" by force
  then have "2 * (W * H) = w * h + w' * h'" using e by (simp add: field_simps)
  moreover have "W * H \<le> w * h" "W * H \<le> w' * h'" using W(1-3) H(1-3) by (auto intro!: mult_mono)
  ultimately have a: "W * H = w * h" "W * H = w' * h'" by linarith+
  have full: "V = v \<and> K = k" if b: "V * K = v * k" "0 \<le> V" "0 \<le> K" "V \<le> v" "K \<le> k" "0 < v" "0 < k" for V K v k :: real
  proof (rule ccontr)
    assume "\<not> (V = v \<and> K = k)"
    then consider "V < v" | "K < k" using b(4,5) by linarith
    then have "V * K < v * k"
    proof cases
      case 1
      have "V * K \<le> V * k" by (rule mult_left_mono [OF b(5,2)])
      also have "\<dots> < v * k" by (rule mult_strict_right_mono [OF 1 b(7)])
      finally show ?thesis .
    next
      case 2
      have "V * K \<le> v * K" by (rule mult_right_mono [OF b(4,3)])
      also have "\<dots> < v * k" by (rule mult_strict_left_mono [OF 2 b(6)])
      finally show ?thesis .
    qed
    then show False using b(1) by simp
  qed
  show ?thesis using full [OF a(1)] full [OF a(2)] W H p by blast
qed

section \<open>A matching of cost 0\<close>

text \<open>Every track has one detection at cost 0: the solver finds exactly these pairs.\<close>

lemma match_exact:
  assumes m: "cf tracks dets [0..<n] [0..<k] = Some c" "is_mat n k c" and nn: "\<forall>i<n. \<forall>j<k. 0 \<le> c ! i ! j" and th: "0 \<le> th"
    and f: "inj_on f {..<n}" "\<forall>i<n. f i < k \<and> c ! i ! f i = 0" "\<forall>i<n. \<forall>j<k. c ! i ! j = 0 \<longrightarrow> j = f i" and n: "0 < n"
  shows "\<exists>res. min_cost_matching cf th tracks dets [0..<n] [0..<k] = Some res \<and> md_utracks res = [] \<and>
     (\<forall>(i, j)\<in>set (md_matches res). i < n \<and> j = f i)"
proof -
  let ?c = "cap_costs th c" and ?M = "map (\<lambda>i. (i, f i)) [0..<n]"
  note cc = cap_costs_entry [OF m(2), where th = th]
  have fk: "f ` {..<n} \<subseteq> {..<k}" using f(2) by auto
  then have nk: "n \<le> k" using card_inj_on_le [OF f(1) fk] by simp
  have nn': "\<forall>i<n. \<forall>j<k. 0 \<le> ?c ! i ! j" using cc(2) nn th by simp
  from hungarian_correct [OF cc(1) n _ nn'] n nk obtain I where I: "hungarian_solve ?c = Some I" "full_matching n k I"
    "\<forall>M'. full_matching n k M' \<longrightarrow> matching_cost ?c I \<le> matching_cost ?c M'" by auto
  have "full_matching n k ?M" using f(1,2) nk by (auto simp: full_matching_def comp_def distinct_map lessThan_atLeast0)
  moreover have "matching_cost ?c ?M = 0"
  proof -
    have "?c ! i ! f i = 0" if "i < n" for i using f(2) cc(2) [of i "f i"] that th by simp
    then have "map (\<lambda>i. ?c ! i ! f i) [0..<n] = map (\<lambda>i. 0) [0..<n]" by (intro map_cong) auto
    then have "sum_list (map (\<lambda>i. ?c ! i ! f i) [0..<n]) = 0" by (simp only: sum_list_0)
    then show ?thesis by (simp add: matching_cost_def comp_def)
  qed
  ultimately have "matching_cost ?c I \<le> 0" using I(3) by metis
  moreover have sub: "set I \<subseteq> {..<n} \<times> {..<k}" and d: "distinct (map fst I)" "length I = n" using I(2) nk by (auto simp: full_matching_def)
  have pos: "\<forall>x\<in>set (map (\<lambda>(i, j). ?c ! i ! j) I). 0 \<le> x" using nn' sub by auto
  ultimately have "\<forall>x\<in>set (map (\<lambda>(i, j). ?c ! i ! j) I). x = 0"
    using sum_list_nonneg_eq_0_iff [of "map (\<lambda>(i, j). ?c ! i ! j) I"] sum_list_nonneg [of "map (\<lambda>(i, j). ?c ! i ! j) I"]
    by (fastforce simp: matching_cost_def)
  then have z: "?c ! i ! j = 0" if "(i, j) \<in> set I" for i j using that by force
  have pair: "i < n \<and> j = f i" if ij: "(i, j) \<in> set I" for i j
  proof -
    have b: "i < n" "j < k" using sub ij by auto
    then have "c ! i ! j = 0" using cc(2) [OF b] z [OF ij] th by (auto split: if_splits)
    then show ?thesis using b f(3) by blast
  qed
  have rows: "fst ` set I = {..<n}"
  proof (rule card_subset_eq)
    show "card (fst ` set I) = card {..<n}" using d by (metis card_lessThan distinct_card length_map list.set_map)
  qed (use sub in auto)
  have "filter (\<lambda>(i, j). ?c ! i ! j > th) I = []" using z th by (auto simp: filter_empty_conv)
  moreover have "filter (\<lambda>row. \<forall>p\<in>set I. fst p \<noteq> row) [0..<n] = []"
  proof -
    have "\<exists>p\<in>set I. fst p = row" if "row < n" for row using rows that by (metis imageE lessThan_iff)
    then show ?thesis by (auto simp: filter_empty_conv)
  qed
  ultimately have s: "md_utracks (split_solution ?c th [0..<n] [0..<k] I) = []"
    "md_matches (split_solution ?c th [0..<n] [0..<k] I) = map (\<lambda>(i, j). ([0..<n] ! i, [0..<k] ! j)) (filter (\<lambda>(i, j). \<not> ?c ! i ! j > th) I)"
    by (simp_all add: split_solution_def split_fold)
  have "\<forall>(i, j)\<in>set (md_matches (split_solution ?c th [0..<n] [0..<k] I)). i < n \<and> j = f i"
    using pair sub unfolding s(2) by fastforce
  then show ?thesis using m(1) I(1) n nk s(1) by (simp add: min_cost_matching_def)
qed

section \<open>The frames\<close>

text \<open>A new track predicts that its box stays where it is.\<close>

lemma predicted_box:
  assumes r: "dr_tlwh r = [x, y, w, h]" "h \<noteq> 0" and t: "(dt_mean t, dt_cov t) = mkf_initiate (dr_to_xyah r)"
  shows "to_tlwh (predit t) = [x, y, w, h]"
proof -
  have z: "dr_to_xyah r = [x + w / 2, y + h / 2, w / h, h]" using r(1) by (simp add: dr_to_xyah_def kRatio_def Let_def)
  have m: "fst (mkf_initiate (dr_to_xyah r)) = [x + w / 2, y + h / 2, w / h, h, 0, 0, 0, 0]"
    by (simp add: mkf_initiate_def z Let_def numeral_eq_Suc upt_rec)
  then have dm: "dt_mean t = [x + w / 2, y + h / 2, w / h, h, 0, 0, 0, 0]" using t by (metis fst_conv)
  have p: "dt_mean (predit t) = fst (kf_predict (dt_mean t, dt_cov t))"
    by (simp add: predit_def mkf_predict_eq Let_def split: prod.split)
  have nth: "dt_mean (predit t) ! i = [x + w / 2, y + h / 2, w / h, h] ! i" if "i < 4" for i
  proof -
    have "dt_mean (predit t) ! i = dt_mean t ! i + dt_mean t ! (i + 4)"
      using that kf_predict_mean [of "dt_mean t" i "dt_cov t"] by (simp add: p dm)
    moreover have "i = 0 \<or> i = 1 \<or> i = 2 \<or> i = 3" using that by linarith
    ultimately show ?thesis by (auto simp: dm)
  qed
  have len: "length (dt_mean (predit t)) = 8"
    using kf_predict_ok [OF kf_initiate_ok [of "dr_to_xyah r"]] t by (simp add: p kf_ok_def mkf_initiate_eq)
  then have "take 4 (dt_mean (predit t)) = [x + w / 2, y + h / 2, w / h, h]"
    using nth by (intro nth_equalityI) (simp_all add: numeral_eq_Suc)
  then show ?thesis using r(2) by (simp add: to_tlwh_def Let_def)
qed

text \<open>The tracks that unmatched detections start, in their order.\<close>

definition newborn :: "clsconf list \<Rightarrow> detection_row list \<Rightarrow> deep_tracker \<Rightarrow> nat \<Rightarrow> nat \<Rightarrow> deep_track" where
  "newborn cc dets tk k j =
     (let (m, c) = mkf_initiate (dr_to_xyah (dets ! j))
      in new_track_cls m c (tk_next_idx tk + int k) (tk_n_init tk) (tk_max_age tk) (dr_feature (dets ! j)) (cc_cls (cc ! j)) (cc_conf (cc ! j)))"

lemma newborn_fields:
  "dt_id (newborn cc dets tk k j) = tk_next_idx tk + int k" "dt_state (newborn cc dets tk k j) = Tentative"
  "dt_hits (newborn cc dets tk k j) = 1" "dt_n_init (newborn cc dets tk k j) = tk_n_init tk" "dt_tsu (newborn cc dets tk k j) = 0"
  "(dt_mean (newborn cc dets tk k j), dt_cov (newborn cc dets tk k j)) = mkf_initiate (dr_to_xyah (dets ! j))"
  by (simp_all add: newborn_def new_track_cls_def split: prod.split)

lemma born_tracks:
  "tk_tracks (born cc dets js tk) = tk_tracks tk @ map (\<lambda>(k, j). newborn cc dets tk k j) (enumerate 0 js)"
proof -
  have "tk_next_idx tk = tk_next_idx t0 + int n \<Longrightarrow> tk_n_init tk = tk_n_init t0 \<Longrightarrow> tk_max_age tk = tk_max_age t0 \<Longrightarrow>
     tk_tracks (born cc dets js tk) = tk_tracks tk @ map (\<lambda>(k, j). newborn cc dets t0 k j) (enumerate n js)" for n t0
  proof (induction js arbitrary: tk n)
    case (Cons j js)
    let ?tk = "initiate_track_cls (dets ! j) (cc ! j) tk"
    have e: "tk_tracks ?tk = tk_tracks tk @ [newborn cc dets t0 n j]" "tk_next_idx ?tk = tk_next_idx t0 + int (Suc n)"
      "tk_n_init ?tk = tk_n_init t0" "tk_max_age ?tk = tk_max_age t0"
      using Cons.prems by (simp_all add: initiate_track_cls_def newborn_def split: prod.split)
    have "born cc dets (j # js) tk = born cc dets js ?tk" by (simp add: born_def)
    then show ?case using Cons.IH [OF e(2-4)] e(1) by simp
  qed (simp add: born_def)
  from this [of tk 0] show ?thesis by simp
qed

text \<open>The first frame: every detection starts a track.\<close>

lemma match_fresh:
  "tk_tracks tk = [] \<Longrightarrow> tracker_match ops rs tk = Some \<lparr>md_matches = [], md_utracks = [], md_udets = [0..<length rs]\<rparr>"
  by (simp add: tracker_match_def idx_where_def matching_cascade_def cascade_none min_cost_matching_def Let_def)

lemma first_frame:
  assumes ops: "keeps_rows ops" and tk: "tk_inv d tk" "tk_tracks tk = []" and r: "\<forall>r\<in>set rs. length (dr_feature r) = d"
  shows "\<exists>tk'. tracker_update_cls ops cc rs tk = Some tk' \<and> tk_inv d tk' \<and> tk_tracks tk' = map (\<lambda>k. newborn cc rs tk k k) [0..<length rs]"
proof -
  note m = match_fresh [OF tk(2), of ops rs]
  from update_cls_ok [OF ops tk(1) r, of cc] obtain tk' where tk': "tracker_update_cls ops cc rs tk = Some tk'" "tk_inv d tk'" by blast
  have "enumerate 0 [0..<n] = map (\<lambda>k. (k, k)) [0..<n]" for n :: nat
    by (rule nth_equalityI) (simp_all add: nth_enumerate_eq)
  then have b: "tk_tracks (born cc rs [0..<length rs] tk) = map (\<lambda>k. newborn cc rs tk k k) [0..<length rs]"
    by (simp add: born_tracks tk(2) comp_def)
  have same: "tk\<lparr>tk_tracks := []\<rparr> = tk" using tk(2) by simp
  have "finish_update (born cc rs [0..<length rs] (tk\<lparr>tk_tracks := []\<rparr>)) = Some tk'"
    using tk'(1) m tk(2) by (simp add: update_cls_eq moved_def)
  then have "finish_update (born cc rs [0..<length rs] tk) = Some tk'" unfolding same .
  then have "tk_tracks tk' = map (\<lambda>t. if is_confirmed t then t\<lparr>dt_features := []\<rparr> else t) (filter (\<lambda>t. \<not> is_deleted t) (tk_tracks (born cc rs [0..<length rs] tk)))"
    by (auto simp: finish_update_def Let_def)
  also have "\<dots> = map (\<lambda>k. newborn cc rs tk k k) [0..<length rs]"
    unfolding b by (simp add: filter_map comp_def is_deleted_def is_confirmed_def newborn_fields)
  finally show ?thesis using tk' by blast
qed

text \<open>The second frame: every track finds its box again.\<close>

definition positive_box :: "vec \<Rightarrow> bool" where
  "positive_box b \<longleftrightarrow> length b = 4 \<and> 0 < b ! 2 \<and> 0 < b ! 3"

lemma length_four: "length b = 4 \<Longrightarrow> b = [b ! 0, b ! 1, b ! 2, b ! 3]"
  by (cases b; cases "tl b"; cases "tl (tl b)"; cases "tl (tl (tl b))") auto

lemma iou_positive:
  assumes "positive_box b" "positive_box b'"
  shows "deep_iou b b' = 1 \<longleftrightarrow> b = b'"
proof -
  have e: "b = [b ! 0, b ! 1, b ! 2, b ! 3]" "b' = [b' ! 0, b' ! 1, b' ! 2, b' ! 3]"
    using assms length_four unfolding positive_box_def by blast+
  have p: "0 < b ! 2" "0 < b ! 3" "0 < b' ! 2" "0 < b' ! 3" using assms by (simp_all add: positive_box_def)
  show ?thesis
  proof
    assume "deep_iou b b' = 1"
    then have "deep_iou [b ! 0, b ! 1, b ! 2, b ! 3] [b' ! 0, b' ! 1, b' ! 2, b' ! 3] = 1" using e by simp
    from iou_only_same [OF p this] show "b = b'" using e by metis
  next
    assume "b = b'"
    then show "deep_iou b b' = 1" using iou_same [OF p(1,2), of "b ! 0" "b ! 1"] e(1) by metis
  qed
qed

lemma second_frame:
  assumes ops: "keeps_rows ops" and inv: "tk_inv d tk" and r: "\<forall>r\<in>set rs. length (dr_feature r) = d"
    and ts: "\<forall>t\<in>set (tk_tracks tk). dt_state t = Tentative \<and> dt_hits t = 1 \<and> dt_n_init t = 2 \<and> dt_tsu t = 0"
    and n: "n = length (tk_tracks tk)" and box: "\<forall>r\<in>set rs. positive_box (dr_tlwh r)" "distinct (map dr_tlwh rs)"
    and f: "inj_on f {..<n}" "\<forall>i<n. f i < length rs \<and> to_tlwh (predit (tk_tracks tk ! i)) = dr_tlwh (rs ! f i)"
  shows "\<exists>tk'. tracker_update_cls ops cc rs (tracker_predict tk) = Some tk' \<and> length (tk_tracks tk') = length rs \<and>
     (\<forall>i<n. let t = tk_tracks tk' ! i in dt_id t = dt_id (tk_tracks tk ! i) \<and> dt_state t = Confirmed \<and> dt_hits t = 2 \<and> dt_tsu t = 0 \<and>
        dt_cls t = cc_cls (cc ! f i) \<and> dt_conf t = cc_conf (cc ! f i)) \<and>
     (\<forall>i. n \<le> i \<longrightarrow> i < length rs \<longrightarrow> dt_state (tk_tracks tk' ! i) = Tentative \<and> dt_id (tk_tracks tk' ! i) = tk_next_idx tk + int (i - n))"
proof -
  let ?tk = "tracker_predict tk" and ?k = "length rs"
  let ?ts = "tk_tracks ?tk"
  have pt: "?ts = map predit (tk_tracks tk)" by (simp add: tracker_predict_def)
  have th: "0 \<le> tk_max_iou ?tk" using inv by (simp add: tk_inv_def tracker_predict_def)
  have st: "\<forall>t\<in>set ?ts. dt_state t = Tentative \<and> dt_hits t = 1 \<and> dt_n_init t = 2 \<and> dt_tsu t = 1" using ts by (auto simp: pt)
  have ln: "length ?ts = n" by (simp add: pt n)
  have idx: "idx_where is_confirmed ?ts = []" "idx_where (\<lambda>t. \<not> is_confirmed t) ?ts = [0..<n]"
    using st by (auto simp: idx_where_def is_confirmed_def filter_empty_conv filter_id_conv ln)
  obtain res where res: "min_cost_matching iou_cost (tk_max_iou ?tk) ?ts rs [0..<n] [0..<?k] = Some res" "md_utracks res = []"
    "\<forall>(i, j)\<in>set (md_matches res). i < n \<and> j = f i"
  proof (cases "n = 0")
    case True
    then show ?thesis using that [of "\<lparr>md_matches = [], md_utracks = [], md_udets = [0..<?k]\<rparr>"] by (simp add: min_cost_matching_def)
  next
    case False
    obtain c where c: "iou_cost ?ts rs [0..<n] [0..<?k] = Some c" "is_mat n ?k c" "\<forall>i<n. \<forall>j<?k. 0 \<le> c ! i ! j"
      using iou_cost_ok [of ?ts rs "[0..<n]" "[0..<?k]"] by (auto simp: cost_ok_def)
    have e: "c ! i ! j = 1 - deep_iou (dr_tlwh (rs ! f i)) (dr_tlwh (rs ! j))" if ij: "i < n" "j < ?k" for i j
    proof -
      have "?ts ! i \<in> set ?ts" using ij(1) ln by simp
      then have "\<not> dt_tsu (?ts ! i) > 1" using st by auto
      moreover have "to_tlwh (?ts ! i) = dr_tlwh (rs ! f i)" using f(2) ij(1) n by (simp add: pt)
      ultimately show ?thesis using c(1) ij by (auto simp: iou_cost_def deep_ious_def)
    qed
    have pos: "positive_box (dr_tlwh (rs ! j))" if "j < ?k" for j using box(1) that by simp
    have "c ! i ! j = 0 \<longleftrightarrow> j = f i" if ij: "i < n" "j < ?k" for i j
    proof -
      have fi: "f i < ?k" using f(2) ij(1) by blast
      have "c ! i ! j = 0 \<longleftrightarrow> dr_tlwh (rs ! f i) = dr_tlwh (rs ! j)"
        using e [OF ij] iou_positive [OF pos [OF fi] pos [OF ij(2)]] by auto
      also have "\<dots> \<longleftrightarrow> j = f i" using nth_eq_iff_index_eq [OF box(2), of "f i" j] fi ij(2) by auto
      finally show ?thesis .
    qed
    then show ?thesis using match_exact [where cf = iou_cost and tracks = "?ts" and dets = rs and f = f and n = n and k = ?k, OF c th f(1)] f(2) False that by blast
  qed
  have cas: "matching_cascade cf th n' ?ts rs [] [] = Some \<lparr>md_matches = [], md_utracks = [], md_udets = [0..<?k]\<rparr>" for cf th n'
    by (simp add: matching_cascade_def cascade_none)
  have m: "tracker_match ops rs ?tk = Some res"
    using res(1,2) by (simp add: tracker_match_def idx cas Let_def)
  from update_cls_ok [OF ops tracker_predict_inv [OF inv] r, of cc] m obtain tk' where
    as: "assoc_ok {..<length ?ts} {..<?k} (md_of res)" and tk': "tracker_update_cls ops cc rs ?tk = Some tk'" by auto
  let ?mv = "moved ops cc rs res ?ts" and ?new = "map (\<lambda>(k, j). newborn cc rs (?tk\<lparr>tk_tracks := moved ops cc rs res ?ts\<rparr>) k j) (enumerate 0 (md_udets res))"
  have lm: "length ?mv = n" using moved_nth(1) [OF as] ln by simp
  have mv: "?mv ! i = dt_update_cls (eo_solve ops) (rs ! f i) (cc ! f i) (?ts ! i)" if "i < n" for i
    using moved_nth(2) [OF as, of i ops cc rs] that ln res(2,3) by auto
  have fields: "dt_id (?mv ! i) = dt_id (tk_tracks tk ! i) \<and> dt_state (?mv ! i) = Confirmed \<and> dt_hits (?mv ! i) = 2 \<and> dt_tsu (?mv ! i) = 0 \<and>
      dt_cls (?mv ! i) = cc_cls (cc ! f i) \<and> dt_conf (?mv ! i) = cc_conf (cc ! f i)" if i: "i < n" for i
  proof -
    have "tk_tracks tk ! i \<in> set (tk_tracks tk)" using i n by simp
    then show ?thesis using ts i n mv [OF i] by (simp add: pt dt_update_cls_def)
  qed
  have "length (md_matches res) = n"
    using as res(2) ln by (auto simp: assoc_ok_def md_of_def dest: distinct_card)
  moreover have "length (md_matches res) + length (md_udets res) = ?k"
  proof -
    have "distinct (map snd (md_matches res) @ md_udets res)" "set (map snd (md_matches res) @ md_udets res) = {..<?k}"
      using as by (simp_all add: assoc_ok_def md_of_def)
    then have "length (map snd (md_matches res) @ md_udets res) = ?k" by (metis card_lessThan distinct_card)
    then show ?thesis by simp
  qed
  ultimately have len: "n + length (md_udets res) = ?k" by simp
  have "finish_update (born cc rs (md_udets res) (?tk\<lparr>tk_tracks := ?mv\<rparr>)) = Some tk'"
    using tk' m by (simp add: update_cls_eq)
  then have "tk_tracks tk' = map (\<lambda>t. if is_confirmed t then t\<lparr>dt_features := []\<rparr> else t) (filter (\<lambda>t. \<not> is_deleted t) (?mv @ ?new))"
    by (auto simp: finish_update_def Let_def born_tracks)
  moreover have "\<forall>t\<in>set ?mv. \<not> is_deleted t" using fields lm by (auto simp: in_set_conv_nth is_deleted_def)
  moreover have "\<forall>t\<in>set ?new. \<not> is_deleted t" by (auto simp: is_deleted_def newborn_fields)
  ultimately have t': "tk_tracks tk' = map (\<lambda>t. if is_confirmed t then t\<lparr>dt_features := []\<rparr> else t) (?mv @ ?new)"
    by (simp add: filter_id_conv)
  have "let t = tk_tracks tk' ! i in dt_id t = dt_id (tk_tracks tk ! i) \<and> dt_state t = Confirmed \<and> dt_hits t = 2 \<and> dt_tsu t = 0 \<and>
        dt_cls t = cc_cls (cc ! f i) \<and> dt_conf t = cc_conf (cc ! f i)" if "i < n" for i
    using fields [OF that] that lm by (simp add: t' nth_append Let_def)
  moreover have "dt_state (tk_tracks tk' ! i) = Tentative \<and> dt_id (tk_tracks tk' ! i) = tk_next_idx tk + int (i - n)"
    if i: "n \<le> i" "i < ?k" for i
  proof -
    have "tk_tracks tk' ! i = (if is_confirmed (?new ! (i - n)) then (?new ! (i - n))\<lparr>dt_features := []\<rparr> else ?new ! (i - n))"
      using i lm len by (simp add: t' nth_append)
    moreover have "?new ! (i - n) = newborn cc rs (?tk\<lparr>tk_tracks := ?mv\<rparr>) (i - n) (md_udets res ! (i - n))"
      using i len by (simp add: nth_enumerate_eq)
    ultimately show ?thesis by (simp add: newborn_fields is_confirmed_def tracker_predict_def)
  qed
  moreover have "length (tk_tracks tk') = ?k" using lm len by (simp add: t')
  ultimately show ?thesis using tk' by blast
qed

text \<open>
  C30.  Objects that are detected at the same places in the first two frames of a new tracker are
  confirmed in the second one, under the ids of their first sightings (with DeepSort's defaults): any
  number of them, with pairwise different boxes, in any order, and with other objects appearing
  in the second frame, which start tentative tracks of their own.  As in \<open>DeepSort::sort\<close>, each frame comes with one
  class and confidence per detection.  Every confirmed track takes the class and the confidence of the
  detection that has its box.
\<close>

theorem deep_confirms_repeated:
  assumes "keeps_rows ops" "\<forall>r\<in>set rs \<union> set rs'. positive_box (dr_tlwh r) \<and> length (dr_feature r) = d"
    and "distinct (map dr_tlwh rs)" "distinct (map dr_tlwh rs')" "dr_tlwh ` set rs \<subseteq> dr_tlwh ` set rs'"
    and "length cc = length rs" "length cc' = length rs'"
  shows "\<exists>tk. deep_run ops [(cc, rs), (cc', rs')] (new_tracker (1/2) 100 (7/10) 30 2) = Some tk \<and>
     length (tk_tracks tk) = length rs' \<and> map dt_id (tk_tracks tk) = [1..int (length rs')] \<and>
     (\<forall>i<length rs. let t = tk_tracks tk ! i in dt_state t = Confirmed \<and> dt_hits t = 2 \<and> dt_tsu t = 0 \<and>
        (\<exists>j<length rs'. dr_tlwh (rs' ! j) = dr_tlwh (rs ! i) \<and> dt_cls t = cc_cls (cc' ! j) \<and> dt_conf t = cc_conf (cc' ! j))) \<and>
     (\<forall>i. length rs \<le> i \<longrightarrow> i < length rs' \<longrightarrow> dt_state (tk_tracks tk ! i) = Tentative)"
proof -
  let ?tk = "new_tracker (1/2) 100 (7/10) 30 2" and ?n = "length rs"
  have p: "tracker_predict ?tk = ?tk" by (simp add: tracker_predict_def new_tracker_def)
  have i: "tk_inv d ?tk" by (rule new_tracker_inv) simp_all
  have e: "tk_tracks ?tk = []" "tk_next_idx ?tk = 1" "tk_n_init ?tk = 2" by (simp_all add: new_tracker_def)
  have r: "\<forall>r\<in>set rs. length (dr_feature r) = d" "\<forall>r\<in>set rs'. length (dr_feature r) = d" "\<forall>r\<in>set rs'. positive_box (dr_tlwh r)" using assms(2) by auto
  from first_frame [OF assms(1) i e(1) r(1), of cc] obtain tk1 where
    f: "tracker_update_cls ops cc rs ?tk = Some tk1" "tk_inv d tk1" "tk_tracks tk1 = map (\<lambda>k. newborn cc rs ?tk k k) [0..<?n]" by blast
  have nx: "tk_next_idx tk1 = 1 + int ?n"
  proof -
    have "tracker_match ops rs ?tk = Some \<lparr>md_matches = [], md_utracks = [], md_udets = [0..<?n]\<rparr>" by (rule match_fresh [OF e(1)])
    then show ?thesis using update_cls_ok [OF assms(1) i r(1), of cc] f(1) e(2) by auto
  qed
  have "\<forall>i<?n. \<exists>j<length rs'. dr_tlwh (rs' ! j) = dr_tlwh (rs ! i)"
  proof (intro allI impI)
    fix i assume "i < ?n"
    then have "dr_tlwh (rs ! i) \<in> dr_tlwh ` set rs'" using assms(5) by auto
    then show "\<exists>j<length rs'. dr_tlwh (rs' ! j) = dr_tlwh (rs ! i)" by (auto simp: in_set_conv_nth)
  qed
  then obtain g where g: "\<forall>i<?n. g i < length rs' \<and> dr_tlwh (rs' ! g i) = dr_tlwh (rs ! i)" by metis
  have inj: "inj_on g {..<?n}"
  proof (rule inj_onI)
    fix i k assume ik: "i \<in> {..<?n}" "k \<in> {..<?n}" "g i = g k"
    then have "map dr_tlwh rs ! i = map dr_tlwh rs ! k" using g by (metis lessThan_iff nth_map)
    then show "i = k" using nth_eq_iff_index_eq [OF assms(3)] ik by simp
  qed
  have box: "to_tlwh (predit (tk_tracks tk1 ! i)) = dr_tlwh (rs' ! g i)" if "i < ?n" for i
  proof -
    have "positive_box (dr_tlwh (rs ! i))" using assms(2) that by simp
    then have b: "dr_tlwh (rs ! i) = [dr_tlwh (rs ! i) ! 0, dr_tlwh (rs ! i) ! 1, dr_tlwh (rs ! i) ! 2, dr_tlwh (rs ! i) ! 3]" "dr_tlwh (rs ! i) ! 3 \<noteq> 0"
      using length_four by (auto simp: positive_box_def)
    have "to_tlwh (predit (newborn cc rs ?tk i i)) = dr_tlwh (rs ! i)" using predicted_box [OF b newborn_fields(6)] b(1) by metis
    then show ?thesis using g that by (simp add: f(3))
  qed
  have ts: "\<forall>t\<in>set (tk_tracks tk1). dt_state t = Tentative \<and> dt_hits t = 1 \<and> dt_n_init t = 2 \<and> dt_tsu t = 0"
    by (auto simp: f(3) newborn_fields e(3))
  have n: "?n = length (tk_tracks tk1)" by (simp add: f(3))
  have gb: "\<forall>i<?n. g i < length rs' \<and> to_tlwh (predit (tk_tracks tk1 ! i)) = dr_tlwh (rs' ! g i)" using g box by blast
  from second_frame [OF assms(1) f(2) r(2) ts n r(3) assms(4) inj gb, of cc'] obtain tk2 where
    s: "tracker_update_cls ops cc' rs' (tracker_predict tk1) = Some tk2" "length (tk_tracks tk2) = length rs'"
    and old: "\<forall>i<?n. let t = tk_tracks tk2 ! i in dt_id t = dt_id (tk_tracks tk1 ! i) \<and> dt_state t = Confirmed \<and> dt_hits t = 2 \<and> dt_tsu t = 0 \<and>
        dt_cls t = cc_cls (cc' ! g i) \<and> dt_conf t = cc_conf (cc' ! g i)"
    and new: "\<forall>i. ?n \<le> i \<longrightarrow> i < length rs' \<longrightarrow> dt_state (tk_tracks tk2 ! i) = Tentative \<and> dt_id (tk_tracks tk2 ! i) = tk_next_idx tk1 + int (i - ?n)"
    by blast
  have "map dt_id (tk_tracks tk2) = [1..int (length rs')]"
  proof (rule nth_equalityI)
    show "length (map dt_id (tk_tracks tk2)) = length [1..int (length rs')]" by (simp add: s(2))
    fix i assume "i < length (map dt_id (tk_tracks tk2))"
    then have i: "i < length rs'" by (simp add: s(2))
    show "map dt_id (tk_tracks tk2) ! i = [1..int (length rs')] ! i"
    proof (cases "i < ?n")
      case True
      then show ?thesis using old i s(2) by (auto simp: Let_def f(3) newborn_fields e(2) nth_upto)
    next
      case False
      then show ?thesis using new i s(2) by (simp add: nx nth_upto)
    qed
  qed
  moreover have "deep_run ops [(cc, rs), (cc', rs')] ?tk = Some tk2" using f(1) s(1) by (simp add: p)
  moreover have "let t = tk_tracks tk2 ! i in dt_state t = Confirmed \<and> dt_hits t = 2 \<and> dt_tsu t = 0 \<and>
        (\<exists>j<length rs'. dr_tlwh (rs' ! j) = dr_tlwh (rs ! i) \<and> dt_cls t = cc_cls (cc' ! j) \<and> dt_conf t = cc_conf (cc' ! j))" if "i < ?n" for i
    using old g that unfolding Let_def by blast
  ultimately show ?thesis using s(2) new by blast
qed

text \<open>Two objects, the second frame in the other order and with a third one.\<close>

definition seen_at :: "real \<Rightarrow> vec \<Rightarrow> detection_row" where
  "seen_at x f = \<lparr>dr_tlwh = [x, 5, 4, 8], dr_confidence = 1, dr_feature = f\<rparr>"

definition of_class :: "int \<Rightarrow> clsconf" where
  "of_class c = \<lparr>cc_cls = c, cc_conf = 1\<rparr>"

theorem deep_confirms_repeated_witness:
  "\<exists>tk. deep_run plain_ops [([of_class 0, of_class 7], [seen_at 3 [3, 4], seen_at 5 [1, 0]]),
       ([of_class 7, of_class 2, of_class 0], [seen_at 5 [1, 1], seen_at 90 [0, 1], seen_at 3 [1, 0]])]
      (new_tracker (1/2) 100 (7/10) 30 2) = Some tk \<and> map dt_id (tk_tracks tk) = [1, 2, 3] \<and>
     map dt_state (take 2 (tk_tracks tk)) = [Confirmed, Confirmed] \<and> map dt_cls (take 2 (tk_tracks tk)) = [0, 7] \<and> dt_state (tk_tracks tk ! 2) = Tentative"
proof -
  let ?rs = "[seen_at 3 [3, 4], seen_at 5 [1, 0]]" and ?rs' = "[seen_at 5 [1, 1], seen_at 90 [0, 1], seen_at 3 [1, 0]]"
  have "\<forall>r\<in>set ?rs \<union> set ?rs'. positive_box (dr_tlwh r) \<and> length (dr_feature r) = 2" by (simp add: positive_box_def seen_at_def)
  moreover have "distinct (map dr_tlwh ?rs)" "distinct (map dr_tlwh ?rs')" "dr_tlwh ` set ?rs \<subseteq> dr_tlwh ` set ?rs'" by (simp_all add: seen_at_def)
  ultimately obtain tk where tk: "deep_run plain_ops [([of_class 0, of_class 7], ?rs), ([of_class 7, of_class 2, of_class 0], ?rs')]
      (new_tracker (1/2) 100 (7/10) 30 2) = Some tk" "length (tk_tracks tk) = 3" "map dt_id (tk_tracks tk) = [1..3]"
    and c: "\<forall>i<2. let t = tk_tracks tk ! i in dt_state t = Confirmed \<and> dt_hits t = 2 \<and> dt_tsu t = 0 \<and>
        (\<exists>j<3. dr_tlwh (?rs' ! j) = dr_tlwh (?rs ! i) \<and> dt_cls t = cc_cls ([of_class 7, of_class 2, of_class 0] ! j) \<and> dt_conf t = cc_conf ([of_class 7, of_class 2, of_class 0] ! j))"
    and n: "\<forall>i. 2 \<le> i \<longrightarrow> i < 3 \<longrightarrow> dt_state (tk_tracks tk ! i) = Tentative"
    using deep_confirms_repeated [OF plain_keeps_rows, of ?rs ?rs' 2 "[of_class 0, of_class 7]" "[of_class 7, of_class 2, of_class 0]"]
    by (auto simp: numeral_eq_Suc)
  from tk(2) obtain t u v where t: "tk_tracks tk = [t, u, v]" by (auto simp: numeral_eq_Suc length_Suc_conv)
  have "[1..3] = [1, 2, 3 :: int]" by (simp add: upto.simps)
  then show ?thesis
    using tk c [rule_format, of 0] c [rule_format, of 1] n [rule_format, of 2]
    by (auto simp: t seen_at_def of_class_def Let_def nth_Cons' split: if_splits)
qed

end
