(* ===== verification/MatrixHeap.thy ===== *)
theory MatrixHeap imports Munkres begin

text \<open>
  \<open>src/inc/deepsort/matrix.h\<close> with its memory: a matrix is a pointer to a table of pointers to rows,
  allocated and released by hand.  The heap maps addresses to blocks; an entry that has not been
  written is \<^const>\<open>None\<close> in its block, and reading it, an access outside a block, a second \<open>delete\<close>
  or a failed assertion makes the whole operation \<^const>\<open>None\<close>.  The solver's model \<^theory_text>\<open>Munkres\<close> works
  on matrices as values; the theory relates the two.
\<close>

section \<open>The heap\<close>

datatype block = Row "real option list" | Table "nat option list"

record mheap =
  hp_blocks :: "nat \<rightharpoonup> block"
  hp_next :: nat

definition empty_heap :: mheap where
  "empty_heap = \<lparr>hp_blocks = Map.empty, hp_next = 0\<rparr>"

definition put_block :: "nat \<Rightarrow> block \<Rightarrow> mheap \<Rightarrow> mheap" where
  "put_block a b h = h\<lparr>hp_blocks := (hp_blocks h)(a \<mapsto> b)\<rparr>"

definition new_block :: "block \<Rightarrow> mheap \<Rightarrow> nat \<times> mheap" where
  "new_block b h = (hp_next h, \<lparr>hp_blocks = (hp_blocks h)(hp_next h \<mapsto> b), hp_next = hp_next h + 1\<rparr>)"

definition delete_block :: "nat \<Rightarrow> mheap \<Rightarrow> mheap option" where
  "delete_block a h = (if hp_blocks h a = None then None else Some (h\<lparr>hp_blocks := (hp_blocks h)(a := None)\<rparr>))"

text \<open>\<open>m_matrix[i]\<close> as a value and as a target, \<open>m_matrix[i][j]\<close> likewise.\<close>

definition row_addr :: "nat \<Rightarrow> nat \<Rightarrow> mheap \<Rightarrow> nat option" where
  "row_addr p i h = (case hp_blocks h p of Some (Table as) \<Rightarrow> if i < length as then as ! i else None | _ \<Rightarrow> None)"

definition set_row_addr :: "nat \<Rightarrow> nat \<Rightarrow> nat \<Rightarrow> mheap \<Rightarrow> mheap option" where
  "set_row_addr p i a h =
     (case hp_blocks h p of Some (Table as) \<Rightarrow> if i < length as then Some (put_block p (Table (as[i := Some a])) h) else None | _ \<Rightarrow> None)"

definition read_entry :: "nat \<Rightarrow> nat \<Rightarrow> nat \<Rightarrow> mheap \<Rightarrow> real option" where
  "read_entry p i j h = Option.bind (row_addr p i h) (\<lambda>a.
     case hp_blocks h a of Some (Row xs) \<Rightarrow> if j < length xs then xs ! j else None | _ \<Rightarrow> None)"

definition write_entry :: "nat \<Rightarrow> nat \<Rightarrow> nat \<Rightarrow> real \<Rightarrow> mheap \<Rightarrow> mheap option" where
  "write_entry p i j v h = Option.bind (row_addr p i h) (\<lambda>a.
     case hp_blocks h a of Some (Row xs) \<Rightarrow> if j < length xs then Some (put_block a (Row (xs[j := Some v])) h) else None | _ \<Rightarrow> None)"

text \<open>A loop whose turns may fail.\<close>

fun mfold :: "('x \<Rightarrow> 's \<Rightarrow> 's option) \<Rightarrow> 'x list \<Rightarrow> 's \<Rightarrow> 's option" where
  "mfold f [] s = Some s"
| "mfold f (x # xs) s = Option.bind (f x s) (mfold f xs)"

section \<open>The class\<close>

record matrix_obj =
  mo_ptr :: "nat option"
  mo_rows :: nat
  mo_cols :: nat

definition null_matrix :: matrix_obj where
  "null_matrix = \<lparr>mo_ptr = None, mo_rows = 0, mo_cols = 0\<rparr>"

definition mo_clear :: "matrix_obj \<Rightarrow> mheap \<Rightarrow> mheap option" where
  "mo_clear m h =
     (case mo_ptr m of None \<Rightarrow> None
      | Some p \<Rightarrow> mfold (\<lambda>i. mfold (\<lambda>j. write_entry p i j 0) [0..<mo_cols m]) [0..<mo_rows m] h)"

definition alloc_row :: "nat \<Rightarrow> nat \<Rightarrow> nat \<Rightarrow> mheap \<Rightarrow> mheap option" where
  "alloc_row p columns i h = (let (a, h) = new_block (Row (replicate columns None)) h in set_row_addr p i a h)"

text \<open>\<open>delete [] m_matrix[i]\<close> for the first \<open>n\<close> rows.\<close>

definition free_rows :: "nat \<Rightarrow> nat \<Rightarrow> mheap \<Rightarrow> mheap option" where
  "free_rows p n = mfold (\<lambda>i h. Option.bind (row_addr p i h) (\<lambda>a. delete_block a h)) [0..<n]"

definition copy_entries :: "nat \<Rightarrow> nat \<Rightarrow> nat \<Rightarrow> nat \<Rightarrow> mheap \<Rightarrow> mheap option" where
  "copy_entries p q rows columns =
     mfold (\<lambda>i. mfold (\<lambda>j h. Option.bind (read_entry q i j h) (\<lambda>v. write_entry p i j v h)) [0..<columns]) [0..<rows]"

definition mo_resize :: "nat \<Rightarrow> nat \<Rightarrow> real \<Rightarrow> matrix_obj \<Rightarrow> mheap \<Rightarrow> (matrix_obj \<times> mheap) option" where
  "mo_resize rows columns default_value m h =
     (if \<not> (rows > 0 \<and> columns > 0) then None
      else
        (let (p, h) = new_block (Table (replicate rows None)) h; m' = \<lparr>mo_ptr = Some p, mo_rows = rows, mo_cols = columns\<rparr> in
         case mo_ptr m of
           None \<Rightarrow> Option.bind (mfold (alloc_row p columns) [0..<rows] h) (\<lambda>h. map_option (Pair m') (mo_clear m' h))
         | Some q \<Rightarrow>
             Option.bind (mfold (\<lambda>i h. Option.bind (alloc_row p columns i h) (mfold (\<lambda>j. write_entry p i j default_value) [0..<columns])) [0..<rows] h) (\<lambda>h.
             Option.bind (copy_entries p q (min rows (mo_rows m)) (min columns (mo_cols m)) h) (\<lambda>h.
             Option.bind (free_rows q (mo_rows m) h) (\<lambda>h. map_option (Pair m') (delete_block q h))))))"

definition mo_new :: "nat \<Rightarrow> nat \<Rightarrow> mheap \<Rightarrow> (matrix_obj \<times> mheap) option" where
  "mo_new rows columns = mo_resize rows columns 0 null_matrix"

text \<open>The constructor from an initialiser list: \<open>resize\<close> is skipped when there are no columns.\<close>

definition mo_of_list :: "real list list \<Rightarrow> mheap \<Rightarrow> (matrix_obj \<times> mheap) option" where
  "mo_of_list init h =
     (let rows = length init; columns = (if rows = 0 then 0 else length (hd init)) in
      Option.bind (if columns > 0 then mo_resize rows columns 0 null_matrix h else Some (\<lparr>mo_ptr = None, mo_rows = rows, mo_cols = columns\<rparr>, h)) (\<lambda>(m, h).
        map_option (Pair m) (mfold (\<lambda>i h.
          if length (init ! i) \<noteq> mo_cols m then None
          else mfold (\<lambda>j h. Option.bind (mo_ptr m) (\<lambda>p. write_entry p i j (init ! i ! j) h)) [0..<length (init ! i)] h) [0..<rows] h)))"

definition mo_copy :: "matrix_obj \<Rightarrow> mheap \<Rightarrow> (matrix_obj \<times> mheap) option" where
  "mo_copy other h =
     (case mo_ptr other of None \<Rightarrow> Some (null_matrix, h)
      | Some q \<Rightarrow> Option.bind (mo_resize (mo_rows other) (mo_cols other) 0 null_matrix h) (\<lambda>(m, h).
          map_option (Pair m) (copy_entries (the (mo_ptr m)) q (mo_rows m) (mo_cols m) h)))"

text \<open>
  \<open>operator=\<close>; with \<open>self\<close> the two sides are one object, whose table \<open>resize\<close> has replaced.  The
  branch of an empty right side counts the rows to release by \<open>m_columns\<close>.
\<close>

definition mo_assign :: "bool \<Rightarrow> matrix_obj \<Rightarrow> matrix_obj \<Rightarrow> mheap \<Rightarrow> (matrix_obj \<times> mheap) option" where
  "mo_assign self m other h =
     (case mo_ptr other of
        Some q \<Rightarrow> Option.bind (mo_resize (mo_rows other) (mo_cols other) 0 m h) (\<lambda>(m, h).
          map_option (Pair m) (copy_entries (the (mo_ptr m)) (if self then the (mo_ptr m) else q) (mo_rows m) (mo_cols m) h))
      | None \<Rightarrow>
          map_option (Pair null_matrix)
            (case mo_ptr m of
               None \<Rightarrow> if mo_cols m = 0 then Some h else None
             | Some p \<Rightarrow> Option.bind (free_rows p (mo_cols m) h) (delete_block p)))"

definition mo_destroy :: "matrix_obj \<Rightarrow> mheap \<Rightarrow> mheap option" where
  "mo_destroy m h =
     (case mo_ptr m of None \<Rightarrow> Some h | Some p \<Rightarrow> Option.bind (free_rows p (mo_rows m) h) (delete_block p))"

definition mo_get :: "matrix_obj \<Rightarrow> nat \<Rightarrow> nat \<Rightarrow> mheap \<Rightarrow> real option" where
  "mo_get m x y h = (if x < mo_rows m \<and> y < mo_cols m then Option.bind (mo_ptr m) (\<lambda>p. read_entry p x y h) else None)"

definition mo_put :: "matrix_obj \<Rightarrow> nat \<Rightarrow> nat \<Rightarrow> real \<Rightarrow> mheap \<Rightarrow> mheap option" where
  "mo_put m x y v h = (if x < mo_rows m \<and> y < mo_cols m then Option.bind (mo_ptr m) (\<lambda>p. write_entry p x y v h) else None)"

text \<open>\<open>mmin\<close> and \<open>mmax\<close>, which differ in the comparison.\<close>

definition mo_extreme :: "(real \<Rightarrow> real \<Rightarrow> real) \<Rightarrow> matrix_obj \<Rightarrow> mheap \<Rightarrow> real option" where
  "mo_extreme f m h =
     (case mo_ptr m of
        Some p \<Rightarrow>
          (if mo_rows m > 0 \<and> mo_cols m > 0 then
             Option.bind (read_entry p 0 0 h) (mfold (\<lambda>i. mfold (\<lambda>j acc. map_option (f acc) (read_entry p i j h)) [0..<mo_cols m]) [0..<mo_rows m])
           else None)
      | None \<Rightarrow> None)"

definition mo_minsize :: "matrix_obj \<Rightarrow> nat" where
  "mo_minsize m = (if mo_rows m < mo_cols m then mo_rows m else mo_cols m)"

section \<open>Loops\<close>

lemma mfold_inv:
  assumes "a \<le> b" "I a s" "\<And>k s. a \<le> k \<Longrightarrow> k < b \<Longrightarrow> I k s \<Longrightarrow> \<exists>s'. f k s = Some s' \<and> I (Suc k) s'"
  shows "\<exists>s'. mfold f [a..<b] s = Some s' \<and> I b s'"
  using assms
proof (induction "b - a" arbitrary: a s)
  case 0
  then show ?case by auto
next
  case (Suc n)
  then have ab: "a < b" by simp
  then obtain s1 where s1: "f a s = Some s1" "I (Suc a) s1" using Suc.prems by blast
  have "\<exists>s'. mfold f [Suc a..<b] s1 = Some s' \<and> I b s'"
    using Suc.hyps(1) [of "Suc a" s1] Suc.hyps(2) Suc.prems(3) ab s1(2) by simp
  then show ?case using s1(1) ab by (simp add: upt_conv_Cons)
qed

lemmas mfold_inv0 = mfold_inv [of 0, simplified]

text \<open>The rows of a table: their addresses and contents; a heap that differs at some addresses only.\<close>

definition rows_at :: "mheap \<Rightarrow> nat \<Rightarrow> nat list \<Rightarrow> real option list list \<Rightarrow> bool" where
  "rows_at h p as X \<longleftrightarrow> hp_blocks h p = Some (Table (map Some as)) \<and> distinct (p # as) \<and> length X = length as \<and>
     (\<forall>i<length as. hp_blocks h (as ! i) = Some (Row (X ! i)))"

definition differs_at :: "nat set \<Rightarrow> mheap \<Rightarrow> mheap \<Rightarrow> bool" where
  "differs_at A h h' \<longleftrightarrow> hp_next h' = hp_next h \<and> dom (hp_blocks h') = dom (hp_blocks h) \<and> (\<forall>a. a \<notin> A \<longrightarrow> hp_blocks h' a = hp_blocks h a)"

lemma rows_at_addr: "rows_at h p as X \<Longrightarrow> i < length as \<Longrightarrow> row_addr p i h = Some (as ! i)"
  by (simp add: rows_at_def row_addr_def)

lemma rows_at_read: "rows_at h p as X \<Longrightarrow> i < length as \<Longrightarrow> read_entry p i j h = (if j < length (X ! i) then X ! i ! j else None)"
  using rows_at_addr [of h p as X i] by (simp add: read_entry_def rows_at_def)

lemma rows_at_write:
  "rows_at h p as X \<Longrightarrow> i < length as \<Longrightarrow> j < length (X ! i) \<Longrightarrow>
     write_entry p i j v h = Some (put_block (as ! i) (Row ((X ! i)[j := Some v])) h) \<and>
     rows_at (put_block (as ! i) (Row ((X ! i)[j := Some v])) h) p as (X[i := (X ! i)[j := Some v]]) \<and>
     differs_at (set as) h (put_block (as ! i) (Row ((X ! i)[j := Some v])) h)"
  using rows_at_addr [of h p as X i]
  by (auto simp: write_entry_def rows_at_def put_block_def differs_at_def nth_list_update nth_eq_iff_index_eq)

lemma differs_refl [simp]: "differs_at A h h"
  by (simp add: differs_at_def)

lemma differs_trans: "differs_at A h h1 \<Longrightarrow> differs_at A h1 h2 \<Longrightarrow> differs_at A h h2"
  by (simp add: differs_at_def)

text \<open>Writing a row from the left, and the rows one after the other.\<close>

definition filled :: "(nat \<Rightarrow> real) \<Rightarrow> nat \<Rightarrow> real option list \<Rightarrow> real option list" where
  "filled w k xs = map (Some \<circ> w) [0..<k] @ drop k xs"

lemma filled_simps [simp]: "filled w 0 xs = xs" "k \<le> length xs \<Longrightarrow> length (filled w k xs) = length xs"
  "j < k \<Longrightarrow> filled w k xs ! j = Some (w j)" "k \<le> j \<Longrightarrow> k \<le> length xs \<Longrightarrow> filled w k xs ! j = xs ! j"
  by (auto simp: filled_def nth_append)

lemma filled_Suc: "k < length xs \<Longrightarrow> (filled w k xs)[k := Some (w k)] = filled w (Suc k) xs"
proof (rule nth_equalityI)
  fix i
  assume k: "k < length xs" and i: "i < length ((filled w k xs)[k := Some (w k)])"
  consider "i < k" | "i = k" | "k < i" by linarith
  then show "(filled w k xs)[k := Some (w k)] ! i = filled w (Suc k) xs ! i"
    using k i by cases simp_all
qed simp

lemma write_row:
  assumes "rows_at h p as X" "i < length as" "n \<le> length (X ! i)"
    and "\<And>j h'. j < n \<Longrightarrow> differs_at (set as) h h' \<Longrightarrow> rows_at h' p as (X[i := filled w j (X ! i)]) \<Longrightarrow> g j h' = Some (w j)"
  shows "\<exists>h'. mfold (\<lambda>j h. Option.bind (g j h) (\<lambda>v. write_entry p i j v h)) [0..<n] h = Some h' \<and>
     (rows_at h' p as (X[i := filled w n (X ! i)]) \<and> differs_at (set as) h h')"
proof (rule mfold_inv0)
  show "rows_at h p as (X[i := filled w 0 (X ! i)]) \<and> differs_at (set as) h h" using assms(1) by simp
next
  fix k h'
  assume k: "k < n" and I: "rows_at h' p as (X[i := filled w k (X ! i)]) \<and> differs_at (set as) h h'"
  have l: "length X = length as" using assms(1) by (simp add: rows_at_def)
  then have e: "X[i := filled w k (X ! i)] ! i = filled w k (X ! i)" using assms(2) by simp
  have kx: "k < length (filled w k (X ! i))" using k assms(3) by simp
  note w = rows_at_write [OF conjunct1 [OF I] assms(2), of k "w k", unfolded e, OF kx]
  have u: "(X[i := filled w k (X ! i)])[i := (filled w k (X ! i))[k := Some (w k)]] = X[i := filled w (Suc k) (X ! i)]"
    using filled_Suc [of k "X ! i" w] k assms(3) by simp
  have "g k h' = Some (w k)" using assms(4) [OF k] I by blast
  then show "\<exists>h''. Option.bind (g k h') (\<lambda>v. write_entry p i k v h') = Some h'' \<and>
      (rows_at h'' p as (X[i := filled w (Suc k) (X ! i)]) \<and> differs_at (set as) h h'')"
    using w u I differs_trans by (auto simp only: bind.simps)
qed

definition filled_rows :: "(nat \<Rightarrow> nat \<Rightarrow> real) \<Rightarrow> nat \<Rightarrow> nat \<Rightarrow> real option list list \<Rightarrow> real option list list" where
  "filled_rows w k n X = map (\<lambda>i. if i < k then filled (w i) n (X ! i) else X ! i) [0..<length X]"

lemma filled_rows_simps [simp]: "length (filled_rows w k n X) = length X" "filled_rows w 0 n X = X"
  "i < length X \<Longrightarrow> filled_rows w k n X ! i = (if i < k then filled (w i) n (X ! i) else X ! i)"
  by (simp_all add: filled_rows_def map_nth)

lemma filled_rows_Suc: "k < length X \<Longrightarrow> (filled_rows w k n X)[k := filled (w k) n (X ! k)] = filled_rows w (Suc k) n X"
  by (rule nth_equalityI) (auto simp: nth_list_update less_Suc_eq)

lemma write_rows:
  assumes "rows_at h p as X" "r \<le> length as" "\<And>i. i < r \<Longrightarrow> n \<le> length (X ! i)"
    and "\<And>i j h'. i < r \<Longrightarrow> j < n \<Longrightarrow> differs_at (set as) h h' \<Longrightarrow>
       rows_at h' p as ((filled_rows w i n X)[i := filled (w i) j (X ! i)]) \<Longrightarrow> g i j h' = Some (w i j)"
  shows "\<exists>h'. mfold (\<lambda>i. mfold (\<lambda>j h. Option.bind (g i j h) (\<lambda>v. write_entry p i j v h)) [0..<n]) [0..<r] h = Some h' \<and>
     (rows_at h' p as (filled_rows w r n X) \<and> differs_at (set as) h h')"
proof (rule mfold_inv0)
  show "rows_at h p as (filled_rows w 0 n X) \<and> differs_at (set as) h h" using assms(1) by simp
next
  fix k h'
  assume k: "k < r" and I: "rows_at h' p as (filled_rows w k n X) \<and> differs_at (set as) h h'"
  have l: "length X = length as" using assms(1) by (simp add: rows_at_def)
  have e: "filled_rows w k n X ! k = X ! k" using k assms(2) l by simp
  have "\<exists>h''. mfold (\<lambda>j h. Option.bind (g k j h) (\<lambda>v. write_entry p k j v h)) [0..<n] h' = Some h'' \<and>
      (rows_at h'' p as ((filled_rows w k n X)[k := filled (w k) n (filled_rows w k n X ! k)]) \<and> differs_at (set as) h' h'')"
  proof (rule write_row)
    show "rows_at h' p as (filled_rows w k n X)" using I by blast
    show "k < length as" using k assms(2) by simp
    show "n \<le> length (filled_rows w k n X ! k)" unfolding e using k by (rule assms(3))
    show "g k j h'' = Some (w k j)" if "j < n" "differs_at (set as) h' h''"
      "rows_at h'' p as ((filled_rows w k n X)[k := filled (w k) j (filled_rows w k n X ! k)])" for j h''
      using assms(4) [OF k that(1)] that(2,3) I differs_trans unfolding e by blast
  qed
  moreover have "(filled_rows w k n X)[k := filled (w k) n (X ! k)] = filled_rows w (Suc k) n X"
    using k assms(2) l by (intro filled_rows_Suc) simp
  ultimately show "\<exists>h''. mfold (\<lambda>j h. Option.bind (g k j h) (\<lambda>v. write_entry p k j v h)) [0..<n] h' = Some h'' \<and>
      (rows_at h'' p as (filled_rows w (Suc k) n X) \<and> differs_at (set as) h h'')"
    using I differs_trans unfolding e by metis
qed

text \<open>Releasing rows.\<close>

lemma free_rows_ok:
  assumes "rows_at h p as X" "r \<le> length as"
  shows "\<exists>h'. free_rows p r h = Some h' \<and> hp_next h' = hp_next h \<and> hp_blocks h' = hp_blocks h |` (- set (take r as))"
  unfolding free_rows_def
proof (rule mfold_inv0)
  show "hp_next h = hp_next h \<and> hp_blocks h = hp_blocks h |` (- set (take 0 as))" by (simp add: restrict_map_def)
next
  fix k and h' :: mheap
  assume k: "k < r" and I: "hp_next h' = hp_next h \<and> hp_blocks h' = hp_blocks h |` (- set (take k as))"
  have d: "distinct (p # as)" and b: "hp_blocks h p = Some (Table (map Some as))" "hp_blocks h (as ! k) = Some (Row (X ! k))"
    using assms k by (simp_all add: rows_at_def)
  have "p \<notin> set (take k as)" using d by (auto dest: in_set_takeD)
  then have a: "row_addr p k h' = Some (as ! k)" using I b(1) k assms(2) by (simp add: row_addr_def)
  have nk: "as ! k \<notin> set (take k as)" using d k assms(2) by (auto simp: in_set_conv_nth nth_eq_iff_index_eq)
  then have "hp_blocks h' (as ! k) \<noteq> None" using I b(2) by simp
  moreover have "take (Suc k) as = take k as @ [as ! k]" using k assms(2) by (simp add: take_Suc_conv_app_nth)
  then have "(hp_blocks h')(as ! k := None) = hp_blocks h |` (- set (take (Suc k) as))" using I by (auto simp: restrict_map_def fun_eq_iff)
  ultimately show "\<exists>h''. Option.bind (row_addr p k h') (\<lambda>a. delete_block a h') = Some h'' \<and>
      hp_next h'' = hp_next h \<and> hp_blocks h'' = hp_blocks h |` (- set (take (Suc k) as))"
    using a I by (simp add: delete_block_def)
qed

section \<open>Allocation\<close>

definition heap_ok :: "mheap \<Rightarrow> bool" where
  "heap_ok h \<longleftrightarrow> (\<forall>a. hp_next h \<le> a \<longrightarrow> hp_blocks h a = None)"

lemma fill_row:
  assumes "hp_blocks h p = Some (Table ts)" "i < length ts" "ts ! i = Some a" "hp_blocks h a = Some (Row xs)" "a \<noteq> p"
  shows "mfold (\<lambda>j. write_entry p i j v) [0..<length xs] h = Some (put_block a (Row (replicate (length xs) (Some v))) h)"
proof -
  have "\<exists>h'. mfold (\<lambda>j. write_entry p i j v) [0..<length xs] h = Some h' \<and> h' = put_block a (Row (filled (\<lambda>_. v) (length xs) xs)) h"
  proof (rule mfold_inv0)
    show "h = put_block a (Row (filled (\<lambda>_. v) 0 xs)) h" using assms(4) by (cases h) (auto simp: put_block_def fun_eq_iff)
  next
    fix k h' assume k: "k < length xs" and h': "h' = put_block a (Row (filled (\<lambda>_. v) k xs)) h"
    have "row_addr p i h' = Some a" using assms by (simp add: h' row_addr_def put_block_def)
    then have "write_entry p i k v h' = Some (put_block a (Row ((filled (\<lambda>_. v) k xs)[k := Some v])) h')"
      using k by (simp add: write_entry_def h' put_block_def)
    moreover have "put_block a (Row ((filled (\<lambda>_. v) k xs)[k := Some v])) h' = put_block a (Row (filled (\<lambda>_. v) (Suc k) xs)) h"
      using filled_Suc [OF k, of "\<lambda>_. v"] by (simp add: h' put_block_def)
    ultimately show "\<exists>h''. write_entry p i k v h' = Some h'' \<and> h'' = put_block a (Row (filled (\<lambda>_. v) (Suc k) xs)) h" by simp
  qed
  moreover have "filled (\<lambda>_. v) (length xs) xs = replicate (length xs) (Some v)" by (simp add: filled_def comp_def map_replicate_const)
  ultimately show ?thesis by simp
qed

text \<open>After \<open>k\<close> turns of the allocating loop, which began with the heap \<open>h\<close>: every row holds \<open>e\<close> throughout.\<close>

definition alloc_inv :: "mheap \<Rightarrow> nat \<Rightarrow> nat \<Rightarrow> nat \<Rightarrow> real option \<Rightarrow> nat \<Rightarrow> mheap \<Rightarrow> bool" where
  "alloc_inv h p rows columns e k h' \<longleftrightarrow> heap_ok h' \<and>
     (\<exists>as. length as = k \<and> hp_blocks h' p = Some (Table (map Some as @ replicate (rows - k) None)) \<and> distinct (p # as) \<and>
       (\<forall>i<k. hp_blocks h' (as ! i) = Some (Row (replicate columns e))) \<and>
       set (p # as) \<inter> dom (hp_blocks h) = {} \<and> (\<forall>a. a \<notin> set (p # as) \<longrightarrow> hp_blocks h' a = hp_blocks h a))"

lemma alloc_start:
  assumes "heap_ok h" "new_block (Table (replicate rows None)) h = (p, h1)"
  shows "alloc_inv h p rows columns e 0 h1"
  using assms by (auto simp: alloc_inv_def new_block_def heap_ok_def)

lemma alloc_turn:
  assumes "alloc_inv h p rows columns e k h'" "k < rows"
  obtains h1 a ts where "alloc_row p columns k h' = Some h1" "alloc_inv h p rows columns e (Suc k) (put_block a (Row (replicate columns e)) h1)"
    "hp_blocks h1 p = Some (Table ts)" "k < length ts" "ts ! k = Some a" "a \<noteq> p" "hp_blocks h1 a = Some (Row (replicate columns None))"
proof -
  obtain as where as: "length as = k" "hp_blocks h' p = Some (Table (map Some as @ replicate (rows - k) None))" "distinct (p # as)"
      "\<forall>i<k. hp_blocks h' (as ! i) = Some (Row (replicate columns e))" "set (p # as) \<inter> dom (hp_blocks h) = {}"
      "\<forall>a. a \<notin> set (p # as) \<longrightarrow> hp_blocks h' a = hp_blocks h a" and ok: "heap_ok h'"
    using assms(1) by (auto simp: alloc_inv_def)
  define a where "a = hp_next h'"
  define ts where "ts = (map Some as @ replicate (rows - k) None)[k := Some a]"
  define h1 where "h1 = \<lparr>hp_blocks = (hp_blocks h')(a \<mapsto> Row (replicate columns None), p \<mapsto> Table ts), hp_next = a + 1\<rparr>"
  have none: "hp_blocks h' b = None" if "a \<le> b" for b using ok that by (simp add: heap_ok_def a_def)
  have "hp_blocks h' b \<noteq> None" if "b \<in> set (p # as)" for b using that as(1,2,4) by (auto simp: in_set_conv_nth)
  then have below: "b < a" if "b \<in> set (p # as)" for b using none that by (meson not_le)
  have fresh: "a \<noteq> p" "a \<notin> set as" "hp_blocks h' a = None" using below none by auto
  have r: "rows - k = Suc (rows - Suc k)" using assms(2) by simp
  have ts: "ts = map Some (as @ [a]) @ replicate (rows - Suc k) None"
    using as(1) unfolding ts_def r by (simp add: list_update_append)
  have "alloc_row p columns k h' = Some h1"
    using as(1,2) fresh(1) assms(2)
    by (simp add: alloc_row_def new_block_def set_row_addr_def put_block_def ts_def h1_def a_def fun_upd_twist)
  moreover have ok1: "heap_ok (put_block a (Row (replicate columns e)) h1)"
    unfolding heap_ok_def put_block_def h1_def using none below [of p] by auto
  have "a \<notin> dom (hp_blocks h)" using as(6) fresh by (metis domIff set_ConsD)
  then have "alloc_inv h p rows columns e (Suc k) (put_block a (Row (replicate columns e)) h1)"
    unfolding alloc_inv_def using as fresh ok1
    by (intro conjI exI [of _ "as @ [a]"]) (auto simp: put_block_def h1_def ts nth_append less_Suc_eq)
  ultimately show ?thesis using fresh(1) assms(2) as(1) by (intro that [of h1 a ts]) (auto simp: h1_def ts nth_append)
qed

lemma put_same: "hp_blocks h a = Some b \<Longrightarrow> put_block a b h = h"
  by (cases h) (auto simp: put_block_def fun_eq_iff)

lemma alloc_plain:
  assumes "alloc_inv h p rows columns None 0 h1"
  shows "\<exists>h2. mfold (alloc_row p columns) [0..<rows] h1 = Some h2 \<and> alloc_inv h p rows columns None rows h2"
proof (rule mfold_inv0 [where I = "alloc_inv h p rows columns None", OF assms])
  fix k h' assume k: "k < rows" and I: "alloc_inv h p rows columns None k h'"
  show "\<exists>h''. alloc_row p columns k h' = Some h'' \<and> alloc_inv h p rows columns None (Suc k) h''"
    by (rule alloc_turn [OF I k]) (simp add: put_same)
qed

lemma alloc_filled:
  assumes "alloc_inv h p rows columns (Some v) 0 h1"
  shows "\<exists>h2. mfold (\<lambda>i h. Option.bind (alloc_row p columns i h) (mfold (\<lambda>j. write_entry p i j v) [0..<columns])) [0..<rows] h1 = Some h2 \<and>
    alloc_inv h p rows columns (Some v) rows h2"
proof (rule mfold_inv0 [where I = "alloc_inv h p rows columns (Some v)", OF assms])
  fix k h' assume k: "k < rows" and I: "alloc_inv h p rows columns (Some v) k h'"
  from alloc_turn [OF I k] obtain h1 a ts where t: "alloc_row p columns k h' = Some h1"
      "alloc_inv h p rows columns (Some v) (Suc k) (put_block a (Row (replicate columns (Some v))) h1)"
      "hp_blocks h1 p = Some (Table ts)" "k < length ts" "ts ! k = Some a" "a \<noteq> p" "hp_blocks h1 a = Some (Row (replicate columns None))"
    by blast
  then show "\<exists>h''. Option.bind (alloc_row p columns k h') (mfold (\<lambda>j. write_entry p k j v) [0..<columns]) = Some h'' \<and>
      alloc_inv h p rows columns (Some v) (Suc k) h''"
    using fill_row [OF t(3-5,7,6), of v] by simp
qed

text \<open>The new table with its rows, beside the old blocks.\<close>

lemma alloc_end:
  assumes "alloc_inv h p rows columns e rows h'" 
  obtains as where "rows_at h' p as (replicate rows (replicate columns e))" "length as = rows" "heap_ok h'"
    "set (p # as) \<inter> dom (hp_blocks h) = {}" "\<forall>a. a \<notin> set (p # as) \<longrightarrow> hp_blocks h' a = hp_blocks h a"
  using assms by (auto simp: alloc_inv_def rows_at_def)

section \<open>Ownership\<close>

text \<open>
  The matrix \<open>m\<close> has the value \<open>V\<close> and owns the blocks \<open>F\<close>; a null matrix owns none.  From \<open>h\<close> to \<open>h'\<close>
  the blocks \<open>F\<close> become \<open>F'\<close>, and the others stay.
\<close>

definition owned :: "mheap \<Rightarrow> matrix_obj \<Rightarrow> mat \<Rightarrow> nat set \<Rightarrow> bool" where
  "owned h m V F \<longleftrightarrow>
     (case mo_ptr m of
        None \<Rightarrow> mo_cols m = 0 \<and> V = [] \<and> F = {}
      | Some p \<Rightarrow> \<exists>as. rows_at h p as (map (map Some) V) \<and> length as = mo_rows m \<and> 0 < mo_rows m \<and> 0 < mo_cols m \<and>
          is_mat (mo_rows m) (mo_cols m) V \<and> F = set (p # as))"

definition moves :: "mheap \<Rightarrow> nat set \<Rightarrow> mheap \<Rightarrow> nat set \<Rightarrow> bool" where
  "moves h F h' F' \<longleftrightarrow> heap_ok h' \<and> dom (hp_blocks h') = (dom (hp_blocks h) - F) \<union> F' \<and> F' \<inter> (dom (hp_blocks h) - F) = {} \<and>
     (\<forall>a\<in>dom (hp_blocks h) - F. hp_blocks h' a = hp_blocks h a)"

lemma owned_dom: "owned h m V F \<Longrightarrow> F \<subseteq> dom (hp_blocks h)"
  by (auto simp: owned_def rows_at_def in_set_conv_nth split: option.splits)

lemma owned_local: "owned h m V F \<Longrightarrow> \<forall>a\<in>F. hp_blocks h' a = hp_blocks h a \<Longrightarrow> owned h' m V F"
  by (auto simp: owned_def rows_at_def split: option.splits)

lemma owned_cases:
  assumes "owned h m V F"
  obtains (null) "mo_ptr m = None" "mo_cols m = 0" "V = []" "F = {}"
  | (rows) p as where "mo_ptr m = Some p" "rows_at h p as (map (map Some) V)" "length as = mo_rows m" "0 < mo_rows m" "0 < mo_cols m"
      "is_mat (mo_rows m) (mo_cols m) V" "F = set (p # as)" "length V = mo_rows m" "n_cols V = mo_cols m"
  using assms by (cases "mo_ptr m") (auto simp: owned_def n_cols_is_mat is_mat_length)

lemma moves_differs: "moves h F h1 F' \<Longrightarrow> differs_at A h1 h2 \<Longrightarrow> A \<subseteq> F' \<Longrightarrow> moves h F h2 F'"
  unfolding moves_def differs_at_def heap_ok_def by (metis (no_types, lifting) Diff_iff Int_iff domIff empty_iff subsetD)

text \<open>The loops of the class on rows that are complete.\<close>

lemma row_counts: "rows_at h p as X \<Longrightarrow> length X = length as"
  by (simp add: rows_at_def)

lemma rows_dom: "rows_at h p as X \<Longrightarrow> set (p # as) \<subseteq> dom (hp_blocks h)"
  by (auto simp: rows_at_def in_set_conv_nth)

lemma rows_local: "rows_at h p as X \<Longrightarrow> \<forall>a\<in>set (p # as). hp_blocks h' a = hp_blocks h a \<Longrightarrow> rows_at h' p as X"
  by (auto simp: rows_at_def)

lemma fill_rows:
  assumes "rows_at h p as X" "\<forall>i<length as. length (X ! i) = c"
  shows "\<exists>h'. mfold (\<lambda>i. mfold (\<lambda>j. write_entry p i j v) [0..<c]) [0..<length as] h = Some h' \<and>
    rows_at h' p as (replicate (length as) (replicate c (Some v))) \<and> differs_at (set as) h h'"
proof -
  have "\<exists>h'. mfold (\<lambda>i. mfold (\<lambda>j h. Option.bind (Some v) (\<lambda>v. write_entry p i j v h)) [0..<c]) [0..<length as] h = Some h' \<and>
     (rows_at h' p as (filled_rows (\<lambda>_ _. v) (length as) c X) \<and> differs_at (set as) h h')"
    by (rule write_rows [OF assms(1) order_refl]) (use assms(2) in simp_all)
  moreover have "filled_rows (\<lambda>_ _. v) (length as) c X = replicate (length as) (replicate c (Some v))"
    using assms row_counts [OF assms(1)]
    by (intro nth_equalityI) (simp_all add: filled_def comp_def map_replicate_const)
  ultimately show ?thesis by simp
qed

lemma copy_rows:
  assumes "rows_at h p as X" "rows_at h q bs Y" "set as \<inter> set (q # bs) = {}" "r \<le> length as" "r \<le> length bs"
    and "\<And>i. i < r \<Longrightarrow> n \<le> length (X ! i)" "\<And>i j. i < r \<Longrightarrow> j < n \<Longrightarrow> j < length (Y ! i) \<and> Y ! i ! j = Some (w i j)"
  shows "\<exists>h'. copy_entries p q r n h = Some h' \<and> rows_at h' p as (filled_rows w r n X) \<and> rows_at h' q bs Y \<and> differs_at (set as) h h'"
proof -
  have q: "rows_at h' q bs Y" if "differs_at (set as) h h'" for h'
  proof -
    have "bs ! i \<notin> set as" if "i < length bs" for i using assms(3) that by auto
    then show ?thesis using assms(2,3) that by (auto simp: rows_at_def differs_at_def)
  qed
  have "\<exists>h'. copy_entries p q r n h = Some h' \<and> (rows_at h' p as (filled_rows w r n X) \<and> differs_at (set as) h h')"
    unfolding copy_entries_def
  proof (rule write_rows [OF assms(1,4,6)])
    show "read_entry q i j h' = Some (w i j)" if "i < r" "j < n" "differs_at (set as) h h'" for i j h'
      using rows_at_read [OF q [OF that(3)], of i j] assms(5) assms(7) [OF that(1,2)] that(1) by simp
  qed
  then show ?thesis using q by blast
qed

text \<open>Copying a matrix onto itself: every entry is read before it is written.\<close>

lemma copy_self:
  assumes "rows_at h p as (map (map Some) V)" "is_mat (length as) c V"
  shows "\<exists>h'. copy_entries p p (length as) c h = Some h' \<and> rows_at h' p as (map (map Some) V) \<and> differs_at (set as) h h'"
proof -
  have V: "length V = length as" "\<And>i. i < length as \<Longrightarrow> length (V ! i) = c" using assms(2) by (auto simp: is_mat_def)
  have e: "filled_rows (\<lambda>i j. V ! i ! j) k n (map (map Some) V) = map (map Some) V" if "n \<le> c" "k \<le> length as" for k n
    using that V by (intro nth_equalityI) (auto simp: filled_def intro!: nth_equalityI simp: nth_append)
  have f: "(map (map Some) V)[i := filled (\<lambda>j. V ! i ! j) j (map (map Some) V ! i)] = map (map Some) V" if "i < length as" "j \<le> c" for i j
  proof -
    have "filled (\<lambda>j. V ! i ! j) j (map Some (V ! i)) = map Some (V ! i)"
      using that V(2) [OF that(1)] by (intro nth_equalityI) (auto simp: filled_def nth_append)
    then show ?thesis using that V(1) by (simp add: list_update_same_conv)
  qed
  have "\<exists>h'. copy_entries p p (length as) c h = Some h' \<and>
      (rows_at h' p as (filled_rows (\<lambda>i j. V ! i ! j) (length as) c (map (map Some) V)) \<and> differs_at (set as) h h')"
    unfolding copy_entries_def
  proof (rule write_rows [OF assms(1) order_refl])
    show "c \<le> length (map (map Some) V ! i)" if "i < length as" for i using that V by simp
    fix i j h'
    assume i: "i < length as" "j < c" "rows_at h' p as ((filled_rows (\<lambda>i j. V ! i ! j) i c (map (map Some) V))[i := filled (\<lambda>j. V ! i ! j) j (map (map Some) V ! i)])"
    then have "rows_at h' p as (map (map Some) V)" using e [of c i] f [of i j] by simp
    then show "read_entry p i j h' = Some (V ! i ! j)" using rows_at_read i(1,2) V by simp
  qed
  then show ?thesis using e [of c "length as"] by simp
qed

lemma release:
  assumes "rows_at h p as X" "heap_ok h"
  shows "\<exists>h'. Option.bind (free_rows p (length as) h) (delete_block p) = Some h' \<and> moves h (set (p # as)) h' {}"
proof -
  obtain h1 where h1: "free_rows p (length as) h = Some h1" "hp_next h1 = hp_next h" "hp_blocks h1 = hp_blocks h |` (- set as)"
    using free_rows_ok [OF assms(1) order_refl] by auto
  have "hp_blocks h1 p \<noteq> None" using assms(1) h1(3) by (simp add: rows_at_def)
  then show ?thesis using h1 assms(2)
    by (auto simp: delete_block_def moves_def heap_ok_def restrict_map_def split: if_splits)
qed

section \<open>The operations\<close>

definition const_mat :: "nat \<Rightarrow> nat \<Rightarrow> real \<Rightarrow> mat" where
  "const_mat rows columns v = replicate rows (replicate columns v)"

lemma const_mat_simps: "is_mat r c (const_mat r c v)" "map (map Some) (const_mat r c v) = replicate r (replicate c (Some v))" "length (const_mat r c v) = r"
  by (simp_all add: const_mat_def is_mat_def)

lemma new_mat:
  assumes "heap_ok h" "0 < rows" "0 < columns" "mo_ptr m = None"
  obtains p as h' where "mo_resize rows columns d m h = Some (\<lparr>mo_ptr = Some p, mo_rows = rows, mo_cols = columns\<rparr>, h')"
    "rows_at h' p as (map (map Some) (const_mat rows columns 0))" "length as = rows" "set (p # as) \<inter> dom (hp_blocks h) = {}"
    "moves h {} h' (set (p # as))"
proof -
  obtain p h1 where h1: "new_block (Table (replicate rows None)) h = (p, h1)" by (cases "new_block (Table (replicate rows None)) h")
  obtain h2 where h2: "mfold (alloc_row p columns) [0..<rows] h1 = Some h2" "alloc_inv h p rows columns None rows h2"
    using alloc_plain [OF alloc_start [OF assms(1) h1]] by blast
  from h2(2) obtain as where as: "rows_at h2 p as (replicate rows (replicate columns None))" "length as = rows" "heap_ok h2"
      "set (p # as) \<inter> dom (hp_blocks h) = {}" "\<forall>a. a \<notin> set (p # as) \<longrightarrow> hp_blocks h2 a = hp_blocks h a"
    by (rule alloc_end)
  have "set (p # as) \<subseteq> dom (hp_blocks h2)" by (rule rows_dom [OF as(1)])
  then have mv: "moves h {} h2 (set (p # as))" using as(3-5) unfolding moves_def by fastforce
  have "\<exists>h3. mfold (\<lambda>i. mfold (\<lambda>j. write_entry p i j 0) [0..<columns]) [0..<length as] h2 = Some h3 \<and>
      rows_at h3 p as (replicate (length as) (replicate columns (Some 0))) \<and> differs_at (set as) h2 h3"
    by (rule fill_rows [OF as(1)]) (use as(2) in simp)
  then obtain h3 where h3: "mfold (\<lambda>i. mfold (\<lambda>j. write_entry p i j 0) [0..<columns]) [0..<rows] h2 = Some h3"
      "rows_at h3 p as (replicate rows (replicate columns (Some 0)))" "differs_at (set as) h2 h3"
    unfolding as(2) by blast
  have "moves h {} h3 (set (p # as))" by (rule moves_differs [OF mv h3(3)]) auto
  then show ?thesis
    by (intro that [of p h3 as]) (use assms h1 h2(1) h3(1,2) as(2,4) in \<open>simp_all add: mo_resize_def mo_clear_def const_mat_simps\<close>)
qed

lemma moves_trans_free:
  assumes "moves h {} h1 F'" "F' \<inter> dom (hp_blocks h) = {}" "moves h1 F h2 {}" "F \<subseteq> dom (hp_blocks h)"
  shows "moves h F h2 F'"
  using assms unfolding moves_def by auto

lemma resize_value:
  assumes "is_mat r0 c0 V" "0 < r0" "0 < r" "0 < c" "length X = r"
    and "\<And>i. i < r \<Longrightarrow> X ! i = (if i < min r r0 then filled (\<lambda>j. V ! i ! j) (min c c0) (replicate c (Some d)) else replicate c (Some d))"
  shows "X = map (map Some) (mx_resize V r c d)"
proof (rule nth_equalityI)
  show "length X = length (map (map Some) (mx_resize V r c d))" using assms(5) by (simp add: mx_resize_def mat_mk_def)
  have V: "length V = r0" "n_cols V = c0" using assms(1,2) by (simp_all add: is_mat_length n_cols_is_mat)
  fix i assume "i < length X"
  then have i: "i < r" using assms(5) by simp
  have l: "length (X ! i) = c" using assms(6) [OF i] by simp
  show "X ! i = map (map Some) (mx_resize V r c d) ! i"
  proof (rule nth_equalityI)
    show "length (X ! i) = length (map (map Some) (mx_resize V r c d) ! i)" using i l by (simp add: mx_resize_def mat_mk_def)
    fix j assume "j < length (X ! i)"
    then have j: "j < c" using l by simp
    then show "X ! i ! j = map (map Some) (mx_resize V r c d) ! i ! j"
      using assms(6) [OF i] i V by (cases "j < c0") (auto simp: mx_resize_def mat_mk_def)
  qed
qed

lemma resize_mat:
  assumes "heap_ok h" "0 < rows" "0 < columns" "mo_ptr m = Some q" "rows_at h q bs (map (map Some) V)" "length bs = mo_rows m"
    "is_mat (mo_rows m) (mo_cols m) V" "0 < mo_rows m"
  obtains p as h' where "mo_resize rows columns d m h = Some (\<lparr>mo_ptr = Some p, mo_rows = rows, mo_cols = columns\<rparr>, h')"
    "rows_at h' p as (map (map Some) (mx_resize V rows columns d))" "length as = rows" "set (p # as) \<inter> dom (hp_blocks h) = {}"
    "moves h (set (q # bs)) h' (set (p # as))"
proof -
  obtain p h1 where h1: "new_block (Table (replicate rows None)) h = (p, h1)" by (cases "new_block (Table (replicate rows None)) h")
  obtain h2 where h2: "mfold (\<lambda>i h. Option.bind (alloc_row p columns i h) (mfold (\<lambda>j. write_entry p i j d) [0..<columns])) [0..<rows] h1 = Some h2"
      "alloc_inv h p rows columns (Some d) rows h2"
    using alloc_filled [OF alloc_start [OF assms(1) h1]] by blast
  from h2(2) obtain as where as: "rows_at h2 p as (replicate rows (replicate columns (Some d)))" "length as = rows" "heap_ok h2"
      "set (p # as) \<inter> dom (hp_blocks h) = {}" "\<forall>a. a \<notin> set (p # as) \<longrightarrow> hp_blocks h2 a = hp_blocks h a"
    by (rule alloc_end)
  have "set (p # as) \<subseteq> dom (hp_blocks h2)" by (rule rows_dom [OF as(1)])
  then have mv: "moves h {} h2 (set (p # as))" using as(3-5) unfolding moves_def by fastforce
  have qd: "set (q # bs) \<subseteq> dom (hp_blocks h)" by (rule rows_dom [OF assms(5)])
  then have dis: "set (p # as) \<inter> set (q # bs) = {}" using as(4) by blast
  have q2: "rows_at h2 q bs (map (map Some) V)"
  proof (rule rows_local [OF assms(5)])
    show "\<forall>a\<in>set (q # bs). hp_blocks h2 a = hp_blocks h a" using as(5) dis by blast
  qed
  let ?r = "min rows (mo_rows m)" and ?c = "min columns (mo_cols m)"
  have V: "length V = mo_rows m" "\<And>i. i < mo_rows m \<Longrightarrow> length (V ! i) = mo_cols m" using assms(7) by (auto simp: is_mat_def)
  have "\<exists>h3. copy_entries p q ?r ?c h2 = Some h3 \<and> rows_at h3 p as (filled_rows (\<lambda>i j. V ! i ! j) ?r ?c (replicate rows (replicate columns (Some d)))) \<and>
      rows_at h3 q bs (map (map Some) V) \<and> differs_at (set as) h2 h3"
    by (rule copy_rows [OF as(1) q2]) (use dis as(2) assms(6) V in auto)
  then obtain h3 where h3: "copy_entries p q ?r ?c h2 = Some h3" "rows_at h3 p as (filled_rows (\<lambda>i j. V ! i ! j) ?r ?c (replicate rows (replicate columns (Some d))))"
      "rows_at h3 q bs (map (map Some) V)" "differs_at (set as) h2 h3" by blast
  have mv3: "moves h {} h3 (set (p # as))" by (rule moves_differs [OF mv h3(4)]) auto
  obtain h4 where h4: "Option.bind (free_rows q (mo_rows m) h3) (delete_block q) = Some h4" "moves h3 (set (q # bs)) h4 {}"
    using release [OF h3(3)] mv3 assms(6) unfolding moves_def by metis
  then obtain h34 where h34: "free_rows q (mo_rows m) h3 = Some h34" "delete_block q h34 = Some h4" by (cases "free_rows q (mo_rows m) h3") auto
  have "rows_at h4 p as (filled_rows (\<lambda>i j. V ! i ! j) ?r ?c (replicate rows (replicate columns (Some d))))"
  proof (rule rows_local [OF h3(2)])
    show "\<forall>a\<in>set (p # as). hp_blocks h4 a = hp_blocks h3 a"
      using h4(2) rows_dom [OF h3(2)] dis unfolding moves_def by blast
  qed
  moreover have "filled_rows (\<lambda>i j. V ! i ! j) ?r ?c (replicate rows (replicate columns (Some d))) = map (map Some) (mx_resize V rows columns d)"
    by (rule resize_value [OF assms(7,8,2,3)]) simp_all
  moreover have "mo_resize rows columns d m h = Some (\<lparr>mo_ptr = Some p, mo_rows = rows, mo_cols = columns\<rparr>, h4)"
    using assms(2-4) h1 h2(1) h3(1) h34 by (simp add: mo_resize_def Let_def)
  ultimately show ?thesis using as(2,4) moves_trans_free [OF mv3 as(4) h4(2) qd] by (intro that [of p h4 as]) simp_all
qed

text \<open>The operations on owned matrices: value, ownership, and what happens to the other blocks.\<close>

lemma resize_owned:
  assumes "heap_ok h" "owned h m V F" "0 < r" "0 < c"
  obtains p as h' where "mo_resize r c d m h = Some (\<lparr>mo_ptr = Some p, mo_rows = r, mo_cols = c\<rparr>, h')" "length as = r"
    "rows_at h' p as (map (map Some) (if V = [] then const_mat r c 0 else mx_resize V r c d))"
    "set (p # as) \<inter> dom (hp_blocks h) = {}" "moves h F h' (set (p # as))"
  using assms(2)
proof (cases rule: owned_cases)
  case null
  obtain p as h' where ot: "mo_resize r c d m h = Some (\<lparr>mo_ptr = Some p, mo_rows = r, mo_cols = c\<rparr>, h')"
      "rows_at h' p as (map (map Some) (const_mat r c 0))" "length as = r" "set (p # as) \<inter> dom (hp_blocks h) = {}" "moves h {} h' (set (p # as))"
    by (rule new_mat [OF assms(1,3,4) null(1), of d])
  show ?thesis by (rule that [OF ot(1,3)]) (use ot null in simp_all)
next
  case (rows q bs)
  obtain p as h' where ot: "mo_resize r c d m h = Some (\<lparr>mo_ptr = Some p, mo_rows = r, mo_cols = c\<rparr>, h')"
      "rows_at h' p as (map (map Some) (mx_resize V r c d))" "length as = r" "set (p # as) \<inter> dom (hp_blocks h) = {}"
      "moves h (set (q # bs)) h' (set (p # as))"
    by (rule resize_mat [OF assms(1,3,4) rows(1-3,6,4), of d])
  have "V \<noteq> []" using rows(4,8) by auto
  then show ?thesis by (intro that [OF ot(1,3)]) (use ot rows(7) in simp_all)
qed

lemma is_mat_resize: "is_mat r c (mx_resize V r c d)"
  by (simp add: mx_resize_def)

lemma owned_rows: "rows_at h p as (map (map Some) V) \<Longrightarrow> length as = r \<Longrightarrow> 0 < r \<Longrightarrow> 0 < c \<Longrightarrow> is_mat r c V \<Longrightarrow>
    owned h \<lparr>mo_ptr = Some p, mo_rows = r, mo_cols = c\<rparr> V (set (p # as))"
  by (auto simp: owned_def)

lemma full_rows: "is_mat r c W \<Longrightarrow> length X = r \<Longrightarrow> \<forall>i<r. length (X ! i) = c \<Longrightarrow> filled_rows (\<lambda>i j. W ! i ! j) r c X = map (map Some) W"
  by (rule nth_equalityI) (auto simp: is_mat_def filled_def intro!: nth_equalityI simp: nth_append)

text \<open>A matrix of the right shape, filled from another one: the second half of copying and assigning.\<close>

lemma copy_into:
  assumes "rows_at h p as X" "length as = r" "\<forall>i<r. length (X ! i) = c" "owned h ot W G" "mo_ptr ot = Some q" "mo_rows ot = r" "mo_cols ot = c"
    "set as \<inter> G = {}"
  shows "\<exists>h'. copy_entries p q r c h = Some h' \<and> rows_at h' p as (map (map Some) W) \<and> differs_at (set as) h h'"
  using assms(4)
proof (cases rule: owned_cases)
  case (rows q' bs)
  then have q: "q' = q" using assms(5) by simp
  have W: "\<And>i. i < r \<Longrightarrow> length (W ! i) = c" "length W = r" using rows(6) assms(6,7) by (auto simp: is_mat_def)
  have "\<exists>h'. copy_entries p q r c h = Some h' \<and> rows_at h' p as (filled_rows (\<lambda>i j. W ! i ! j) r c X) \<and> rows_at h' q bs (map (map Some) W) \<and> differs_at (set as) h h'"
    by (rule copy_rows [OF assms(1) rows(2) [unfolded q]]) (use assms(2,3,6,8) rows(3,7) W q in auto)
  moreover have "filled_rows (\<lambda>i j. W ! i ! j) r c X = map (map Some) W"
    using rows(6) assms(2,3,6,7) row_counts [OF assms(1)] by (intro full_rows) simp_all
  ultimately show ?thesis by auto
qed (use assms(5) in simp)

lemma mat_lengths: "rows_at h p as (map (map Some) V) \<Longrightarrow> is_mat (length as) c V \<Longrightarrow> \<forall>i<length as. length (map (map Some) V ! i) = c"
  by (auto simp: is_mat_def)

lemma copy_owned:
  assumes "heap_ok h" "owned h ot W G"
  shows "\<exists>m' h' F'. mo_copy ot h = Some (m', h') \<and> owned h' m' W F' \<and> moves h {} h' F'"
  using assms(2)
proof (cases rule: owned_cases)
  case null
  have "moves h {} h {}" using assms(1) by (simp add: moves_def)
  then show ?thesis using null by (intro exI [of _ null_matrix] exI [of _ h] exI [of _ "{}"]) (simp add: mo_copy_def owned_def null_matrix_def)
next
  case (rows q bs)
  obtain p as h1 where ot: "mo_resize (mo_rows ot) (mo_cols ot) 0 null_matrix h = Some (\<lparr>mo_ptr = Some p, mo_rows = mo_rows ot, mo_cols = mo_cols ot\<rparr>, h1)"
      "rows_at h1 p as (map (map Some) (const_mat (mo_rows ot) (mo_cols ot) 0))" "length as = mo_rows ot" "set (p # as) \<inter> dom (hp_blocks h) = {}"
      "moves h {} h1 (set (p # as))"
    by (rule new_mat [OF assms(1) rows(4,5), of null_matrix 0]) (simp add: null_matrix_def)
  have G: "G \<subseteq> dom (hp_blocks h)" by (rule owned_dom [OF assms(2)])
  have g1: "owned h1 ot W G" by (rule owned_local [OF assms(2)]) (use ot(5) G in \<open>auto simp: moves_def\<close>)
  have "\<exists>h'. copy_entries p q (mo_rows ot) (mo_cols ot) h1 = Some h' \<and> rows_at h' p as (map (map Some) W) \<and> differs_at (set as) h1 h'"
    by (rule copy_into [OF ot(2,3) _ g1 rows(1)]) (use ot(4) G in \<open>auto simp: const_mat_def\<close>)
  then obtain h' where h': "copy_entries p q (mo_rows ot) (mo_cols ot) h1 = Some h'" "rows_at h' p as (map (map Some) W)" "differs_at (set as) h1 h'" by blast
  have "moves h {} h' (set (p # as))" by (rule moves_differs [OF ot(5) h'(3)]) auto
  moreover have "owned h' \<lparr>mo_ptr = Some p, mo_rows = mo_rows ot, mo_cols = mo_cols ot\<rparr> W (set (p # as))"
    by (rule owned_rows [OF h'(2) ot(3) rows(4-6)])
  moreover have "mo_copy ot h = Some (\<lparr>mo_ptr = Some p, mo_rows = mo_rows ot, mo_cols = mo_cols ot\<rparr>, h')"
    using rows(1) ot(1) h'(1) by (simp add: mo_copy_def)
  ultimately show ?thesis by blast
qed

text \<open>When an empty matrix is assigned to another one, that one must be empty or square.\<close>

definition may_empty :: "mat \<Rightarrow> bool" where
  "may_empty V \<longleftrightarrow> V = [] \<or> length V = n_cols V"

lemma assign_owned:
  assumes "heap_ok h" "owned h m V F" "owned h ot W G" "F \<inter> G = {}" "W = [] \<Longrightarrow> may_empty V"
  shows "\<exists>m' h' F'. mo_assign False m ot h = Some (m', h') \<and> owned h' m' W F' \<and> moves h F h' F'"
  using assms(3)
proof (cases rule: owned_cases)
  case null
  from assms(2) show ?thesis
  proof (cases rule: owned_cases)
    case null
    have "moves h {} h {}" using assms(1) by (simp add: moves_def)
    then show ?thesis using null \<open>mo_ptr ot = None\<close> \<open>W = []\<close>
      by (intro exI [of _ null_matrix] exI [of _ h] exI [of _ "{}"]) (simp add: mo_assign_def owned_def null_matrix_def)
  next
    case (rows p as)
    have "V \<noteq> []" using rows(4,8) by auto
    then have "mo_cols m = length as" using assms(5) \<open>W = []\<close> rows by (simp add: may_empty_def)
    then obtain h' where "Option.bind (free_rows p (mo_cols m) h) (delete_block p) = Some h'" "moves h F h' {}"
      using release [OF rows(2) assms(1)] rows(7) by auto
    then show ?thesis using rows(1) null
      by (intro exI [of _ null_matrix] exI [of _ h'] exI [of _ "{}"]) (simp add: mo_assign_def owned_def null_matrix_def)
  qed
next
  case (rows q bs)
  obtain p as h1 where ot: "mo_resize (mo_rows ot) (mo_cols ot) 0 m h = Some (\<lparr>mo_ptr = Some p, mo_rows = mo_rows ot, mo_cols = mo_cols ot\<rparr>, h1)"
      "length as = mo_rows ot" "rows_at h1 p as (map (map Some) (if V = [] then const_mat (mo_rows ot) (mo_cols ot) 0 else mx_resize V (mo_rows ot) (mo_cols ot) 0))"
      "set (p # as) \<inter> dom (hp_blocks h) = {}" "moves h F h1 (set (p # as))"
    by (rule resize_owned [OF assms(1,2) rows(4,5), of 0])
  have G: "G \<subseteq> dom (hp_blocks h)" by (rule owned_dom [OF assms(3)])
  have g1: "owned h1 ot W G" by (rule owned_local [OF assms(3)]) (use ot(5) G assms(4) in \<open>auto simp: moves_def\<close>)
  have "\<exists>h'. copy_entries p q (mo_rows ot) (mo_cols ot) h1 = Some h' \<and> rows_at h' p as (map (map Some) W) \<and> differs_at (set as) h1 h'"
  proof (rule copy_into [OF ot(3,2) _ g1 rows(1)])
    show "\<forall>i<mo_rows ot. length (map (map Some) (if V = [] then const_mat (mo_rows ot) (mo_cols ot) 0 else mx_resize V (mo_rows ot) (mo_cols ot) 0) ! i) = mo_cols ot"
      using mat_lengths [OF ot(3), of "mo_cols ot"] const_mat_simps(1) is_mat_resize ot(2) by auto
  qed (use ot(4) G in auto)
  then obtain h' where h': "copy_entries p q (mo_rows ot) (mo_cols ot) h1 = Some h'" "rows_at h' p as (map (map Some) W)" "differs_at (set as) h1 h'" by blast
  have "moves h F h' (set (p # as))" by (rule moves_differs [OF ot(5) h'(3)]) auto
  moreover have "owned h' \<lparr>mo_ptr = Some p, mo_rows = mo_rows ot, mo_cols = mo_cols ot\<rparr> W (set (p # as))"
    by (rule owned_rows [OF h'(2) ot(2) rows(4-6)])
  moreover have "mo_assign False m ot h = Some (\<lparr>mo_ptr = Some p, mo_rows = mo_rows ot, mo_cols = mo_cols ot\<rparr>, h')"
    using rows(1) ot(1) h'(1) by (simp add: mo_assign_def)
  ultimately show ?thesis by blast
qed

lemma mx_resize_same: "is_mat r c V \<Longrightarrow> 0 < r \<Longrightarrow> mx_resize V r c d = V"
  by (rule nth_equalityI) (auto simp: mx_resize_def mat_mk_def n_cols_is_mat is_mat_length is_mat_row intro!: nth_equalityI)

lemma assign_self:
  assumes "heap_ok h" "owned h m V F"
  shows "\<exists>m' h' F'. mo_assign True m m h = Some (m', h') \<and> owned h' m' V F' \<and> moves h F h' F'"
  using assms(2)
proof (cases rule: owned_cases)
  case null
  have "moves h {} h {}" using assms(1) by (simp add: moves_def)
  then show ?thesis using null
    by (intro exI [of _ null_matrix] exI [of _ h] exI [of _ "{}"]) (simp add: mo_assign_def owned_def null_matrix_def)
next
  case (rows q bs)
  have ne: "V \<noteq> []" using rows(4,8) by auto
  obtain p as h1 where r: "mo_resize (mo_rows m) (mo_cols m) 0 m h = Some (\<lparr>mo_ptr = Some p, mo_rows = mo_rows m, mo_cols = mo_cols m\<rparr>, h1)"
      "length as = mo_rows m" "rows_at h1 p as (map (map Some) (if V = [] then const_mat (mo_rows m) (mo_cols m) 0 else mx_resize V (mo_rows m) (mo_cols m) 0))"
      "set (p # as) \<inter> dom (hp_blocks h) = {}" "moves h F h1 (set (p # as))"
    by (rule resize_owned [OF assms rows(4,5), of 0])
  have v: "rows_at h1 p as (map (map Some) V)" using r(3) ne mx_resize_same [OF rows(6,4)] by simp
  obtain h' where h': "copy_entries p p (mo_rows m) (mo_cols m) h1 = Some h'" "rows_at h' p as (map (map Some) V)" "differs_at (set as) h1 h'"
    using copy_self [OF v, of "mo_cols m"] r(2) rows(6) by auto
  have "moves h F h' (set (p # as))" by (rule moves_differs [OF r(5) h'(3)]) auto
  moreover have "owned h' \<lparr>mo_ptr = Some p, mo_rows = mo_rows m, mo_cols = mo_cols m\<rparr> V (set (p # as))"
    by (rule owned_rows [OF h'(2) r(2) rows(4-6)])
  moreover have "mo_assign True m m h = Some (\<lparr>mo_ptr = Some p, mo_rows = mo_rows m, mo_cols = mo_cols m\<rparr>, h')"
    using rows(1) r(1) h'(1) by (simp add: mo_assign_def)
  ultimately show ?thesis by blast
qed

lemma destroy_owned:
  assumes "heap_ok h" "owned h m V F"
  shows "\<exists>h'. mo_destroy m h = Some h' \<and> moves h F h' {}"
  using assms(2)
proof (cases rule: owned_cases)
  case null
  then show ?thesis using assms(1) by (simp add: mo_destroy_def moves_def)
next
  case (rows p as)
  then show ?thesis using release [OF rows(2) assms(1)] by (simp add: mo_destroy_def)
qed

lemma moves_self: "heap_ok h \<Longrightarrow> F \<subseteq> dom (hp_blocks h) \<Longrightarrow> moves h F h F"
  by (auto simp: moves_def)

lemma put_owned:
  assumes "heap_ok h" "owned h m V F" "x < length V" "y < length (V ! x)"
  shows "\<exists>h'. mo_put m x y v h = Some h' \<and> owned h' m (V[x := (V ! x)[y := v]]) F \<and> moves h F h' F"
  using assms(2)
proof (cases rule: owned_cases)
  case (rows p as)
  have V: "length (V ! i) = mo_cols m" if "i < length V" for i using that rows(6,8) by (simp add: is_mat_row)
  have x: "x < length as" using assms(3) rows(3,8) by simp
  note w = rows_at_write [OF rows(2) x, of y v]
  have y: "y < length (map (map Some) V ! x)" using assms(3,4) by simp
  have e: "(map (map Some) V)[x := (map (map Some) V ! x)[y := Some v]] = map (map Some) (V[x := (V ! x)[y := v]])"
    using assms(3) by (simp add: map_update)
  let ?h = "put_block (as ! x) (Row ((map (map Some) V ! x)[y := Some v])) h"
  have "is_mat (mo_rows m) (mo_cols m) (V[x := (V ! x)[y := v]])"
    using rows(6,8) V [OF assms(3)] assms(3) by (auto simp: is_mat_def dest!: set_update_subset_insert [THEN subsetD])
  then have "owned ?h m (V[x := (V ! x)[y := v]]) F" using w [OF y] rows e by (auto simp: owned_def)
  moreover have "moves h F ?h F" using w [OF y] rows(7) owned_dom [OF assms(2)] by (intro moves_differs [OF moves_self [OF assms(1)]]) auto
  moreover have "mo_put m x y v h = Some ?h" using w [OF y] rows(1,8) V [OF assms(3)] assms(3,4) by (simp add: mo_put_def)
  ultimately show ?thesis by blast
qed (use assms(3) in simp)

lemma get_owned: "owned h m V F \<Longrightarrow> x < length V \<Longrightarrow> y < length (V ! x) \<Longrightarrow> mo_get m x y h = Some (V ! x ! y)"
  by (erule owned_cases) (auto simp: mo_get_def rows_at_read is_mat_row)

lemma clear_owned:
  assumes "heap_ok h" "owned h m V F" "V \<noteq> []"
  shows "\<exists>h'. mo_clear m h = Some h' \<and> owned h' m (const_mat (length V) (n_cols V) 0) F \<and> moves h F h' F"
  using assms(2)
proof (cases rule: owned_cases)
  case (rows p as)
  have "\<exists>h'. mfold (\<lambda>i. mfold (\<lambda>j. write_entry p i j 0) [0..<mo_cols m]) [0..<length as] h = Some h' \<and>
    rows_at h' p as (replicate (length as) (replicate (mo_cols m) (Some 0))) \<and> differs_at (set as) h h'"
    by (rule fill_rows [OF rows(2)]) (use rows(3,6) in \<open>simp add: is_mat_length is_mat_row\<close>)
  then obtain h' where h': "mo_clear m h = Some h'" "rows_at h' p as (map (map Some) (const_mat (mo_rows m) (mo_cols m) 0))" "differs_at (set as) h h'"
    using rows(1,3) by (auto simp: mo_clear_def const_mat_simps(2))
  have "owned h' m (const_mat (mo_rows m) (mo_cols m) 0) F"
    using rows h'(2) by (auto simp: owned_def const_mat_simps(1))
  moreover have "moves h F h' F" using rows(7) owned_dom [OF assms(2)] by (intro moves_differs [OF moves_self [OF assms(1)] h'(3)]) auto
  ultimately show ?thesis using h'(1) rows(8,9) by auto
qed (use assms(3) in simp)

lemma mfold_total: "(\<And>x s. x \<in> set xs \<Longrightarrow> f x s = Some (g x s)) \<Longrightarrow> mfold f xs s = Some (fold g xs s)"
  by (induction xs arbitrary: s) simp_all

lemma extreme_owned:
  assumes "owned h m V F" "V \<noteq> []"
  shows "mo_extreme f m h = Some (fold (\<lambda>i acc. fold (\<lambda>j acc. f acc (V ! i ! j)) [0..<n_cols V] acc) [0..<length V] (V ! 0 ! 0))"
  using assms(1)
proof (cases rule: owned_cases)
  case (rows p as)
  have rd: "read_entry p i j h = Some (V ! i ! j)" if "i < mo_rows m" "j < mo_cols m" for i j
    using that rows rows_at_read [OF rows(2), of i j] by (simp add: is_mat_row)
  have in1: "mfold (\<lambda>j acc. map_option (f acc) (read_entry p i j h)) [0..<mo_cols m] acc = Some (fold (\<lambda>j acc. f acc (V ! i ! j)) [0..<mo_cols m] acc)"
    if "i < mo_rows m" for i acc by (rule mfold_total) (simp add: rd that)
  have "mfold (\<lambda>i. mfold (\<lambda>j acc. map_option (f acc) (read_entry p i j h)) [0..<mo_cols m]) [0..<mo_rows m] acc =
      Some (fold (\<lambda>i acc. fold (\<lambda>j acc. f acc (V ! i ! j)) [0..<mo_cols m] acc) [0..<mo_rows m] acc)" for acc
    by (rule mfold_total) (simp add: in1)
  then show ?thesis using rows(1,4,5,8,9) rd by (simp add: mo_extreme_def)
qed (use assms(2) in simp)

lemma of_list_owned:
  assumes "heap_ok h" "\<forall>row\<in>set L. length row = length (hd L)"
  shows "\<exists>m h' F. mo_of_list L h = Some (m, h') \<and> owned h' m (if L \<noteq> [] \<and> hd L \<noteq> [] then L else []) F \<and> moves h {} h' F"
proof (cases "L \<noteq> [] \<and> hd L \<noteq> []")
  case True
  let ?r = "length L" and ?c = "length (hd L)"
  have pos: "0 < ?r" "0 < ?c" using True by auto
  have L: "is_mat ?r ?c L" using assms(2) by (simp add: is_mat_def)
  obtain p as h1 where r: "mo_resize ?r ?c 0 null_matrix h = Some (\<lparr>mo_ptr = Some p, mo_rows = ?r, mo_cols = ?c\<rparr>, h1)"
      "rows_at h1 p as (map (map Some) (const_mat ?r ?c 0))" "length as = ?r" "set (p # as) \<inter> dom (hp_blocks h) = {}" "moves h {} h1 (set (p # as))"
    by (rule new_mat [OF assms(1) pos, of null_matrix 0]) (simp add: null_matrix_def)
  have "\<exists>h'. mfold (\<lambda>i. mfold (\<lambda>j h. Option.bind (Some (L ! i ! j)) (\<lambda>v. write_entry p i j v h)) [0..<?c]) [0..<?r] h1 = Some h' \<and>
     (rows_at h' p as (filled_rows (\<lambda>i j. L ! i ! j) ?r ?c (map (map Some) (const_mat ?r ?c 0))) \<and> differs_at (set as) h1 h')"
    by (rule write_rows [OF r(2)]) (simp_all add: r(3) const_mat_def)
  moreover have "filled_rows (\<lambda>i j. L ! i ! j) ?r ?c (map (map Some) (const_mat ?r ?c 0)) = map (map Some) L"
    by (rule full_rows [OF L]) (simp_all add: const_mat_def)
  ultimately obtain h' where h': "mfold (\<lambda>i. mfold (\<lambda>j. write_entry p i j (L ! i ! j)) [0..<?c]) [0..<?r] h1 = Some h'"
      "rows_at h' p as (map (map Some) L)" "differs_at (set as) h1 h'" by auto
  have cong: "mfold f xs s = mfold g xs s" if "\<And>x s. x \<in> set xs \<Longrightarrow> f x s = g x s" for f g :: "nat \<Rightarrow> mheap \<Rightarrow> mheap option" and xs s
    using that by (induction xs arbitrary: s) (simp_all cong: Option.bind_cong)
  have len: "length (L ! i) = ?c" if "i < ?r" for i using assms(2) that by simp
  have "mfold (\<lambda>i h. if length (L ! i) \<noteq> ?c then None
      else mfold (\<lambda>j h. Option.bind (mo_ptr \<lparr>mo_ptr = Some p, mo_rows = ?r, mo_cols = ?c\<rparr>) (\<lambda>p. write_entry p i j (L ! i ! j) h)) [0..<length (L ! i)] h)
      [0..<?r] h1 = Some h'"
    unfolding h'(1) [symmetric] by (rule cong) (simp add: len)
  then have "mo_of_list L h = Some (\<lparr>mo_ptr = Some p, mo_rows = ?r, mo_cols = ?c\<rparr>, h')"
    using pos r(1) by (simp add: mo_of_list_def Let_def)
  moreover have "owned h' \<lparr>mo_ptr = Some p, mo_rows = ?r, mo_cols = ?c\<rparr> L (set (p # as))" by (rule owned_rows [OF h'(2) r(3) pos L])
  moreover have "moves h {} h' (set (p # as))" by (rule moves_differs [OF r(5) h'(3)]) auto
  ultimately show ?thesis using True by auto
next
  case False
  have z: "mfold (\<lambda>i h. if length (L ! i) \<noteq> 0 then None else f i h) [0..<length L] h = Some h" if "\<And>i h. L ! i = [] \<Longrightarrow> f i h = Some h" for f
  proof -
    have "L ! i = []" if "i < length L" for i using False assms(2) that by (metis length_0_conv nth_mem length_pos_if_in_set less_irrefl list.size(3))
    then have "mfold (\<lambda>i h. if length (L ! i) \<noteq> 0 then None else f i h) [0..<length L] h = Some (fold (\<lambda>_ h. h) [0..<length L] h)"
      by (intro mfold_total) (simp add: that)
    moreover have "fold (\<lambda>_ h. h) xs h = h" for xs :: "nat list" by (induction xs) simp_all
    ultimately show ?thesis by simp
  qed
  have c: "(if length L = 0 then 0 else length (hd L)) = 0" using False by auto
  have "mo_of_list L h = Some (\<lparr>mo_ptr = None, mo_rows = length L, mo_cols = 0\<rparr>, h)"
    unfolding mo_of_list_def Let_def c
    by (simp only: less_irrefl if_False bind.simps prod.case matrix_obj.select_convs) (subst z, simp_all)
  moreover have "moves h {} h {}" using assms(1) by (simp add: moves_def)
  ultimately show ?thesis using False by (auto simp: owned_def)
qed

section \<open>Programs\<close>

text \<open>
  Statements on matrix variables, which are local objects of a program: a declaration with one of the
  constructors, the operations, and the end of the variable's life.
\<close>

datatype matrix_cmd =
    Declare nat
  | Declare_size nat nat nat
  | Declare_list nat "real list list"
  | Declare_copy nat nat
  | Assign nat nat
  | Resize nat nat nat real
  | Store nat nat nat real
  | Clear nat
  | End_of_life nat

type_synonym matrix_store = "(nat \<rightharpoonup> matrix_obj) \<times> mheap"

definition declare_var :: "nat \<Rightarrow> (mheap \<Rightarrow> (matrix_obj \<times> mheap) option) \<Rightarrow> matrix_store \<Rightarrow> matrix_store option" where
  "declare_var x f = (\<lambda>(vs, h). if vs x \<noteq> None then None else map_option (\<lambda>(m, h). (vs(x \<mapsto> m), h)) (f h))"

definition change_var :: "nat \<Rightarrow> (matrix_obj \<Rightarrow> mheap \<Rightarrow> (matrix_obj \<times> mheap) option) \<Rightarrow> matrix_store \<Rightarrow> matrix_store option" where
  "change_var x f = (\<lambda>(vs, h). Option.bind (vs x) (\<lambda>m. map_option (\<lambda>(m, h). (vs(x \<mapsto> m), h)) (f m h)))"

fun exec_matrix :: "matrix_cmd \<Rightarrow> matrix_store \<Rightarrow> matrix_store option" where
  "exec_matrix (Declare x) s = declare_var x (\<lambda>h. Some (null_matrix, h)) s"
| "exec_matrix (Declare_size x r c) s = declare_var x (mo_new r c) s"
| "exec_matrix (Declare_list x L) s = declare_var x (mo_of_list L) s"
| "exec_matrix (Declare_copy x y) (vs, h) = Option.bind (vs y) (\<lambda>m. declare_var x (mo_copy m) (vs, h))"
| "exec_matrix (Assign x y) (vs, h) = Option.bind (vs y) (\<lambda>n. change_var x (\<lambda>m. mo_assign (x = y) m n) (vs, h))"
| "exec_matrix (Resize x r c d) s = change_var x (mo_resize r c d) s"
| "exec_matrix (Store x i j v) s = change_var x (\<lambda>m h. map_option (Pair m) (mo_put m i j v h)) s"
| "exec_matrix (Clear x) s = change_var x (\<lambda>m h. map_option (Pair m) (mo_clear m h)) s"
| "exec_matrix (End_of_life x) (vs, h) = Option.bind (vs x) (\<lambda>m. map_option (Pair (vs(x := None))) (mo_destroy m h))"

text \<open>The same statements on values, with what the assertions demand and the condition of the empty assignment.\<close>

type_synonym mat_store = "nat \<rightharpoonup> mat"

definition bind_var :: "nat \<Rightarrow> mat option \<Rightarrow> mat_store \<Rightarrow> mat_store option" where
  "bind_var x v vs = map_option (\<lambda>v. vs(x \<mapsto> v)) v"

fun spec_matrix :: "matrix_cmd \<Rightarrow> mat_store \<Rightarrow> mat_store option" where
  "spec_matrix (Declare x) vs = (if vs x \<noteq> None then None else bind_var x (Some []) vs)"
| "spec_matrix (Declare_size x r c) vs = (if vs x \<noteq> None \<or> r = 0 \<or> c = 0 then None else bind_var x (Some (const_mat r c 0)) vs)"
| "spec_matrix (Declare_list x L) vs =
     (if vs x \<noteq> None \<or> (\<exists>row\<in>set L. length row \<noteq> length (hd L)) then None
      else bind_var x (Some (if L \<noteq> [] \<and> hd L \<noteq> [] then L else [])) vs)"
| "spec_matrix (Declare_copy x y) vs = (if vs x \<noteq> None then None else bind_var x (vs y) vs)"
| "spec_matrix (Assign x y) vs = Option.bind (vs x) (\<lambda>V. Option.bind (vs y) (\<lambda>W. if W = [] \<and> \<not> may_empty V then None else bind_var x (Some W) vs))"
| "spec_matrix (Resize x r c d) vs =
     Option.bind (vs x) (\<lambda>V. if r = 0 \<or> c = 0 then None else bind_var x (Some (if V = [] then const_mat r c 0 else mx_resize V r c d)) vs)"
| "spec_matrix (Store x i j v) vs =
     Option.bind (vs x) (\<lambda>V. if i < length V \<and> j < length (V ! i) then bind_var x (Some (V[i := (V ! i)[j := v]])) vs else None)"
| "spec_matrix (Clear x) vs = Option.bind (vs x) (\<lambda>V. if V = [] then None else bind_var x (Some (const_mat (length V) (n_cols V) 0)) vs)"
| "spec_matrix (End_of_life x) vs = (if vs x = None then None else Some (vs(x := None)))"

text \<open>
  The variables own disjoint parts of the heap, and nothing else is allocated; \<open>Fs\<close> says which part is
  whose.
\<close>

definition store_ok :: "mat_store \<Rightarrow> (nat \<Rightarrow> nat set) \<Rightarrow> matrix_store \<Rightarrow> bool" where
  "store_ok A Fs = (\<lambda>(vs, h). heap_ok h \<and> dom vs = dom A \<and> (\<forall>x\<in>dom A. owned h (the (vs x)) (the (A x)) (Fs x)) \<and>
     (\<forall>x\<in>dom A. \<forall>y\<in>dom A. x \<noteq> y \<longrightarrow> Fs x \<inter> Fs y = {}) \<and> dom (hp_blocks h) = (\<Union>x\<in>dom A. Fs x))"

lemma store_lookup: "store_ok A Fs (vs, h) \<Longrightarrow> A x = Some V \<Longrightarrow> \<exists>m. vs x = Some m \<and> owned h m V (Fs x)"
proof -
  assume s: "store_ok A Fs (vs, h)" and A: "A x = Some V"
  have x: "x \<in> dom A" using A by blast
  have d: "dom vs = dom A" and own: "owned h (the (vs x)) (the (A x)) (Fs x)" using s x unfolding store_ok_def prod.case by blast+
  obtain m where "vs x = Some m" using x d by blast
  then show ?thesis using own A by simp
qed

lemma store_none: "store_ok A Fs (vs, h) \<Longrightarrow> A x = None \<longleftrightarrow> vs x = None"
proof -
  assume "store_ok A Fs (vs, h)"
  then have "dom vs = dom A" by (simp add: store_ok_def)
  then show ?thesis by (metis domIff)
qed

text \<open>A variable gets a new value and new blocks in place of its old ones.\<close>

lemma store_update:
  assumes "store_ok A Fs (vs, h)" "F = (if A x = None then {} else Fs x)" "moves h F h' F'" "owned h' m V F'"
  shows "store_ok (A(x \<mapsto> V)) (Fs(x := F')) (vs(x \<mapsto> m), h')"
proof -
  have s: "heap_ok h" "dom vs = dom A" "\<And>y. y \<in> dom A \<Longrightarrow> owned h (the (vs y)) (the (A y)) (Fs y)"
      "\<And>y z. y \<in> dom A \<Longrightarrow> z \<in> dom A \<Longrightarrow> y \<noteq> z \<Longrightarrow> Fs y \<inter> Fs z = {}" "dom (hp_blocks h) = (\<Union>y\<in>dom A. Fs y)"
    using assms(1) by (simp_all add: store_ok_def)
  have m: "heap_ok h'" "dom (hp_blocks h') = (dom (hp_blocks h) - F) \<union> F'" "F' \<inter> (dom (hp_blocks h) - F) = {}"
      "\<And>a. a \<in> dom (hp_blocks h) - F \<Longrightarrow> hp_blocks h' a = hp_blocks h a"
    using assms(3) by (auto simp: moves_def)
  have sub: "Fs y \<subseteq> dom (hp_blocks h) - F" if "y \<in> dom A" "y \<noteq> x" for y
    using s(4) [of y x] s(5) that assms(2) by (auto simp: dom_def split: if_splits)
  have old: "owned h' (the (vs y)) (the (A y)) (Fs y)" if "y \<in> dom A" "y \<noteq> x" for y
    by (rule owned_local [OF s(3) [OF that(1)]]) (use sub [OF that] m(4) in blast)
  have new: "F' \<inter> Fs y = {}" if "y \<in> dom A" "y \<noteq> x" for y using sub [OF that] m(3) by blast
  have d: "dom (hp_blocks h) - F = (\<Union>y\<in>dom A - {x}. Fs y)"
  proof (cases "A x")
    case None
    then have "dom A - {x} = dom A" by blast
    then show ?thesis using assms(2) s(5) None by simp
  next
    case (Some U)
    then have "x \<in> dom A" "F = Fs x" using assms(2) by auto
    then show ?thesis unfolding s(5) using s(4) by blast
  qed
  have "dom (hp_blocks h') = (\<Union>y\<in>dom (A(x \<mapsto> V)). (Fs(x := F')) y)" unfolding m(2) d by auto
  moreover have "(Fs(x := F')) y \<inter> (Fs(x := F')) z = {}" if "y \<in> dom (A(x \<mapsto> V))" "z \<in> dom (A(x \<mapsto> V))" "y \<noteq> z" for y z
    using that new s(4) by (cases "y = x"; cases "z = x") (simp_all add: Int_commute)
  ultimately show ?thesis using m(1) s(2) old assms(4) by (auto simp: store_ok_def)
qed

lemma store_remove:
  assumes "store_ok A Fs (vs, h)" "A x = Some V" "moves h (Fs x) h' {}"
  shows "store_ok (A(x := None)) Fs (vs(x := None), h')"
proof -
  have s: "dom vs = dom A" "\<And>y. y \<in> dom A \<Longrightarrow> owned h (the (vs y)) (the (A y)) (Fs y)"
      "\<And>y z. y \<in> dom A \<Longrightarrow> z \<in> dom A \<Longrightarrow> y \<noteq> z \<Longrightarrow> Fs y \<inter> Fs z = {}" "dom (hp_blocks h) = (\<Union>y\<in>dom A. Fs y)"
    using assms(1) by (simp_all add: store_ok_def)
  have x: "x \<in> dom A" using assms(2) by blast
  have m: "heap_ok h'" "dom (hp_blocks h') = dom (hp_blocks h) - Fs x" "\<And>a. a \<in> dom (hp_blocks h) - Fs x \<Longrightarrow> hp_blocks h' a = hp_blocks h a"
    using assms(3) by (auto simp: moves_def)
  have sub: "Fs y \<subseteq> dom (hp_blocks h) - Fs x" if "y \<in> dom A" "y \<noteq> x" for y using s(3) [OF that(1) x that(2)] s(4) that(1) by blast
  have old: "owned h' (the (vs y)) (the (A y)) (Fs y)" if "y \<in> dom A" "y \<noteq> x" for y
    by (rule owned_local [OF s(2) [OF that(1)]]) (use sub [OF that] m(3) in blast)
  have "dom (hp_blocks h') = (\<Union>y\<in>dom A - {x}. Fs y)" unfolding m(2) s(4) using s(3) x by blast
  then show ?thesis using m(1) s(1,3) old by (auto simp: store_ok_def)
qed

lemma declare_ok:
  assumes "store_ok A Fs (vs, h)" "A x = None" "\<exists>m h' F'. f h = Some (m, h') \<and> owned h' m V F' \<and> moves h {} h' F'"
  shows "\<exists>vs' h' Fs'. declare_var x f (vs, h) = Some (vs', h') \<and> store_ok (A(x \<mapsto> V)) Fs' (vs', h')"
proof -
  obtain m h' F' where f: "f h = Some (m, h')" "owned h' m V F'" "moves h {} h' F'" using assms(3) by blast
  have "store_ok (A(x \<mapsto> V)) (Fs(x := F')) (vs(x \<mapsto> m), h')" using store_update [OF assms(1) _ f(3,2), of x] assms(2) by simp
  moreover have "vs x = None" using store_none [OF assms(1), of x] assms(2) by simp
  ultimately show ?thesis using f(1) by (auto simp: declare_var_def)
qed

lemma change_ok:
  assumes "store_ok A Fs (vs, h)" "A x = Some V" "\<And>m. vs x = Some m \<Longrightarrow> owned h m V (Fs x) \<Longrightarrow> \<exists>m' h' F'. f m h = Some (m', h') \<and> owned h' m' W F' \<and> moves h (Fs x) h' F'"
  shows "\<exists>vs' h' Fs'. change_var x f (vs, h) = Some (vs', h') \<and> store_ok (A(x \<mapsto> W)) Fs' (vs', h')"
proof -
  obtain m where m: "vs x = Some m" "owned h m V (Fs x)" using store_lookup [OF assms(1,2)] by blast
  from assms(3) [OF m] obtain m' h' F' where f: "f m h = Some (m', h')" "owned h' m' W F'" "moves h (Fs x) h' F'" by blast
  have "store_ok (A(x \<mapsto> W)) (Fs(x := F')) (vs(x \<mapsto> m'), h')" using store_update [OF assms(1) _ f(3,2), of x] assms(2) by simp
  then show ?thesis using f(1) m(1) by (auto simp: change_var_def)
qed

lemma resize_ok:
  assumes "heap_ok h" "owned h m V F" "0 < r" "0 < c"
  shows "\<exists>m' h' F'. mo_resize r c d m h = Some (m', h') \<and> owned h' m' (if V = [] then const_mat r c 0 else mx_resize V r c d) F' \<and> moves h F h' F'"
proof -
  obtain p as h' where o1: "mo_resize r c d m h = Some (\<lparr>mo_ptr = Some p, mo_rows = r, mo_cols = c\<rparr>, h')" "length as = r"
    "rows_at h' p as (map (map Some) (if V = [] then const_mat r c 0 else mx_resize V r c d))" "moves h F h' (set (p # as))"
    by (rule resize_owned [OF assms, of d])
  have "is_mat r c (if V = [] then const_mat r c 0 else mx_resize V r c d)" by (simp add: const_mat_simps(1) is_mat_resize)
  then have "owned h' \<lparr>mo_ptr = Some p, mo_rows = r, mo_cols = c\<rparr> (if V = [] then const_mat r c 0 else mx_resize V r c d) (set (p # as))"
    by (rule owned_rows [OF o1(3,2) assms(3,4)])
  then show ?thesis using o1(1,4) by blast
qed

lemma owned_null: "owned h null_matrix [] {}"
  by (simp add: owned_def null_matrix_def)

lemma exec_spec:
  assumes "store_ok A Fs s" "spec_matrix c A = Some A'"
  shows "\<exists>s' Fs'. exec_matrix c s = Some s' \<and> store_ok A' Fs' s'"
proof -
  obtain vs h where s: "s = (vs, h)" by (cases s)
  have st: "store_ok A Fs (vs, h)" using assms(1) s by simp
  then have ok: "heap_ok h" by (simp add: store_ok_def)
  have dis: "Fs x \<inter> Fs y = {}" if "A x = Some V" "A y = Some W" "x \<noteq> y" for x y V W
    using st that by (auto simp: store_ok_def) blast
  show ?thesis
  proof (cases c)
    case (Declare x)
    have "moves h {} h {}" using ok by (simp add: moves_def)
    then show ?thesis using declare_ok [OF st, of x "\<lambda>h. Some (null_matrix, h)" "[]"] assms(2) owned_null [of h]
      by (auto simp: Declare s bind_var_def split: if_splits)
  next
    case (Declare_size x r k)
    then have a: "A x = None" "0 < r" "0 < k" "A' = A(x \<mapsto> const_mat r k 0)" using assms(2) by (auto simp: bind_var_def split: if_splits)
    have "\<exists>m h' F'. mo_new r k h = Some (m, h') \<and> owned h' m (const_mat r k 0) F' \<and> moves h {} h' F'"
      using resize_ok [OF ok owned_null a(2,3), of 0] by (simp add: mo_new_def)
    from declare_ok [where f = "mo_new r k" and V = "const_mat r k 0", OF st a(1) this] show ?thesis by (auto simp: Declare_size s a(4))
  next
    case (Declare_list x L)
    then have a: "A x = None" "\<forall>row\<in>set L. length row = length (hd L)" "A' = A(x \<mapsto> (if L \<noteq> [] \<and> hd L \<noteq> [] then L else []))"
      using assms(2) by (auto simp: bind_var_def split: if_splits)
    from declare_ok [where f = "mo_of_list L" and V = "if L \<noteq> [] \<and> hd L \<noteq> [] then L else []", OF st a(1) of_list_owned [OF ok a(2)]] show ?thesis unfolding Declare_list s a(3) by auto
  next
    case (Declare_copy x y)
    then obtain W where a: "A x = None" "A y = Some W" "A' = A(x \<mapsto> W)" using assms(2) by (auto simp: bind_var_def split: if_splits)
    obtain m where m: "vs y = Some m" "owned h m W (Fs y)" using store_lookup [OF st a(2)] by blast
    from declare_ok [where f = "mo_copy m" and V = W, OF st a(1) copy_owned [OF ok m(2)]] show ?thesis by (auto simp: Declare_copy s a(3) m(1))
  next
    case (Assign x y)
    then obtain V W where a: "A x = Some V" "A y = Some W" "W = [] \<Longrightarrow> may_empty V" "A' = A(x \<mapsto> W)"
      using assms(2) by (auto simp: bind_var_def bind_eq_Some_conv split: if_splits)
    obtain m where m: "vs y = Some m" "owned h m W (Fs y)" using store_lookup [OF st a(2)] by blast
    have "\<exists>vs' h' Fs'. change_var x (\<lambda>m'. mo_assign (x = y) m' m) (vs, h) = Some (vs', h') \<and> store_ok (A(x \<mapsto> W)) Fs' (vs', h')"
    proof (rule change_ok [OF st a(1)])
      fix m' assume m': "vs x = Some m'" "owned h m' V (Fs x)"
      show "\<exists>m'' h' F'. mo_assign (x = y) m' m h = Some (m'', h') \<and> owned h' m'' W F' \<and> moves h (Fs x) h' F'"
      proof (cases "x = y")
        case True
        then show ?thesis using assign_self [OF ok m(2)] m m' by simp
      next
        case False
        then show ?thesis using assign_owned [OF ok m'(2) m(2) dis [OF a(1,2) False] a(3)] by simp
      qed
    qed
    then show ?thesis by (auto simp: Assign s a(4) m(1))
  next
    case (Resize x r k d)
    then obtain V where a: "A x = Some V" "0 < r" "0 < k" "A' = A(x \<mapsto> (if V = [] then const_mat r k 0 else mx_resize V r k d))"
      using assms(2) by (auto simp: bind_var_def bind_eq_Some_conv split: if_splits)
    have "\<exists>vs' h' Fs'. change_var x (mo_resize r k d) (vs, h) = Some (vs', h') \<and>
        store_ok (A(x \<mapsto> (if V = [] then const_mat r k 0 else mx_resize V r k d))) Fs' (vs', h')"
      by (rule change_ok [OF st a(1)]) (rule resize_ok [OF ok _ a(2,3)])
    then show ?thesis unfolding Resize s a(4) by auto
  next
    case (Store x i j v)
    then obtain V where a: "A x = Some V" "i < length V" "j < length (V ! i)" "A' = A(x \<mapsto> V[i := (V ! i)[j := v]])"
      using assms(2) by (auto simp: bind_var_def bind_eq_Some_conv split: if_splits)
    have "\<exists>vs' h' Fs'. change_var x (\<lambda>m h. map_option (Pair m) (mo_put m i j v h)) (vs, h) = Some (vs', h') \<and>
        store_ok (A(x \<mapsto> V[i := (V ! i)[j := v]])) Fs' (vs', h')"
    proof (rule change_ok [OF st a(1)])
      fix m assume "owned h m V (Fs x)"
      from put_owned [OF ok this a(2,3), of v]
      show "\<exists>m' h' F'. map_option (Pair m) (mo_put m i j v h) = Some (m', h') \<and> owned h' m' (V[i := (V ! i)[j := v]]) F' \<and> moves h (Fs x) h' F'" by auto
    qed
    then show ?thesis by (auto simp: Store s a(4))
  next
    case (Clear x)
    then obtain V where a: "A x = Some V" "V \<noteq> []" "A' = A(x \<mapsto> const_mat (length V) (n_cols V) 0)"
      using assms(2) by (auto simp: bind_var_def bind_eq_Some_conv split: if_splits)
    have "\<exists>vs' h' Fs'. change_var x (\<lambda>m h. map_option (Pair m) (mo_clear m h)) (vs, h) = Some (vs', h') \<and>
        store_ok (A(x \<mapsto> const_mat (length V) (n_cols V) 0)) Fs' (vs', h')"
    proof (rule change_ok [OF st a(1)])
      fix m assume "owned h m V (Fs x)"
      from clear_owned [OF ok this a(2)]
      show "\<exists>m' h' F'. map_option (Pair m) (mo_clear m h) = Some (m', h') \<and> owned h' m' (const_mat (length V) (n_cols V) 0) F' \<and> moves h (Fs x) h' F'" by auto
    qed
    then show ?thesis by (auto simp: Clear s a(3))
  next
    case (End_of_life x)
    then obtain V where a: "A x = Some V" "A' = A(x := None)" using assms(2) by (auto split: if_splits)
    obtain m where m: "vs x = Some m" "owned h m V (Fs x)" using store_lookup [OF st a(1)] by blast
    obtain h' where h': "mo_destroy m h = Some h'" "moves h (Fs x) h' {}" using destroy_owned [OF ok m(2)] by blast
    then show ?thesis using store_remove [OF st a(1) h'(2)] by (auto simp: End_of_life s a(2) m(1))
  qed
qed

lemma program_spec: "mfold spec_matrix cs A = Some A' \<Longrightarrow> store_ok A Fs s \<Longrightarrow> \<exists>s' Fs'. mfold exec_matrix cs s = Some s' \<and> store_ok A' Fs' s'"
proof (induction cs arbitrary: A Fs s)
  case Nil
  then show ?case by auto
next
  case (Cons c cs)
  then obtain A1 where A1: "spec_matrix c A = Some A1" "mfold spec_matrix cs A1 = Some A'" by (auto simp: bind_eq_Some_conv)
  obtain s1 Fs1 where "exec_matrix c s = Some s1" "store_ok A1 Fs1 s1" using exec_spec [OF Cons.prems(2) A1(1)] by blast
  then show ?case using Cons.IH [OF A1(2)] by simp
qed

lemma start_ok: "store_ok Map.empty (\<lambda>_. {}) (Map.empty, empty_heap)"
  by (simp add: store_ok_def empty_heap_def heap_ok_def)

section \<open>An empty matrix assigned to one that is not square\<close>

lemma mfold_append: "mfold f (xs @ ys) s = Option.bind (mfold f xs s) (mfold f ys)"
proof (induction xs arbitrary: s)
  case (Cons x xs)
  then show ?case by (cases "f x s") simp_all
qed simp

lemma free_rows_beyond:
  assumes "rows_at h p as X" "length as < n"
  shows "free_rows p n h = None"
proof -
  obtain h' where h': "free_rows p (length as) h = Some h'" "hp_blocks h' = hp_blocks h |` (- set as)"
    using free_rows_ok [OF assms(1) order_refl] by auto
  have "p \<notin> set as" "hp_blocks h p = Some (Table (map Some as))" using assms(1) by (simp_all add: rows_at_def)
  then have "row_addr p (length as) h' = None" using h'(2) by (simp add: row_addr_def)
  moreover obtain k where "n = length as + Suc k" using less_imp_Suc_add [OF assms(2)] by auto
  then have "[0..<n] = [0..<length as] @ length as # [Suc (length as)..<n]"
    using upt_add_eq_append [of 0 "length as" "Suc k"] by (simp add: upt_conv_Cons del: upt_Suc)
  ultimately show ?thesis using h'(1) unfolding free_rows_def by (simp add: mfold_append)
qed

lemma release_some:
  assumes "rows_at h p as X" "n \<le> length as" "dom (hp_blocks h) = set (p # as)"
  shows "\<exists>h'. Option.bind (free_rows p n h) (delete_block p) = Some h' \<and> card (dom (hp_blocks h')) = length as - n"
proof -
  obtain h1 where h1: "free_rows p n h = Some h1" "hp_blocks h1 = hp_blocks h |` (- set (take n as))"
    using free_rows_ok [OF assms(1,2)] by auto
  have d: "p \<notin> set as" "distinct as" using assms(1) by (simp_all add: rows_at_def)
  then have "p \<notin> set (take n as)" by (meson in_set_takeD)
  then have "hp_blocks h1 p \<noteq> None" using assms(1) h1(2) by (simp add: rows_at_def)
  then obtain h2 where h2: "delete_block p h1 = Some h2" "hp_blocks h2 = (hp_blocks h1)(p := None)" by (simp add: delete_block_def)
  have "set as = set (take n as) \<union> set (drop n as)" by (metis append_take_drop_id set_append)
  moreover have "set (take n as) \<inter> set (drop n as) = {}" by (rule set_take_disj_set_drop_if_distinct [OF d(2) order_refl])
  ultimately have "dom (hp_blocks h2) = set (drop n as)" unfolding h2(2) h1(2) using assms(3) d(1) by auto
  then show ?thesis using h1(1) h2(1) d(2) by (simp add: distinct_card)
qed

text \<open>Two declarations, the second matrix empty; what the assignment then works on.\<close>

lemma two_declared:
  assumes "0 < r" "0 < c"
  obtains vs h m p as X n where "mfold exec_matrix [Declare_size 0 r c, Declare 1] (Map.empty, empty_heap) = Some (vs, h)"
    "vs 0 = Some m" "vs 1 = Some n" "dom vs = {0, 1}" "mo_ptr n = None" "mo_ptr m = Some p" "mo_cols m = c" "rows_at h p as X" "length as = r"
    "dom (hp_blocks h) = set (p # as)"
proof -
  have sp: "mfold spec_matrix [Declare_size 0 r c, Declare 1] Map.empty = Some [0 \<mapsto> const_mat r c 0, 1 \<mapsto> []]"
    using assms by (simp add: bind_var_def)
  obtain vs h Fs where e: "mfold exec_matrix [Declare_size 0 r c, Declare 1] (Map.empty, empty_heap) = Some (vs, h)"
      and st: "store_ok [0 \<mapsto> const_mat r c 0, 1 \<mapsto> []] Fs (vs, h)"
    using program_spec [OF sp start_ok] by (metis surj_pair)
  obtain m where m: "vs 0 = Some m" "owned h m (const_mat r c 0) (Fs 0)" using store_lookup [OF st, of 0] by auto
  obtain n where n: "vs 1 = Some n" "owned h n [] (Fs 1)" using store_lookup [OF st, of 1] by auto
  from m(2) obtain p as where p: "mo_ptr m = Some p" "rows_at h p as (map (map Some) (const_mat r c 0))" "length as = mo_rows m" "Fs 0 = set (p # as)"
      "length (const_mat r c 0) = mo_rows m" "n_cols (const_mat r c 0) = mo_cols m"
    using assms(1) by (cases rule: owned_cases) (auto simp: const_mat_def)
  from n(2) have q: "mo_ptr n = None" "Fs 1 = {}" by (cases rule: owned_cases; simp)+
  have "dom vs = {0, 1}" "dom (hp_blocks h) = set (p # as)" using st p(4) q(2) by (auto simp: store_ok_def)
  moreover have "mo_cols m = c" "length as = r"
    using p(3,5,6) n_cols_is_mat [OF const_mat_simps(1), of r c 0] assms(1) by (simp_all add: const_mat_simps(3))
  ultimately show ?thesis using that [OF e m(1) n(1) _ q(1) p(1) _ p(2)] by simp
qed

text \<open>
  \<open>operator=\<close> counts the rows of the matrix it empties by its columns.  With more columns than
  rows it reads row pointers beyond the table; with fewer, the other rows stay allocated after both
  matrices are gone.
\<close>

lemma assign_empty_nonsquare:
  assumes "0 < r" "0 < c"
  shows "(r < c \<longrightarrow> mfold exec_matrix [Declare_size 0 r c, Declare 1, Assign 0 1] (Map.empty, empty_heap) = None) \<and>
    (c \<le> r \<longrightarrow> (\<exists>vs h. mfold exec_matrix [Declare_size 0 r c, Declare 1, Assign 0 1, End_of_life 0, End_of_life 1] (Map.empty, empty_heap) = Some (vs, h) \<and>
      dom vs = {} \<and> card (dom (hp_blocks h)) = r - c))"
proof -
  obtain vs h m p as X n where t: "mfold exec_matrix [Declare_size 0 r c, Declare 1] (Map.empty, empty_heap) = Some (vs, h)"
    "vs 0 = Some m" "vs 1 = Some n" "dom vs = {0, 1}" "mo_ptr n = None" "mo_ptr m = Some p" "mo_cols m = c" "rows_at h p as X" "length as = r"
    "dom (hp_blocks h) = set (p # as)" by (rule two_declared [OF assms])
  have run: "mfold exec_matrix (Declare_size 0 r c # Declare 1 # cs) (Map.empty, empty_heap) = mfold exec_matrix cs (vs, h)" for cs
    using mfold_append [of exec_matrix "[Declare_size 0 r c, Declare 1]" cs "(Map.empty, empty_heap)"]
    unfolding t(1) append_Cons append_Nil bind.simps .
  have assign: "mo_assign False m n h = map_option (Pair null_matrix) (Option.bind (free_rows p c h) (delete_block p))"
    using t(5-7) by (simp add: mo_assign_def)
  have "mfold exec_matrix [Assign 0 1] (vs, h) = None" if "r < c"
    using free_rows_beyond [OF t(8), of c] that t(2,3,9) by (simp add: assign change_var_def)
  moreover have "\<exists>vs' h'. mfold exec_matrix [Assign 0 1, End_of_life 0, End_of_life 1] (vs, h) = Some (vs', h') \<and> dom vs' = {} \<and>
      card (dom (hp_blocks h')) = r - c" if cr: "c \<le> r"
  proof -
    obtain h' where h': "Option.bind (free_rows p c h) (delete_block p) = Some h'" "card (dom (hp_blocks h')) = r - c"
      using release_some [OF t(8) _ t(10), of c] cr t(9) by auto
    have "mo_destroy null_matrix h' = Some h'" "mo_destroy n h' = Some h'" using t(5) by (simp_all add: mo_destroy_def null_matrix_def)
    then have "mfold exec_matrix [Assign 0 1, End_of_life 0, End_of_life 1] (vs, h) = Some (vs(0 := None, 1 := None), h')"
      using h'(1) t(2,3) by (simp add: assign change_var_def)
    moreover have "dom (vs(0 := None, 1 := None)) = {}" unfolding dom_fun_upd t(4) by simp
    ultimately show ?thesis using h'(2) by blast
  qed
  ultimately show ?thesis unfolding run by blast
qed

section \<open>Infinite entries\<close>

text \<open>
  \<open>replace_infinites\<close>, by which \<open>solve\<close> starts; \<^const>\<open>None\<close> is the infinity of the machine's numbers.
  \<open>Munkres.solve\<close> takes matrices without infinities, which the function leaves as they are.
\<close>

definition finite_max :: "real option \<Rightarrow> real option \<Rightarrow> real option" where
  "finite_max mx v =
     (case v of None \<Rightarrow> mx | Some x \<Rightarrow> (case mx of None \<Rightarrow> Some x | Some m \<Rightarrow> Some (if m > x then m else x)))"

definition replace_infinites :: "real option list list \<Rightarrow> real option list list" where
  "replace_infinites matrix =
     (let mx = fold (fold (\<lambda>v mx. finite_max mx v)) matrix (matrix ! 0 ! 0); worst = (case mx of None \<Rightarrow> 0 | Some m \<Rightarrow> m + 1) in
      map (map (\<lambda>v. if v = None then Some worst else v)) matrix)"

lemma finite_max_simps [simp]: "finite_max mx None = mx" "finite_max None v = v" "finite_max (Some m) (Some x) = Some (max m x)"
  by (simp_all add: finite_max_def split: option.splits)

lemma finite_max_row: "fold (\<lambda>v mx. finite_max mx v) row mx = None \<Longrightarrow> mx = None \<and> set row \<subseteq> {None}"
  "fold (\<lambda>v mx. finite_max mx v) row mx = Some m \<Longrightarrow> (\<forall>x. mx = Some x \<or> Some x \<in> set row \<longrightarrow> x \<le> m)"
proof (induction row arbitrary: mx)
  case (Cons v row)
  { case 1 then show ?case using Cons.IH(1) [of "finite_max mx v"] by (cases mx; cases v) auto }
  { case 2 then show ?case using Cons.IH(2) [of "finite_max mx v"] by (cases mx; cases v) auto }
qed auto

lemma finite_max_rows: "fold (fold (\<lambda>v mx. finite_max mx v)) M mx = None \<Longrightarrow> mx = None \<and> (\<forall>row\<in>set M. set row \<subseteq> {None})"
  "fold (fold (\<lambda>v mx. finite_max mx v)) M mx = Some m \<Longrightarrow> (\<forall>x. mx = Some x \<or> (\<exists>row\<in>set M. Some x \<in> set row) \<longrightarrow> x \<le> m)"
proof (induction M arbitrary: mx)
  case (Cons row M)
  { case 1 then show ?case using Cons.IH(1) [of "fold (\<lambda>v mx. finite_max mx v) row mx"] finite_max_row(1) [of row mx] by auto }
  { case 2
    let ?mx = "fold (\<lambda>v mx. finite_max mx v) row mx"
    have rest: "\<forall>x. ?mx = Some x \<or> (\<exists>row\<in>set M. Some x \<in> set row) \<longrightarrow> x \<le> m" using 2 Cons.IH(2) [of ?mx] by simp
    show ?case
    proof (cases ?mx)
      case None
      then show ?thesis using rest finite_max_row(1) [OF None] by auto
    next
      case (Some y)
      then show ?thesis using rest finite_max_row(2) [OF Some] by fastforce
    qed }
qed auto

text \<open>
  \<open>replace_infinites\<close> leaves finite entries as they are and gives every infinite one the same
  finite cost, above all finite costs of the matrix: forbidden pairs are the worst ones.
\<close>

lemma infinities_become_worst:
  assumes "M \<noteq> []" "\<forall>row\<in>set M. row \<noteq> []"
  shows "\<exists>worst. replace_infinites M = map (map (\<lambda>v. Some (case v of None \<Rightarrow> worst | Some x \<Rightarrow> x))) M \<and>
    (\<forall>row\<in>set M. \<forall>x. Some x \<in> set row \<longrightarrow> x < worst)"
proof -
  let ?mx = "fold (fold (\<lambda>v mx. finite_max mx v)) M (M ! 0 ! 0)"
  let ?w = "case ?mx of None \<Rightarrow> 0 | Some m \<Rightarrow> m + 1"
  have "x < ?w" if "row \<in> set M" "Some x \<in> set row" for row x
  proof (cases ?mx)
    case None
    then show ?thesis using finite_max_rows(1) [OF None] that by blast
  next
    case (Some m)
    have "x \<le> m" using finite_max_rows(2) [OF Some] that by blast
    then show ?thesis using Some by simp
  qed
  moreover have "replace_infinites M = map (map (\<lambda>v. Some (case v of None \<Rightarrow> ?w | Some x \<Rightarrow> x))) M"
    by (simp add: replace_infinites_def Let_def split: option.split)
  ultimately show ?thesis by blast
qed

lemma finite_matrix_unchanged: "replace_infinites (map (map Some) V) = map (map Some) V"
  by (simp add: replace_infinites_def Let_def comp_def)

section \<open>The properties\<close>

text \<open>
  C11. Every program over matrix variables that keeps the class's assertions and does not assign an
  empty matrix to one that is not square runs on the heap without an access outside an allocation, a
  read of an unwritten entry or a second release; each variable then has the size, the entries and
  the maximum of its value, whatever happened to the others it was copied from or assigned to; and
  when no variable is alive nothing is allocated.
\<close>

theorem matrix_refines:
  assumes "mfold spec_matrix cs Map.empty = Some A"
  shows "\<exists>vs h. mfold exec_matrix cs (Map.empty, empty_heap) = Some (vs, h) \<and> dom vs = dom A \<and>
    (\<forall>x V. A x = Some V \<longrightarrow>
      (\<exists>m. vs x = Some m \<and> (\<forall>i<length V. \<forall>j<length (V ! i). mo_get m i j h = Some (V ! i ! j)) \<and>
        (V \<noteq> [] \<longrightarrow> mo_rows m = length V \<and> mo_cols m = n_cols V \<and> mo_minsize m = min (length V) (n_cols V) \<and>
          mo_extreme max m h = Some (mx_max V)))) \<and>
    (dom A = {} \<longrightarrow> hp_blocks h = Map.empty)"
proof -
  obtain vs h Fs where e: "mfold exec_matrix cs (Map.empty, empty_heap) = Some (vs, h)" and st: "store_ok A Fs (vs, h)"
    using program_spec [OF assms start_ok] by (metis surj_pair)
  have "dom vs = dom A" "dom A = {} \<longrightarrow> hp_blocks h = Map.empty" using st by (auto simp: store_ok_def)
  moreover have "\<exists>m. vs x = Some m \<and> (\<forall>i<length V. \<forall>j<length (V ! i). mo_get m i j h = Some (V ! i ! j)) \<and>
      (V \<noteq> [] \<longrightarrow> mo_rows m = length V \<and> mo_cols m = n_cols V \<and> mo_minsize m = min (length V) (n_cols V) \<and> mo_extreme max m h = Some (mx_max V))"
    if V: "A x = Some V" for x V
  proof -
    obtain m where m: "vs x = Some m" "owned h m V (Fs x)" using store_lookup [OF st V] by blast
    have "V \<noteq> [] \<longrightarrow> mo_rows m = length V \<and> mo_cols m = n_cols V" using m(2) by (cases rule: owned_cases) simp_all
    then show ?thesis using m get_owned extreme_owned [OF m(2), of max] by (auto simp: mo_minsize_def mx_max_def)
  qed
  ultimately show ?thesis using e by blast
qed

theorem matrix_refines_witness:
  "\<exists>vs h m. mfold exec_matrix [Declare_size 0 1 2, Store 0 0 1 5, Declare_copy 1 0, Resize 1 2 3 7, Assign 0 1, End_of_life 1]
     (Map.empty, empty_heap) = Some (vs, h) \<and> vs 0 = Some m \<and> vs 1 = None \<and> mo_get m 0 1 h = Some 5 \<and> mo_get m 1 2 h = Some 7"
proof -
  let ?V = "[[0, 5, 7], [7, 7, 7]] :: mat"
  have "mfold spec_matrix [Declare_size 0 1 2, Store 0 0 1 5, Declare_copy 1 0, Resize 1 2 3 7, Assign 0 1, End_of_life 1] Map.empty = Some [0 \<mapsto> ?V]"
    by (simp add: bind_var_def const_mat_def mx_resize_def mat_mk_def upt_rec numeral_2_eq_2 numeral_3_eq_3 fun_upd_twist n_cols_def)
  from matrix_refines [OF this] obtain vs h where e: "mfold exec_matrix [Declare_size 0 1 2, Store 0 0 1 5, Declare_copy 1 0, Resize 1 2 3 7, Assign 0 1, End_of_life 1]
      (Map.empty, empty_heap) = Some (vs, h)" "dom vs = dom [0 \<mapsto> ?V]"
      and g: "\<forall>x V. [0 \<mapsto> ?V] x = Some V \<longrightarrow> (\<exists>m. vs x = Some m \<and> (\<forall>i<length V. \<forall>j<length (V ! i). mo_get m i j h = Some (V ! i ! j)))"
    by (elim exE conjE) (rule that, assumption, assumption, blast)
  have "[0 \<mapsto> ?V] (0 :: nat) = Some ?V" by simp
  with g have "\<exists>m. vs 0 = Some m \<and> (\<forall>i<length ?V. \<forall>j<length (?V ! i). mo_get m i j h = Some (?V ! i ! j))" by blast
  then obtain m where m: "vs 0 = Some m" "\<And>i j. i < length ?V \<Longrightarrow> j < length (?V ! i) \<Longrightarrow> mo_get m i j h = Some (?V ! i ! j)" by blast
  have "(1 :: nat) \<notin> dom [0 \<mapsto> ?V]" by simp
  then have "vs 1 = None" unfolding e(2) [symmetric] domIff by blast
  moreover have "mo_get m 0 1 h = Some 5" "mo_get m 1 2 h = Some 7" using m(2) [of 0 1] m(2) [of 1 2] by (simp_all add: numeral_2_eq_2)
  ultimately show ?thesis using e(1) m(1) by blast
qed

end
