(* ===== verification/RknnFp.thy ===== *)
theory RknnFp imports DeepSort "HOL-Library.Word" begin

text \<open>
  \<open>src/src/deepsort/rknn_fp.cpp\<close>, the wrapper of the NPU that DeepSort's feature extraction inherits
  from, with the parts of \<open>featuretensor.cpp\<close> and \<open>deepsort.cpp\<close> that create and call it, and
  \<open>resize.cpp\<close>.  The RKNN runtime is a parameter: its answers to the constructor's calls, and what a
  run makes of the input memory and of the contents of the output memories.  The theory \<^theory_text>\<open>DeepSort\<close>
  takes the network as a function \<open>de_net\<close>; here it is the memory that the wrapper copies into and
  reads from, and the two are compared.
\<close>

section \<open>The runtime\<close>

datatype npu_type = Npu_uint8 | Npu_float32 | Npu_other

record npu_attr =
  na_n_elems :: nat
  na_dims :: "nat list"
  na_size_with_stride :: nat
  na_nhwc :: bool
  na_type :: npu_type

text \<open>
  \<open>ne_set_input\<close> and \<open>ne_set_output\<close> are told whether there is a memory; \<open>ne_run\<close> is given the number
  of the run, the input and the contents of the outputs, and returns a code, the outputs and the
  duration.
\<close>

record npu_env =
  ne_fopen :: bool
  ne_length :: nat
  ne_fread :: nat
  ne_init :: int
  ne_core_mask :: "int \<Rightarrow> int"
  ne_input_attr :: "nat \<Rightarrow> npu_attr option"
  ne_output_attr :: "nat \<Rightarrow> npu_attr option"
  ne_input_mem :: "nat \<Rightarrow> 8 word list option"
  ne_output_mem :: "nat \<Rightarrow> nat \<Rightarrow> real list option"
  ne_set_input :: "bool \<Rightarrow> int"
  ne_set_output :: "nat \<Rightarrow> bool \<Rightarrow> npu_type \<Rightarrow> int"
  ne_run :: "nat \<Rightarrow> 8 word list \<Rightarrow> real list list \<Rightarrow> int \<times> real list list \<times> int"

section \<open>The wrapper\<close>

text \<open>An element of \<open>_output_buff\<close>: never written, null, or the address of an output memory.\<close>

datatype buff = Unset | Null_buff | At_output nat

record rknn_fp =
  rk_cpu_id :: int
  rk_n_input :: nat
  rk_n_output :: nat
  rk_ctx :: bool
  rk_input_attr :: npu_attr
  rk_output_attrs :: "npu_attr list"
  rk_input_mem :: "8 word list option"
  rk_output_mems :: "real list option list"
  rk_output_buff :: "buff list"
  rk_model_data :: bool
  rk_runs :: nat

text \<open>
  The constructor ends the process, returns, or uses elements of its arrays that do not exist or, when
  there is no input, were never set.
\<close>

datatype npu_result = Npu_exit int | Npu_overrun | Npu_built rknn_fp

text \<open>The output memories: \<open>int output_size = n_elems * sizeof(float)\<close>, handed on as 32 bits.\<close>

definition output_size :: "npu_attr \<Rightarrow> nat" where
  "output_size a = (na_n_elems a * 4) mod 2 ^ 32"

definition rknn_construct :: "npu_env \<Rightarrow> int \<Rightarrow> int \<Rightarrow> nat \<Rightarrow> nat \<Rightarrow> npu_result" where
  "rknn_construct env cpuid core_mask n_input n_output =
     (if \<not> ne_fopen env \<or> ne_length env \<noteq> ne_fread env then Npu_exit (-1)
      else if ne_init env < 0 \<or> ne_core_mask env core_mask < 0 then Npu_exit (-1)
      else if n_input \<noteq> 1 then Npu_overrun
      else case ne_input_attr env 0 of
        None \<Rightarrow> Npu_exit (-1)
      | Some input \<Rightarrow>
        (let input = input\<lparr>na_type := Npu_uint8, na_nhwc := True\<rparr>;
             input_mem = ne_input_mem env (na_size_with_stride input) in
         if n_output > 3 then Npu_overrun
         else case all_some (map (ne_output_attr env) [0..<n_output]) of
           None \<Rightarrow> Npu_exit (-1)
         | Some outputs \<Rightarrow>
           (let mems = map (\<lambda>i. ne_output_mem env i (output_size (outputs ! i))) [0..<n_output] in
            if ne_set_input env (input_mem \<noteq> None) < 0 then Npu_exit (-1)
            else
              (let outputs = map (\<lambda>a. a\<lparr>na_type := Npu_float32\<rparr>) outputs in
               if \<exists>i<n_output. ne_set_output env i (mems ! i \<noteq> None) (na_type (outputs ! i)) < 0 then Npu_exit (-1)
               else Npu_built
                 \<lparr>rk_cpu_id = cpuid, rk_n_input = n_input, rk_n_output = n_output, rk_ctx = True, rk_input_attr = input,
                  rk_output_attrs = outputs, rk_input_mem = input_mem, rk_output_mems = mems,
                  rk_output_buff = replicate 3 Unset, rk_model_data = True, rk_runs = 0\<rparr>))))"

definition rknn_destroy :: "rknn_fp \<Rightarrow> rknn_fp" where
  "rknn_destroy s =
     s\<lparr>rk_input_mem := (if rk_n_input s = 0 then rk_input_mem s else None),
       rk_output_mems := map (\<lambda>_. None) (rk_output_mems s),
       rk_output_buff := map (\<lambda>i. if i < rk_n_output s then Null_buff else rk_output_buff s ! i) [0..<length (rk_output_buff s)],
       rk_ctx := False\<rparr>"

text \<open>
  \<open>inference\<close>; \<^const>\<open>None\<close> is an access outside the data or the memories.  The duration comes from a
  query whose result the code does not look at.
\<close>

definition input_bytes :: "npu_attr \<Rightarrow> nat" where
  "input_bytes a = na_dims a ! 2 * na_dims a ! 1 * na_dims a ! 3"

definition npu_inference :: "npu_env \<Rightarrow> 8 word list \<Rightarrow> rknn_fp \<Rightarrow> (int \<times> rknn_fp) option" where
  "npu_inference env data s =
     (let n = input_bytes (rk_input_attr s) in
      case (rk_input_mem s, all_some (rk_output_mems s)) of
        (Some mem, Some outs) \<Rightarrow>
          (if length data < n \<or> length mem < n then None
           else
             (let mem = take n data @ drop n mem;
                  (ret, outs, run_duration) = ne_run env (rk_runs s) mem outs;
                  s = s\<lparr>rk_input_mem := Some mem, rk_output_mems := map Some outs, rk_runs := rk_runs s + 1\<rparr>
              in if ret < 0 then Some (-1, s)
                 else Some (run_duration,
                   s\<lparr>rk_output_buff := map At_output [0..<rk_n_output s] @ drop (rk_n_output s) (rk_output_buff s)\<rparr>)))
      | _ \<Rightarrow> None)"

text \<open>\<open>cal_NPU_performance\<close>: the queue of the last ten durations and their sum.\<close>

definition cal_NPU_performance :: "real list \<Rightarrow> real \<Rightarrow> real \<Rightarrow> real \<times> real list \<times> real" where
  "cal_NPU_performance history_time sum_time cost_time =
     (if length history_time < 10 then
        (let h = history_time @ [cost_time]; s = sum_time + cost_time in (s / real (length h), h, s))
      else if length history_time = 10 then
        (let s = sum_time - hd history_time + cost_time; h = tl history_time @ [cost_time] in (s / real (length h), h, s))
      else (-1, history_time, sum_time))"

section \<open>Resizing\<close>

text \<open>
  \<open>PreResize\<close> of \<open>resize.cpp\<close>; \<open>fx\<close> and \<open>fy\<close> have no value before its \<open>init\<close>.  An image is a header
  with the address of its bytes; the bytes lie in a memory of buffers, in which \<open>resize_buf\<close> is the address
  that \<open>malloc\<close> returns.  RGA's check and scaling are parameters; the check is looked at after the
  scaling, and a failure ends the process.
\<close>

record pre_resize =
  input_height :: nat
  input_width :: nat
  input_channel :: nat
  pr_scale :: "(real \<times> real) option"

definition new_pre_resize :: "nat \<Rightarrow> nat \<Rightarrow> nat \<Rightarrow> pre_resize" where
  "new_pre_resize height width channel = \<lparr>input_height = height, input_width = width, input_channel = channel, pr_scale = None\<rparr>"

definition pre_resize_init :: "real \<Rightarrow> real \<Rightarrow> pre_resize \<Rightarrow> pre_resize" where
  "pre_resize_init fx fy s = s\<lparr>pr_scale := Some (fx, fy)\<rparr>"

record image_header =
  ih_cols :: nat
  ih_rows :: nat
  ih_data :: nat

definition resize_image ::
  "(image_header \<Rightarrow> image_header \<Rightarrow> bool) \<Rightarrow> (8 word list \<Rightarrow> image_header \<Rightarrow> image_header \<Rightarrow> 8 word list) \<Rightarrow> pre_resize \<Rightarrow> nat
     \<Rightarrow> image_header \<Rightarrow> (nat \<rightharpoonup> 8 word list) \<Rightarrow> (image_header \<times> (nat \<rightharpoonup> 8 word list)) option" where
  "resize_image imcheck imresize s resize_buf img mem =
     (let mem = mem(resize_buf \<mapsto> replicate (input_height s * input_width s * input_channel s) 0);
          src = img; dst = \<lparr>ih_cols = input_width s, ih_rows = input_height s, ih_data = resize_buf\<rparr>;
          ret = imcheck src dst;
          mem = mem(ih_data dst \<mapsto> imresize (case mem (ih_data src) of Some bs \<Rightarrow> bs | None \<Rightarrow> []) src dst)
      in if \<not> ret then None else Some (dst, mem(resize_buf := None)))"

text \<open>The image that \<open>resize\<close> hands out has no bytes: they have been freed.\<close>

lemma resized_image_dangles: "resize_image imcheck imresize s resize_buf img mem = Some (img', mem') \<Longrightarrow> mem' (ih_data img') = None"
  by (auto simp: resize_image_def Let_def split: if_splits)

text \<open>\<open>mytime.cpp\<close>: milliseconds, or 0 when the system call fails.\<close>

definition what_time_is_it_now :: "(nat \<times> nat) option \<Rightarrow> real" where
  "what_time_is_it_now gettimeofday =
     (case gettimeofday of None \<Rightarrow> 0 | Some (tv_sec, tv_usec) \<Rightarrow> real tv_sec * 1000 + real tv_usec * 0.001)"

section \<open>Feature extraction on the wrapper\<close>

record feature_tensor = rknn_fp +
  ft_shape :: "nat \<times> nat"    \<comment> \<open>width and height\<close>
  ft_feature_dim :: nat
  ft_pre_do :: pre_resize

definition ft_init :: "nat \<times> nat \<Rightarrow> nat \<Rightarrow> nat \<Rightarrow> rknn_fp \<Rightarrow> feature_tensor" where
  "ft_init netShape featureDim channel s =
     rknn_fp.extend s \<lparr>ft_shape = netShape, ft_feature_dim = featureDim,
       ft_pre_do = new_pre_resize (snd netShape) (fst netShape) channel\<rparr>"

text \<open>\<open>(float *)_output_buff[0]\<close>; an element that was never written is no address.\<close>

definition read_buff :: "rknn_fp \<Rightarrow> real list option" where
  "read_buff s =
     (case rk_output_buff s of
        At_output k # _ \<Rightarrow> if k < length (rk_output_mems s) then rk_output_mems s ! k else None
      | _ \<Rightarrow> None)"

record npu_work =
  nw_det :: "detection_row list"
  nw_history :: "real list"
  nw_sum :: real
  nw_performance :: real
  nw_npu :: rknn_fp

text \<open>A turn of the loop of \<open>doInference\<close>: the image \<open>i\<close> with its bytes.\<close>

definition npu_turn :: "npu_env \<Rightarrow> nat \<Rightarrow> nat \<times> 8 word list \<Rightarrow> npu_work \<Rightarrow> npu_work option" where
  "npu_turn env featureDim = (\<lambda>(i, data) w.
     Option.bind (npu_inference env data (nw_npu w)) (\<lambda>(cost_time, s).
     Option.bind (read_buff s) (\<lambda>output.
       if i \<ge> length (nw_det w) then None
       else
         Option.bind (write_feature featureDim output (nw_det w ! i)) (\<lambda>d.
         let (p, h, t) = cal_NPU_performance (nw_history w) (nw_sum w) (real_of_int cost_time / 1000)
         in Some \<lparr>nw_det = (nw_det w)[i := d], nw_history = h, nw_sum = t, nw_performance = p, nw_npu = s\<rparr>))))"

fun npu_turns :: "npu_env \<Rightarrow> nat \<Rightarrow> (nat \<times> 8 word list) list \<Rightarrow> npu_work \<Rightarrow> npu_work option" where
  "npu_turns env featureDim [] w = Some w"
| "npu_turns env featureDim (x # xs) w = Option.bind (npu_turn env featureDim x w) (npu_turns env featureDim xs)"

definition npu_do_inference :: "npu_env \<Rightarrow> nat \<Rightarrow> 8 word list list \<Rightarrow> detection_row list \<Rightarrow> rknn_fp \<Rightarrow> npu_work option" where
  "npu_do_inference env featureDim imgMats det s =
     npu_turns env featureDim (enumerate 0 imgMats)
       \<lparr>nw_det = det, nw_history = [], nw_sum = 0, nw_performance = 0, nw_npu = s\<rparr>"

text \<open>\<open>getRectsFeature\<close>; \<open>crop\<close> is OpenCV's cutting out and resizing to \<open>imgShape\<close>, as bytes.\<close>

definition npu_rects_feature ::
  "npu_env \<Rightarrow> ('p image \<Rightarrow> crop_rect \<Rightarrow> 8 word list) \<Rightarrow> nat \<Rightarrow> 'p image \<Rightarrow> detection_row list \<Rightarrow> rknn_fp
     \<Rightarrow> (bool \<times> detection_row list \<times> rknn_fp) option" where
  "npu_rects_feature env crop featureDim img det s =
     map_option (\<lambda>w. (True, nw_det w, nw_npu w))
       (npu_do_inference env featureDim (map (crop img) (filter crop_taken (map (crop_of img) det))) det s)"

text \<open>\<open>DeepSort::init\<close>: the tracker and two extractors on one model; \<^const>\<open>None\<close> ends the process.\<close>

definition deep_sort_init ::
  "npu_env \<Rightarrow> npu_env \<Rightarrow> nat \<Rightarrow> int \<Rightarrow> int \<Rightarrow> (deep_sort \<times> feature_tensor \<times> feature_tensor) option" where
  "deep_sort_init env1 env2 featureDim cpu_id npu_id =
     (case rknn_construct env1 cpu_id npu_id 1 1 of
        Npu_built s1 \<Rightarrow>
          (case rknn_construct env2 cpu_id npu_id 1 1 of
             Npu_built s2 \<Rightarrow> Some (new_deep_sort, ft_init (128, 256) featureDim 3 s1, ft_init (128, 256) featureDim 3 s2)
           | _ \<Rightarrow> None)
      | _ \<Rightarrow> None)"

definition deep_sort_destroy :: "feature_tensor \<times> feature_tensor \<Rightarrow> rknn_fp \<times> rknn_fp" where
  "deep_sort_destroy = (\<lambda>(f1, f2). (rknn_destroy (rknn_fp.truncate f1), rknn_destroy (rknn_fp.truncate f2)))"

section \<open>The mean of the durations\<close>

definition feed_performance :: "real \<Rightarrow> real \<times> real list \<times> real \<Rightarrow> real \<times> real list \<times> real" where
  "feed_performance c = (\<lambda>(_, h, s). cal_NPU_performance h s c)"

lemma performance_window:
  "cs \<noteq> [] \<Longrightarrow> fold feed_performance cs (p, [], 0) =
     (let h = drop (length cs - 10) cs in (sum_list h / real (length h), h, sum_list h))"
proof (induction cs rule: rev_nonempty_induct)
  case (single c)
  then show ?case by (simp add: feed_performance_def cal_NPU_performance_def)
next
  case (snoc c cs)
  let ?h = "drop (length cs - 10) cs"
  have f: "fold feed_performance (cs @ [c]) (p, [], 0) = cal_NPU_performance ?h (sum_list ?h) c"
  proof -
    have "fold feed_performance (cs @ [c]) (p, [], 0) = feed_performance c (fold feed_performance cs (p, [], 0))" by simp
    then show ?thesis unfolding snoc.IH by (simp add: feed_performance_def Let_def)
  qed
  show ?case
  proof (cases "length cs < 10")
    case True
    then show ?thesis unfolding f by (simp add: cal_NPU_performance_def Let_def)
  next
    case False
    then have l: "length ?h = 10" by simp
    then obtain x xs where x: "?h = x # xs" by (cases ?h) auto
    have "drop (length (cs @ [c]) - 10) (cs @ [c]) = tl ?h @ [c]"
    proof -
      have "Suc (length cs - 10) = length cs - 9" using False by simp
      then have "drop (length cs - 9) cs = drop (length cs - 10) (tl cs)" by (metis drop_Suc)
      then show ?thesis using False by (simp add: tl_drop)
    qed
    moreover have "sum_list ?h - hd ?h = sum_list (tl ?h)" by (simp add: x)
    ultimately show ?thesis using l x unfolding f by (simp add: cal_NPU_performance_def Let_def)
  qed
qed

section \<open>The wrapper's memories\<close>

text \<open>
  What the runtime's documentation says: a memory has the size that was asked for, an attribute
  cannot be bound to a null memory, and a run writes into the output memories, which keep their size.
\<close>

definition npu_law :: "npu_env \<Rightarrow> bool" where
  "npu_law env \<longleftrightarrow>
     (\<forall>n m. ne_input_mem env n = Some m \<longrightarrow> length m = n) \<and> (\<forall>i n m. ne_output_mem env i n = Some m \<longrightarrow> length m = n div 4) \<and>
     ne_set_input env False < 0 \<and> (\<forall>i t. ne_set_output env i False t < 0) \<and>
     (\<forall>k x outs. map length (fst (snd (ne_run env k x outs))) = map length outs)"

text \<open>The wrapper between two inferences, with the bytes behind the image in the input memory.\<close>

definition npu_ok :: "8 word list \<Rightarrow> rknn_fp \<Rightarrow> bool" where
  "npu_ok tail s \<longleftrightarrow>
     rk_n_output s = 1 \<and> length (rk_output_buff s) = 3 \<and>
     (\<exists>mem. rk_input_mem s = Some mem \<and> input_bytes (rk_input_attr s) \<le> length mem \<and> drop (input_bytes (rk_input_attr s)) mem = tail) \<and>
     (\<exists>y. rk_output_mems s = [Some y] \<and> length y = output_size (hd (rk_output_attrs s)) div 4)"

lemma construct_ok:
  assumes "npu_law env" "rknn_construct env cpu core 1 1 = Npu_built s" "input_bytes (rk_input_attr s) \<le> na_size_with_stride (rk_input_attr s)"
  shows "npu_ok (drop (input_bytes (rk_input_attr s)) (the (rk_input_mem s))) s \<and> rk_output_buff s = replicate 3 Unset"
proof -
  obtain input outs where i: "ne_input_attr env 0 = Some input" and o: "ne_output_attr env 0 = Some outs"
    using assms(2) by (auto simp: rknn_construct_def all_some_iff Cons_eq_map_conv Let_def split: option.splits if_splits)
  define a b m y where "a = input\<lparr>na_type := Npu_uint8, na_nhwc := True\<rparr>" and "b = outs\<lparr>na_type := Npu_float32\<rparr>"
    and "m = ne_input_mem env (na_size_with_stride input)" and "y = ne_output_mem env 0 (output_size outs)"
  define t where "t = \<lparr>rk_cpu_id = cpu, rk_n_input = 1, rk_n_output = 1, rk_ctx = True, rk_input_attr = a, rk_output_attrs = [b],
      rk_input_mem = m, rk_output_mems = [y], rk_output_buff = replicate 3 Unset, rk_model_data = True, rk_runs = 0\<rparr>"
  have "all_some (map (ne_output_attr env) [0..<1]) = Some [outs]" by (simp add: o)
  moreover have "map (\<lambda>i. ne_output_mem env i (output_size ([outs] ! i))) [0..<1] = [y]" by (simp add: y_def)
  moreover have "ne_input_mem env (na_size_with_stride (input\<lparr>na_type := Npu_uint8, na_nhwc := True\<rparr>)) = m" by (simp add: m_def)
  ultimately have "rknn_construct env cpu core 1 1 =
     (if \<not> ne_fopen env \<or> ne_length env \<noteq> ne_fread env then Npu_exit (-1)
      else if ne_init env < 0 \<or> ne_core_mask env core < 0 then Npu_exit (-1)
      else if ne_set_input env (m \<noteq> None) < 0 then Npu_exit (-1)
      else if ne_set_output env 0 (y \<noteq> None) Npu_float32 < 0 then Npu_exit (-1) else Npu_built t)"
    unfolding rknn_construct_def i Let_def t_def a_def b_def by simp
  then have s: "s = t" and c: "\<not> ne_set_input env (m \<noteq> None) < 0" "\<not> ne_set_output env 0 (y \<noteq> None) Npu_float32 < 0"
    using assms(2) by (simp_all split: if_splits)
  have r: "ne_set_input env False < 0" "ne_set_output env 0 False Npu_float32 < 0" using assms(1) by (simp_all add: npu_law_def)
  have "m \<noteq> None" "y \<noteq> None" using r c by (cases m; cases y; simp)+
  then obtain mem out where my: "m = Some mem" "y = Some out" by blast
  have "length mem = na_size_with_stride input" "length out = output_size outs div 4"
    using assms(1) my unfolding npu_law_def m_def y_def by blast+
  moreover have "na_size_with_stride a = na_size_with_stride input" "output_size b = output_size outs"
    by (simp_all add: a_def b_def output_size_def)
  ultimately show ?thesis using assms(3) my by (simp add: s t_def npu_ok_def)
qed

text \<open>An inference on a wrapper in order: whatever the run returns, the wrapper is in order after it.\<close>

lemma inference_ok:
  assumes "npu_law env" "npu_ok tail s" "input_bytes (rk_input_attr s) \<le> length data"
  obtains ret y d s' where
    "ne_run env (rk_runs s) (take (input_bytes (rk_input_attr s)) data @ tail) [the (hd (rk_output_mems s))] = (ret, [y], d)"
    "npu_inference env data s = Some (if ret < 0 then -1 else d, s')" "rk_output_mems s' = [Some y]"
    "hd (rk_output_buff s') = (if ret < 0 then hd (rk_output_buff s) else At_output 0)"
    "npu_ok tail s'" "rk_input_attr s' = rk_input_attr s" "rk_output_attrs s' = rk_output_attrs s" "rk_runs s' = rk_runs s + 1"
proof -
  let ?n = "input_bytes (rk_input_attr s)"
  obtain mem y0 where m: "rk_input_mem s = Some mem" "?n \<le> length mem" "drop ?n mem = tail" "rk_output_mems s = [Some y0]"
      "length y0 = output_size (hd (rk_output_attrs s)) div 4"
    using assms(2) by (auto simp: npu_ok_def)
  obtain ret outs d where r: "ne_run env (rk_runs s) (take ?n data @ tail) [y0] = (ret, outs, d)" by (metis prod_cases3)
  then have "map length outs = [length y0]" using assms(1) unfolding npu_law_def by (metis fst_conv list.map snd_conv)
  then obtain y where y: "outs = [y]" "length y = length y0" by auto
  have o: "rk_n_output s = 1" "length (rk_output_buff s) = 3" using assms(2) by (simp_all add: npu_ok_def)
  let ?s1 = "s\<lparr>rk_input_mem := Some (take ?n data @ tail), rk_output_mems := [Some y], rk_runs := rk_runs s + 1\<rparr>"
  let ?s2 = "if ret < 0 then ?s1 else ?s1\<lparr>rk_output_buff := At_output 0 # drop 1 (rk_output_buff s)\<rparr>"
  have "npu_inference env data s = Some (if ret < 0 then -1 else d, ?s2)"
    using m assms(3) r o y by (simp add: npu_inference_def Let_def)
  moreover have "npu_ok tail ?s2" using m o y assms(3) by (auto simp: npu_ok_def)
  ultimately show ?thesis using r y m(4) by (intro that [of ret y d ?s2]) simp_all
qed

section \<open>The loop over the crops\<close>

text \<open>
  One turn, with the output \<open>y\<close> that is in the memory after the run: the detection gets \<open>y\<close>, also when
  the run has failed and \<open>y\<close> is whatever it has left there.
\<close>

lemma turn_writes:
  assumes "npu_law env" "npu_ok tail (nw_npu w)" "input_bytes (rk_input_attr (nw_npu w)) \<le> length data"
    "ne_run env (rk_runs (nw_npu w)) (take (input_bytes (rk_input_attr (nw_npu w))) data @ tail) [the (hd (rk_output_mems (nw_npu w)))] = (ret, [y], d)"
    "0 \<le> ret \<or> hd (rk_output_buff (nw_npu w)) = At_output 0"
  obtains p h t s' where
    "npu_turn env fd (i, data) w =
       (if i \<ge> length (nw_det w) then None
        else map_option (\<lambda>d. \<lparr>nw_det = (nw_det w)[i := d], nw_history = h, nw_sum = t, nw_performance = p, nw_npu = s'\<rparr>)
          (write_feature fd y (nw_det w ! i)))"
    "npu_ok tail s'" "rk_input_attr s' = rk_input_attr (nw_npu w)" "rk_output_attrs s' = rk_output_attrs (nw_npu w)"
    "rk_output_mems s' = [Some y]" "hd (rk_output_buff s') = At_output 0" "rk_runs s' = rk_runs (nw_npu w) + 1"
proof -
  obtain s' where s: "npu_inference env data (nw_npu w) = Some (if ret < 0 then -1 else d, s')" "rk_output_mems s' = [Some y]"
      "hd (rk_output_buff s') = (if ret < 0 then hd (rk_output_buff (nw_npu w)) else At_output 0)"
      "npu_ok tail s'" "rk_input_attr s' = rk_input_attr (nw_npu w)" "rk_output_attrs s' = rk_output_attrs (nw_npu w)"
      "rk_runs s' = rk_runs (nw_npu w) + 1"
    using inference_ok [OF assms(1-3)] assms(4) by (metis (no_types, lifting) list.inject prod.inject)
  have b: "hd (rk_output_buff s') = At_output 0" using s(3) assms(5) by auto
  moreover have "length (rk_output_buff s') = 3" using s(4) by (simp add: npu_ok_def)
  ultimately obtain bs where "rk_output_buff s' = At_output 0 # bs" by (cases "rk_output_buff s'") auto
  then have r: "read_buff s' = Some y" using s(2) by (simp add: read_buff_def)
  obtain p h t where c: "cal_NPU_performance (nw_history w) (nw_sum w) (real_of_int (if ret < 0 then -1 else d) / 1000) = (p, h, t)"
    by (metis prod_cases3)
  have "npu_turn env fd (i, data) w =
       (if i \<ge> length (nw_det w) then None
        else map_option (\<lambda>d. \<lparr>nw_det = (nw_det w)[i := d], nw_history = h, nw_sum = t, nw_performance = p, nw_npu = s'\<rparr>)
          (write_feature fd y (nw_det w ! i)))"
    using s(1) r c by (cases "write_feature fd y (nw_det w ! i)") (simp_all add: npu_turn_def)
  then show ?thesis using that s b by blast
qed

lemma turns_refine:
  assumes "npu_law env" "\<And>k x y. length y = len \<Longrightarrow> 0 \<le> fst (ne_run env k x [y]) \<and> fst (snd (ne_run env k x [y])) = [net x]"
    and "de_feature_dim denv = fd" "de_net denv img = (\<lambda>r. net (take n (crop img r) @ tail))" "\<And>r. n \<le> length (crop img r)"
  shows "npu_ok tail (nw_npu w) \<Longrightarrow> n = input_bytes (rk_input_attr (nw_npu w)) \<Longrightarrow>
     len = output_size (hd (rk_output_attrs (nw_npu w))) div 4 \<Longrightarrow>
     map_option nw_det (npu_turns env fd (enumerate k (map (crop img) rs)) w) = inference_turns denv img (enumerate k rs) (nw_det w) \<and>
     (\<forall>w'. npu_turns env fd (enumerate k (map (crop img) rs)) w = Some w' \<longrightarrow> npu_ok tail (nw_npu w') \<and>
       rk_input_attr (nw_npu w') = rk_input_attr (nw_npu w) \<and> rk_output_attrs (nw_npu w') = rk_output_attrs (nw_npu w))"
proof (induction rs arbitrary: k w)
  case Nil
  then show ?case by simp
next
  case (Cons r rs)
  let ?x = "take n (crop img r) @ tail" and ?y = "the (hd (rk_output_mems (nw_npu w)))"
  have "length ?y = len" using Cons.prems(1,3) by (auto simp: npu_ok_def)
  then obtain ret d where r: "ne_run env (rk_runs (nw_npu w)) ?x [?y] = (ret, [net ?x], d)" "0 \<le> ret"
    using assms(2) [of ?y "rk_runs (nw_npu w)" ?x] by (metis prod.collapse)
  have ln: "input_bytes (rk_input_attr (nw_npu w)) \<le> length (crop img r)" using Cons.prems(2) assms(5) [of r] by simp
  obtain p h t s' where t: "npu_turn env fd (k, crop img r) w =
       (if k \<ge> length (nw_det w) then None
        else map_option (\<lambda>d. \<lparr>nw_det = (nw_det w)[k := d], nw_history = h, nw_sum = t, nw_performance = p, nw_npu = s'\<rparr>)
          (write_feature fd (net ?x) (nw_det w ! k)))"
      "npu_ok tail s'" "rk_input_attr s' = rk_input_attr (nw_npu w)" "rk_output_attrs s' = rk_output_attrs (nw_npu w)"
    by (rule turn_writes [OF assms(1) Cons.prems(1) ln r(1) [unfolded Cons.prems(2)], of fd k]) (use r(2) Cons.prems(2) in auto)
  show ?case
  proof (cases "k \<ge> length (nw_det w) \<or> write_feature fd (net ?x) (nw_det w ! k) = None")
    case True
    then show ?thesis using t(1) assms(3,4) by auto
  next
    case False
    then obtain e where e: "write_feature fd (net ?x) (nw_det w ! k) = Some e" "\<not> k \<ge> length (nw_det w)" by auto
    define w1 where "w1 = \<lparr>nw_det = (nw_det w)[k := e], nw_history = h, nw_sum = t, nw_performance = p, nw_npu = s'\<rparr>"
    have w1: "nw_det w1 = (nw_det w)[k := e]" "nw_npu w1 = s'" by (simp_all add: w1_def)
    have "npu_turn env fd (k, crop img r) w = Some w1" using t(1) e by (simp add: w1_def)
    moreover have "inference_turns denv img (enumerate k (r # rs)) (nw_det w) = inference_turns denv img (enumerate (Suc k) rs) (nw_det w1)"
      using e assms(3,4) by (simp add: w1)
    ultimately show ?thesis using Cons.IH [of w1 "Suc k"] Cons.prems t(2-4) by (simp add: w1)
  qed
qed

text \<open>The frames of a video one after the other, on one wrapper.\<close>

fun npu_frames ::
  "npu_env \<Rightarrow> ('p image \<Rightarrow> crop_rect \<Rightarrow> 8 word list) \<Rightarrow> nat \<Rightarrow> ('p image \<times> detection_row list) list \<Rightarrow> rknn_fp
     \<Rightarrow> (bool \<times> detection_row list) list option" where
  "npu_frames env crop fd [] s = Some []"
| "npu_frames env crop fd ((img, det) # frames) s =
     Option.bind (npu_rects_feature env crop fd img det s) (\<lambda>(ok, det', s').
       map_option ((#) (ok, det')) (npu_frames env crop fd frames s'))"

lemma rects_feature_net:
  assumes "npu_law env" "\<And>k x y. length y = len \<Longrightarrow> 0 \<le> fst (ne_run env k x [y]) \<and> fst (snd (ne_run env k x [y])) = [net x]"
    and "de_feature_dim denv = fd" "de_net denv img = (\<lambda>r. net (take n (crop img r) @ tail))" "\<And>r. n \<le> length (crop img r)"
    and "npu_ok tail s" "n = input_bytes (rk_input_attr s)" "len = output_size (hd (rk_output_attrs s)) div 4"
  shows "map_option (\<lambda>(ok, det, s). (ok, det)) (npu_rects_feature env crop fd img det s) = get_rects_feature denv img det \<and>
    (\<forall>ok det' s'. npu_rects_feature env crop fd img det s = Some (ok, det', s') \<longrightarrow>
       npu_ok tail s' \<and> rk_input_attr s' = rk_input_attr s \<and> rk_output_attrs s' = rk_output_attrs s)"
proof -
  let ?rs = "filter crop_taken (map (crop_of img) det)"
  let ?w = "\<lparr>nw_det = det, nw_history = [], nw_sum = 0, nw_performance = 0, nw_npu = s\<rparr>"
  have "map_option nw_det (npu_turns env fd (enumerate 0 (map (crop img) ?rs)) ?w) = inference_turns denv img (enumerate 0 ?rs) (nw_det ?w) \<and>
     (\<forall>w'. npu_turns env fd (enumerate 0 (map (crop img) ?rs)) ?w = Some w' \<longrightarrow> npu_ok tail (nw_npu w') \<and>
       rk_input_attr (nw_npu w') = rk_input_attr (nw_npu ?w) \<and> rk_output_attrs (nw_npu w') = rk_output_attrs (nw_npu ?w))"
    by (rule turns_refine [where net = net and crop = crop and n = n, OF assms(1-5)]) (use assms(6-8) in simp_all)
  then show ?thesis
    unfolding npu_rects_feature_def npu_do_inference_def get_rects_feature_def do_inference_def Let_def
    by (cases "npu_turns env fd (enumerate 0 (map (crop img) ?rs)) ?w"; cases "inference_turns denv img (enumerate 0 ?rs) det") auto
qed

lemma frames_net:
  assumes "npu_law env" "\<And>k x y. length y = len \<Longrightarrow> 0 \<le> fst (ne_run env k x [y]) \<and> fst (snd (ne_run env k x [y])) = [net x]"
    and "de_feature_dim denv = fd" "\<And>img r. de_net denv img r = net (take n (crop img r) @ tail)" "\<And>img r. n \<le> length (crop img r)"
  shows "npu_ok tail s \<Longrightarrow> len = output_size (hd (rk_output_attrs s)) div 4 \<Longrightarrow> n = input_bytes (rk_input_attr s) \<Longrightarrow>
    npu_frames env crop fd frames s = all_some (map (\<lambda>(img, det). get_rects_feature denv img det) frames)"
proof (induction frames arbitrary: s)
  case Nil
  then show ?case by simp
next
  case (Cons f frames)
  obtain img det where f: "f = (img, det)" by (cases f)
  have net: "de_net denv img = (\<lambda>r. net (take n (crop img r) @ tail))" using assms(4) by (intro ext)
  note r = rects_feature_net [where net = net and crop = crop and n = n, OF assms(1,2,3) net assms(5) Cons.prems(1,3,2), of det]
  show ?case
  proof (cases "npu_rects_feature env crop fd img det s")
    case None
    then show ?thesis using r by (simp add: f)
  next
    case (Some x)
    obtain ok det' s' where x: "x = (ok, det', s')" by (cases x)
    have "get_rects_feature denv img det = Some (ok, det')" using r Some by (simp add: x)
    moreover have "npu_ok tail s'" "rk_input_attr s' = rk_input_attr s" "rk_output_attrs s' = rk_output_attrs s"
      using r Some by (simp_all add: x)
    ultimately show ?thesis using Cons.IH [of s'] Cons.prems Some by (simp add: f x)
  qed
qed

lemma frames_return:
  assumes "\<forall>(img, det)\<in>set frames. rows_fit denv det"
  shows "\<exists>rs. all_some (map (\<lambda>(img, det). get_rects_feature denv img det) frames) = Some rs"
proof (rule all_some_ex)
  have "get_rects_feature denv img det \<noteq> None" if "(img, det) \<in> set frames" for img det
    using that assms by (cases rule: get_rects_cases [of denv img det]) auto
  then show "\<forall>x\<in>set (map (\<lambda>(img, det). get_rects_feature denv img det) frames). x \<noteq> None" by auto
qed

section \<open>Properties\<close>

text \<open>
  C14.  On a wrapper that the constructor has built, with runs that succeed and an image that fits the
  model's input, the extraction of the features of every sequence of frames equals the extraction
  with the network as a function, which the tracker's model uses: the copying through the runtime's
  memories and the cached output pointers mix nothing up between crops, frames or calls, and the
  one has no result exactly when the other has none.  With a feature dimension that fits the rows of the
  detections and the model's output the extraction returns.
\<close>

theorem npu_extraction_refines:
  assumes "npu_law env" "rknn_construct env cpu core 1 1 = Npu_built s" "n = input_bytes (rk_input_attr s)"
    and "n \<le> na_size_with_stride (rk_input_attr s)" "len = output_size (hd (rk_output_attrs s)) div 4"
    and "\<And>k x y. length y = len \<Longrightarrow> 0 \<le> fst (ne_run env k x [y]) \<and> fst (snd (ne_run env k x [y])) = [net x]"
    and "\<And>img r. n \<le> length (crop img r)" "de_feature_dim denv = fd"
    and "\<And>img r. de_net denv img r = net (take n (crop img r) @ drop n (the (rk_input_mem s)))"
  shows "npu_frames env crop fd frames s = all_some (map (\<lambda>(img, det). get_rects_feature denv img det) frames) \<and>
    (fd \<le> len \<and> (\<forall>(img, det)\<in>set frames. \<forall>d\<in>set det. fd \<le> length (dr_feature d)) \<longrightarrow>
       (\<exists>rs. npu_frames env crop fd frames s = Some rs))"
proof -
  have ok: "npu_ok (drop n (the (rk_input_mem s))) s" using construct_ok [OF assms(1,2)] assms(3,4) by simp
  have e: "npu_frames env crop fd frames s = all_some (map (\<lambda>(img, det). get_rects_feature denv img det) frames)"
    by (rule frames_net [where net = net and crop = crop and n = n, OF assms(1,6,8,9,7) ok assms(5,3)])
  have "length (net x) = len" for x
    using assms(1) assms(6) [of "replicate len 0" 0 x] unfolding npu_law_def by (metis length_replicate list.inject list.simps(9))
  then have "(\<exists>rs. all_some (map (\<lambda>(img, det). get_rects_feature denv img det) frames) = Some rs)"
    if "fd \<le> len" "\<forall>(img, det)\<in>set frames. \<forall>d\<in>set det. fd \<le> length (dr_feature d)"
    using that assms(8,9) by (intro frames_return) (auto simp: rows_fit_def)
  then show ?thesis unfolding e by blast
qed

text \<open>A model of one byte per channel, two floats of output and a network that counts.\<close>

definition tiny_env :: npu_env where
  "tiny_env =
     \<lparr>ne_fopen = True, ne_length = 10, ne_fread = 10, ne_init = 0, ne_core_mask = \<lambda>c. 0,
      ne_input_attr = \<lambda>i. Some \<lparr>na_n_elems = 3, na_dims = [1, 1, 1, 3], na_size_with_stride = 4, na_nhwc = True, na_type = Npu_other\<rparr>,
      ne_output_attr = \<lambda>i. Some \<lparr>na_n_elems = 2, na_dims = [1, 2], na_size_with_stride = 8, na_nhwc = True, na_type = Npu_other\<rparr>,
      ne_input_mem = \<lambda>n. Some (replicate n 0), ne_output_mem = \<lambda>i n. Some (replicate (n div 4) 0),
      ne_set_input = \<lambda>b. if b then 0 else -1, ne_set_output = \<lambda>i b t. if b then 0 else -1,
      ne_run = \<lambda>k x outs. (0, map (\<lambda>y. replicate (length y) (real (unat (hd x)))) outs, 5)\<rparr>"

lemma tiny_law: "npu_law tiny_env"
  by (auto simp: npu_law_def tiny_env_def)

definition tiny_npu :: rknn_fp where
  "tiny_npu =
     \<lparr>rk_cpu_id = 6, rk_n_input = 1, rk_n_output = 1, rk_ctx = True,
      rk_input_attr = \<lparr>na_n_elems = 3, na_dims = [1, 1, 1, 3], na_size_with_stride = 4, na_nhwc = True, na_type = Npu_uint8\<rparr>,
      rk_output_attrs = [\<lparr>na_n_elems = 2, na_dims = [1, 2], na_size_with_stride = 8, na_nhwc = True, na_type = Npu_float32\<rparr>],
      rk_input_mem = Some (replicate 4 0), rk_output_mems = [Some [0, 0]], rk_output_buff = replicate 3 Unset, rk_model_data = True, rk_runs = 0\<rparr>"

lemma tiny_built: "rknn_construct tiny_env 6 2 1 1 = Npu_built tiny_npu"
  by (simp add: rknn_construct_def tiny_env_def tiny_npu_def output_size_def) (simp add: numeral_2_eq_2)

lemma tiny_sizes: "input_bytes (rk_input_attr tiny_npu) = 3" "output_size (hd (rk_output_attrs tiny_npu)) = 8"
  "na_size_with_stride (rk_input_attr tiny_npu) = 4" "the (rk_input_mem tiny_npu) = replicate 4 0" "the (hd (rk_output_mems tiny_npu)) = [0, 0]"
  by (simp_all add: tiny_npu_def input_bytes_def output_size_def)

text \<open>Two detections of one frame, cut out at columns 4 and 20.\<close>

definition tiny_crop :: "unit image \<Rightarrow> crop_rect \<Rightarrow> 8 word list" where
  "tiny_crop img r = [word_of_int (cr_x r), 0, 0]"

definition tiny_deep :: "unit deep_env" where
  "tiny_deep = crop_env\<lparr>de_net := \<lambda>img r. [real (unat (word_of_int (cr_x r) :: 8 word)), real (unat (word_of_int (cr_x r) :: 8 word))]\<rparr>"

definition tiny_row :: "real \<Rightarrow> detection_row" where
  "tiny_row x = \<lparr>dr_tlwh = [x, 8, 8, 16], dr_confidence = 1, dr_feature = [0, 0]\<rparr>"

theorem npu_extraction_refines_witness:
  "map_option (map (map dr_feature \<circ> snd)) (npu_frames tiny_env tiny_crop 2 [(small_frame, [tiny_row 4, tiny_row 20])] tiny_npu) =
     Some [[[4, 4], [20, 20]]]"
proof -
  let ?net = "\<lambda>x. [real (unat (hd x :: 8 word)), real (unat (hd x :: 8 word))]"
  have c: "crop_of small_frame (tiny_row 4) = \<lparr>cr_x = 4, cr_y = 8, cr_width = 8, cr_height = 16\<rparr>"
    "crop_of small_frame (tiny_row 20) = \<lparr>cr_x = 20, cr_y = 8, cr_width = 8, cr_height = 16\<rparr>"
    by (simp_all add: crop_of_def tiny_row_def small_frame_def c_trunc_def)
  have "npu_frames tiny_env tiny_crop 2 [(small_frame, [tiny_row 4, tiny_row 20])] tiny_npu =
      all_some (map (\<lambda>(img, det). get_rects_feature tiny_deep img det) [(small_frame, [tiny_row 4, tiny_row 20])]) \<and>
      (2 \<le> (2 :: nat) \<and> (\<forall>(img, det)\<in>set [(small_frame, [tiny_row 4, tiny_row 20])]. \<forall>d\<in>set det. 2 \<le> length (dr_feature d)) \<longrightarrow>
       (\<exists>rs. npu_frames tiny_env tiny_crop 2 [(small_frame, [tiny_row 4, tiny_row 20])] tiny_npu = Some rs))"
    by (rule npu_extraction_refines [OF tiny_law tiny_built, where n = 3 and len = 2 and net = ?net])
       (simp_all add: tiny_sizes, simp_all add: tiny_env_def tiny_crop_def tiny_deep_def crop_env_def take_Cons' numeral_2_eq_2)
  moreover have "\<forall>d\<in>set [tiny_row 4, tiny_row 20]. crop_taken (crop_of small_frame d)" by (simp add: c crop_taken_def)
  note get_rects_all [OF this, of tiny_deep]
  moreover have "de_feature_dim tiny_deep = 2" "\<And>img r. de_net tiny_deep img r = [real (unat (word_of_int (cr_x r) :: 8 word)), real (unat (word_of_int (cr_x r) :: 8 word))]"
    by (simp_all add: tiny_deep_def crop_env_def)
  moreover have "write_feature 2 [a, b] (tiny_row x) = Some (put_feature 2 [a, b] (tiny_row x))" "dr_feature (put_feature 2 [a, b] (tiny_row x)) = [a, b]" for a b x
    by (simp_all add: write_feature_def put_feature_def tiny_row_def upt_rec)
  ultimately show ?thesis by (simp add: c)
qed

text \<open>
  C38.  A run that fails is not noticed: \<open>inference\<close> returns -1, which only enters the mean of the
  durations, and the output pointer leads to the output memory as before.  So whatever code the run
  for the second of two crops returns, failure or success, its detection gets what that memory then holds;
  the runtime promises nothing of it after a failure, and where the run has left it alone it holds the
  features of the first crop, by which the tracker then judges the second object.  When the very first run
  fails, the pointer has never been set and is followed all the same.
\<close>

theorem failed_run_unnoticed:
  assumes "npu_law env" "rknn_construct env cpu core 1 1 = Npu_built s" "n = input_bytes (rk_input_attr s)"
    and "n \<le> na_size_with_stride (rk_input_attr s)" "n \<le> length a" "n \<le> length b"
    and "tail = drop n (the (rk_input_mem s))"
    and "ne_run env 0 (take n a @ tail) [the (hd (rk_output_mems s))] = (r, [y], d)"
    and "ne_run env 1 (take n b @ tail) [y] = (r', [y'], d')"
  shows "map_option nw_det (npu_do_inference env fd [a, b] [p, q] s) =
    (if r < 0 then None else all_some [write_feature fd y p, write_feature fd y' q])"
proof -
  let ?w = "\<lparr>nw_det = [p, q], nw_history = [], nw_sum = 0, nw_performance = 0, nw_npu = s\<rparr>"
  have ok: "npu_ok tail s" "rk_output_buff s = replicate 3 Unset" "rk_runs s = 0"
    using construct_ok [OF assms(1,2)] assms(2-4,7)
    by (auto simp: rknn_construct_def Let_def split: option.splits if_splits)
  have e: "npu_do_inference env fd [a, b] [p, q] s = npu_turns env fd [(0, a), (1, b)] ?w" by (simp add: npu_do_inference_def)
  show ?thesis
  proof (cases "r < 0")
    case True
    from assms(3,5) ok obtain s' where s: "npu_inference env a s = Some (if r < 0 then -1 else d, s')"
        "hd (rk_output_buff s') = (if r < 0 then hd (rk_output_buff s) else At_output 0)" "npu_ok tail s'"
      using inference_ok [OF assms(1) ok(1), of a] assms(8) by (metis prod.inject)
    then have "hd (rk_output_buff s') = Unset" "length (rk_output_buff s') = 3" using True ok(2) by (simp_all add: npu_ok_def)
    then have "read_buff s' = None" by (cases "rk_output_buff s'") (simp_all add: read_buff_def)
    then show ?thesis using True s(1) unfolding e by (simp add: npu_turn_def)
  next
    case False
    have n: "input_bytes (rk_input_attr (nw_npu ?w)) \<le> length a" using assms(3,5) by simp
    obtain f h t s1 where w1: "npu_turn env fd (0, a) ?w =
         (if 0 \<ge> length (nw_det ?w) then None
          else map_option (\<lambda>d. \<lparr>nw_det = (nw_det ?w)[0 := d], nw_history = h, nw_sum = t, nw_performance = f, nw_npu = s1\<rparr>)
            (write_feature fd y (nw_det ?w ! 0)))"
        "npu_ok tail s1" "rk_input_attr s1 = rk_input_attr s" "rk_output_mems s1 = [Some y]"
        "hd (rk_output_buff s1) = At_output 0" "rk_runs s1 = 1"
      by (rule turn_writes [OF assms(1) _ n, of tail r y d fd 0]) (use ok assms(3,8) False in simp_all)
    have second: "map_option nw_det (npu_turn env fd (1, b) \<lparr>nw_det = [p', q], nw_history = h, nw_sum = t, nw_performance = f, nw_npu = s1\<rparr>) =
        map_option (\<lambda>q'. [p', q']) (write_feature fd y' q)" for p'
    proof -
      let ?w1 = "\<lparr>nw_det = [p', q], nw_history = h, nw_sum = t, nw_performance = f, nw_npu = s1\<rparr>"
      have n1: "npu_ok tail (nw_npu ?w1)" "input_bytes (rk_input_attr (nw_npu ?w1)) \<le> length b" using w1(2,3) assms(3,6) by simp_all
      obtain f2 h2 t2 s2 where "npu_turn env fd (1, b) ?w1 =
         (if 1 \<ge> length (nw_det ?w1) then None
          else map_option (\<lambda>d. \<lparr>nw_det = (nw_det ?w1)[1 := d], nw_history = h2, nw_sum = t2, nw_performance = f2, nw_npu = s2\<rparr>)
            (write_feature fd y' (nw_det ?w1 ! 1)))"
        by (rule turn_writes [OF assms(1) n1, of r' y' d' fd 1]) (use w1 assms(3,9) in simp_all)
      then show ?thesis by (simp add: option.map_comp comp_def)
    qed
    show ?thesis
    proof (cases "write_feature fd y p")
      case None
      then show ?thesis using False w1(1) unfolding e by simp
    next
      case (Some p')
      then have "npu_turns env fd [(0, a), (1, b)] ?w = npu_turn env fd (1, b) \<lparr>nw_det = [p', q], nw_history = h, nw_sum = t, nw_performance = f, nw_npu = s1\<rparr>"
        using w1(1) by (cases "npu_turn env fd (1, b) \<lparr>nw_det = [p', q], nw_history = h, nw_sum = t, nw_performance = f, nw_npu = s1\<rparr>") simp_all
      then show ?thesis using False Some second [of p'] unfolding e by (cases "write_feature fd y' q") simp_all
    qed
  qed
qed

lemma replicate_two_four: "replicate 2 x = [x, x]" "replicate 4 x = [x, x, x, x]"
  by (simp_all add: numeral_eq_Suc)

text \<open>The counting network, failing from its second run on and then leaving the outputs alone.\<close>

definition failing_env :: npu_env where
  "failing_env = tiny_env\<lparr>ne_run := \<lambda>k x outs. if k = 0 then (0, map (\<lambda>y. replicate (length y) (real (unat (hd x)))) outs, 5) else (-1, outs, 5)\<rparr>"

theorem failed_run_unnoticed_witness:
  "map_option (map dr_feature \<circ> nw_det) (npu_do_inference failing_env 2 [[4, 0, 0], [20, 0, 0]] [tiny_row 4, tiny_row 20] tiny_npu) =
     Some [[4, 4], [4, 4]]"
proof -
  have l: "npu_law failing_env" by (auto simp: npu_law_def failing_env_def tiny_env_def)
  have b: "rknn_construct failing_env 6 2 1 1 = Npu_built tiny_npu"
    by (simp add: rknn_construct_def failing_env_def tiny_env_def tiny_npu_def output_size_def) (simp add: numeral_2_eq_2)
  have "map_option nw_det (npu_do_inference failing_env 2 [[4, 0, 0], [20, 0, 0]] [tiny_row 4, tiny_row 20] tiny_npu) =
      (if (0 :: int) < 0 then None else all_some [write_feature 2 [4, 4] (tiny_row 4), write_feature 2 [4, 4] (tiny_row 20)])"
    by (rule failed_run_unnoticed [OF l b, where n = 3 and tail = "[0]" and d = 5 and d' = 5 and r' = "-1"])
       (simp_all add: tiny_sizes failing_env_def numeral_3_eq_3 upt_rec replicate_two_four)
  moreover have "map_option (map dr_feature) (all_some [write_feature 2 [4, 4] (tiny_row 4), write_feature 2 [4, 4] (tiny_row 20)]) = Some [[4, 4], [4, 4]]"
    by (simp add: write_feature_def put_feature_def tiny_row_def upt_rec)
  ultimately show ?thesis by (simp add: option.map_comp [symmetric])
qed

end
