(* ===== verification/CString.thy ===== *)
theory CString imports Prelude begin

text \<open>
  The C library functions on characters, strings and numbers that the configuration reader, the
  transcoder and the overlay call, in the C locale: \<open>isspace\<close>, \<open>tolower\<close>, decimal printing,
  \<open>strtol(.., 0)\<close>, \<open>strtod\<close> on decimal numerals, and the conversion of a \<open>long\<close> to an \<open>int\<close>.
\<close>

section \<open>Characters\<close>

definition isspace :: "char \<Rightarrow> bool" where
  "isspace c \<longleftrightarrow> (let k = (of_char c :: nat) in k = 32 \<or> 9 \<le> k \<and> k \<le> 13)"

definition tolower :: "char \<Rightarrow> char" where
  "tolower c = (let k = (of_char c :: nat) in if 65 \<le> k \<and> k \<le> 90 then char_of (k + 32) else c)"

definition lower :: "string \<Rightarrow> string" where
  "lower = map tolower"

definition digit_value :: "char \<Rightarrow> nat option" where
  "digit_value c = (let k = (of_char c :: nat) in
     if 48 \<le> k \<and> k \<le> 57 then Some (k - 48)
     else if 97 \<le> k \<and> k \<le> 122 then Some (k - 87)
     else if 65 \<le> k \<and> k \<le> 90 then Some (k - 55) else None)"

section \<open>Printing\<close>

text \<open>\<open>%d\<close>, \<open>std::to_string\<close> and \<open><<\<close> of an integer.\<close>

fun show_nat :: "nat \<Rightarrow> string" where
  "show_nat n = (if n < 10 then [char_of (48 + n)] else show_nat (n div 10) @ [char_of (48 + n mod 10)])"

declare show_nat.simps [simp del]

definition show_int :: "int \<Rightarrow> string" where
  "show_int i = (if i < 0 then CHR ''-'' # show_nat (nat (- i)) else show_nat (nat i))"

text \<open>\<open>%.1f\<close>: one digit after the point, to nearest, ties to even.\<close>

definition round_even :: "real \<Rightarrow> int" where
  "round_even x = (let k = \<lfloor>x\<rfloor>; d = x - of_int k in
     if d < 1/2 \<or> d = 1/2 \<and> even k then k else k + 1)"

definition show_tenths :: "real \<Rightarrow> string" where
  "show_tenths x = (let n = nat (round_even (10 * \<bar>x\<bar>)) in
     (if x < 0 then ''-'' else []) @ show_nat (n div 10) @ ''.'' @ show_nat (n mod 10))"

section \<open>Reading numbers\<close>

text \<open>The digits of base \<open>b\<close> at the front of a string: their value, and whether there is one.\<close>

fun read_digits :: "nat \<Rightarrow> nat \<Rightarrow> string \<Rightarrow> nat \<times> string" where
  "read_digits b acc [] = (acc, [])"
| "read_digits b acc (c # s) =
     (case digit_value c of
        Some d \<Rightarrow> if d < b then read_digits b (acc * b + d) s else (acc, c # s)
      | None \<Rightarrow> (acc, c # s))"

definition starts_digit :: "nat \<Rightarrow> string \<Rightarrow> bool" where
  "starts_digit b s \<longleftrightarrow> (case s of [] \<Rightarrow> False | c # _ \<Rightarrow> (case digit_value c of Some d \<Rightarrow> d < b | None \<Rightarrow> False))"

definition read_sign :: "string \<Rightarrow> int \<times> string" where
  "read_sign s = (case s of c # t \<Rightarrow> if c = CHR ''-'' then (-1, t) else if c = CHR ''+'' then (1, t) else (1, s) | [] \<Rightarrow> (1, s))"

text \<open>
  \<open>strtol(value, &end, 0)\<close> on a 64-bit \<open>long\<close>: a prefix \<open>0x\<close> selects base 16, a leading \<open>0\<close> base 8;
  the value saturates.  \<open>None\<close> when no digit is read, so that \<open>end\<close> is not past \<open>value\<close>.
\<close>

definition strtol :: "string \<Rightarrow> int option" where
  "strtol value =
     (let (sg, s) = read_sign (dropWhile isspace value);
          hex = (length s > 2 \<and> s ! 0 = CHR ''0'' \<and> lower [s ! 1] = ''x'' \<and> starts_digit 16 (drop 2 s));
          (b, s) = (if hex then (16, drop 2 s) else if s \<noteq> [] \<and> s ! 0 = CHR ''0'' then (8, s) else (10, s))
      in if starts_digit b s then
           Some (max (- (2 ^ 63)) (min (2 ^ 63 - 1) (sg * int (fst (read_digits b 0 s)))))
         else None)"

text \<open>Assigning a \<open>long\<close> to an \<open>int\<close> keeps the low 32 bits.\<close>

definition to_int :: "int \<Rightarrow> int" where
  "to_int n = (n + 2 ^ 31) mod 2 ^ 32 - 2 ^ 31"

text \<open>
  \<open>strtod\<close> on decimal numerals: digits, a fraction, an exponent.  (Hexadecimal numerals, \<open>inf\<close> and
  \<open>nan\<close> are not modelled.)
\<close>

definition read_exponent :: "string \<Rightarrow> int" where
  "read_exponent s = (case s of
       c # t \<Rightarrow> (let (sg, t) = read_sign t in
         if tolower c = CHR ''e'' \<and> starts_digit 10 t then sg * int (fst (read_digits 10 0 t)) else 0)
     | [] \<Rightarrow> 0)"

definition strtod :: "string \<Rightarrow> real option" where
  "strtod value =
     (let (sg, s) = read_sign (dropWhile isspace value);
          (whole, r) = read_digits 10 0 s;
          point = (r \<noteq> [] \<and> hd r = CHR ''.'');
          frac_s = (if point then tl r else []);
          (frac, r') = read_digits 10 0 frac_s;
          n = length frac_s - length r';
          e = read_exponent (if point then r' else r)
      in if starts_digit 10 s \<or> point \<and> 0 < n then
           Some (of_int sg * (of_nat whole + of_nat frac / 10 ^ n) * (if 0 \<le> e then 10 ^ nat e else 1 / 10 ^ nat (- e)))
         else None)"

section \<open>Lemmas\<close>

lemma to_int_range: "- (2 ^ 31) \<le> to_int n" "to_int n < 2 ^ 31"
proof -
  have "0 \<le> (n + 2 ^ 31) mod 2 ^ 32" "(n + 2 ^ 31) mod 2 ^ 32 < 2 ^ 32" by simp_all
  then show "- (2 ^ 31) \<le> to_int n" "to_int n < 2 ^ 31" by (simp_all add: to_int_def)
qed

lemma to_int_small: "- (2 ^ 31) \<le> n \<Longrightarrow> n < 2 ^ 31 \<Longrightarrow> to_int n = n"
  by (simp add: to_int_def mod_pos_pos_trivial)

lemma tolower_idem [simp]: "tolower (tolower c) = tolower c"
  by (simp add: tolower_def Let_def)

lemma lower_idem [simp]: "lower (lower s) = lower s"
  by (simp add: lower_def comp_def)

lemma lower_append [simp]: "lower (s @ t) = lower s @ lower t" "lower [] = []" "lower (c # s) = tolower c # lower s"
  by (simp_all add: lower_def)

lemma length_lower [simp]: "length (lower s) = length s"
  by (simp add: lower_def)

lemma digit_value_char: "n < 10 \<Longrightarrow> digit_value (char_of (48 + n)) = Some n"
  by (simp add: digit_value_def Let_def)

lemma read_digits_append:
  "\<forall>c\<in>set s. \<exists>d<b. digit_value c = Some d \<Longrightarrow> read_digits b acc (s @ t) = read_digits b (fst (read_digits b acc s)) t"
  by (induction s arbitrary: acc) auto

lemma show_nat_digits: "\<forall>c\<in>set (show_nat n). \<exists>d<10. digit_value c = Some d"
proof (induction n rule: show_nat.induct)
  case (1 n)
  then show ?case by (cases "n < 10") (auto simp: show_nat.simps [of n] digit_value_char)
qed

lemma read_show_nat: "read_digits 10 0 (show_nat n) = (n, [])"
proof (induction n rule: show_nat.induct)
  case (1 n)
  show ?case
  proof (cases "n < 10")
    case True
    then show ?thesis by (simp add: show_nat.simps [of n] digit_value_char)
  next
    case False
    then have "read_digits 10 0 (show_nat (n div 10)) = (n div 10, [])" using 1 by simp
    then show ?thesis using False
      by (simp add: show_nat.simps [of n] read_digits_append [OF show_nat_digits] digit_value_char)
  qed
qed

lemma show_nat_Nil [simp]: "show_nat n \<noteq> []"
  by (subst show_nat.simps) simp

end
