(* ===== verification/Ini.thy ===== *)
theory Ini imports CString begin

text \<open>
  \<open>src/src/ini.c\<close>: the line-oriented INI parser with the options of \<open>src/inc/ini.h\<close> at their
  defaults (multi-line values, a UTF-8 byte order mark, inline comments after \<open>;\<close>, a line buffer
  of 200 bytes, parsing continues after an error).  A C string is the list of its characters
  before the terminating NUL; a pointer into a line is the rest of the line from there.  The
  handler is a function on the user's state, as in C.
\<close>

section \<open>String helpers\<close>

definition MAX_SECTION :: nat where "MAX_SECTION = 50"
definition MAX_NAME :: nat where "MAX_NAME = 50"
definition INI_MAX_LINE :: nat where "INI_MAX_LINE = 200"

lemmas ini_sizes = MAX_SECTION_def MAX_NAME_def INI_MAX_LINE_def

definition rstrip :: "string \<Rightarrow> string" where
  "rstrip s = rev (dropWhile isspace (rev s))"

definition lskip :: "string \<Rightarrow> string" where
  "lskip s = dropWhile isspace s"

text \<open>The string up to the first of \<open>chars\<close> or an inline comment, and the rest from there.\<close>

fun find_from :: "bool \<Rightarrow> string \<Rightarrow> string \<Rightarrow> string \<times> string" where
  "find_from was_space chars [] = ([], [])"
| "find_from was_space chars (c # s) =
     (if c \<in> set chars \<or> was_space \<and> c = CHR '';'' then ([], c # s)
      else let (p, r) = find_from (isspace c) chars s in (c # p, r))"

definition find_chars_or_comment :: "string \<Rightarrow> string \<Rightarrow> string \<times> string" where
  "find_chars_or_comment s chars = find_from False chars s"

definition strncpy0 :: "string \<Rightarrow> nat \<Rightarrow> string" where
  "strncpy0 src n = take (n - 1) src"

section \<open>Reading lines\<close>

text \<open>The loop of \<open>ini_reader_string\<close>, which \<open>fgets\<close> does on a file: at most \<open>num - 1\<close> characters.\<close>

fun reader_loop :: "nat \<Rightarrow> string \<Rightarrow> string \<times> string" where
  "reader_loop num [] = ([], [])"
| "reader_loop num (c # s) =
     (if num > 1 then
        (if c = CHR 0x0A then ([c], s) else let (l, r) = reader_loop (num - 1) s in (c # l, r))
      else ([], c # s))"

definition ini_reader_string :: "nat \<Rightarrow> string \<Rightarrow> (string \<times> string) option" where
  "ini_reader_string num s = (if s = [] \<or> num < 2 then None else Some (reader_loop num s))"

lemma reader_loop_shorter: "num > 1 \<Longrightarrow> s \<noteq> [] \<Longrightarrow> length (snd (reader_loop num s)) < length s"
proof -
  have "length (snd (reader_loop num s)) \<le> length s" for num s
    by (induction num s rule: reader_loop.induct) (auto split: prod.splits)
  then show "num > 1 \<Longrightarrow> s \<noteq> [] \<Longrightarrow> ?thesis"
    by (cases s) (auto split: prod.splits simp: less_Suc_eq_le intro: order_trans [OF eq_refl], metis snd_conv)
qed

section \<open>One line\<close>

record 'u ini_state =
  is_section :: string
  is_prev_name :: string
  is_lineno :: int
  is_error :: int
  is_user :: 'u

type_synonym 'u ini_handler = "'u \<Rightarrow> string \<Rightarrow> string \<Rightarrow> string \<Rightarrow> int \<times> 'u"

definition set_error :: "'u ini_state \<Rightarrow> 'u ini_state" where
  "set_error st = (if is_error st = 0 then st\<lparr>is_error := is_lineno st\<rparr> else st)"

text \<open>\<open>if (!HANDLER(user, section, name, value) && !error) error = lineno;\<close>\<close>

definition call_handler :: "'u ini_handler \<Rightarrow> string \<Rightarrow> string \<Rightarrow> 'u ini_state \<Rightarrow> 'u ini_state" where
  "call_handler handler name value st =
     (let (ok, u) = handler (is_user st) (is_section st) name value;
          st = st\<lparr>is_user := u\<rparr>
      in if ok = 0 then set_error st else st)"

definition utf8_bom :: string where
  "utf8_bom = [CHR 0xEF, CHR 0xBB, CHR 0xBF]"

definition ini_line :: "'u ini_handler \<Rightarrow> string \<Rightarrow> 'u ini_state \<Rightarrow> 'u ini_state" where
  "ini_line handler line st =
     (let st = st\<lparr>is_lineno := is_lineno st + 1\<rparr>;
          bom = (is_lineno st = 1 \<and> take 3 line = utf8_bom);
          stripped = rstrip (if bom then drop 3 line else line);
          start = lskip stripped;
          indented = (bom \<or> length start < length stripped)
      in if start = [] \<or> hd start \<in> set '';#'' then st
         else if is_prev_name st \<noteq> [] \<and> indented then
           call_handler handler (is_prev_name st) (rstrip (fst (find_chars_or_comment start []))) st
         else if hd start = CHR ''['' then
           (let (p, r) = find_chars_or_comment (tl start) '']''
            in if r \<noteq> [] \<and> hd r = CHR '']'' then st\<lparr>is_section := strncpy0 p MAX_SECTION, is_prev_name := []\<rparr>
               else set_error st)
         else
           (let (p, r) = find_chars_or_comment start ''=:''
            in if r \<noteq> [] \<and> (hd r = CHR ''='' \<or> hd r = CHR '':'') then
                 (let name = rstrip p;
                      value = rstrip (lskip (fst (find_chars_or_comment (tl r) [])))
                  in call_handler handler name value (st\<lparr>is_prev_name := strncpy0 name MAX_NAME\<rparr>))
               else set_error st))"

section \<open>A stream\<close>

function ini_loop :: "'u ini_handler \<Rightarrow> string \<Rightarrow> 'u ini_state \<Rightarrow> 'u ini_state" where
  "ini_loop handler s st =
     (case ini_reader_string INI_MAX_LINE s of
        None \<Rightarrow> st
      | Some (line, rest) \<Rightarrow> ini_loop handler rest (ini_line handler line st))"
  by pat_completeness auto

termination
proof (relation "measure (\<lambda>(_, s, _). length s)", goal_cases)
  case (2 handler s st a line rest)
  then have "s \<noteq> []" "rest = snd (reader_loop INI_MAX_LINE s)"
    by (auto simp: ini_reader_string_def split: if_splits dest: arg_cong [of _ _ snd])
  then show ?case using reader_loop_shorter [of INI_MAX_LINE s] by (simp add: ini_sizes)
qed simp

declare ini_loop.simps [simp del]

definition ini_parse_stream :: "'u ini_handler \<Rightarrow> string \<Rightarrow> 'u \<Rightarrow> int \<times> 'u" where
  "ini_parse_stream handler stream user =
     (let st = ini_loop handler stream
                 \<lparr>is_section = [], is_prev_name = [], is_lineno = 0, is_error = 0, is_user = user\<rparr>
      in (is_error st, is_user st))"

text \<open>The file is \<open>None\<close> when it cannot be opened.\<close>

definition ini_parse :: "string option \<Rightarrow> 'u ini_handler \<Rightarrow> 'u \<Rightarrow> int \<times> 'u" where
  "ini_parse file handler user = (case file of None \<Rightarrow> (-1, user) | Some s \<Rightarrow> ini_parse_stream handler s user)"

definition ini_parse_string :: "string \<Rightarrow> 'u ini_handler \<Rightarrow> 'u \<Rightarrow> int \<times> 'u" where
  "ini_parse_string s handler user = ini_parse_stream handler s user"

section \<open>Lines that a printer writes\<close>

lemma reader_line:
  assumes "CHR 0x0A \<notin> set l" "Suc (length l) < num"
  shows "reader_loop num (l @ CHR 0x0A # rest) = (l @ [CHR 0x0A], rest)"
  using assms by (induction l arbitrary: num) auto

lemma ini_loop_Nil: "ini_loop handler [] st = st"
  by (simp add: ini_loop.simps [of _ "[]"] ini_reader_string_def)

lemma ini_loop_line:
  assumes "CHR 0x0A \<notin> set l" "length l + 2 \<le> INI_MAX_LINE"
  shows "ini_loop handler (l @ CHR 0x0A # rest) st = ini_loop handler rest (ini_line handler (l @ [CHR 0x0A]) st)"
  using reader_line [of l INI_MAX_LINE rest] assms
  by (subst ini_loop.simps) (simp add: ini_reader_string_def ini_sizes)

lemma find_none:
  assumes "set p \<inter> set chars = {}" "CHR '';'' \<notin> set p"
  shows "find_from ws chars p = (p, [])"
  using assms by (induction p arbitrary: ws) auto

lemma find_first:
  assumes "set p \<inter> set chars = {}" "CHR '';'' \<notin> set p" "c \<in> set chars"
  shows "find_from ws chars (p @ c # r) = (p, c # r)"
  using assms by (induction p arbitrary: ws) auto

definition trimmed :: "string \<Rightarrow> bool" where
  "trimmed s \<longleftrightarrow> s = [] \<or> \<not> isspace (hd s) \<and> \<not> isspace (last s)"

lemma trimmed_lskip: "trimmed s \<Longrightarrow> lskip s = s"
  by (cases s) (auto simp: trimmed_def lskip_def)

lemma trimmed_rstrip: "trimmed s \<Longrightarrow> rstrip s = s"
proof -
  assume "trimmed s"
  then have "dropWhile isspace (rev s) = rev s"
    by (cases s rule: rev_cases) (auto simp: trimmed_def)
  then show ?thesis by (simp add: rstrip_def)
qed

lemma rstrip_snoc: "isspace c \<Longrightarrow> rstrip (s @ [c]) = rstrip s"
  by (simp add: rstrip_def)

lemma isspace_newline [simp]: "isspace (CHR 0x0A)"
  by (simp add: isspace_def)

lemma rstrip_line: "trimmed l \<Longrightarrow> rstrip (l @ [CHR 0x0A]) = l"
  by (simp add: rstrip_snoc trimmed_rstrip)

text \<open>The lines \<open>[section]\<close> and \<open>name=value\<close>.\<close>

definition plain_section :: "string \<Rightarrow> bool" where
  "plain_section s \<longleftrightarrow> set s \<inter> {CHR 0x0A, CHR '']'', CHR '';''} = {} \<and> length s < MAX_SECTION"

definition plain_name :: "string \<Rightarrow> bool" where
  "plain_name k \<longleftrightarrow> k \<noteq> [] \<and> trimmed k \<and> set k \<inter> {CHR 0x0A, CHR ''='', CHR '':'', CHR '';''} = {} \<and>
     hd k \<noteq> CHR ''['' \<and> hd k \<noteq> CHR ''#'' \<and> hd k \<noteq> CHR 0xEF"

definition plain_value :: "string \<Rightarrow> bool" where
  "plain_value v \<longleftrightarrow> trimmed v \<and> set v \<inter> {CHR 0x0A, CHR '';''} = {}"

lemma ini_section_line:
  assumes s: "plain_section s"
  shows "ini_line handler ((CHR ''['' # s @ [CHR '']'']) @ [CHR 0x0A]) st =
     st\<lparr>is_lineno := is_lineno st + 1, is_section := s, is_prev_name := []\<rparr>"
proof -
  have t: "trimmed (CHR ''['' # s @ [CHR '']''])" by (simp add: trimmed_def isspace_def)
  have bom: "take 3 ((CHR ''['' # s @ [CHR '']'']) @ [CHR 0x0A]) \<noteq> utf8_bom" by (simp add: utf8_bom_def)
  have r: "find_from False '']'' (s @ [CHR '']'']) = (s, [CHR '']''])"
    by (rule find_first) (use s in \<open>auto simp: plain_section_def\<close>)
  have n: "strncpy0 s MAX_SECTION = s" using s by (simp add: plain_section_def strncpy0_def ini_sizes)
  show ?thesis unfolding ini_line_def Let_def rstrip_line [OF t] if_not_P [OF bom]
    using bom rstrip_line [OF t] trimmed_lskip [OF t] r n by (simp add: find_chars_or_comment_def)
qed

lemma ini_value_line:
  assumes k: "plain_name k" and v: "plain_value v"
  shows "ini_line handler ((k @ CHR ''='' # v) @ [CHR 0x0A]) st =
     call_handler handler k v (st\<lparr>is_lineno := is_lineno st + 1, is_prev_name := strncpy0 k MAX_NAME\<rparr>)"
proof -
  obtain c k' where kc: "k = c # k'" using k by (cases k) (auto simp: plain_name_def)
  have lst: "\<not> isspace (last (CHR ''='' # v))" using v
    by (cases "v = []") (auto simp: plain_value_def trimmed_def isspace_def)
  have t: "trimmed (k @ CHR ''='' # v)" using k lst kc by (simp add: trimmed_def plain_name_def)
  have bom: "take 3 ((k @ CHR ''='' # v) @ [CHR 0x0A]) \<noteq> utf8_bom" using k kc by (auto simp: utf8_bom_def plain_name_def)
  have r: "find_from False ''=:'' (k @ CHR ''='' # v) = (k, CHR ''='' # v)"
    by (rule find_first) (use k in \<open>auto simp: plain_name_def\<close>)
  have w: "find_from False [] v = (v, [])" by (rule find_none) (use v in \<open>auto simp: plain_value_def\<close>)
  have hd: "hd (k @ CHR ''='' # v) = c" "c \<noteq> CHR '';''" "c \<noteq> CHR ''#''" "c \<noteq> CHR ''[''" using k kc by (auto simp: plain_name_def)
  have tk: "trimmed k" "trimmed v" using k v by (simp_all add: plain_name_def plain_value_def)
  show ?thesis unfolding ini_line_def Let_def
    using bom rstrip_line [OF t] trimmed_lskip [OF t] r w hd tk kc
    by (simp add: find_chars_or_comment_def trimmed_rstrip trimmed_lskip)
qed

end
