(* ===== verification/IniReader.thy ===== *)
theory IniReader imports Ini begin

text \<open>
  \<open>src/src/INIReader.cc\<close>: the values of an INI file under the key \<open>section=name\<close> in lower case.
  The \<open>std::map\<close> is an association list in ascending order of its keys, in the byte order of
  \<open>std::string\<close>; a configuration written as sections of \<open>name=value\<close> lines is read back.
\<close>

section \<open>The map of values\<close>

type_synonym ini_values = "(string \<times> string) list"

fun str_less :: "string \<Rightarrow> string \<Rightarrow> bool" where
  "str_less _ [] = False"
| "str_less [] (_ # _) = True"
| "str_less (c # s) (d # t) = ((of_char c :: nat) < of_char d \<or> c = d \<and> str_less s t)"

fun map_put :: "string \<Rightarrow> string \<Rightarrow> ini_values \<Rightarrow> ini_values" where
  "map_put k v [] = [(k, v)]"
| "map_put k v ((k', v') # m) =
     (if k = k' then (k, v) # m else if str_less k k' then (k, v) # (k', v') # m else (k', v') # map_put k v m)"

definition lower_bound :: "string \<Rightarrow> ini_values \<Rightarrow> ini_values" where
  "lower_bound key m = dropWhile (\<lambda>(k, _). str_less k key) m"

section \<open>The reader\<close>

record ini_reader =
  ir_error :: int
  ir_values :: ini_values

definition make_key :: "string \<Rightarrow> string \<Rightarrow> string" where
  "make_key sec name = lower (sec @ CHR ''='' # name)"

definition value_handler :: "ini_values ini_handler" where
  "value_handler vs sec name val =
     (let key = make_key sec name;
          old = (case map_of vs key of Some x \<Rightarrow> x | None \<Rightarrow> []);
          old = (if length old > 0 then old @ [CHR 0x0A] else old)
      in (1, map_put key (old @ val) vs))"

definition ini_reader_file :: "string option \<Rightarrow> ini_reader" where
  "ini_reader_file file = (let (e, vs) = ini_parse file value_handler [] in \<lparr>ir_error = e, ir_values = vs\<rparr>)"

definition ini_reader_buffer :: "string \<Rightarrow> ini_reader" where
  "ini_reader_buffer content = (let (e, vs) = ini_parse_string content value_handler [] in \<lparr>ir_error = e, ir_values = vs\<rparr>)"

definition ini_get :: "ini_reader \<Rightarrow> string \<Rightarrow> string \<Rightarrow> string \<Rightarrow> string" where
  "ini_get r sec name default_value =
     (case map_of (ir_values r) (make_key sec name) of Some v \<Rightarrow> v | None \<Rightarrow> default_value)"

definition ini_get_string :: "ini_reader \<Rightarrow> string \<Rightarrow> string \<Rightarrow> string \<Rightarrow> string" where
  "ini_get_string r sec name default_value =
     (let str = ini_get r sec name [] in if str = [] then default_value else str)"

definition get_integer :: "ini_reader \<Rightarrow> string \<Rightarrow> string \<Rightarrow> int \<Rightarrow> int" where
  "get_integer r sec name default_value =
     (case strtol (ini_get r sec name []) of Some n \<Rightarrow> n | None \<Rightarrow> default_value)"

definition get_real :: "ini_reader \<Rightarrow> string \<Rightarrow> string \<Rightarrow> real \<Rightarrow> real" where
  "get_real r sec name default_value =
     (case strtod (ini_get r sec name []) of Some n \<Rightarrow> n | None \<Rightarrow> default_value)"

definition get_boolean :: "ini_reader \<Rightarrow> string \<Rightarrow> string \<Rightarrow> bool \<Rightarrow> bool" where
  "get_boolean r sec name default_value =
     (let valstr = lower (ini_get r sec name [])
      in if valstr = ''true'' \<or> valstr = ''yes'' \<or> valstr = ''on'' \<or> valstr = ''1'' then True
         else if valstr = ''false'' \<or> valstr = ''no'' \<or> valstr = ''off'' \<or> valstr = ''0'' then False
         else default_value)"

definition has_section :: "ini_reader \<Rightarrow> string \<Rightarrow> bool" where
  "has_section r sec =
     (let key = make_key sec [] in
      case lower_bound key (ir_values r) of
        [] \<Rightarrow> False
      | (k, _) # _ \<Rightarrow> take (length key) k = key)"

definition has_value :: "ini_reader \<Rightarrow> string \<Rightarrow> string \<Rightarrow> bool" where
  "has_value r sec name = (map_of (ir_values r) (make_key sec name) \<noteq> None)"

section \<open>The order of the keys\<close>

lemma of_char_eq_nat: "(of_char c :: nat) = of_char d \<longleftrightarrow> c = d"
  by (metis char_of_char)

lemma str_less_irrefl [simp]: "\<not> str_less s s"
  by (induction s) auto

lemma str_less_trans: "str_less s t \<Longrightarrow> str_less t u \<Longrightarrow> str_less s u"
proof (induction s t arbitrary: u rule: str_less.induct)
  case (3 c s d t)
  then show ?case by (cases u) auto
next
  case (2 d t)
  then show ?case by (cases u) auto
qed simp

lemma str_less_linear: "str_less s t \<or> s = t \<or> str_less t s"
proof (induction s t rule: str_less.induct)
  case (3 c s d t)
  consider "(of_char c :: nat) < of_char d" | "(of_char d :: nat) < of_char c" | "c = d" using of_char_eq_nat [of c d] by linarith
  then show ?case using 3 by cases auto
qed (auto simp: neq_Nil_conv, metis list.exhaust str_less.simps(2))

definition ordered :: "ini_values \<Rightarrow> bool" where
  "ordered m = sorted_wrt str_less (map fst m)"

lemma map_put_of: "map_of (map_put k v m) = (map_of m)(k \<mapsto> v)"
  by (induction m) (auto simp: fun_eq_iff)

lemma map_put_keys: "set (map fst (map_put k v m)) = insert k (set (map fst m))"
  by (simp add: dom_map_of_conv_image_fst [symmetric] map_put_of)

lemma map_put_ordered: "ordered m \<Longrightarrow> ordered (map_put k v m)"
proof (induction m)
  case (Cons e m)
  obtain k' v' where e: "e = (k', v')" by (cases e)
  have o: "ordered m" "\<forall>x\<in>set (map fst m). str_less k' x" using Cons.prems by (auto simp: ordered_def e)
  consider "k = k'" | "str_less k k'" | "k \<noteq> k'" "\<not> str_less k k'" "str_less k' k" using str_less_linear [of k k'] by auto
  then show ?case
  proof cases
    case 2
    then have "k \<noteq> k'" by auto
    then show ?thesis using 2 o Cons.prems by (auto simp: ordered_def e intro: str_less_trans)
  next
    case 3
    then show ?thesis using o Cons.IH map_put_keys [of k v m] by (auto simp: ordered_def e)
  qed (use Cons.prems in \<open>auto simp: ordered_def e\<close>)
qed (simp add: ordered_def)

lemma handler_ordered: "ordered vs \<Longrightarrow> ordered (snd (value_handler vs sec name val))"
  by (simp add: value_handler_def Let_def map_put_ordered)

text \<open>The keys that start with a prefix follow its lower bound directly.\<close>

lemma prefix_not_less: "\<not> str_less (p @ t) p"
  by (induction p) auto

lemma less_prefix: "str_less k p \<Longrightarrow> take (length p) k = p \<Longrightarrow> False"
  by (metis append_take_drop_id prefix_not_less)

lemma between_prefix:
  "\<not> str_less k p \<Longrightarrow> str_less k (p @ t) \<Longrightarrow> take (length p) k = p"
proof (induction p arbitrary: k)
  case (Cons c p)
  then show ?case by (cases k) (auto simp: of_char_eq_nat)
qed simp

lemma has_section_iff:
  assumes "ordered (ir_values r)"
  shows "has_section r sec \<longleftrightarrow> (\<exists>k\<in>set (map fst (ir_values r)). take (length (make_key sec [])) k = make_key sec [])"
proof -
  let ?p = "make_key sec []"
  have "(case lower_bound ?p m of [] \<Rightarrow> False | (k, _) # _ \<Rightarrow> take (length ?p) k = ?p) \<longleftrightarrow>
      (\<exists>k\<in>set (map fst m). take (length ?p) k = ?p)" if "ordered m" for m
    using that
  proof (induction m)
    case (Cons e m)
    obtain k' v' where e: "e = (k', v')" by (cases e)
    have o: "ordered m" "\<forall>x\<in>set (map fst m). str_less k' x" using Cons.prems by (auto simp: ordered_def e)
    show ?case
    proof (cases "str_less k' ?p")
      case True
      then have "take (length ?p) k' \<noteq> ?p" using less_prefix by blast
      then show ?thesis using True Cons.IH [OF o(1)] by (simp add: e lower_bound_def)
    next
      case False
      have "take (length ?p) k' = ?p" if x: "x \<in> set (map fst m)" "take (length ?p) x = ?p" for x
      proof -
        obtain t where t: "x = ?p @ t" using x(2) by (metis append_take_drop_id)
        then have "str_less k' (?p @ t)" using o(2) x(1) by blast
        with False show ?thesis by (rule between_prefix)
      qed
      then show ?thesis using False by (auto simp: e lower_bound_def)
    qed
  qed (simp add: lower_bound_def)
  from this [OF assms] show ?thesis by (simp add: has_section_def Let_def)
qed

section \<open>Writing a configuration\<close>

type_synonym ini_config = "(string \<times> (string \<times> string) list) list"

definition print_entry :: "string \<times> string \<Rightarrow> string" where
  "print_entry = (\<lambda>(k, v). (k @ CHR ''='' # v) @ [CHR 0x0A])"

definition print_section :: "string \<times> (string \<times> string) list \<Rightarrow> string" where
  "print_section = (\<lambda>(s, es). (CHR ''['' # s @ [CHR '']'']) @ [CHR 0x0A] @ concat (map print_entry es))"

definition print_config :: "ini_config \<Rightarrow> string" where
  "print_config cfg = concat (map print_section cfg)"

definition entries :: "ini_config \<Rightarrow> (string \<times> string) list" where
  "entries cfg = concat (map (\<lambda>(s, es). map (\<lambda>(k, v). (make_key s k, v)) es) cfg)"

definition plain_entry :: "string \<times> string \<Rightarrow> bool" where
  "plain_entry = (\<lambda>(k, v). plain_name k \<and> plain_value v \<and> length k + length v + 3 \<le> INI_MAX_LINE)"

definition plain_config :: "ini_config \<Rightarrow> bool" where
  "plain_config cfg \<longleftrightarrow> (\<forall>(s, es)\<in>set cfg. plain_section s \<and> list_all plain_entry es) \<and> distinct (map fst (entries cfg))"

lemma handler_new:
  assumes "map_of vs (make_key s k) = None"
  shows "value_handler vs s k v = (1, map_put (make_key s k) v vs)"
  using assms by (simp add: value_handler_def)

lemma handler_call:
  assumes "map_of (is_user st) (make_key (is_section st) k) = None"
  shows "call_handler value_handler k v st = st\<lparr>is_user := map_put (make_key (is_section st) k) v (is_user st)\<rparr>"
  using handler_new [OF assms] by (simp add: call_handler_def)

text \<open>A state that has read some entries: their keys and nothing else are in the map.\<close>

definition holds_entries :: "(string \<times> string) list \<Rightarrow> ini_values ini_state \<Rightarrow> bool" where
  "holds_entries es st \<longleftrightarrow> is_error st = 0 \<and> ordered (is_user st) \<and> map_of (is_user st) = map_of es"

lemma read_entries:
  assumes "list_all plain_entry es" "is_section st = s" "holds_entries done st"
    "distinct (map fst (done @ map (\<lambda>(k, v). (make_key s k, v)) es))"
  shows "\<exists>st'. ini_loop value_handler (concat (map print_entry es) @ rest) st = ini_loop value_handler rest st' \<and>
     is_section st' = s \<and> holds_entries (done @ map (\<lambda>(k, v). (make_key s k, v)) es) st'"
  using assms
proof (induction es arbitrary: st "done")
  case Nil
  then show ?case by auto
next
  case (Cons e es)
  obtain k v where e: "e = (k, v)" by (cases e)
  have p: "plain_name k" "plain_value v" "length k + length v + 3 \<le> INI_MAX_LINE" using Cons.prems(1) by (simp_all add: e plain_entry_def)
  let ?l = "k @ CHR ''='' # v"
  let ?sti = "st\<lparr>is_lineno := is_lineno st + 1, is_prev_name := strncpy0 k MAX_NAME\<rparr>"
  let ?st = "?sti\<lparr>is_user := map_put (make_key s k) v (is_user st)\<rparr>"
  have nl: "CHR 0x0A \<notin> set ?l" using p by (auto simp: plain_name_def plain_value_def)
  have new: "map_of (is_user st) (make_key s k) = None" and upd: "map_of (is_user st) = map_of done"
    using Cons.prems(3,4) by (auto simp: holds_entries_def e map_of_eq_None_iff)
  have "ini_line value_handler (?l @ [CHR 0x0A]) st = ?st"
    using ini_value_line [OF p(1,2), of value_handler st] handler_call [of ?sti k v] new Cons.prems(2) by simp
  then have step: "ini_loop value_handler (concat (map print_entry (e # es)) @ rest) st =
      ini_loop value_handler (concat (map print_entry es) @ rest) ?st"
    using ini_loop_line [OF nl, of value_handler "concat (map print_entry es) @ rest" st] p(3) by (simp add: e print_entry_def)
  have "make_key s k \<notin> set (map fst done)" using Cons.prems(4) by (auto simp: e)
  then have "map_of (done @ [(make_key s k, v)]) = (map_of done)(make_key s k \<mapsto> v)"
    by (simp add: map_add_upd_left dom_map_of_conv_image_fst)
  then have "holds_entries (done @ [(make_key s k, v)]) ?st"
    using Cons.prems(3) by (simp add: holds_entries_def map_put_ordered map_put_of)
  moreover have "distinct (map fst ((done @ [(make_key s k, v)]) @ map (\<lambda>(k, v). (make_key s k, v)) es))"
    using Cons.prems(4) by (simp add: e)
  ultimately have "\<exists>st'. ini_loop value_handler (concat (map print_entry es) @ rest) ?st = ini_loop value_handler rest st' \<and>
     is_section st' = s \<and> holds_entries ((done @ [(make_key s k, v)]) @ map (\<lambda>(k, v). (make_key s k, v)) es) st'"
    using Cons.IH [of ?st "done @ [(make_key s k, v)]"] Cons.prems(1,2) by simp
  then show ?case unfolding step by (simp add: e)
qed

lemma read_config:
  assumes "\<forall>(s, es)\<in>set cfg. plain_section s \<and> list_all plain_entry es" "holds_entries done st"
    "distinct (map fst (done @ entries cfg))"
  shows "\<exists>st'. ini_loop value_handler (print_config cfg) st = st' \<and> holds_entries (done @ entries cfg) st'"
  using assms
proof (induction cfg arbitrary: st "done")
  case Nil
  then show ?case by (simp add: print_config_def entries_def ini_loop_Nil)
next
  case (Cons c cfg)
  obtain s es where c: "c = (s, es)" by (cases c)
  have p: "plain_section s" "list_all plain_entry es" using Cons.prems(1) by (auto simp: c)
  let ?l = "CHR ''['' # s @ [CHR '']'']"
  let ?st = "st\<lparr>is_lineno := is_lineno st + 1, is_section := s, is_prev_name := []\<rparr>"
  let ?es = "map (\<lambda>(k, v). (make_key s k, v)) es"
  have ents: "entries (c # cfg) = ?es @ entries cfg" by (simp add: entries_def c)
  have nl: "CHR 0x0A \<notin> set ?l" "length ?l + 2 \<le> INI_MAX_LINE" using p(1) by (auto simp: plain_section_def ini_sizes)
  have "ini_loop value_handler (print_config (c # cfg)) st = ini_loop value_handler (concat (map print_entry es) @ print_config cfg) ?st"
    using ini_loop_line [OF nl, of value_handler "concat (map print_entry es) @ print_config cfg" st]
      ini_section_line [OF p(1), of value_handler st] by (simp add: c print_config_def print_section_def)
  moreover have "holds_entries done ?st" using Cons.prems(2) by (simp add: holds_entries_def)
  have "distinct (map fst (done @ ?es))" using Cons.prems(3) by (simp add: ents Int_Un_distrib)
  with \<open>holds_entries done ?st\<close> obtain st' where st': "ini_loop value_handler (concat (map print_entry es) @ print_config cfg) ?st = ini_loop value_handler (print_config cfg) st'"
      "holds_entries (done @ ?es) st'"
    using read_entries [OF p(2), of ?st s "done" "print_config cfg"] by fastforce
  moreover from Cons.IH [OF _ st'(2)] Cons.prems have "holds_entries ((done @ ?es) @ entries cfg) (ini_loop value_handler (print_config cfg) st')"
    by (auto simp: ents)
  ultimately show ?case by (simp add: ents)
qed

text \<open>The parser counts lines from one, so that only a file that cannot be opened gives a negative error.\<close>

definition counts :: "'u ini_state \<Rightarrow> bool" where
  "counts st \<longleftrightarrow> 0 \<le> is_lineno st \<and> 0 \<le> is_error st"

lemma counts_ops:
  "counts st \<Longrightarrow> counts (set_error st)" "counts st \<Longrightarrow> counts (call_handler handler name val st)"
  "counts st \<Longrightarrow> counts (st\<lparr>is_prev_name := n\<rparr>)" "counts st \<Longrightarrow> counts (st\<lparr>is_section := n, is_prev_name := m\<rparr>)"
  "counts st \<Longrightarrow> counts (st\<lparr>is_lineno := is_lineno st + 1\<rparr>)"
  by (simp_all add: counts_def set_error_def call_handler_def Let_def split_beta)

lemma counts_line: "counts st \<Longrightarrow> counts (ini_line handler line st)"
  unfolding ini_line_def Let_def split_beta
  by (intro if_split [where P = counts, THEN iffD2] conjI impI counts_ops) assumption+

lemma counts_loop: "counts st \<Longrightarrow> counts (ini_loop handler s st)"
proof (induction handler s st rule: ini_loop.induct)
  case (1 handler s st)
  show ?case
  proof (cases "ini_reader_string INI_MAX_LINE s")
    case None
    then show ?thesis using 1(2) by (simp add: ini_loop.simps [of handler s st])
  next
    case (Some p)
    obtain line rest where p: "p = (line, rest)" by (cases p)
    have "ini_loop handler s st = ini_loop handler rest (ini_line handler line st)"
      by (subst ini_loop.simps) (simp add: Some p)
    then show ?thesis using 1(1) [OF Some p [symmetric] counts_line [OF 1(2)]] by simp
  qed
qed

lemma reader_error: "ir_error (ini_reader_file file) < 0 \<longleftrightarrow> file = None"
proof (cases "file")
  case (Some s)
  have "counts (ini_loop value_handler s \<lparr>is_section = [], is_prev_name = [], is_lineno = 0, is_error = 0, is_user = []\<rparr>)"
    by (rule counts_loop) (simp add: counts_def)
  then show ?thesis by (simp add: Some ini_reader_file_def ini_parse_def ini_parse_stream_def counts_def Let_def)
qed (simp add: ini_reader_file_def ini_parse_def)

text \<open>The reader of a printed configuration holds its entries.\<close>

lemma printed_values:
  assumes "plain_config cfg"
  shows "ir_error (ini_reader_file (Some (print_config cfg))) = 0"
    "ordered (ir_values (ini_reader_file (Some (print_config cfg))))"
    "map_of (ir_values (ini_reader_file (Some (print_config cfg)))) = map_of (entries cfg)"
proof -
  let ?sti = "\<lparr>is_section = [], is_prev_name = [], is_lineno = 0, is_error = 0, is_user = []\<rparr>"
  have "holds_entries [] ?sti" by (simp add: holds_entries_def ordered_def)
  from read_config [OF _ this, of cfg] assms
  have h: "holds_entries (entries cfg) (ini_loop value_handler (print_config cfg) ?sti)" by (simp add: plain_config_def)
  let ?r = "ini_reader_file (Some (print_config cfg))"
  show "ir_error ?r = 0" "ordered (ir_values ?r)" "map_of (ir_values ?r) = map_of (entries cfg)"
    using h by (simp_all add: ini_reader_file_def ini_parse_def ini_parse_stream_def holds_entries_def)
qed

section \<open>Properties\<close>

text \<open>
  C18.  A configuration written as sections with \<open>name=value\<close> lines is read back: the parser reports no
  error, \<open>Get\<close> returns for every name of every section its value and for any other key the default,
  and \<open>HasSection\<close> holds exactly for the sections (in any case of letters) that have an entry.  The
  names carry no character that the format reserves, values no comment, and a line fits the buffer.
\<close>

theorem config_roundtrip:
  assumes "plain_config cfg"
  shows "ir_error (ini_reader_file (Some (print_config cfg))) = 0 \<and>
    ini_get (ini_reader_file (Some (print_config cfg))) sec name d =
      (case map_of (entries cfg) (make_key sec name) of Some v \<Rightarrow> v | None \<Rightarrow> d) \<and>
    (has_section (ini_reader_file (Some (print_config cfg))) sec \<longleftrightarrow>
      (\<exists>k\<in>fst ` set (entries cfg). take (Suc (length sec)) k = lower sec @ ''=''))"
proof -
  let ?r = "ini_reader_file (Some (print_config cfg))"
  note r = printed_values [OF assms]
  have "fst ` set (ir_values ?r) = fst ` set (entries cfg)"
    using r(3) by (metis dom_map_of_conv_image_fst)
  moreover have "make_key sec [] = lower sec @ ''=''" by (simp add: make_key_def tolower_def)
  ultimately show ?thesis using r has_section_iff [OF r(2), of sec] by (simp add: ini_get_def)
qed

theorem config_roundtrip_witness:
  "ini_get (ini_reader_file (Some (print_config [(''video0'', [(''device'', ''/dev/video0''), (''fps'', ''25'')]), (''log'', [])])))
     ''Video0'' ''FPS'' ''30'' = ''25''"
proof -
  let ?cfg = "[(''video0'', [(''device'', ''/dev/video0''), (''fps'', ''25'')]), (''log'', [])]"
  have "plain_config ?cfg"
    by (simp add: plain_config_def plain_section_def plain_entry_def plain_name_def plain_value_def trimmed_def
      isspace_def entries_def make_key_def tolower_def lower_def ini_sizes)
  moreover have "map_of (entries ?cfg) (make_key ''Video0'' ''FPS'') = Some ''25''" by code_simp
  ultimately show ?thesis using config_roundtrip [of ?cfg "''Video0''" "''FPS''" "''30''"] by simp
qed

end
