(* ===== verification/IniNumbers.thy ===== *)
theory IniNumbers imports IniReader "HOL-Library.Word" begin

text \<open>
  The numeric readers of \<open>INIReader.cc\<close> that the program offers beside \<open>GetInteger\<close>: 64 bits, and
  unsigned.  \<open>strtoul\<close> negates a value with a minus sign modulo \<open>2 ^ 64\<close>.  A number that was printed in
  decimal is read back by all of them.
\<close>

section \<open>Reading\<close>

text \<open>The sign and the digits, as \<open>strtol\<close> and \<open>strtoul\<close> with base 0 find them.\<close>

definition scan_number :: "string \<Rightarrow> (int \<times> nat) option" where
  "scan_number value =
     (let (sg, s) = read_sign (dropWhile isspace value);
          hex = (length s > 2 \<and> s ! 0 = CHR ''0'' \<and> lower [s ! 1] = ''x'' \<and> starts_digit 16 (drop 2 s));
          (b, s) = (if hex then (16, drop 2 s) else if s \<noteq> [] \<and> s ! 0 = CHR ''0'' then (8, s) else (10, s))
      in if starts_digit b s then Some (sg, fst (read_digits b 0 s)) else None)"

definition strtoul :: "string \<Rightarrow> 64 word option" where
  "strtoul value = map_option (\<lambda>(sg, n). if n \<ge> 2 ^ 64 then -1 else word_of_int (sg * int n)) (scan_number value)"

lemma strtol_scan: "strtol value = map_option (\<lambda>(sg, n). max (- (2 ^ 63)) (min (2 ^ 63 - 1) (sg * int n))) (scan_number value)"
  by (simp add: strtol_def scan_number_def Let_def case_prod_beta)

text \<open>\<open>strtoll\<close> is \<open>strtol\<close> where \<open>long\<close> has 64 bits, \<open>strtoull\<close> is \<open>strtoul\<close>.\<close>

definition get_integer64 :: "ini_reader \<Rightarrow> string \<Rightarrow> string \<Rightarrow> int \<Rightarrow> int" where
  "get_integer64 r sec name default_value =
     (case strtol (ini_get r sec name []) of Some n \<Rightarrow> n | None \<Rightarrow> default_value)"

definition get_unsigned :: "ini_reader \<Rightarrow> string \<Rightarrow> string \<Rightarrow> 64 word \<Rightarrow> 64 word" where
  "get_unsigned r sec name default_value =
     (case strtoul (ini_get r sec name []) of Some n \<Rightarrow> n | None \<Rightarrow> default_value)"

definition get_unsigned64 :: "ini_reader \<Rightarrow> string \<Rightarrow> string \<Rightarrow> 64 word \<Rightarrow> 64 word" where
  "get_unsigned64 r sec name default_value =
     (case strtoul (ini_get r sec name []) of Some n \<Rightarrow> n | None \<Rightarrow> default_value)"

section \<open>Signed and unsigned readings of one value\<close>

text \<open>They are equal as words where the signed one does not saturate: -1 is read as the greatest value.\<close>

lemma sign_cases: "read_sign s = (sg, t) \<Longrightarrow> sg = 1 \<or> sg = -1"
  by (auto simp: read_sign_def split: list.splits if_splits)

lemma unsigned_reading:
  assumes "strtol value = Some n" "- (2 ^ 63) < n" "n < 2 ^ 63 - 1"
  shows "strtoul value = Some (word_of_int n)"
proof -
  obtain sg k where k: "scan_number value = Some (sg, k)" "n = max (- (2 ^ 63)) (min (2 ^ 63 - 1) (sg * int k))"
    using assms(1) by (auto simp: strtol_scan)
  then have e: "n = sg * int k" using assms(2,3) by auto
  have "sg = 1 \<or> sg = -1"
    using k(1) sign_cases by (auto simp: scan_number_def Let_def split: prod.splits if_splits)
  then have "\<not> k \<ge> 2 ^ 64" using e assms(2,3) by auto
  then show ?thesis using k(1) e by (simp add: strtoul_def)
qed

section \<open>Printed numbers\<close>

lemma digit_of_char: "(d :: nat) < 10 \<Longrightarrow> digit_value (char_of (48 + d)) = Some d"
  by (simp add: digit_value_def Let_def)

lemma read_printed: "read_digits 10 acc (show_nat n @ t) = read_digits 10 (acc * 10 ^ length (show_nat n) + n) t"
proof (induction n arbitrary: acc t rule: show_nat.induct)
  case (1 n)
  show ?case
  proof (cases "n < 10")
    case True
    then show ?thesis by (simp add: show_nat.simps digit_of_char)
  next
    case False
    have d: "n mod 10 < 10" by simp
    have e: "show_nat n = show_nat (n div 10) @ [char_of (48 + n mod 10)]" using False by (subst show_nat.simps) simp
    show ?thesis unfolding e using 1 [OF False] digit_of_char [OF d] by (simp add: algebra_simps)
  qed
qed

lemma first_digit: "\<exists>(d :: nat) t. d < 10 \<and> (n \<noteq> 0 \<longrightarrow> d \<noteq> 0) \<and> show_nat n = char_of (48 + d) # t"
proof (induction n rule: show_nat.induct)
  case (1 n)
  show ?case
  proof (cases "n < 10")
    case True
    then show ?thesis by (subst show_nat.simps) auto
  next
    case False
    then have "n div 10 \<noteq> 0" by simp
    then show ?thesis using 1 [OF False] False by (subst show_nat.simps) auto
  qed
qed

lemma scan_printed: "scan_number (show_int i) = Some (if i < 0 then -1 else 1, nat \<bar>i\<bar>)"
proof -
  obtain d :: nat and t where d: "d < 10" "nat \<bar>i\<bar> \<noteq> 0 \<longrightarrow> d \<noteq> 0" "show_nat (nat \<bar>i\<bar>) = char_of (48 + d) # t" using first_digit by blast
  let ?s = "show_nat (nat \<bar>i\<bar>)"
  have "\<not> isspace (char_of (48 + d))" "char_of (48 + d) \<noteq> CHR ''-''" "char_of (48 + d) \<noteq> CHR ''+''"
    using d(1) by (auto simp: isspace_def Let_def dest: arg_cong [where f = "of_char :: char \<Rightarrow> nat"])
  then have sign: "read_sign (dropWhile isspace (show_int i)) = (if i < 0 then -1 else 1, ?s)"
    using d(3) by (auto simp: show_int_def read_sign_def isspace_def)
  have start: "starts_digit 10 ?s" using d(1,3) digit_of_char [OF d(1)] by (simp add: starts_digit_def)
  have val: "fst (read_digits 10 0 ?s) = nat \<bar>i\<bar>" using read_printed [of 0 "nat \<bar>i\<bar>" "[]"] by simp
  show ?thesis
  proof (cases "i = 0")
    case True
    have "show_nat 0 = ''0''" by code_simp
    then show ?thesis using sign True by (simp add: scan_number_def starts_digit_def digit_value_def)
  next
    case False
    then have "char_of (48 + d) \<noteq> CHR ''0''" using d(1,2) by (auto dest: arg_cong [where f = "of_char :: char \<Rightarrow> nat"])
    then show ?thesis using sign start val d(3) by (simp add: scan_number_def)
  qed
qed

lemma strtol_printed: "- (2 ^ 63) \<le> i \<Longrightarrow> i < 2 ^ 63 \<Longrightarrow> strtol (show_int i) = Some i"
  by (simp add: strtol_scan scan_printed)

lemma strtoul_printed: "- (2 ^ 64) < i \<Longrightarrow> i < 2 ^ 64 \<Longrightarrow> strtoul (show_int i) = Some (word_of_int i)"
  by (auto simp: strtoul_def scan_printed nat_le_iff)

text \<open>What the readers return for a value that was printed, and for a key that is not there.\<close>

lemma numbers_roundtrip:
  assumes "ini_get r sec name [] = show_int i" "- (2 ^ 63) \<le> i" "i < 2 ^ 63"
  shows "get_integer r sec name d = i" "get_integer64 r sec name d = i" "get_unsigned r sec name u = word_of_int i"
    "0 \<le> i \<Longrightarrow> unat (get_unsigned64 r sec name u) = nat i"
  using assms strtol_printed [of i] strtoul_printed [of i]
  by (simp_all add: get_integer_def get_integer64_def get_unsigned_def get_unsigned64_def unsigned_of_int take_bit_int_eq_self unat_eq_nat_uint)

lemma numbers_default:
  assumes "ini_get r sec name [] = []"
  shows "get_integer r sec name d = d" "get_integer64 r sec name d = d" "get_unsigned r sec name u = u" "get_unsigned64 r sec name u = u"
proof -
  have "scan_number [] = None" by (simp add: scan_number_def read_sign_def starts_digit_def)
  then show "get_integer r sec name d = d" "get_integer64 r sec name d = d" "get_unsigned r sec name u = u" "get_unsigned64 r sec name u = u"
    using assms by (simp_all add: get_integer_def get_integer64_def get_unsigned_def get_unsigned64_def strtol_scan strtoul_def)
qed

end
