(* ===== verification/QuickSort.thy ===== *)
theory QuickSort imports Prelude begin

text \<open>
  Model of \<open>quick_sort_indice_inverse\<close> of \<open>src/src/postprocess.cc\<close>: it sorts the scores in place, the
  largest first, and moves the indices along.  The position it returns is not used.  Positions are
  natural numbers: \<open>low - 1\<close> below zero is only reached with \<open>left = 0\<close>, where the recursive call
  returns at once either way.
\<close>

section \<open>The function\<close>

text \<open>The two inner loops, from the right and from the left.\<close>

function scan_high :: "real list \<Rightarrow> real \<Rightarrow> nat \<Rightarrow> nat \<Rightarrow> nat" where
  "scan_high input key low high =
     (if low < high \<and> input ! high \<le> key then scan_high input key low (high - 1) else high)"
  by pat_completeness auto
termination by (relation "measure (\<lambda>(input, key, low, high). high)") auto

function scan_low :: "real list \<Rightarrow> real \<Rightarrow> nat \<Rightarrow> nat \<Rightarrow> nat" where
  "scan_low input key low high =
     (if low < high \<and> input ! low \<ge> key then scan_low input key (low + 1) high else low)"
  by pat_completeness auto
termination by (relation "measure (\<lambda>(input, key, low, high). high - low)") auto

declare scan_high.simps [simp del] scan_low.simps [simp del]

text \<open>The loop that moves the hole, then the recursion; \<^const>\<open>None\<close> when one of them does not end.\<close>

partial_function (option) part_loop ::
  "real \<Rightarrow> real list \<Rightarrow> 'i list \<Rightarrow> nat \<Rightarrow> nat \<Rightarrow> (real list \<times> 'i list \<times> nat) option" where
  "part_loop key input indices low high =
     (if low < high then
        (let high = scan_high input key low high;
             input = input[low := input ! high];
             indices = indices[low := indices ! high];
             low = scan_low input key low high;
             input = input[high := input ! low];
             indices = indices[high := indices ! low]
         in part_loop key input indices low high)
      else Some (input, indices, low))"

partial_function (option) quick_sort ::
  "real list \<Rightarrow> nat \<Rightarrow> nat \<Rightarrow> 'i list \<Rightarrow> (real list \<times> 'i list) option" where
  "quick_sort input left right indices =
     (if left < right then
        (let key_index = indices ! left;
             key = input ! left
         in Option.bind (part_loop key input indices left right) (\<lambda>r. case r of (input, indices, low) \<Rightarrow>
              let input = input[low := key];
                  indices = indices[low := key_index]
              in Option.bind (quick_sort input left (low - 1) indices) (\<lambda>r. case r of (input, indices) \<Rightarrow>
                   quick_sort input (low + 1) right indices)))
      else Some (input, indices))"

declare part_loop.simps [code] quick_sort.simps [code]

section \<open>The inner loops\<close>

lemma scan_high_ok:
  assumes "low \<le> high"
  shows "low \<le> scan_high input key low high \<and> scan_high input key low high \<le> high \<and>
     (\<forall>k. scan_high input key low high < k \<and> k \<le> high \<longrightarrow> input ! k \<le> key) \<and>
     (scan_high input key low high = low \<or> key < input ! scan_high input key low high)"
  using assms
proof (induction input key low high rule: scan_high.induct)
  case (1 input key low high)
  show ?case
  proof (cases "low < high \<and> input ! high \<le> key")
    case True
    then have e: "scan_high input key low high = scan_high input key low (high - 1)" by (simp add: scan_high.simps [of input key low high])
    have "low \<le> high - 1" using True by linarith
    note ih = 1(1) [OF True this]
    then have "input ! k \<le> key" if "scan_high input key low (high - 1) < k" "k \<le> high" for k
      using that True by (cases "k = high") auto
    moreover have "scan_high input key low (high - 1) \<le> high" using ih by linarith
    ultimately show ?thesis using ih unfolding e by blast
  next
    case False
    then have "scan_high input key low high = high" by (subst scan_high.simps) auto
    then show ?thesis using False 1(2) by auto
  qed
qed

lemma scan_low_ok:
  assumes "low \<le> high"
  shows "low \<le> scan_low input key low high \<and> scan_low input key low high \<le> high \<and>
     (\<forall>k. low \<le> k \<and> k < scan_low input key low high \<longrightarrow> key \<le> input ! k) \<and>
     (scan_low input key low high = high \<or> input ! scan_low input key low high < key)"
  using assms
proof (induction input key low high rule: scan_low.induct)
  case (1 input key low high)
  show ?case
  proof (cases "low < high \<and> input ! low \<ge> key")
    case True
    then have e: "scan_low input key low high = scan_low input key (low + 1) high" by (simp add: scan_low.simps [of input key low high])
    have "low + 1 \<le> high" using True by simp
    note ih = 1(1) [OF True this]
    then have "key \<le> input ! k" if "k < scan_low input key (low + 1) high" "low \<le> k" for k
      using that True by (cases "k = low") auto
    moreover have "low \<le> scan_low input key (low + 1) high" using ih by linarith
    ultimately show ?thesis using ih unfolding e by blast
  next
    case False
    then have "scan_low input key low high = low" by (subst scan_low.simps) auto
    then show ?thesis using False 1(2) by auto
  qed
qed

lemma scan_low_moves: "low < high \<Longrightarrow> key \<le> input ! low \<Longrightarrow> low < scan_low input key low high"
  using scan_low_ok [of "low + 1" high input key] by (subst scan_low.simps) auto

section \<open>Partition\<close>

text \<open>
  Scores and indices as one list of pairs.  Between two steps the position \<open>low\<close> is a hole: the pair
  that belongs there was saved, and with it the list is a permutation of the one before.
\<close>

lemma fill_hole:
  assumes "i < length z" "j < length z"
  shows "mset ((z[i := z ! j])[j := p]) = mset (z[i := p])"
proof (cases "i = j")
  case False
  then have "(z[i := z ! j])[j := p] = (z[i := p])[i := z[i := p] ! j, j := z[i := p] ! i]"
    using assms by (simp add: nth_list_update list_update_swap)
  then show ?thesis using mset_swap [of j "z[i := p]" i] assms by simp
qed simp

text \<open>What a step on the segment from \<open>l\<close> to \<open>r\<close> keeps.\<close>

definition seg_perm :: "nat \<Rightarrow> nat \<Rightarrow> 'a list \<Rightarrow> 'a list \<Rightarrow> bool" where
  "seg_perm l r z z' \<longleftrightarrow> length z' = length z \<and> mset z' = mset z \<and>
     (\<forall>k. k < l \<or> r < k \<longrightarrow> z' ! k = z ! k) \<and> (\<forall>k. l \<le> k \<and> k \<le> r \<longrightarrow> (\<exists>m. l \<le> m \<and> m \<le> r \<and> z' ! k = z ! m))"

lemma seg_perm_refl [simp]: "seg_perm l r z z"
  by (auto simp: seg_perm_def)

lemma seg_perm_trans:
  assumes "seg_perm l r z z'" "seg_perm l r z' z''"
  shows "seg_perm l r z z''"
  using assms unfolding seg_perm_def by metis

lemma seg_perm_mono:
  assumes "seg_perm l r z z'" "l' \<le> l" "r \<le> r'"
  shows "seg_perm l' r' z z'"
  unfolding seg_perm_def
proof (intro conjI allI impI)
  fix k assume k: "l' \<le> k \<and> k \<le> r'"
  show "\<exists>m. l' \<le> m \<and> m \<le> r' \<and> z' ! k = z ! m"
  proof (cases "l \<le> k \<and> k \<le> r")
    case True
    then obtain m where "l \<le> m" "m \<le> r" "z' ! k = z ! m" using assms(1) by (auto simp: seg_perm_def)
    then show ?thesis using assms(2,3) by (intro exI [of _ m]) auto
  next
    case False
    then have "z' ! k = z ! k" using assms(1) by (auto simp: seg_perm_def)
    then show ?thesis using k by blast
  qed
next
  fix k assume "k < l' \<or> r' < k"
  then show "z' ! k = z ! k" using assms by (auto simp: seg_perm_def)
qed (use assms(1) in \<open>auto simp: seg_perm_def\<close>)

lemma seg_perm_swap:
  assumes "i < length z" "j < length z" "l \<le> i" "i \<le> r" "l \<le> j" "j \<le> r"
  shows "seg_perm l r (z[i := p]) ((z[i := z ! j])[j := p])"
  unfolding seg_perm_def
proof (intro conjI allI impI)
  show "mset ((z[i := z ! j])[j := p]) = mset (z[i := p])" by (rule fill_hole [OF assms(1,2)])
  fix k
  show "(z[i := z ! j])[j := p] ! k = (z[i := p]) ! k" if "k < l \<or> r < k"
    using that assms by (auto simp: nth_list_update)
  show "\<exists>m. l \<le> m \<and> m \<le> r \<and> (z[i := z ! j])[j := p] ! k = (z[i := p]) ! m" if k: "l \<le> k \<and> k \<le> r"
  proof (cases "k = j")
    case True
    then show ?thesis using assms by (intro exI [of _ i]) simp
  next
    case False
    show ?thesis
    proof (cases "k = i")
      case True
      then show ?thesis using assms False by (intro exI [of _ j]) (auto simp: nth_list_update)
    next
      case ki: False
      then show ?thesis using k False by (intro exI [of _ k]) simp
    qed
  qed
qed simp

lemma part_loop_ok:
  assumes "left \<le> low" "low \<le> high" "high \<le> right" "right < length z"
    and "\<forall>k. left \<le> k \<and> k < low \<longrightarrow> key \<le> fst (z ! k)" "\<forall>k. high < k \<and> k \<le> right \<longrightarrow> fst (z ! k) \<le> key"
  shows "\<exists>z' l. part_loop key (map fst z) (map snd z) low high = Some (map fst z', map snd z', l) \<and>
     left \<le> l \<and> l \<le> right \<and> length z' = length z \<and> (\<forall>p. seg_perm left right (z[low := p]) (z'[l := p])) \<and>
     (\<forall>k. left \<le> k \<and> k < l \<longrightarrow> key \<le> fst (z' ! k)) \<and> (\<forall>k. l < k \<and> k \<le> right \<longrightarrow> fst (z' ! k) \<le> key)"
  using assms
proof (induction "high - low" arbitrary: z low high rule: less_induct)
  case less
  show ?case
  proof (cases "low < high")
    case False
    then have "part_loop key (map fst z) (map snd z) low high = Some (map fst z, map snd z, low)"
      by (subst part_loop.simps) simp
    moreover have "low = high" using False less.prems(2) by simp
    ultimately show ?thesis using less.prems by (intro exI [of _ z] exI [of _ low]) auto
  next
    case True
    define h where "h = scan_high (map fst z) key low high"
    define z1 where "z1 = z[low := z ! h]"
    define l where "l = scan_low (map fst z1) key low h"
    define z2 where "z2 = z1[h := z1 ! l]"
    have h: "low \<le> h" "h \<le> high" and hk: "\<forall>k. h < k \<and> k \<le> high \<longrightarrow> map fst z ! k \<le> key" "h = low \<or> key < map fst z ! h"
      using scan_high_ok [OF less.prems(2), of "map fst z" key] by (simp_all add: h_def)
    have l: "low \<le> l" "l \<le> h" and lk: "\<forall>k. low \<le> k \<and> k < l \<longrightarrow> key \<le> map fst z1 ! k"
      and le: "l = h \<or> map fst z1 ! l < key"
      using scan_low_ok [OF h(1), of "map fst z1" key] by (simp_all add: l_def)
    have len: "length z1 = length z" "length z2 = length z" by (simp_all add: z1_def z2_def)
    have b: "low < length z" "h < length z" "l < length z" using less.prems(3,4) h l by linarith+
    have m1: "(map fst z)[low := map fst z ! h] = map fst z1" "(map snd z)[low := map snd z ! h] = map snd z1"
      using b by (simp_all add: z1_def map_update)
    have m2: "(map fst z1)[h := map fst z1 ! l] = map fst z2" "(map snd z1)[h := map snd z1 ! l] = map snd z2"
      using b len by (simp_all add: z2_def map_update)
    have step: "part_loop key (map fst z) (map snd z) low high = part_loop key (map fst z2) (map snd z2) l h"
      unfolding part_loop.simps [of key "map fst z" "map snd z" low high] Let_def h_def [symmetric] m1 l_def [symmetric] m2
      using True by (rule if_P)
    have dec: "h - l < high - low"
    proof (cases "h = high")
      case False
      then show ?thesis using h l True by linarith
    next
      case hh: True
      then have "key < map fst z ! h" using hk(2) True by auto
      then have "key \<le> map fst z1 ! low" using b by (simp add: z1_def)
      then have "low < l" using scan_low_moves [of low h key "map fst z1"] True hh by (simp add: l_def)
      then show ?thesis using hh l(2) by linarith
    qed
    have up: "\<forall>k. left \<le> k \<and> k < l \<longrightarrow> key \<le> fst (z2 ! k)"
    proof (intro allI impI)
      fix k assume k: "left \<le> k \<and> k < l"
      then have "z2 ! k = z1 ! k" using l(2) by (simp add: z2_def)
      moreover have "key \<le> fst (z1 ! k)"
      proof (cases "k < low")
        case True
        then show ?thesis using less.prems(5) k by (simp add: z1_def)
      next
        case False
        then show ?thesis using lk k b len by (metis dual_order.strict_trans not_less nth_map)
      qed
      ultimately show "key \<le> fst (z2 ! k)" by simp
    qed
    have dn: "\<forall>k. h < k \<and> k \<le> right \<longrightarrow> fst (z2 ! k) \<le> key"
    proof (intro allI impI)
      fix k assume k: "h < k \<and> k \<le> right"
      then have e: "z2 ! k = z ! k" using h(1) by (simp add: z2_def z1_def)
      show "fst (z2 ! k) \<le> key"
      proof (cases "k \<le> high")
        case True
        then show ?thesis using hk(1) k less.prems(4) unfolding e by (metis le_less_trans nth_map)
      qed (use less.prems(6) k e in auto)
    qed
    have sp: "seg_perm left right (z[low := p]) (z2[l := p])" for p
    proof (rule seg_perm_trans)
      show "seg_perm left right (z[low := p]) (z1[h := p])"
        unfolding z1_def by (rule seg_perm_swap) (use b less.prems h in linarith)+
      show "seg_perm left right (z1[h := p]) (z2[l := p])"
        unfolding z2_def by (rule seg_perm_swap) (use b len less.prems h l in linarith)+
    qed
    have "left \<le> l" "h \<le> right" "right < length z2" using less.prems h l len by linarith+
    from less.hyps [OF dec this(1) l(2) this(2,3) up dn] obtain z' m where
      r: "part_loop key (map fst z2) (map snd z2) l h = Some (map fst z', map snd z', m)" "left \<le> m" "m \<le> right" "length z' = length z2"
      and s: "\<forall>p. seg_perm left right (z2[l := p]) (z'[m := p])"
      and o: "\<forall>k. left \<le> k \<and> k < m \<longrightarrow> key \<le> fst (z' ! k)" "\<forall>k. m < k \<and> k \<le> right \<longrightarrow> fst (z' ! k) \<le> key" by blast
    have "\<forall>p. seg_perm left right (z[low := p]) (z'[m := p])" using seg_perm_trans [OF sp] s by blast
    with r s o len show ?thesis unfolding step by (intro exI [of _ z'] exI [of _ m]) simp
  qed
qed

section \<open>Sorting\<close>

definition sorted_seg :: "nat \<Rightarrow> nat \<Rightarrow> (real \<times> 'i) list \<Rightarrow> bool" where
  "sorted_seg l r z \<longleftrightarrow> (\<forall>a b. l \<le> a \<and> a < b \<and> b \<le> r \<longrightarrow> fst (z ! b) \<le> fst (z ! a))"

text \<open>A step on a smaller segment keeps a bound that holds on all of it.\<close>

lemma seg_perm_bound:
  assumes "seg_perm l r z z'" "\<forall>k. l \<le> k \<and> k \<le> r \<longrightarrow> P (z ! k)" "l \<le> k" "k \<le> r"
  shows "P (z' ! k)"
  using assms unfolding seg_perm_def by metis

lemma quick_sort_ok:
  assumes "right < length z"
  shows "\<exists>z'. quick_sort (map fst z) left right (map snd z) = Some (map fst z', map snd z') \<and>
     seg_perm left right z z' \<and> sorted_seg left right z'"
  using assms
proof (induction "right - left" arbitrary: z left right rule: less_induct)
  case less
  show ?case
  proof (cases "left < right")
    case False
    then have "quick_sort (map fst z) left right (map snd z) = Some (map fst z, map snd z)"
      by (subst quick_sort.simps) simp
    moreover have "sorted_seg left right z" using False by (auto simp: sorted_seg_def)
    ultimately show ?thesis by (intro exI [of _ z]) simp
  next
    case True
    let ?p = "z ! left"
    have b: "left < length z" using True less.prems by simp
    obtain z1 l where pl: "part_loop (fst ?p) (map fst z) (map snd z) left right = Some (map fst z1, map snd z1, l)"
      and l: "left \<le> l" "l \<le> right" "length z1 = length z" and sp: "\<forall>p. seg_perm left right (z[left := p]) (z1[l := p])"
      and o: "\<forall>k. left \<le> k \<and> k < l \<longrightarrow> fst ?p \<le> fst (z1 ! k)" "\<forall>k. l < k \<and> k \<le> right \<longrightarrow> fst (z1 ! k) \<le> fst ?p"
      using part_loop_ok [of left left right right z "fst ?p"] True less.prems by auto
    let ?z2 = "z1[l := ?p]"
    have s2: "seg_perm left right z ?z2" using sp [rule_format, of ?p] by simp
    have len2: "length ?z2 = length z" using l(3) by simp
    have lb: "l < length z1" using l less.prems by simp
    have z2l: "?z2 ! l = ?p" using lb by simp
    have u: "\<forall>k. left \<le> k \<and> k \<le> l - 1 \<longrightarrow> fst ?p \<le> fst (?z2 ! k)" if "0 < l \<and> left < l"
      using o(1) that by auto
    have d: "\<forall>k. l + 1 \<le> k \<and> k \<le> right \<longrightarrow> fst (?z2 ! k) \<le> fst ?p" using o(2) by auto
    have "l - 1 - left < right - left" "l - 1 < length ?z2" using l True less.prems by auto
    from less.hyps [OF this] obtain z3 where q3: "quick_sort (map fst ?z2) left (l - 1) (map snd ?z2) = Some (map fst z3, map snd z3)"
      and s3: "seg_perm left (l - 1) ?z2 z3" and o3: "sorted_seg left (l - 1) z3" by blast
    have len3: "length z3 = length z" using s3 l(3) by (simp add: seg_perm_def)
    have "right - (l + 1) < right - left" "right < length z3" using l True less.prems len3 by auto
    from less.hyps [OF this] obtain z4 where q4: "quick_sort (map fst z3) (l + 1) right (map snd z3) = Some (map fst z4, map snd z4)"
      and s4: "seg_perm (l + 1) right z3 z4" and o4: "sorted_seg (l + 1) right z4" by blast
    have "quick_sort (map fst z) left right (map snd z) = Some (map fst z4, map snd z4)"
      using True b pl q3 q4 lb by (subst quick_sort.simps) (simp add: Let_def map_update)
    moreover have "seg_perm left right z z4"
    proof -
      have "seg_perm left right ?z2 z3" by (rule seg_perm_mono [OF s3]) (use l in auto)
      moreover have "seg_perm left right z3 z4" by (rule seg_perm_mono [OF s4]) (use l in auto)
      ultimately show ?thesis using s2 seg_perm_trans by blast
    qed
    moreover have "sorted_seg left right z4"
      unfolding sorted_seg_def
    proof (intro allI impI)
      fix a c assume ac: "left \<le> a \<and> a < c \<and> c \<le> right"
      have same: "z4 ! k = z3 ! k" if "k \<le> l" for k using s4 that by (simp add: seg_perm_def)
      have mid: "z3 ! l = ?p"
      proof (cases "l = 0")
        case True
        then have "left = 0" using l by simp
        then obtain m where "m \<le> 0" "z3 ! 0 = ?z2 ! m" using s3 True by (auto simp: seg_perm_def)
        then show ?thesis using True z2l by simp
      next
        case False
        then show ?thesis using s3 z2l by (auto simp: seg_perm_def)
      qed
      have lo: "fst ?p \<le> fst (z3 ! k)" if "left \<le> k" "k \<le> l" for k
      proof (cases "k = l")
        case True
        then show ?thesis by (simp add: mid)
      next
        case False
        then have k: "0 < l \<and> left < l" "k \<le> l - 1" using that by auto
        show ?thesis using seg_perm_bound [OF s3 u [OF k(1)] that(1) k(2)] .
      qed
      have "\<forall>k. l + 1 \<le> k \<and> k \<le> right \<longrightarrow> fst (z3 ! k) \<le> fst ?p"
        using d s3 by (auto simp: seg_perm_def)
      then have hi: "fst (z4 ! k) \<le> fst ?p" if "l + 1 \<le> k" "k \<le> right" for k
        using seg_perm_bound [OF s4 _ that, of "\<lambda>x. fst x \<le> fst ?p"] by blast
      consider "c \<le> l - 1" "c < l" | "c = l" | "a \<le> l" "l + 1 \<le> c" | "l + 1 \<le> a" by linarith
      then show "fst (z4 ! c) \<le> fst (z4 ! a)"
      proof cases
        case 1
        then show ?thesis using o3 ac same [of a] same [of c] by (simp add: sorted_seg_def)
      next
        case 2
        then show ?thesis using lo [of a] ac same [of a] same [of c] by (simp add: mid)
      next
        case 3
        then show ?thesis using lo [of a] hi [of c] ac same [of a] by simp
      next
        case 4
        then show ?thesis using o4 ac by (simp add: sorted_seg_def)
      qed
    qed
    ultimately show ?thesis by blast
  qed
qed

text \<open>The call of \<open>post_process\<close>: all scores, with the identity as indices.\<close>

lemma quick_sort_all:
  assumes "input \<noteq> []" "length indices = length input"
  shows "\<exists>out ids. quick_sort input 0 (length input - 1) indices = Some (out, ids) \<and> length out = length input \<and>
     length ids = length input \<and> sorted_wrt (\<ge>) out \<and> mset (zip out ids) = mset (zip input indices)"
proof -
  let ?z = "zip input indices"
  have f: "map fst ?z = input" "map snd ?z = indices" using assms(2) by simp_all
  have "length input - 1 < length ?z" using assms by simp
  from quick_sort_ok [OF this, of 0] obtain z where q: "quick_sort input 0 (length input - 1) indices = Some (map fst z, map snd z)"
    and s: "seg_perm 0 (length input - 1) ?z z" "sorted_seg 0 (length input - 1) z" unfolding f by blast
  have len: "length z = length input" using s(1) assms(2) by (simp add: seg_perm_def)
  have "sorted_wrt (\<ge>) (map fst z)" using s(2) len by (auto simp: sorted_seg_def sorted_wrt_iff_nth_less)
  moreover have "mset (zip (map fst z) (map snd z)) = mset ?z" using s(1) by (simp add: seg_perm_def zip_map_fst_snd)
  ultimately show ?thesis using q len by (intro exI [of _ "map fst z"] exI [of _ "map snd z"]) simp
qed

section \<open>Properties\<close>

text \<open>
  C15.  The sort ends on every array of scores; it leaves the scores in descending order, and each
  index stays with its score.
\<close>

theorem quick_sort_sorts:
  assumes "input \<noteq> []" "length indices = length input"
  shows "\<exists>out ids. quick_sort input 0 (length input - 1) indices = Some (out, ids) \<and>
     sorted_wrt (\<ge>) out \<and> mset (zip out ids) = mset (zip input indices)"
  using quick_sort_all [OF assms] by blast

theorem quick_sort_sorts_witness:
  "\<exists>out ids. quick_sort [1/4, 3/4, 1/2] 0 2 [0, 1, 2 :: int] = Some (out, ids) \<and> sorted_wrt (\<ge>) out \<and>
     mset (zip out ids) = {#(1/4, 0), (3/4, 1), (1/2, 2)#}"
  using quick_sort_sorts [of "[1/4, 3/4, 1/2]" "[0, 1, 2 :: int]"] by (simp add: numeral_2_eq_2)

end
