(* ===== verification/PostProcess.thy ===== *)
theory PostProcess imports QuickSort Results "HOL-Library.Word" begin

text \<open>
  Model of \<open>src/src/postprocess.cc\<close>: from the three quantised output tensors of YOLOv5 to a group of
  detections.  A tensor is a list of 8-bit words read as signed numbers; the label table and the
  \<open>init\<close> flag, static in the program, are a record that is passed along.  \<^const>\<open>None\<close> is a null label
  that is copied from.
\<close>

section \<open>Constants\<close>

definition anchor0 :: "nat list" where "anchor0 = [10, 13, 16, 30, 33, 23]"
definition anchor1 :: "nat list" where "anchor1 = [30, 61, 62, 45, 59, 119]"
definition anchor2 :: "nat list" where "anchor2 = [116, 90, 156, 198, 373, 326]"

definition clamp_int :: "real \<Rightarrow> int \<Rightarrow> int \<Rightarrow> int" where
  "clamp_int val mn mx =
     c_trunc (if val > real_of_int mn then (if val < real_of_int mx then val else real_of_int mx) else real_of_int mn)"

section \<open>Labels\<close>

record label_table =
  lt_init :: bool
  lt_labels :: "string option list"

text \<open>The program's start: \<open>init\<close> is -1 and the labels are null.\<close>

definition fresh_table :: label_table where
  "fresh_table = \<lparr>lt_init = False, lt_labels = replicate OBJ_CLASS_NUM None\<rparr>"

text \<open>A line and the rest of the file; \<^const>\<open>None\<close> at the end of the file.\<close>

definition read_line :: "string \<Rightarrow> (string \<times> string) option" where
  "read_line fp =
     (let line = takeWhile (\<lambda>c. c \<noteq> CHR 0x0A) fp; rest = dropWhile (\<lambda>c. c \<noteq> CHR 0x0A) fp
      in if rest = [] \<and> line = [] then None else Some (line, tl rest))"

lemma read_line_shorter: "read_line fp = Some (s, rest) \<Longrightarrow> length rest < length fp"
proof -
  assume "read_line fp = Some (s, rest)"
  then have r: "rest = tl (dropWhile (\<lambda>c. c \<noteq> CHR 0x0A) fp)" "fp \<noteq> []"
    by (auto simp: read_line_def Let_def split: if_splits)
  have "length (dropWhile (\<lambda>c. c \<noteq> CHR 0x0A) fp) \<le> length fp" by (rule length_dropWhile_le)
  moreover have "0 < length fp" using r(2) by simp
  ultimately show ?thesis unfolding r(1) length_tl by linarith
qed

function read_lines_from :: "string \<Rightarrow> nat \<Rightarrow> nat \<Rightarrow> string option list \<Rightarrow> nat \<times> string option list" where
  "read_lines_from fp i max_line lines =
     (case read_line fp of
        None \<Rightarrow> (i, lines)
      | Some (s, rest) \<Rightarrow>
          let lines = lines[i := Some s]; i = i + 1
          in if i \<ge> max_line then (i, lines) else read_lines_from rest i max_line lines)"
  by pat_completeness auto
termination
  by (relation "measure (\<lambda>(fp, i, max_line, lines). length fp)") (auto dest: read_line_shorter)

declare read_lines_from.simps [simp del]

definition read_lines :: "string option \<Rightarrow> nat \<Rightarrow> string option list \<Rightarrow> int \<times> string option list" where
  "read_lines file max_line lines =
     (case file of None \<Rightarrow> (-1, lines)
      | Some fp \<Rightarrow> (case read_lines_from fp 0 max_line lines of (i, lines) \<Rightarrow> (int i, lines)))"

text \<open>The outcome of reading is dropped.\<close>

definition load_label_name :: "string option \<Rightarrow> string option list \<Rightarrow> int \<times> string option list" where
  "load_label_name file labels = (0, snd (read_lines file OBJ_CLASS_NUM labels))"

definition deinit_post_process :: "label_table \<Rightarrow> label_table" where
  "deinit_post_process t = t\<lparr>lt_labels := map (\<lambda>l. None) (lt_labels t)\<rparr>"

section \<open>Overlap and suppression\<close>

definition calculate_overlap :: "real \<Rightarrow> real \<Rightarrow> real \<Rightarrow> real \<Rightarrow> real \<Rightarrow> real \<Rightarrow> real \<Rightarrow> real \<Rightarrow> real" where
  "calculate_overlap xmin0 ymin0 xmax0 ymax0 xmin1 ymin1 xmax1 ymax1 =
     (let w = max 0 (min xmax0 xmax1 - max xmin0 xmin1 + 1);
          h = max 0 (min ymax0 ymax1 - max ymin0 ymin1 + 1);
          i = w * h;
          u = (xmax0 - xmin0 + 1) * (ymax0 - ymin0 + 1) + (xmax1 - xmin1 + 1) * (ymax1 - ymin1 + 1) - i
      in if u \<le> 0 then 0 else i / u)"

text \<open>The overlap of the boxes \<open>n\<close> and \<open>m\<close> of \<open>outputLocations\<close>.\<close>

definition box_overlap :: "real list \<Rightarrow> nat \<Rightarrow> nat \<Rightarrow> real" where
  "box_overlap outputLocations n m =
     (let xmin0 = outputLocations ! (n * 4 + 0);
          ymin0 = outputLocations ! (n * 4 + 1);
          xmax0 = outputLocations ! (n * 4 + 0) + outputLocations ! (n * 4 + 2);
          ymax0 = outputLocations ! (n * 4 + 1) + outputLocations ! (n * 4 + 3);
          xmin1 = outputLocations ! (m * 4 + 0);
          ymin1 = outputLocations ! (m * 4 + 1);
          xmax1 = outputLocations ! (m * 4 + 0) + outputLocations ! (m * 4 + 2);
          ymax1 = outputLocations ! (m * 4 + 1) + outputLocations ! (m * 4 + 3)
      in calculate_overlap xmin0 ymin0 xmax0 ymax0 xmin1 ymin1 xmax1 ymax1)"

definition nms_inner :: "real list \<Rightarrow> int list \<Rightarrow> int \<Rightarrow> real \<Rightarrow> nat \<Rightarrow> int \<Rightarrow> nat \<Rightarrow> int list \<Rightarrow> int list" where
  "nms_inner outputLocations classIds filterId threshold i n j order =
     (let m = order ! j in
      if m = -1 \<or> classIds ! i \<noteq> filterId then order
      else if box_overlap outputLocations (nat n) (nat m) > threshold then order[j := -1] else order)"

definition nms_outer :: "nat \<Rightarrow> real list \<Rightarrow> int list \<Rightarrow> int \<Rightarrow> real \<Rightarrow> nat \<Rightarrow> int list \<Rightarrow> int list" where
  "nms_outer validCount outputLocations classIds filterId threshold i order =
     (if order ! i = -1 \<or> classIds ! i \<noteq> filterId then order
      else
        let n = order ! i
        in fold (nms_inner outputLocations classIds filterId threshold i n) [i + 1..<validCount] order)"

definition nms :: "nat \<Rightarrow> real list \<Rightarrow> int list \<Rightarrow> int \<Rightarrow> real \<Rightarrow> int list \<Rightarrow> int list" where
  "nms validCount outputLocations classIds filterId threshold order =
     fold (nms_outer validCount outputLocations classIds filterId threshold) [0..<validCount] order"

section \<open>Quantisation\<close>

definition sigmoid :: "real \<Rightarrow> real" where "sigmoid x = 1 / (1 + exp (- x))"

definition unsigmoid :: "real \<Rightarrow> real" where "unsigmoid y = -1 * ln (1 / y - 1)"

definition clip_float :: "real \<Rightarrow> real \<Rightarrow> real \<Rightarrow> int" where
  "clip_float val mn mx = (let f = (if val \<le> mn then mn else if val \<ge> mx then mx else val) in c_trunc f)"

definition qnt_f32_to_affine :: "real \<Rightarrow> int \<Rightarrow> real \<Rightarrow> 8 word" where
  "qnt_f32_to_affine f32 zp scale =
     (let dst_val = f32 / scale + real_of_int zp
      in word_of_int (clip_float dst_val (-128) 127))"

definition deqnt_affine_to_f32 :: "8 word \<Rightarrow> int \<Rightarrow> real \<Rightarrow> real" where
  "deqnt_affine_to_f32 qnt zp scale = (real_of_int (sint qnt) - real_of_int zp) * scale"

section \<open>Decoding a tensor\<close>

record found_objects =
  fo_boxes :: "real list"
  fo_probs :: "real list"
  fo_class :: "int list"

text \<open>The best class of a cell: the first with the greatest score.\<close>

definition best_class :: "8 word list \<Rightarrow> nat \<Rightarrow> nat \<Rightarrow> 8 word \<times> int" where
  "best_class input offset grid_len =
     fold (\<lambda>k (maxClassProbs, maxClassId).
         let prob = input ! (offset + (5 + k) * grid_len)
         in if sint prob > sint maxClassProbs then (prob, int k) else (maxClassProbs, maxClassId))
       [1..<OBJ_CLASS_NUM] (input ! (offset + 5 * grid_len), 0)"

definition decode_box ::
  "8 word list \<Rightarrow> nat list \<Rightarrow> nat \<Rightarrow> nat \<Rightarrow> nat \<Rightarrow> int \<Rightarrow> real \<Rightarrow> nat \<Rightarrow> nat \<Rightarrow> nat \<Rightarrow> real list" where
  "decode_box input anchor offset grid_len stride zp scale a i j =
     (let box_x = deqnt_affine_to_f32 (input ! offset) zp scale * 2 - 1/2;
          box_y = deqnt_affine_to_f32 (input ! (offset + grid_len)) zp scale * 2 - 1/2;
          box_w = deqnt_affine_to_f32 (input ! (offset + 2 * grid_len)) zp scale * 2;
          box_h = deqnt_affine_to_f32 (input ! (offset + 3 * grid_len)) zp scale * 2;
          box_x = (box_x + real j) * real stride;
          box_y = (box_y + real i) * real stride;
          box_w = box_w * box_w * real (anchor ! (a * 2));
          box_h = box_h * box_h * real (anchor ! (a * 2 + 1));
          box_x = box_x - box_w / 2;
          box_y = box_y - box_h / 2
      in [box_x, box_y, box_w, box_h])"

definition cell_step ::
  "8 word list \<Rightarrow> nat list \<Rightarrow> nat \<Rightarrow> nat \<Rightarrow> nat \<Rightarrow> 8 word \<Rightarrow> int \<Rightarrow> real \<Rightarrow> nat \<Rightarrow> nat \<Rightarrow> nat
     \<Rightarrow> nat \<times> found_objects \<Rightarrow> nat \<times> found_objects" where
  "cell_step input anchor grid_h grid_w stride thres_i8 zp scale a i j = (\<lambda>(validCount, fo).
     let grid_len = grid_h * grid_w;
         box_confidence = input ! ((PROP_BOX_SIZE * a + 4) * grid_len + i * grid_w + j)
     in if sint box_confidence \<ge> sint thres_i8 then
          (let offset = (PROP_BOX_SIZE * a) * grid_len + i * grid_w + j;
               (maxClassProbs, maxClassId) = best_class input offset grid_len
           in if sint maxClassProbs > sint thres_i8 then
                (validCount + 1,
                 fo\<lparr>fo_probs := fo_probs fo @ [deqnt_affine_to_f32 maxClassProbs zp scale * deqnt_affine_to_f32 box_confidence zp scale],
                    fo_class := fo_class fo @ [maxClassId],
                    fo_boxes := fo_boxes fo @ decode_box input anchor offset grid_len stride zp scale a i j\<rparr>)
              else (validCount, fo))
        else (validCount, fo))"

definition process_tensor ::
  "8 word list \<Rightarrow> nat list \<Rightarrow> nat \<Rightarrow> nat \<Rightarrow> nat \<Rightarrow> real \<Rightarrow> int \<Rightarrow> real \<Rightarrow> found_objects \<Rightarrow> nat \<times> found_objects" where
  "process_tensor input anchor grid_h grid_w stride threshold zp scale fo =
     (let thres_i8 = qnt_f32_to_affine threshold zp scale in
      fold (\<lambda>a. fold (\<lambda>i. fold (\<lambda>j. cell_step input anchor grid_h grid_w stride thres_i8 zp scale a i j)
          [0..<grid_w]) [0..<grid_h]) [0..<3] (0, fo))"

section \<open>\<open>post_process\<close>\<close>

text \<open>One result of the group; the label is copied into 15 characters.\<close>

definition write_detection ::
  "real list \<Rightarrow> real list \<Rightarrow> int list \<Rightarrow> int list \<Rightarrow> string option list \<Rightarrow> nat \<Rightarrow> nat \<Rightarrow> box_rect \<Rightarrow> real \<Rightarrow> real \<Rightarrow> nat
     \<Rightarrow> detect_group \<Rightarrow> detect_group option" where
  "write_detection filterBoxes objProbs classId indexArray labels model_in_h model_in_w pads scale_w scale_h i g =
     (if indexArray ! i = -1 \<or> dg_count g \<ge> OBJ_NUMB_MAX_SIZE then Some g
      else
        let n = nat (indexArray ! i);
            x1 = filterBoxes ! (n * 4 + 0) - real_of_int (bx_left pads);
            y1 = filterBoxes ! (n * 4 + 1) - real_of_int (bx_top pads);
            x2 = x1 + filterBoxes ! (n * 4 + 2);
            y2 = y1 + filterBoxes ! (n * 4 + 3);
            id = classId ! n;
            obj_conf = objProbs ! i;
            out = dg_results g ! dg_count g;
            out = out\<lparr>re_box := \<lparr>bx_left = c_trunc (real_of_int (clamp_int x1 0 (int model_in_w)) / scale_w),
                               bx_right = c_trunc (real_of_int (clamp_int x2 0 (int model_in_w)) / scale_w),
                               bx_top = c_trunc (real_of_int (clamp_int y1 0 (int model_in_h)) / scale_h),
                               bx_bottom = c_trunc (real_of_int (clamp_int y2 0 (int model_in_h)) / scale_h)\<rparr>,
                     re_class_id := id, re_track_id := -1, re_trajectory_count := 0, re_prop := obj_conf\<rparr>
        in map_option (\<lambda>label. add_result (out\<lparr>re_name := c_snprintf OBJ_NAME_MAX_SIZE label\<rparr>) g)
             (labels ! nat id))"

definition detect_tensors ::
  "8 word list \<Rightarrow> 8 word list \<Rightarrow> 8 word list \<Rightarrow> nat \<Rightarrow> nat \<Rightarrow> real \<Rightarrow> int list \<Rightarrow> real list \<Rightarrow> nat \<times> found_objects" where
  "detect_tensors input0 input1 input2 model_in_h model_in_w conf_threshold qnt_zps qnt_scales =
     (let fo = \<lparr>fo_boxes = [], fo_probs = [], fo_class = []\<rparr>;
          (validCount0, fo) = process_tensor input0 anchor0 (model_in_h div 8) (model_in_w div 8) 8 conf_threshold
             (qnt_zps ! 0) (qnt_scales ! 0) fo;
          (validCount1, fo) = process_tensor input1 anchor1 (model_in_h div 16) (model_in_w div 16) 16 conf_threshold
             (qnt_zps ! 1) (qnt_scales ! 1) fo;
          (validCount2, fo) = process_tensor input2 anchor2 (model_in_h div 32) (model_in_w div 32) 32 conf_threshold
             (qnt_zps ! 2) (qnt_scales ! 2) fo
      in (validCount0 + validCount1 + validCount2, fo))"

text \<open>The suppression for every class that occurs, in ascending order.\<close>

definition nms_classes :: "nat \<Rightarrow> real list \<Rightarrow> int list \<Rightarrow> real \<Rightarrow> int list \<Rightarrow> int list" where
  "nms_classes validCount outputLocations classIds threshold order =
     fold (\<lambda>c. nms validCount outputLocations classIds c threshold) (sorted_list_of_set (set classIds)) order"

text \<open>From the found objects to the group.  (\<open>ret\<close> is never negative, so the early return is not taken.)\<close>

definition select_objects ::
  "nat \<Rightarrow> found_objects \<Rightarrow> string option list \<Rightarrow> nat \<Rightarrow> nat \<Rightarrow> real \<Rightarrow> box_rect \<Rightarrow> real \<Rightarrow> real \<Rightarrow> detect_group option" where
  "select_objects validCount fo labels model_in_h model_in_w nms_threshold pads scale_w scale_h =
     (let indexArray = map int [0..<validCount] in
      Option.bind (quick_sort (fo_probs fo) 0 (validCount - 1) indexArray) (\<lambda>(objProbs, indexArray).
        let indexArray = nms_classes validCount (fo_boxes fo) (fo_class fo) nms_threshold indexArray
        in fold (\<lambda>i acc. Option.bind acc (write_detection (fo_boxes fo) objProbs (fo_class fo) indexArray labels
                 model_in_h model_in_w pads scale_w scale_h i))
             [0..<validCount] (Some zero_group)))"

definition post_process ::
  "string option \<Rightarrow> 8 word list \<Rightarrow> 8 word list \<Rightarrow> 8 word list \<Rightarrow> nat \<Rightarrow> nat \<Rightarrow> real \<Rightarrow> real \<Rightarrow> box_rect \<Rightarrow> real \<Rightarrow> real
     \<Rightarrow> int list \<Rightarrow> real list \<Rightarrow> label_table \<Rightarrow> (int \<times> detect_group \<times> label_table) option" where
  "post_process label_file input0 input1 input2 model_in_h model_in_w conf_threshold nms_threshold pads scale_w scale_h
       qnt_zps qnt_scales t =
     (let (ret, labels) = (if lt_init t then (0, lt_labels t) else load_label_name label_file (lt_labels t)) in
      if ret < 0 then Some (-1, zero_group, t\<lparr>lt_labels := labels\<rparr>)
      else
        let t = \<lparr>lt_init = True, lt_labels = labels\<rparr>;
            (validCount, fo) = detect_tensors input0 input1 input2 model_in_h model_in_w conf_threshold qnt_zps qnt_scales
        in if validCount = 0 then Some (0, zero_group, t)
           else map_option (\<lambda>g. (0, g, t))
             (select_objects validCount fo labels model_in_h model_in_w nms_threshold pads scale_w scale_h))"

end
