(* ===== verification/PostInv.thy ===== *)
theory PostInv imports PostProcess begin

text \<open>
  What \<^theory_text>\<open>PostProcess\<close> guarantees: the suppression leaves no two overlapping boxes, the lists of a
  tensor agree, the group is well formed and ordered by score, quantisation rounds to less than a
  step, and the label table is the file's first lines.
\<close>

section \<open>Suppression\<close>

text \<open>What every step of the suppression keeps: positions only change to -1.\<close>

definition only_drops :: "int list \<Rightarrow> int list \<Rightarrow> bool" where
  "only_drops o1 o2 \<longleftrightarrow> length o2 = length o1 \<and> (\<forall>k<length o1. o2 ! k = o1 ! k \<or> o2 ! k = -1)"

lemma only_drops_refl [simp]: "only_drops x x"
  by (simp add: only_drops_def)

lemma only_drops_trans: "only_drops a b \<Longrightarrow> only_drops b c \<Longrightarrow> only_drops a c"
  unfolding only_drops_def by (metis (no_types))

lemma only_drops_alive: "only_drops a b \<Longrightarrow> k < length a \<Longrightarrow> b ! k \<noteq> -1 \<Longrightarrow> a ! k = b ! k"
  by (auto simp: only_drops_def)

lemma only_drops_dead: "only_drops a b \<Longrightarrow> k < length a \<Longrightarrow> b ! k \<noteq> -1 \<Longrightarrow> a ! k \<noteq> -1"
  using only_drops_alive by metis

lemma fold_drops:
  assumes "\<And>x o1. x \<in> set xs \<Longrightarrow> only_drops o1 (f x o1)"
  shows "only_drops o1 (fold f xs o1)"
  using assms
proof (induction xs arbitrary: o1)
  case (Cons x xs)
  have "only_drops o1 (f x o1)" by (rule Cons.prems) simp
  moreover have "only_drops (f x o1) (fold f xs (f x o1))" by (rule Cons.IH) (use Cons.prems in simp)
  ultimately show ?case using only_drops_trans by simp
qed simp

lemma inner_drops: "only_drops o1 (nms_inner b c f th i n j o1)"
proof -
  have "only_drops o1 (o1[j := -1])" 
    unfolding only_drops_def by (metis length_list_update nth_list_update_eq nth_list_update_neq)
  then show ?thesis by (simp add: nms_inner_def Let_def)
qed

lemma outer_drops: "only_drops o1 (nms_outer v b c f th i o1)"
  by (simp add: nms_outer_def Let_def fold_drops inner_drops)

lemma nms_drops: "only_drops o1 (nms v b c f th o1)"
  unfolding nms_def by (rule fold_drops) (rule outer_drops)

lemma classes_drops: "only_drops o1 (nms_classes v b c th o1)"
  unfolding nms_classes_def by (rule fold_drops) (rule nms_drops)


lemma fold_split: "x \<in> set xs \<Longrightarrow> \<exists>ys zs. \<forall>s. fold f xs s = fold f zs (f x (fold f ys s))"
  by (metis split_list fold_append fold_simps(2) comp_apply)

lemma outer_drops_overlapping:
  assumes i: "o1 ! i \<noteq> -1" "c ! i = f" and j: "i < j" "j < v" "v \<le> length o1"
    and alive: "nms_outer v b c f th i o1 ! j \<noteq> -1"
  shows "box_overlap b (nat (o1 ! i)) (nat (o1 ! j)) \<le> th"
proof -
  let ?g = "nms_inner b c f th i (o1 ! i)"
  have e: "nms_outer v b c f th i o1 = fold ?g [i + 1..<v] o1" using i by (simp add: nms_outer_def Let_def)
  have "j \<in> set [i + 1..<v]" using j by simp
  then obtain ys zs where s: "\<forall>s. fold ?g [i + 1..<v] s = fold ?g zs (?g j (fold ?g ys s))"
    using fold_split [where f = ?g] by blast
  let ?o2 = "fold ?g ys o1" and ?o3 = "?g j (fold ?g ys o1)"
  have d: "only_drops o1 ?o2" "only_drops ?o2 ?o3" "only_drops ?o3 (fold ?g zs ?o3)"
    by (simp_all add: fold_drops inner_drops)
  have l: "length ?o2 = length o1" "length ?o3 = length o1" using d by (simp_all add: only_drops_def)
  have "fold ?g zs ?o3 ! j \<noteq> -1" using alive unfolding e s [rule_format] .
  then have a3: "?o3 ! j \<noteq> -1" using only_drops_dead [OF d(3), of j] j l by simp
  then have "?o2 ! j \<noteq> -1" using only_drops_dead [OF d(2), of j] j l by simp
  then have "?o2 ! j = o1 ! j" using only_drops_alive [OF d(1), of j] j by simp
  then have "\<not> box_overlap b (nat (o1 ! i)) (nat (o1 ! j)) > th"
    using a3 i(2) j l \<open>?o2 ! j \<noteq> -1\<close> by (auto simp: nms_inner_def Let_def split: if_splits)
  then show ?thesis by simp
qed

lemma nms_drops_overlapping:
  assumes "v \<le> length o1" "i < j" "j < v" "c ! i = f"
    and "nms v b c f th o1 ! i \<noteq> -1" "nms v b c f th o1 ! j \<noteq> -1"
  shows "box_overlap b (nat (o1 ! i)) (nat (o1 ! j)) \<le> th"
proof -
  let ?g = "nms_outer v b c f th"
  have "i \<in> set [0..<v]" using assms by simp
  then obtain ys zs where s: "\<forall>s. fold ?g [0..<v] s = fold ?g zs (?g i (fold ?g ys s))"
    using fold_split [where f = ?g] by blast
  let ?o2 = "fold ?g ys o1" and ?o3 = "?g i (fold ?g ys o1)"
  have d: "only_drops o1 ?o2" "only_drops ?o2 ?o3" "only_drops ?o3 (fold ?g zs ?o3)"
    by (simp_all add: fold_drops outer_drops)
  have l: "length ?o2 = length o1" "length ?o3 = length o1" using d by (simp_all add: only_drops_def)
  have b: "i < length o1" "j < length o1" using assms by simp_all
  have "fold ?g zs ?o3 ! i \<noteq> -1" "fold ?g zs ?o3 ! j \<noteq> -1" using assms(5,6) unfolding nms_def s [rule_format] .
  then have a3: "?o3 ! i \<noteq> -1" "?o3 ! j \<noteq> -1" using only_drops_dead [OF d(3)] b l by simp_all
  then have a2: "?o2 ! i \<noteq> -1" "?o2 ! j \<noteq> -1" using only_drops_dead [OF d(2)] b l by simp_all
  then have "?o2 ! i = o1 ! i" "?o2 ! j = o1 ! j" using only_drops_alive [OF d(1)] b by auto
  then show ?thesis using outer_drops_overlapping [OF a2(1) assms(4,2,3) _ a3(2)] assms(1) l by simp
qed

lemma classes_drop_overlapping:
  assumes "v \<le> length o1" "i < j" "j < v" "v \<le> length c"
    and "nms_classes v b c th o1 ! i \<noteq> -1" "nms_classes v b c th o1 ! j \<noteq> -1"
  shows "box_overlap b (nat (o1 ! i)) (nat (o1 ! j)) \<le> th"
proof -
  let ?g = "\<lambda>f. nms v b c f th"
  have "c ! i \<in> set (sorted_list_of_set (set c))" using assms by simp
  then obtain ys zs where s: "\<forall>s. fold ?g (sorted_list_of_set (set c)) s = fold ?g zs (?g (c ! i) (fold ?g ys s))"
    using fold_split [where f = ?g] by blast
  let ?o2 = "fold ?g ys o1" and ?o3 = "?g (c ! i) (fold ?g ys o1)"
  have d: "only_drops o1 ?o2" "only_drops ?o2 ?o3" "only_drops ?o3 (fold ?g zs ?o3)"
    by (simp_all add: fold_drops nms_drops)
  have l: "length ?o2 = length o1" "length ?o3 = length o1" using d by (simp_all add: only_drops_def)
  have b: "i < length o1" "j < length o1" using assms by simp_all
  have "fold ?g zs ?o3 ! i \<noteq> -1" "fold ?g zs ?o3 ! j \<noteq> -1" using assms(5,6) unfolding nms_classes_def s [rule_format] .
  then have a3: "?o3 ! i \<noteq> -1" "?o3 ! j \<noteq> -1" using only_drops_dead [OF d(3)] b l by simp_all
  then have a2: "?o2 ! i \<noteq> -1" "?o2 ! j \<noteq> -1" using only_drops_dead [OF d(2)] b l by simp_all
  then have "?o2 ! i = o1 ! i" "?o2 ! j = o1 ! j" using only_drops_alive [OF d(1)] b by auto
  then show ?thesis using nms_drops_overlapping [OF _ assms(2,3) refl a3] assms(1) l by simp
qed

text \<open>The first position, the one with the greatest score, is never dropped.\<close>

lemma fold_keeps_first:
  assumes "\<And>x o1. x \<in> set xs \<Longrightarrow> f x o1 ! 0 = o1 ! (0::nat)"
  shows "fold f xs o1 ! 0 = o1 ! 0"
  using assms by (induction xs arbitrary: o1) simp_all

lemma classes_keep_first: "nms_classes v b c th o1 ! 0 = o1 ! 0"
proof -
  have "nms_inner b c f th i n j o2 ! 0 = o2 ! 0" if "0 < j" for f i n j and o2
    using that by (simp add: nms_inner_def Let_def)
  then have "nms_outer v b c f th i o2 ! 0 = o2 ! 0" for f i o2
    by (auto simp: nms_outer_def Let_def intro!: fold_keeps_first)
  then show ?thesis by (auto simp: nms_classes_def nms_def intro!: fold_keeps_first)
qed

section \<open>Tensors\<close>

text \<open>The lists of the found objects: four numbers, a score and a class for each.\<close>

definition found_ok :: "nat \<Rightarrow> found_objects \<Rightarrow> bool" where
  "found_ok v fo \<longleftrightarrow> length (fo_boxes fo) = 4 * v \<and> length (fo_probs fo) = v \<and> length (fo_class fo) = v \<and>
     (\<forall>c\<in>set (fo_class fo). 0 \<le> c \<and> c < int OBJ_CLASS_NUM) \<and>
     (\<forall>k<v. 0 \<le> fo_boxes fo ! (k * 4 + 2) \<and> 0 \<le> fo_boxes fo ! (k * 4 + 3))"

lemma best_class_range: "0 \<le> snd (best_class input offset gl) \<and> snd (best_class input offset gl) < int OBJ_CLASS_NUM"
  unfolding best_class_def
  by (rule fold_inv [where I = "\<lambda>x. 0 \<le> snd x \<and> snd x < int OBJ_CLASS_NUM"])
    (auto simp: OBJ_CLASS_NUM_def Let_def split: prod.splits if_splits)

lemma decode_box_ok:
  "length (decode_box input anchor offset gl stride zp scale a i j) = 4"
  "0 \<le> decode_box input anchor offset gl stride zp scale a i j ! 2"
  "0 \<le> decode_box input anchor offset gl stride zp scale a i j ! 3"
  by (simp_all add: decode_box_def Let_def)

lemma found_add:
  assumes "found_ok v fo" "length b = 4" "0 \<le> b ! 2" "0 \<le> b ! 3" "0 \<le> c" "c < int OBJ_CLASS_NUM"
  shows "found_ok (Suc v) (fo\<lparr>fo_probs := fo_probs fo @ [p], fo_class := fo_class fo @ [c], fo_boxes := fo_boxes fo @ b\<rparr>)"
proof -
  let ?bs = "fo_boxes fo @ b"
  have l: "length (fo_boxes fo) = 4 * v" using assms(1) by (simp add: found_ok_def)
  have "0 \<le> ?bs ! (k * 4 + 2) \<and> 0 \<le> ?bs ! (k * 4 + 3)" if k: "k < Suc v" for k
  proof (cases "k = v")
    case True
    then show ?thesis using assms(3,4) l by (simp add: nth_append)
  next
    case False
    then have "k < v" using k by simp
    then show ?thesis using assms(1) l by (simp add: nth_append found_ok_def)
  qed
  then show ?thesis using assms by (auto simp: found_ok_def)
qed

lemma cell_step_ok:
  assumes "found_ok (v0 + fst st) (snd st)"
  shows "found_ok (v0 + fst (cell_step input anchor h w stride thres zp scale a i j st))
     (snd (cell_step input anchor h w stride thres zp scale a i j st))"
proof -
  obtain v fo where st: "st = (v, fo)" by fastforce
  let ?off = "(PROP_BOX_SIZE * a) * (h * w) + i * w + j"
  obtain mp mc where bc: "best_class input ?off (h * w) = (mp, mc)" by fastforce
  have mc: "0 \<le> mc" "mc < int OBJ_CLASS_NUM" using best_class_range [of input ?off "h * w"] bc by simp_all
  from found_add [OF _ decode_box_ok mc] show ?thesis using assms
    by (simp add: st cell_step_def Let_def bc)
qed

lemma process_tensor_ok:
  assumes "found_ok v0 fo"
  shows "found_ok (v0 + fst (process_tensor input anchor h w stride th zp scale fo)) (snd (process_tensor input anchor h w stride th zp scale fo))"
  unfolding process_tensor_def Let_def
  by (intro fold_inv [where I = "\<lambda>st. found_ok (v0 + fst st) (snd st)"] cell_step_ok) (simp_all add: assms)

lemma detect_tensors_ok:
  assumes "detect_tensors input0 input1 input2 h w th zps scales = (v, fo)"
  shows "found_ok v fo"
proof -
  let ?fo = "\<lparr>fo_boxes = [], fo_probs = [], fo_class = []\<rparr>"
  obtain v0 f0 where p0: "process_tensor input0 anchor0 (h div 8) (w div 8) 8 th (zps ! 0) (scales ! 0) ?fo = (v0, f0)" by fastforce
  obtain v1 f1 where p1: "process_tensor input1 anchor1 (h div 16) (w div 16) 16 th (zps ! 1) (scales ! 1) f0 = (v1, f1)" by fastforce
  obtain v2 f2 where p2: "process_tensor input2 anchor2 (h div 32) (w div 32) 32 th (zps ! 2) (scales ! 2) f1 = (v2, f2)" by fastforce
  have e: "found_ok 0 ?fo" by (simp add: found_ok_def)
  have "found_ok v0 f0" using process_tensor_ok [OF e, of input0 anchor0 "h div 8" "w div 8" 8 th] p0 by (metis add_0 fst_conv snd_conv)
  then have "found_ok (v0 + v1) f1" using process_tensor_ok [of v0 f0 input1 anchor1 "h div 16" "w div 16" 16 th] p1 by (metis fst_conv snd_conv)
  then have "found_ok (v0 + v1 + v2) f2" using process_tensor_ok [of "v0 + v1" f1 input2 anchor2 "h div 32" "w div 32" 32 th] p2 by (metis fst_conv snd_conv)
  then show ?thesis using assms p0 p1 p2 by (simp add: detect_tensors_def Let_def)
qed

text \<open>Every read of a cell is inside the tensor's 255 planes.\<close>

lemma plane_index:
  assumes "p < 255" "i < h" "j < (w::nat)"
  shows "p * (h * w) + i * w + j < 255 * (h * w)"
proof -
  have "i * w + j < Suc i * w" using assms(3) by simp
  also have "\<dots> \<le> h * w" using assms(2) by (intro mult_right_mono) simp_all
  finally have "p * (h * w) + i * w + j < Suc p * (h * w)" by simp
  also have "\<dots> \<le> 255 * (h * w)" using assms(1) by (intro mult_right_mono) simp_all
  finally show ?thesis .
qed

lemma cell_step_inside:
  assumes len: "length input = 255 * (h * w)" and a: "a < 3" "i < h" "j < w"
  shows "cell_step (input @ junk) anchor h w stride thres zp scale a i j = cell_step input anchor h w stride thres zp scale a i j"
proof -
  let ?off = "(PROP_BOX_SIZE * a) * (h * w) + i * w + j"
  have rd: "(input @ junk) ! (?off + q * (h * w)) = input ! (?off + q * (h * w))" if "q < 85" for q
  proof -
    have "85 * a + q < 255" using that a(1) by simp
    from plane_index [OF this a(2,3)] have "?off + q * (h * w) < length input"
      by (simp add: len PROP_BOX_SIZE_def OBJ_CLASS_NUM_def algebra_simps)
    then show ?thesis by (simp add: nth_append)
  qed
  have r0: "(input @ junk) ! ?off = input ! ?off" using rd [of 0] by simp
  have r1: "(input @ junk) ! (?off + h * w) = input ! (?off + h * w)" using rd [of 1] by simp
  have c: "(PROP_BOX_SIZE * a + 4) * (h * w) + i * w + j = ?off + 4 * (h * w)" by (simp add: algebra_simps)
  have b: "best_class (input @ junk) ?off (h * w) = best_class input ?off (h * w)"
    unfolding best_class_def by (rule fold_cong) (use rd [of 5] in simp, simp, use rd in \<open>simp add: OBJ_CLASS_NUM_def\<close>)
  have d: "decode_box (input @ junk) anchor ?off (h * w) stride zp scale a i j = decode_box input anchor ?off (h * w) stride zp scale a i j"
    unfolding decode_box_def using r0 r1 rd [of 2] rd [of 3] by simp
  have r4: "(input @ junk) ! (?off + 4 * (h * w)) = input ! (?off + 4 * (h * w))" by (rule rd) simp
  show ?thesis unfolding cell_step_def c Let_def b d r4 ..
qed

lemma process_inside:
  assumes "length input = 255 * (h * w)"
  shows "process_tensor (input @ junk) anchor h w stride th zp scale fo = process_tensor input anchor h w stride th zp scale fo"
proof -
  let ?t = "qnt_f32_to_affine th zp scale"
  have "fold (cell_step (input @ junk) anchor h w stride ?t zp scale a i) [0..<w] st = fold (cell_step input anchor h w stride ?t zp scale a i) [0..<w] st"
    if "a < 3" "i < h" for a i st
    by (rule fold_cong) (use cell_step_inside [OF assms that] in simp_all)
  then have "fold (\<lambda>i. fold (cell_step (input @ junk) anchor h w stride ?t zp scale a i) [0..<w]) [0..<h] st =
      fold (\<lambda>i. fold (cell_step input anchor h w stride ?t zp scale a i) [0..<w]) [0..<h] st" if "a < 3" for a st
    using that by (intro fold_cong) (auto simp: fun_eq_iff)
  then show ?thesis unfolding process_tensor_def Let_def by (intro fold_cong) (auto simp: fun_eq_iff)
qed

section \<open>Quantisation\<close>

lemma sint_small: "-128 \<le> k \<Longrightarrow> k \<le> 127 \<Longrightarrow> sint (word_of_int k :: 8 word) = k"
  by (simp add: signed_of_int signed_take_bit_int_eq_self)

lemma clip_range: "-128 \<le> clip_float v (-128) 127 \<and> clip_float v (-128) 127 \<le> 127"
proof -
  let ?f = "if v \<le> -128 then -128 else if v \<ge> 127 then 127 else v"
  have "c_trunc (of_int (-128)) \<le> c_trunc ?f" "c_trunc ?f \<le> c_trunc (of_int 127)" by (rule c_trunc_mono, simp)+
  then show ?thesis by (simp only: clip_float_def Let_def c_trunc_of_int)
qed

lemma qnt_value: "sint (qnt_f32_to_affine f zp scale) = clip_float (f / scale + real_of_int zp) (-128) 127"
  unfolding qnt_f32_to_affine_def Let_def by (rule sint_small) (use clip_range in blast)+

lemma trunc_close: "\<bar>real_of_int (c_trunc x) - x\<bar> < 1"
  by (cases "0 \<le> x") (simp_all add: c_trunc_def, linarith+)

section \<open>The group\<close>

text \<open>The result the emission writes for a kept position.\<close>

definition detection_of ::
  "real list \<Rightarrow> real list \<Rightarrow> int list \<Rightarrow> int list \<Rightarrow> string option list \<Rightarrow> nat \<Rightarrow> nat \<Rightarrow> box_rect \<Rightarrow> real \<Rightarrow> real \<Rightarrow> nat \<Rightarrow> detect_result" where
  "detection_of boxes probs cls idx labels mh mw pads sw sh i =
     (let n = nat (idx ! i);
          x1 = boxes ! (n * 4 + 0) - real_of_int (bx_left pads); y1 = boxes ! (n * 4 + 1) - real_of_int (bx_top pads);
          x2 = x1 + boxes ! (n * 4 + 2); y2 = y1 + boxes ! (n * 4 + 3)
      in zero_result\<lparr>re_box := \<lparr>bx_left = c_trunc (real_of_int (clamp_int x1 0 (int mw)) / sw),
                               bx_right = c_trunc (real_of_int (clamp_int x2 0 (int mw)) / sw),
                               bx_top = c_trunc (real_of_int (clamp_int y1 0 (int mh)) / sh),
                               bx_bottom = c_trunc (real_of_int (clamp_int y2 0 (int mh)) / sh)\<rparr>,
                     re_class_id := cls ! n, re_track_id := -1, re_trajectory_count := 0, re_prop := probs ! i,
                     re_name := c_snprintf OBJ_NAME_MAX_SIZE (the (labels ! nat (cls ! n)))\<rparr>)"

definition zero_rest :: "detect_group \<Rightarrow> bool" where
  "zero_rest g \<longleftrightarrow> (\<forall>m<OBJ_NUMB_MAX_SIZE. dg_count g \<le> m \<longrightarrow> dg_results g ! m = zero_result)"

lemma write_detection_ok:
  assumes "group_ok g" "zero_rest g" "idx ! i \<noteq> -1 \<Longrightarrow> labels ! nat (cls ! nat (idx ! i)) \<noteq> None"
  shows "\<exists>g'. write_detection boxes probs cls idx labels mh mw pads sw sh i g = Some g' \<and> group_ok g' \<and> zero_rest g' \<and>
     listed g' = (if idx ! i = -1 \<or> dg_count g \<ge> OBJ_NUMB_MAX_SIZE then listed g
                  else listed g @ [detection_of boxes probs cls idx labels mh mw pads sw sh i])"
proof (cases "idx ! i = -1 \<or> dg_count g \<ge> OBJ_NUMB_MAX_SIZE")
  case True
  then show ?thesis using assms by (simp add: write_detection_def)
next
  case False
  then obtain l where l: "labels ! nat (cls ! nat (idx ! i)) = Some l" using assms(3) by blast
  let ?r = "detection_of boxes probs cls idx labels mh mw pads sw sh i"
  have c: "dg_count g < OBJ_NUMB_MAX_SIZE" using False by simp
  have z: "dg_results g ! dg_count g = zero_result" using assms(2) c by (simp add: zero_rest_def)
  have w: "write_detection boxes probs cls idx labels mh mw pads sw sh i g = Some (add_result ?r g)"
    using False by (simp add: write_detection_def Let_def l z detection_of_def)
  have "length (c_snprintf OBJ_NAME_MAX_SIZE l) < OBJ_NAME_MAX_SIZE" by (rule snprintf_length) (simp add: result_sizes)
  then have r: "result_ok ?r" using zero_result_ok by (simp add: detection_of_def Let_def l result_ok_def)
  have len: "length (dg_results g) = OBJ_NUMB_MAX_SIZE" using assms(1) by (simp add: group_ok_def)
  have "group_ok (add_result ?r g)"
    using assms(1) c r set_update_subset_insert [of "dg_results g" "dg_count g" ?r] by (auto simp: group_ok_def add_result_def)
  moreover have "listed (add_result ?r g) = listed g @ [?r]"
    using c len by (simp add: listed_def add_result_def take_Suc_conv_app_nth)
  moreover have "zero_rest (add_result ?r g)" using assms(2) by (simp add: zero_rest_def add_result_def)
  ultimately show ?thesis using w False by simp
qed

definition alive :: "int list \<Rightarrow> nat \<Rightarrow> nat list" where
  "alive idx k = filter (\<lambda>i. idx ! i \<noteq> -1) [0..<k]"

lemma listed_length: "group_ok g \<Longrightarrow> length (listed g) = dg_count g"
  by (simp add: listed_def group_ok_def)

lemma emit_ok:
  assumes "\<forall>i<v. idx ! i \<noteq> -1 \<longrightarrow> labels ! nat (cls ! nat (idx ! i)) \<noteq> None"
  shows "\<exists>g. fold (\<lambda>i acc. Option.bind acc (write_detection boxes probs cls idx labels mh mw pads sw sh i)) [0..<v] (Some zero_group) = Some g \<and>
     group_ok g \<and> zero_rest g \<and>
     listed g = map (detection_of boxes probs cls idx labels mh mw pads sw sh) (take OBJ_NUMB_MAX_SIZE (alive idx v))"
  using assms
proof (induction v)
  case 0
  have "group_ok zero_group" using zero_group_ok [of 0] by (simp add: zero_group_def)
  then show ?case by (simp add: alive_def listed_def zero_rest_def zero_group_def)
next
  case (Suc v)
  let ?R = "detection_of boxes probs cls idx labels mh mw pads sw sh"
  from Suc obtain g where g: "fold (\<lambda>i acc. Option.bind acc (write_detection boxes probs cls idx labels mh mw pads sw sh i)) [0..<v] (Some zero_group) = Some g"
    "group_ok g" "zero_rest g" "listed g = map ?R (take OBJ_NUMB_MAX_SIZE (alive idx v))" by auto
  have c: "dg_count g = min OBJ_NUMB_MAX_SIZE (length (alive idx v))" using listed_length [OF g(2)] g(4) by simp
  from write_detection_ok [OF g(2,3), of idx v labels cls] Suc.prems obtain g' where
    g': "write_detection boxes probs cls idx labels mh mw pads sw sh v g = Some g'" "group_ok g'" "zero_rest g'"
      "listed g' = (if idx ! v = -1 \<or> dg_count g \<ge> OBJ_NUMB_MAX_SIZE then listed g else listed g @ [?R v])" by blast
  have "listed g' = map ?R (take OBJ_NUMB_MAX_SIZE (alive idx (Suc v)))"
    using g'(4) g(4) c by (auto simp: alive_def min_def split: if_splits)
  then show ?case using g(1) g' by simp
qed

text \<open>Positions after the suppression: the sorted indices, or -1.\<close>

lemma sorted_indices:
  assumes "mset (zip probs idx) = mset (zip input (map int [0..<v]))" "length input = v" "length probs = v" "length idx = v" "k < v"
  shows "0 \<le> idx ! k \<and> idx ! k < int v \<and> probs ! k = input ! nat (idx ! k)"
proof -
  have "zip probs idx ! k \<in> set (zip probs idx)" using assms(3-5) by (intro nth_mem) simp
  then have "(probs ! k, idx ! k) \<in> set (zip input (map int [0..<v]))"
    using assms by (metis nth_zip set_mset_mset)
  then show ?thesis using assms(2) by (auto simp: set_zip)
qed

lemma clamp_int_range: "0 \<le> clamp_int x 0 (int m) \<and> clamp_int x 0 (int m) \<le> int m"
proof -
  let ?v = "if x > real_of_int 0 then (if x < real_of_int (int m) then x else real_of_int (int m)) else real_of_int 0"
  have "c_trunc (of_int 0) \<le> c_trunc ?v" "c_trunc ?v \<le> c_trunc (of_int (int m))" by (rule c_trunc_mono, simp)+
  then show ?thesis by (simp only: clamp_int_def c_trunc_of_int)
qed

lemma clamp_int_mono: "x \<le> y \<Longrightarrow> clamp_int x 0 (int m) \<le> clamp_int y 0 (int m)"
  unfolding clamp_int_def by (rule c_trunc_mono) auto

lemma scaled_edges:
  assumes "0 < s" "x1 \<le> x2"
  shows "0 \<le> c_trunc (real_of_int (clamp_int x1 0 (int m)) / s) \<and>
     c_trunc (real_of_int (clamp_int x1 0 (int m)) / s) \<le> c_trunc (real_of_int (clamp_int x2 0 (int m)) / s) \<and>
     real_of_int (c_trunc (real_of_int (clamp_int x2 0 (int m)) / s)) \<le> real m / s"
proof -
  define a b where "a = clamp_int x1 0 (int m)" and "b = clamp_int x2 0 (int m)"
  have r: "0 \<le> a" "a \<le> b" "b \<le> int m" using clamp_int_range clamp_int_mono [OF assms(2)] by (simp_all add: a_def b_def)
  then have d: "0 \<le> real_of_int a / s" "real_of_int a / s \<le> real_of_int b / s" "real_of_int b / s \<le> real m / s"
    using assms(1) by (simp_all add: divide_right_mono)
  have "real_of_int (c_trunc (real_of_int b / s)) \<le> real_of_int b / s" using d by (intro c_trunc_le) linarith
  then show ?thesis using c_trunc_nonneg [OF d(1)] c_trunc_mono [OF d(2)] d(3) unfolding a_def b_def by linarith
qed

text \<open>What a result promises of its class, its id and its box.\<close>

definition detection_ok :: "nat \<Rightarrow> nat \<Rightarrow> real \<Rightarrow> real \<Rightarrow> detect_result \<Rightarrow> bool" where
  "detection_ok mh mw sw sh r \<longleftrightarrow> 0 \<le> re_class_id r \<and> re_class_id r < int OBJ_CLASS_NUM \<and> re_track_id r = -1 \<and> re_trajectory_count r = 0 \<and>
     0 \<le> bx_left (re_box r) \<and> bx_left (re_box r) \<le> bx_right (re_box r) \<and> real_of_int (bx_right (re_box r)) \<le> real mw / sw \<and>
     0 \<le> bx_top (re_box r) \<and> bx_top (re_box r) \<le> bx_bottom (re_box r) \<and> real_of_int (bx_bottom (re_box r)) \<le> real mh / sh"

lemma select_objects_ok:
  assumes f: "found_ok v fo" and v: "0 < v" and l: "length labels = OBJ_CLASS_NUM" "None \<notin> set labels" and s: "0 < sw" "0 < sh"
  shows "\<exists>g. select_objects v fo labels mh mw th pads sw sh = Some g \<and> group_ok g \<and> 0 < dg_count g \<and> dg_count g \<le> OBJ_NUMB_MAX_SIZE \<and>
     sorted_wrt (\<lambda>a b. re_prop a \<ge> re_prop b) (listed g) \<and> (\<forall>r\<in>set (listed g). detection_ok mh mw sw sh r)"
proof -
  have len: "length (fo_probs fo) = v" "length (fo_class fo) = v" using f by (simp_all add: found_ok_def)
  have "fo_probs fo \<noteq> []" using len v by auto
  from quick_sort_all [OF this, of "map int [0..<v]"] len obtain probs idx where
    q: "quick_sort (fo_probs fo) 0 (v - 1) (map int [0..<v]) = Some (probs, idx)" "length probs = v" "length idx = v"
      "sorted_wrt (\<ge>) probs" "mset (zip probs idx) = mset (zip (fo_probs fo) (map int [0..<v]))" by auto
  let ?idx = "nms_classes v (fo_boxes fo) (fo_class fo) th idx"
  let ?R = "detection_of (fo_boxes fo) probs (fo_class fo) ?idx labels mh mw pads sw sh"
  have d: "only_drops idx ?idx" by (rule classes_drops)
  have idx: "0 \<le> ?idx ! i \<and> nat (?idx ! i) < v" if "i < v" "?idx ! i \<noteq> -1" for i
    using only_drops_alive [OF d _ that(2)] sorted_indices [OF q(5) len(1) q(2,3) that(1)] that(1) q(3) by auto
  have cls: "0 \<le> fo_class fo ! n \<and> fo_class fo ! n < int OBJ_CLASS_NUM" if "n < v" for n
    using f that by (auto simp: found_ok_def)
  have lab: "\<forall>i<v. ?idx ! i \<noteq> -1 \<longrightarrow> labels ! nat (fo_class fo ! nat (?idx ! i)) \<noteq> None"
  proof (intro allI impI)
    fix i assume "i < v" "?idx ! i \<noteq> -1"
    then have "nat (?idx ! i) < v" using idx by blast
    then have "nat (fo_class fo ! nat (?idx ! i)) < length labels" using cls [of "nat (?idx ! i)"] l(1) by linarith
    then show "labels ! nat (fo_class fo ! nat (?idx ! i)) \<noteq> None" using l(2) nth_mem by metis
  qed
  from emit_ok [OF lab] obtain g where
    g: "fold (\<lambda>i acc. Option.bind acc (write_detection (fo_boxes fo) probs (fo_class fo) ?idx labels mh mw pads sw sh i)) [0..<v] (Some zero_group) = Some g"
      "group_ok g" "listed g = map ?R (take OBJ_NUMB_MAX_SIZE (alive ?idx v))" by blast
  have "select_objects v fo labels mh mw th pads sw sh = Some g" using q(1) g(1) by (simp add: select_objects_def Let_def)
  moreover have "0 < dg_count g"
  proof -
    have "0 \<le> idx ! 0" using sorted_indices [OF q(5) len(1) q(2,3) v] by simp
    then have "0 \<in> set (alive ?idx v)" using v by (simp add: alive_def classes_keep_first)
    then have "0 < length (alive ?idx v)" by (rule length_pos_if_in_set)
    then have "0 < length (listed g)" unfolding g(3) by (simp add: OBJ_NUMB_MAX_SIZE_def)
    then show ?thesis using listed_length [OF g(2)] by simp
  qed
  moreover have "sorted_wrt (\<lambda>a b. re_prop a \<ge> re_prop b) (listed g)"
  proof -
    have "sorted_wrt (<) (alive ?idx v)" by (simp add: alive_def sorted_wrt_filter)
    then have sw: "sorted_wrt (<) (take OBJ_NUMB_MAX_SIZE (alive ?idx v))" by (rule sorted_wrt_take)
    have b: "i < v" if "i \<in> set (take OBJ_NUMB_MAX_SIZE (alive ?idx v))" for i
      using in_set_takeD [OF that] by (simp add: alive_def)
    have "sorted_wrt (\<lambda>a b. probs ! a \<ge> probs ! b) (take OBJ_NUMB_MAX_SIZE (alive ?idx v))"
      by (rule sorted_wrt_mono_rel [OF _ sw]) (use q(2,4) b in \<open>auto simp: sorted_wrt_iff_nth_less\<close>)
    moreover have "re_prop (?R i) = probs ! i" for i by (simp add: detection_of_def Let_def)
    ultimately show ?thesis by (simp add: g(3) sorted_wrt_map)
  qed
  moreover have "detection_ok mh mw sw sh r" if r: "r \<in> set (listed g)" for r
  proof -
    obtain i where i: "i < v" "?idx ! i \<noteq> -1" "r = ?R i" using r unfolding g(3) by (auto simp: alive_def dest!: in_set_takeD)
    let ?n = "nat (?idx ! i)"
    have n: "?n < v" using idx i by blast
    then have w: "0 \<le> fo_boxes fo ! (?n * 4 + 2)" "0 \<le> fo_boxes fo ! (?n * 4 + 3)" using f by (simp_all add: found_ok_def)
    let ?x = "fo_boxes fo ! (?n * 4 + 0) - real_of_int (bx_left pads)" and ?y = "fo_boxes fo ! (?n * 4 + 1) - real_of_int (bx_top pads)"
    have "?x \<le> ?x + fo_boxes fo ! (?n * 4 + 2)" "?y \<le> ?y + fo_boxes fo ! (?n * 4 + 3)" using w by simp_all
    note scaled_edges [OF s(1) this(1), of mw] scaled_edges [OF s(2) this(2), of mh]
    then show ?thesis using cls [OF n] by (simp add: i(3) detection_of_def Let_def detection_ok_def)
  qed
  moreover have "dg_count g \<le> OBJ_NUMB_MAX_SIZE" using g(2) by (simp add: group_ok_def)
  ultimately show ?thesis using g(2) by blast
qed

section \<open>Properties\<close>

text \<open>
  C24.  After the suppression over all classes no two kept boxes overlap by more than the threshold,
  whatever their classes; positions only change to -1, and the one with the greatest score is kept.
  (The class that is compared belongs to the position and not to the box at it, so a box
  suppresses boxes of other classes as well.)
\<close>

theorem nms_no_overlap:
  assumes "length order = v" "v \<le> length classIds" "i < j" "j < v"
    and "nms_classes v boxes classIds th order ! i \<noteq> -1" "nms_classes v boxes classIds th order ! j \<noteq> -1"
  shows "box_overlap boxes (nat (nms_classes v boxes classIds th order ! i)) (nat (nms_classes v boxes classIds th order ! j)) \<le> th \<and>
     nms_classes v boxes classIds th order ! i = order ! i \<and> nms_classes v boxes classIds th order ! j = order ! j \<and>
     nms_classes v boxes classIds th order ! 0 = order ! 0"
proof -
  have e: "nms_classes v boxes classIds th order ! i = order ! i" "nms_classes v boxes classIds th order ! j = order ! j"
    using only_drops_alive [OF classes_drops _ assms(5)] only_drops_alive [OF classes_drops _ assms(6)] assms(1-4) by auto
  then show ?thesis using classes_drop_overlapping [OF _ assms(3,4,2,5,6)] assms(1) classes_keep_first by auto
qed

theorem nms_no_overlap_witness:
  "box_overlap [0, 0, 9, 9, 50, 50, 9, 9] 0 1 \<le> 45/100 \<and>
   nms_classes 2 [0, 0, 9, 9, 50, 50, 9, 9] [0, 1] (45/100) [0, 1] = [0, 1]"
proof -
  let ?o = "nms_classes 2 [0, 0, 9, 9, 50, 50, 9, 9] [0, 1] (45/100) [0, 1]"
  have s: "sorted_list_of_set {0, 1 :: int} = [0, 1]" by simp
  have e: "?o = [0, 1]"
    by (simp add: nms_classes_def nms_def nms_outer_def nms_inner_def box_overlap_def calculate_overlap_def upt_rec numeral_2_eq_2 Let_def)
  have "box_overlap [0, 0, 9, 9, 50, 50, 9, 9] (nat ([0, 1] ! 0)) (nat ([0, 1] ! 1)) \<le> 45/100"
    by (rule nms_no_overlap [of "[0, 1]" 2 "[0, 1]" 0 1 "[0, 0, 9, 9, 50, 50, 9, 9]" "45/100", unfolded e, THEN conjunct1]) simp_all
  then show ?thesis unfolding e by simp
qed

text \<open>
  Two boxes of different classes at the same place: the suppression drops the second.
\<close>

lemma nms_drops_other_class:
  assumes "c0 \<noteq> c1" "th < box_overlap boxes 0 1"
  shows "nms_classes 2 boxes [c0, c1] th [0, 1] = [0, -1]"
proof -
  have one: "nms 2 boxes [c0, c1] c0 th [0, 1] = [0, -1]" "nms 2 boxes [c0, c1] c th [0, -1] = [0, -1]" for c
    using assms(2) by (simp_all add: nms_def nms_outer_def nms_inner_def upt_rec numeral_2_eq_2)
  have other: "nms 2 boxes [c0, c1] c1 th [0, 1] = [0, 1]" using assms(1) by (simp add: nms_def nms_outer_def upt_rec numeral_2_eq_2)
  have "sorted_list_of_set {c0, c1} = [c0, c1] \<or> sorted_list_of_set {c0, c1} = [c1, c0]"
    using assms(1) by (cases "c0 < c1") (simp_all add: insort_insert_triv)
  then show ?thesis using one other by (auto simp: nms_classes_def)
qed

text \<open>
  C23.  Decoding reads a tensor only inside its \<open>3 * 85\<close> planes of \<open>grid_h * grid_w\<close> cells: what lies
  behind them does not matter, and the lists it fills agree, with classes from 0 to 79 and boxes
  of no negative size.
\<close>

theorem process_reads_inside:
  assumes "length input = 255 * (grid_h * grid_w)" "found_ok v0 fo"
  shows "process_tensor (input @ junk) anchor grid_h grid_w stride th zp scale fo = process_tensor input anchor grid_h grid_w stride th zp scale fo \<and>
     found_ok (v0 + fst (process_tensor input anchor grid_h grid_w stride th zp scale fo)) (snd (process_tensor input anchor grid_h grid_w stride th zp scale fo))"
  using process_inside [OF assms(1)] process_tensor_ok [OF assms(2)] by blast

theorem process_reads_inside_witness:
  "process_tensor (replicate 255 0 @ [1]) anchor0 1 1 8 (1/4) 0 1 \<lparr>fo_boxes = [], fo_probs = [], fo_class = []\<rparr> =
   process_tensor (replicate 255 0) anchor0 1 1 8 (1/4) 0 1 \<lparr>fo_boxes = [], fo_probs = [], fo_class = []\<rparr>"
  using process_reads_inside [of "replicate 255 0" 1 1 0 "\<lparr>fo_boxes = [], fo_probs = [], fo_class = []\<rparr>"]
  by (simp add: found_ok_def)

text \<open>
  C34.  Quantisation and its inverse, for every scale above 0: a value whose place on the scale is within the
  8 bits comes back to within less than a step, one at or below -128 gets the code -128 and one at or above 127
  the code 127, a greater value never gets a smaller code, and every code is the code of the value it stands for.
\<close>

theorem quantise_roundtrip:
  assumes "0 < scale"
  shows "(f / scale + real_of_int zp \<le> -128 \<longrightarrow> sint (qnt_f32_to_affine f zp scale) = -128) \<and>
     (127 \<le> f / scale + real_of_int zp \<longrightarrow> sint (qnt_f32_to_affine f zp scale) = 127) \<and>
     (-128 \<le> f / scale + real_of_int zp \<and> f / scale + real_of_int zp \<le> 127 \<longrightarrow>
        \<bar>deqnt_affine_to_f32 (qnt_f32_to_affine f zp scale) zp scale - f\<bar> < scale) \<and>
     (f \<le> f' \<longrightarrow> sint (qnt_f32_to_affine f zp scale) \<le> sint (qnt_f32_to_affine f' zp scale)) \<and>
     qnt_f32_to_affine (deqnt_affine_to_f32 w zp scale) zp scale = w"
proof (intro conjI impI)
  define v where "v = f / scale + real_of_int zp"
  show "sint (qnt_f32_to_affine f zp scale) = -128" if "f / scale + real_of_int zp \<le> -128"
    using that c_trunc_of_int [of "-128"] by (simp add: qnt_value clip_float_def)
  show "sint (qnt_f32_to_affine f zp scale) = 127" if "127 \<le> f / scale + real_of_int zp"
    using that c_trunc_of_int [of 127] by (simp add: qnt_value clip_float_def)
  show "\<bar>deqnt_affine_to_f32 (qnt_f32_to_affine f zp scale) zp scale - f\<bar> < scale"
    if "-128 \<le> f / scale + real_of_int zp \<and> f / scale + real_of_int zp \<le> 127"
  proof -
    have clip: "clip_float v (-128) 127 = c_trunc v" using that by (auto simp: clip_float_def v_def)
    have "f = (v - real_of_int zp) * scale" using assms by (simp add: v_def)
    then have "deqnt_affine_to_f32 (qnt_f32_to_affine f zp scale) zp scale - f = (real_of_int (c_trunc v) - v) * scale"
      by (simp add: deqnt_affine_to_f32_def qnt_value clip flip: v_def) (simp add: algebra_simps)
    then have "\<bar>deqnt_affine_to_f32 (qnt_f32_to_affine f zp scale) zp scale - f\<bar> = \<bar>real_of_int (c_trunc v) - v\<bar> * scale"
      using assms by (simp add: abs_mult)
    also have "\<dots> < 1 * scale" using trunc_close [of v] assms by (intro mult_strict_right_mono) simp_all
    finally show ?thesis by simp
  qed
  show "sint (qnt_f32_to_affine f zp scale) \<le> sint (qnt_f32_to_affine f' zp scale)" if "f \<le> f'"
  proof -
    define v' where "v' = f' / scale + real_of_int zp"
    have "v \<le> v'" using assms that by (simp add: v_def v'_def divide_right_mono)
    then have "clip_float v (-128) 127 \<le> clip_float v' (-128) 127"
      unfolding clip_float_def Let_def by (intro c_trunc_mono) auto
    then show ?thesis by (simp add: qnt_value v_def v'_def)
  qed
  have "clip_float (real_of_int k) (-128) 127 = k" if "-128 \<le> k" "k \<le> 127" for k
    using that c_trunc_of_int [of k] by (cases "k = 127"; cases "k = -128") (simp_all add: clip_float_def Let_def)
  moreover have "-128 \<le> sint w" "sint w \<le> 127" using sint_ge [of w] sint_lt [of w] by simp_all
  ultimately have "clip_float (real_of_int (sint w)) (-128) 127 = sint w" by blast
  moreover have "deqnt_affine_to_f32 w zp scale / scale + real_of_int zp = real_of_int (sint w)"
    using assms by (simp add: deqnt_affine_to_f32_def)
  ultimately have "sint (qnt_f32_to_affine (deqnt_affine_to_f32 w zp scale) zp scale) = sint w" by (simp add: qnt_value)
  then show "qnt_f32_to_affine (deqnt_affine_to_f32 w zp scale) zp scale = w" by (simp add: signed_word_eqI)
qed

theorem quantise_roundtrip_witness:
  "\<bar>deqnt_affine_to_f32 (qnt_f32_to_affine (1/4) (-128) (1/255)) (-128) (1/255) - 1/4\<bar> < 1/255 \<and>
   sint (qnt_f32_to_affine (-1) (-128) (1/255)) = -128 \<and> sint (qnt_f32_to_affine 2 (-128) (1/255)) = 127"
  using quantise_roundtrip [of "1/255" "1/4" "-128"] quantise_roundtrip [of "1/255" "-1" "-128"] quantise_roundtrip [of "1/255" 2 "-128"] by simp

text \<open>
  C16.  A frame's detections: once the labels are loaded \<open>post_process\<close> returns 0 with a well-formed
  group of at most 64 results and at least one if anything was found; the results are in
  descending order of score, with classes from 0 to 79, no track id, and boxes inside the frame.
\<close>

theorem post_process_results:
  assumes "lt_init t" "length (lt_labels t) = OBJ_CLASS_NUM" "None \<notin> set (lt_labels t)" "0 < sw" "0 < sh"
  shows "\<exists>g. post_process file i0 i1 i2 mh mw conf th pads sw sh zps scales t = Some (0, g, t) \<and> group_ok g \<and> dg_count g \<le> 64 \<and>
     (dg_count g = 0 \<longleftrightarrow> fst (detect_tensors i0 i1 i2 mh mw conf zps scales) = 0) \<and>
     sorted_wrt (\<lambda>a b. re_prop a \<ge> re_prop b) (listed g) \<and> list_all (detection_ok mh mw sw sh) (listed g)"
proof -
  obtain v fo where d: "detect_tensors i0 i1 i2 mh mw conf zps scales = (v, fo)" by fastforce
  have t: "\<lparr>lt_init = True, lt_labels = lt_labels t\<rparr> = t" using assms(1) by (cases t) simp
  show ?thesis
  proof (cases "v = 0")
    case True
    then have "post_process file i0 i1 i2 mh mw conf th pads sw sh zps scales t = Some (0, zero_group, t)"
      using assms(1) t by (simp add: post_process_def d)
    moreover have "group_ok zero_group" using zero_group_ok [of 0] by (simp add: zero_group_def)
    ultimately show ?thesis using True by (simp add: d) (simp add: zero_group_def listed_def)
  next
    case False
    from select_objects_ok [OF detect_tensors_ok [OF d] _ assms(2,3,4,5), of mh mw th pads] False obtain g where
      g: "select_objects v fo (lt_labels t) mh mw th pads sw sh = Some g" "group_ok g" "0 < dg_count g" "dg_count g \<le> OBJ_NUMB_MAX_SIZE"
        "sorted_wrt (\<lambda>a b. re_prop a \<ge> re_prop b) (listed g)" "\<forall>r\<in>set (listed g). detection_ok mh mw sw sh r" by blast
    have "post_process file i0 i1 i2 mh mw conf th pads sw sh zps scales t = Some (0, g, t)"
      using assms(1) t False g(1) by (simp add: post_process_def d)
    then show ?thesis using g(2-6) False by (simp add: d OBJ_NUMB_MAX_SIZE_def list_all_iff)
  qed
qed

definition coco_table :: label_table where
  "coco_table = \<lparr>lt_init = True, lt_labels = replicate OBJ_CLASS_NUM (Some ''person'')\<rparr>"

theorem post_process_results_witness:
  "\<exists>g. post_process None [] [] [] 0 0 (1/4) (45/100) \<lparr>bx_left = 0, bx_right = 0, bx_top = 0, bx_bottom = 0\<rparr> 1 1 [0, 0, 0] [1, 1, 1]
     coco_table = Some (0, g, coco_table) \<and> group_ok g"
  using post_process_results [of coco_table 1 1 None "[]" "[]" "[]" 0 0 "1/4" "45/100" "\<lparr>bx_left = 0, bx_right = 0, bx_top = 0, bx_bottom = 0\<rparr>"
      "[0, 0, 0]" "[1, 1, 1]"] by (auto simp: coco_table_def)

text \<open>
  Without the label file the table stays empty but counts as loaded: the first frame with a
  detection copies from a null label.
\<close>

lemma missing_labels_fail:
  assumes "detect_tensors i0 i1 i2 mh mw conf zps scales = (v, fo)" "0 < v"
  shows "post_process None i0 i1 i2 mh mw conf th pads sw sh zps scales fresh_table = None"
proof -
  have f: "found_ok v fo" by (rule detect_tensors_ok [OF assms(1)])
  have len: "length (fo_probs fo) = v" "length (fo_class fo) = v" using f by (simp_all add: found_ok_def)
  have "fo_probs fo \<noteq> []" using len assms(2) by auto
  from quick_sort_all [OF this, of "map int [0..<v]"] len obtain probs idx where
    q: "quick_sort (fo_probs fo) 0 (v - 1) (map int [0..<v]) = Some (probs, idx)" "length probs = v" "length idx = v"
      "mset (zip probs idx) = mset (zip (fo_probs fo) (map int [0..<v]))" by auto
  let ?idx = "nms_classes v (fo_boxes fo) (fo_class fo) th idx" and ?labels = "replicate OBJ_CLASS_NUM None :: string option list"
  have i0: "0 \<le> idx ! 0" "nat (idx ! 0) < v" using sorted_indices [OF q(4) len(1) q(2,3) assms(2)] by auto
  then have "fo_class fo ! nat (idx ! 0) \<in> set (fo_class fo)" using len(2) by simp
  then have "0 \<le> fo_class fo ! nat (idx ! 0) \<and> fo_class fo ! nat (idx ! 0) < int OBJ_CLASS_NUM" using f by (simp add: found_ok_def)
  then have "?labels ! nat (fo_class fo ! nat (idx ! 0)) = None" by (simp add: nat_less_iff)
  then have w: "write_detection (fo_boxes fo) probs (fo_class fo) ?idx ?labels mh mw pads sw sh 0 zero_group = None"
    using i0(1) by (simp add: write_detection_def Let_def classes_keep_first zero_group_def OBJ_NUMB_MAX_SIZE_def)
  have none: "fold (\<lambda>i acc. Option.bind acc (write_detection (fo_boxes fo) probs (fo_class fo) ?idx ?labels mh mw pads sw sh i)) xs None = None" for xs
    by (induction xs) simp_all
  have "[0..<v] = 0 # [1..<v]" using assms(2) by (simp add: upt_conv_Cons)
  then have "select_objects v fo ?labels mh mw th pads sw sh = None"
    using q(1) w none by (simp add: select_objects_def Let_def)
  then show ?thesis using assms by (simp add: post_process_def fresh_table_def load_label_name_def read_lines_def)
qed

lemma missing_labels_fail_example:
  "post_process None (replicate (255 * 1) 100) [] [] 8 8 0 (45/100) \<lparr>bx_left = 0, bx_right = 0, bx_top = 0, bx_bottom = 0\<rparr> 1 1
     [0, 0, 0] [1, 1, 1] fresh_table = None"
proof -
  let ?in = "replicate (255 * 1) 100 :: 8 word list"
  have q: "qnt_f32_to_affine 0 0 1 = 0" by (simp add: qnt_f32_to_affine_def clip_float_def c_trunc_def)
  have hundred: "sint (100 :: 8 word) = 100" using sint_small [of 100] by simp
  have bc: "best_class ?in off 1 = (100, 0)" if "off + 85 \<le> 255" for off
    unfolding best_class_def
    by (rule fold_inv [where I = "\<lambda>x. x = (100, 0)"]) (use that in \<open>auto simp: OBJ_CLASS_NUM_def\<close>)
  have cell: "fst (cell_step ?in anchor0 1 1 8 0 0 1 a 0 0 st) = Suc (fst st)" if "a < 3" for a st
    using that bc [of "85 * a"]
    by (cases st) (simp add: cell_step_def Let_def PROP_BOX_SIZE_def OBJ_CLASS_NUM_def hundred)
  have "fst (process_tensor ?in anchor0 1 1 8 0 0 1 fo) = 3" for fo
    by (simp add: process_tensor_def q upt_rec numeral_3_eq_3 cell [simplified] del: upt_Suc)
  then have "0 < fst (detect_tensors ?in [] [] 8 8 0 [0, 0, 0] [1, 1, 1])"
    unfolding detect_tensors_def Let_def split_def fst_conv by simp
  then show ?thesis using missing_labels_fail [OF prod.collapse [symmetric]] by blast
qed

end
