(* ===== verification/Labels.thy ===== *)
theory Labels imports PostInv DeepWrapper begin

text \<open>
  The label file is read twice: into the detector's table by \<open>readLines\<close> of \<open>postprocess.cc\<close>, and
  into the one of \<open>DeepSortWrapper\<close> with \<open>std::getline\<close>.  The two tables name the classes alike.
\<close>

lemma getlines_unfold:
  "getlines acc fp =
     (let line = rev acc @ takeWhile (\<lambda>c. c \<noteq> NL) fp; rest = dropWhile (\<lambda>c. c \<noteq> NL) fp
      in if rest = [] then (if line = [] then [] else [line]) else line # getlines [] (tl rest))"
  by (induction fp arbitrary: acc) (auto simp: Let_def)

lemma getlines_read_line:
  "getlines [] fp = (case read_line fp of None \<Rightarrow> [] | Some (s, rest) \<Rightarrow> s # getlines [] rest)"
proof -
  define line rest where "line = takeWhile (\<lambda>c. c \<noteq> NL) fp" and "rest = dropWhile (\<lambda>c. c \<noteq> NL) fp"
  have g: "getlines [] fp = (if rest = [] then (if line = [] then [] else [line]) else line # getlines [] (tl rest))"
    using getlines_unfold [of "[]" fp] by (simp only: line_def rest_def Let_def rev.simps append_Nil)
  have r: "read_line fp = (if rest = [] \<and> line = [] then None else Some (line, tl rest))"
    by (simp only: read_line_def Let_def line_def rest_def NL_def)
  show ?thesis unfolding g r by simp
qed

lemma read_lines_from_eq:
  assumes "i < max_line" "max_line \<le> length lines"
  shows "read_lines_from fp i max_line lines =
     (let ls = take (max_line - i) (getlines [] fp)
      in (i + length ls, take i lines @ map Some ls @ drop (i + length ls) lines))"
  using assms
proof (induction fp i max_line lines rule: read_lines_from.induct)
  case (1 fp i max_line lines)
  show ?case
  proof (cases "read_line fp")
    case None
    then have "getlines [] fp = []" by (subst getlines_read_line) simp
    then show ?thesis using None by (subst read_lines_from.simps) simp
  next
    case (Some p)
    obtain s rest where p: "p = (s, rest)" by fastforce
    have g: "getlines [] fp = s # getlines [] rest" using Some p by (subst getlines_read_line) simp
    obtain k where k: "max_line - i = Suc k" using "1.prems"(1) by (metis Suc_diff_Suc)
    have put: "take (Suc i) (lines[i := Some s]) = take i lines @ [Some s]"
      using "1.prems" by (simp add: take_Suc_conv_app_nth)
    show ?thesis
    proof (cases "i + 1 \<ge> max_line")
      case True
      then have "k = 0" using k by simp
      moreover have "lines[i := Some s] = take i lines @ Some s # drop (Suc i) lines"
        using "1.prems" by (intro upd_conv_take_nth_drop) simp
      ultimately show ?thesis using Some p g k True by (subst read_lines_from.simps) simp
    next
      case False
      have "read_lines_from rest (i + 1) max_line (lines[i := Some s]) =
         (let ls = take (max_line - (i + 1)) (getlines [] rest)
          in (i + 1 + length ls, take (i + 1) (lines[i := Some s]) @ map Some ls @ drop (i + 1 + length ls) (lines[i := Some s])))"
        using "1.IH" [OF Some p [symmetric] refl refl False] False "1.prems"(2) by simp
      moreover have "max_line - (i + 1) = k" using k by simp
      ultimately show ?thesis using Some p g k False put
        by (subst read_lines_from.simps) (simp add: Let_def)
    qed
  qed
qed

lemma getlines_no_cr: "CR \<notin> set fp \<Longrightarrow> CR \<notin> set acc \<Longrightarrow> line \<in> set (getlines acc fp) \<Longrightarrow> CR \<notin> set line"
  by (induction acc fp rule: getlines.induct) (auto split: if_splits)

text \<open>
  For a label file without carriage returns the detector's table holds the first 80 names of
  the table of the DeepSort wrapper, and null entries after them.
\<close>

lemma label_tables_agree:
  assumes "CR \<notin> set text"
  shows "snd (load_label_name (Some text) (lt_labels fresh_table)) =
     map Some (take 80 (load_labels (Some text))) @ replicate (80 - length (load_labels (Some text))) None"
proof -
  have nc: "\<not> (line \<noteq> [] \<and> last line = CR)" if "line \<in> set (getlines [] text)" for line
    using getlines_no_cr [OF assms _ that] last_in_set [of line] by (metis empty_iff list.set(1))
  have "load_labels (Some text) = getlines [] text"
    unfolding load_labels_def option.simps by (rule map_idI) (use nc in \<open>auto\<close>)
  then show ?thesis using read_lines_from_eq [of 0 80 "replicate 80 None" "text"]
    by (simp add: load_label_name_def read_lines_def fresh_table_def OBJ_CLASS_NUM_def Let_def)
qed

text \<open>With carriage returns they differ: the detector keeps the character, the wrapper drops it.\<close>

lemma label_tables_differ:
  assumes "name \<noteq> []" "NL \<notin> set name" "CR \<notin> set name"
  shows "snd (load_label_name (Some (name @ [CR, NL])) (lt_labels fresh_table)) ! 0 = Some (name @ [CR]) \<and>
     load_labels (Some (name @ [CR, NL])) ! 0 = name"
proof -
  have "CR \<noteq> NL" by (simp add: CR_def NL_def)
  then have n: "\<forall>c\<in>set (name @ [CR]). c \<noteq> NL" using assms(2) by auto
  have tw: "takeWhile (\<lambda>c. c \<noteq> NL) ((name @ [CR]) @ [NL]) = name @ [CR]"
    using n by (subst takeWhile_append2) auto
  have dw: "dropWhile (\<lambda>c. c \<noteq> NL) ((name @ [CR]) @ [NL]) = [NL]"
    using n by (subst dropWhile_append2) auto
  have g: "getlines [] (name @ [CR, NL]) = [name @ [CR]]"
    using tw dw by (subst getlines_unfold) simp
  then have "load_labels (Some (name @ [CR, NL])) ! 0 = name" by (simp add: load_labels_def)
  moreover have "snd (load_label_name (Some (name @ [CR, NL])) (lt_labels fresh_table)) ! 0 = Some (name @ [CR])"
    using read_lines_from_eq [of 0 80 "replicate 80 None" "name @ [CR, NL]"] g
    by (simp add: load_label_name_def read_lines_def fresh_table_def OBJ_CLASS_NUM_def Let_def)
  ultimately show ?thesis by simp
qed

end
