(* ===== verification/Settings.thy ===== *)
theory Settings imports IniReader begin

text \<open>
  The settings of the program: \<open>TransCoder::LoadConfigs\<close> and the first part of
  \<open>TransCoder::init\<close> in \<open>src/src/transcoder.cc\<close>, which read and repair the configuration of
  each camera; the server's settings (\<open>src/src/CamRTSPServer.cc\<close>) and the log level of
  \<open>src/src/main.cc\<close>.
\<close>

section \<open>Camera configurations\<close>

datatype tracker_type = NONE | BYTETRACK | DEEPSORT

record config =
  cf_width :: int
  cf_height :: int
  cf_fps :: int
  cf_fix_qp :: int
  cf_rknn_thread :: int
  cf_dma_buffers :: int
  cf_tracker_enable :: bool
  cf_tracker_type :: string
  cf_track_buffer :: int
  cf_track_thresh :: real
  cf_high_thresh :: real
  cf_match_thresh :: real
  cf_reid_model_path :: string
  cf_reid_feature_dim :: int
  cf_reid_interval :: int
  cf_reid_cpu_id :: int
  cf_reid_npu_core :: int
  cf_device_name :: string
  cf_stream_name :: string
  cf_section_name :: string
  cf_dma_heap :: string

definition parse_tracker_type :: "string \<Rightarrow> bool \<Rightarrow> tracker_type" where
  "parse_tracker_type ty enable =
     (if \<not> enable then NONE
      else if ty = ''deepsort'' then DEEPSORT
      else if ty = ''none'' \<or> ty = ''off'' \<or> ty = ''disable'' then NONE
      else BYTETRACK)"

text \<open>The masks \<open>RKNN_NPU_CORE_0\<close>, \<open>_1\<close> and \<open>_2\<close> are 1, 2 and 4.\<close>

definition parse_rknn_core_mask :: "int \<Rightarrow> int" where
  "parse_rknn_core_mask core_id = (if core_id = 0 then 1 else if core_id = 1 then 2 else if core_id = 2 then 4 else 4)"

text \<open>\<open>int x = configs.GetInteger(section, name, default)\<close>.\<close>

definition get_int :: "ini_reader \<Rightarrow> string \<Rightarrow> string \<Rightarrow> int \<Rightarrow> int" where
  "get_int r sec name d = to_int (get_integer r sec name d)"

definition config_defaults :: "ini_reader \<Rightarrow> config" where
  "config_defaults r =
     \<lparr>cf_width = get_int r ''video'' ''width'' 640,
      cf_height = get_int r ''video'' ''height'' 480,
      cf_fps = get_int r ''video'' ''fps'' 30,
      cf_fix_qp = get_int r ''video'' ''fix_qp'' 23,
      cf_rknn_thread = get_int r ''rknn'' ''rknn_thread'' 3,
      cf_dma_buffers = get_int r ''video'' ''dma_buffers'' 4,
      cf_tracker_enable = get_boolean r ''tracker'' ''enable'' True,
      cf_tracker_type = ini_get r ''tracker'' ''type'' ''bytetrack'',
      cf_track_buffer = get_int r ''tracker'' ''track_buffer'' 30,
      cf_track_thresh = get_real r ''tracker'' ''track_thresh'' (5/10),
      cf_high_thresh = get_real r ''tracker'' ''high_thresh'' (6/10),
      cf_match_thresh = get_real r ''tracker'' ''match_thresh'' (8/10),
      cf_reid_model_path = ini_get r ''tracker'' ''reid_model_path'' ''model/osnet_x0_25_market.rknn'',
      cf_reid_feature_dim = get_int r ''tracker'' ''reid_feature_dim'' 512,
      cf_reid_interval = get_int r ''tracker'' ''reid_interval'' 1,
      cf_reid_cpu_id = get_int r ''tracker'' ''reid_cpu_id'' 6,
      cf_reid_npu_core = get_int r ''tracker'' ''reid_npu_core'' 2,
      cf_device_name = ini_get r ''video'' ''device'' ''/dev/video0'',
      cf_stream_name = ini_get r ''server'' ''stream_name'' ''unicast'',
      cf_section_name = ''video'',
      cf_dma_heap = ini_get r ''video'' ''dma_heap'' ''/dev/dma_heap/system''\<rparr>"

text \<open>The part that a camera's own section and the single \<open>[video]\<close> section treat alike.\<close>

definition tracker_settings :: "ini_reader \<Rightarrow> config \<Rightarrow> string \<Rightarrow> config \<Rightarrow> config" where
  "tracker_settings r d sec cfg = cfg\<lparr>
      cf_tracker_enable := get_boolean r sec ''tracker_enable'' (cf_tracker_enable d),
      cf_tracker_type := ini_get r sec ''tracker_type'' (cf_tracker_type d),
      cf_track_buffer := max 1 (get_int r sec ''track_buffer'' (cf_track_buffer d)),
      cf_track_thresh := get_real r sec ''track_thresh'' (cf_track_thresh d),
      cf_high_thresh := get_real r sec ''high_thresh'' (cf_high_thresh d),
      cf_match_thresh := get_real r sec ''match_thresh'' (cf_match_thresh d),
      cf_reid_model_path := ini_get r sec ''reid_model_path'' (cf_reid_model_path d),
      cf_reid_feature_dim := max 1 (get_int r sec ''reid_feature_dim'' (cf_reid_feature_dim d)),
      cf_reid_interval := max 1 (get_int r sec ''reid_interval'' (cf_reid_interval d)),
      cf_reid_cpu_id := get_int r sec ''reid_cpu_id'' (cf_reid_cpu_id d),
      cf_reid_npu_core := get_int r sec ''reid_npu_core'' (cf_reid_npu_core d)\<rparr>"

text \<open>The section \<open>[video<i>]\<close>; a section without a device is left out.\<close>

definition section_config :: "ini_reader \<Rightarrow> config \<Rightarrow> nat \<Rightarrow> config option" where
  "section_config r d i =
     (let sec = ''video'' @ show_nat i;
          threads = get_int r sec ''rknn_thread'' (cf_rknn_thread d);
          cfg = tracker_settings r d sec (d\<lparr>
            cf_section_name := sec,
            cf_width := get_int r sec ''width'' (cf_width d),
            cf_height := get_int r sec ''height'' (cf_height d),
            cf_fps := get_int r sec ''fps'' (cf_fps d),
            cf_fix_qp := get_int r sec ''fix_qp'' (cf_fix_qp d),
            cf_dma_buffers := max 2 (get_int r sec ''dma_buffers'' (cf_dma_buffers d)),
            cf_rknn_thread := (if threads > 6 then 6 else threads)\<rparr>)
      in if \<not> has_section r sec then None
         else if ini_get r sec ''device'' [] = [] then None
         else Some (cfg\<lparr>
            cf_device_name := ini_get r sec ''device'' [],
            cf_stream_name := ini_get r sec ''stream_name'' (''cam'' @ show_nat i),
            cf_dma_heap := ini_get r sec ''dma_heap'' (cf_dma_heap d)\<rparr>))"

definition single_config :: "ini_reader \<Rightarrow> config \<Rightarrow> config" where
  "single_config r d = tracker_settings r d ''video'' (d\<lparr>
      cf_dma_buffers := max 2 (cf_dma_buffers d),
      cf_rknn_thread := (if cf_rknn_thread d > 6 then 6 else cf_rknn_thread d)\<rparr>)"

definition load_configs :: "string option \<Rightarrow> config list" where
  "load_configs file =
     (let r = ini_reader_file file in
      if ir_error r < 0 then []
      else
        let d = config_defaults r;
            has_multi_video = list_ex (\<lambda>i. has_section r (''video'' @ show_nat i)) [0..<8];
            configs_out = (if has_multi_video then List.map_filter (section_config r d) [0..<8] else [])
        in if configs_out = [] then [single_config r d] else configs_out)"

section \<open>Repairing a configuration\<close>

definition clamp_config :: "config \<Rightarrow> config" where
  "clamp_config c = c\<lparr>
      cf_width := (if cf_width c \<le> 0 then 640 else cf_width c),
      cf_height := (if cf_height c \<le> 0 then 480 else cf_height c),
      cf_fps := (if cf_fps c \<le> 0 then 30 else cf_fps c),
      cf_fix_qp := (if cf_fix_qp c \<le> 0 then 23 else cf_fix_qp c),
      cf_dma_buffers := (if cf_dma_buffers c < 2 then 4 else cf_dma_buffers c),
      cf_device_name := (if cf_device_name c = [] then ''/dev/video0'' else cf_device_name c),
      cf_stream_name := (if cf_stream_name c = [] then ''unicast'' else cf_stream_name c),
      cf_dma_heap := (if cf_dma_heap c = [] then ''/dev/dma_heap/system'' else cf_dma_heap c),
      cf_rknn_thread := (if cf_rknn_thread c > 6 then 6 else max 1 (cf_rknn_thread c)),
      cf_track_buffer := max 1 (cf_track_buffer c),
      cf_tracker_type := (if cf_tracker_type c = [] then ''bytetrack'' else cf_tracker_type c),
      cf_reid_model_path := (if cf_reid_model_path c = [] then ''model/osnet_x0_25_market.rknn'' else cf_reid_model_path c),
      cf_reid_feature_dim := max 1 (cf_reid_feature_dim c),
      cf_reid_interval := max 1 (cf_reid_interval c)\<rparr>"

definition tracker_of :: "config \<Rightarrow> tracker_type" where
  "tracker_of c = parse_tracker_type (cf_tracker_type c) (cf_tracker_enable c)"

section \<open>The server and the log\<close>

record server_config =
  sv_rtsp_port :: int
  sv_max_buf_size :: int
  sv_max_packet_size :: int
  sv_is_http_enable :: bool
  sv_http_port :: int
  sv_bitrate :: int

definition server_settings :: "string option \<Rightarrow> server_config option" where
  "server_settings file =
     (let r = ini_reader_file file in
      if ir_error r < 0 then None
      else Some
        \<lparr>sv_rtsp_port = get_int r ''server'' ''rtsp_port'' 8554,
         sv_max_buf_size = get_int r ''server'' ''max_buf_size'' 2000000,
         sv_max_packet_size = get_int r ''server'' ''max_packet_size'' 1500,
         sv_is_http_enable = get_boolean r ''server'' ''http_ebable'' False,
         sv_http_port = get_int r ''server'' ''http_port'' 8000,
         sv_bitrate = get_int r ''server'' ''bitrate'' 2000\<rparr>)"

datatype log_level = NOTICE | INFO | ERROR

text \<open>\<open>Inl 1\<close> is \<open>exit(1)\<close>; \<open>Inr None\<close> leaves the logger alone.\<close>

definition log_settings :: "string option \<Rightarrow> nat + log_level option" where
  "log_settings file =
     (let r = ini_reader_file file in
      if ir_error r < 0 then Inl 1
      else
        let level = ini_get r ''log'' ''level'' ''NOTICE''
        in Inr (if level = ''NOTICE'' then Some NOTICE else if level = ''INFO'' then Some INFO
                else if level = ''ERROR'' then Some ERROR else None))"

section \<open>Lemmas\<close>

definition config_ok :: "config \<Rightarrow> bool" where
  "config_ok c \<longleftrightarrow> 0 < cf_width c \<and> 0 < cf_height c \<and> 0 < cf_fps c \<and> 0 < cf_fix_qp c \<and>
     1 \<le> cf_rknn_thread c \<and> cf_rknn_thread c \<le> 6 \<and> 2 \<le> cf_dma_buffers c \<and>
     1 \<le> cf_track_buffer c \<and> 1 \<le> cf_reid_feature_dim c \<and> 1 \<le> cf_reid_interval c \<and>
     cf_device_name c \<noteq> [] \<and> cf_stream_name c \<noteq> [] \<and> cf_dma_heap c \<noteq> [] \<and> cf_tracker_type c \<noteq> [] \<and>
     cf_reid_model_path c \<noteq> []"

lemma clamp_config_ok: "config_ok (clamp_config c)"
  by (simp add: config_ok_def clamp_config_def)

lemma clamp_config_id: "config_ok c \<Longrightarrow> clamp_config c = c"
  by (cases c) (simp add: config_ok_def clamp_config_def)

lemma get_int_range: "- (2 ^ 31) \<le> get_int r s n d" "get_int r s n d < 2 ^ 31"
  unfolding get_int_def by (rule to_int_range)+

text \<open>What \<open>LoadConfigs\<close> itself guarantees of a configuration.\<close>

definition loaded_ok :: "config \<Rightarrow> bool" where
  "loaded_ok c \<longleftrightarrow> cf_rknn_thread c \<le> 6 \<and> 2 \<le> cf_dma_buffers c \<and> 1 \<le> cf_track_buffer c \<and>
     1 \<le> cf_reid_feature_dim c \<and> 1 \<le> cf_reid_interval c"

lemma tracker_settings_ok:
  "cf_rknn_thread c \<le> 6 \<Longrightarrow> 2 \<le> cf_dma_buffers c \<Longrightarrow> loaded_ok (tracker_settings r d sec c)"
  by (simp add: loaded_ok_def tracker_settings_def)

lemma tracker_settings_names [simp]: "cf_section_name (tracker_settings r d sec c) = cf_section_name c"
  by (simp add: tracker_settings_def)

lemma loaded_ok_names [simp]:
  "loaded_ok (c\<lparr>cf_device_name := x, cf_stream_name := y, cf_dma_heap := z\<rparr>) = loaded_ok c"
  by (simp add: loaded_ok_def)

lemma section_config_ok:
  assumes "section_config r d i = Some c"
  shows "loaded_ok c" "cf_section_name c = ''video'' @ show_nat i" "cf_device_name c \<noteq> []"
  using assms unfolding section_config_def Let_def
  by (auto split: if_splits intro!: tracker_settings_ok)

lemma single_config_ok: "loaded_ok (single_config r d)"
  unfolding single_config_def by (rule tracker_settings_ok) simp_all

lemma show_nat_inj: "show_nat m = show_nat n \<Longrightarrow> m = n"
  by (metis fst_conv read_show_nat)

lemma map_filter_sections:
  "set (List.map_filter (section_config r d) js) \<subseteq> {c. \<exists>i\<in>set js. section_config r d i = Some c}"
  "length (List.map_filter (section_config r d) js) \<le> length js"
  "distinct js \<Longrightarrow> distinct (map cf_section_name (List.map_filter (section_config r d) js))"
proof -
  show 1: "set (List.map_filter (section_config r d) js) \<subseteq> {c. \<exists>i\<in>set js. section_config r d i = Some c}" for js
    by (auto simp: List.map_filter_def)
  show "length (List.map_filter (section_config r d) js) \<le> length js" by (simp add: List.map_filter_def)
  show "distinct js \<Longrightarrow> distinct (map cf_section_name (List.map_filter (section_config r d) js))"
  proof (induction js)
    case (Cons i js)
    have "''video'' @ show_nat i \<notin> cf_section_name ` set (List.map_filter (section_config r d) js)"
    proof
      assume "''video'' @ show_nat i \<in> cf_section_name ` set (List.map_filter (section_config r d) js)"
      then obtain c j where "j \<in> set js" "section_config r d j = Some c" "''video'' @ show_nat i = cf_section_name c" using 1 by blast
      then show False using section_config_ok [of r d j c] show_nat_inj [of i j] Cons.prems by auto
    qed
    then show ?case using Cons section_config_ok [of r d i] by (auto simp: map_filter_simps split: option.split)
  qed (simp add: map_filter_simps)
qed

text \<open>
  The server looks for \<open>http_ebable\<close>: in a configuration without an entry of that name the tunnel is
  off, whatever \<open>http_enable\<close> says.
\<close>

lemma http_enable_unread:
  assumes "plain_config cfg" "make_key ''server'' ''http_ebable'' \<notin> fst ` set (entries cfg)"
  shows "\<exists>sv. server_settings (Some (print_config cfg)) = Some sv \<and> \<not> sv_is_http_enable sv"
proof -
  have "map_of (entries cfg) (make_key ''server'' ''http_ebable'') = None" using assms(2) by (simp add: map_of_eq_None_iff)
  then have "ini_get (ini_reader_file (Some (print_config cfg))) ''server'' ''http_ebable'' [] = []"
    using printed_values [OF assms(1)] by (simp add: ini_get_def)
  then show ?thesis using printed_values(1) [OF assms(1)] by (simp add: server_settings_def get_boolean_def Let_def)
qed

section \<open>Properties\<close>

text \<open>
  C35.  \<open>LoadConfigs\<close> finds between one and eight cameras in every file that can be opened, and none
  otherwise; their sections are distinct, every one has at most six inference threads, at least two
  capture buffers and positive tracker settings.  \<open>init\<close> makes a well-formed configuration of each,
  with one to six threads and no empty name, and leaves a well-formed one as it is.
\<close>

theorem load_configs_ranges:
  "(file = None \<longleftrightarrow> load_configs file = []) \<and> length (load_configs file) \<le> 8 \<and>
   distinct (map cf_section_name (load_configs file)) \<and>
   list_all loaded_ok (load_configs file) \<and> list_all config_ok (map clamp_config (load_configs file)) \<and>
   clamp_config (clamp_config c) = clamp_config c"
proof -
  have err: "ir_error (ini_reader_file file) < 0 \<longleftrightarrow> file = None" by (rule reader_error)
  have multi: "length (List.map_filter (section_config r d) [0..<8]) \<le> 8"
      "distinct (map cf_section_name (List.map_filter (section_config r d) [0..<8]))"
      "list_all loaded_ok (List.map_filter (section_config r d) [0..<8])" for r d
    using map_filter_sections [where r = r and d = d and js = "[0..<8]"] section_config_ok [of r d]
    by (auto simp: list_all_iff)
  have "(file = None \<longleftrightarrow> load_configs file = []) \<and> length (load_configs file) \<le> 8 \<and>
     distinct (map cf_section_name (load_configs file)) \<and> list_all loaded_ok (load_configs file)"
    using err multi single_config_ok by (auto simp: load_configs_def Let_def)
  then show ?thesis by (simp add: clamp_config_ok clamp_config_id list_all_iff)
qed

end
