(* ===== verification/Capture.thy ===== *)
theory Capture imports Settings "HOL-Library.Word" begin

unbundle bit_operations_syntax

text \<open>
  The camera side of \<open>src/src/transcoder.cc\<close>: DMA buffers from a heap, and a V4L2 capture device
  that is given those buffers.  The kernel is a parameter: its answers to the system calls are
  functions of the call and of the operating-system state, which records the open descriptors, the
  mapped addresses, the buffers a device holds and the number of calls made so far.
\<close>

section \<open>The operating system\<close>

record os =
  os_fds :: "int set"
  os_maps :: "nat set"
  os_queue :: "int \<Rightarrow> nat list"
  os_calls :: nat

text \<open>The part of a \<open>v4l2_format\<close> and of a \<open>v4l2_buffer\<close> that the program sets and reads.\<close>

record v4l2_format =
  ff_type :: int
  ff_width :: "32 word"
  ff_height :: "32 word"
  ff_pixfmt :: "32 word"
  ff_sizeimage :: "32 word"
  ff_num_planes :: nat

record v4l2_buffer =
  vb_type :: int
  vb_index :: "32 word"
  vb_length :: "32 word"
  vb_fd :: int
  vb_bytesused :: "32 word"

record kernel =
  kn_open :: "string \<Rightarrow> os \<Rightarrow> int"
  kn_heap_alloc :: "int \<Rightarrow> nat \<Rightarrow> os \<Rightarrow> int option"
  kn_mmap :: "int \<Rightarrow> nat \<Rightarrow> os \<Rightarrow> nat option"
  kn_querycap :: "int \<Rightarrow> os \<Rightarrow> (32 word \<times> 32 word) option"
  kn_s_fmt :: "int \<Rightarrow> v4l2_format \<Rightarrow> os \<Rightarrow> v4l2_format option"
  kn_reqbufs :: "int \<Rightarrow> 32 word \<Rightarrow> os \<Rightarrow> (32 word) option"
  kn_qbuf :: "int \<Rightarrow> v4l2_buffer \<Rightarrow> os \<Rightarrow> bool"
  kn_streamon :: "int \<Rightarrow> os \<Rightarrow> bool"

text \<open>What the system calls promise: a new descriptor is not open yet, a new mapping neither null nor in use.\<close>

definition kernel_fresh :: "kernel \<Rightarrow> bool" where
  "kernel_fresh k \<longleftrightarrow>
     (\<forall>path os. 0 \<le> kn_open k path os \<longrightarrow> kn_open k path os \<notin> os_fds os) \<and>
     (\<forall>fd n os x. kn_heap_alloc k fd n os = Some x \<longrightarrow> 0 \<le> x \<and> x \<notin> os_fds os) \<and>
     (\<forall>fd n os x. kn_mmap k fd n os = Some x \<longrightarrow> 0 < x \<and> x \<notin> os_maps os)"

definition tick :: "os \<Rightarrow> os" where
  "tick os = os\<lparr>os_calls := os_calls os + 1\<rparr>"

definition sys_open :: "kernel \<Rightarrow> string \<Rightarrow> os \<Rightarrow> int \<times> os" where
  "sys_open k path os = (let fd = kn_open k path os in
     (fd, tick (if fd < 0 then os else os\<lparr>os_fds := insert fd (os_fds os), os_queue := (os_queue os)(fd := [])\<rparr>)))"

definition sys_close :: "int \<Rightarrow> os \<Rightarrow> os" where
  "sys_close fd os = tick (os\<lparr>os_fds := os_fds os - {fd}, os_queue := (os_queue os)(fd := [])\<rparr>)"

section \<open>DMA buffers\<close>

record dma_buffer =
  db_fd :: int
  db_va :: nat
  db_size :: nat

definition no_buffer :: dma_buffer where
  "no_buffer = \<lparr>db_fd = -1, db_va = 0, db_size = 0\<rparr>"

definition dma_buf_alloc :: "kernel \<Rightarrow> string \<Rightarrow> nat \<Rightarrow> os \<Rightarrow> (int \<times> nat) option \<times> os" where
  "dma_buf_alloc k heap_path n os =
     (let (heap_fd, os) = sys_open k heap_path os in
      if heap_fd < 0 then (None, os)
      else case kn_heap_alloc k heap_fd n os of
        None \<Rightarrow> (None, sys_close heap_fd os)
      | Some fd \<Rightarrow>
          (let os = sys_close heap_fd (tick (os\<lparr>os_fds := insert fd (os_fds os)\<rparr>)) in
           case kn_mmap k fd n os of
             None \<Rightarrow> (None, sys_close fd os)
           | Some va \<Rightarrow> (Some (fd, va), tick (os\<lparr>os_maps := insert va (os_maps os)\<rparr>))))"

definition dma_buf_free :: "dma_buffer \<Rightarrow> os \<Rightarrow> os" where
  "dma_buf_free b os =
     (let os = (if db_va b \<noteq> 0 then tick (os\<lparr>os_maps := os_maps os - {db_va b}\<rparr>) else os)
      in if db_fd b \<ge> 0 then sys_close (db_fd b) os else os)"

section \<open>The capture device\<close>

record capture =
  cp_fd :: int
  cp_streaming :: bool
  cp_width :: int
  cp_height :: int
  cp_pixfmt :: "32 word"
  cp_buf_type :: int
  cp_mplane :: bool
  cp_num_planes :: int
  cp_plane0_size :: nat
  cp_buffers :: "dma_buffer list"

definition no_capture :: capture where
  "no_capture = \<lparr>cp_fd = -1, cp_streaming = False, cp_width = 0, cp_height = 0, cp_pixfmt = 0, cp_buf_type = 0,
     cp_mplane = False, cp_num_planes = 0, cp_plane0_size = 0, cp_buffers = []\<rparr>"

text \<open>The constants of \<open>linux/videodev2.h\<close>.\<close>

abbreviation "V4L2_CAP_VIDEO_CAPTURE \<equiv> 0x00000001 :: 32 word"
abbreviation "V4L2_CAP_VIDEO_CAPTURE_MPLANE \<equiv> 0x00001000 :: 32 word"
abbreviation "V4L2_CAP_STREAMING \<equiv> 0x04000000 :: 32 word"
abbreviation "V4L2_CAP_DEVICE_CAPS \<equiv> 0x80000000 :: 32 word"
abbreviation "V4L2_PIX_FMT_YUYV \<equiv> 0x56595559 :: 32 word"
abbreviation "BUF_TYPE_VIDEO_CAPTURE \<equiv> 1 :: int"
abbreviation "BUF_TYPE_VIDEO_CAPTURE_MPLANE \<equiv> 9 :: int"

definition fourcc_to_string :: "32 word \<Rightarrow> string" where
  "fourcc_to_string v = map (\<lambda>n. char_of (unat (drop_bit n v AND 0xFF))) [0, 8, 16, 24]"

definition v4l2_dmabuf_close :: "capture \<Rightarrow> os \<Rightarrow> capture \<times> os" where
  "v4l2_dmabuf_close cap os =
     (let os = (if cp_fd cap \<ge> 0 \<and> cp_streaming cap then tick (os\<lparr>os_queue := (os_queue os)(cp_fd cap := [])\<rparr>) else os);
          os = (if cp_fd cap \<ge> 0 then sys_close (cp_fd cap) os else os);
          os = fold dma_buf_free (cp_buffers cap) os
      in (cap\<lparr>cp_streaming := False, cp_fd := (if cp_fd cap \<ge> 0 then -1 else cp_fd cap), cp_buffers := []\<rparr>, os))"

text \<open>The request of \<open>VIDIOC_QBUF\<close>: a multi-plane buffer carries the plane's descriptor and size.\<close>

definition qbuf_request :: "capture \<Rightarrow> nat \<Rightarrow> v4l2_buffer" where
  "qbuf_request cap index =
     (if cp_mplane cap then
        \<lparr>vb_type = cp_buf_type cap, vb_index = of_nat index, vb_length = of_int (cp_num_planes cap),
         vb_fd = db_fd (cp_buffers cap ! index), vb_bytesused = of_nat (cp_plane0_size cap)\<rparr>
      else
        \<lparr>vb_type = cp_buf_type cap, vb_index = of_nat index, vb_length = of_nat (cp_plane0_size cap),
         vb_fd = db_fd (cp_buffers cap ! index), vb_bytesused = 0\<rparr>)"

definition v4l2_dmabuf_qbuf :: "kernel \<Rightarrow> capture \<Rightarrow> int \<Rightarrow> os \<Rightarrow> int \<times> os" where
  "v4l2_dmabuf_qbuf k cap index os =
     (if cp_fd cap < 0 \<or> index < 0 \<or> index \<ge> int (length (cp_buffers cap)) then (-1, os)
      else if kn_qbuf k (cp_fd cap) (qbuf_request cap (nat index)) os then
        (0, tick (os\<lparr>os_queue := (os_queue os)(cp_fd cap := os_queue os (cp_fd cap) @ [nat index])\<rparr>))
      else (-1, tick os))"

text \<open>The loop that allocates and queues the buffers; every failure closes the capture.\<close>

fun setup_buffers :: "kernel \<Rightarrow> string \<Rightarrow> nat list \<Rightarrow> capture \<Rightarrow> os \<Rightarrow> string option \<times> capture \<times> os" where
  "setup_buffers k heap [] cap os = (None, cap, os)"
| "setup_buffers k heap (i # is) cap os =
     (let b = (cp_buffers cap ! i)\<lparr>db_size := cp_plane0_size cap\<rparr>;
          (r, os) = dma_buf_alloc k heap (cp_plane0_size cap) os in
      case r of
        None \<Rightarrow> (Some ''dma_buf_alloc failed'',
                 v4l2_dmabuf_close (cap\<lparr>cp_buffers := (cp_buffers cap)[i := b]\<rparr>) os)
      | Some (fd, va) \<Rightarrow>
          (let cap = cap\<lparr>cp_buffers := (cp_buffers cap)[i := b\<lparr>db_fd := fd, db_va := va\<rparr>]\<rparr>;
               (q, os) = v4l2_dmabuf_qbuf k cap (int i) os
           in if q \<noteq> 0 then (Some ''VIDIOC_QBUF failed'', v4l2_dmabuf_close cap os)
              else setup_buffers k heap is cap os))"

text \<open>From the capabilities: the buffer type, and whether it has several planes.\<close>

definition buffer_type :: "32 word \<Rightarrow> (int \<times> bool) option" where
  "buffer_type caps =
     (if caps AND V4L2_CAP_VIDEO_CAPTURE_MPLANE \<noteq> 0 then Some (BUF_TYPE_VIDEO_CAPTURE_MPLANE, True)
      else if caps AND V4L2_CAP_VIDEO_CAPTURE \<noteq> 0 then Some (BUF_TYPE_VIDEO_CAPTURE, False) else None)"

text \<open>
  The negotiation with an open device: capabilities, format, number of buffers.  \<open>Inl err\<close> is an early
  return with that message.  The frame rate request (\<open>VIDIOC_S_PARM\<close>) has no effect on the program's
  state, whatever its answer.
\<close>

definition v4l2_negotiate :: "kernel \<Rightarrow> config \<Rightarrow> int \<Rightarrow> os \<Rightarrow> (string + capture) \<times> os" where
  "v4l2_negotiate k c fd os =
     (case kn_querycap k fd os of
        None \<Rightarrow> (Inl ''VIDIOC_QUERYCAP failed'', tick os)
      | Some (capabilities, device_caps) \<Rightarrow>
        (let os = tick os;
             caps = (if capabilities AND V4L2_CAP_DEVICE_CAPS \<noteq> 0 then device_caps else capabilities) in
         if caps AND V4L2_CAP_STREAMING = 0 then (Inl ''device does not support streaming'', os)
         else case buffer_type caps of
           None \<Rightarrow> (Inl ''device has no VIDEO_CAPTURE capability'', os)
         | Some (buf_type, mplane) \<Rightarrow>
           (case kn_s_fmt k fd \<lparr>ff_type = buf_type, ff_width = of_int (cf_width c), ff_height = of_int (cf_height c),
                ff_pixfmt = V4L2_PIX_FMT_YUYV, ff_sizeimage = 0, ff_num_planes = 0\<rparr> os of
              None \<Rightarrow> (Inl ''VIDIOC_S_FMT failed'', tick os)
            | Some fmt \<Rightarrow>
              (if ff_pixfmt fmt \<noteq> V4L2_PIX_FMT_YUYV then
                 (Inl (''camera returned unsupported pixfmt='' @ fourcc_to_string (ff_pixfmt fmt)), tick os)
               else
                 (let os = tick (tick os) in
                  case kn_reqbufs k fd (of_int (max 2 (cf_dma_buffers c))) os of
                    None \<Rightarrow> (Inl ''VIDIOC_REQBUFS failed'', tick os)
                  | Some granted \<Rightarrow>
                    (if unat granted < 2 then (Inl ''VIDIOC_REQBUFS failed'', tick os)
                     else
                       (Inr \<lparr>cp_fd = fd, cp_streaming = False, cp_width = sint (ff_width fmt), cp_height = sint (ff_height fmt),
                             cp_pixfmt = ff_pixfmt fmt, cp_buf_type = buf_type, cp_mplane = mplane,
                             cp_num_planes = (if mplane then int (ff_num_planes fmt) else 1),
                             cp_plane0_size = unat (max (ff_sizeimage fmt) (ff_width fmt * ff_height fmt * 2)),
                             cp_buffers = replicate (unat granted) no_buffer\<rparr>, tick os)))))))"

text \<open>\<open>v4l2_dmabuf_open\<close>: \<open>Some err\<close> is a return of -1 with that message.\<close>

definition v4l2_dmabuf_open :: "kernel \<Rightarrow> config \<Rightarrow> os \<Rightarrow> string option \<times> capture \<times> os" where
  "v4l2_dmabuf_open k c os =
     (let (fd, os) = sys_open k (cf_device_name c) os in
      if fd < 0 then (Some ''open failed'', no_capture, os)
      else
        (let (r, os) = v4l2_negotiate k c fd os in
         case r of
           Inl err \<Rightarrow> (Some err, no_capture, sys_close fd os)
         | Inr cap \<Rightarrow>
           (let (err, cap, os) = setup_buffers k (cf_dma_heap c) [0..<length (cp_buffers cap)] cap os in
            case err of
              Some e \<Rightarrow> (Some e, cap, os)
            | None \<Rightarrow>
              (if kn_streamon k fd os then (None, cap\<lparr>cp_streaming := True\<rparr>, tick os)
               else (Some ''VIDIOC_STREAMON failed'', v4l2_dmabuf_close cap (tick os))))))"

text \<open>
  \<open>v4l2_dmabuf_dqbuf\<close> on the answers of \<open>poll\<close> (its result, whether a negative one is \<open>EINTR\<close>, whether
  \<open>POLLERR\<close> is set) and of \<open>VIDIOC_DQBUF\<close> (the index, or whether the failure is \<open>EAGAIN\<close> or
  \<open>EINTR\<close>).  A buffer that the driver hands out leaves its queue.
\<close>

record poll_answer =
  pa_poll :: int
  pa_interrupted :: bool
  pa_error :: bool
  pa_dqbuf :: "(32 word) option"
  pa_again :: bool

definition v4l2_dmabuf_dqbuf :: "capture \<Rightarrow> poll_answer \<Rightarrow> os \<Rightarrow> int \<times> int \<times> os" where
  "v4l2_dmabuf_dqbuf cap a os =
     (if cp_fd cap < 0 then (-1, -1, os)
      else if pa_poll a = 0 then (0, -1, tick os)
      else if pa_poll a < 0 then (if pa_interrupted a then 0 else -1, -1, tick os)
      else if pa_error a then (-1, -1, tick os)
      else case pa_dqbuf a of
        None \<Rightarrow> (if pa_again a then 0 else -1, -1, tick os)
      | Some index \<Rightarrow>
          (let os = tick (os\<lparr>os_queue := (os_queue os)(cp_fd cap := remove1 (unat index) (os_queue os (cp_fd cap)))\<rparr>) in
           if unat index \<ge> length (cp_buffers cap) then (-1, -1, os) else (1, int (unat index), os)))"

section \<open>Descriptors and mappings\<close>

lemma tick_simps [simp]: "os_fds (tick os) = os_fds os" "os_maps (tick os) = os_maps os" "os_queue (tick os) = os_queue os"
  by (simp_all add: tick_def)

lemma sys_close_simps [simp]:
  "os_fds (sys_close fd os) = os_fds os - {fd}" "os_maps (sys_close fd os) = os_maps os"
  "os_queue (sys_close fd os) = (os_queue os)(fd := [])"
  by (simp_all add: sys_close_def)

lemma sys_open_cases:
  assumes "kernel_fresh k" "sys_open k path os = (fd, os')"
  shows "fd < 0 \<Longrightarrow> os_fds os' = os_fds os" "0 \<le> fd \<Longrightarrow> fd \<notin> os_fds os \<and> os_fds os' = insert fd (os_fds os)"
    "os_maps os' = os_maps os" "0 \<le> fd \<Longrightarrow> os_queue os' fd = []" "x \<in> os_fds os \<Longrightarrow> os_queue os' x = os_queue os x"
  using assms by (auto simp: sys_open_def kernel_fresh_def Let_def split: if_splits)

lemma dma_buf_alloc_cases:
  assumes k: "kernel_fresh k" and a: "dma_buf_alloc k heap n os = (r, os')"
  shows "r = None \<Longrightarrow> os_fds os' = os_fds os \<and> os_maps os' = os_maps os"
    "r = Some (fd, va) \<Longrightarrow> 0 \<le> fd \<and> fd \<notin> os_fds os \<and> os_fds os' = insert fd (os_fds os) \<and>
        0 < va \<and> va \<notin> os_maps os \<and> os_maps os' = insert va (os_maps os)"
    "x \<in> os_fds os \<Longrightarrow> os_queue os' x = os_queue os x"
proof -
  obtain h os1 where o: "sys_open k heap os = (h, os1)" by (cases "sys_open k heap os")
  note so = sys_open_cases [OF k o]
  have "(r = None \<longrightarrow> os_fds os' = os_fds os \<and> os_maps os' = os_maps os) \<and>
     (r = Some (fd, va) \<longrightarrow> 0 \<le> fd \<and> fd \<notin> os_fds os \<and> os_fds os' = insert fd (os_fds os) \<and>
        0 < va \<and> va \<notin> os_maps os \<and> os_maps os' = insert va (os_maps os)) \<and>
     (x \<in> os_fds os \<longrightarrow> os_queue os' x = os_queue os x)"
  proof (cases "h < 0")
    case True
    then show ?thesis using a so o by (auto simp: dma_buf_alloc_def)
  next
    case False
    note h = so(2) [of] False
    show ?thesis
    proof (cases "kn_heap_alloc k h n os1")
      case None
      then show ?thesis using a o so False by (auto simp: dma_buf_alloc_def)
    next
      case (Some f)
      have f: "0 \<le> f" "f \<notin> os_fds os1" using k Some by (auto simp: kernel_fresh_def)
      let ?os2 = "sys_close h (tick (os1\<lparr>os_fds := insert f (os_fds os1)\<rparr>))"
      show ?thesis
      proof (cases "kn_mmap k f n ?os2")
        case None
        then show ?thesis using a o so False Some f by (auto simp: dma_buf_alloc_def Let_def)
      next
        case (Some v)
        have "0 < v" "v \<notin> os_maps ?os2" using k Some unfolding kernel_fresh_def by blast+
        then show ?thesis using a o so False \<open>kn_heap_alloc k h n os1 = Some f\<close> Some f
          by (auto simp: dma_buf_alloc_def Let_def)
      qed
    qed
  qed
  then show "r = None \<Longrightarrow> os_fds os' = os_fds os \<and> os_maps os' = os_maps os"
    "r = Some (fd, va) \<Longrightarrow> 0 \<le> fd \<and> fd \<notin> os_fds os \<and> os_fds os' = insert fd (os_fds os) \<and>
        0 < va \<and> va \<notin> os_maps os \<and> os_maps os' = insert va (os_maps os)"
    "x \<in> os_fds os \<Longrightarrow> os_queue os' x = os_queue os x" by blast+
qed

definition buffer_fds :: "dma_buffer list \<Rightarrow> int set" where
  "buffer_fds bs = {db_fd b | b. b \<in> set bs \<and> 0 \<le> db_fd b}"

definition buffer_maps :: "dma_buffer list \<Rightarrow> nat set" where
  "buffer_maps bs = {db_va b | b. b \<in> set bs \<and> 0 < db_va b}"

lemma buffer_sets_Cons [simp]:
  "buffer_fds [] = {}" "buffer_fds (b # bs) = (if 0 \<le> db_fd b then insert (db_fd b) (buffer_fds bs) else buffer_fds bs)"
  "buffer_maps [] = {}" "buffer_maps (b # bs) = (if 0 < db_va b then insert (db_va b) (buffer_maps bs) else buffer_maps bs)"
  by (auto simp: buffer_fds_def buffer_maps_def)

lemma buffer_sets_update:
  assumes "i < length bs" "db_fd (bs ! i) < 0" "db_va (bs ! i) = 0"
  shows "buffer_fds (bs[i := b]) = (if 0 \<le> db_fd b then insert (db_fd b) (buffer_fds bs) else buffer_fds bs)"
    "buffer_maps (bs[i := b]) = (if 0 < db_va b then insert (db_va b) (buffer_maps bs) else buffer_maps bs)"
  using assms by (induction bs arbitrary: i) (auto split: nat.split)

lemma buffer_sets_none:
  "\<forall>b\<in>set bs. db_fd b < 0 \<and> db_va b = 0 \<Longrightarrow> buffer_fds bs = {} \<and> buffer_maps bs = {}"
  by (fastforce simp: buffer_fds_def buffer_maps_def)

lemma free_buffers:
  "os_fds (fold dma_buf_free bs os) = os_fds os - buffer_fds bs"
  "os_maps (fold dma_buf_free bs os) = os_maps os - buffer_maps bs"
  by (induction bs arbitrary: os) (auto simp: dma_buf_free_def Let_def)

text \<open>What a capture holds on top of the descriptors and mappings that were there before.\<close>

definition holds :: "capture \<Rightarrow> os \<Rightarrow> os \<Rightarrow> bool" where
  "holds cap before now \<longleftrightarrow> 0 \<le> cp_fd cap \<and> cp_fd cap \<notin> os_fds before \<and> cp_fd cap \<notin> buffer_fds (cp_buffers cap) \<and>
     os_fds now = insert (cp_fd cap) (os_fds before \<union> buffer_fds (cp_buffers cap)) \<and>
     buffer_fds (cp_buffers cap) \<inter> os_fds before = {} \<and>
     os_maps now = os_maps before \<union> buffer_maps (cp_buffers cap) \<and> buffer_maps (cp_buffers cap) \<inter> os_maps before = {}"

definition same_ledger :: "os \<Rightarrow> os \<Rightarrow> bool" where
  "same_ledger a b \<longleftrightarrow> os_fds a = os_fds b \<and> os_maps a = os_maps b"

lemma close_releases:
  assumes "holds cap before now"
  shows "same_ledger (snd (v4l2_dmabuf_close cap now)) before"
  using assms by (auto simp: v4l2_dmabuf_close_def same_ledger_def holds_def Let_def free_buffers)

lemma close_idle: "cp_fd cap < 0 \<Longrightarrow> cp_buffers cap = [] \<Longrightarrow> snd (v4l2_dmabuf_close cap os) = os"
  by (simp add: v4l2_dmabuf_close_def)

lemma close_closed: "cp_fd (fst (v4l2_dmabuf_close cap os)) < 0" "cp_buffers (fst (v4l2_dmabuf_close cap os)) = []"
  by (simp_all add: v4l2_dmabuf_close_def Let_def)

text \<open>Filling an empty slot with a new descriptor.\<close>

lemma distinct_filter_update:
  assumes "i < length xs" "\<not> P (xs ! i)" "x \<notin> set xs" "distinct (filter P xs)"
  shows "distinct (filter P (xs[i := x]))"
proof -
  have "distinct (filter P (take i xs @ drop (Suc i) xs))"
    using assms(1,2,4) id_take_nth_drop [OF assms(1)] by (metis append_Nil filter.simps(2) filter_append)
  moreover have "x \<notin> set (take i xs @ drop (Suc i) xs)" using assms(3) by (auto dest: in_set_takeD in_set_dropD)
  ultimately show ?thesis unfolding upd_conv_take_nth_drop [OF assms(1)] by auto
qed

definition buffers_distinct :: "dma_buffer list \<Rightarrow> bool" where
  "buffers_distinct bs \<longleftrightarrow> distinct (filter (\<lambda>x. 0 \<le> x) (map db_fd bs)) \<and> distinct (filter (\<lambda>x. 0 < x) (map db_va bs))"

lemma fill_distinct:
  assumes "i < length bs" "db_fd (bs ! i) < 0" "db_va (bs ! i) = 0" "buffers_distinct bs"
    "0 \<le> db_fd b" "db_fd b \<notin> buffer_fds bs" "0 < db_va b" "db_va b \<notin> buffer_maps bs"
  shows "buffers_distinct (bs[i := b])"
  using assms distinct_filter_update [of i "map db_fd bs" "\<lambda>x. 0 \<le> x" "db_fd b"]
    distinct_filter_update [of i "map db_va bs" "\<lambda>x. 0 < x" "db_va b"]
  by (auto simp: buffers_distinct_def map_update buffer_fds_def buffer_maps_def)

lemma setup_ok:
  assumes k: "kernel_fresh k" and d: "distinct js" "\<forall>j\<in>set js. j < length (cp_buffers cap) \<and> db_fd (cp_buffers cap ! j) < 0 \<and> db_va (cp_buffers cap ! j) = 0"
    and h: "holds cap before os" "buffers_distinct (cp_buffers cap)" and r: "setup_buffers k heap js cap os = (err, cap', os')"
  shows "case err of
      Some e \<Rightarrow> same_ledger os' before \<and> cp_fd cap' < 0 \<and> cp_buffers cap' = []
    | None \<Rightarrow> holds cap' before os' \<and> buffers_distinct (cp_buffers cap') \<and> cap' = cap\<lparr>cp_buffers := cp_buffers cap'\<rparr> \<and>
        length (cp_buffers cap') = length (cp_buffers cap) \<and>
        (\<forall>j<length (cp_buffers cap). if j \<in> set js then 0 \<le> db_fd (cp_buffers cap' ! j) \<and> 0 < db_va (cp_buffers cap' ! j)
           else cp_buffers cap' ! j = cp_buffers cap ! j) \<and>
        os_queue os' (cp_fd cap) = os_queue os (cp_fd cap) @ js"
  using d h r
proof (induction js arbitrary: cap os)
  case Nil
  then show ?case by auto
next
  case (Cons i js)
  let ?b = "(cp_buffers cap ! i)\<lparr>db_size := cp_plane0_size cap\<rparr>"
  have i: "i < length (cp_buffers cap)" "db_fd (cp_buffers cap ! i) < 0" "db_va (cp_buffers cap ! i) = 0" "i \<notin> set js"
    using Cons.prems(1,2) by auto
  obtain r1 os1 where a: "dma_buf_alloc k heap (cp_plane0_size cap) os = (r1, os1)" by (cases "dma_buf_alloc k heap (cp_plane0_size cap) os")
  show ?case
  proof (cases r1)
    case None
    let ?c = "cap\<lparr>cp_buffers := (cp_buffers cap)[i := ?b]\<rparr>"
    have "holds ?c before os1"
      using Cons.prems(3) dma_buf_alloc_cases(1) [OF k a None] buffer_sets_update [OF i(1-3), of ?b] i(2,3)
      by (simp add: holds_def)
    then show ?thesis using Cons.prems(5) a None close_releases [of ?c before os1] close_closed [of ?c os1]
      by (auto simp: Let_def)
  next
    case (Some p)
    obtain fd va where p: "p = (fd, va)" by (cases p)
    let ?b1 = "?b\<lparr>db_fd := fd, db_va := va\<rparr>"
    let ?c = "cap\<lparr>cp_buffers := (cp_buffers cap)[i := ?b1]\<rparr>"
    have al: "0 \<le> fd" "fd \<notin> os_fds os" "os_fds os1 = insert fd (os_fds os)" "0 < va" "va \<notin> os_maps os" "os_maps os1 = insert va (os_maps os)"
      using dma_buf_alloc_cases(2) [OF k a] Some p by auto
    have q0: "os_queue os1 (cp_fd cap) = os_queue os (cp_fd cap)"
      using dma_buf_alloc_cases(3) [OF k a, of "cp_fd cap"] Cons.prems(3) by (simp add: holds_def)
    have bs: "buffer_fds (cp_buffers ?c) = insert fd (buffer_fds (cp_buffers cap))" "buffer_maps (cp_buffers ?c) = insert va (buffer_maps (cp_buffers cap))"
      using buffer_sets_update [OF i(1-3), of ?b1] al by simp_all
    have h1: "holds ?c before os1" using Cons.prems(3) al bs unfolding holds_def by auto
    have "fd \<notin> buffer_fds (cp_buffers cap)" "va \<notin> buffer_maps (cp_buffers cap)" using al Cons.prems(3) by (auto simp: holds_def)
    then have d1: "buffers_distinct (cp_buffers ?c)" using fill_distinct [OF i(1-3) Cons.prems(4), of ?b1] al by simp
    obtain q os2 where qb: "v4l2_dmabuf_qbuf k ?c (int i) os1 = (q, os2)" by (cases "v4l2_dmabuf_qbuf k ?c (int i) os1")
    have led: "os_fds os2 = os_fds os1" "os_maps os2 = os_maps os1"
      and q2: "q = 0 \<Longrightarrow> os_queue os2 (cp_fd cap) = os_queue os1 (cp_fd cap) @ [i]"
      using qb by (auto simp: v4l2_dmabuf_qbuf_def split: if_splits)
    have h2: "holds ?c before os2" using h1 led by (simp add: holds_def)
    show ?thesis
    proof (cases "q = 0")
      case False
      then show ?thesis using Cons.prems(5) a Some p qb close_releases [OF h2] close_closed [of ?c os2]
        by (auto simp: Let_def)
    next
      case True
      have cb: "cp_buffers ?c ! j = (if j = i then ?b1 else cp_buffers cap ! j)" for j using i(1) by simp
      have "distinct js" using Cons.prems(1) by simp
      moreover have "\<forall>j\<in>set js. j < length (cp_buffers ?c) \<and> db_fd (cp_buffers ?c ! j) < 0 \<and> db_va (cp_buffers ?c ! j) = 0"
      proof
        fix j
        assume j: "j \<in> set js"
        then have "i \<noteq> j" using i(4) by auto
        then show "j < length (cp_buffers ?c) \<and> db_fd (cp_buffers ?c ! j) < 0 \<and> db_va (cp_buffers ?c ! j) = 0"
          using Cons.prems(2) j by simp
      qed
      moreover have "setup_buffers k heap js ?c os2 = (err, cap', os')" using Cons.prems(5) a Some p qb True by (simp add: Let_def)
      ultimately have "case err of
          Some e \<Rightarrow> same_ledger os' before \<and> cp_fd cap' < 0 \<and> cp_buffers cap' = []
        | None \<Rightarrow> holds cap' before os' \<and> buffers_distinct (cp_buffers cap') \<and> cap' = ?c\<lparr>cp_buffers := cp_buffers cap'\<rparr> \<and>
            length (cp_buffers cap') = length (cp_buffers ?c) \<and>
            (\<forall>j<length (cp_buffers ?c). if j \<in> set js then 0 \<le> db_fd (cp_buffers cap' ! j) \<and> 0 < db_va (cp_buffers cap' ! j)
               else cp_buffers cap' ! j = cp_buffers ?c ! j) \<and>
            os_queue os' (cp_fd ?c) = os_queue os2 (cp_fd ?c) @ js"
        using Cons.IH [of ?c os2] h2 d1 by blast
      then show ?thesis using cb q0 q2 [OF True] al(1,4) i(4)
        by (cases err) (auto split: if_splits)
    qed
  qed
qed

text \<open>A capture that is ready: every buffer is allocated, mapped and with the driver.\<close>

definition capture_ok :: "capture \<Rightarrow> bool" where
  "capture_ok cap \<longleftrightarrow> 0 \<le> cp_fd cap \<and> cp_streaming cap \<and> cp_pixfmt cap = V4L2_PIX_FMT_YUYV \<and> 2 \<le> length (cp_buffers cap) \<and>
     (\<forall>b\<in>set (cp_buffers cap). 0 \<le> db_fd b \<and> 0 < db_va b) \<and> buffers_distinct (cp_buffers cap)"

lemma negotiate_result:
  assumes "v4l2_negotiate k c fd os = (r, os')"
  shows "os_fds os' = os_fds os \<and> os_maps os' = os_maps os \<and> os_queue os' = os_queue os"
    "r = Inr cap \<Longrightarrow> cp_fd cap = fd \<and> cp_pixfmt cap = V4L2_PIX_FMT_YUYV \<and>
       (\<exists>n\<ge>2. cp_buffers cap = replicate n no_buffer)"
  using assms unfolding v4l2_negotiate_def Let_def
  by (auto split: option.splits prod.splits if_splits)

lemma open_result:
  assumes k: "kernel_fresh k" and r: "v4l2_dmabuf_open k c os = (err, cap, os')"
  shows "case err of
      Some e \<Rightarrow> same_ledger os' os \<and> cp_fd cap < 0 \<and> cp_buffers cap = []
    | None \<Rightarrow> capture_ok cap \<and> holds cap os os' \<and> os_queue os' (cp_fd cap) = [0..<length (cp_buffers cap)]"
proof -
  obtain fd os1 where o: "sys_open k (cf_device_name c) os = (fd, os1)" by (cases "sys_open k (cf_device_name c) os")
  note so = sys_open_cases [OF k o]
  obtain r1 os2 where n: "v4l2_negotiate k c fd os1 = (r1, os2)" by (cases "v4l2_negotiate k c fd os1")
  note ng = negotiate_result [OF n]
  consider "fd < 0" | e where "0 \<le> fd" "r1 = Inl e" | cap1 where "0 \<le> fd" "r1 = Inr cap1" by (cases r1) fastforce+
  then show ?thesis
  proof cases
    case 1
    then show ?thesis using r o so by (auto simp: v4l2_dmabuf_open_def same_ledger_def no_capture_def)
  next
    case (2 e)
    then show ?thesis using r o n so ng by (auto simp: v4l2_dmabuf_open_def same_ledger_def no_capture_def)
  next
    case (3 cap1)
    from ng(2) [OF 3(2)] obtain m where c1: "cp_fd cap1 = fd" "cp_pixfmt cap1 = V4L2_PIX_FMT_YUYV" "2 \<le> m" "cp_buffers cap1 = replicate m no_buffer"
      by blast
    have nb: "buffer_fds (replicate m no_buffer) = {} \<and> buffer_maps (replicate m no_buffer) = {}"
      by (rule buffer_sets_none) (auto simp: no_buffer_def)
    have h: "holds cap1 os os2" using so 3(1) ng(1) c1 nb by (simp add: holds_def)
    have d: "buffers_distinct (cp_buffers cap1)" using c1(4) by (simp add: buffers_distinct_def no_buffer_def filter_replicate)
    obtain err3 cap3 os3 where s: "setup_buffers k (cf_dma_heap c) [0..<m] cap1 os2 = (err3, cap3, os3)" by (metis prod_cases3)
    have "\<forall>j\<in>set [0..<m]. j < length (cp_buffers cap1) \<and> db_fd (cp_buffers cap1 ! j) < 0 \<and> db_va (cp_buffers cap1 ! j) = 0"
      using c1(4) by (simp add: no_buffer_def)
    note st = setup_ok [OF k _ this h d s]
    show ?thesis
    proof (cases err3)
      case (Some e)
      then have "(err, cap, os') = (Some e, cap3, os3)" using r o n 3 s c1(4) by (simp add: v4l2_dmabuf_open_def)
      then show ?thesis using st Some by simp
    next
      case None
      have st: "holds cap3 os os3" "buffers_distinct (cp_buffers cap3)" "cap3 = cap1\<lparr>cp_buffers := cp_buffers cap3\<rparr>"
          "length (cp_buffers cap3) = m" "\<forall>j<m. 0 \<le> db_fd (cp_buffers cap3 ! j) \<and> 0 < db_va (cp_buffers cap3 ! j)"
          "os_queue os3 fd = os_queue os2 fd @ [0..<m]"
        using st None c1 by auto
      have f3: "cp_fd cap3 = fd" "cp_pixfmt cap3 = V4L2_PIX_FMT_YUYV" 
        using arg_cong [OF st(3), of cp_fd] arg_cong [OF st(3), of cp_pixfmt] c1 by simp_all
      have q: "os_queue os3 fd = [0..<m]" using st(6) ng(1) so(4) 3(1) by simp
      show ?thesis
      proof (cases "kn_streamon k fd os3")
        case True
        have "(err, cap, os') = (None, cap3\<lparr>cp_streaming := True\<rparr>, tick os3)"
          using r o n 3 s c1(4) None True by (simp add: v4l2_dmabuf_open_def)
        moreover have "\<forall>b\<in>set (cp_buffers cap3). 0 \<le> db_fd b \<and> 0 < db_va b" using st(4,5) by (auto simp: in_set_conv_nth)
        ultimately show ?thesis using st(1,2,4) f3 q c1(3) 3(1) by (simp add: capture_ok_def holds_def)
      next
        case False
        have "(err, cap, os') = (Some ''VIDIOC_STREAMON failed'', v4l2_dmabuf_close cap3 (tick os3))"
          using r o n 3 s c1(4) None False by (simp add: v4l2_dmabuf_open_def)
        moreover have "holds cap3 os (tick os3)" using st(1) by (simp add: holds_def)
        then have "same_ledger (snd (v4l2_dmabuf_close cap3 (tick os3))) os" by (rule close_releases)
        ultimately show ?thesis using close_closed [of cap3 "tick os3"]
          by (cases "v4l2_dmabuf_close cap3 (tick os3)") simp
      qed
    qed
  qed
qed

section \<open>Acquiring and releasing\<close>

text \<open>
  The contract of everything that opens a device: what it acquires it owns on top of what was there,
  whatever the outcome, and releasing that restores the descriptors and mappings.
\<close>

lemma same_ledger_trans: "same_ledger a b \<Longrightarrow> same_ledger b c \<Longrightarrow> same_ledger a c"
  by (simp add: same_ledger_def)

locale device =
  fixes lawful :: "'k \<Rightarrow> bool"
    and acquire :: "'k \<Rightarrow> 'c \<Rightarrow> os \<Rightarrow> 'a \<times> os"
    and owns :: "'a \<Rightarrow> os \<Rightarrow> os \<Rightarrow> bool"
    and release :: "'a \<Rightarrow> os \<Rightarrow> 'a \<times> os"
  assumes acquire_owns: "lawful k \<Longrightarrow> acquire k c os = (x, os') \<Longrightarrow> owns x os os'"
    and release_restores: "owns x before now \<Longrightarrow> release x now = (x', now') \<Longrightarrow> same_ledger now' before"
begin

lemma tried: "lawful k \<Longrightarrow> acquire k c os = (x, os') \<Longrightarrow> same_ledger (snd (release x os')) os"
  using acquire_owns [of k c os x os'] release_restores [of x os os'] by (cases "release x os'") simp

end

text \<open>What a capture and further buffers hold on top of the descriptors and mappings that were there before.\<close>

definition capture_fds :: "capture \<Rightarrow> int set" where
  "capture_fds cap = (if 0 \<le> cp_fd cap then {cp_fd cap} else {}) \<union> buffer_fds (cp_buffers cap)"

definition ledger :: "capture \<Rightarrow> dma_buffer list \<Rightarrow> os \<Rightarrow> os \<Rightarrow> bool" where
  "ledger cap outs before now \<longleftrightarrow>
     os_fds now = os_fds before \<union> capture_fds cap \<union> buffer_fds outs \<and>
     os_maps now = os_maps before \<union> buffer_maps (cp_buffers cap) \<union> buffer_maps outs \<and>
     capture_fds cap \<inter> os_fds before = {} \<and> buffer_fds outs \<inter> os_fds before = {} \<and> capture_fds cap \<inter> buffer_fds outs = {} \<and>
     buffer_maps (cp_buffers cap) \<inter> os_maps before = {} \<and> buffer_maps outs \<inter> os_maps before = {} \<and>
     buffer_maps (cp_buffers cap) \<inter> buffer_maps outs = {}"

lemma close_ledger:
  assumes "ledger cap outs before now" "v4l2_dmabuf_close cap now = (cap', now')"
  shows "ledger cap' outs before now'"
proof -
  have f: "os_fds now' = os_fds now - capture_fds cap" "os_maps now' = os_maps now - buffer_maps (cp_buffers cap)"
    using assms(2) by (auto simp: v4l2_dmabuf_close_def capture_fds_def free_buffers Let_def split: if_splits)
  have c: "cp_fd cap' < 0" "cp_buffers cap' = []" using close_closed [of cap now] by (simp_all add: assms(2))
  then have "capture_fds cap' = {}" by (simp add: capture_fds_def)
  then show ?thesis using assms(1) c(2) unfolding ledger_def f by auto
qed

lemma open_ledger:
  assumes "kernel_fresh k" "v4l2_dmabuf_open k c os = (err, cap, os')"
  shows "ledger cap [] os os'"
  using open_result [OF assms] by (cases err) (auto simp: ledger_def capture_fds_def holds_def same_ledger_def capture_ok_def)

interpretation camera: device kernel_fresh "\<lambda>k c os. snd (v4l2_dmabuf_open k c os)" "\<lambda>cap before now. ledger cap [] before now" v4l2_dmabuf_close
proof
  show "ledger cap [] os os'" if "kernel_fresh k" "snd (v4l2_dmabuf_open k c os) = (cap, os')" for k c os cap os'
    using open_ledger [OF that(1), of c os "fst (v4l2_dmabuf_open k c os)"] that(2) by (cases "v4l2_dmabuf_open k c os") simp
  show "same_ledger now' before" if "ledger cap [] before now" "v4l2_dmabuf_close cap now = (cap', now')" for cap before now cap' now'
  proof -
    have "cp_fd cap' < 0" "cp_buffers cap' = []" using close_closed [of cap now] by (simp_all add: that(2))
    then show ?thesis using close_ledger [OF that] by (auto simp: ledger_def same_ledger_def capture_fds_def)
  qed
qed

end
