(* ===== verification/ThreadPool.thy ===== *)
theory ThreadPool imports Prelude begin

text \<open>
  \<open>src/inc/ThreadPool.h\<close>: worker threads that wait on a condition variable for tasks.  The steps are
  the critical sections of \<open>queue_mutex\<close>, the execution of a task outside of it, and the delivery of
  a notification, which happens after the section that issues it; a sleeping thread may also wake up
  spuriously.  A task is the ticket of its future.
\<close>

section \<open>State and steps\<close>

text \<open>
  A worker evaluates the predicate of \<open>condition.wait\<close> (\<open>Checking\<close>), sleeps in it, runs a task, or
  has returned.
\<close>

datatype 'j worker = Checking | Sleeping | Working 'j | Exited

record 'j pool =
  pl_tasks :: "'j list"
  pl_workers :: "'j worker list"
  pl_stop :: bool
  pl_notify :: nat
  pl_notify_all :: bool

definition new_pool :: "nat \<Rightarrow> 'j pool" where
  "new_pool threads =
     \<lparr>pl_tasks = [], pl_workers = replicate threads Checking, pl_stop = False, pl_notify = 0, pl_notify_all = False\<rparr>"

definition set_worker :: "nat \<Rightarrow> 'j worker \<Rightarrow> 'j pool \<Rightarrow> 'j pool" where
  "set_worker i w p = p\<lparr>pl_workers := (pl_workers p)[i := w]\<rparr>"

text \<open>The section of the worker loop that waits for a task.\<close>

definition worker_check :: "nat \<Rightarrow> 'j pool \<Rightarrow> 'j pool" where
  "worker_check i p =
     (if \<not> (pl_stop p \<or> pl_tasks p \<noteq> []) then set_worker i Sleeping p
      else if pl_stop p \<and> pl_tasks p = [] then set_worker i Exited p
      else set_worker i (Working (hd (pl_tasks p))) (p\<lparr>pl_tasks := tl (pl_tasks p)\<rparr>))"

definition pool_enqueue :: "'j \<Rightarrow> 'j pool \<Rightarrow> string + 'j pool" where
  "pool_enqueue j p =
     (if pl_stop p then Inl ''enqueue on stopped ThreadPool''
      else Inr (p\<lparr>pl_tasks := pl_tasks p @ [j], pl_notify := pl_notify p + 1\<rparr>))"

text \<open>The destructor: stop, then wake everyone; it returns when all workers have.\<close>

definition pool_stop :: "'j pool \<Rightarrow> 'j pool" where
  "pool_stop p = p\<lparr>pl_stop := True, pl_notify_all := True\<rparr>"

definition pool_joined :: "'j pool \<Rightarrow> bool" where
  "pool_joined p \<longleftrightarrow> list_all (\<lambda>w. w = Exited) (pl_workers p)"

definition wake :: "'j worker \<Rightarrow> 'j worker" where
  "wake w = (if w = Sleeping then Checking else w)"

datatype 'j event = Submit 'j | Close | Take 'j | Finish 'j | Silent | Spurious

inductive pool_step :: "'j pool \<Rightarrow> 'j event \<Rightarrow> 'j pool \<Rightarrow> bool" where
  submit: "pool_enqueue j p = Inr p' \<Longrightarrow> pool_step p (Submit j) p'"
| close: "\<not> pl_stop p \<Longrightarrow> pool_step p Close (pool_stop p)"
| take_task: "i < length (pl_workers p) \<Longrightarrow> pl_workers p ! i = Checking \<Longrightarrow> pl_tasks p = j # js \<Longrightarrow>
    pool_step p (Take j) (worker_check i p)"
| idle: "i < length (pl_workers p) \<Longrightarrow> pl_workers p ! i = Checking \<Longrightarrow> pl_tasks p = [] \<Longrightarrow>
    pool_step p Silent (worker_check i p)"
| finish: "i < length (pl_workers p) \<Longrightarrow> pl_workers p ! i = Working j \<Longrightarrow>
    pool_step p (Finish j) (set_worker i Checking p)"
| notify_one: "i < length (pl_workers p) \<Longrightarrow> pl_workers p ! i = Sleeping \<Longrightarrow> pl_notify p = Suc k \<Longrightarrow>
    pool_step p Silent (set_worker i Checking (p\<lparr>pl_notify := k\<rparr>))"
| notify_none: "Sleeping \<notin> set (pl_workers p) \<Longrightarrow> pl_notify p = Suc k \<Longrightarrow> pool_step p Silent (p\<lparr>pl_notify := k\<rparr>)"
| notify_all: "pl_notify_all p \<Longrightarrow>
    pool_step p Silent (p\<lparr>pl_workers := map wake (pl_workers p), pl_notify_all := False\<rparr>)"
| spurious: "i < length (pl_workers p) \<Longrightarrow> pl_workers p ! i = Sleeping \<Longrightarrow>
    pool_step p Spurious (set_worker i Checking p)"

inductive pool_run :: "nat \<Rightarrow> 'j event list \<Rightarrow> 'j pool \<Rightarrow> bool" for n where
  start: "pool_run n [] (new_pool n)"
| step: "pool_run n es p \<Longrightarrow> pool_step p e p' \<Longrightarrow> pool_run n (es @ [e]) p'"

section \<open>Tasks\<close>

fun submitted :: "'j event list \<Rightarrow> 'j list" where
  "submitted [] = []" | "submitted (Submit j # es) = j # submitted es" | "submitted (_ # es) = submitted es"

fun taken :: "'j event list \<Rightarrow> 'j list" where
  "taken [] = []" | "taken (Take j # es) = j # taken es" | "taken (_ # es) = taken es"

fun finished :: "'j event list \<Rightarrow> 'j list" where
  "finished [] = []" | "finished (Finish j # es) = j # finished es" | "finished (_ # es) = finished es"

lemma event_append [simp]:
  "submitted (es @ fs) = submitted es @ submitted fs" "taken (es @ fs) = taken es @ taken fs"
  "finished (es @ fs) = finished es @ finished fs"
  by (induction es rule: submitted.induct) simp_all

definition running :: "'j pool \<Rightarrow> 'j list" where
  "running p = concat (map (\<lambda>w. case w of Working j \<Rightarrow> [j] | _ \<Rightarrow> []) (pl_workers p))"

lemma mset_running_update:
  assumes "i < length (pl_workers p)"
  shows "mset (running (set_worker i w p)) + (case pl_workers p ! i of Working j \<Rightarrow> {#j#} | _ \<Rightarrow> {#}) =
     mset (running p) + (case w of Working j \<Rightarrow> {#j#} | _ \<Rightarrow> {#})"
proof -
  let ?f = "\<lambda>w. case w of Working j \<Rightarrow> [j] | _ \<Rightarrow> []"
  have "mset (concat (map ?f (ws[i := w]))) + mset (?f (ws ! i)) = mset (concat (map ?f ws)) + mset (?f w)"
    if "i < length ws" for ws :: "'a worker list" using that
    by (induction ws arbitrary: i) (auto split: nat.split)
  from this [OF assms] show ?thesis by (auto simp: running_def set_worker_def split: worker.splits)
qed

lemma running_same [simp]:
  "running (p\<lparr>pl_notify := k\<rparr>) = running p" "running (p\<lparr>pl_tasks := ts\<rparr>) = running p"
  "running (p\<lparr>pl_tasks := ts, pl_notify := k\<rparr>) = running p"
  "running (p\<lparr>pl_workers := map wake (pl_workers p), pl_notify_all := b\<rparr>) = running p"
  "running (p\<lparr>pl_stop := b, pl_notify_all := b'\<rparr>) = running p"
proof -
  have "(case wake w of Working j \<Rightarrow> [j] | _ \<Rightarrow> []) = (case w of Working j \<Rightarrow> [j] | _ \<Rightarrow> [])" for w :: "'a worker"
    by (cases w) (simp_all add: wake_def)
  then show "running (p\<lparr>pl_workers := map wake (pl_workers p), pl_notify_all := b\<rparr>) = running p"
    by (simp add: running_def comp_def)
qed (simp_all add: running_def)

lemma set_worker_fields [simp]:
  "pl_tasks (set_worker i w p) = pl_tasks p" "pl_workers (set_worker i w p) = (pl_workers p)[i := w]"
  "pl_stop (set_worker i w p) = pl_stop p" "pl_notify (set_worker i w p) = pl_notify p"
  "pl_notify_all (set_worker i w p) = pl_notify_all p"
  by (simp_all add: set_worker_def)

text \<open>
  The invariant: tasks are taken in the order of their submission, a taken task runs or has finished,
  a worker returns only when no task is left, and a waiting task is known to an active worker or to
  a notification that is under way.
\<close>

definition active :: "'j worker \<Rightarrow> bool" where
  "active w \<longleftrightarrow> w = Checking \<or> (\<exists>j. w = Working j)"

definition pool_inv :: "nat \<Rightarrow> 'j event list \<Rightarrow> 'j pool \<Rightarrow> bool" where
  "pool_inv n es p \<longleftrightarrow> taken es @ pl_tasks p = submitted es \<and>
     mset (taken es) = mset (finished es) + mset (running p) \<and> length (pl_workers p) = n \<and>
     (Exited \<in> set (pl_workers p) \<longrightarrow> pl_stop p \<and> pl_tasks p = []) \<and>
     (pl_tasks p \<noteq> [] \<and> \<not> pl_stop p \<longrightarrow> (\<exists>w\<in>set (pl_workers p). active w) \<or> 0 < pl_notify p) \<and>
     (pl_stop p \<and> Sleeping \<in> set (pl_workers p) \<longrightarrow> pl_notify_all p)"

lemma new_pool_inv: "pool_inv n [] (new_pool n)"
  by (auto simp: pool_inv_def new_pool_def running_def)

lemma set_update_other: "i < length xs \<Longrightarrow> x \<noteq> y \<Longrightarrow> x \<in> set (xs[i := y]) \<Longrightarrow> x \<in> set xs"
  by (meson insert_iff set_update_subset_insert subsetD)

text \<open>A step after which the worker \<open>i\<close> is active.\<close>

lemma pool_inv_active:
  assumes inv: "pool_inv n es p" and i: "i < length (pl_workers p)" and w: "active w" "pl_workers p' = (pl_workers p)[i := w]"
    and q: "taken es' @ pl_tasks p' = submitted es'" "mset (taken es') = mset (finished es') + mset (running p')"
    and same: "pl_stop p' = pl_stop p" "pl_notify_all p' = pl_notify_all p" "pl_tasks p = [] \<Longrightarrow> pl_tasks p' = []"
  shows "pool_inv n es' p'"
proof -
  have s: "w \<in> set (pl_workers p')" using i w by (simp add: set_update_memI)
  have o: "x \<in> set (pl_workers p)" if "x \<in> set (pl_workers p')" "x = Sleeping \<or> x = Exited" for x
    using that w set_update_other [OF i, of x w] by (auto simp: active_def)
  have l: "length (pl_workers p') = n" using inv w by (simp add: pool_inv_def)
  have e: "Exited \<in> set (pl_workers p') \<Longrightarrow> pl_stop p' \<and> pl_tasks p' = []"
    using inv o [of Exited] same by (simp add: pool_inv_def)
  have n: "pl_stop p' \<and> Sleeping \<in> set (pl_workers p') \<Longrightarrow> pl_notify_all p'"
    using inv o [of Sleeping] same by (simp add: pool_inv_def)
  show ?thesis unfolding pool_inv_def using q s w(1) l e n by blast
qed

lemma pool_step_inv:
  assumes "pool_step p e p'" "pool_inv n es p" "0 < n"
  shows "pool_inv n (es @ [e]) p'"
  using assms(1)
proof (cases rule: pool_step.cases)
  case (submit j)
  then show ?thesis using assms(2) by (auto simp: pool_inv_def pool_enqueue_def split: if_splits)
next
  case close
  then show ?thesis using assms(2) by (auto simp: pool_inv_def pool_stop_def)
next
  case (take_task i j js)
  let ?p = "p\<lparr>pl_tasks := js\<rparr>"
  have p': "p' = set_worker i (Working j) ?p" using take_task by (simp add: worker_check_def)
  have r: "mset (running p') = add_mset j (mset (running p))"
    using mset_running_update [of i ?p "Working j"] take_task by (simp add: p')
  show ?thesis
    by (rule pool_inv_active [OF assms(2) take_task(3), of "Working j"])
       (use r assms(2) take_task(1,5) in \<open>simp_all add: p' active_def pool_inv_def\<close>)
next
  case (idle i)
  show ?thesis
  proof (cases "pl_stop p")
    case True
    have p': "p' = set_worker i Exited p" using idle True by (simp add: worker_check_def)
    have "mset (running p') = mset (running p)" using mset_running_update [of i p Exited] idle by (simp add: p')
    moreover have "Sleeping \<in> set (pl_workers p')  \<Longrightarrow> Sleeping \<in> set (pl_workers p)"
      using set_update_other [of i "pl_workers p" Sleeping Exited] idle by (auto simp: p')
    ultimately show ?thesis using assms(2) idle(1,5) True by (auto simp: pool_inv_def p')
  next
    case False
    have p': "p' = set_worker i Sleeping p" using idle False by (simp add: worker_check_def)
    have "mset (running p') = mset (running p)" using mset_running_update [of i p Sleeping] idle by (simp add: p')
    moreover have "Exited \<in> set (pl_workers p')  \<Longrightarrow> Exited \<in> set (pl_workers p)"
      using set_update_other [of i "pl_workers p" Exited Sleeping] idle by (auto simp: p')
    ultimately show ?thesis using assms(2) idle(1,5) False by (auto simp: pool_inv_def p')
  qed
next
  case (finish i j)
  have "mset (running p') + {#j#} = mset (running p)"
    using mset_running_update [of i p Checking] finish by simp
  then have r: "mset (running p) = add_mset j (mset (running p'))" by simp
  show ?thesis
    by (rule pool_inv_active [OF assms(2) finish(3), of Checking])
       (use r assms(2) finish(1,2) in \<open>simp_all add: active_def pool_inv_def\<close>)
next
  case (notify_one i k)
  have r: "mset (running p') = mset (running p)" using mset_running_update [of i "p\<lparr>pl_notify := k\<rparr>" Checking] notify_one by simp
  show ?thesis
    by (rule pool_inv_active [OF assms(2) notify_one(3), of Checking])
       (use r assms(2) notify_one(1,2) in \<open>simp_all add: active_def pool_inv_def\<close>)
next
  case (notify_none k)
  have "\<exists>w\<in>set (pl_workers p). active w" if t: "pl_tasks p \<noteq> []" "\<not> pl_stop p"
  proof -
    have "length (pl_workers p) = n" using assms(2) by (simp add: pool_inv_def)
    then obtain w where w: "w \<in> set (pl_workers p)" using assms(3) by (cases "pl_workers p") auto
    moreover have "w \<noteq> Sleeping" using w notify_none by auto
    moreover have "w \<noteq> Exited" using w t assms(2) by (auto simp: pool_inv_def)
    ultimately have "active w" unfolding active_def by (meson worker.exhaust)
    with w show ?thesis by blast
  qed
  then show ?thesis using assms(2) notify_none by (auto simp: pool_inv_def)
next
  case notify_all
  have wk: "wake w \<noteq> Sleeping" "wake w = Exited \<longleftrightarrow> w = Exited" "active w \<Longrightarrow> active (wake w)" for w :: "'a worker"
    by (cases w; simp add: wake_def active_def)+
  have "Sleeping \<notin> wake ` set (pl_workers p)" "Exited \<in> wake ` set (pl_workers p) \<longleftrightarrow> Exited \<in> set (pl_workers p)"
    "(\<exists>w\<in>set (pl_workers p). active w) \<Longrightarrow> \<exists>w\<in>set (pl_workers p). active (wake w)"
    using wk by (metis imageE, metis imageE image_eqI, blast)
  then show ?thesis using assms(2) notify_all(1,2) by (auto simp: pool_inv_def)
next
  case (spurious i)
  have r: "mset (running p') = mset (running p)" using mset_running_update [of i p Checking] spurious by simp
  show ?thesis
    by (rule pool_inv_active [OF assms(2) spurious(3), of Checking])
       (use r assms(2) spurious(1,2) in \<open>simp_all add: active_def pool_inv_def\<close>)
qed

lemma pool_run_inv: "pool_run n es p \<Longrightarrow> 0 < n \<Longrightarrow> pool_inv n es p"
  by (induction rule: pool_run.induct) (auto intro: new_pool_inv pool_step_inv)

section \<open>Progress\<close>

text \<open>The work that is left: every step of the pool itself, spurious wake-ups apart, lessens it.\<close>

definition worker_load :: "'j worker \<Rightarrow> nat" where
  "worker_load w = (case w of Working j \<Rightarrow> 2 | Checking \<Rightarrow> 1 | _ \<Rightarrow> 0)"

definition pool_work :: "'j pool \<Rightarrow> nat" where
  "pool_work p = 2 * length (pl_tasks p) + sum_list (map worker_load (pl_workers p)) + 2 * pl_notify p +
     (if pl_notify_all p then length (pl_workers p) + 1 else 0)"

definition internal :: "'j event \<Rightarrow> bool" where
  "internal e \<longleftrightarrow> (\<forall>j. e \<noteq> Submit j) \<and> e \<noteq> Close \<and> e \<noteq> Spurious"

lemma internal_events [simp]: "internal Silent" "internal (Take j)" "internal (Finish j)"
  by (simp_all add: internal_def)

lemma load_update:
  "i < length ws \<Longrightarrow> sum_list (map worker_load (ws[i := w])) + worker_load (ws ! i) = sum_list (map worker_load ws) + worker_load w"
  by (induction ws arbitrary: i) (auto split: nat.split)

lemma load_wake: "sum_list (map worker_load (map wake ws)) \<le> sum_list (map worker_load ws) + length ws"
proof (induction ws)
  case (Cons w ws)
  have "worker_load (wake w) \<le> worker_load w + 1" by (cases w) (simp_all add: wake_def worker_load_def)
  with Cons show ?case by simp
qed simp

lemma pool_step_work:
  assumes "pool_step p e p'" "internal e"
  shows "pool_work p' < pool_work p"
  using assms
proof (cases rule: pool_step.cases)
  case (take_task i j js)
  then show ?thesis using load_update [of i "pl_workers p" "Working j"]
    by (simp add: pool_work_def worker_check_def worker_load_def)
next
  case (idle i)
  then show ?thesis using load_update [of i "pl_workers p" Sleeping] load_update [of i "pl_workers p" Exited]
    by (simp add: pool_work_def worker_check_def worker_load_def)
next
  case (finish i j)
  then show ?thesis using load_update [of i "pl_workers p" Checking]
    by (simp add: pool_work_def worker_load_def)
next
  case (notify_one i k)
  then show ?thesis using load_update [of i "pl_workers p" Checking]
    by (simp add: pool_work_def worker_load_def)
next
  case notify_all
  then show ?thesis using load_wake [of "pl_workers p"] by (simp add: pool_work_def)
qed (auto simp: internal_def pool_work_def)

lemma pool_stuck:
  assumes "pool_inv n es p" "0 < n" "\<nexists>e p'. internal e \<and> pool_step p e p'"
  shows "pl_tasks p = []" "running p = []" "list_all (\<lambda>w. w = (if pl_stop p then Exited else Sleeping)) (pl_workers p)"
proof -
  have no: "\<not> pool_step p e q" if "internal e" for e q
  proof
    assume "pool_step p e q"
    with that have "\<exists>e p'. internal e \<and> pool_step p e p'" by (intro exI conjI)
    with assms(3) show False by (rule notE)
  qed
  note none = no [OF internal_events(1)] no [OF internal_events(2)] no [OF internal_events(3)]
  have idle: "w \<noteq> Checking \<and> (\<forall>j. w \<noteq> Working j)" if w: "w \<in> set (pl_workers p)" for w
  proof -
    obtain i where i: "i < length (pl_workers p)" "pl_workers p ! i = w" using w by (auto simp: in_set_conv_nth)
    have "w \<noteq> Checking"
    proof
      assume "w = Checking"
      then have c: "pl_workers p ! i = Checking" using i by simp
      show False
      proof (cases "pl_tasks p")
        case Nil
        then show False by (rule notE [OF none(1) pool_step.idle [OF i(1) c]])
      next
        case (Cons j js)
        then show False by (rule notE [OF none(2) pool_step.take_task [OF i(1) c]])
      qed
    qed
    moreover have "w \<noteq> Working j" for j
      using pool_step.finish [OF i(1), of j] none(3) i(2) by auto
    ultimately show ?thesis by blast
  qed
  then have na: "\<not> active w" if "w \<in> set (pl_workers p)" for w using that by (auto simp: active_def)
  have quiet: "\<not> pl_notify_all p" using pool_step.notify_all [of p] none(1) by blast
  have "pl_notify p = 0"
  proof (rule ccontr)
    assume "pl_notify p \<noteq> 0"
    then obtain k where k: "pl_notify p = Suc k" by (cases "pl_notify p") auto
    show False
    proof (cases "Sleeping \<in> set (pl_workers p)")
      case True
      then obtain i where "i < length (pl_workers p)" "pl_workers p ! i = Sleeping" by (auto simp: in_set_conv_nth)
      then show False using pool_step.notify_one [of i p k] k none(1) by blast
    qed (use pool_step.notify_none [of p k] k none(1) in blast)
  qed
  then have run: "pl_tasks p \<noteq> [] \<Longrightarrow> pl_stop p" using assms(1) na by (auto simp: pool_inv_def)
  have st: "w = (if pl_stop p then Exited else Sleeping)" if w: "w \<in> set (pl_workers p)" for w
    using idle [OF w] w quiet assms(1) by (cases w) (auto simp: pool_inv_def)
  then show "list_all (\<lambda>w. w = (if pl_stop p then Exited else Sleeping)) (pl_workers p)" by (simp add: list_all_iff)
  have "length (pl_workers p) = n" using assms(1) by (simp add: pool_inv_def)
  then have "pl_workers p \<noteq> []" using assms(2) by (cases "pl_workers p") simp_all
  then have "pl_stop p \<Longrightarrow> Exited \<in> set (pl_workers p)" using st by (cases "pl_workers p") auto
  moreover have "Exited \<in> set (pl_workers p) \<Longrightarrow> pl_tasks p = []" using assms(1) by (simp add: pool_inv_def)
  ultimately show "pl_tasks p = []" using run by (cases "pl_tasks p = []") simp_all
  show "running p = []" using idle by (auto simp: running_def split: worker.split)
qed

section \<open>The contract with the submitting thread\<close>

text \<open>
  What a client of the pool relies on: a server that is not closed takes a task, holds it until it
  has been run, and runs nothing else.
\<close>

locale task_server =
  fixes held :: "'s \<Rightarrow> 'j multiset"
    and closed :: "'s \<Rightarrow> bool"
    and submit :: "'j \<Rightarrow> 's \<Rightarrow> string + 's"
    and advance :: "'s \<Rightarrow> 'j event \<Rightarrow> 's \<Rightarrow> bool"
  assumes submit_open: "\<not> closed s \<Longrightarrow> \<exists>t. submit j s = Inr t \<and> held t = add_mset j (held s) \<and> \<not> closed t"
    and submit_closed: "closed s \<Longrightarrow> \<exists>e. submit j s = Inl e"
    and finish_held: "advance s (Finish j) t \<Longrightarrow> held s = add_mset j (held t) \<and> closed t = closed s"
    and quiet_held: "advance s e t \<Longrightarrow> (\<exists>j. e = Take j) \<or> e = Silent \<or> e = Spurious \<Longrightarrow> held t = held s \<and> closed t = closed s"
begin

lemma submit_ok: "submit j s = Inr t \<Longrightarrow> held t = add_mset j (held s) \<and> \<not> closed s \<and> \<not> closed t"
  using submit_open [of s j] submit_closed [of s j] by (cases "closed s") auto

lemma finish_member: "advance s (Finish j) t \<Longrightarrow> j \<in># held s"
  using finish_held [of s j t] by simp

text \<open>A task that is finished in a run without submissions was held at its start.\<close>

lemma run_held:
  assumes "(\<lambda>s t. \<exists>e. advance s e t \<and> (\<forall>j. e \<noteq> Submit j) \<and> e \<noteq> Close)\<^sup>*\<^sup>* s t"
  shows "held t \<subseteq># held s \<and> closed t = closed s"
  using assms
proof (induction rule: rtranclp_induct)
  case (step t u)
  then obtain e where e: "advance t e u" "\<forall>j. e \<noteq> Submit j" "e \<noteq> Close" by blast
  show ?case
  proof (cases e)
    case (Finish j)
    then show ?thesis using finish_held [of t j u] e(1) step.IH by (auto dest: mset_subset_eq_insertD)
  qed (use quiet_held [of t e u] e step.IH in auto)
qed simp

end



definition pool_bag :: "'j pool \<Rightarrow> 'j multiset" where
  "pool_bag p = mset (pl_tasks p) + mset (running p)"

lemma pool_step_bag:
  assumes "pool_step p e q"
  shows "e = Finish j \<Longrightarrow> pool_bag p = add_mset j (pool_bag q)"
    "(\<exists>j. e = Take j) \<or> e = Silent \<or> e = Spurious \<Longrightarrow> pool_bag q = pool_bag p"
    "e \<noteq> Close \<Longrightarrow> pl_stop q = pl_stop p"
proof -
  have "(case e of Submit j \<Rightarrow> True | Close \<Rightarrow> True | Finish j \<Rightarrow> pool_bag p = add_mset j (pool_bag q) | _ \<Rightarrow> pool_bag q = pool_bag p) \<and>
     (e \<noteq> Close \<longrightarrow> pl_stop q = pl_stop p)"
    using assms
  proof (cases rule: pool_step.cases)
    case (take_task i j js)
    have q: "q = set_worker i (Working j) (p\<lparr>pl_tasks := js\<rparr>)" using take_task by (simp add: worker_check_def)
    show ?thesis using mset_running_update [of i "p\<lparr>pl_tasks := js\<rparr>" "Working j"] take_task(1,3-5)
      by (simp add: q pool_bag_def)
  next
    case (idle i)
    have q: "q = set_worker i (if pl_stop p then Exited else Sleeping) p" using idle by (simp add: worker_check_def)
    show ?thesis using mset_running_update [of i p "if pl_stop p then Exited else Sleeping"] idle(1,3-5)
      by (cases "pl_stop p") (simp_all add: q pool_bag_def)
  next
    case (finish i j)
    then show ?thesis using mset_running_update [of i p Checking] by (simp add: pool_bag_def)
  next
    case (notify_one i k)
    then show ?thesis using mset_running_update [of i "p\<lparr>pl_notify := k\<rparr>" Checking] by (simp add: pool_bag_def)
  next
    case (spurious i)
    then show ?thesis using mset_running_update [of i p Checking] by (simp add: pool_bag_def)
  qed (auto simp: pool_bag_def pool_enqueue_def split: if_splits)
  then show "e = Finish j \<Longrightarrow> pool_bag p = add_mset j (pool_bag q)"
    "(\<exists>j. e = Take j) \<or> e = Silent \<or> e = Spurious \<Longrightarrow> pool_bag q = pool_bag p"
    "e \<noteq> Close \<Longrightarrow> pl_stop q = pl_stop p" by auto
qed

lemma enqueue_bag: "pool_enqueue j p = Inr q \<Longrightarrow> pool_bag q = add_mset j (pool_bag p) \<and> pl_stop q = pl_stop p"
  by (auto simp: pool_enqueue_def pool_bag_def running_def split: if_splits)

interpretation tp: task_server pool_bag pl_stop pool_enqueue pool_step
proof
  fix s t :: "'j pool" and j :: 'j and e
  show "\<exists>t. pool_enqueue j s = Inr t \<and> pool_bag t = add_mset j (pool_bag s) \<and> \<not> pl_stop t" if o: "\<not> pl_stop s"
  proof -
    obtain q where q: "pool_enqueue j s = Inr q" using o by (simp add: pool_enqueue_def)
    with enqueue_bag [OF q] o show ?thesis by auto
  qed
  show "\<exists>e. pool_enqueue j s = Inl e" if "pl_stop s" using that by (simp add: pool_enqueue_def)
  show "pool_bag s = add_mset j (pool_bag t) \<and> pl_stop t = pl_stop s" if "pool_step s (Finish j) t"
    using pool_step_bag(1,3) [OF that] by simp
  show "pool_bag t = pool_bag s \<and> pl_stop t = pl_stop s" if "pool_step s e t" "(\<exists>j. e = Take j) \<or> e = Silent \<or> e = Spurious"
    using pool_step_bag(2,3) [OF that(1)] that(2) by auto
qed

section \<open>Properties\<close>

text \<open>
  C12.  The pool runs every task once, in the order of submission: at any time the tasks taken are the
  first of those submitted and each of them has finished or is running.  The steps of the pool end,
  and when none is left every task has finished - no wake-up is lost - and after the destructor's
  stop every worker has returned, so that \<open>join\<close> returns and no future is left without its value.
\<close>

theorem pool_serves_all:
  assumes "pool_run n es p" "0 < n"
  shows "taken es @ pl_tasks p = submitted es \<and> mset (taken es) = mset (finished es) + mset (running p) \<and>
    (\<forall>e p'. internal e \<and> pool_step p e p' \<longrightarrow> pool_work p' < pool_work p) \<and>
    ((\<nexists>e p'. internal e \<and> pool_step p e p') \<longrightarrow>
       mset (finished es) = mset (submitted es) \<and> (pl_stop p \<longrightarrow> pool_joined p))"
proof -
  have inv: "pool_inv n es p" using pool_run_inv assms by blast
  have "mset (finished es) = mset (submitted es) \<and> (pl_stop p \<longrightarrow> pool_joined p)" if "\<nexists>e p'. internal e \<and> pool_step p e p'"
    using pool_stuck [OF inv assms(2) that] inv by (auto simp: pool_inv_def pool_joined_def)
  moreover have "taken es @ pl_tasks p = submitted es \<and> mset (taken es) = mset (finished es) + mset (running p)"
    using inv by (simp add: pool_inv_def)
  ultimately show ?thesis using pool_step_work by blast
qed

text \<open>One worker, one task, submitted while the worker sleeps, then the destructor.\<close>

theorem pool_serves_all_witness:
  "\<exists>es p. pool_run 1 es (p :: nat pool) \<and> submitted es = [7] \<and> finished es = [7] \<and> pl_stop p \<and> pool_joined p"
proof -
  let ?mk = "\<lambda>ts w s k a. \<lparr>pl_tasks = ts, pl_workers = [w], pl_stop = s, pl_notify = k, pl_notify_all = a\<rparr> :: nat pool"
  note simps = set_worker_def worker_check_def pool_enqueue_def pool_stop_def new_pool_def
  have s: "pool_step (new_pool 1) Silent (?mk [] Sleeping False 0 False)"
    "pool_step (?mk [] Sleeping False 0 False) (Submit 7) (?mk [7] Sleeping False 1 False)"
    "pool_step (?mk [7] Sleeping False 1 False) Silent (?mk [7] Checking False 0 False)"
    "pool_step (?mk [7] Checking False 0 False) (Take 7) (?mk [] (Working 7) False 0 False)"
    "pool_step (?mk [] (Working 7) False 0 False) Close (?mk [] (Working 7) True 0 True)"
    "pool_step (?mk [] (Working 7) True 0 True) (Finish 7) (?mk [] Checking True 0 True)"
    "pool_step (?mk [] Checking True 0 True) Silent (?mk [] Exited True 0 True)"
    "pool_step (?mk [] Exited True 0 True) Silent (?mk [] Exited True 0 False)"
    using pool_step.idle [of 0 "new_pool 1"] pool_step.submit [of 7 "?mk [] Sleeping False 0 False"]
      pool_step.notify_one [of 0 "?mk [7] Sleeping False 1 False" 0] pool_step.take_task [of 0 "?mk [7] Checking False 0 False" 7 "[]"]
      pool_step.close [of "?mk [] (Working 7) False 0 False"] pool_step.finish [of 0 "?mk [] (Working 7) True 0 True" 7]
      pool_step.idle [of 0 "?mk [] Checking True 0 True"] pool_step.notify_all [of "?mk [] Exited True 0 True"]
    by (simp_all add: simps wake_def)
  let ?es = "[Silent, Submit 7, Silent, Take 7, Close, Finish 7, Silent, Silent] :: nat event list"
  have r: "pool_run 1 ?es (?mk [] Exited True 0 False)"
    using pool_run.step [OF pool_run.step [OF pool_run.step [OF pool_run.step [OF pool_run.step [OF pool_run.step
      [OF pool_run.step [OF pool_run.step [OF pool_run.start s(1)] s(2)] s(3)] s(4)] s(5)] s(6)] s(7)] s(8)] by simp
  have "\<nexists>e p'. internal e \<and> pool_step (?mk [] Exited True 0 False) e p'"
    by (auto simp: internal_def elim!: pool_step.cases)
  with pool_serves_all [OF r] have "mset (finished ?es) = mset (submitted ?es)" "pool_joined (?mk [] Exited True 0 False)" by auto
  then show ?thesis using r by (intro exI [of _ ?es] exI [of _ "?mk [] Exited True 0 False"]) simp
qed

end
