(* ===== verification/RkYolo.thy ===== *)
theory RkYolo imports PostProcess Settings "HOL-Library.Word" begin

text \<open>
  \<open>src/src/RkYolo.cc\<close>: one detector.  The neural network, the 2D accelerator (RGA) and OpenCV are
  parameters: the network and the conversions are functions of the frame, and what is drawn with
  RGA and OpenCV is the list of drawing commands in the order of the calls.  The planes that the
  program fills itself are byte arrays.  Pointers are addresses, 0 the null pointer; frames and
  output images are found in a memory under their address.
\<close>

section \<open>The detector\<close>

record yolo =
  yo_model_width :: nat
  yo_model_height :: nat
  yo_model_channel :: nat
  yo_w_stride :: nat
  yo_h_stride :: nat
  yo_scales :: "real list"
  yo_zps :: "int list"
  yo_core_mask :: int
  yo_ctx :: bool
  yo_input_mem :: bool
  yo_output_mems :: "bool list"
  yo_model_data :: bool
  yo_inbuf :: nat
  yo_outbuf :: nat
  yo_outfd :: int
  yo_last :: detect_group

definition new_yolo :: yolo where
  "new_yolo = \<lparr>yo_model_width = 0, yo_model_height = 0, yo_model_channel = 0, yo_w_stride = 0, yo_h_stride = 0,
     yo_scales = [], yo_zps = [], yo_core_mask = 0, yo_ctx = False, yo_input_mem = False, yo_output_mems = [],
     yo_model_data = False, yo_inbuf = 0, yo_outbuf = 0, yo_outfd = -1, yo_last = zero_group\<rparr>"

definition set_buffers :: "nat \<Rightarrow> nat \<Rightarrow> int \<Rightarrow> yolo \<Rightarrow> yolo" where
  "set_buffers inbuf out_buf out_fd y = y\<lparr>yo_inbuf := inbuf, yo_outbuf := out_buf, yo_outfd := out_fd\<rparr>"

definition get_last_detect_result :: "yolo \<Rightarrow> detect_group" where
  "get_last_detect_result y = yo_last y"

section \<open>Initialisation\<close>

text \<open>The answers of the file system and of the network's runtime to \<open>Init\<close>, in the order of the calls.\<close>

record tensor_attr =
  ta_nchw :: bool
  ta_dims :: "nat list"
  ta_w_stride :: nat
  ta_h_stride :: nat
  ta_scale :: real
  ta_zp :: int

record model_env =
  me_opened :: bool
  me_malloc :: bool
  me_seek :: int
  me_init :: int
  me_core_mask :: int
  me_version :: int
  me_io_num :: "(nat \<times> nat) option"
  me_input_attr :: "nat \<Rightarrow> tensor_attr option"
  me_output_attr :: "nat \<Rightarrow> tensor_attr option"
  me_input_mem :: bool
  me_set_input :: int
  me_output_mem :: "nat \<Rightarrow> bool"
  me_set_output :: "nat \<Rightarrow> int"

fun query_attrs :: "(nat \<Rightarrow> tensor_attr option) \<Rightarrow> nat list \<Rightarrow> tensor_attr list option" where
  "query_attrs q [] = Some []"
| "query_attrs q (i # is) = (case q i of None \<Rightarrow> None | Some a \<Rightarrow> map_option ((#) a) (query_attrs q is))"

text \<open>The shape of the input: channels, height and width lie at different dimensions.\<close>

definition model_shape :: "tensor_attr \<Rightarrow> nat \<times> nat \<times> nat" where
  "model_shape a = (if ta_nchw a then (ta_dims a ! 1, ta_dims a ! 2, ta_dims a ! 3)
                    else (ta_dims a ! 3, ta_dims a ! 1, ta_dims a ! 2))"

text \<open>The memory of the outputs: the loop returns at the first one that fails.\<close>

fun setup_outputs :: "model_env \<Rightarrow> nat list \<Rightarrow> int \<Rightarrow> yolo \<Rightarrow> int \<times> yolo" where
  "setup_outputs me [] ret y = (ret, y)"
| "setup_outputs me (i # is) ret y =
     (if \<not> me_output_mem me i then (-1, y)
      else
        (let y = y\<lparr>yo_output_mems := (yo_output_mems y)[i := True]\<rparr> in
         if me_set_output me i < 0 then (-1, y) else setup_outputs me is (me_set_output me i) y))"

text \<open>
  \<open>Init\<close>; the second result is whether the model's file is still open on return.  \<open>fread\<close> returns a
  size, which is never negative.
\<close>

definition yolo_init :: "model_env \<Rightarrow> int \<Rightarrow> yolo \<Rightarrow> int \<times> bool \<times> yolo" where
  "yolo_init me cores y =
     (if \<not> me_opened me then (-1, False, y)
      else if \<not> me_malloc me then (-1, True, y)
      else
        (let y = y\<lparr>yo_model_data := True\<rparr> in
         if me_seek me < 0 then (-1, True, y)
         else if me_init me < 0 then (-1, False, y)
         else
           (let y = y\<lparr>yo_ctx := True, yo_core_mask := cores\<rparr> in
            if me_core_mask me < 0 \<or> me_version me < 0 then (-1, False, y)
            else case me_io_num me of
              None \<Rightarrow> (-1, False, y)
            | Some (n_input, n_output) \<Rightarrow>
              (case query_attrs (me_input_attr me) [0..<n_input] of
                 None \<Rightarrow> (-1, False, y)
               | Some ins \<Rightarrow>
                 (case query_attrs (me_output_attr me) [0..<n_output] of
                    None \<Rightarrow> (-1, False, y)
                  | Some outs \<Rightarrow>
                    (let (channel, height, width) = model_shape (ins ! 0);
                         y = y\<lparr>yo_model_channel := channel, yo_model_height := height, yo_model_width := width,
                               yo_w_stride := (if ta_w_stride (ins ! 0) = 0 then width else ta_w_stride (ins ! 0)),
                               yo_h_stride := (if ta_h_stride (ins ! 0) = 0 then height else ta_h_stride (ins ! 0)),
                               yo_scales := map ta_scale outs, yo_zps := map ta_zp outs\<rparr>
                     in if \<not> me_input_mem me then (-1, False, y)
                        else
                          (let y = y\<lparr>yo_input_mem := True\<rparr> in
                           if me_set_input me < 0 then (-1, False, y)
                           else
                             (let (ret, y) = setup_outputs me [0..<n_output] (me_set_input me)
                                                (y\<lparr>yo_output_mems := replicate n_output False\<rparr>)
                              in (ret, False, y))))))))) "

definition yolo_destroy :: "yolo \<Rightarrow> yolo" where
  "yolo_destroy y = y\<lparr>yo_input_mem := (if yo_ctx y then False else yo_input_mem y), yo_output_mems := [],
     yo_ctx := False, yo_scales := [], yo_zps := [], yo_model_data := False\<rparr>"

section \<open>Inference\<close>

text \<open>
  The accelerator and the network: whether RGA accepts the conversion, its result (the network's
  input), the answer of the memory synchronisation, the network's answer and its three output
  tensors, the frame converted to planar YUV, and the label file.
\<close>

record ('f, 'm) yolo_env =
  ye_imcheck :: "'f \<Rightarrow> yolo \<Rightarrow> bool"
  ye_improcess :: "'f \<Rightarrow> yolo \<Rightarrow> 'm option"
  ye_mem_sync :: "'m \<Rightarrow> int"
  ye_run :: "'m \<Rightarrow> int \<times> 8 word list \<times> 8 word list \<times> 8 word list"
  ye_cvtcolor :: "'f \<Rightarrow> (8 word list) option"
  ye_labels :: "string option"

definition preprocess :: "('f, 'm) yolo_env \<Rightarrow> (nat \<Rightarrow> 'f) \<Rightarrow> yolo \<Rightarrow> int \<times> 'm option" where
  "preprocess env frames y =
     (if yo_inbuf y = 0 \<or> \<not> yo_input_mem y then (-1, None)
      else if \<not> ye_imcheck env (frames (yo_inbuf y)) y then (-1, None)
      else case ye_improcess env (frames (yo_inbuf y)) y of
        None \<Rightarrow> (-1, None)
      | Some m \<Rightarrow> (ye_mem_sync env m, Some m))"

definition convert_output :: "('f, 'm) yolo_env \<Rightarrow> (nat \<Rightarrow> 'f) \<Rightarrow> yolo \<Rightarrow> (nat \<Rightarrow> 8 word list) \<Rightarrow> int \<times> (nat \<Rightarrow> 8 word list)" where
  "convert_output env frames y out =
     (if yo_inbuf y = 0 \<or> yo_outbuf y = 0 then (-1, out)
      else case ye_cvtcolor env (frames (yo_inbuf y)) of
        None \<Rightarrow> (-1, out)
      | Some img \<Rightarrow> (0, out(yo_outbuf y := img)))"

text \<open>
  \<open>Inference\<close>: the return code, the detector, the output images and the label table that all
  detectors share.  \<^const>\<open>None\<close>: the post-processing copies from a null label.
\<close>

definition inference ::
  "('f, 'm) yolo_env \<Rightarrow> int \<Rightarrow> int \<Rightarrow> (nat \<Rightarrow> 'f) \<Rightarrow> yolo \<Rightarrow> (nat \<Rightarrow> 8 word list) \<Rightarrow> label_table
     \<Rightarrow> (int \<times> yolo \<times> (nat \<Rightarrow> 8 word list) \<times> label_table) option" where
  "inference env in_width in_height frames y out labels =
     (let y = y\<lparr>yo_last := zero_group\<rparr>;
          (ret, input) = preprocess env frames y in
      if ret < 0 then Some (ret, y, out, labels)
      else
        (let (ret, o0, o1, o2) = ye_run env (the input) in
         if ret < 0 then Some (ret, y, out, labels)
         else
           (let (ret, out) = convert_output env frames y out in
            if ret < 0 then Some (ret, y, out, labels)
            else
              Option.bind (post_process (ye_labels env) o0 o1 o2 (yo_model_height y) (yo_model_width y) BOX_THRESH NMS_THRESH
                  \<lparr>bx_left = 0, bx_right = 0, bx_top = 0, bx_bottom = 0\<rparr>
                  (real (yo_model_width y) / real_of_int in_width) (real (yo_model_height y) / real_of_int in_height)
                  (yo_zps y) (yo_scales y) labels)
                (\<lambda>(ret, g, labels).
                   if ret < 0 then Some (ret, y, out, labels) else Some (ret, y\<lparr>yo_last := g\<rparr>, out, labels)))))"

section \<open>The overlay\<close>

definition overlay_visible :: "int \<Rightarrow> int \<Rightarrow> detect_result \<Rightarrow> bool" where
  "overlay_visible fw fh det \<longleftrightarrow>
     (let x1 = max 0 (min (fw - 1) (bx_left (re_box det)));
          y1 = max 0 (min (fh - 1) (bx_top (re_box det)));
          x2 = max 0 (min fw (bx_right (re_box det)));
          y2 = max 0 (min fh (bx_bottom (re_box det)))
      in \<not> (x2 \<le> x1 \<or> y2 \<le> y1))"

definition overlay_clip :: "int \<Rightarrow> int \<Rightarrow> detect_result \<Rightarrow> detect_result" where
  "overlay_clip fw fh det = det\<lparr>re_box :=
     \<lparr>bx_left = max 0 (min (fw - 1) (bx_left (re_box det))), bx_right = max 0 (min fw (bx_right (re_box det))),
      bx_top = max 0 (min (fh - 1) (bx_top (re_box det))), bx_bottom = max 0 (min fh (bx_bottom (re_box det)))\<rparr>\<rparr>"

fun overlay_emit :: "int \<Rightarrow> int \<Rightarrow> detect_result list \<Rightarrow> detect_group \<Rightarrow> detect_group" where
  "overlay_emit fw fh [] dst = dst"
| "overlay_emit fw fh (det # dets) dst =
     (if dg_count dst \<ge> OBJ_NUMB_MAX_SIZE then dst
      else if overlay_visible fw fh det then overlay_emit fw fh dets (add_result (overlay_clip fw fh det) dst)
      else overlay_emit fw fh dets dst)"

definition build_overlay_group :: "detect_group \<Rightarrow> int \<Rightarrow> int \<Rightarrow> detect_group" where
  "build_overlay_group src fw fh = overlay_emit fw fh (listed src) (zero_group\<lparr>dg_id := dg_id src\<rparr>)"

record rect =
  rc_x :: int
  rc_y :: int
  rc_w :: int
  rc_h :: int

datatype plane = Y_plane | U_plane | V_plane

text \<open>The calls that write into the output image.\<close>

datatype draw =
    Imfill rect int
  | Sync_start
  | Sync_end
  | Line plane track_point track_point nat nat
  | Circle plane track_point nat nat
  | Rectangle plane rect nat
  | Fill_plane plane rect nat
  | Put_text plane string track_point nat

text \<open>The four edges of a box.\<close>

definition box_edges :: "box_rect \<Rightarrow> rect list" where
  "box_edges b =
     (let thickness = 2; x1 = bx_left b; y1 = bx_top b; x2 = bx_right b; y2 = bx_bottom b in
      if x2 \<le> x1 \<or> y2 \<le> y1 then []
      else filter (\<lambda>r. rc_w r > 0 \<and> rc_h r > 0)
        [\<lparr>rc_x = x1, rc_y = y1, rc_w = x2 - x1, rc_h = min thickness (y2 - y1)\<rparr>,
         \<lparr>rc_x = x1, rc_y = max y1 (y2 - thickness), rc_w = x2 - x1, rc_h = min thickness (y2 - y1)\<rparr>,
         \<lparr>rc_x = x1, rc_y = y1, rc_w = min thickness (x2 - x1), rc_h = y2 - y1\<rparr>,
         \<lparr>rc_x = max x1 (x2 - thickness), rc_y = y1, rc_w = min thickness (x2 - x1), rc_h = y2 - y1\<rparr>])"

definition draw_boxes :: "nat \<Rightarrow> detect_group \<Rightarrow> int \<Rightarrow> int \<Rightarrow> int \<times> draw list" where
  "draw_boxes outbuf g fw fh =
     (if outbuf = 0 \<or> fw \<le> 0 \<or> fh \<le> 0 then (-1, [])
      else (0, concat (map (\<lambda>det. map (\<lambda>r. Imfill r 0x00FF00) (box_edges (re_box det))) (listed g))))"

definition half_point :: "track_point \<Rightarrow> track_point" where
  "half_point p = \<lparr>tp_x = c_div (tp_x p) 2, tp_y = c_div (tp_y p) 2\<rparr>"

definition trajectory_segment :: "detect_result \<Rightarrow> nat \<Rightarrow> draw list" where
  "trajectory_segment det j =
     (let p0 = re_trajectory det ! (j - 1); p1 = re_trajectory det ! j in
      [Line Y_plane p0 p1 150 2, Line U_plane (half_point p0) (half_point p1) 44 1, Line V_plane (half_point p0) (half_point p1) 21 1])"

definition draw_trajectory :: "detect_result \<Rightarrow> draw list" where
  "draw_trajectory det =
     (if re_track_id det \<ge> 0 \<and> re_trajectory_count det > 1 then
        (let last_point = re_trajectory det ! nat (re_trajectory_count det - 1) in
         concat (map (trajectory_segment det) [1..<nat (re_trajectory_count det)]) @
         [Circle Y_plane last_point 3 150, Circle U_plane (half_point last_point) 2 44, Circle V_plane (half_point last_point) 2 21])
      else [])"

definition label_text :: "detect_result \<Rightarrow> string" where
  "label_text det = c_snprintf 256
     (if re_track_id det \<ge> 0
      then ''ID:'' @ show_int (re_track_id det) @ '' '' @ re_name det @ '' '' @ show_tenths (re_prop det * 100) @ ''%''
      else re_name det @ '' '' @ show_tenths (re_prop det * 100) @ ''%'')"

text \<open>
  The label of a box: \<open>text_size\<close> is \<open>cv::getTextSize\<close> for the font, the width, height and base line of
  a text.
\<close>

definition text_anchor :: "int \<times> int \<times> int \<Rightarrow> box_rect \<Rightarrow> int \<Rightarrow> int \<times> int" where
  "text_anchor = (\<lambda>(tw, th, bl) b fw.
     (let baseline = bl + 2; x = bx_left b; y = max (th + baseline + 2) (bx_top b - 6)
      in (if x + tw + 4 > fw then max 0 (fw - tw - 4) else x, y)))"

definition text_background :: "int \<times> int \<times> int \<Rightarrow> int \<times> int \<Rightarrow> int \<Rightarrow> int \<Rightarrow> rect" where
  "text_background = (\<lambda>(tw, th, bl) (x, y) fw fh.
     (let baseline = bl + 2; top = max 0 (y - th - baseline - 2)
      in \<lparr>rc_x = x, rc_y = top, rc_w = min (fw - x) (tw + 4), rc_h = min (fh - top) (th + baseline + 4)\<rparr>))"

definition uv_rect :: "rect \<Rightarrow> rect" where
  "uv_rect r = \<lparr>rc_x = c_div (rc_x r) 2, rc_y = c_div (rc_y r) 2, rc_w = c_div (rc_w r + 1) 2, rc_h = c_div (rc_h r + 1) 2\<rparr>"

definition draw_label :: "(string \<Rightarrow> int \<times> int \<times> int) \<Rightarrow> int \<Rightarrow> int \<Rightarrow> detect_result \<Rightarrow> draw list" where
  "draw_label text_size fw fh det =
     (let label = label_text det; sz = text_size label;
          (x, y) = text_anchor sz (re_box det) fw;
          bg_rect = text_background sz (x, y) fw fh
      in if rc_w bg_rect \<le> 0 \<or> rc_h bg_rect \<le> 0 then []
         else [Rectangle Y_plane bg_rect 20, Fill_plane U_plane (uv_rect bg_rect) 128, Fill_plane V_plane (uv_rect bg_rect) 128,
               Put_text Y_plane label \<lparr>tp_x = x + 2, tp_y = y - 2\<rparr> 235])"

definition draw_text :: "(string \<Rightarrow> int \<times> int \<times> int) \<Rightarrow> nat \<Rightarrow> int \<Rightarrow> detect_group \<Rightarrow> int \<Rightarrow> int \<Rightarrow> int \<times> draw list" where
  "draw_text text_size outbuf outfd g fw fh =
     (if outbuf = 0 \<or> fw \<le> 0 \<or> fh \<le> 0 then (-1, [])
      else if dg_count g = 0 then (0, [])
      else (0, (if outfd > 0 then [Sync_start] else []) @
               concat (map (\<lambda>det. draw_trajectory det @ draw_label text_size fw fh det) (listed g)) @
               (if outfd > 0 then [Sync_end] else [])))"

definition render_overlay :: "(string \<Rightarrow> int \<times> int \<times> int) \<Rightarrow> yolo \<Rightarrow> detect_group \<Rightarrow> int \<Rightarrow> int \<Rightarrow> int \<times> draw list" where
  "render_overlay text_size y g fw fh =
     (let overlay_group = build_overlay_group g fw fh;
          (ret, boxes) = draw_boxes (yo_outbuf y) overlay_group fw fh in
      if ret < 0 then (ret, boxes)
      else
        (let (ret, texts) = draw_text text_size (yo_outbuf y) (yo_outfd y) overlay_group fw fh in
         if ret < 0 then (ret, boxes @ texts) else (0, boxes @ texts)))"

section \<open>Filling a plane\<close>

text \<open>\<open>fillPlaneRect\<close>: the offsets that the loop's \<open>memset\<close>s write, and the write itself.\<close>

definition fill_cells :: "int \<Rightarrow> int \<Rightarrow> int \<Rightarrow> rect \<Rightarrow> int list" where
  "fill_cells stride pw ph r =
     (if stride \<le> 0 \<or> pw \<le> 0 \<or> ph \<le> 0 then []
      else
        (let x0 = max 0 (rc_x r); y0 = max 0 (rc_y r); x1 = min pw (rc_x r + rc_w r); y1 = min ph (rc_y r + rc_h r) in
         if x1 \<le> x0 \<or> y1 \<le> y0 then []
         else concat (map (\<lambda>y. map (\<lambda>x. y * stride + x) [x0..x1 - 1]) [y0..y1 - 1])))"

definition fill_plane_rect :: "nat \<Rightarrow> int \<Rightarrow> int \<Rightarrow> int \<Rightarrow> rect \<Rightarrow> 8 word \<Rightarrow> 8 word list \<Rightarrow> 8 word list" where
  "fill_plane_rect off stride pw ph r v img = fold (\<lambda>i img. img[off + nat i := v]) (fill_cells stride pw ph r) img"

text \<open>Where the planes start in the output image, and their strides and sizes.\<close>

definition plane_offset :: "plane \<Rightarrow> int \<Rightarrow> int \<Rightarrow> int" where
  "plane_offset p fw fh = (case p of Y_plane \<Rightarrow> 0 | U_plane \<Rightarrow> fw * fh | V_plane \<Rightarrow> fw * fh + c_div fw 2 * c_div fh 2)"

definition plane_size :: "plane \<Rightarrow> int \<Rightarrow> int \<Rightarrow> int \<times> int" where
  "plane_size p fw fh = (case p of Y_plane \<Rightarrow> (fw, fh) | _ \<Rightarrow> (c_div fw 2, c_div fh 2))"

section \<open>Lemmas\<close>

text \<open>The overlay group is written by an emitter whose items are the well-formed results.\<close>

interpretation overlay_out: item_emitter "overlay_emit fw fh" "overlay_visible fw fh" "overlay_clip fw fh" result_ok for fw fh
  by unfold_locales (simp_all add: overlay_clip_def result_ok_def)

lemma listed_ok: "group_ok g \<Longrightarrow> \<forall>r\<in>set (listed g). result_ok r"
  by (auto simp: group_ok_def listed_def dest: in_set_takeD)

lemma overlay_listed:
  assumes "group_ok g"
  shows "listed (build_overlay_group g fw fh) = map (overlay_clip fw fh) (take OBJ_NUMB_MAX_SIZE (filter (overlay_visible fw fh) (listed g)))"
    "group_ok (build_overlay_group g fw fh)" "dg_id (build_overlay_group g fw fh) = dg_id g"
  using overlay_out.emit_from_empty [OF listed_ok [OF assms], of fw fh "dg_id g"] by (simp_all add: build_overlay_group_def)

definition box_within :: "int \<Rightarrow> int \<Rightarrow> box_rect \<Rightarrow> bool" where
  "box_within fw fh b \<longleftrightarrow> 0 \<le> bx_left b \<and> bx_left b < bx_right b \<and> bx_right b \<le> fw \<and>
     0 \<le> bx_top b \<and> bx_top b < bx_bottom b \<and> bx_bottom b \<le> fh"

definition rect_within :: "int \<Rightarrow> int \<Rightarrow> rect \<Rightarrow> bool" where
  "rect_within fw fh r \<longleftrightarrow> 0 \<le> rc_x r \<and> 0 < rc_w r \<and> rc_x r + rc_w r \<le> fw \<and> 0 \<le> rc_y r \<and> 0 < rc_h r \<and> rc_y r + rc_h r \<le> fh"

lemma clip_within: "0 < fw \<Longrightarrow> 0 < fh \<Longrightarrow> overlay_visible fw fh det \<Longrightarrow> box_within fw fh (re_box (overlay_clip fw fh det))"
  by (auto simp: overlay_visible_def overlay_clip_def box_within_def Let_def)

lemma overlay_boxes:
  assumes "group_ok g" "0 < fw" "0 < fh" "d \<in> set (listed (build_overlay_group g fw fh))"
  shows "box_within fw fh (re_box d)"
  using assms clip_within [OF assms(2,3)] by (auto simp: overlay_listed(1) dest!: in_set_takeD)

lemma box_edges_within:
  assumes "box_within fw fh b" "r \<in> set (box_edges b)"
  shows "rect_within fw fh r"
  using assms by (auto simp: box_edges_def box_within_def rect_within_def Let_def split: if_splits)

lemma text_within:
  assumes "box_within fw fh b" "0 < rc_w (text_background sz (text_anchor sz b fw) fw fh)"
    "0 < rc_h (text_background sz (text_anchor sz b fw) fw fh)"
  shows "rect_within fw fh (text_background sz (text_anchor sz b fw) fw fh)"
proof -
  obtain tw th bl where sz: "sz = (tw, th, bl)" by (cases sz)
  obtain x y where xy: "text_anchor sz b fw = (x, y)" by (cases "text_anchor sz b fw")
  have "0 \<le> x" using xy assms(1) by (auto simp: sz text_anchor_def box_within_def Let_def split: if_splits)
  then show ?thesis using assms(2,3) unfolding xy unfolding sz text_background_def rect_within_def Let_def by auto
qed

lemma fill_cells_set:
  assumes "0 < stride" "0 < pw" "0 < ph"
  shows "set (fill_cells stride pw ph r) =
    {y * stride + x | x y. max 0 (rc_x r) \<le> x \<and> x < min pw (rc_x r + rc_w r) \<and> max 0 (rc_y r) \<le> y \<and> y < min ph (rc_y r + rc_h r)}"
proof -
  have up: "set [a..b - 1] = {x. a \<le> x \<and> x < b}" for a b :: int by auto
  show ?thesis
  proof (cases "min pw (rc_x r + rc_w r) \<le> max 0 (rc_x r) \<or> min ph (rc_y r + rc_h r) \<le> max 0 (rc_y r)")
    case True
    then show ?thesis using assms by (auto simp: fill_cells_def Let_def)
  next
    case False
    have c: "\<not> (stride \<le> 0 \<or> pw \<le> 0 \<or> ph \<le> 0)" using assms by simp
    have e: "fill_cells stride pw ph r = concat (map (\<lambda>y. map (\<lambda>x. y * stride + x) [max 0 (rc_x r)..min pw (rc_x r + rc_w r) - 1])
        [max 0 (rc_y r)..min ph (rc_y r + rc_h r) - 1])"
      unfolding fill_cells_def Let_def if_not_P [OF c] if_not_P [OF False] ..
    show ?thesis unfolding e set_concat set_map up image_image by blast
  qed
qed

lemma cell_range:
  assumes "0 \<le> (x::int)" "x < pw" "0 \<le> y" "y < ph"
  shows "0 \<le> y * pw + x" "y * pw + x < pw * ph"
proof -
  show "0 \<le> y * pw + x" using assms by simp
  have "y * pw + x < (y + 1) * pw" using assms by (simp add: algebra_simps)
  also have "\<dots> \<le> ph * pw" using assms by (intro mult_right_mono) simp_all
  finally show "y * pw + x < pw * ph" by (simp add: mult.commute)
qed

lemma fill_cells_within: "i \<in> set (fill_cells pw pw ph r) \<Longrightarrow> 0 \<le> i \<and> i < pw * ph"
  using fill_cells_set [of pw pw ph r] cell_range [of _ pw _ ph]
  by (cases "0 < pw \<and> 0 < ph") (auto simp: fill_cells_def)

text \<open>The three planes lie one after the other in a buffer of \<open>width * height * 3 / 2\<close> bytes.\<close>

lemma c_div_two: "0 \<le> n \<Longrightarrow> c_div n 2 = n div 2"
  by (cases "n = 0") (simp_all add: c_div_def)

lemma planes_fit:
  assumes "0 < fw" "0 < fh" "0 \<le> i" "i < fst (plane_size p fw fh) * snd (plane_size p fw fh)"
  shows "0 \<le> plane_offset p fw fh + i" "plane_offset p fw fh + i < c_div (fw * fh * 3) 2"
proof -
  let ?h = "fw div 2 * (fh div 2)"
  have q: "4 * ?h \<le> fw * fh"
  proof -
    have "(2 * (fw div 2)) * (2 * (fh div 2)) \<le> fw * fh" using assms(1,2) by (intro mult_mono) simp_all
    then show ?thesis by (simp add: algebra_simps)
  qed
  have pos: "0 < fw * fh" "0 \<le> ?h" using assms(1,2) by simp_all
  have d: "c_div (fw * fh * 3) 2 = (fw * fh * 3) div 2" by (rule c_div_two) (use assms(1,2) in simp)
  have o: "plane_offset p fw fh + i < fw * fh + 2 * ?h \<or> p = Y_plane \<and> plane_offset p fw fh + i < fw * fh"
    using assms(3,4) pos by (cases p) (simp_all add: plane_offset_def plane_size_def mult.commute [of "fh div 2"] c_div_two [OF less_imp_le [OF assms(1)]] c_div_two [OF less_imp_le [OF assms(2)]])
  show "0 \<le> plane_offset p fw fh + i"
    using assms(3) pos by (cases p) (simp_all add: plane_offset_def c_div_two [OF less_imp_le [OF assms(1)]] c_div_two [OF less_imp_le [OF assms(2)]])
  show "plane_offset p fw fh + i < c_div (fw * fh * 3) 2" unfolding d using o q pos by linarith
qed

lemma fold_set_nth: "k < length img \<Longrightarrow> fold (\<lambda>i img. img[f i := v]) is img ! k = (if k \<in> f ` set is then v else img ! k)"
proof (induction "is" arbitrary: img)
  case (Cons i "is")
  then show ?case by (auto simp: nth_list_update)
qed simp

text \<open>
  What the drawing commands may touch.  \<open>raster (w, h) d\<close> are the pixels, column and row, that OpenCV
  sets when it draws \<open>d\<close> on a matrix of \<open>w\<close> columns and \<open>h\<close> rows.  Its documentation promises that the
  drawing functions clip a figure that is partly or completely outside the matrix.
\<close>

type_synonym raster = "int \<times> int \<Rightarrow> draw \<Rightarrow> (int \<times> int) list"

definition mat_clips :: "raster \<Rightarrow> bool" where
  "mat_clips raster \<longleftrightarrow> (\<forall>w h d x y. (x, y) \<in> set (raster (w, h) d) \<longrightarrow> 0 \<le> x \<and> x < w \<and> 0 \<le> y \<and> y < h)"

text \<open>
  The bytes of the output image that a command writes: OpenCV writes pixel \<open>(x, y)\<close> of the matrix over a
  plane, whose step is the plane's width, and \<open>fillPlaneRect\<close> the cells of its loop.  RGA's fills are
  given by their rectangle.
\<close>

definition mat_bytes :: "raster \<Rightarrow> plane \<Rightarrow> int \<Rightarrow> int \<Rightarrow> draw \<Rightarrow> int list" where
  "mat_bytes raster p fw fh d =
     map (\<lambda>(x, y). plane_offset p fw fh + (y * fst (plane_size p fw fh) + x)) (raster (plane_size p fw fh) d)"

definition draw_bytes :: "raster \<Rightarrow> int \<Rightarrow> int \<Rightarrow> draw \<Rightarrow> int list" where
  "draw_bytes raster fw fh d = (case d of
       Line p _ _ _ _ \<Rightarrow> mat_bytes raster p fw fh d
     | Circle p _ _ _ \<Rightarrow> mat_bytes raster p fw fh d
     | Rectangle p _ _ \<Rightarrow> mat_bytes raster p fw fh d
     | Put_text p _ _ _ \<Rightarrow> mat_bytes raster p fw fh d
     | Fill_plane p r _ \<Rightarrow> map (\<lambda>i. plane_offset p fw fh + i)
         (fill_cells (fst (plane_size p fw fh)) (fst (plane_size p fw fh)) (snd (plane_size p fw fh)) r)
     | _ \<Rightarrow> [])"

definition draw_ok :: "raster \<Rightarrow> int \<Rightarrow> int \<Rightarrow> draw \<Rightarrow> bool" where
  "draw_ok raster fw fh d \<longleftrightarrow>
     (case d of Imfill r _ \<Rightarrow> rect_within fw fh r | Rectangle p r _ \<Rightarrow> p = Y_plane \<and> rect_within fw fh r | _ \<Rightarrow> True) \<and>
     (\<forall>i\<in>set (draw_bytes raster fw fh d). 0 \<le> i \<and> i < c_div (fw * fh * 3) 2)"

lemma mat_bytes_ok:
  assumes "mat_clips raster" "0 < fw" "0 < fh" "i \<in> set (mat_bytes raster p fw fh d)"
  shows "0 \<le> i" "i < c_div (fw * fh * 3) 2"
proof -
  obtain x y where xy: "(x, y) \<in> set (raster (plane_size p fw fh) d)"
    and i: "i = plane_offset p fw fh + (y * fst (plane_size p fw fh) + x)" using assms(4) by (auto simp: mat_bytes_def)
  have "0 \<le> x \<and> x < fst (plane_size p fw fh) \<and> 0 \<le> y \<and> y < snd (plane_size p fw fh)"
    using assms(1) xy unfolding mat_clips_def by (metis prod.collapse)
  then show "0 \<le> i" "i < c_div (fw * fh * 3) 2"
    unfolding i by (auto intro!: planes_fit [OF assms(2,3)] cell_range)
qed

lemma fill_plane_ok:
  assumes "0 < fw" "0 < fh"
  shows "draw_ok raster fw fh (Fill_plane p r v)"
  using planes_fit [OF assms] fill_cells_within by (auto simp: draw_ok_def draw_bytes_def)

definition is_rga :: "draw \<Rightarrow> bool" where
  "is_rga d = (case d of Imfill _ _ \<Rightarrow> True | _ \<Rightarrow> False)"

lemma draw_label_ok:
  assumes "mat_clips raster" "0 < fw" "0 < fh" "box_within fw fh (re_box det)" "d \<in> set (draw_label text_size fw fh det)"
  shows "draw_ok raster fw fh d" "\<not> is_rga d"
proof -
  let ?sz = "text_size (label_text det)"
  let ?bg = "text_background ?sz (text_anchor ?sz (re_box det) fw) fw fh"
  have d: "0 < rc_w ?bg" "0 < rc_h ?bg"
    "d = Rectangle Y_plane ?bg 20 \<or> d = Fill_plane U_plane (uv_rect ?bg) 128 \<or> d = Fill_plane V_plane (uv_rect ?bg) 128 \<or>
     (\<exists>t p v. d = Put_text Y_plane t p v)"
    using assms(5) by (auto simp: draw_label_def Let_def split: prod.splits if_splits)
  show "draw_ok raster fw fh d"
    using d(3) text_within [OF assms(4) d(1,2)] mat_bytes_ok [OF assms(1-3)] fill_plane_ok [OF assms(2,3)]
    by (auto simp: draw_ok_def draw_bytes_def)
  show "\<not> is_rga d" using d(3) by (auto simp: is_rga_def)
qed

lemma draw_trajectory_ok:
  assumes "mat_clips raster" "0 < fw" "0 < fh" "d \<in> set (draw_trajectory det)"
  shows "draw_ok raster fw fh d" "\<not> is_rga d"
proof -
  have d: "(\<exists>p a b v t. d = Line p a b v t) \<or> (\<exists>p c n v. d = Circle p c n v)"
    using assms(4) by (auto simp: draw_trajectory_def trajectory_segment_def Let_def split: if_splits)
  show "draw_ok raster fw fh d" using d mat_bytes_ok [OF assms(1-3)] by (auto simp: draw_ok_def draw_bytes_def)
  show "\<not> is_rga d" using d by (auto simp: is_rga_def)
qed

section \<open>Properties\<close>

text \<open>
  C36.  \<open>RenderOverlay\<close> on a well-formed group and a positive frame size returns 0 and writes inside the
  output image only, whatever sizes OpenCV reports for the texts and wherever the boxes and the
  trajectories are.  All RGA fills come first, each a rectangle inside the frame, and what the CPU
  draws comes after them, as the comment in \<open>RenderOverlay\<close> wants it (README.md gives the opposite
  order).  Lines, circles, backgrounds and texts are drawn by OpenCV on matrices over the three
  planes; given that OpenCV clips to the matrix it is handed, every byte they set, and every byte that
  \<open>fillPlaneRect\<close> sets without OpenCV, is one of the \<open>width * height * 3 / 2\<close> bytes of the image, the
  planes' offsets and steps included.  The labels' backgrounds lie in the luma plane as rectangles.
\<close>

theorem overlay_in_bounds:
  assumes "mat_clips raster" "group_ok g" "yo_outbuf y \<noteq> 0" "0 < fw" "0 < fh"
  shows "\<exists>boxes texts. render_overlay text_size y g fw fh = (0, boxes @ texts) \<and>
    list_all is_rga boxes \<and> list_all (\<lambda>d. \<not> is_rga d) texts \<and> list_all (draw_ok raster fw fh) (boxes @ texts)"
proof -
  let ?g = "build_overlay_group g fw fh"
  note b = overlay_boxes [OF assms(2,4,5)]
  obtain boxes where bx: "draw_boxes (yo_outbuf y) ?g fw fh = (0, boxes)"
    and boxes: "boxes = concat (map (\<lambda>det. map (\<lambda>r. Imfill r 0x00FF00) (box_edges (re_box det))) (listed ?g))"
    using assms by (simp add: draw_boxes_def)
  have 1: "list_all is_rga boxes" "list_all (draw_ok raster fw fh) boxes"
    using box_edges_within [OF b] by (auto simp: boxes list_all_iff is_rga_def draw_ok_def draw_bytes_def)
  obtain texts where tx: "draw_text text_size (yo_outbuf y) (yo_outfd y) ?g fw fh = (0, texts)"
    and texts: "set texts \<subseteq> {Sync_start, Sync_end} \<union> (\<Union>det\<in>set (listed ?g). set (draw_trajectory det) \<union> set (draw_label text_size fw fh det))"
    using assms by (cases "dg_count ?g = 0") (auto simp: draw_text_def)
  have "d \<in> set texts \<Longrightarrow> \<not> is_rga d \<and> draw_ok raster fw fh d" for d
  proof -
    assume "d \<in> set texts"
    then consider "d = Sync_start \<or> d = Sync_end" | det where "det \<in> set (listed ?g)" "d \<in> set (draw_trajectory det)"
      | det where "det \<in> set (listed ?g)" "d \<in> set (draw_label text_size fw fh det)" using texts by auto
    then show "\<not> is_rga d \<and> draw_ok raster fw fh d"
    proof cases
      case 3
      then show ?thesis using draw_label_ok [OF assms(1,4,5) b] by blast
    qed (use draw_trajectory_ok [OF assms(1,4,5)] in \<open>auto simp: is_rga_def draw_ok_def draw_bytes_def\<close>)
  qed
  then have 2: "list_all (\<lambda>d. \<not> is_rga d) texts" "list_all (draw_ok raster fw fh) texts" by (simp_all add: list_all_iff)
  have "render_overlay text_size y g fw fh = (0, boxes @ texts)" using bx tx by (simp add: render_overlay_def)
  then show ?thesis using 1 2 by auto
qed

text \<open>
  The witness: a tracked object whose box and trajectory leave a frame of odd size, drawn by an OpenCV
  that sets the end points of lines, the centres of circles, the corners of rectangles and the start of
  texts where they are inside.
\<close>

definition corner_group :: detect_group where
  "corner_group = add_result (zero_result\<lparr>re_name := ''person'', re_track_id := 7,
     re_box := \<lparr>bx_left = -5, bx_right = 30, bx_top = -2, bx_bottom = 700\<rparr>, re_prop := 1,
     re_trajectory := [\<lparr>tp_x = 12, tp_y = 350\<rparr>, \<lparr>tp_x = -9, tp_y = 349\<rparr>] @ drop 2 (re_trajectory zero_result),
     re_trajectory_count := 2\<rparr>) zero_group"

definition dot_raster :: raster where
  "dot_raster = (\<lambda>(w, h) d. filter (\<lambda>(x, y). 0 \<le> x \<and> x < w \<and> 0 \<le> y \<and> y < h)
     (case d of Line _ p q _ _ \<Rightarrow> [(tp_x p, tp_y p), (tp_x q, tp_y q)] | Circle _ p _ _ \<Rightarrow> [(tp_x p, tp_y p)]
      | Rectangle _ r _ \<Rightarrow> [(rc_x r, rc_y r), (rc_x r + rc_w r - 1, rc_y r + rc_h r - 1)]
      | Put_text _ _ p _ \<Rightarrow> [(tp_x p, tp_y p)] | _ \<Rightarrow> []))"

theorem overlay_in_bounds_witness:
  "\<exists>boxes texts. render_overlay (\<lambda>t. (100, 20, 4)) (set_buffers 1 2 (-1) new_yolo) corner_group 641 481 = (0, boxes @ texts) \<and>
    list_all (draw_ok dot_raster 641 481) (boxes @ texts)"
proof -
  have "group_ok corner_group"
    using zero_group_ok [of 0] zero_result_ok set_update_subset_insert [of "dg_results zero_group"]
    by (fastforce simp: corner_group_def group_ok_def add_result_def result_ok_def result_sizes zero_group_def)
  moreover have "mat_clips dot_raster" by (auto simp: mat_clips_def dot_raster_def)
  ultimately show ?thesis
    using overlay_in_bounds [of dot_raster corner_group "set_buffers 1 2 (-1) new_yolo" 641 481 "\<lambda>t. (100, 20, 4)"]
    by (auto simp: set_buffers_def)
qed

end
