(* ===== verification/Encoder.thy ===== *)
theory Encoder imports Prelude "HOL-Library.Word" begin

text \<open>
  \<open>src/src/RkEncoder.cc\<close>: the H.264 encoder on the MPP library.  The library is a parameter: the
  answers to its calls are part of an \<open>mpp_answer\<close>.  The encoder's record counts the frames,
  packets and buffers it has taken from the library and not given back.
\<close>

section \<open>Parameters and settings\<close>

record encoder_param =
  ep_fmt :: int
  ep_width :: int
  ep_height :: int
  ep_hor_stride :: int
  ep_ver_stride :: int
  ep_frame_size :: int
  ep_fps :: int
  ep_fix_qp :: int

record encoder =
  en_param :: encoder_param
  en_context :: bool
  en_buffer :: bool
  en_group :: bool
  en_frames :: nat
  en_packets :: nat
  en_ext_buffers :: nat
  en_commits :: nat

text \<open>
  The constructor; the two limits are the values of \<open>MPP_FMT_YUV422SP_VU\<close> and \<open>MPP_FMT_YUV422_VYUY\<close>
  in the library's enumeration of formats.
\<close>

definition new_encoder :: "int \<times> int \<Rightarrow> encoder_param \<Rightarrow> encoder" where
  "new_encoder = (\<lambda>(yuv422sp_vu, yuv422_vyuy) param.
     (let p = param\<lparr>ep_hor_stride := ep_width param, ep_ver_stride := ep_height param\<rparr>;
          p = (if ep_fmt p \<le> yuv422sp_vu then p\<lparr>ep_frame_size := ep_hor_stride p * ep_ver_stride p * 2\<rparr>
               else if ep_fmt p \<le> yuv422_vyuy then
                 (let p = p\<lparr>ep_hor_stride := ep_hor_stride p * 2\<rparr> in p\<lparr>ep_frame_size := ep_hor_stride p * ep_ver_stride p\<rparr>)
               else p\<lparr>ep_frame_size := ep_hor_stride p * ep_ver_stride p * 4\<rparr>)
      in \<lparr>en_param = p, en_context = False, en_buffer = False, en_group = False, en_frames = 0, en_packets = 0,
          en_ext_buffers = 0, en_commits = 0\<rparr>))"

text \<open>
  The settings that \<open>init\<close> makes, in order: constant quality, high profile, level 4.0; \<open>fixqp\<close> is the
  library's \<open>MPP_ENC_RC_MODE_FIXQP\<close>.
\<close>

definition encoder_settings :: "int \<Rightarrow> encoder_param \<Rightarrow> (string \<times> int) list" where
  "encoder_settings fixqp p =
     [(''rc:fps_in_flex'', 0), (''rc:fps_in_num'', ep_fps p), (''rc:fps_in_denom'', 1),
      (''rc:fps_out_flex'', 0), (''rc:fps_out_num'', ep_fps p), (''rc:fps_out_denom'', 1),
      (''prep:width'', ep_width p), (''prep:height'', ep_height p),
      (''prep:hor_stride'', ep_hor_stride p), (''prep:ver_stride'', ep_ver_stride p), (''prep:format'', ep_fmt p), (''rc:mode'', fixqp)] @
     map (\<lambda>k. (k, ep_fix_qp p))
      [''rc:qp_init'', ''rc:qp_max'', ''rc:qp_min'', ''rc:qp_max_i'', ''rc:qp_min_i''] @
     [(''rc:qp_ip'', 0)] @
     map (\<lambda>k. (k, ep_fix_qp p)) [''rc:fqp_min_i'', ''rc:fqp_max_i'', ''rc:fqp_min_p'', ''rc:fqp_max_p''] @
     [(''h264:profile'', 100), (''h264:level'', 40), (''h264:cabac_en'', 1), (''h264:cabac_idc'', 0), (''h264:trans8x8'', 1)]"

text \<open>
  \<open>init\<close> on the answers of \<open>mpp_create\<close>, \<open>mpp_init\<close>, \<open>mpp_enc_cfg_init\<close> (with a configuration or not)
  and of the control call that applies the settings.
\<close>

definition encoder_init :: "int \<Rightarrow> int \<Rightarrow> int \<Rightarrow> int \<times> bool \<Rightarrow> ((string \<times> int) list \<Rightarrow> int) \<Rightarrow> encoder \<Rightarrow> int \<times> encoder" where
  "encoder_init fixqp create start cfg_init control e =
     (if create \<noteq> 0 then (-1, e)
      else
        (let e = e\<lparr>en_context := True\<rparr> in
         if start \<noteq> 0 then (-1, e)
         else if fst cfg_init \<noteq> 0 \<or> \<not> snd cfg_init then (-1, e)
         else
           (let e = e\<lparr>en_buffer := True, en_group := True\<rparr> in
            if control (encoder_settings fixqp (en_param e)) \<noteq> 0 then (-1, e) else (0, e))))"

definition encoder_destroy :: "encoder \<Rightarrow> encoder" where
  "encoder_destroy e = e\<lparr>en_group := False, en_buffer := False, en_context := False\<rparr>"

section \<open>Encoding\<close>

text \<open>The library's answers; no packet when the call fails or gives a null one, no header when reading it fails.\<close>

record mpp_answer =
  ma_commit :: bool
  ma_get :: bool
  ma_frame_init :: bool
  ma_put_frame :: bool
  ma_packet :: "(8 word list) option"
  ma_header :: "(8 word list) option"

text \<open>\<open>memcpy\<close> to an offset; \<^const>\<open>None\<close> when it passes the end of the buffer.\<close>

definition write_bytes :: "nat \<Rightarrow> 8 word list \<Rightarrow> 8 word list \<Rightarrow> (8 word list) option" where
  "write_bytes off bytes buf =
     (if off + length bytes \<le> length buf then Some (take off buf @ bytes @ drop (off + length bytes) buf) else None)"

text \<open>The stream header and the packet, one after the other; the packet is released at the end.\<close>

definition copy_packet_to_buffer :: "mpp_answer \<Rightarrow> 8 word list \<Rightarrow> 8 word list \<Rightarrow> encoder \<Rightarrow> (int \<times> 8 word list \<times> encoder) option" where
  "copy_packet_to_buffer a packet outbuf e =
     (case ma_header a of
        None \<Rightarrow> Some (-1, outbuf, e)
      | Some header \<Rightarrow>
          Option.bind (write_bytes 0 header outbuf) (\<lambda>outbuf.
          map_option (\<lambda>outbuf. (int (length header + length packet), outbuf, e\<lparr>en_packets := en_packets e - 1\<rparr>))
            (write_bytes (length header) packet outbuf)))"

definition release_ext :: "encoder \<Rightarrow> encoder" where
  "release_ext e = e\<lparr>en_ext_buffers := en_ext_buffers e - 1, en_commits := 0\<rparr>"

definition encode_dmabuf :: "mpp_answer \<Rightarrow> int \<Rightarrow> nat \<Rightarrow> 8 word list \<Rightarrow> encoder \<Rightarrow> (int \<times> 8 word list \<times> encoder) option" where
  "encode_dmabuf a dma_fd dma_ptr outbuf e =
     (if dma_fd < 0 \<or> dma_ptr = 0 \<or> \<not> en_group e then Some (-1, outbuf, e)
      else if \<not> ma_commit a then Some (-1, outbuf, e)
      else
        (let e = e\<lparr>en_commits := en_commits e + 1\<rparr> in
         if \<not> ma_get a then Some (-1, outbuf, e\<lparr>en_commits := 0\<rparr>)
         else
           (let e = e\<lparr>en_ext_buffers := en_ext_buffers e + 1\<rparr> in
            if \<not> ma_frame_init a then Some (-1, outbuf, release_ext e)
            else
              (let e = e\<lparr>en_frames := en_frames e + 1\<rparr>;
                   fail = Some (-1, outbuf, release_ext (e\<lparr>en_frames := en_frames e - 1\<rparr>)) in
               if \<not> ma_put_frame a then fail
               else case ma_packet a of
                 None \<Rightarrow> fail
               | Some packet \<Rightarrow>
                   map_option (\<lambda>(len, outbuf, e). (len, outbuf, release_ext (e\<lparr>en_frames := en_frames e - 1\<rparr>)))
                     (copy_packet_to_buffer a packet outbuf (e\<lparr>en_packets := en_packets e + 1\<rparr>))))))"

text \<open>\<open>encode\<close> copies the frame into the encoder's own buffer.\<close>

definition encode :: "mpp_answer \<Rightarrow> 8 word list \<Rightarrow> encoder \<Rightarrow> (int \<times> 8 word list \<times> encoder) option" where
  "encode a outbuf e =
     (if \<not> ma_frame_init a then Some (-1, outbuf, e)
      else
        (let e = e\<lparr>en_frames := en_frames e + 1\<rparr> in
         if \<not> ma_put_frame a then Some (-1, outbuf, e)
         else case ma_packet a of
           None \<Rightarrow> Some (-1, outbuf, e\<lparr>en_frames := en_frames e - 1\<rparr>)
         | Some packet \<Rightarrow>
             map_option (\<lambda>(len, outbuf, e). (len, outbuf, e\<lparr>en_frames := en_frames e - 1\<rparr>))
               (copy_packet_to_buffer a packet outbuf (e\<lparr>en_packets := en_packets e + 1\<rparr>))))"

definition startCode3 :: "8 word list \<Rightarrow> bool" where
  "startCode3 buf \<longleftrightarrow> buf ! 0 = 0 \<and> buf ! 1 = 0 \<and> buf ! 2 = 1"

definition startCode4 :: "8 word list \<Rightarrow> bool" where
  "startCode4 buf \<longleftrightarrow> buf ! 0 = 0 \<and> buf ! 1 = 0 \<and> buf ! 2 = 0 \<and> buf ! 3 = 1"

section \<open>Lemmas\<close>

text \<open>
  \<open>encode_dmabuf\<close> gives back what it takes on every path but one: when the header cannot be read the
  packet is kept.
\<close>

definition clean :: "encoder \<Rightarrow> bool" where
  "clean e \<longleftrightarrow> en_frames e = 0 \<and> en_ext_buffers e = 0 \<and> en_commits e = 0"

lemma write_bytes_Some:
  "write_bytes off bytes buf = Some buf' \<Longrightarrow> length buf' = length buf \<and> take (length bytes) (drop off buf') = bytes \<and> take off buf' = take off buf"
  by (auto simp: write_bytes_def split: if_splits)

lemma copy_packet_Some:
  assumes "copy_packet_to_buffer a packet outbuf e = Some (len, outbuf', e')"
  shows "length outbuf' = length outbuf" "len \<noteq> -1 \<Longrightarrow> 0 \<le> len \<and> nat len \<le> length outbuf \<and>
      (\<exists>header. ma_header a = Some header \<and> take (nat len) outbuf' = header @ packet)"
    "len = -1 \<Longrightarrow> ma_header a = None \<and> outbuf' = outbuf"
    "en_packets e' = (if ma_header a = None then en_packets e else en_packets e - 1)"
    "e'\<lparr>en_packets := n\<rparr> = e\<lparr>en_packets := n\<rparr>"
  using assms by (auto simp: copy_packet_to_buffer_def write_bytes_def bind_eq_Some_conv split: option.splits if_splits)

lemma encode_dmabuf_Some:
  assumes "encode_dmabuf a fd ptr outbuf e = Some (len, outbuf', e')"
  shows "length outbuf' = length outbuf" "len = -1 \<or> 0 \<le> len \<and> nat len \<le> length outbuf"
    "clean e \<Longrightarrow> clean e'" "en_group e' = en_group e" "en_param e' = en_param e"
    "en_packets e' = (if 0 \<le> fd \<and> ptr \<noteq> 0 \<and> en_group e \<and> ma_commit a \<and> ma_get a \<and> ma_frame_init a \<and> ma_put_frame a \<and> ma_packet a \<noteq> None \<and> ma_header a = None
       then en_packets e + 1 else en_packets e)"
  using assms
  by (auto simp: encode_dmabuf_def copy_packet_to_buffer_def write_bytes_def bind_eq_Some_conv clean_def release_ext_def Let_def
      split: option.splits if_splits)

end
