(* ===== verification/Pipeline.thy ===== *)
theory Pipeline imports Capture ThreadPool RkYolo Encoder ByteWrapper DeepWrapper begin

text \<open>
  \<open>TransCoder::run\<close> of \<open>src/src/transcoder.cc\<close>: the loop that captures frames, hands them to the
  inference threads, and tracks, draws and encodes the results in the order of capture.  The main
  thread and the workers of the pool run interleaved: a step is an iteration of the main loop up to
  the point where it waits for a future, the rest of the iteration once the future is there, a step
  of the pool, or the inference that ends a task.
\<close>

section \<open>State\<close>

datatype tracker = No_tracker | Byte_tracker byte_wrapper | Deep_tracker deep_wrapper

text \<open>A task is the number of its job and the slot of its detector.\<close>

type_synonym task = "nat \<times> nat"

record job =
  jb_ticket :: nat
  jb_slot :: nat
  jb_input_size :: int
  jb_capture_index :: nat

text \<open>
  Where the main thread is: at the head of the loop, waiting for the future of a job that it has
  taken from the queue, draining the queue after the stop, waiting there, at the end; or a memory
  error has happened.
\<close>

datatype phase = Looping | Waiting job | Draining | Drain_waiting job | Ended | Fault

record 'p pipe =
  pp_config :: config
  pp_capture :: capture
  pp_outs :: "dma_buffer list"
  pp_yolos :: "yolo list"
  pp_cur_yolo :: nat
  pp_pending :: "job list"
  pp_pool :: "task pool"
  pp_futures :: "nat \<Rightarrow> int option"
  pp_frames :: "nat \<Rightarrow> 'p"
  pp_images :: "nat \<Rightarrow> 8 word list"
  pp_labels :: label_table
  pp_tracker :: tracker
  pp_ids :: int
  pp_encoder :: encoder
  pp_encoded :: "8 word list list"
  pp_encode_data :: "8 word list"
  pp_frame_size :: int
  pp_callback :: bool
  pp_sent :: "8 word list list"
  pp_stop :: bool
  pp_phase :: phase
  pp_os :: os
  pp_log :: "(nat \<times> 'p) list"

text \<open>
  The parameters: the network and the drawing operations, what the encoder answers to the images it
  has been given so far, the trackers' parameters and the kernel.  \<open>pp_log\<close> is a record of the frames
  captured so far with their buffers; the program does not keep it.
\<close>

record ('p, 'm) pipe_env =
  pv_yolo :: "('p, 'm) yolo_env"
  pv_text :: "string \<Rightarrow> int \<times> int \<times> int"
  pv_paint :: "draw list \<Rightarrow> 8 word list \<Rightarrow> 8 word list"
  pv_mpp :: "8 word list list \<Rightarrow> mpp_answer"
  pv_solve :: "mat \<Rightarrow> mat \<Rightarrow> mat"
  pv_deep :: "'p deep_env"
  pv_kernel :: kernel

abbreviation threads :: "'p pipe \<Rightarrow> nat" where
  "threads s \<equiv> nat (cf_rknn_thread (pp_config s))"

section \<open>The main thread\<close>

definition requeue :: "('p, 'm) pipe_env \<Rightarrow> job \<Rightarrow> 'p pipe \<Rightarrow> 'p pipe" where
  "requeue env j s = s\<lparr>pp_os := snd (v4l2_dmabuf_qbuf (pv_kernel env) (pp_capture s) (int (jb_capture_index j)) (pp_os s))\<rparr>"

text \<open>
  An iteration with the answers of the driver.  A frame goes to the next detector in turn; when there
  are as many jobs as threads, the oldest one is awaited.
\<close>

definition submit_frame :: "nat \<Rightarrow> nat \<Rightarrow> 'p pipe \<Rightarrow> 'p pipe" where
  "submit_frame slot index s =
     (let y = set_buffers (db_va (cp_buffers (pp_capture s) ! index)) (db_va (pp_outs s ! slot)) (db_fd (pp_outs s ! slot)) (pp_yolos s ! slot);
          j = \<lparr>jb_ticket = length (pp_log s), jb_slot = slot,
               jb_input_size = c_div (cf_width (pp_config s) * cf_height (pp_config s) * 3) 2, jb_capture_index = index\<rparr>
      in case pool_enqueue (length (pp_log s), slot) (pp_pool s) of
           Inl _ \<Rightarrow> s\<lparr>pp_phase := Fault\<rparr>
         | Inr q \<Rightarrow>
             s\<lparr>pp_yolos := (pp_yolos s)[slot := y], pp_cur_yolo := pp_cur_yolo s + 1, pp_frame_size := 0, pp_pool := q,
               pp_pending := pp_pending s @ [j],
               pp_log := pp_log s @ [(index, pp_frames s (db_va (cp_buffers (pp_capture s) ! index)))]\<rparr>)"

definition await_oldest :: "'p pipe \<Rightarrow> 'p pipe" where
  "await_oldest s =
     (if length (pp_pending s) \<ge> threads s
      then s\<lparr>pp_phase := Waiting (hd (pp_pending s)), pp_pending := tl (pp_pending s)\<rparr> else s)"

definition on_capture :: "('p, 'm) pipe_env \<Rightarrow> poll_answer \<Rightarrow> 'p \<Rightarrow> 'p pipe \<Rightarrow> 'p pipe" where
  "on_capture env a px s =
     (let s = (if pp_cur_yolo s \<ge> threads s then s\<lparr>pp_cur_yolo := 0\<rparr> else s);
          (ret, index, os) = v4l2_dmabuf_dqbuf (pp_capture s) a (pp_os s);
          s = s\<lparr>pp_os := os\<rparr> in
      if ret = 1 then
        (if index < 0 \<or> index \<ge> int (length (cp_buffers (pp_capture s))) then s
         else let i = nat index; va = db_va (cp_buffers (pp_capture s) ! i);
             s = s\<lparr>pp_frames := (pp_frames s)(va := px)\<rparr> in
         if va = 0 then
           s\<lparr>pp_os := snd (v4l2_dmabuf_qbuf (pv_kernel env) (pp_capture s) index (pp_os s))\<rparr>
         else if pp_cur_yolo s \<ge> length (pp_yolos s) \<or> pp_cur_yolo s \<ge> length (pp_outs s) then s\<lparr>pp_phase := Fault\<rparr>
         else await_oldest (submit_frame (pp_cur_yolo s) i s))
      else s)"

definition track_group :: "('p, 'm) pipe_env \<Rightarrow> 'p \<Rightarrow> config \<Rightarrow> detect_group \<Rightarrow> tracker \<times> int \<Rightarrow> (detect_group \<times> tracker \<times> int) option" where
  "track_group env px c g = (\<lambda>(t, ids). case t of
       No_tracker \<Rightarrow> Some (g, No_tracker, ids)
     | Byte_tracker w \<Rightarrow> map_option (\<lambda>(g, w, ids). (g, Byte_tracker w, ids)) (byte_wrapper_update (pv_solve env) g (w, ids))
     | Deep_tracker w \<Rightarrow> map_option (\<lambda>(g, w). (g, Deep_tracker w, ids))
         (deep_wrapper_update (pv_deep env) (Some px) (cf_width c) (cf_height c) g w))"

text \<open>
  The image of a finished job: the group is tracked and drawn, the capture buffer goes back to the
  driver.  The result says whether the image is to be encoded.
\<close>

definition render_job :: "('p, 'm) pipe_env \<Rightarrow> job \<Rightarrow> 'p pipe \<Rightarrow> (bool \<times> 'p pipe) option" where
  "render_job env j s =
     (let c = pp_config s; y = pp_yolos s ! jb_slot j;
          px = pp_frames s (db_va (cp_buffers (pp_capture s) ! jb_capture_index j)) in
      map_option (\<lambda>(g, t, ids).
          (let s = s\<lparr>pp_tracker := t, pp_ids := ids\<rparr>;
               (ret, cmds) = render_overlay (pv_text env) y g (cf_width c) (cf_height c);
               s = s\<lparr>pp_images := (pp_images s)(yo_outbuf y := pv_paint env cmds (pp_images s (yo_outbuf y)))\<rparr>
           in (ret = 0, requeue env j s)))
        (track_group env px c (get_last_detect_result y) (pp_tracker s, pp_ids s)))"

definition encode_job :: "('p, 'm) pipe_env \<Rightarrow> job \<Rightarrow> 'p pipe \<Rightarrow> 'p pipe option" where
  "encode_job env j s =
     (let b = pp_outs s ! jb_slot j;
          images = pp_encoded s @ [pp_images s (db_va b)] in
      map_option (\<lambda>(len, data, e). s\<lparr>pp_encoded := images, pp_frame_size := len, pp_encode_data := data, pp_encoder := e\<rparr>)
        (encode_dmabuf (pv_mpp env images) (db_fd b) (db_va b) (pp_encode_data s) (pp_encoder s)))"

text \<open>
  The call of the callback with a vector of the bytes from the end of the start code to the frame's
  size; a range whose end lies before its begin is a memory error.
\<close>

definition send_frame :: "'p pipe \<Rightarrow> 'p pipe" where
  "send_frame s =
     (let startCode = (if startCode3 (pp_encode_data s) then 3 else 4) in
      if pp_frame_size s < int startCode then s\<lparr>pp_phase := Fault\<rparr>
      else s\<lparr>pp_sent := pp_sent s @ [take (nat (pp_frame_size s) - startCode) (drop startCode (pp_encode_data s))]\<rparr>)"

text \<open>The rest of an iteration, with the value of the future; in the loop and in the final draining.\<close>

definition finish_main :: "('p, 'm) pipe_env \<Rightarrow> job \<Rightarrow> int \<Rightarrow> 'p pipe \<Rightarrow> 'p pipe" where
  "finish_main env j infer_ret s =
     (let s = s\<lparr>pp_phase := Looping\<rparr> in
      if infer_ret \<noteq> 0 then requeue env j s
      else case render_job env j s of
        None \<Rightarrow> s\<lparr>pp_phase := Fault\<rparr>
      | Some (ok, s) \<Rightarrow>
          (if \<not> ok then s
           else case encode_job env j s of
             None \<Rightarrow> s\<lparr>pp_phase := Fault\<rparr>
           | Some s \<Rightarrow> if pp_callback s \<and> pp_frame_size s \<noteq> 0 then send_frame s else s))"

definition finish_drain :: "('p, 'm) pipe_env \<Rightarrow> job \<Rightarrow> int \<Rightarrow> 'p pipe \<Rightarrow> 'p pipe" where
  "finish_drain env j infer_ret s =
     (let s = s\<lparr>pp_phase := Draining\<rparr> in
      if infer_ret \<noteq> 0 then requeue env j s
      else case render_job env j s of
        None \<Rightarrow> s\<lparr>pp_phase := Fault\<rparr>
      | Some (ok, s) \<Rightarrow>
          (if \<not> ok then s
           else case encode_job env j s of
             None \<Rightarrow> s\<lparr>pp_phase := Fault\<rparr>
           | Some s \<Rightarrow> if pp_frame_size s \<le> 0 then s else if pp_callback s then send_frame s else s))"

definition drain_step :: "'p pipe \<Rightarrow> 'p pipe" where
  "drain_step s =
     (case pp_pending s of
        j # js \<Rightarrow> s\<lparr>pp_phase := Drain_waiting j, pp_pending := js\<rparr>
      | [] \<Rightarrow> (let (cap, os) = v4l2_dmabuf_close (pp_capture s) (pp_os s) in s\<lparr>pp_phase := Ended, pp_capture := cap, pp_os := os\<rparr>))"

text \<open>The end of a task: the worker runs \<open>Inference\<close> and the future gets its value.\<close>

definition run_task :: "('p, 'm) pipe_env \<Rightarrow> task \<Rightarrow> 'p pipe \<Rightarrow> 'p pipe" where
  "run_task env = (\<lambda>(n, slot) s.
     case inference (pv_yolo env) (cf_width (pp_config s)) (cf_height (pp_config s)) (pp_frames s) (pp_yolos s ! slot) (pp_images s) (pp_labels s) of
       None \<Rightarrow> s\<lparr>pp_phase := Fault\<rparr>
     | Some (ret, y, images, labels) \<Rightarrow>
         s\<lparr>pp_yolos := (pp_yolos s)[slot := y], pp_images := images, pp_labels := labels, pp_futures := (pp_futures s)(n := Some ret)\<rparr>)"

section \<open>Steps\<close>

text \<open>
  The driver hands out only buffers that it holds.  Other threads of the process change the
  operating-system state, but not this camera's queue.
\<close>

definition driver_law :: "poll_answer \<Rightarrow> 'p pipe \<Rightarrow> bool" where
  "driver_law a s \<longleftrightarrow> (case pa_dqbuf a of None \<Rightarrow> True | Some i \<Rightarrow> unat i \<in> set (os_queue (pp_os s) (cp_fd (pp_capture s))))"

inductive pipe_step :: "('p, 'm) pipe_env \<Rightarrow> 'p pipe \<Rightarrow> 'p pipe \<Rightarrow> bool" for env where
  iterate: "pp_phase s = Looping \<Longrightarrow> \<not> pp_stop s \<Longrightarrow> driver_law a s \<Longrightarrow> pipe_step env s (on_capture env a px s)"
| finish: "pp_phase s = Waiting j \<Longrightarrow> pp_futures s (jb_ticket j) = Some r \<Longrightarrow> pipe_step env s (finish_main env j r s)"
| leave: "pp_phase s = Looping \<Longrightarrow> pp_stop s \<Longrightarrow> pipe_step env s (s\<lparr>pp_phase := Draining\<rparr>)"
| drain: "pp_phase s = Draining \<Longrightarrow> pipe_step env s (drain_step s)"
| drain_finish: "pp_phase s = Drain_waiting j \<Longrightarrow> pp_futures s (jb_ticket j) = Some r \<Longrightarrow> pipe_step env s (finish_drain env j r s)"
| worker: "pp_phase s \<noteq> Fault \<Longrightarrow> pool_step (pp_pool s) e q \<Longrightarrow> (\<exists>t. e = Take t) \<or> e = Silent \<or> e = Spurious \<Longrightarrow> pipe_step env s (s\<lparr>pp_pool := q\<rparr>)"
| task: "pp_phase s \<noteq> Fault \<Longrightarrow> pool_step (pp_pool s) (Finish t) q \<Longrightarrow> pipe_step env s (run_task env t (s\<lparr>pp_pool := q\<rparr>))"
| request_stop: "pipe_step env s (s\<lparr>pp_stop := True\<rparr>)"
| others: "os_queue os (cp_fd (pp_capture s)) = os_queue (pp_os s) (cp_fd (pp_capture s)) \<Longrightarrow> pipe_step env s (s\<lparr>pp_os := os\<rparr>)"

inductive pipe_run :: "('p, 'm) pipe_env \<Rightarrow> 'p pipe \<Rightarrow> 'p pipe \<Rightarrow> bool" for env s0 where
  begin_run: "pipe_run env s0 s0"
| continue: "pipe_run env s0 s \<Longrightarrow> pipe_step env s s' \<Longrightarrow> pipe_run env s0 s'"

end
