(* ===== verification/PipeSeq.thy ===== *)
theory PipeSeq imports Pipeline begin

text \<open>
  The sequential program that the pipeline is compared with: it infers, tracks, draws and encodes one
  frame after the other, with nothing in flight.  Before it, the lemmas that an inference depends on
  its own frame and detector only.
\<close>

section \<open>One inference\<close>

text \<open>The label table as the next inference will see it.\<close>

definition seen_labels :: "string option \<Rightarrow> label_table \<Rightarrow> string option list" where
  "seen_labels file t = (if lt_init t then lt_labels t else snd (load_label_name file (lt_labels t)))"

lemma load_label_ret: "fst (load_label_name file ls) = 0"
  by (simp add: load_label_name_def)

lemma post_process_labels:
  "post_process file i0 i1 i2 mh mw conf th pads sw sh zps scales t =
     map_option (\<lambda>(ret, g, _). (ret, g, \<lparr>lt_init = True, lt_labels = seen_labels file t\<rparr>))
       (post_process file i0 i1 i2 mh mw conf th pads sw sh zps scales \<lparr>lt_init = True, lt_labels = seen_labels file t\<rparr>)"
proof -
  obtain r ls where l: "load_label_name file (lt_labels t) = (r, ls)" by (cases "load_label_name file (lt_labels t)")
  have "r = 0" using load_label_ret [of "file" "lt_labels t"] by (simp add: l)
  then show ?thesis using l
    by (auto simp: post_process_def seen_labels_def Let_def option.map_comp comp_def split: prod.split)
qed

lemma post_process_ret: "post_process file i0 i1 i2 mh mw conf th pads sw sh zps scales t = Some (ret, g, t') \<Longrightarrow> ret = 0 \<and> seen_labels file t' = seen_labels file t"
  using load_label_ret [of "file" "lt_labels t"]
  by (auto simp: post_process_def seen_labels_def Let_def split: if_splits prod.splits)

text \<open>The inference on a frame by itself: return code, group and converted image.\<close>

definition detect_frame :: "('p, 'm) pipe_env \<Rightarrow> config \<Rightarrow> string option list \<Rightarrow> 'p \<Rightarrow> yolo \<Rightarrow> (int \<times> detect_group \<times> 8 word list) option" where
  "detect_frame env c labels px y =
     map_option (\<lambda>(ret, y, out, _). (ret, yo_last y, out (yo_outbuf y)))
       (inference (pv_yolo env) (cf_width c) (cf_height c) (\<lambda>_. px) y (\<lambda>_. []) \<lparr>lt_init = True, lt_labels = labels\<rparr>)"

lemma inference_last: "inference env w h frames (y\<lparr>yo_last := g\<rparr>) out t = inference env w h frames y out t"
  by (simp add: inference_def)

text \<open>
  An inference reads its own frame and the labels, writes its own image and result, and gives in any
  surroundings what it gives by itself.
\<close>

lemma preprocess_local: "preprocess env frames y = preprocess env (\<lambda>_. frames (yo_inbuf y)) y"
  by (simp add: preprocess_def)

lemma inference_steps:
  assumes "preprocess e frames (y\<lparr>yo_last := zero_group\<rparr>) = (r1, i)" "ye_run e (the i) = (r2, o0, o1, o2)"
    "convert_output e frames (y\<lparr>yo_last := zero_group\<rparr>) out = (r3, o3)"
  shows "inference e w h frames y out t =
     (if r1 < 0 then Some (r1, y\<lparr>yo_last := zero_group\<rparr>, out, t) else if r2 < 0 then Some (r2, y\<lparr>yo_last := zero_group\<rparr>, out, t)
      else if r3 < 0 then Some (r3, y\<lparr>yo_last := zero_group\<rparr>, o3, t)
      else map_option (\<lambda>(ret, g, t). (0, y\<lparr>yo_last := g\<rparr>, o3, t))
        (post_process (ye_labels e) o0 o1 o2 (yo_model_height y) (yo_model_width y) BOX_THRESH NMS_THRESH
           \<lparr>bx_left = 0, bx_right = 0, bx_top = 0, bx_bottom = 0\<rparr> (real (yo_model_width y) / real_of_int w)
           (real (yo_model_height y) / real_of_int h) (yo_zps y) (yo_scales y) t))"
proof -
  have r: "ret = 0" if "post_process (ye_labels e) o0 o1 o2 mh mw th nth pads sw sh zps scs t = Some (ret, g, t')" for ret g t' mh mw th nth pads sw sh zps scs
    using post_process_ret [OF that] by simp
  show ?thesis using assms unfolding inference_def Let_def
    by (auto simp: bind_map_option [symmetric] map_option_case dest!: r split: option.split)
qed

lemma convert_output_local:
  assumes "convert_output e frames y out = (r, out')"
  shows "\<exists>out2. convert_output e (\<lambda>_. frames (yo_inbuf y)) y (\<lambda>_. []) = (r, out2) \<and> (0 \<le> r \<longrightarrow> out2 (yo_outbuf y) = out' (yo_outbuf y))"
    "a \<noteq> yo_outbuf y \<Longrightarrow> out' a = out a"
  using assms by (auto simp: convert_output_def split: option.splits if_splits)

lemma inference_local:
  assumes "inference (pv_yolo env) (cf_width c) (cf_height c) frames y out t = Some (ret, y', out', t')"
  shows "y' = y\<lparr>yo_last := yo_last y'\<rparr>" "a \<noteq> yo_outbuf y \<Longrightarrow> out' a = out a"
    "seen_labels (ye_labels (pv_yolo env)) t' = seen_labels (ye_labels (pv_yolo env)) t"
    "\<exists>img. detect_frame env c (seen_labels (ye_labels (pv_yolo env)) t) (frames (yo_inbuf y)) y = Some (ret, yo_last y', img) \<and>
       (ret = 0 \<longrightarrow> out' (yo_outbuf y) = img)"
proof -
  let ?e = "pv_yolo env" and ?y = "y\<lparr>yo_last := zero_group\<rparr>" and ?px = "frames (yo_inbuf y)"
  let ?ls = "seen_labels (ye_labels ?e) t"
  obtain r1 i where p: "preprocess ?e frames ?y = (r1, i)" by (cases "preprocess ?e frames ?y")
  have p': "preprocess ?e (\<lambda>_. ?px) ?y = (r1, i)" using p preprocess_local [of ?e frames ?y] by simp
  obtain r2 o0 o1 o2 where r: "ye_run ?e (the i) = (r2, o0, o1, o2)" by (metis prod_cases4)
  obtain r3 o3 where cv: "convert_output ?e frames ?y out = (r3, o3)" by (cases "convert_output ?e frames ?y out")
  obtain o4 where cv': "convert_output ?e (\<lambda>_. ?px) ?y (\<lambda>_. []) = (r3, o4)" and o4: "0 \<le> r3 \<Longrightarrow> o4 (yo_outbuf y) = o3 (yo_outbuf y)"
    using convert_output_local(1) [OF cv] by auto
  have o3: "b \<noteq> yo_outbuf y \<Longrightarrow> o3 b = out b" for b using convert_output_local(2) [OF cv] by simp
  define pp where "pp = (\<lambda>t. post_process (ye_labels ?e) o0 o1 o2 (yo_model_height y) (yo_model_width y) BOX_THRESH NMS_THRESH
      \<lparr>bx_left = 0, bx_right = 0, bx_top = 0, bx_bottom = 0\<rparr> (real (yo_model_width y) / real_of_int (cf_width c))
      (real (yo_model_height y) / real_of_int (cf_height c)) (yo_zps y) (yo_scales y) t)"
  have f: "pp t = map_option (\<lambda>(ret, g, _). (ret, g, \<lparr>lt_init = True, lt_labels = ?ls\<rparr>)) (pp \<lparr>lt_init = True, lt_labels = ?ls\<rparr>)"
    unfolding pp_def by (rule post_process_labels)
  have pr: "seen_labels (ye_labels ?e) t1 = ?ls" if "pp t = Some (q, g, t1)" for q g t1
    using that unfolding pp_def by (blast dest: post_process_ret)
  note st = inference_steps [OF p r cv, where w = "cf_width c" and h = "cf_height c" and t = t, folded pp_def]
  note st' = inference_steps [OF p' r cv', where w = "cf_width c" and h = "cf_height c" and t = "\<lparr>lt_init = True, lt_labels = ?ls\<rparr>", folded pp_def]
  consider "ret \<noteq> 0" "r1 < 0 \<or> r2 < 0 \<or> r3 < 0" "y' = ?y" "t' = t" "out' = out \<or> out' = o3"
      "detect_frame env c ?ls ?px y = Some (ret, yo_last ?y, o4 (yo_outbuf y)) \<or> detect_frame env c ?ls ?px y = Some (ret, yo_last ?y, [])"
    | g q where "ret = 0" "0 \<le> r3" "pp t = Some (q, g, t')" "y' = y\<lparr>yo_last := g\<rparr>" "out' = o3" "detect_frame env c ?ls ?px y = Some (0, g, o4 (yo_outbuf y))"
  proof (cases "r1 < 0 \<or> r2 < 0 \<or> r3 < 0")
    case True
    then show ?thesis using that(1) assms st st' by (auto simp: detect_frame_def split: if_splits)
  next
    case False
    then obtain q g where g: "pp t = Some (q, g, t')" "ret = 0" "y' = y\<lparr>yo_last := g\<rparr>" "out' = o3"
      using assms st by (auto split: if_splits)
    then obtain q' t1 where "pp \<lparr>lt_init = True, lt_labels = ?ls\<rparr> = Some (q', g, t1)" using f by auto
    then have "detect_frame env c ?ls ?px y = Some (0, g, o4 (yo_outbuf y))" using False st' by (simp add: detect_frame_def)
    then show ?thesis using that(2) g False by simp
  qed
  note cs = this
  show "y' = y\<lparr>yo_last := yo_last y'\<rparr>" by (cases rule: cs) simp_all
  show "a \<noteq> yo_outbuf y \<Longrightarrow> out' a = out a" using o3 [of a] by (cases rule: cs) auto
  show "seen_labels (ye_labels (pv_yolo env)) t' = ?ls" using pr by (cases rule: cs) simp_all
  show "\<exists>img. detect_frame env c ?ls ?px y = Some (ret, yo_last y', img) \<and> (ret = 0 \<longrightarrow> out' (yo_outbuf y) = img)"
    using o4 by (cases rule: cs) auto
qed

lemma inference_none:
  assumes "inference (pv_yolo env) (cf_width c) (cf_height c) frames y out t = None"
  shows "detect_frame env c (seen_labels (ye_labels (pv_yolo env)) t) (frames (yo_inbuf y)) y = None"
proof -
  let ?e = "pv_yolo env" and ?y = "y\<lparr>yo_last := zero_group\<rparr>" and ?px = "frames (yo_inbuf y)"
  let ?ls = "seen_labels (ye_labels ?e) t"
  obtain r1 i where p: "preprocess ?e frames ?y = (r1, i)" by (cases "preprocess ?e frames ?y")
  have p': "preprocess ?e (\<lambda>_. ?px) ?y = (r1, i)" using p preprocess_local [of ?e frames ?y] by simp
  obtain r2 o0 o1 o2 where r: "ye_run ?e (the i) = (r2, o0, o1, o2)" by (metis prod_cases4)
  obtain r3 o3 where cv: "convert_output ?e frames ?y out = (r3, o3)" by (cases "convert_output ?e frames ?y out")
  obtain o4 where cv': "convert_output ?e (\<lambda>_. ?px) ?y (\<lambda>_. []) = (r3, o4)"
    using convert_output_local(1) [OF cv] by auto
  show ?thesis
    using assms inference_steps [OF p r cv, where w = "cf_width c" and h = "cf_height c" and t = t]
      inference_steps [OF p' r cv', where w = "cf_width c" and h = "cf_height c" and t = "\<lparr>lt_init = True, lt_labels = ?ls\<rparr>"]
      post_process_labels [of "ye_labels ?e" o0 o1 o2 "yo_model_height y" "yo_model_width y" BOX_THRESH NMS_THRESH
        "\<lparr>bx_left = 0, bx_right = 0, bx_top = 0, bx_bottom = 0\<rparr>" "real (yo_model_width y) / real_of_int (cf_width c)"
        "real (yo_model_height y) / real_of_int (cf_height c)" "yo_zps y" "yo_scales y" t]
    by (simp add: detect_frame_def split: if_splits)
qed

lemma detect_frame_last: "detect_frame env c ls px (y\<lparr>yo_last := g\<rparr>) = detect_frame env c ls px y"
  by (simp add: detect_frame_def inference_last)

section \<open>The sequential program\<close>

record seq =
  sq_tracker :: tracker
  sq_ids :: int
  sq_encoder :: encoder
  sq_encoded :: "8 word list list"
  sq_data :: "8 word list"
  sq_sent :: "8 word list list"

definition seq_of :: "'p pipe \<Rightarrow> seq" where
  "seq_of s = \<lparr>sq_tracker = pp_tracker s, sq_ids = pp_ids s, sq_encoder = pp_encoder s, sq_encoded = pp_encoded s,
     sq_data = pp_encode_data s, sq_sent = pp_sent s\<rparr>"

text \<open>The detector of a slot with the buffers of the frame at \<open>index\<close>.\<close>

definition armed :: "'p pipe \<Rightarrow> nat \<Rightarrow> nat \<Rightarrow> yolo" where
  "armed s0 slot index = set_buffers (db_va (cp_buffers (pp_capture s0) ! index)) (db_va (pp_outs s0 ! slot)) (db_fd (pp_outs s0 ! slot))
     (pp_yolos s0 ! slot)"

definition labels_of :: "('p, 'm) pipe_env \<Rightarrow> 'p pipe \<Rightarrow> string option list" where
  "labels_of env s = seen_labels (ye_labels (pv_yolo env)) (pp_labels s)"

definition seq_send :: "bool \<Rightarrow> bool \<Rightarrow> int \<Rightarrow> seq \<Rightarrow> seq option" where
  "seq_send callback draining len q =
     (let startCode = (if startCode3 (sq_data q) then 3 else 4) in
      if \<not> callback \<or> len = 0 \<or> draining \<and> len < 0 then Some q
      else if len < int startCode then None
      else Some (q\<lparr>sq_sent := sq_sent q @ [take (nat len - startCode) (drop startCode (sq_data q))]\<rparr>))"

definition seq_encode :: "('p, 'm) pipe_env \<Rightarrow> 'p pipe \<Rightarrow> bool \<Rightarrow> nat \<Rightarrow> 8 word list \<Rightarrow> seq \<Rightarrow> seq option" where
  "seq_encode env s0 draining slot img q =
     (let images = sq_encoded q @ [img]; b = pp_outs s0 ! slot in
      Option.bind (encode_dmabuf (pv_mpp env images) (db_fd b) (db_va b) (sq_data q) (sq_encoder q)) (\<lambda>(len, data, e).
        seq_send (pp_callback s0) draining len (q\<lparr>sq_encoded := images, sq_data := data, sq_encoder := e\<rparr>)))"

text \<open>
  The \<open>n\<close>-th frame, from inference to callback.  An encoding that fails makes the callback of the
  main loop, but not the one of the final draining, a memory error.
\<close>

definition seq_frame :: "('p, 'm) pipe_env \<Rightarrow> 'p pipe \<Rightarrow> bool \<Rightarrow> nat \<Rightarrow> nat \<times> 'p \<Rightarrow> seq \<Rightarrow> seq option" where
  "seq_frame env s0 draining n = (\<lambda>(index, px) q.
     (let c = pp_config s0; slot = n mod threads s0; y = armed s0 slot index in
      Option.bind (detect_frame env c (labels_of env s0) px y) (\<lambda>(ret, g, img).
        if ret \<noteq> 0 then Some q
        else
          Option.bind (track_group env px c g (sq_tracker q, sq_ids q)) (\<lambda>(g, t, ids).
            (let q = q\<lparr>sq_tracker := t, sq_ids := ids\<rparr>;
                 (ret, cmds) = render_overlay (pv_text env) y g (cf_width c) (cf_height c)
             in if ret \<noteq> 0 then Some q else seq_encode env s0 draining slot (pv_paint env cmds img) q)))))"

text \<open>Frames from the \<open>n\<close>-th on; those from the \<open>k\<close>-th on are processed while draining.\<close>

fun seq_run :: "('p, 'm) pipe_env \<Rightarrow> 'p pipe \<Rightarrow> nat \<Rightarrow> nat \<Rightarrow> (nat \<times> 'p) list \<Rightarrow> seq \<Rightarrow> seq option" where
  "seq_run env s0 k n [] q = Some q"
| "seq_run env s0 k n (e # es) q = Option.bind (seq_frame env s0 (k \<le> n) n e q) (seq_run env s0 k (Suc n) es)"

lemma seq_run_append: "seq_run env s0 k n (es @ fs) q = Option.bind (seq_run env s0 k n es q) (seq_run env s0 k (n + length es) fs)"
  by (induction es arbitrary: n q) (simp_all cong: Option.bind_cong)

lemma seq_run_take: "m < length es \<Longrightarrow> seq_run env s0 k 0 (take (Suc m) es) q = Option.bind (seq_run env s0 k 0 (take m es) q) (seq_frame env s0 (k \<le> m) m (es ! m))"
  by (simp add: take_Suc_conv_app_nth seq_run_append cong: Option.bind_cong)

lemma seq_run_limit: "n + length es \<le> k \<Longrightarrow> n + length es \<le> k' \<Longrightarrow> seq_run env s0 k n es q = seq_run env s0 k' n es q"
  by (induction es arbitrary: n q) (auto cong: Option.bind_cong)

lemma seq_run_fails: "m \<le> length es \<Longrightarrow> seq_run env s0 k 0 (take m es) q = None \<Longrightarrow> seq_run env s0 k 0 es q = None"
  using seq_run_append [of env s0 k 0 "take m es" "drop m es" q] by simp

lemma seq_run_undetected:
  assumes "m < length es" "detect_frame env (pp_config s0) (labels_of env s0) (snd (es ! m)) (armed s0 (m mod threads s0) (fst (es ! m))) = None"
  shows "seq_run env s0 k 0 es q = None"
proof -
  have "seq_frame env s0 d m (es ! m) q = None" for d q using assms(2) by (cases "es ! m") (simp add: seq_frame_def Let_def)
  then have "seq_run env s0 k 0 (take (Suc m) es) q = None" unfolding seq_run_take [OF assms(1)] by (cases "seq_run env s0 k 0 (take m es) q") auto
  then show ?thesis using seq_run_fails [of "Suc m" es] assms(1) by simp
qed

end
