(* ===== verification/PipeInv.thy ===== *)
theory PipeInv imports PipeSeq begin

text \<open>
  The invariant of the pipeline.  The jobs in flight are those of the last frames captured, in
  order, each on the detector whose turn it was; a capture buffer is with the driver or with one job;
  the pool holds the jobs without a result; and the trackers, the encoder and the frames sent are
  those of the sequential program on the frames that have left.
\<close>

section \<open>The invariant\<close>

definition flight :: "'p pipe \<Rightarrow> job list" where
  "flight s = (case pp_phase s of Waiting j \<Rightarrow> [j] | Drain_waiting j \<Rightarrow> [j] | _ \<Rightarrow> []) @ pp_pending s"

definition driver_queue :: "'p pipe \<Rightarrow> 'p pipe \<Rightarrow> nat list" where
  "driver_queue s0 s = os_queue (pp_os s) (cp_fd (pp_capture s0))"

definition nth_job :: "'p pipe \<Rightarrow> nat \<Rightarrow> nat \<times> 'p \<Rightarrow> job" where
  "nth_job s0 n e = \<lparr>jb_ticket = n, jb_slot = n mod threads s0,
     jb_input_size = c_div (cf_width (pp_config s0) * cf_height (pp_config s0) * 3) 2, jb_capture_index = fst e\<rparr>"

text \<open>A detector without what the frames leave in it.\<close>

definition erase :: "yolo \<Rightarrow> yolo" where
  "erase y = y\<lparr>yo_inbuf := 0, yo_outbuf := 0, yo_outfd := 0, yo_last := zero_group\<rparr>"

text \<open>The state in which \<open>init\<close> leaves a transcoder whose device and detectors are ready.\<close>

definition pipe_ready :: "'p pipe \<Rightarrow> bool" where
  "pipe_ready s \<longleftrightarrow> 0 < cf_rknn_thread (pp_config s) \<and> capture_ok (pp_capture s) \<and>
     driver_queue s s = [0..<length (cp_buffers (pp_capture s))] \<and>
     length (pp_outs s) = threads s \<and> distinct (map db_va (pp_outs s)) \<and> (\<forall>b\<in>set (pp_outs s). 0 < db_va b) \<and>
     length (pp_yolos s) = threads s \<and> pp_pool s = new_pool (threads s) \<and> (\<forall>n. pp_futures s n = None) \<and>
     pp_cur_yolo s = 0 \<and> pp_pending s = [] \<and> pp_log s = [] \<and> pp_phase s = Looping"

definition fixed_inv :: "'p pipe \<Rightarrow> 'p pipe \<Rightarrow> bool" where
  "fixed_inv s0 s \<longleftrightarrow> pp_config s = pp_config s0 \<and> pp_outs s = pp_outs s0 \<and> pp_callback s = pp_callback s0 \<and>
     (pp_phase s \<noteq> Ended \<longrightarrow> pp_capture s = pp_capture s0)"

definition loop_phase :: "phase \<Rightarrow> bool" where
  "loop_phase p \<longleftrightarrow> p = Looping \<or> (\<exists>j. p = Waiting j)"

definition jobs_inv :: "'p pipe \<Rightarrow> nat \<Rightarrow> nat \<Rightarrow> 'p pipe \<Rightarrow> bool" where
  "jobs_inv s0 k m s \<longleftrightarrow> m \<le> length (pp_log s) \<and> flight s = map (\<lambda>n. nth_job s0 n (pp_log s ! n)) [m..<length (pp_log s)] \<and>
     length (pp_log s) \<le> m + threads s0 \<and> (pp_phase s = Looping \<longrightarrow> length (pp_log s) < m + threads s0) \<and>
     pp_cur_yolo s \<le> threads s0 \<and> pp_cur_yolo s mod threads s0 = length (pp_log s) mod threads s0 \<and>
     k \<le> m \<and> (loop_phase (pp_phase s) \<longrightarrow> k = m) \<and> (pp_phase s = Ended \<longrightarrow> pp_pending s = [])"

definition buffers_inv :: "('p, 'm) pipe_env \<Rightarrow> 'p pipe \<Rightarrow> 'p pipe \<Rightarrow> bool" where
  "buffers_inv env s0 s \<longleftrightarrow>
     (let used = driver_queue s0 s @ map jb_capture_index (flight s); n = length (cp_buffers (pp_capture s0)) in
      pp_phase s \<noteq> Ended \<longrightarrow>
        distinct used \<and> set used \<subseteq> {..<n} \<and> ((\<forall>fd r os. kn_qbuf (pv_kernel env) fd r os) \<longrightarrow> length used = n))"

definition tasks_inv :: "'p pipe \<Rightarrow> nat \<Rightarrow> 'p pipe \<Rightarrow> bool" where
  "tasks_inv s0 m s \<longleftrightarrow> \<not> pl_stop (pp_pool s) \<and> (\<forall>n\<ge>length (pp_log s). pp_futures s n = None) \<and>
     pool_bag (pp_pool s) = image_mset (\<lambda>n. (n, n mod threads s0)) (mset (filter (\<lambda>n. pp_futures s n = None) [m..<length (pp_log s)]))"

text \<open>The frame of a job in flight, its detector, and its result once the future is there.\<close>

definition job_data :: "('p, 'm) pipe_env \<Rightarrow> 'p pipe \<Rightarrow> 'p pipe \<Rightarrow> nat \<Rightarrow> bool" where
  "job_data env s0 s n \<longleftrightarrow>
     (let (index, px) = pp_log s ! n; slot = n mod threads s0; y = armed s0 slot index in
      pp_frames s (yo_inbuf y) = px \<and> pp_yolos s ! slot = y\<lparr>yo_last := yo_last (pp_yolos s ! slot)\<rparr> \<and>
      (\<forall>ret. pp_futures s n = Some ret \<longrightarrow>
         (\<exists>img. detect_frame env (pp_config s0) (labels_of env s0) px y = Some (ret, yo_last (pp_yolos s ! slot), img) \<and>
            (ret = 0 \<longrightarrow> pp_images s (yo_outbuf y) = img))))"

definition data_inv :: "('p, 'm) pipe_env \<Rightarrow> 'p pipe \<Rightarrow> nat \<Rightarrow> 'p pipe \<Rightarrow> bool" where
  "data_inv env s0 m s \<longleftrightarrow> labels_of env s = labels_of env s0 \<and> length (pp_yolos s) = threads s0 \<and>
     (\<forall>slot<threads s0. erase (pp_yolos s ! slot) = erase (pp_yolos s0 ! slot)) \<and>
     (\<forall>n. m \<le> n \<and> n < length (pp_log s) \<longrightarrow> job_data env s0 s n)"

definition results_inv :: "('p, 'm) pipe_env \<Rightarrow> 'p pipe \<Rightarrow> nat \<Rightarrow> nat \<Rightarrow> 'p pipe \<Rightarrow> bool" where
  "results_inv env s0 k m s \<longleftrightarrow> seq_run env s0 k 0 (take m (pp_log s)) (seq_of s0) = Some (seq_of s)"

definition run_inv :: "('p, 'm) pipe_env \<Rightarrow> 'p pipe \<Rightarrow> nat \<Rightarrow> nat \<Rightarrow> 'p pipe \<Rightarrow> bool" where
  "run_inv env s0 k m s \<longleftrightarrow> fixed_inv s0 s \<and> jobs_inv s0 k m s \<and> buffers_inv env s0 s \<and> tasks_inv s0 m s \<and> data_inv env s0 m s \<and>
     results_inv env s0 k m s"

definition pipe_inv :: "('p, 'm) pipe_env \<Rightarrow> 'p pipe \<Rightarrow> 'p pipe \<Rightarrow> bool" where
  "pipe_inv env s0 s \<longleftrightarrow>
     (if pp_phase s = Fault then \<exists>k. seq_run env s0 k 0 (pp_log s) (seq_of s0) = None else \<exists>k m. run_inv env s0 k m s)"

lemma ready_inv:
  assumes "pipe_ready s0"
  shows "pipe_inv env s0 s0"
proof -
  have "pool_bag (new_pool n :: task pool) = {#}" for n by (simp add: pool_bag_def new_pool_def running_def)
  then have "run_inv env s0 0 0 s0" using assms
    by (auto simp: pipe_ready_def run_inv_def fixed_inv_def jobs_inv_def buffers_inv_def tasks_inv_def data_inv_def
        results_inv_def flight_def new_pool_def Let_def)
  then show ?thesis using assms by (auto simp: pipe_inv_def pipe_ready_def)
qed

section \<open>Steps that move no frame\<close>

lemmas run_inv_defs = run_inv_def fixed_inv_def jobs_inv_def buffers_inv_def tasks_inv_def data_inv_def results_inv_def job_data_def

lemma pipe_invI: "run_inv env s0 k m s \<Longrightarrow> pp_phase s \<noteq> Fault \<Longrightarrow> pipe_inv env s0 s"
  by (auto simp: pipe_inv_def)

lemma pipe_invE:
  assumes "pipe_inv env s0 s" "pp_phase s \<noteq> Fault"
  obtains k m where "run_inv env s0 k m s"
  using assms by (auto simp: pipe_inv_def)

lemma seq_of_simps [simp]:
  "seq_of (s\<lparr>pp_stop := b\<rparr>) = seq_of s" "seq_of (s\<lparr>pp_os := os\<rparr>) = seq_of s" "seq_of (s\<lparr>pp_phase := ph\<rparr>) = seq_of s"
  "seq_of (s\<lparr>pp_pool := q\<rparr>) = seq_of s" "seq_of (s\<lparr>pp_pending := js\<rparr>) = seq_of s" "seq_of (s\<lparr>pp_capture := c\<rparr>) = seq_of s"
  by (simp_all add: seq_of_def)

lemma labels_of_simps [simp]:
  "labels_of env (s\<lparr>pp_stop := b\<rparr>) = labels_of env s" "labels_of env (s\<lparr>pp_os := os\<rparr>) = labels_of env s"
  "labels_of env (s\<lparr>pp_phase := ph\<rparr>) = labels_of env s" "labels_of env (s\<lparr>pp_pool := q\<rparr>) = labels_of env s"
  "labels_of env (s\<lparr>pp_pending := js\<rparr>) = labels_of env s" "labels_of env (s\<lparr>pp_capture := c\<rparr>) = labels_of env s"
  by (simp_all add: labels_of_def)

lemma flight_simps [simp]:
  "flight (s\<lparr>pp_stop := b\<rparr>) = flight s" "flight (s\<lparr>pp_os := os\<rparr>) = flight s" "flight (s\<lparr>pp_pool := q\<rparr>) = flight s"
  "pp_phase s = Looping \<Longrightarrow> flight s = pp_pending s" "pp_phase s = Draining \<Longrightarrow> flight s = pp_pending s"
  "pp_phase s = Ended \<Longrightarrow> flight s = pp_pending s" "pp_phase s = Waiting j \<Longrightarrow> flight s = j # pp_pending s"
  "pp_phase s = Drain_waiting j \<Longrightarrow> flight s = j # pp_pending s"
  by (simp_all add: flight_def)

lemma driver_queue_simps [simp]:
  "driver_queue s0 (s\<lparr>pp_stop := b\<rparr>) = driver_queue s0 s" "driver_queue s0 (s\<lparr>pp_phase := ph\<rparr>) = driver_queue s0 s"
  "driver_queue s0 (s\<lparr>pp_pool := q\<rparr>) = driver_queue s0 s" "driver_queue s0 (s\<lparr>pp_pending := js\<rparr>) = driver_queue s0 s"
  by (simp_all add: driver_queue_def)

lemma inv_simps [simp]:
  "fixed_inv s0 (s\<lparr>pp_stop := b\<rparr>) = fixed_inv s0 s" "jobs_inv s0 k m (s\<lparr>pp_stop := b\<rparr>) = jobs_inv s0 k m s"
  "buffers_inv env s0 (s\<lparr>pp_stop := b\<rparr>) = buffers_inv env s0 s" "tasks_inv s0 m (s\<lparr>pp_stop := b\<rparr>) = tasks_inv s0 m s"
  "data_inv env s0 m (s\<lparr>pp_stop := b\<rparr>) = data_inv env s0 m s" "results_inv env s0 k m (s\<lparr>pp_stop := b\<rparr>) = results_inv env s0 k m s"
  "fixed_inv s0 (s\<lparr>pp_os := os\<rparr>) = fixed_inv s0 s" "jobs_inv s0 k m (s\<lparr>pp_os := os\<rparr>) = jobs_inv s0 k m s"
  "tasks_inv s0 m (s\<lparr>pp_os := os\<rparr>) = tasks_inv s0 m s" "data_inv env s0 m (s\<lparr>pp_os := os\<rparr>) = data_inv env s0 m s"
  "results_inv env s0 k m (s\<lparr>pp_os := os\<rparr>) = results_inv env s0 k m s"
  "fixed_inv s0 (s\<lparr>pp_pool := q\<rparr>) = fixed_inv s0 s" "jobs_inv s0 k m (s\<lparr>pp_pool := q\<rparr>) = jobs_inv s0 k m s"
  "buffers_inv env s0 (s\<lparr>pp_pool := q\<rparr>) = buffers_inv env s0 s" "data_inv env s0 m (s\<lparr>pp_pool := q\<rparr>) = data_inv env s0 m s"
  "results_inv env s0 k m (s\<lparr>pp_pool := q\<rparr>) = results_inv env s0 k m s"
  by (simp_all add: run_inv_defs Let_def)

lemma phase_simps [simp]:
  "tasks_inv s0 m (s\<lparr>pp_phase := ph\<rparr>) = tasks_inv s0 m s" "data_inv env s0 m (s\<lparr>pp_phase := ph\<rparr>) = data_inv env s0 m s"
  "results_inv env s0 k m (s\<lparr>pp_phase := ph\<rparr>) = results_inv env s0 k m s"
  "tasks_inv s0 m (s\<lparr>pp_pending := js\<rparr>) = tasks_inv s0 m s" "data_inv env s0 m (s\<lparr>pp_pending := js\<rparr>) = data_inv env s0 m s"
  "results_inv env s0 k m (s\<lparr>pp_pending := js\<rparr>) = results_inv env s0 k m s"
  "tasks_inv s0 m (s\<lparr>pp_capture := c\<rparr>) = tasks_inv s0 m s" "data_inv env s0 m (s\<lparr>pp_capture := c\<rparr>) = data_inv env s0 m s"
  "results_inv env s0 k m (s\<lparr>pp_capture := c\<rparr>) = results_inv env s0 k m s"
  by (simp_all add: run_inv_defs Let_def)

lemma run_inv_os:
  assumes "run_inv env s0 k m s" "pp_phase s \<noteq> Ended \<Longrightarrow> driver_queue s0 (s\<lparr>pp_os := os\<rparr>) = driver_queue s0 s"
  shows "run_inv env s0 k m (s\<lparr>pp_os := os\<rparr>)"
proof -
  have "buffers_inv env s0 (s\<lparr>pp_os := os\<rparr>) = buffers_inv env s0 s" using assms(2) by (auto simp: buffers_inv_def)
  then show ?thesis using assms(1) by (simp add: run_inv_def)
qed

lemma run_inv_stop: "run_inv env s0 k m s \<Longrightarrow> run_inv env s0 k m (s\<lparr>pp_stop := True\<rparr>)"
  by (simp add: run_inv_def)

lemma run_inv_worker:
  assumes "run_inv env s0 k m s" "pool_step (pp_pool s) e q" "(\<exists>t. e = Take t) \<or> e = Silent \<or> e = Spurious"
  shows "run_inv env s0 k m (s\<lparr>pp_pool := q\<rparr>)"
proof -
  have "pool_bag q = pool_bag (pp_pool s) \<and> pl_stop q = pl_stop (pp_pool s)" by (rule tp.quiet_held [OF assms(2,3)])
  then have "tasks_inv s0 m (s\<lparr>pp_pool := q\<rparr>) = tasks_inv s0 m s" by (simp add: tasks_inv_def)
  then show ?thesis using assms(1) by (simp add: run_inv_def)
qed

text \<open>A step that leaves the jobs in flight as they are.\<close>

lemma jobs_inv_phase:
  assumes "jobs_inv s0 k m s" "pp_phase s \<noteq> Ended" "flight s' = flight s" "pp_log s' = pp_log s" "pp_cur_yolo s' = pp_cur_yolo s"
    "pp_phase s' = Looping \<Longrightarrow> pp_phase s = Looping" "loop_phase (pp_phase s') \<Longrightarrow> loop_phase (pp_phase s)"
    "pp_phase s' = Ended \<Longrightarrow> pp_pending s' = []"
  shows "jobs_inv s0 k m s'"
  using assms(1) assms(2,6-8) unfolding jobs_inv_def assms(3-5) by blast

lemma run_inv_leave:
  assumes "run_inv env s0 k m s" "pp_phase s = Looping"
  shows "run_inv env s0 k m (s\<lparr>pp_phase := Draining\<rparr>)"
proof -
  have f: "flight (s\<lparr>pp_phase := Draining\<rparr>) = flight s" using assms(2) by simp
  have "jobs_inv s0 k m s" using assms(1) by (simp add: run_inv_def)
  then have "jobs_inv s0 k m (s\<lparr>pp_phase := Draining\<rparr>)"
    by (rule jobs_inv_phase) (use assms(2) f in \<open>simp_all add: loop_phase_def\<close>)
  moreover have "buffers_inv env s0 (s\<lparr>pp_phase := Draining\<rparr>) = buffers_inv env s0 s" using f assms(2) by (simp add: buffers_inv_def)
  ultimately show ?thesis using assms by (simp add: run_inv_def fixed_inv_def)
qed

lemma run_inv_drain:
  assumes "run_inv env s0 k m s" "pp_phase s = Draining"
  shows "run_inv env s0 k m (drain_step s)"
proof (cases "pp_pending s")
  case Nil
  obtain cap os where c: "v4l2_dmabuf_close (pp_capture s) (pp_os s) = (cap, os)" by (cases "v4l2_dmabuf_close (pp_capture s) (pp_os s)")
  let ?s = "s\<lparr>pp_phase := Ended, pp_capture := cap, pp_os := os\<rparr>"
  have d: "drain_step s = ?s" using Nil c by (simp add: drain_step_def)
  have f: "flight ?s = flight s" using assms(2) Nil by (simp add: flight_def)
  have "jobs_inv s0 k m s" using assms(1) by (simp add: run_inv_def)
  then have "jobs_inv s0 k m ?s"
    by (rule jobs_inv_phase) (use assms(2) f Nil in \<open>simp_all add: loop_phase_def\<close>)
  moreover have "buffers_inv env s0 ?s" by (simp add: buffers_inv_def)
  ultimately show ?thesis using assms by (simp add: run_inv_def fixed_inv_def d)
next
  case (Cons j js)
  let ?s = "s\<lparr>pp_phase := Drain_waiting j, pp_pending := js\<rparr>"
  have d: "drain_step s = ?s" using Cons by (simp add: drain_step_def)
  have f: "flight ?s = flight s" using assms(2) Cons by (simp add: flight_def)
  have "jobs_inv s0 k m s" using assms(1) by (simp add: run_inv_def)
  then have "jobs_inv s0 k m ?s"
    by (rule jobs_inv_phase) (use assms(2) f in \<open>simp_all add: loop_phase_def\<close>)
  moreover have "buffers_inv env s0 ?s = buffers_inv env s0 s" using f assms(2) by (simp add: buffers_inv_def)
  ultimately show ?thesis using assms by (simp add: run_inv_def fixed_inv_def d)
qed

section \<open>Jobs in flight\<close>

lemma mod_window:
  assumes "m \<le> a" "a < m + T" "m \<le> b" "b < m + (T::nat)" "a mod T = b mod T"
  shows "a = b"
proof -
  have "a = b" if "a \<le> b" "b < a + T" "a mod T = b mod T" for a b :: nat
  proof -
    have "T dvd b - a" using that by (metis mod_eq_dvd_iff_nat)
    then show ?thesis using that by (auto dest: dvd_imp_le)
  qed
  from this [of a b] this [of b a] show ?thesis using assms by linarith
qed

lemma job_member:
  assumes "jobs_inv s0 k m s" "m \<le> n" "n < length (pp_log s)"
  shows "nth_job s0 n (pp_log s ! n) \<in> set (flight s)" "0 < threads s0" "n < m + threads s0" "n mod threads s0 < threads s0"
  using assms by (auto simp: jobs_inv_def)

lemma same_slot:
  assumes "jobs_inv s0 k m s" "m \<le> a" "a < length (pp_log s)" "m \<le> b" "b < length (pp_log s)" "a mod threads s0 = b mod threads s0"
  shows "a = b"
  using mod_window [OF assms(2) job_member(3) [OF assms(1-3)] assms(4) job_member(3) [OF assms(1,4,5)] assms(6)] .

lemma outs_distinct:
  assumes "pipe_ready s0" "a < threads s0" "b < threads s0" "db_va (pp_outs s0 ! a) = db_va (pp_outs s0 ! b)"
  shows "a = b"
  using assms nth_eq_iff_index_eq [of "map db_va (pp_outs s0)" a b] by (simp add: pipe_ready_def)

lemma index_in_flight:
  assumes "buffers_inv env s0 s" "jobs_inv s0 k m s" "pp_phase s \<noteq> Ended" "m \<le> n" "n < length (pp_log s)"
  shows "fst (pp_log s ! n) < length (cp_buffers (pp_capture s0))"
proof -
  have "jb_capture_index (nth_job s0 n (pp_log s ! n)) \<in> set (map jb_capture_index (flight s))"
    using job_member(1) [OF assms(2,4,5)] by simp
  then show ?thesis using assms(1,3) by (auto simp: buffers_inv_def Let_def nth_job_def)
qed

lemma capture_maps_distinct:
  assumes "capture_ok cap" "a < length (cp_buffers cap)" "b < length (cp_buffers cap)" "db_va (cp_buffers cap ! a) = db_va (cp_buffers cap ! b)"
  shows "a = b"
proof -
  have "filter (\<lambda>x. 0 < x) (map db_va (cp_buffers cap)) = map db_va (cp_buffers cap)"
    using assms(1) by (auto simp: capture_ok_def filter_id_conv)
  then have "distinct (map db_va (cp_buffers cap))" using assms(1) unfolding capture_ok_def buffers_distinct_def by metis
  then show ?thesis using assms(2-4) by (simp add: distinct_conv_nth) metis
qed

section \<open>The end of a task\<close>

lemma mset_filter_remove:
  "distinct xs \<Longrightarrow> n \<in> set xs \<Longrightarrow> P n \<Longrightarrow> mset (filter P xs) = add_mset n (mset (filter (\<lambda>x. x \<noteq> n \<and> P x) xs))"
proof (induction xs)
  case (Cons x xs)
  have "filter (\<lambda>y. y \<noteq> x \<and> P y) xs = filter P xs" if "x \<notin> set xs" using that by (auto intro: filter_cong)
  then show ?case using Cons by (cases "x = n") auto
qed simp

lemma erase_same: "y' = y\<lparr>yo_last := g\<rparr> \<Longrightarrow> erase y' = erase y" "y' = y\<lparr>yo_last := g\<rparr> \<Longrightarrow> yo_outbuf y' = yo_outbuf y"
  by (simp_all add: erase_def)

lemma armed_simps [simp]:
  "yo_inbuf (armed s0 slot i) = db_va (cp_buffers (pp_capture s0) ! i)" "yo_outbuf (armed s0 slot i) = db_va (pp_outs s0 ! slot)"
  "yo_outfd (armed s0 slot i) = db_fd (pp_outs s0 ! slot)"
  by (simp_all add: armed_def set_buffers_def)

lemma task_pending:
  assumes "run_inv env s0 k m s" "pool_step (pp_pool s) (Finish (n, slot)) q"
  shows "m \<le> n" "n < length (pp_log s)" "pp_futures s n = None" "slot = n mod threads s0"
proof -
  have "(n, slot) \<in># pool_bag (pp_pool s)" by (rule tp.finish_member [OF assms(2)])
  then have "(n, slot) \<in># image_mset (\<lambda>n. (n, n mod threads s0)) (mset (filter (\<lambda>n. pp_futures s n = None) [m..<length (pp_log s)]))"
    using assms(1) by (simp add: run_inv_def tasks_inv_def)
  then show "m \<le> n" "n < length (pp_log s)" "pp_futures s n = None" "slot = n mod threads s0" by auto
qed

lemma job_dataD:
  assumes "job_data env s0 s n" "pp_log s ! n = (index, px)"
  shows "pp_frames s (db_va (cp_buffers (pp_capture s0) ! index)) = px"
    "pp_yolos s ! (n mod threads s0) = (armed s0 (n mod threads s0) index)\<lparr>yo_last := yo_last (pp_yolos s ! (n mod threads s0))\<rparr>"
    "pp_futures s n = Some ret \<Longrightarrow> \<exists>img. detect_frame env (pp_config s0) (labels_of env s0) px (armed s0 (n mod threads s0) index) =
        Some (ret, yo_last (pp_yolos s ! (n mod threads s0)), img) \<and> (ret = 0 \<longrightarrow> pp_images s (db_va (pp_outs s0 ! (n mod threads s0))) = img)"
  using assms by (auto simp: job_data_def Let_def)

lemma run_task_inv:
  assumes ready: "pipe_ready s0" and inv: "run_inv env s0 k m s" and q: "pool_step (pp_pool s) (Finish (n, slot)) q"
    and ph: "pp_phase s \<noteq> Fault"
  shows "pipe_inv env s0 (run_task env (n, slot) (s\<lparr>pp_pool := q\<rparr>))"
proof -
  note n = task_pending [OF inv q]
  have i: "fixed_inv s0 s" "jobs_inv s0 k m s" "buffers_inv env s0 s" "tasks_inv s0 m s" "data_inv env s0 m s" "results_inv env s0 k m s"
    using inv by (simp_all add: run_inv_def)
  obtain index px where e: "pp_log s ! n = (index, px)" by (cases "pp_log s ! n")
  have sl: "slot < threads s0" using job_member(4) [OF i(2) n(1,2)] n(4) by simp
  have jd: "job_data env s0 s n" using i(5) n(1,2) by (simp add: data_inv_def)
  let ?y = "pp_yolos s ! slot" and ?a = "armed s0 slot index"
  have y: "?y = ?a\<lparr>yo_last := yo_last ?y\<rparr>" using job_dataD(2) [OF jd e] n(4) by simp
  have yb: "yo_inbuf ?y = yo_inbuf ?a" "yo_outbuf ?y = yo_outbuf ?a" using arg_cong [OF y, of yo_inbuf] arg_cong [OF y, of yo_outbuf] by simp_all
  have px: "pp_frames s (yo_inbuf ?y) = px" using job_dataD(1) [OF jd e] yb by simp
  have c: "pp_config s = pp_config s0" using i(1) by (simp add: fixed_inv_def)
  have ls: "seen_labels (ye_labels (pv_yolo env)) (pp_labels s) = labels_of env s0" using i(5) by (simp add: data_inv_def labels_of_def)
  have dl: "detect_frame env (pp_config s0) (labels_of env s0) px ?y = detect_frame env (pp_config s0) (labels_of env s0) px ?a"
    using detect_frame_last [where env = env and y = ?a and g = "yo_last ?y"] y by simp
  show ?thesis
  proof (cases "inference (pv_yolo env) (cf_width (pp_config s)) (cf_height (pp_config s)) (pp_frames s) ?y (pp_images s) (pp_labels s)")
    case None
    have "detect_frame env (pp_config s0) (labels_of env s0) px ?a = None"
      using inference_none [OF None] by (simp add: c ls px dl)
    then have "seq_run env s0 k 0 (pp_log s) (seq_of s0) = None"
      using n(2,4) e by (intro seq_run_undetected) auto
    then show ?thesis using None by (auto simp: run_task_def pipe_inv_def)
  next
    case (Some v)
    obtain ret y' images labels where v: "v = (ret, y', images, labels)" by (cases v)
    note l = inference_local [OF Some [unfolded v]]
    let ?s = "s\<lparr>pp_pool := q, pp_yolos := (pp_yolos s)[slot := y'], pp_images := images, pp_labels := labels, pp_futures := (pp_futures s)(n := Some ret)\<rparr>"
    have r: "run_task env (n, slot) (s\<lparr>pp_pool := q\<rparr>) = ?s" using Some v by (simp add: run_task_def)
    have ly: "length (pp_yolos s) = threads s0" using i(5) by (simp add: data_inv_def)
    obtain img where img: "detect_frame env (pp_config s0) (labels_of env s0) px ?a = Some (ret, yo_last y', img)"
        "ret = 0 \<longrightarrow> images (yo_outbuf ?a) = img"
      using l(4) unfolding c ls px dl yb(2) by blast
    have y': "y' = ?a\<lparr>yo_last := yo_last y'\<rparr>" using l(1) y by (metis (no_types, lifting) yolo.surjective yolo.update_convs(16))
    have data: "job_data env s0 ?s a" if a: "m \<le> a" "a < length (pp_log s)" for a
    proof -
      obtain index2 px2 where e2: "pp_log s ! a = (index2, px2)" by (cases "pp_log s ! a")
      have ja: "job_data env s0 s a" using i(5) a by (simp add: data_inv_def)
      show ?thesis
      proof (cases "a = n")
        case True
        have "pp_log ?s ! a = (index, px)" "pp_yolos ?s ! (a mod threads s0) = y'" "pp_futures ?s a = Some ret" using True e n(4) sl ly by simp_all
        then show ?thesis using px yb(1) y' img True n(4) by (simp add: job_data_def Let_def)
      next
        case False
        have sa: "a mod threads s0 \<noteq> slot" using same_slot [OF i(2) a n(1,2)] False n(4) by auto
        moreover have "a mod threads s0 < threads s0" using sl by simp
        ultimately have "db_va (pp_outs s0 ! (a mod threads s0)) \<noteq> yo_outbuf ?y" using outs_distinct [OF ready] sl yb(2) by auto
        then have "images (db_va (pp_outs s0 ! (a mod threads s0))) = pp_images s (db_va (pp_outs s0 ! (a mod threads s0)))" by (rule l(2))
        then show ?thesis using ja e2 sa False by (simp add: job_data_def Let_def)
      qed
    qed
    have "erase y' = erase ?y" using l(1) erase_same(1) by blast
    then have "\<forall>a<threads s0. erase ((pp_yolos s)[slot := y'] ! a) = erase (pp_yolos s0 ! a)"
      using i(5) ly sl by (metis (no_types, lifting) data_inv_def nth_list_update)
    then have d: "data_inv env s0 m ?s" using ly data l(3) ls by (simp add: data_inv_def labels_of_def)
    have "pool_bag (pp_pool s) = add_mset (n, slot) (pool_bag q)" using tp.finish_held [OF q] by simp
    moreover have fe: "(\<lambda>x. x \<noteq> n \<and> pp_futures s x = None) = (\<lambda>a. pp_futures ?s a = None)" by (auto simp: fun_eq_iff)
    have "mset (filter (\<lambda>n. pp_futures s n = None) [m..<length (pp_log s)]) =
        add_mset n (mset (filter (\<lambda>a. pp_futures ?s a = None) [m..<length (pp_log s)]))"
      using mset_filter_remove [of "[m..<length (pp_log s)]" n "\<lambda>n. pp_futures s n = None"] n(1-3)
      unfolding fe by (simp del: mset_filter)
    ultimately have "pool_bag q = image_mset (\<lambda>n. (n, n mod threads s0)) (mset (filter (\<lambda>a. pp_futures ?s a = None) [m..<length (pp_log s)]))"
      using i(4) n(4) unfolding tasks_inv_def by simp
    moreover have "pl_stop q = pl_stop (pp_pool s)" using tp.finish_held [OF q] by simp
    ultimately have t: "tasks_inv s0 m ?s" using i(4) n(2) unfolding tasks_inv_def by auto
    have "fixed_inv s0 ?s" using i(1) by (simp add: fixed_inv_def)
    moreover have "flight ?s = flight s" by (simp add: flight_def)
    moreover have "jobs_inv s0 k m ?s = jobs_inv s0 k m s" "buffers_inv env s0 ?s = buffers_inv env s0 s"
      by (simp_all add: jobs_inv_def buffers_inv_def flight_def driver_queue_def)
    moreover have "results_inv env s0 k m ?s = results_inv env s0 k m s" by (simp add: results_inv_def seq_of_def)
    ultimately have "run_inv env s0 k m ?s" unfolding run_inv_def using i d t by blast
    then show ?thesis unfolding r using ph by (intro pipe_invI) simp_all
  qed
qed

section \<open>The end of a job\<close>

text \<open>Both places where a job ends, in one form.\<close>

definition finish_job :: "bool \<Rightarrow> ('p, 'm) pipe_env \<Rightarrow> job \<Rightarrow> int \<Rightarrow> 'p pipe \<Rightarrow> 'p pipe" where
  "finish_job draining env j r s =
     (let s = s\<lparr>pp_phase := if draining then Draining else Looping\<rparr> in
      if r \<noteq> 0 then requeue env j s
      else case render_job env j s of
        None \<Rightarrow> s\<lparr>pp_phase := Fault\<rparr>
      | Some (ok, s) \<Rightarrow>
          (if \<not> ok then s
           else case encode_job env j s of
             None \<Rightarrow> s\<lparr>pp_phase := Fault\<rparr>
           | Some s \<Rightarrow> if \<not> pp_callback s \<or> pp_frame_size s = 0 \<or> draining \<and> pp_frame_size s < 0 then s else send_frame s))"

lemma finish_forms: "finish_main env j r s = finish_job False env j r s" "finish_drain env j r s = finish_job True env j r s"
  by (auto simp: finish_main_def finish_drain_def finish_job_def Let_def split: option.split)

lemma render_overlay_last: "render_overlay ts (y\<lparr>yo_last := g'\<rparr>) g w h = render_overlay ts y g w h"
  by (simp add: render_overlay_def Let_def split: prod.split)

text \<open>What the end of a job leaves alone.\<close>

definition kept :: "nat \<Rightarrow> 'p pipe \<Rightarrow> 'p pipe \<Rightarrow> bool" where
  "kept outbuf s s' \<longleftrightarrow> pp_config s' = pp_config s \<and> pp_capture s' = pp_capture s \<and> pp_outs s' = pp_outs s \<and> pp_yolos s' = pp_yolos s \<and>
     pp_cur_yolo s' = pp_cur_yolo s \<and> pp_pending s' = pp_pending s \<and> pp_pool s' = pp_pool s \<and> pp_futures s' = pp_futures s \<and>
     pp_frames s' = pp_frames s \<and> pp_labels s' = pp_labels s \<and> pp_callback s' = pp_callback s \<and> pp_log s' = pp_log s \<and>
     (\<forall>a. a \<noteq> outbuf \<longrightarrow> pp_images s' a = pp_images s a)"

lemma send_frame_step:
  "pp_phase s = ph \<Longrightarrow> ph \<noteq> Fault \<Longrightarrow>
   (case seq_send (pp_callback s) d (pp_frame_size s) (seq_of s) of
      None \<Rightarrow> \<exists>s'. (if \<not> pp_callback s \<or> pp_frame_size s = 0 \<or> d \<and> pp_frame_size s < 0 then s else send_frame s) = s' \<and> pp_phase s' = Fault \<and> kept b s s'
    | Some q \<Rightarrow> \<exists>s'. (if \<not> pp_callback s \<or> pp_frame_size s = 0 \<or> d \<and> pp_frame_size s < 0 then s else send_frame s) = s' \<and> pp_phase s' = ph \<and> kept b s s' \<and>
        pp_os s' = pp_os s \<and> seq_of s' = q)"
  by (auto simp: seq_send_def send_frame_def kept_def seq_of_def Let_def)

lemma kept_trans: "kept b s s' \<Longrightarrow> kept b s' s'' \<Longrightarrow> kept b s s''"
  by (simp add: kept_def)

lemma encode_job_step:
  assumes "pp_outs s = pp_outs s0" "pp_callback s = pp_callback s0" "pp_phase s = ph" "ph \<noteq> Fault"
    "s' = (case encode_job env j s of None \<Rightarrow> s\<lparr>pp_phase := Fault\<rparr>
       | Some s \<Rightarrow> if \<not> pp_callback s \<or> pp_frame_size s = 0 \<or> d \<and> pp_frame_size s < 0 then s else send_frame s)"
  shows "kept b s s' \<and> (case seq_encode env s0 d (jb_slot j) (pp_images s (db_va (pp_outs s0 ! jb_slot j))) (seq_of s) of
      None \<Rightarrow> pp_phase s' = Fault
    | Some q \<Rightarrow> pp_phase s' = ph \<and> pp_os s' = pp_os s \<and> seq_of s' = q)"
proof -
  let ?b = "pp_outs s0 ! jb_slot j" and ?im = "pp_encoded s @ [pp_images s (db_va (pp_outs s0 ! jb_slot j))]"
  show ?thesis
  proof (cases "encode_dmabuf (pv_mpp env ?im) (db_fd ?b) (db_va ?b) (pp_encode_data s) (pp_encoder s)")
    case None
    then have "s' = s\<lparr>pp_phase := Fault\<rparr>" using assms(5) by (simp add: encode_job_def assms(1) Let_def)
    moreover have "seq_encode env s0 d (jb_slot j) (pp_images s (db_va ?b)) (seq_of s) = None"
      using None by (simp add: seq_encode_def seq_of_def Let_def)
    ultimately show ?thesis by (simp add: kept_def)
  next
    case (Some v)
    obtain len data e where v: "v = (len, data, e)" by (cases v)
    let ?s = "s\<lparr>pp_encoded := ?im, pp_frame_size := len, pp_encode_data := data, pp_encoder := e\<rparr>"
    have e: "encode_job env j s = Some ?s" using Some v by (simp add: encode_job_def assms(1) Let_def)
    have q: "seq_encode env s0 d (jb_slot j) (pp_images s (db_va ?b)) (seq_of s) = seq_send (pp_callback ?s) d (pp_frame_size ?s) (seq_of ?s)"
      using Some v assms(2) by (simp add: seq_encode_def seq_of_def Let_def)
    have k: "kept b s ?s" by (simp add: kept_def)
    have "s' = (if \<not> pp_callback ?s \<or> pp_frame_size ?s = 0 \<or> d \<and> pp_frame_size ?s < 0 then ?s else send_frame ?s)"
      using assms(5) by (simp add: e)
    with send_frame_step [of ?s ph d b] assms(3,4) k kept_trans [OF k] show ?thesis unfolding q
      by (cases "seq_send (pp_callback ?s) d (pp_frame_size ?s) (seq_of ?s)") auto
  qed
qed

lemma finish_job_step:
  assumes fixed: "pp_config s = pp_config s0" "pp_outs s = pp_outs s0" "pp_callback s = pp_callback s0" "pp_capture s = pp_capture s0"
    and j: "j = nth_job s0 n (index, px)" and a: "a = armed s0 (n mod threads s0) index" and y: "pp_yolos s ! (n mod threads s0) = a\<lparr>yo_last := g\<rparr>"
    and px: "pp_frames s (db_va (cp_buffers (pp_capture s0) ! index)) = px"
    and det: "detect_frame env (pp_config s0) (labels_of env s0) px a = Some (r, g, img)" "r = 0 \<Longrightarrow> pp_images s (yo_outbuf a) = img"
    and s': "s' = finish_job d env j r s"
  shows "kept (yo_outbuf a) s s' \<and> (case seq_frame env s0 d n (index, px) (seq_of s) of
      None \<Rightarrow> pp_phase s' = Fault
    | Some q \<Rightarrow> pp_phase s' = (if d then Draining else Looping) \<and> seq_of s' = q \<and>
        pp_os s' = snd (v4l2_dmabuf_qbuf (pv_kernel env) (pp_capture s0) (int index) (pp_os s)))"
proof -
  let ?ph = "if d then Draining else Looping" and ?c = "pp_config s0" and ?slot = "n mod threads s0"
  let ?s = "s\<lparr>pp_phase := ?ph\<rparr>" and ?os = "snd (v4l2_dmabuf_qbuf (pv_kernel env) (pp_capture s0) (int index) (pp_os s))"
  have jb: "jb_slot j = ?slot" "jb_capture_index j = index" by (simp_all add: j nth_job_def)
  have ob: "yo_outbuf a = db_va (pp_outs s0 ! ?slot)" by (simp add: a)
  have ph: "?ph \<noteq> Fault" by simp
  show ?thesis
  proof (cases "r = 0")
    case False
    then have "s' = ?s\<lparr>pp_os := ?os\<rparr>" using s' fixed(4) jb by (simp add: finish_job_def requeue_def Let_def)
    moreover have "seq_frame env s0 d n (index, px) (seq_of s) = Some (seq_of s)" using det(1) False by (simp add: seq_frame_def a Let_def)
    ultimately show ?thesis by (simp add: kept_def)
  next
    case True
    have lr: "get_last_detect_result (pp_yolos s ! ?slot) = g" by (simp add: y get_last_detect_result_def)
    show ?thesis
    proof (cases "track_group env px ?c g (pp_tracker s, pp_ids s)")
      case None
      then have "s' = ?s\<lparr>pp_phase := Fault\<rparr>" using s' True fixed jb px lr by (simp add: finish_job_def render_job_def Let_def)
      moreover have "seq_frame env s0 d n (index, px) (seq_of s) = None" using det(1) True None
        by (simp add: seq_frame_def a seq_of_def Let_def)
      ultimately show ?thesis by (simp add: kept_def)
    next
      case (Some v)
      obtain g2 t ids where v: "v = (g2, t, ids)" by (cases v)
      obtain ret cmds where ro: "render_overlay (pv_text env) a g2 (cf_width ?c) (cf_height ?c) = (ret, cmds)"
        by (cases "render_overlay (pv_text env) a g2 (cf_width ?c) (cf_height ?c)")
      have ro': "render_overlay (pv_text env) (pp_yolos s ! ?slot) g2 (cf_width ?c) (cf_height ?c) = (ret, cmds)"
        by (simp add: y render_overlay_last ro)
      let ?img = "pv_paint env cmds img"
      let ?s2 = "?s\<lparr>pp_tracker := t, pp_ids := ids, pp_images := (pp_images s)(yo_outbuf a := ?img), pp_os := ?os\<rparr>"
      have rj: "render_job env j ?s = Some (ret = 0, ?s2)"
        using Some v ro' fixed jb px lr det(2) [OF True] by (simp add: render_job_def requeue_def y Let_def)
      have sf: "seq_frame env s0 d n (index, px) (seq_of s) = (if ret \<noteq> 0 then Some (seq_of ?s2) else seq_encode env s0 d ?slot ?img (seq_of ?s2))"
        using det(1) True Some v ro by (simp add: seq_frame_def a [symmetric] seq_of_def Let_def)
      have k: "kept (yo_outbuf a) s ?s2" by (simp add: kept_def)
      show ?thesis
      proof (cases "ret = 0")
        case False
        then have "s' = ?s2" using s' True rj by (simp add: finish_job_def Let_def)
        then show ?thesis using k sf False by simp
      next
        case r0: True
        then have s2: "s' = (case encode_job env j ?s2 of None \<Rightarrow> ?s2\<lparr>pp_phase := Fault\<rparr>
           | Some s \<Rightarrow> if \<not> pp_callback s \<or> pp_frame_size s = 0 \<or> d \<and> pp_frame_size s < 0 then s else send_frame s)"
          using s' True rj by (simp add: finish_job_def Let_def)
        have "pp_outs ?s2 = pp_outs s0" "pp_callback ?s2 = pp_callback s0" "pp_phase ?s2 = ?ph" using fixed by simp_all
        note st = encode_job_step [OF this ph s2, of "yo_outbuf a"]
        have "pp_images ?s2 (db_va (pp_outs s0 ! jb_slot j)) = ?img" by (simp add: jb ob)
        then show ?thesis using st kept_trans [OF k] sf r0
          by (cases "seq_encode env s0 d ?slot ?img (seq_of ?s2)") (auto simp: jb)
      qed
    qed
  qed
qed

lemma qbuf_queue:
  assumes "capture_ok cap" "index < length (cp_buffers cap)"
  shows "os_queue (snd (v4l2_dmabuf_qbuf kn cap (int index) os)) (cp_fd cap) = os_queue os (cp_fd cap) @ [index] \<or>
     os_queue (snd (v4l2_dmabuf_qbuf kn cap (int index) os)) (cp_fd cap) = os_queue os (cp_fd cap) \<and> \<not> (\<forall>fd r os. kn_qbuf kn fd r os)"
  using assms by (auto simp: v4l2_dmabuf_qbuf_def capture_ok_def)

lemma buffers_inv_requeue:
  assumes "pipe_ready s0" "buffers_inv env s0 s" "pp_phase s \<noteq> Ended" "flight s = j # js" "flight s' = js"
    "pp_os s' = snd (v4l2_dmabuf_qbuf (pv_kernel env) (pp_capture s0) (int (jb_capture_index j)) (pp_os s))"
  shows "buffers_inv env s0 s'"
proof -
  have c: "capture_ok (pp_capture s0)" using assms(1) by (simp add: pipe_ready_def)
  have "jb_capture_index j < length (cp_buffers (pp_capture s0))" using assms(2-4) by (auto simp: buffers_inv_def Let_def)
  from qbuf_queue [OF c this, of "pv_kernel env" "pp_os s"]
  have "driver_queue s0 s' = driver_queue s0 s @ [jb_capture_index j] \<or>
     driver_queue s0 s' = driver_queue s0 s \<and> \<not> (\<forall>fd r os. kn_qbuf (pv_kernel env) fd r os)"
    by (simp add: driver_queue_def assms(6))
  then show ?thesis
  proof
    assume "driver_queue s0 s' = driver_queue s0 s @ [jb_capture_index j]"
    then have u: "driver_queue s0 s' @ map jb_capture_index (flight s') = driver_queue s0 s @ map jb_capture_index (flight s)"
      by (simp add: assms(4,5))
    show ?thesis using assms(2,3) unfolding buffers_inv_def u by (simp add: Let_def)
  next
    assume "driver_queue s0 s' = driver_queue s0 s \<and> \<not> (\<forall>fd r os. kn_qbuf (pv_kernel env) fd r os)"
    then show ?thesis using assms(2,3) unfolding buffers_inv_def assms(4,5) by (auto simp: Let_def)
  qed
qed

lemma run_inv_finish:
  assumes ready: "pipe_ready s0" and inv: "run_inv env s0 k m s"
    and ph: "pp_phase s = (if d then Drain_waiting j else Waiting j)" and fut: "pp_futures s (jb_ticket j) = Some r"
  shows "pipe_inv env s0 (finish_job d env j r s)"
proof -
  have i: "fixed_inv s0 s" "jobs_inv s0 k m s" "buffers_inv env s0 s" "tasks_inv s0 m s" "data_inv env s0 m s" "results_inv env s0 k m s"
    using inv by (simp_all add: run_inv_def)
  have ne: "pp_phase s \<noteq> Ended" using ph by simp
  have fl: "flight s = j # pp_pending s" using ph by (cases d) simp_all
  have fm: "flight s = map (\<lambda>n. nth_job s0 n (pp_log s ! n)) [m..<length (pp_log s)]" using i(2) by (simp add: jobs_inv_def)
  have ml: "m < length (pp_log s)" using fl fm by (cases "m < length (pp_log s)") simp_all
  have j: "j = nth_job s0 m (pp_log s ! m)" and pend: "pp_pending s = map (\<lambda>n. nth_job s0 n (pp_log s ! n)) [Suc m..<length (pp_log s)]"
    using fl fm ml by (simp_all add: upt_conv_Cons)
  obtain index px where e: "pp_log s ! m = (index, px)" by (cases "pp_log s ! m")
  let ?slot = "m mod threads s0" and ?a = "armed s0 (m mod threads s0) index" 
  define s' where "s' = finish_job d env j r s"
  have ji: "jb_capture_index j = index" "jb_ticket j = m" by (simp_all add: j e nth_job_def)
  have jd: "job_data env s0 s m" using i(5) ml by (simp add: data_inv_def)
  let ?g = "yo_last (pp_yolos s ! ?slot)"
  have "pp_futures s m = Some r" using fut ji by simp
  then obtain img where img: "detect_frame env (pp_config s0) (labels_of env s0) px ?a = Some (r, ?g, img)"
      "r = 0 \<Longrightarrow> pp_images s (yo_outbuf ?a) = img"
    using job_dataD(3) [OF jd e] by auto
  have fx: "pp_config s = pp_config s0" "pp_outs s = pp_outs s0" "pp_callback s = pp_callback s0" "pp_capture s = pp_capture s0"
    using i(1) ne by (simp_all add: fixed_inv_def)
  have j': "j = nth_job s0 m (index, px)" using j e by simp
  note step = finish_job_step [OF fx j' refl job_dataD(2) [OF jd e] job_dataD(1) [OF jd e] img s'_def]
  have kp: "kept (yo_outbuf ?a) s s'" using step by blast
  note kd = kp [unfolded kept_def]
  let ?k = "if d then k else Suc m"
  have "seq_run env s0 ?k 0 (take m (pp_log s)) (seq_of s0) = Some (seq_of s)"
  proof (cases d)
    case True
    then show ?thesis using i(6) by (simp add: results_inv_def)
  next
    case False
    then have "k = m" using i(2) ph by (simp add: jobs_inv_def loop_phase_def)
    moreover have "seq_run env s0 m 0 (take m (pp_log s)) (seq_of s0) = seq_run env s0 (Suc m) 0 (take m (pp_log s)) (seq_of s0)"
      using ml by (intro seq_run_limit) simp_all
    ultimately show ?thesis using i(6) False by (simp add: results_inv_def)
  qed
  moreover have "(?k \<le> m) = d" using i(2) by (simp add: jobs_inv_def)
  ultimately have sr: "seq_run env s0 ?k 0 (take (Suc m) (pp_log s)) (seq_of s0) = seq_frame env s0 d m (index, px) (seq_of s)"
    unfolding seq_run_take [OF ml] e by simp
  have "pipe_inv env s0 s'"
  proof (cases "seq_frame env s0 d m (index, px) (seq_of s)")
    case None
    then have "pp_phase s' = Fault" using step by simp
    moreover have "seq_run env s0 ?k 0 (take (Suc m) (pp_log s)) (seq_of s0) = None" unfolding sr by (rule None)
    then have "seq_run env s0 ?k 0 (pp_log s) (seq_of s0) = None" by (rule seq_run_fails [rotated]) (use ml in simp)
    moreover have lg: "pp_log s' = pp_log s" using kd by blast
    ultimately have "pp_phase s' = Fault" "\<exists>k. seq_run env s0 k 0 (pp_log s') (seq_of s0) = None" unfolding lg by blast+
    then show ?thesis by (simp add: pipe_inv_def)
  next
    case (Some q)
    then have s: "pp_phase s' = (if d then Draining else Looping)" "seq_of s' = q"
        "pp_os s' = snd (v4l2_dmabuf_qbuf (pv_kernel env) (pp_capture s0) (int (jb_capture_index j)) (pp_os s))"
      using step ji by simp_all
    have fl': "flight s' = pp_pending s" using s(1) kd by (cases d) simp_all
    have "fixed_inv s0 s'" using fx s(1) kd by (simp add: fixed_inv_def)
    moreover have "jobs_inv s0 ?k (Suc m) s'"
    proof -
      have l: "pp_log s' = pp_log s" "pp_cur_yolo s' = pp_cur_yolo s" "pp_pending s' = pp_pending s" using kd by simp_all
      have "length (pp_log s) \<le> m + threads s0" "pp_cur_yolo s \<le> threads s0"
          "pp_cur_yolo s mod threads s0 = length (pp_log s) mod threads s0" "k \<le> m"
        using i(2) by (simp_all add: jobs_inv_def)
      then show ?thesis unfolding jobs_inv_def fl' l using ml s(1) pend by (cases d) (simp_all add: loop_phase_def)
    qed
    moreover have "buffers_inv env s0 s'" by (rule buffers_inv_requeue [OF ready i(3) ne fl fl' s(3)])
    moreover have "tasks_inv s0 (Suc m) s'"
      using i(4) fut ji(2) ml kd unfolding tasks_inv_def by (simp add: upt_conv_Cons del: mset_filter)
    moreover have "data_inv env s0 (Suc m) s'"
    proof -
      have "job_data env s0 s' n" if n: "Suc m \<le> n" "n < length (pp_log s)" for n
      proof -
        have "n mod threads s0 \<noteq> ?slot" using same_slot [OF i(2), of n m] n ml by auto
        then have "db_va (pp_outs s0 ! (n mod threads s0)) \<noteq> yo_outbuf ?a"
          using outs_distinct [OF ready job_member(4) [OF i(2), of n] job_member(4) [OF i(2), of m]] n ml by auto
        then have "pp_images s' (db_va (pp_outs s0 ! (n mod threads s0))) = pp_images s (db_va (pp_outs s0 ! (n mod threads s0)))"
          using kd by blast
        moreover have "job_data env s0 s n" using i(5) n by (simp add: data_inv_def)
        ultimately show ?thesis using kd by (simp add: job_data_def Let_def split: prod.splits)
      qed
      then show ?thesis using i(5) kd by (simp add: data_inv_def labels_of_def)
    qed
    moreover have "results_inv env s0 ?k (Suc m) s'"
    proof -
      have lg: "pp_log s' = pp_log s" using kd by blast
      show ?thesis unfolding results_inv_def lg sr s(2) by (rule Some)
    qed
    ultimately have "run_inv env s0 ?k (Suc m) s'" unfolding run_inv_def by blast
    then show ?thesis using s(1) by (intro pipe_invI) simp_all
  qed
  then show ?thesis by (simp add: s'_def)
qed

section \<open>A captured frame\<close>

definition next_slot :: "'p pipe \<Rightarrow> nat" where
  "next_slot s = (if pp_cur_yolo s \<ge> threads s then 0 else pp_cur_yolo s)"

lemma next_slot_mod:
  assumes "0 < threads s0" "jobs_inv s0 k m s" "pp_config s = pp_config s0"
  shows "next_slot s = length (pp_log s) mod threads s0" "next_slot s < threads s0"
  using assms by (auto simp: next_slot_def jobs_inv_def)

text \<open>The state after a frame has been given to the pool.\<close>

definition submitted_frame :: "'p pipe \<Rightarrow> os \<Rightarrow> nat \<Rightarrow> 'p \<Rightarrow> task pool \<Rightarrow> 'p pipe \<Rightarrow> 'p pipe" where
  "submitted_frame s0 os i px q s =
     (let slot = length (pp_log s) mod threads s0; va = db_va (cp_buffers (pp_capture s0) ! i) in
      s\<lparr>pp_os := os, pp_frames := (pp_frames s)(va := px),
        pp_yolos := (pp_yolos s)[slot := set_buffers va (db_va (pp_outs s0 ! slot)) (db_fd (pp_outs s0 ! slot)) (pp_yolos s ! slot)],
        pp_cur_yolo := slot + 1, pp_frame_size := 0, pp_pool := q,
        pp_pending := pp_pending s @ [nth_job s0 (length (pp_log s)) (i, px)], pp_log := pp_log s @ [(i, px)]\<rparr>)"

lemma dqbuf_cases:
  assumes c: "capture_ok cap" and q: "set (os_queue os (cp_fd cap)) \<subseteq> {..<length (cp_buffers cap)}"
    and law: "case pa_dqbuf a of None \<Rightarrow> True | Some i \<Rightarrow> unat i \<in> set (os_queue os (cp_fd cap))"
    and d: "v4l2_dmabuf_dqbuf cap a os = (ret, index, os')"
  shows "ret \<noteq> 1 \<and> os_queue os' (cp_fd cap) = os_queue os (cp_fd cap) \<or>
     ret = 1 \<and> (\<exists>i\<in>set (os_queue os (cp_fd cap)). index = int i \<and> i < length (cp_buffers cap) \<and>
        os_queue os' (cp_fd cap) = remove1 i (os_queue os (cp_fd cap)))"
proof (cases "pa_poll a \<le> 0 \<or> pa_error a \<or> pa_dqbuf a = None")
  case True
  then show ?thesis using c d by (auto simp: v4l2_dmabuf_dqbuf_def capture_ok_def split: if_splits)
next
  case False
  then obtain i where i: "pa_dqbuf a = Some i" "0 < pa_poll a" "\<not> pa_error a" by auto
  then have m: "unat i \<in> set (os_queue os (cp_fd cap))" using law by simp
  then have "unat i < length (cp_buffers cap)" using q by auto
  then have "ret = 1" "index = int (unat i)" "os_queue os' (cp_fd cap) = remove1 (unat i) (os_queue os (cp_fd cap))"
    using d i c by (auto simp: v4l2_dmabuf_dqbuf_def capture_ok_def)
  then show ?thesis using m \<open>unat i < length (cp_buffers cap)\<close> by blast
qed

lemma on_capture_cases:
  assumes ready: "pipe_ready s0" and inv: "run_inv env s0 k m s" and ph: "pp_phase s = Looping" and law: "driver_law a s"
  shows "(\<exists>os. on_capture env a px s = s\<lparr>pp_cur_yolo := next_slot s, pp_os := os\<rparr> \<and> driver_queue s0 (s\<lparr>pp_os := os\<rparr>) = driver_queue s0 s) \<or>
     (\<exists>os i q. i \<in> set (driver_queue s0 s) \<and> driver_queue s0 (s\<lparr>pp_os := os\<rparr>) = remove1 i (driver_queue s0 s) \<and>
        pool_enqueue (length (pp_log s), length (pp_log s) mod threads s0) (pp_pool s) = Inr q \<and>
        on_capture env a px s = await_oldest (submitted_frame s0 os i px q s))"
proof -
  have i: "fixed_inv s0 s" "jobs_inv s0 k m s" "buffers_inv env s0 s" "tasks_inv s0 m s" "data_inv env s0 m s"
    using inv by (simp_all add: run_inv_def)
  have fx: "pp_config s = pp_config s0" "pp_outs s = pp_outs s0" "pp_capture s = pp_capture s0" using i(1) ph by (simp_all add: fixed_inv_def)
  have r: "capture_ok (pp_capture s0)" "0 < threads s0" "length (pp_outs s0) = threads s0" using ready by (simp_all add: pipe_ready_def)
  note sl = next_slot_mod [OF r(2) i(2) fx(1)]
  obtain ret index os where d: "v4l2_dmabuf_dqbuf (pp_capture s0) a (pp_os s) = (ret, index, os)" by (metis prod_cases3)
  have qs: "set (driver_queue s0 s) \<subseteq> {..<length (cp_buffers (pp_capture s0))}" using i(3) ph by (simp add: buffers_inv_def Let_def)
  have law': "case pa_dqbuf a of None \<Rightarrow> True | Some i \<Rightarrow> unat i \<in> set (os_queue (pp_os s) (cp_fd (pp_capture s0)))"
    using law unfolding driver_law_def fx(3) .
  let ?s1 = "s\<lparr>pp_cur_yolo := next_slot s, pp_os := os\<rparr>"
  have s1: "(if pp_cur_yolo s \<ge> threads s then s\<lparr>pp_cur_yolo := 0\<rparr> else s) = s\<lparr>pp_cur_yolo := next_slot s\<rparr>"
    by (simp add: next_slot_def)
  from dqbuf_cases [OF r(1) qs [unfolded driver_queue_def] law' d]
  consider "ret \<noteq> 1" "os_queue os (cp_fd (pp_capture s0)) = os_queue (pp_os s) (cp_fd (pp_capture s0))"
    | j where "ret = 1" "j \<in> set (os_queue (pp_os s) (cp_fd (pp_capture s0)))" "index = int j" "j < length (cp_buffers (pp_capture s0))"
        "os_queue os (cp_fd (pp_capture s0)) = remove1 j (os_queue (pp_os s) (cp_fd (pp_capture s0)))"
    by blast
  then show ?thesis
  proof cases
    case 1
    then have "on_capture env a px s = ?s1" using d fx(3) unfolding on_capture_def s1 by (simp add: Let_def)
    then show ?thesis using 1(2) by (auto simp: driver_queue_def)
  next
    case (2 j)
    let ?slot = "length (pp_log s) mod threads s0" and ?va = "db_va (cp_buffers (pp_capture s0) ! j)"
    have va: "0 < ?va" using r(1) 2(4) by (simp add: capture_ok_def)
    have "length (pp_yolos s) = threads s0" using i(5) by (simp add: data_inv_def)
    then have lt: "\<not> (next_slot s \<ge> length (pp_yolos s) \<or> next_slot s \<ge> length (pp_outs s))" using sl(2) r(3) fx(2) by simp
    obtain q where q: "pool_enqueue (length (pp_log s), ?slot) (pp_pool s) = Inr q"
      using i(4) tp.submit_open [of "pp_pool s"] unfolding tasks_inv_def by blast
    let ?s2 = "?s1\<lparr>pp_frames := (pp_frames s)(?va := px)\<rparr>"
    have "on_capture env a px s = await_oldest (submit_frame (next_slot s) j ?s2)"
      using d 2(1,3,4) va lt fx(3) unfolding on_capture_def s1 by (simp add: Let_def)
    also have "submit_frame (next_slot s) j ?s2 = submitted_frame s0 os j px q s"
      using q sl(1) fx by (simp add: submit_frame_def submitted_frame_def nth_job_def Let_def)
    finally show ?thesis using 2 q by (auto simp: driver_queue_def)
  qed
qed

lemma run_inv_idle:
  assumes "pipe_ready s0" "run_inv env s0 k m s" "pp_phase s = Looping" "driver_queue s0 (s\<lparr>pp_os := os\<rparr>) = driver_queue s0 s"
  shows "run_inv env s0 k m (s\<lparr>pp_cur_yolo := next_slot s, pp_os := os\<rparr>)"
proof -
  let ?s = "s\<lparr>pp_cur_yolo := next_slot s, pp_os := os\<rparr>"
  have i: "fixed_inv s0 s" "jobs_inv s0 k m s" "buffers_inv env s0 s" "tasks_inv s0 m s" "data_inv env s0 m s" "results_inv env s0 k m s"
    using assms(2) by (simp_all add: run_inv_def)
  have "0 < threads s0" "pp_config s = pp_config s0" using assms(1,3) i(1) by (simp_all add: pipe_ready_def fixed_inv_def)
  note sl = next_slot_mod [OF this(1) i(2) this(2)]
  have f: "flight ?s = flight s" "driver_queue s0 ?s = driver_queue s0 s" using assms(4) by (simp_all add: flight_def driver_queue_def)
  have "jobs_inv s0 k m ?s" using i(2) sl unfolding jobs_inv_def f by simp
  moreover have "buffers_inv env s0 ?s" using i(3) unfolding buffers_inv_def f by simp
  moreover have "fixed_inv s0 ?s" "tasks_inv s0 m ?s" using i by (simp_all add: fixed_inv_def tasks_inv_def)
  moreover have "data_inv env s0 m ?s = data_inv env s0 m s" by (simp add: data_inv_def labels_of_def job_data_def)
  moreover have "results_inv env s0 k m ?s = results_inv env s0 k m s" by (simp add: results_inv_def seq_of_def)
  ultimately show ?thesis unfolding run_inv_def using i by blast
qed

lemma erase_set_buffers: "erase y = erase y0 \<Longrightarrow> set_buffers a b c y = (set_buffers a b c y0)\<lparr>yo_last := yo_last (set_buffers a b c y)\<rparr>"
  by (cases y; cases y0) (simp add: erase_def set_buffers_def)

lemma erase_set [simp]: "erase (set_buffers a b c y) = erase y"
  by (simp add: erase_def set_buffers_def)

lemma buffers_inv_capture:
  assumes "buffers_inv env s0 s" "pp_phase s \<noteq> Ended" "i \<in> set (driver_queue s0 s)" "driver_queue s0 s' = remove1 i (driver_queue s0 s)"
    "flight s' = flight s @ [j]" "jb_capture_index j = i"
  shows "buffers_inv env s0 s'"
proof -
  let ?used = "driver_queue s0 s @ map jb_capture_index (flight s)" and ?used' = "driver_queue s0 s' @ map jb_capture_index (flight s')"
  have "mset ?used' = mset ?used" using assms(3-6) by simp
  then have "set ?used' = set ?used" "length ?used' = length ?used" "distinct ?used' = distinct ?used"
    by (rule mset_eq_setD, rule mset_eq_length) (metis mset_eq_imp_distinct_iff \<open>mset ?used' = mset ?used\<close>)
  then show ?thesis using assms(1,2) unfolding buffers_inv_def Let_def by metis
qed

lemma data_inv_submitted:
  assumes ready: "pipe_ready s0" and inv: "run_inv env s0 k m s" and ph: "pp_phase s = Looping" and i: "i \<in> set (driver_queue s0 s)"
  shows "data_inv env s0 m (submitted_frame s0 os i px q s)"
proof -
  have v: "jobs_inv s0 k m s" "buffers_inv env s0 s" "tasks_inv s0 m s" "data_inv env s0 m s" using inv by (simp_all add: run_inv_def)
  have ne: "pp_phase s \<noteq> Ended" using ph by simp
  have c: "capture_ok (pp_capture s0)" and t: "0 < threads s0" using ready by (simp_all add: pipe_ready_def)
  let ?slot = "length (pp_log s) mod threads s0" and ?s = "submitted_frame s0 os i px q s" and ?va = "db_va (cp_buffers (pp_capture s0) ! i)"
  have sl: "?slot < threads s0" using t by simp
  have ly: "length (pp_yolos s) = threads s0" using v(4) by (simp add: data_inv_def)
  have er: "erase (pp_yolos s ! a) = erase (pp_yolos s0 ! a)" if "a < threads s0" for a using v(4) that by (simp add: data_inv_def)
  have il: "i < length (cp_buffers (pp_capture s0))" using i v(2) ne by (auto simp: buffers_inv_def Let_def)
  have "job_data env s0 ?s n" if n: "m \<le> n" "n < Suc (length (pp_log s))" for n
  proof (cases "n = length (pp_log s)")
    case True
    have "pp_futures s n = None" using v(3) True by (simp add: tasks_inv_def)
    then show ?thesis using True ly sl erase_set_buffers [OF er [OF sl], of ?va "db_va (pp_outs s0 ! ?slot)" "db_fd (pp_outs s0 ! ?slot)"]
      by (simp add: job_data_def submitted_frame_def armed_def set_buffers_def Let_def nth_append)
  next
    case False
    then have n2: "n < length (pp_log s)" using n by simp
    obtain index2 px2 where e: "pp_log s ! n = (index2, px2)" by (cases "pp_log s ! n")
    have jd: "job_data env s0 s n" using v(4) n(1) n2 by (simp add: data_inv_def)
    have "length (pp_log s) < m + threads s0" using v(1) ph by (simp add: jobs_inv_def)
    then have "n mod threads s0 \<noteq> ?slot" using mod_window [of m n "threads s0" "length (pp_log s)"] n(1) n2 by auto
    moreover have "i \<noteq> index2"
    proof -
      have "index2 \<in> set (map jb_capture_index (flight s))" using job_member(1) [OF v(1) n(1) n2] e by (force simp: nth_job_def)
      then show ?thesis using i v(2) ne by (auto simp: buffers_inv_def Let_def)
    qed
    then have "?va \<noteq> db_va (cp_buffers (pp_capture s0) ! index2)"
      using capture_maps_distinct [OF c il] index_in_flight [OF v(2,1) ne n(1) n2] e by auto
    ultimately show ?thesis using jd e n2 by (simp add: job_data_def submitted_frame_def Let_def nth_append)
  qed
  moreover have "erase (pp_yolos ?s ! a) = erase (pp_yolos s0 ! a)" if "a < threads s0" for a
    using er [OF that] ly that by (cases "a = ?slot") (simp_all add: submitted_frame_def Let_def)
  moreover have "labels_of env ?s = labels_of env s0" using v(4) by (simp add: data_inv_def labels_of_def submitted_frame_def Let_def)
  ultimately show ?thesis using ly unfolding data_inv_def by (simp add: submitted_frame_def Let_def)
qed

lemma run_inv_capture:
  assumes ready: "pipe_ready s0" and inv: "run_inv env s0 k m s" and ph: "pp_phase s = Looping" and i: "i \<in> set (driver_queue s0 s)"
    and os: "driver_queue s0 (s\<lparr>pp_os := os\<rparr>) = remove1 i (driver_queue s0 s)"
    and q: "pool_enqueue (length (pp_log s), length (pp_log s) mod threads s0) (pp_pool s) = Inr q"
  shows "run_inv env s0 k m (await_oldest (submitted_frame s0 os i px q s)) \<and> pp_phase (await_oldest (submitted_frame s0 os i px q s)) \<noteq> Fault"
proof -
  have v: "fixed_inv s0 s" "jobs_inv s0 k m s" "buffers_inv env s0 s" "tasks_inv s0 m s" "results_inv env s0 k m s"
    using inv by (simp_all add: run_inv_def)
  have t: "0 < threads s0" using ready by (simp add: pipe_ready_def)
  have c: "pp_config s = pp_config s0" using v(1) by (simp add: fixed_inv_def)
  let ?n = "length (pp_log s)" and ?j = "nth_job s0 (length (pp_log s)) (i, px)"
  define s1 where "s1 = submitted_frame s0 os i px q s"
  have s1: "pp_phase s1 = Looping" "pp_log s1 = pp_log s @ [(i, px)]" "pp_pending s1 = pp_pending s @ [?j]" "pp_config s1 = pp_config s0"
      "pp_cur_yolo s1 = ?n mod threads s0 + 1" "pp_pool s1 = q" "pp_futures s1 = pp_futures s"
    using ph c by (simp_all add: s1_def submitted_frame_def Let_def)
  have f1: "flight s1 = flight s @ [?j]" using ph s1 by simp
  have len: "length (pp_pending s) = ?n - m" and pend: "pp_pending s = map (\<lambda>n. nth_job s0 n (pp_log s ! n)) [m..<?n]"
    and b: "m \<le> ?n" "?n < m + threads s0" "k = m"
    using v(2) ph by (simp_all add: jobs_inv_def loop_phase_def)
  define s2 where "s2 = await_oldest s1"
  have w: "s2 = (if ?n + 1 - m \<ge> threads s0 then s1\<lparr>pp_phase := Waiting (hd (pp_pending s1)), pp_pending := tl (pp_pending s1)\<rparr> else s1)"
    using s1 len b by (simp add: s2_def await_oldest_def Suc_diff_le)
  have f2: "flight s2 = flight s1" using s1 by (simp add: w flight_def)
  have e2: "pp_log s2 = pp_log s1" "pp_cur_yolo s2 = pp_cur_yolo s1" "driver_queue s0 s2 = driver_queue s0 s1" by (simp_all add: w)
  have p2: "pp_phase s2 = Looping \<and> ?n + 1 < m + threads s0 \<or> (\<exists>j. pp_phase s2 = Waiting j)" using s1(1) b by (auto simp: w)
  have "jobs_inv s0 k m s2"
  proof -
    have "flight s2 = map (\<lambda>n. nth_job s0 n (pp_log s2 ! n)) [m..<length (pp_log s2)]"
      using ph b pend unfolding f2 f1 e2 s1 by (auto simp: nth_append)
    moreover have "(?n mod threads s0 + 1) mod threads s0 = (?n + 1) mod threads s0" by (simp add: mod_Suc_eq)
    moreover have "?n mod threads s0 + 1 \<le> threads s0" using mod_less_divisor [OF t, of ?n] by linarith
    ultimately show ?thesis using b p2 unfolding jobs_inv_def e2 s1 by (auto simp: loop_phase_def)
  qed
  moreover have "buffers_inv env s0 s2"
  proof (rule buffers_inv_capture [OF v(3) _ i])
    have "driver_queue s0 s1 = remove1 i (driver_queue s0 s)" using os by (simp add: s1_def submitted_frame_def driver_queue_def Let_def)
    then show "driver_queue s0 s2 = remove1 i (driver_queue s0 s)" by (simp add: e2)
    show "flight s2 = flight s @ [?j]" by (simp add: f1 f2)
  qed (simp_all add: ph nth_job_def)
  moreover have "tasks_inv s0 m s2"
  proof -
    have "tasks_inv s0 m s1"
      using v(4) tp.submit_ok [OF q] b(1) unfolding tasks_inv_def s1 by (simp del: mset_filter)
    then show ?thesis by (simp add: w)
  qed
  moreover have "data_inv env s0 m s2" using data_inv_submitted [OF ready inv ph i, of os px q] by (simp add: w s1_def)
  moreover have "results_inv env s0 k m s2"
  proof -
    have "results_inv env s0 k m s1" using v(5) b(1)
      by (simp add: results_inv_def s1(2) s1_def submitted_frame_def seq_of_def Let_def)
    then show ?thesis by (simp add: w)
  qed
  moreover have "fixed_inv s0 s2" using v(1) ph by (simp add: w s1_def submitted_frame_def fixed_inv_def Let_def)
  ultimately have "run_inv env s0 k m s2" unfolding run_inv_def by blast
  moreover have "pp_phase s2 \<noteq> Fault" using p2 by auto
  ultimately show ?thesis by (simp add: s2_def s1_def)
qed

section \<open>All steps\<close>

lemma pipe_step_inv:
  assumes "pipe_ready s0" "pipe_inv env s0 s" "pipe_step env s s'"
  shows "pipe_inv env s0 s'"
  using assms(3)
proof (cases rule: pipe_step.cases)
  case (iterate a px)
  obtain k m where i: "run_inv env s0 k m s" using assms(2) iterate(2) by (auto elim: pipe_invE)
  from on_capture_cases [OF assms(1) i iterate(2,4), of px] show ?thesis
  proof (elim disjE exE conjE)
    fix os
    assume o: "on_capture env a px s = s\<lparr>pp_cur_yolo := next_slot s, pp_os := os\<rparr>" and d: "driver_queue s0 (s\<lparr>pp_os := os\<rparr>) = driver_queue s0 s"
    show ?thesis unfolding iterate(1) o by (rule pipe_invI [OF run_inv_idle [OF assms(1) i iterate(2) d]]) (simp add: iterate(2))
  next
    fix os j q
    assume j: "j \<in> set (driver_queue s0 s)" "driver_queue s0 (s\<lparr>pp_os := os\<rparr>) = remove1 j (driver_queue s0 s)"
      "pool_enqueue (length (pp_log s), length (pp_log s) mod threads s0) (pp_pool s) = Inr q"
      and o: "on_capture env a px s = await_oldest (submitted_frame s0 os j px q s)"
    show ?thesis unfolding iterate(1) o using run_inv_capture [OF assms(1) i iterate(2) j, of px] by (blast intro: pipe_invI)
  qed
next
  case (finish j r)
  obtain k m where "run_inv env s0 k m s" using assms(2) finish(2) by (auto elim: pipe_invE)
  from run_inv_finish [OF assms(1) this, of False j r] show ?thesis using finish by (simp add: finish_forms)
next
  case leave
  obtain k m where "run_inv env s0 k m s" using assms(2) leave(2) by (auto elim: pipe_invE)
  then have "run_inv env s0 k m s'" using leave by (simp add: run_inv_leave)
  then show ?thesis by (rule pipe_invI) (simp add: leave(1))
next
  case drain
  obtain k m where "run_inv env s0 k m s" using assms(2) drain(2) by (auto elim: pipe_invE)
  then have "run_inv env s0 k m s'" using drain by (simp add: run_inv_drain)
  then show ?thesis by (rule pipe_invI) (simp add: drain(1) drain_step_def Let_def split: list.split prod.split)
next
  case (drain_finish j r)
  obtain k m where "run_inv env s0 k m s" using assms(2) drain_finish(2) by (auto elim: pipe_invE)
  from run_inv_finish [OF assms(1) this, of True j r] show ?thesis using drain_finish by (simp add: finish_forms)
next
  case (worker e q)
  obtain k m where "run_inv env s0 k m s" using assms(2) worker(2) by (auto elim: pipe_invE)
  from run_inv_worker [OF this worker(3,4)] show ?thesis unfolding worker(1) by (rule pipe_invI) (simp add: worker(2))
next
  case (task t q)
  obtain k m where i: "run_inv env s0 k m s" using assms(2) task(2) by (auto elim: pipe_invE)
  obtain n slot where t: "t = (n, slot)" by (cases t)
  show ?thesis unfolding task(1) t by (rule run_task_inv [OF assms(1) i _ task(2)]) (use task(3) t in simp)
next
  case request_stop
  show ?thesis using assms(2) run_inv_stop [of env s0 _ _ s] unfolding pipe_inv_def request_stop by (auto split: if_splits)
next
  case (others os)
  show ?thesis
  proof (cases "pp_phase s = Fault")
    case True
    then show ?thesis using assms(2) others(1) by (simp add: pipe_inv_def)
  next
    case False
    then obtain k m where i: "run_inv env s0 k m s" using assms(2) by (auto elim: pipe_invE)
    have "run_inv env s0 k m s'" unfolding others(1)
      by (rule run_inv_os [OF i]) (use i others(2) in \<open>simp add: run_inv_def fixed_inv_def driver_queue_def\<close>)
    then show ?thesis by (rule pipe_invI) (simp add: others(1) False)
  qed
qed

lemma pipe_run_inv: "pipe_run env s0 s \<Longrightarrow> pipe_ready s0 \<Longrightarrow> pipe_inv env s0 s"
  by (induction rule: pipe_run.induct) (auto intro: ready_inv pipe_step_inv)

end
