(* ===== verification/PipeSafe.thy ===== *)
theory PipeSafe imports PipeInv begin

text \<open>
  The properties of the pipeline: no two of its threads share a detector, an output image or a
  capture buffer; its results are those of the sequential program; and it needs as many capture
  buffers as threads to get anywhere.
\<close>

section \<open>Starvation\<close>

text \<open>The main thread waits only when as many jobs are in flight as there are threads.\<close>

lemma await_waiting:
  assumes "pp_phase s = Looping" "pp_phase (await_oldest s) \<noteq> Looping" "0 < threads s"
  shows "threads s \<le> length (flight (await_oldest s))"
  using assms by (cases "pp_pending s") (auto simp: await_oldest_def flight_def split: if_splits)

lemma flight_bound:
  assumes "buffers_inv env s0 s" "pp_phase s \<noteq> Ended"
  shows "length (driver_queue s0 s) + length (flight s) \<le> length (cp_buffers (pp_capture s0))"
proof -
  let ?used = "driver_queue s0 s @ map jb_capture_index (flight s)"
  have "distinct ?used" "set ?used \<subseteq> {..<length (cp_buffers (pp_capture s0))}" using assms by (simp_all add: buffers_inv_def Let_def)
  then have "length ?used \<le> length (cp_buffers (pp_capture s0))"
    using card_mono [of "{..<length (cp_buffers (pp_capture s0))}" "set ?used"] distinct_card [of ?used] by simp
  then show ?thesis by simp
qed

definition stuck_inv :: "'p pipe \<Rightarrow> 'p pipe \<Rightarrow> bool" where
  "stuck_inv s0 s \<longleftrightarrow> pp_stop s \<or> (pp_phase s = Looping \<or> pp_phase s = Fault) \<and> pp_sent s = pp_sent s0 \<and>
     length (pp_pending s) = length (pp_log s) \<and> length (pp_log s) \<le> length (cp_buffers (pp_capture s0))"

lemma stuck_capture:
  assumes ready: "pipe_ready s0" and few: "length (cp_buffers (pp_capture s0)) < threads s0" and inv: "run_inv env s0 k m s"
    and ph: "pp_phase s = Looping" and law: "driver_law a s" and st: "stuck_inv s0 s"
  shows "stuck_inv s0 (on_capture env a px s)"
proof (cases "pp_stop s")
  case True
  from on_capture_cases [OF ready inv ph law, of px] have "pp_stop (on_capture env a px s)"
    using True by (auto simp: await_oldest_def submitted_frame_def Let_def)
  then show ?thesis by (simp add: stuck_inv_def)
next
  case False
  then have s: "pp_sent s = pp_sent s0" "length (pp_pending s) = length (pp_log s)" "length (pp_log s) \<le> length (cp_buffers (pp_capture s0))"
    using st by (simp_all add: stuck_inv_def)
  from on_capture_cases [OF ready inv ph law, of px] show ?thesis
  proof (elim disjE exE conjE)
    fix os assume "on_capture env a px s = s\<lparr>pp_cur_yolo := next_slot s, pp_os := os\<rparr>"
    then show ?thesis using s ph by (simp add: stuck_inv_def)
  next
    fix os i q
    assume i: "i \<in> set (driver_queue s0 s)" "driver_queue s0 (s\<lparr>pp_os := os\<rparr>) = remove1 i (driver_queue s0 s)"
      "pool_enqueue (length (pp_log s), length (pp_log s) mod threads s0) (pp_pool s) = Inr q"
      and o: "on_capture env a px s = await_oldest (submitted_frame s0 os i px q s)"
    let ?s1 = "submitted_frame s0 os i px q s"
    have r: "run_inv env s0 k m (await_oldest ?s1)" "pp_phase (await_oldest ?s1) \<noteq> Fault" using run_inv_capture [OF ready inv ph i, of px] by simp_all
    have b: "buffers_inv env s0 (await_oldest ?s1)" using r(1) by (simp add: run_inv_def)
    have c: "pp_config s = pp_config s0" using inv by (simp add: run_inv_def fixed_inv_def)
    have p1: "pp_phase ?s1 = Looping" "threads ?s1 = threads s0" "pp_sent ?s1 = pp_sent s0" "length (pp_pending ?s1) = length (pp_log ?s1)"
      using ph c s by (simp_all add: submitted_frame_def Let_def)
    have t: "0 < threads s0" using ready by (simp add: pipe_ready_def)
    have ne: "pp_phase (await_oldest ?s1) \<noteq> Ended" using p1(1) by (simp add: await_oldest_def)
    have "length (flight (await_oldest ?s1)) \<le> length (cp_buffers (pp_capture s0))" using flight_bound [OF b ne] by simp
    then have "pp_phase (await_oldest ?s1) = Looping" using await_waiting [of ?s1] p1(1,2) t few by linarith
    then have w: "await_oldest ?s1 = ?s1" by (simp add: await_oldest_def split: if_splits)
    have "length (flight ?s1) \<le> length (cp_buffers (pp_capture s0))" using flight_bound [OF b ne] w by simp
    then have "length (pp_log ?s1) \<le> length (cp_buffers (pp_capture s0))" using p1(1,4) by simp
    then show ?thesis unfolding o w using p1 by (simp add: stuck_inv_def)
  qed
qed

lemma stuck_step:
  assumes ready: "pipe_ready s0" and few: "length (cp_buffers (pp_capture s0)) < threads s0" and inv: "pipe_inv env s0 s"
    and st: "stuck_inv s0 s" and step: "pipe_step env s s'"
  shows "stuck_inv s0 s'"
  using step
proof (cases rule: pipe_step.cases)
  case (iterate a px)
  obtain k m where i: "run_inv env s0 k m s" using inv iterate(2) by (auto elim: pipe_invE)
  show ?thesis unfolding iterate(1) by (rule stuck_capture [OF ready few i iterate(2,4) st])
next
  case (finish j r)
  then have "pp_stop s" using st by (simp add: stuck_inv_def)
  then show ?thesis unfolding finish(1) finish_forms
    by (auto simp: stuck_inv_def finish_job_def requeue_def render_job_def encode_job_def send_frame_def Let_def split: option.splits prod.splits)
next
  case (drain_finish j r)
  then have "pp_stop s" using st by (simp add: stuck_inv_def)
  then show ?thesis unfolding drain_finish(1) finish_forms
    by (auto simp: stuck_inv_def finish_job_def requeue_def render_job_def encode_job_def send_frame_def Let_def split: option.splits prod.splits)
next
  case (task t q)
  then show ?thesis using st by (cases t) (auto simp: stuck_inv_def run_task_def split: option.splits)
qed (use st in \<open>auto simp: stuck_inv_def drain_step_def split: list.splits prod.splits\<close>)

lemma stuck_run:
  assumes "pipe_run env s0 s" "pipe_ready s0" "length (cp_buffers (pp_capture s0)) < threads s0"
  shows "stuck_inv s0 s"
  using assms
proof (induction rule: pipe_run.induct)
  case begin_run
  then show ?case by (simp add: stuck_inv_def pipe_ready_def)
next
  case (continue s s')
  then show ?case using stuck_step [OF continue(4,5) pipe_run_inv [OF continue(1,4)] _ continue(2)] by blast
qed

section \<open>Sample states\<close>

text \<open>
  A transcoder without tracker, with a network that finds nothing and an encoder that answers with
  one packet, for the witnesses.
\<close>

definition sample_kernel :: kernel where
  "sample_kernel = \<lparr>kn_open = \<lambda>path os. -1, kn_heap_alloc = \<lambda>fd n os. None, kn_mmap = \<lambda>fd n os. None, kn_querycap = \<lambda>fd os. None,
     kn_s_fmt = \<lambda>fd f os. None, kn_reqbufs = \<lambda>fd n os. None, kn_qbuf = \<lambda>fd r os. True, kn_streamon = \<lambda>fd os. True\<rparr>"

definition sample_env :: "(unit, unit) pipe_env" where
  "sample_env =
     \<lparr>pv_yolo = \<lparr>ye_imcheck = \<lambda>f y. True, ye_improcess = \<lambda>f y. Some (), ye_mem_sync = \<lambda>m. 0, ye_run = \<lambda>m. (0, [], [], []),
         ye_cvtcolor = \<lambda>f. Some [1, 2, 3], ye_labels = None\<rparr>,
      pv_text = \<lambda>t. (0, 0, 0), pv_paint = \<lambda>cmds img. img,
      pv_mpp = \<lambda>images. \<lparr>ma_commit = True, ma_get = True, ma_frame_init = True, ma_put_frame = True,
         ma_packet = Some [0, 0, 0, 1, 0x65], ma_header = Some []\<rparr>,
      pv_solve = \<lambda>a b. b, pv_deep = crop_env, pv_kernel = sample_kernel\<rparr>"

definition sample_config :: "nat \<Rightarrow> config" where
  "sample_config nt = \<lparr>cf_width = 640, cf_height = 480, cf_fps = 30, cf_fix_qp = 23, cf_rknn_thread = int nt, cf_dma_buffers = 2,
     cf_tracker_enable = False, cf_tracker_type = ''none'', cf_track_buffer = 30, cf_track_thresh = 1/2, cf_high_thresh = 6/10,
     cf_match_thresh = 8/10, cf_reid_model_path = '''', cf_reid_feature_dim = 1, cf_reid_interval = 1, cf_reid_cpu_id = 6,
     cf_reid_npu_core = 2, cf_device_name = ''/dev/video0'', cf_stream_name = ''cam'', cf_section_name = ''video'', cf_dma_heap = ''''\<rparr>"

definition sample_buffers :: "nat \<Rightarrow> nat \<Rightarrow> dma_buffer list" where
  "sample_buffers base n = map (\<lambda>i. \<lparr>db_fd = int (base + i), db_va = base + i, db_size = 8\<rparr>) [0..<n]"

definition sample_pipe :: "nat \<Rightarrow> nat \<Rightarrow> unit pipe" where
  "sample_pipe nt n =
     \<lparr>pp_config = sample_config nt,
      pp_capture = \<lparr>cp_fd = 3, cp_streaming = True, cp_width = 640, cp_height = 480, cp_pixfmt = V4L2_PIX_FMT_YUYV, cp_buf_type = 1,
         cp_mplane = False, cp_num_planes = 1, cp_plane0_size = 8, cp_buffers = sample_buffers 10 n\<rparr>,
      pp_outs = sample_buffers 50 nt, pp_yolos = replicate nt (new_yolo\<lparr>yo_input_mem := True\<rparr>), pp_cur_yolo = 0,
      pp_pending = [], pp_pool = new_pool nt, pp_futures = \<lambda>_. None, pp_frames = \<lambda>_. (), pp_images = \<lambda>_. [],
      pp_labels = \<lparr>lt_init = True, lt_labels = []\<rparr>, pp_tracker = No_tracker, pp_ids = 0,
      pp_encoder = (new_encoder (0, 0) \<lparr>ep_fmt = 0, ep_width = 640, ep_height = 480, ep_hor_stride = 0, ep_ver_stride = 0,
         ep_frame_size = 0, ep_fps = 30, ep_fix_qp = 23\<rparr>)\<lparr>en_group := True\<rparr>,
      pp_encoded = [], pp_encode_data = replicate 8 0, pp_frame_size = 0, pp_callback = True, pp_sent = [], pp_stop = False,
      pp_phase = Looping,
      pp_os = \<lparr>os_fds = {3}, os_maps = {}, os_queue = \<lambda>fd. [0..<n], os_calls = 0\<rparr>, pp_log = []\<rparr>"

definition sample_answer :: "32 word \<Rightarrow> poll_answer" where
  "sample_answer i = \<lparr>pa_poll = 1, pa_interrupted = False, pa_error = False, pa_dqbuf = Some i, pa_again = False\<rparr>"

lemma sample_buffers_simps [simp]:
  "length (sample_buffers a n) = n" "map db_va (sample_buffers a n) = map ((+) a) [0..<n]" "map db_fd (sample_buffers a n) = map (\<lambda>i. int (a + i)) [0..<n]"
  "\<forall>b\<in>set (sample_buffers a n). db_va b \<ge> a \<and> 0 \<le> db_fd b"
  by (auto simp: sample_buffers_def comp_def)

lemma sample_ready:
  assumes "0 < nt" "2 \<le> n"
  shows "pipe_ready (sample_pipe nt n)"
proof -
  have "distinct (map (\<lambda>i. int (10 + i)) [0..<n])" by (simp add: distinct_map inj_on_def)
  moreover have "filter (\<lambda>x. 0 \<le> x) (map (\<lambda>i. int (10 + i)) [0..<n]) = map (\<lambda>i. int (10 + i)) [0..<n]"
      "filter (\<lambda>x. 0 < x) (map ((+) (10 :: nat)) [0..<n]) = map ((+) 10) [0..<n]"
    by (auto simp: filter_id_conv)
  ultimately have "buffers_distinct (sample_buffers 10 n)" by (simp add: buffers_distinct_def distinct_map)
  moreover have "\<forall>b\<in>set (sample_buffers 10 n). 0 \<le> db_fd b \<and> 0 < db_va b" "\<forall>b\<in>set (sample_buffers 50 nt). 0 < db_va b"
    by (auto simp: sample_buffers_def)
  ultimately show ?thesis using assms
    by (simp add: pipe_ready_def sample_pipe_def sample_config_def capture_ok_def driver_queue_def distinct_map)
qed

text \<open>One frame on its way through a pipeline of one thread, to the callback.\<close>

definition sample_captured :: "unit pipe" where
  "sample_captured = on_capture sample_env (sample_answer 0) () (sample_pipe 1 2)"

definition sample_inferred :: "unit pipe" where
  "sample_inferred = run_task sample_env (0, 0) (sample_captured\<lparr>pp_pool := set_worker 0 Checking (worker_check 0 (pp_pool sample_captured))\<rparr>)"

definition sample_job :: job where
  "sample_job = \<lparr>jb_ticket = 0, jb_slot = 0, jb_input_size = 460800, jb_capture_index = 0\<rparr>"

definition sample_done :: "unit pipe" where
  "sample_done = finish_main sample_env sample_job 0 sample_inferred"

lemma sample_captured_state:
  "pp_phase sample_captured = Waiting sample_job" "pp_pending sample_captured = []" "pp_log sample_captured = [(0, ())]"
  "pp_pool sample_captured = \<lparr>pl_tasks = [(0, 0)], pl_workers = [Checking], pl_stop = False, pl_notify = 1, pl_notify_all = False\<rparr>"
  "pp_config sample_captured = sample_config 1" "pp_capture sample_captured = pp_capture (sample_pipe 1 2)"
  "pp_outs sample_captured = sample_buffers 50 1"
  "pp_yolos sample_captured = [new_yolo\<lparr>yo_input_mem := True, yo_inbuf := 10, yo_outbuf := 50, yo_outfd := 50\<rparr>]"
  "pp_labels sample_captured = \<lparr>lt_init = True, lt_labels = []\<rparr>" "pp_callback sample_captured" "pp_sent sample_captured = []"
  "pp_encoder sample_captured = pp_encoder (sample_pipe 1 2)" "pp_encode_data sample_captured = replicate 8 0" "pp_encoded sample_captured = []"
  "pp_tracker sample_captured = No_tracker" "pp_futures sample_captured = (\<lambda>_. None)"
  by (simp_all add: sample_captured_def sample_pipe_def sample_config_def sample_answer_def on_capture_def v4l2_dmabuf_dqbuf_def sample_buffers_def
      submit_frame_def await_oldest_def pool_enqueue_def new_pool_def set_buffers_def sample_job_def c_div_def new_yolo_def)

lemma fold_idle: "fold (\<lambda>a. id) xs x = x"
  by (induction xs) simp_all

lemma sample_inference:
  "inference (pv_yolo sample_env) w h frames (new_yolo\<lparr>yo_input_mem := True, yo_inbuf := 10, yo_outbuf := 50, yo_outfd := 50\<rparr>) out
      \<lparr>lt_init = True, lt_labels = []\<rparr> =
     Some (0, new_yolo\<lparr>yo_input_mem := True, yo_inbuf := 10, yo_outbuf := 50, yo_outfd := 50\<rparr>, out(50 := [1, 2, 3]), \<lparr>lt_init = True, lt_labels = []\<rparr>)"
  by (simp add: inference_def sample_env_def preprocess_def convert_output_def post_process_def detect_tensors_def process_tensor_def
      fold_idle new_yolo_def Let_def)

lemma sample_inferred_state:
  "sample_inferred = sample_captured\<lparr>pp_pool := new_pool 1\<lparr>pl_notify := 1\<rparr>,
     pp_images := (pp_images sample_captured)(50 := [1, 2, 3]), pp_futures := (\<lambda>_. None)(0 := Some 0)\<rparr>"
proof -
  have q: "set_worker 0 Checking (worker_check 0 (pp_pool sample_captured)) = new_pool 1\<lparr>pl_notify := 1\<rparr>"
    by (simp add: sample_captured_state worker_check_def set_worker_def new_pool_def)
  have "sample_inferred = sample_captured\<lparr>pp_pool := new_pool 1\<lparr>pl_notify := 1\<rparr>, pp_yolos := pp_yolos sample_captured,
     pp_images := (pp_images sample_captured)(50 := [1, 2, 3]), pp_labels := pp_labels sample_captured, pp_futures := (\<lambda>_. None)(0 := Some 0)\<rparr>"
    unfolding sample_inferred_def q by (simp add: run_task_def sample_captured_state sample_inference)
  then show ?thesis by simp
qed

lemma sample_done_state:
  "pp_phase sample_done = Looping" "pp_sent sample_done = [[0x65]]" "pp_log sample_done = [(0, ())]" "pp_pending sample_done = []"
proof -
  have y: "pp_yolos sample_inferred ! 0 = new_yolo\<lparr>yo_input_mem := True, yo_inbuf := 10, yo_outbuf := 50, yo_outfd := 50\<rparr>"
    by (simp add: sample_inferred_state sample_captured_state)
  have g: "get_last_detect_result (pp_yolos sample_inferred ! 0) = zero_group" by (simp add: y get_last_detect_result_def new_yolo_def)
  have r: "render_overlay (pv_text sample_env) (pp_yolos sample_inferred ! 0) zero_group 640 480 = (0, [])"
    by (simp add: y render_overlay_def build_overlay_group_def listed_def zero_group_def draw_boxes_def draw_text_def new_yolo_def Let_def)
  obtain s where s: "render_job sample_env sample_job (sample_inferred\<lparr>pp_phase := Looping\<rparr>) = Some (True, s)"
      "pp_encoder s = pp_encoder (sample_pipe 1 2)" "pp_encode_data s = replicate 8 0" "pp_outs s = sample_buffers 50 1"
      "pp_phase s = Looping" "pp_sent s = []" "pp_callback s" "pp_log s = [(0, ())]" "pp_pending s = []"
    using g r by (simp add: render_job_def sample_job_def track_group_def requeue_def sample_inferred_state sample_captured_state sample_config_def Let_def)
  have e: "encode_dmabuf (pv_mpp sample_env images) 50 50 (replicate 8 0) (pp_encoder (sample_pipe 1 2)) =
      Some (5, [0, 0, 0, 1, 0x65, 0, 0, 0], pp_encoder (sample_pipe 1 2))" for images
    by (simp add: encode_dmabuf_def sample_env_def sample_pipe_def new_encoder_def copy_packet_to_buffer_def write_bytes_def release_ext_def
        numeral_eq_Suc Let_def)
  obtain s2 where s2: "encode_job sample_env sample_job s = Some s2" "pp_frame_size s2 = 5" "pp_encode_data s2 = [0, 0, 0, 1, 0x65, 0, 0, 0]"
      "pp_phase s2 = Looping" "pp_sent s2 = []" "pp_callback s2" "pp_log s2 = [(0, ())]" "pp_pending s2 = []"
    using e s by (simp add: encode_job_def sample_job_def sample_buffers_def Let_def)
  have d: "sample_done = send_frame s2" using s(1) s2 by (simp add: sample_done_def finish_main_def)
  show "pp_phase sample_done = Looping" "pp_sent sample_done = [[0x65]]" "pp_log sample_done = [(0, ())]" "pp_pending sample_done = []"
    using s2 unfolding d by (simp_all add: send_frame_def startCode3_def)
qed

lemma sample_captured_run: "pipe_run sample_env (sample_pipe 1 2) sample_captured"
proof -
  have law: "driver_law (sample_answer 0) (sample_pipe 1 2)" by (simp add: driver_law_def sample_answer_def sample_pipe_def)
  have s0: "pp_phase (sample_pipe 1 2) = Looping" "\<not> pp_stop (sample_pipe 1 2)" by (simp_all add: sample_pipe_def)
  have r1: "pipe_run sample_env (sample_pipe 1 2) sample_captured" unfolding sample_captured_def
    by (rule continue [OF begin_run iterate [OF s0 law]])
  then show ?thesis .
qed

lemma sample_inferred_run: "pipe_run sample_env (sample_pipe 1 2) sample_inferred"
proof -
  note r1 = sample_captured_run
  let ?q1 = "worker_check 0 (pp_pool sample_captured)"
  have t: "pool_step (pp_pool sample_captured) (Take (0, 0)) ?q1" by (rule take_task) (simp_all add: sample_captured_state)
  have r2: "pipe_run sample_env (sample_pipe 1 2) (sample_captured\<lparr>pp_pool := ?q1\<rparr>)"
    by (rule continue [OF r1 worker [OF _ t]]) (simp_all add: sample_captured_state)
  have "pool_step ?q1 (Finish (0, 0)) (set_worker 0 Checking ?q1)"
    by (rule pool_step.finish) (simp_all add: sample_captured_state worker_check_def)
  then have f: "pool_step (pp_pool (sample_captured\<lparr>pp_pool := ?q1\<rparr>)) (Finish (0, 0)) (set_worker 0 Checking ?q1)" by simp
  show ?thesis
    using continue [OF r2 task [OF _ f]] by (simp add: sample_captured_state(1) sample_inferred_def)
qed

lemma sample_done_step: "pipe_step sample_env sample_inferred sample_done"
  unfolding sample_done_def by (rule pipe_step.finish) (simp_all add: sample_inferred_state sample_captured_state(1) sample_job_def)

lemma sample_done_run: "pipe_run sample_env (sample_pipe 1 2) sample_done"
  by (rule continue [OF sample_inferred_run sample_done_step])

section \<open>No sharing\<close>

lemma flight_slots:
  assumes "jobs_inv s0 k m s"
  shows "map jb_slot (flight s) = map (\<lambda>n. n mod threads s0) [m..<length (pp_log s)]"
    "inj_on (\<lambda>n. n mod threads s0) {m..<length (pp_log s)}"
proof -
  have "flight s = map (\<lambda>n. nth_job s0 n (pp_log s ! n)) [m..<length (pp_log s)]" using assms by (simp add: jobs_inv_def)
  then show "map jb_slot (flight s) = map (\<lambda>n. n mod threads s0) [m..<length (pp_log s)]" by (simp add: nth_job_def comp_def)
  show "inj_on (\<lambda>n. n mod threads s0) {m..<length (pp_log s)}" using same_slot [OF assms] by (auto intro!: inj_onI)
qed

lemma pool_slots:
  assumes "tasks_inv s0 m s" "inj_on (\<lambda>n. n mod threads s0) {m..<length (pp_log s)}"
  shows "distinct (map snd (pl_tasks (pp_pool s) @ running (pp_pool s)))"
    "set (pl_tasks (pp_pool s) @ running (pp_pool s)) \<subseteq> (\<lambda>n. (n, n mod threads s0)) ` {m..<length (pp_log s)}"
proof -
  let ?ns = "filter (\<lambda>n. pp_futures s n = None) [m..<length (pp_log s)]" and ?ts = "pl_tasks (pp_pool s) @ running (pp_pool s)"
  have m: "mset ?ts = mset (map (\<lambda>n. (n, n mod threads s0)) ?ns)" using assms(1) by (simp add: tasks_inv_def pool_bag_def del: mset_filter)
  have "distinct (map (\<lambda>n. n mod threads s0) ?ns)"
    using assms(2) by (auto simp: distinct_map intro: inj_on_subset)
  then have "distinct (map snd (map (\<lambda>n. (n, n mod threads s0)) ?ns))" by (simp add: comp_def)
  moreover have "mset (map snd ?ts) = mset (map snd (map (\<lambda>n. (n, n mod threads s0)) ?ns))" using m by (simp only: mset_map)
  ultimately show "distinct (map snd ?ts)" using mset_eq_imp_distinct_iff by blast
  show "set ?ts \<subseteq> (\<lambda>n. (n, n mod threads s0)) ` {m..<length (pp_log s)}" using mset_eq_setD [OF m] by auto
qed

text \<open>
  C3.  Whatever the interleaving, two jobs in flight are on different detectors, hence on different
  output images; the pool never holds two tasks of one detector; the detector whose turn it is has
  no job; and every capture buffer is either with the driver or with one job, so that the camera
  never writes into a frame that is being read and no buffer is lost while requeueing succeeds.
\<close>

theorem pipeline_no_sharing:
  assumes "pipe_ready s0" "pipe_run env s0 s" "pp_phase s \<noteq> Fault"
  shows "distinct (map jb_slot (flight s)) \<and> distinct (map (\<lambda>j. db_va (pp_outs s ! jb_slot j)) (flight s)) \<and>
    distinct (map snd (pl_tasks (pp_pool s) @ running (pp_pool s))) \<and>
    set (pl_tasks (pp_pool s) @ running (pp_pool s)) \<subseteq> (\<lambda>j. (jb_ticket j, jb_slot j)) ` set (flight s) \<and>
    (pp_phase s = Looping \<longrightarrow> next_slot s \<notin> jb_slot ` set (flight s)) \<and>
    (pp_phase s \<noteq> Ended \<longrightarrow> distinct (driver_queue s0 s @ map jb_capture_index (flight s)) \<and>
       ((\<forall>fd r os. kn_qbuf (pv_kernel env) fd r os) \<longrightarrow>
          set (driver_queue s0 s @ map jb_capture_index (flight s)) = {..<length (cp_buffers (pp_capture s0))}))"
proof -
  obtain k m where inv: "run_inv env s0 k m s" using pipe_run_inv [OF assms(2,1)] assms(3) by (auto elim: pipe_invE)
  then have i: "fixed_inv s0 s" "jobs_inv s0 k m s" "buffers_inv env s0 s" "tasks_inv s0 m s" by (simp_all add: run_inv_def)
  note fs = flight_slots [OF i(2)]
  have t: "0 < threads s0" using assms(1) by (simp add: pipe_ready_def)
  have fl: "flight s = map (\<lambda>n. nth_job s0 n (pp_log s ! n)) [m..<length (pp_log s)]" using i(2) by (simp add: jobs_inv_def)
  have d: "distinct (map jb_slot (flight s))" unfolding fs(1) using fs(2) by (simp add: distinct_map)
  have o: "pp_outs s = pp_outs s0" "pp_config s = pp_config s0" using i(1) by (simp_all add: fixed_inv_def)
  have lt: "jb_slot j < threads s0" if "j \<in> set (flight s)" for j using that t unfolding fl by (auto simp: nth_job_def)
  then have "inj_on (\<lambda>a. db_va (pp_outs s0 ! a)) (set (map jb_slot (flight s)))"
    using outs_distinct [OF assms(1)] by (auto intro!: inj_onI)
  then have "distinct (map (\<lambda>a. db_va (pp_outs s0 ! a)) (map jb_slot (flight s)))" using d unfolding distinct_map by blast
  then have d2: "distinct (map (\<lambda>j. db_va (pp_outs s ! jb_slot j)) (flight s))" by (simp add: o comp_def)
  note ps = pool_slots [OF i(4) fs(2)]
  have s: "set (pl_tasks (pp_pool s) @ running (pp_pool s)) \<subseteq> (\<lambda>j. (jb_ticket j, jb_slot j)) ` set (flight s)"
    using ps(2) unfolding fl by (auto simp: image_image nth_job_def)
  have n: "next_slot s \<notin> jb_slot ` set (flight s)" if "pp_phase s = Looping"
  proof
    assume "next_slot s \<in> jb_slot ` set (flight s)"
    then obtain n where "m \<le> n" "n < length (pp_log s)" "next_slot s = n mod threads s0" unfolding fl by (auto simp: nth_job_def)
    moreover have "length (pp_log s) < m + threads s0" using i(2) that by (simp add: jobs_inv_def)
    ultimately show False using mod_window [of m n "threads s0" "length (pp_log s)"] next_slot_mod(1) [OF t i(2) o(2)] by simp
  qed
  have b: "distinct (driver_queue s0 s @ map jb_capture_index (flight s)) \<and>
       ((\<forall>fd r os. kn_qbuf (pv_kernel env) fd r os) \<longrightarrow>
          set (driver_queue s0 s @ map jb_capture_index (flight s)) = {..<length (cp_buffers (pp_capture s0))})" if "pp_phase s \<noteq> Ended"
  proof -
    let ?used = "driver_queue s0 s @ map jb_capture_index (flight s)" and ?n = "length (cp_buffers (pp_capture s0))"
    have u: "distinct ?used" "set ?used \<subseteq> {..<?n}" "(\<forall>fd r os. kn_qbuf (pv_kernel env) fd r os) \<Longrightarrow> length ?used = ?n"
      using i(3) that by (simp_all add: buffers_inv_def Let_def)
    have "set ?used = {..<?n}" if "length ?used = ?n"
      using card_subset_eq [of "{..<?n}" "set ?used"] u(2) distinct_card [OF u(1)] that by simp
    then show ?thesis using u(1,3) by blast
  qed
  show ?thesis using d d2 ps(1) s n b by blast
qed

text \<open>After the first capture of the sample: one job, and the other buffer with the driver.\<close>

theorem pipeline_no_sharing_witness:
  "pipe_run sample_env (sample_pipe 1 2) sample_captured \<and> flight sample_captured = [sample_job] \<and>
   set (driver_queue (sample_pipe 1 2) sample_captured @ map jb_capture_index (flight sample_captured)) = {..<2}"
proof -
  have r: "pipe_run sample_env (sample_pipe 1 2) sample_captured" by (rule sample_captured_run)
  have "\<forall>fd r os. kn_qbuf (pv_kernel sample_env) fd r os" by (simp add: sample_env_def sample_kernel_def)
  moreover have "length (cp_buffers (pp_capture (sample_pipe 1 2))) = 2" by (simp add: sample_pipe_def)
  ultimately have "set (driver_queue (sample_pipe 1 2) sample_captured @ map jb_capture_index (flight sample_captured)) = {..<2}"
    using pipeline_no_sharing [OF sample_ready [of 1 2] r] by (simp add: sample_captured_state(1))
  then show ?thesis using r by (simp add: sample_captured_state(1,2))
qed

section \<open>Refinement\<close>

text \<open>
  C2.  The pipeline refines the sequential program: the trackers, the encoder and the frames given to
  the callback are at any time those of the sequential program on the first \<open>m\<close> frames captured, in
  the order of capture; the others are the jobs in flight, and when \<open>run\<close> has ended there are none.
  A memory error of the pipeline is one of the sequential program on the same frames.
\<close>

theorem pipeline_refines_sequential:
  assumes "pipe_ready s0" "pipe_run env s0 s"
  shows "if pp_phase s = Fault then \<exists>k. seq_run env s0 k 0 (pp_log s) (seq_of s0) = None
    else \<exists>k m. k \<le> m \<and> m + length (flight s) = length (pp_log s) \<and> (loop_phase (pp_phase s) \<longrightarrow> k = m) \<and>
      map jb_capture_index (flight s) = map fst (drop m (pp_log s)) \<and> (pp_phase s = Ended \<longrightarrow> flight s = []) \<and>
      seq_run env s0 k 0 (take m (pp_log s)) (seq_of s0) = Some (seq_of s)"
proof (cases "pp_phase s = Fault")
  case True
  then show ?thesis using pipe_run_inv [OF assms(2,1)] by (simp add: pipe_inv_def)
next
  case False
  obtain k m where inv: "run_inv env s0 k m s" using pipe_run_inv [OF assms(2,1)] False by (auto elim: pipe_invE)
  then have j: "jobs_inv s0 k m s" and r: "results_inv env s0 k m s" by (simp_all add: run_inv_def)
  have fl: "flight s = map (\<lambda>n. nth_job s0 n (pp_log s ! n)) [m..<length (pp_log s)]" using j by (simp add: jobs_inv_def)
  have l: "m + length (flight s) = length (pp_log s)" using j unfolding fl by (simp add: jobs_inv_def)
  have d: "map jb_capture_index (flight s) = map fst (drop m (pp_log s))"
    unfolding fl by (rule nth_equalityI) (simp_all add: nth_job_def)
  have e: "flight s = []" if "pp_phase s = Ended" 
  proof -
    have "pp_pending s = []" using j that unfolding jobs_inv_def by blast
    then show ?thesis using that by simp
  qed
  have "k \<le> m" "loop_phase (pp_phase s) \<longrightarrow> k = m" using j by (simp_all add: jobs_inv_def)
  then show ?thesis using False l d e r unfolding results_inv_def by auto
qed

theorem pipeline_refines_sequential_witness:
  "seq_run sample_env (sample_pipe 1 2) 1 0 [(0, ())] (seq_of (sample_pipe 1 2)) = Some (seq_of sample_done) \<and>
   sq_sent (seq_of sample_done) = [[0x65]]"
proof -
  have f: "flight sample_done = []" by (simp add: sample_done_state)
  have "pp_phase sample_done \<noteq> Fault" "loop_phase (pp_phase sample_done)" by (simp_all add: sample_done_state loop_phase_def)
  with pipeline_refines_sequential [OF sample_ready [of 1 2] sample_done_run] obtain m where
      "m + length (flight sample_done) = length (pp_log sample_done)"
      "seq_run sample_env (sample_pipe 1 2) m 0 (take m (pp_log sample_done)) (seq_of (sample_pipe 1 2)) = Some (seq_of sample_done)"
    by auto
  then show ?thesis using f by (simp add: sample_done_state seq_of_def)
qed

section \<open>Capture buffers\<close>

text \<open>
  C37.  With fewer capture buffers than threads the pipeline starves: until a stop is requested it
  captures at most as many frames as there are buffers, hands none of them on and waits for ever for
  a buffer of the driver.  With as many buffers as threads, in contrast, the driver has a buffer
  whenever the main thread asks for one.
\<close>

theorem pipeline_needs_buffers:
  assumes "pipe_ready s0" "pipe_run env s0 s" "\<not> pp_stop s"
  shows "(length (cp_buffers (pp_capture s0)) < threads s0 \<longrightarrow>
      pp_sent s = pp_sent s0 \<and> length (pp_log s) \<le> length (cp_buffers (pp_capture s0)) \<and> (pp_phase s = Looping \<or> pp_phase s = Fault)) \<and>
    (threads s0 \<le> length (cp_buffers (pp_capture s0)) \<and> (\<forall>fd r os. kn_qbuf (pv_kernel env) fd r os) \<and> pp_phase s = Looping \<longrightarrow>
      driver_queue s0 s \<noteq> [])"
proof -
  have "driver_queue s0 s \<noteq> []" if c: "threads s0 \<le> length (cp_buffers (pp_capture s0))" "\<forall>fd r os. kn_qbuf (pv_kernel env) fd r os" "pp_phase s = Looping"
  proof -
    obtain k m where inv: "run_inv env s0 k m s" using pipe_run_inv [OF assms(2,1)] c(3) by (auto elim: pipe_invE)
    have "length (driver_queue s0 s) + length (flight s) = length (cp_buffers (pp_capture s0))"
      using inv c(2,3) by (simp add: run_inv_def buffers_inv_def Let_def)
    moreover have "m \<le> length (pp_log s)" "length (pp_log s) < m + threads s0" using inv c(3) by (simp_all add: run_inv_def jobs_inv_def)
    then have "length (map (\<lambda>n. nth_job s0 n (pp_log s ! n)) [m..<length (pp_log s)]) < threads s0" by simp
    moreover have "flight s = map (\<lambda>n. nth_job s0 n (pp_log s ! n)) [m..<length (pp_log s)]" using inv by (simp add: run_inv_def jobs_inv_def)
    ultimately show ?thesis using c(1) by (metis add_0 leD list.size(3))
  qed
  then show ?thesis using stuck_run [OF assms(2,1)] assms(3) by (auto simp: stuck_inv_def)
qed

text \<open>Three threads and two buffers: after two captures the driver has none left.\<close>

theorem pipeline_needs_buffers_witness:
  "\<exists>s. pipe_run sample_env (sample_pipe 3 2) s \<and> \<not> pp_stop s \<and> driver_queue (sample_pipe 3 2) s = [] \<and> length (pp_log s) = 2 \<and>
     pp_sent s = [] \<and> pp_phase s = Looping"
proof -
  define s1 where "s1 = on_capture sample_env (sample_answer 0) () (sample_pipe 3 2)"
  define s2 where "s2 = on_capture sample_env (sample_answer 1) () s1"
  note defs = sample_pipe_def sample_config_def sample_answer_def on_capture_def v4l2_dmabuf_dqbuf_def sample_buffers_def submit_frame_def
    await_oldest_def pool_enqueue_def new_pool_def set_buffers_def driver_queue_def numeral_eq_Suc
  have a: "pp_phase s1 = Looping" "\<not> pp_stop s1" "os_queue (pp_os s1) 3 = [1]" "cp_fd (pp_capture s1) = 3"
    by (simp_all add: s1_def defs)
  have b: "pp_phase s2 = Looping" "\<not> pp_stop s2" "driver_queue (sample_pipe 3 2) s2 = []" "length (pp_log s2) = 2"
    by (simp_all add: s2_def s1_def defs)
  have "pp_phase (sample_pipe 3 2) = Looping" "\<not> pp_stop (sample_pipe 3 2)" "driver_law (sample_answer 0) (sample_pipe 3 2)"
    by (simp_all add: sample_pipe_def driver_law_def sample_answer_def)
  then have r1: "pipe_run sample_env (sample_pipe 3 2) s1" unfolding s1_def by (rule continue [OF begin_run iterate])
  have "driver_law (sample_answer 1) s1" using a by (simp add: driver_law_def sample_answer_def)
  with a have r2: "pipe_run sample_env (sample_pipe 3 2) s2" unfolding s2_def by (intro continue [OF r1 iterate])
  have "pp_sent s2 = pp_sent (sample_pipe 3 2)"
    using pipeline_needs_buffers [OF sample_ready [of 3 2] r2 b(2)] by (simp add: sample_pipe_def sample_config_def)
  then have "pp_sent s2 = []" by (simp add: sample_pipe_def)
  with r2 b show ?thesis by blast
qed

end
