(* ===== verification/Transcoder.thy ===== *)
theory Transcoder imports PipeInv begin

text \<open>
  The life of a transcoder (\<open>src/src/transcoder.cc\<close>): \<open>init\<close> with its early returns, the destructor,
  and the state in which \<open>run\<close> starts; its thread (\<open>src/src/MThread.cc\<close>); and the part of
  \<open>src/src/main.cc\<close> that creates the transcoders.
\<close>

section \<open>State\<close>

record transcoder =
  tc_config :: config
  tc_ready :: bool
  tc_encode_data :: "(8 word list) option"
  tc_encoder :: "encoder option"
  tc_yolos :: "yolo list"
  tc_tracker_type :: tracker_type
  tc_tracker :: tracker
  tc_pool :: "nat option"
  tc_cur_yolo :: nat
  tc_output_frame_size :: int
  tc_capture :: capture
  tc_outs :: "dma_buffer list"

definition new_transcoder :: "config \<Rightarrow> transcoder" where
  "new_transcoder cfg =
     \<lparr>tc_config = cfg, tc_ready = False, tc_encode_data = None, tc_encoder = None, tc_yolos = [], tc_tracker_type = NONE,
      tc_tracker = No_tracker, tc_pool = None, tc_cur_yolo = 0, tc_output_frame_size = 0, tc_capture = no_capture, tc_outs = []\<rparr>"

text \<open>
  What \<open>init\<close> meets: the kernel, the memory that \<open>malloc\<close> returns, constants and answers of the MPP
  library, the path of the network's model and its runtime for each detector, the label file of DeepSort.
\<close>

record init_env =
  ie_kernel :: kernel
  ie_malloc :: "nat \<Rightarrow> (8 word list) option"
  ie_formats :: "int \<times> int"
  ie_yuv420p :: int
  ie_fixqp :: int
  ie_create :: int
  ie_start :: int
  ie_cfg_init :: "int \<times> bool"
  ie_control :: "(string \<times> int) list \<Rightarrow> int"
  ie_yolo_path :: string
  ie_model :: "nat \<Rightarrow> model_env"
  ie_labels :: "string option"

section \<open>\<open>init\<close>\<close>

definition close_capture :: "transcoder \<Rightarrow> os \<Rightarrow> transcoder \<times> os" where
  "close_capture t os = (let (cap, os) = v4l2_dmabuf_close (tc_capture t) os in (t\<lparr>tc_capture := cap\<rparr>, os))"

text \<open>The camera, with the size that was asked for.\<close>

definition init_capture :: "kernel \<Rightarrow> config \<Rightarrow> os \<Rightarrow> bool \<times> capture \<times> os" where
  "init_capture k c os =
     (let (err, cap, os) = v4l2_dmabuf_open k c os in
      if err \<noteq> None \<or> cp_width cap \<noteq> cf_width c \<or> cp_height cap \<noteq> cf_height c then (False, v4l2_dmabuf_close cap os)
      else (True, cap, os))"

fun alloc_outputs :: "kernel \<Rightarrow> string \<Rightarrow> nat \<Rightarrow> nat list \<Rightarrow> dma_buffer list \<Rightarrow> os \<Rightarrow> bool \<times> dma_buffer list \<times> os" where
  "alloc_outputs k heap n [] outs os = (True, outs, os)"
| "alloc_outputs k heap n (i # is) outs os =
     (let b = (outs ! i)\<lparr>db_size := n\<rparr>; (r, os) = dma_buf_alloc k heap n os in
      case r of
        None \<Rightarrow> (False, outs[i := b], os)
      | Some (fd, va) \<Rightarrow> alloc_outputs k heap n is (outs[i := b\<lparr>db_fd := fd, db_va := va\<rparr>]) os)"

text \<open>
  A detector is initialised with the model's file open; the file is closed unless \<open>Init\<close> has returned
  before its \<open>fclose\<close>, the second result of \<^const>\<open>yolo_init\<close>.
\<close>

definition yolo_open :: "kernel \<Rightarrow> string \<Rightarrow> model_env \<Rightarrow> int \<Rightarrow> os \<Rightarrow> int \<times> yolo \<times> os" where
  "yolo_open k path me cores os =
     (let (fd, os) = sys_open k path os;
          (ret, still_open, y) = yolo_init (me\<lparr>me_opened := fd \<ge> 0\<rparr>) cores new_yolo
      in (ret, y, if fd \<ge> 0 \<and> \<not> still_open then sys_close fd os else os))"

text \<open>The detectors, on the three cores in turn.\<close>

fun init_yolos :: "kernel \<Rightarrow> string \<Rightarrow> (nat \<Rightarrow> model_env) \<Rightarrow> nat list \<Rightarrow> yolo list \<Rightarrow> os \<Rightarrow> bool \<times> yolo list \<times> os" where
  "init_yolos k path model [] ys os = (True, ys, os)"
| "init_yolos k path model (i # is) ys os =
     (let (ret, y, os) = yolo_open k path (model i) (2 ^ (i mod 3)) os in
      if ret \<noteq> 0 then (False, ys, os) else init_yolos k path model is (ys @ [y]) os)"

text \<open>The tracker; for DeepSort the model's file must open, and is closed again.\<close>

definition init_tracker :: "init_env \<Rightarrow> transcoder \<Rightarrow> os \<Rightarrow> tracker option \<times> os" where
  "init_tracker env t os =
     (let c = tc_config t in
      case tc_tracker_type t of
        BYTETRACK \<Rightarrow> (Some (Byte_tracker (new_byte_wrapper (cf_fps c) (cf_track_buffer c) (cf_track_thresh c) (cf_high_thresh c) (cf_match_thresh c))), os)
      | DEEPSORT \<Rightarrow>
          (let (fd, os) = sys_open (ie_kernel env) (cf_reid_model_path c) os in
           if fd < 0 then (None, os)
           else (Some (Deep_tracker (new_deep_wrapper (ie_labels env) (cf_reid_interval c))), sys_close fd os))
      | NONE \<Rightarrow> (Some No_tracker, os))"

definition encoder_of :: "init_env \<Rightarrow> config \<Rightarrow> int \<times> encoder" where
  "encoder_of env c =
     encoder_init (ie_fixqp env) (ie_create env) (ie_start env) (ie_cfg_init env) (ie_control env)
       (new_encoder (ie_formats env) \<lparr>ep_fmt = ie_yuv420p env, ep_width = cf_width c, ep_height = cf_height c, ep_hor_stride = 0,
          ep_ver_stride = 0, ep_frame_size = 0, ep_fps = cf_fps c, ep_fix_qp = cf_fix_qp c\<rparr>)"

text \<open>From the output buffers on; the failure of a buffer or of the tracker leaves the capture open.\<close>

definition init_workers :: "init_env \<Rightarrow> transcoder \<Rightarrow> os \<Rightarrow> transcoder \<times> os" where
  "init_workers env t os =
     (let c = tc_config t; n = nat (cf_rknn_thread c);
          (ok, outs, os) = alloc_outputs (ie_kernel env) (cf_dma_heap c) (nat (tc_output_frame_size t)) [0..<n] (replicate n no_buffer) os;
          t = t\<lparr>tc_outs := outs\<rparr> in
      if \<not> ok then (t, os)
      else
        (let (ret, e) = encoder_of env c; t = t\<lparr>tc_encoder := Some e\<rparr> in
         if ret \<noteq> 0 then close_capture t os
         else
           (let (ok, ys, os) = init_yolos (ie_kernel env) (ie_yolo_path env) (ie_model env) [0..<n] [] os;
                t = t\<lparr>tc_pool := Some n, tc_yolos := ys\<rparr> in
            if \<not> ok then close_capture t os
            else
              (let (tracker, os) = init_tracker env t os in
               case tracker of
                 None \<Rightarrow> (t, os)
               | Some tr \<Rightarrow> (t\<lparr>tc_tracker := tr, tc_cur_yolo := 0, tc_ready := True\<rparr>, os)))))"

definition transcoder_init :: "init_env \<Rightarrow> transcoder \<Rightarrow> os \<Rightarrow> transcoder \<times> os" where
  "transcoder_init env t os =
     (let c = clamp_config (tc_config t);
          (ok, cap, os) = init_capture (ie_kernel env) c os;
          t = t\<lparr>tc_config := c, tc_tracker_type := tracker_of c, tc_capture := cap\<rparr> in
      if \<not> ok then (t, os)
      else
        (let size = c_div (cf_width c * cf_height c * 3) 2; t = t\<lparr>tc_output_frame_size := size\<rparr> in
         case ie_malloc env (nat (max (to_int (int (cp_plane0_size cap))) size + 4096)) of
           None \<Rightarrow> close_capture t os
         | Some mem \<Rightarrow> init_workers env (t\<lparr>tc_encode_data := Some mem\<rparr>) os))"

text \<open>The constructor without arguments: the first configuration of the file, or the defaults of \<open>Config_t\<close>.\<close>

definition default_config :: config where
  "default_config =
     \<lparr>cf_width = 0, cf_height = 0, cf_fps = 0, cf_fix_qp = 0, cf_rknn_thread = 0, cf_dma_buffers = 0, cf_tracker_enable = True,
      cf_tracker_type = ''bytetrack'', cf_track_buffer = 30, cf_track_thresh = 1/2, cf_high_thresh = 6/10, cf_match_thresh = 8/10,
      cf_reid_model_path = [], cf_reid_feature_dim = 512, cf_reid_interval = 1, cf_reid_cpu_id = 6, cf_reid_npu_core = 2,
      cf_device_name = [], cf_stream_name = [], cf_section_name = [], cf_dma_heap = []\<rparr>"

definition transcoder_default :: "init_env \<Rightarrow> string option \<Rightarrow> os \<Rightarrow> transcoder \<times> os" where
  "transcoder_default env file os =
     transcoder_init env (new_transcoder (case load_configs file of [] \<Rightarrow> default_config | c # _ \<Rightarrow> c)) os"

section \<open>The destructor\<close>

definition transcoder_destroy :: "transcoder \<Rightarrow> os \<Rightarrow> transcoder \<times> os" where
  "transcoder_destroy t os =
     (let (t, os) = close_capture t os; os = fold dma_buf_free (tc_outs t) os
      in (t\<lparr>tc_outs := [], tc_encoder := None, tc_tracker := No_tracker, tc_yolos := [], tc_pool := None, tc_encode_data := None\<rparr>, os))"

section \<open>Start of \<open>run\<close>\<close>

text \<open>
  What \<open>run\<close> requires before its loop, and the state there: the memory of frames and images, the
  shared label table and the id counter of ByteTrack are the program's, the callback and the stop
  flag the transcoder's.
\<close>

definition run_starts :: "transcoder \<Rightarrow> bool" where
  "run_starts t \<longleftrightarrow> tc_ready t \<and> tc_encoder t \<noteq> None \<and> tc_pool t \<noteq> None \<and> cp_fd (tc_capture t) \<ge> 0"

definition run_pipe :: "transcoder \<Rightarrow> (nat \<Rightarrow> 'p) \<Rightarrow> (nat \<Rightarrow> 8 word list) \<Rightarrow> label_table \<Rightarrow> int \<Rightarrow> bool \<Rightarrow> bool \<Rightarrow> os \<Rightarrow> 'p pipe" where
  "run_pipe t frames images labels counter callback stop os =
     \<lparr>pp_config = tc_config t, pp_capture = tc_capture t, pp_outs = tc_outs t, pp_yolos = tc_yolos t, pp_cur_yolo = tc_cur_yolo t,
      pp_pending = [], pp_pool = new_pool (the (tc_pool t)), pp_futures = \<lambda>_. None, pp_frames = frames, pp_images = images,
      pp_labels = labels, pp_tracker = tc_tracker t, pp_ids = counter, pp_encoder = the (tc_encoder t), pp_encoded = [],
      pp_encode_data = the (tc_encode_data t), pp_frame_size = 0, pp_callback = callback, pp_sent = [], pp_stop = stop,
      pp_phase = Looping, pp_os = os, pp_log = []\<rparr>"

section \<open>The thread\<close>

text \<open>
  \<open>MThread\<close>: the stop flag, whether \<open>th\<close> is joinable, and whether \<open>run\<close> is being executed.  \<^const>\<open>None\<close>
  is \<open>std::terminate\<close> or \<open>std::system_error\<close>; \<open>join\<close> returns when \<open>run\<close> has.
\<close>

record mthread =
  mt_stop :: bool
  mt_joinable :: bool
  mt_running :: bool

definition new_mthread :: mthread where
  "new_mthread = \<lparr>mt_stop = False, mt_joinable = False, mt_running = False\<rparr>"

definition mthread_start :: "mthread \<Rightarrow> mthread option" where
  "mthread_start t = (if mt_joinable t then None else Some (t\<lparr>mt_joinable := True, mt_running := True\<rparr>))"

definition mthread_join :: "mthread \<Rightarrow> mthread option" where
  "mthread_join t = (if \<not> mt_joinable t then None else Some (t\<lparr>mt_joinable := False, mt_running := False\<rparr>))"

definition mthread_detach :: "mthread \<Rightarrow> mthread option" where
  "mthread_detach t = (if \<not> mt_joinable t then None else Some (t\<lparr>mt_joinable := False\<rparr>))"

definition mthread_stop :: "mthread \<Rightarrow> mthread option" where
  "mthread_stop t = (let t = t\<lparr>mt_stop := True\<rparr> in if mt_joinable t then mthread_join t else Some t)"

definition mthread_destroy :: "mthread \<Rightarrow> mthread option" where
  "mthread_destroy t =
     Option.bind (if \<not> mt_stop t then mthread_stop t else Some t) (\<lambda>t. if mt_joinable t then mthread_join t else Some t)"

text \<open>\<open>stop\<close> and the destructor wait for \<open>run\<close>, but not after \<open>detach\<close>.\<close>

lemma stop_waits: "mt_joinable t \<Longrightarrow> mthread_stop t = Some \<lparr>mt_stop = True, mt_joinable = False, mt_running = False\<rparr>"
  by (cases t) (simp add: mthread_stop_def mthread_join_def)

lemma destroy_waits: "mt_joinable t \<Longrightarrow> \<exists>u. mthread_destroy t = Some u \<and> \<not> mt_running u"
  by (simp add: mthread_destroy_def mthread_stop_def mthread_join_def)

lemma detached_outlives:
  assumes "mthread_start t = Some u" "mthread_detach u = Some v" "mthread_stop v = Some w"
  shows "mt_stop w \<and> mt_running w \<and> mthread_destroy w = Some w"
  using assms by (auto simp: mthread_start_def mthread_detach_def mthread_stop_def mthread_destroy_def split: if_splits)

section \<open>Creation of the transcoders\<close>

text \<open>The loop of \<open>main\<close>: a transcoder that is not ready is destroyed at once.\<close>

fun make_transcoders :: "(config \<Rightarrow> init_env) \<Rightarrow> config list \<Rightarrow> os \<Rightarrow> transcoder list \<times> os" where
  "make_transcoders env [] os = ([], os)"
| "make_transcoders env (c # cs) os =
     (let (t, os) = transcoder_init (env c) (new_transcoder c) os in
      if tc_ready t then (let (ts, os) = make_transcoders env cs os in (t # ts, os))
      else make_transcoders env cs (snd (transcoder_destroy t os)))"

datatype main_result = Exit int | Serve "server_config option" "transcoder list" os

definition main_start :: "string option \<Rightarrow> (config \<Rightarrow> init_env) \<Rightarrow> os \<Rightarrow> main_result" where
  "main_start file env os =
     (if ir_error (ini_reader_file file) < 0 then Exit 1
      else if load_configs file = [] then Exit 1
      else
        (let (ts, os) = make_transcoders env (load_configs file) os
         in if ts = [] then Exit 1 else Serve (server_settings file) ts os))"

section \<open>Descriptors and mappings\<close>

lemma destroy_ledger:
  assumes "ledger (tc_capture t) (tc_outs t) before now" "transcoder_destroy t now = (t', now')"
  shows "same_ledger now' before"
proof -
  obtain cap os where c: "v4l2_dmabuf_close (tc_capture t) now = (cap, os)" by (cases "v4l2_dmabuf_close (tc_capture t) now")
  have "cp_fd cap < 0" "cp_buffers cap = []" using close_closed [of "tc_capture t" now] by (simp_all add: c)
  then have "capture_fds cap = {}" "buffer_maps (cp_buffers cap) = {}" by (simp_all add: capture_fds_def)
  moreover have "now' = fold dma_buf_free (tc_outs t) os" using assms(2) c by (auto simp: transcoder_destroy_def close_capture_def)
  ultimately show ?thesis using close_ledger [OF assms(1) c] by (auto simp: ledger_def same_ledger_def free_buffers)
qed

lemma alloc_outputs_ok:
  assumes k: "kernel_fresh k" and "distinct js" "\<forall>j\<in>set js. j < length outs \<and> db_fd (outs ! j) < 0 \<and> db_va (outs ! j) = 0"
    "ledger cap outs before now" "buffers_distinct outs" "alloc_outputs k heap n js outs now = (ok, outs', now')"
  shows "ledger cap outs' before now' \<and> buffers_distinct outs' \<and> length outs' = length outs \<and>
    (ok \<longrightarrow> (\<forall>j\<in>set js. 0 < db_va (outs' ! j))) \<and> (\<forall>j<length outs. j \<notin> set js \<longrightarrow> outs' ! j = outs ! j) \<and>
    (\<forall>x. x \<in> os_fds now \<longrightarrow> os_queue now' x = os_queue now x)"
  using assms(2-)
proof (induction js arbitrary: outs now)
  case Nil
  then show ?case by auto
next
  case (Cons i js)
  let ?b = "(outs ! i)\<lparr>db_size := n\<rparr>"
  have i: "i < length outs" "db_fd (outs ! i) < 0" "db_va (outs ! i) = 0" "i \<notin> set js" using Cons.prems(1,2) by auto
  obtain r os1 where a: "dma_buf_alloc k heap n now = (r, os1)" by (cases "dma_buf_alloc k heap n now")
  note q = dma_buf_alloc_cases(3) [OF k a]
  show ?case
  proof (cases r)
    case None
    have "ledger cap (outs[i := ?b]) before os1"
      using Cons.prems(3) dma_buf_alloc_cases(1) [OF k a None] buffer_sets_update [OF i(1-3), of ?b] i(2,3) by (simp add: ledger_def)
    moreover have "buffers_distinct (outs[i := ?b])"
    proof -
      have "map db_fd (outs[i := ?b]) = map db_fd outs" "map db_va (outs[i := ?b]) = map db_va outs"
        using i(1) by (simp_all add: map_update list_update_same_conv)
      then show ?thesis using Cons.prems(4) by (simp add: buffers_distinct_def)
    qed
    ultimately show ?thesis using Cons.prems(5) a None q by auto
  next
    case (Some p)
    obtain fd va where p: "p = (fd, va)" by (cases p)
    let ?b1 = "?b\<lparr>db_fd := fd, db_va := va\<rparr>"
    let ?o = "outs[i := ?b1]"
    have al: "0 \<le> fd" "fd \<notin> os_fds now" "os_fds os1 = insert fd (os_fds now)" "0 < va" "va \<notin> os_maps now" "os_maps os1 = insert va (os_maps now)"
      using dma_buf_alloc_cases(2) [OF k a] Some p by auto
    have bs: "buffer_fds ?o = insert fd (buffer_fds outs)" "buffer_maps ?o = insert va (buffer_maps outs)"
      using buffer_sets_update [OF i(1-3), of ?b1] al by simp_all
    have l: "ledger cap ?o before os1" using Cons.prems(3) al unfolding ledger_def bs by auto
    have "fd \<notin> buffer_fds outs" "va \<notin> buffer_maps outs" using al(2,5) Cons.prems(3) by (auto simp: ledger_def)
    then have d: "buffers_distinct ?o" using fill_distinct [OF i(1-3) Cons.prems(4), of ?b1] al(1,4) by simp
    have o: "?o ! j = (if j = i then ?b1 else outs ! j)" for j using i(1) by simp
    have e: "\<forall>j\<in>set js. j < length ?o \<and> db_fd (?o ! j) < 0 \<and> db_va (?o ! j) = 0"
      using Cons.prems(2) i(4) unfolding o by auto
    have "alloc_outputs k heap n js ?o os1 = (ok, outs', now')" using Cons.prems(5) a Some p by (simp add: Let_def)
    from Cons.IH [OF _ e l d this] Cons.prems(1)
    have ih: "ledger cap outs' before now' \<and> buffers_distinct outs' \<and> length outs' = length ?o \<and>
        (ok \<longrightarrow> (\<forall>j\<in>set js. 0 < db_va (outs' ! j))) \<and> (\<forall>j<length ?o. j \<notin> set js \<longrightarrow> outs' ! j = ?o ! j) \<and>
        (\<forall>x. x \<in> os_fds os1 \<longrightarrow> os_queue now' x = os_queue os1 x)" by simp
    have "outs' ! i = ?b1" using ih i o by auto
    moreover have "outs' ! j = outs ! j" if "j < length outs" "j \<notin> set (i # js)" for j using ih o that by auto
    ultimately show ?thesis using ih al(3,4) q by auto
  qed
qed

text \<open>
  The models load: neither the allocation nor the seek of \<open>Init\<close> fails.  Otherwise the open file of
  one model is left behind; \<open>unloaded\<close> says which detectors meet that.
\<close>

definition unloaded :: "init_env \<Rightarrow> nat \<Rightarrow> bool" where
  "unloaded env i \<longleftrightarrow> \<not> me_malloc (ie_model env i) \<or> me_seek (ie_model env i) < 0"

lemma yolo_init_leak: "yolo_init me cores y = (ret, True, y') \<Longrightarrow> ret = -1 \<and> (\<not> me_malloc me \<or> me_seek me < 0)"
  by (auto simp: yolo_init_def Let_def split: if_splits option.splits prod.splits)

text \<open>What the initialisation of detectors does to the process: it leaves at most one descriptor behind, and then it fails.\<close>

definition leaves :: "init_env \<Rightarrow> nat set \<Rightarrow> bool \<Rightarrow> int set \<Rightarrow> bool" where
  "leaves env is ok L \<longleftrightarrow> L \<noteq> {} \<longrightarrow> (\<exists>fd. L = {fd}) \<and> \<not> ok \<and> (\<exists>i\<in>is. unloaded env i)"

lemma yolo_open_os:
  assumes k: "kernel_fresh k" and y: "yolo_open k path (ie_model env i) cores now = (ret, y, now')"
  shows "os_maps now' = os_maps now \<and> (\<forall>x\<in>os_fds now. os_queue now' x = os_queue now x) \<and>
    (\<exists>L. os_fds now' = L \<union> os_fds now \<and> L \<inter> os_fds now = {} \<and> leaves env {i} (ret = 0) L)"
proof -
  obtain fd os where o: "sys_open k path now = (fd, os)" by (cases "sys_open k path now")
  note so = sys_open_cases [OF k o]
  obtain still y1 where i: "yolo_init (ie_model env i\<lparr>me_opened := fd \<ge> 0\<rparr>) cores new_yolo = (ret, still, y1)" and n: "now' = (if fd \<ge> 0 \<and> \<not> still then sys_close fd os else os)"
    using y by (auto simp: yolo_open_def o Let_def split: prod.splits)
  show ?thesis
  proof (cases "fd \<ge> 0 \<and> still")
    case True
    then have "leaves env {i} (ret = 0) {fd}" using i by (auto simp: leaves_def unloaded_def dest!: yolo_init_leak)
    then show ?thesis using so True n by (intro conjI ballI exI [of _ "{fd}"]) auto
  next
    case False
    then show ?thesis using so n by (intro conjI ballI exI [of _ "{}"]) (auto simp: leaves_def)
  qed
qed

lemma init_yolos_os:
  assumes k: "kernel_fresh k"
  shows "init_yolos k path (ie_model env) is ys now = (ok, ys', now') \<Longrightarrow>
    os_maps now' = os_maps now \<and> (\<forall>x\<in>os_fds now. os_queue now' x = os_queue now x) \<and> (ok \<longrightarrow> length ys' = length ys + length is) \<and>
    (\<exists>L. os_fds now' = L \<union> os_fds now \<and> L \<inter> os_fds now = {} \<and> leaves env (set is) ok L)"
proof (induction "is" arbitrary: ys now)
  case Nil
  then show ?case by (auto simp: leaves_def)
next
  case (Cons i "is")
  obtain ret y os where y: "yolo_open k path (ie_model env i) (2 ^ (i mod 3)) now = (ret, y, os)" by (metis prod_cases3)
  from yolo_open_os [OF k y] obtain L where m: "os_maps os = os_maps now" "\<forall>x\<in>os_fds now. os_queue os x = os_queue now x"
    and L: "os_fds os = L \<union> os_fds now" "L \<inter> os_fds now = {}" "leaves env {i} (ret = 0) L" by blast
  show ?case
  proof (cases "ret = 0")
    case False
    then show ?thesis using Cons.prems y m L by (auto simp: leaves_def)
  next
    case True
    then have e: "L = {}" using L(3) by (auto simp: leaves_def)
    have "init_yolos k path (ie_model env) is (ys @ [y]) os = (ok, ys', now')" using Cons.prems y True by simp
    from Cons.IH [OF this] show ?thesis using m L(1) e by (auto simp: leaves_def)
  qed
qed

lemma init_tracker_os:
  assumes "kernel_fresh (ie_kernel env)" "init_tracker env t now = (tr, now')"
  shows "same_ledger now' now \<and> (\<forall>x\<in>os_fds now. os_queue now' x = os_queue now x)"
proof (cases "tc_tracker_type t = DEEPSORT")
  case True
  obtain fd os where o: "sys_open (ie_kernel env) (cf_reid_model_path (tc_config t)) now = (fd, os)" by (metis prod.collapse)
  have "now' = (if fd < 0 then os else sys_close fd os)" using assms(2) True o by (auto simp: init_tracker_def Let_def split: if_splits)
  then show ?thesis using sys_open_cases [OF assms(1) o] by (auto simp: same_ledger_def)
next
  case False
  then show ?thesis using assms(2) by (cases "tc_tracker_type t") (auto simp: init_tracker_def Let_def same_ledger_def)
qed

text \<open>A descriptor that nobody owns counts as one that the process had before.\<close>

abbreviation with_leak :: "int set \<Rightarrow> os \<Rightarrow> os" where
  "with_leak L before \<equiv> before\<lparr>os_fds := L \<union> os_fds before\<rparr>"

lemma ledger_leak:
  assumes "ledger cap outs before now" "os_fds now' = L \<union> os_fds now" "L \<inter> os_fds now = {}" "os_maps now' = os_maps now"
  shows "ledger cap outs (with_leak L before) now' \<and> L \<inter> os_fds before = {}"
  using assms by (auto simp: ledger_def)

lemma close_capture_ledger:
  assumes "ledger (tc_capture u) (tc_outs u) before now" "close_capture u now = (u', now')"
  shows "ledger (tc_capture u') (tc_outs u') before now' \<and> tc_ready u' = tc_ready u"
proof -
  obtain cap os where v: "v4l2_dmabuf_close (tc_capture u) now = (cap, os)" by (cases "v4l2_dmabuf_close (tc_capture u) now")
  have "u' = u\<lparr>tc_capture := cap\<rparr>" "now' = os" using assms(2) v by (simp_all add: close_capture_def)
  then show ?thesis using close_ledger [OF assms(1) v] by simp
qed

lemma init_capture_ok:
  assumes "kernel_fresh k" "init_capture k c os = (ok, cap, os')"
  shows "ledger cap [] os os'" "ok \<Longrightarrow> capture_ok cap \<and> os_queue os' (cp_fd cap) = [0..<length (cp_buffers cap)]"
proof -
  obtain err cap1 os1 where o: "v4l2_dmabuf_open k c os = (err, cap1, os1)" by (metis prod_cases3)
  note r = open_result [OF assms(1) o]
  have l: "ledger cap1 [] os os1" by (rule open_ledger [OF assms(1) o])
  have "ledger cap [] os os' \<and> (ok \<longrightarrow> capture_ok cap \<and> os_queue os' (cp_fd cap) = [0..<length (cp_buffers cap)])"
  proof (cases "err \<noteq> None \<or> cp_width cap1 \<noteq> cf_width c \<or> cp_height cap1 \<noteq> cf_height c")
    case True
    then show ?thesis using assms(2) o close_ledger [OF l] by (auto simp: init_capture_def)
  next
    case False
    then show ?thesis using assms(2) o l r by (auto simp: init_capture_def)
  qed
  then show "ledger cap [] os os'" "ok \<Longrightarrow> capture_ok cap \<and> os_queue os' (cp_fd cap) = [0..<length (cp_buffers cap)]" by blast+
qed

lemma mapped_distinct:
  assumes "buffers_distinct bs" "\<forall>b\<in>set bs. 0 < db_va b"
  shows "distinct (map db_va bs)"
proof -
  have "filter (\<lambda>x. 0 < x) (map db_va bs) = map db_va bs" using assms(2) by (auto simp: filter_id_conv)
  then show ?thesis using assms(1) unfolding buffers_distinct_def by metis
qed

text \<open>The outcome of \<open>init\<close> from the output buffers on.\<close>

lemma init_workers_ok:
  assumes k: "kernel_fresh (ie_kernel env)" and c: "capture_ok (tc_capture t)" "ledger (tc_capture t) [] before now"
    and t: "\<not> tc_ready t" "0 < cf_rknn_thread (tc_config t)" and r: "init_workers env t now = (t', now')"
    and n: "n = nat (cf_rknn_thread (tc_config t))"
  shows "\<exists>L. ledger (tc_capture t') (tc_outs t') (with_leak L before) now' \<and> L \<inter> os_fds before = {} \<and> leaves env {..<n} (tc_ready t') L"
    "tc_ready t' \<Longrightarrow> tc_capture t' = tc_capture t \<and> tc_config t' = tc_config t \<and> tc_encode_data t' = tc_encode_data t \<and>
       length (tc_outs t') = n \<and> distinct (map db_va (tc_outs t')) \<and> (\<forall>b\<in>set (tc_outs t'). 0 < db_va b) \<and>
       length (tc_yolos t') = n \<and> tc_pool t' = Some n \<and>
       tc_encoder t' \<noteq> None \<and> tc_cur_yolo t' = 0 \<and>
       os_queue now' (cp_fd (tc_capture t)) = os_queue now (cp_fd (tc_capture t))"
proof -
  obtain ok outs os1 where a: "alloc_outputs (ie_kernel env) (cf_dma_heap (tc_config t)) (nat (tc_output_frame_size t)) [0..<n] (replicate n no_buffer) now = (ok, outs, os1)"
    by (metis prod_cases3)
  have e: "\<forall>j\<in>set [0..<n]. j < length (replicate n no_buffer) \<and> db_fd (replicate n no_buffer ! j) < 0 \<and> db_va (replicate n no_buffer ! j) = 0"
    by (simp add: no_buffer_def)
  have nb: "buffer_fds (replicate n no_buffer) = {} \<and> buffer_maps (replicate n no_buffer) = {}"
    by (rule buffer_sets_none) (auto simp: no_buffer_def)
  have l0: "ledger (tc_capture t) (replicate n no_buffer) before now" using c(2) nb by (simp add: ledger_def)
  have d0: "buffers_distinct (replicate n no_buffer)" by (simp add: buffers_distinct_def no_buffer_def filter_replicate)
  have "distinct [0..<n]" by simp
  note ao = alloc_outputs_ok [OF k this e l0 d0 a]
  define t1 where "t1 = t\<lparr>tc_outs := outs\<rparr>"
  have l1: "ledger (tc_capture t1) (tc_outs t1) before os1" using ao by (simp add: t1_def)
  have fd: "cp_fd (tc_capture t) \<in> os_fds now" using c by (simp add: ledger_def capture_ok_def capture_fds_def)
  have fd1: "cp_fd (tc_capture t) \<in> os_fds os1" using c(1) l1 by (simp add: ledger_def capture_ok_def capture_fds_def t1_def)
  let ?L = "\<lambda>L. ledger (tc_capture t') (tc_outs t') (with_leak L before) now' \<and> L \<inter> os_fds before = {} \<and> leaves env {..<n} (tc_ready t') L"
  have none: "\<exists>L. ?L L" if "ledger (tc_capture t') (tc_outs t') before now'" using that by (intro exI [of _ "{}"]) (simp add: leaves_def)
  obtain ret en where en: "encoder_of env (tc_config t) = (ret, en)" by (cases "encoder_of env (tc_config t)")
  obtain ok2 ys os2 where ys: "init_yolos (ie_kernel env) (ie_yolo_path env) (ie_model env) [0..<n] [] os1 = (ok2, ys, os2)" by (metis prod_cases3)
  have iy: "os_maps os2 = os_maps os1" "\<forall>x\<in>os_fds os1. os_queue os2 x = os_queue os1 x" "ok2 \<longrightarrow> length ys = n"
    using init_yolos_os [OF k ys] by simp_all
  obtain L where L: "os_fds os2 = L \<union> os_fds os1" "L \<inter> os_fds os1 = {}" "leaves env {..<n} ok2 L"
    using init_yolos_os [OF k ys] by (auto simp: atLeast0LessThan)
  let ?t3 = "t1\<lparr>tc_encoder := Some en, tc_pool := Some n, tc_yolos := ys\<rparr>"
  have l3: "ledger (tc_capture ?t3) (tc_outs ?t3) (with_leak L before) os2" "L \<inter> os_fds before = {}"
    using ledger_leak [OF l1 L(1,2) iy(1)] by simp_all
  obtain tr os3 where tr: "init_tracker env ?t3 os2 = (tr, os3)" by (cases "init_tracker env ?t3 os2")
  have it: "os_fds os3 = os_fds os2" "os_maps os3 = os_maps os2" "\<forall>x\<in>os_fds os2. os_queue os3 x = os_queue os2 x"
    using init_tracker_os [OF k tr] by (simp_all add: same_ledger_def)
  have both: "(\<exists>L. ?L L) \<and> (tc_ready t' \<longrightarrow> ok \<and> ok2 \<and> (\<exists>tr. t' = ?t3\<lparr>tc_tracker := tr, tc_cur_yolo := 0, tc_ready := True\<rparr>) \<and> now' = os3)"
  proof (cases ok)
    case False
    then have "t' = t1" "now' = os1" using r a n by (simp_all add: init_workers_def t1_def)
    then have "ledger (tc_capture t') (tc_outs t') before now'" "\<not> tc_ready t'" using l1 t(1) by (simp_all add: t1_def)
    then show ?thesis using none by blast
  next
    case ok: True
    show ?thesis
    proof (cases "ret = 0")
      case False
      then have "close_capture (t1\<lparr>tc_encoder := Some en\<rparr>) os1 = (t', now')" using r a ok en n by (simp add: init_workers_def t1_def)
      from close_capture_ledger [OF _ this, of before] have "ledger (tc_capture t') (tc_outs t') before now'" "\<not> tc_ready t'"
        using l1 t(1) by (simp_all add: t1_def)
      then show ?thesis using none by blast
    next
      case ret: True
      show ?thesis
      proof (cases ok2)
        case False
        then have "close_capture ?t3 os2 = (t', now')" using r a ok en ret ys n by (simp add: init_workers_def t1_def)
        from close_capture_ledger [OF l3(1) this] have "?L L" "\<not> tc_ready t'" using l3(2) L(3) t(1) by (auto simp: t1_def leaves_def)
        then show ?thesis by blast
      next
        case True
        then have "L = {}" using L(3) by (auto simp: leaves_def)
        then have l: "ledger (tc_capture ?t3) (tc_outs ?t3) before os3" using l3(1) it by (simp add: ledger_def)
        show ?thesis
        proof (cases tr)
          case None
          then have "t' = ?t3" "now' = os3" using r a ok en ret ys True tr n by (simp_all add: init_workers_def t1_def Let_def)
          then have "ledger (tc_capture t') (tc_outs t') before now'" "\<not> tc_ready t'" using l t(1) by (simp_all add: t1_def)
          then show ?thesis using none by blast
        next
          case (Some x)
          then have u: "t' = ?t3\<lparr>tc_tracker := x, tc_cur_yolo := 0, tc_ready := True\<rparr>" "now' = os3"
            using r a ok en ret ys True tr n by (simp_all add: init_workers_def t1_def Let_def)
          then have "ledger (tc_capture t') (tc_outs t') before now'" using l by simp
          with none have "\<exists>L. ?L L" by blast
          then show ?thesis using u ok True by blast
        qed
      qed
    qed
  qed
  show "\<exists>L. ?L L" using both by blast
  assume "tc_ready t'"
  with both obtain x where f: "ok" "ok2" "t' = ?t3\<lparr>tc_tracker := x, tc_cur_yolo := 0, tc_ready := True\<rparr>" "now' = os3" by blast
  have o: "length outs = n" "\<forall>b\<in>set outs. 0 < db_va b" using ao f(1) by (auto simp: in_set_conv_nth)
  have "distinct (map db_va outs)" using mapped_distinct ao o(2) by blast
  moreover have "os_queue os3 (cp_fd (tc_capture t)) = os_queue now (cp_fd (tc_capture t))"
    using it(3) iy(2) ao fd fd1 L(1) by simp
  ultimately show "tc_capture t' = tc_capture t \<and> tc_config t' = tc_config t \<and> tc_encode_data t' = tc_encode_data t \<and>
       length (tc_outs t') = n \<and> distinct (map db_va (tc_outs t')) \<and> (\<forall>b\<in>set (tc_outs t'). 0 < db_va b) \<and>
       length (tc_yolos t') = n \<and> tc_pool t' = Some n \<and> tc_encoder t' \<noteq> None \<and> tc_cur_yolo t' = 0 \<and>
       os_queue now' (cp_fd (tc_capture t)) = os_queue now (cp_fd (tc_capture t))"
    using o iy(3) f(2) unfolding f(3,4) t1_def by simp
qed

lemma transcoder_init_ok:
  assumes "kernel_fresh (ie_kernel env)" "transcoder_init env (new_transcoder cfg) os = (t, os1)"
  shows "(\<exists>L. ledger (tc_capture t) (tc_outs t) (with_leak L os) os1 \<and> L \<inter> os_fds os = {} \<and>
      leaves env {..<nat (cf_rknn_thread (clamp_config cfg))} (tc_ready t) L) \<and>
    (tc_ready t \<longrightarrow> run_starts t \<and> pipe_ready (run_pipe t frames images labels counter callback stop os1))"
proof -
  let ?c = "clamp_config cfg" and ?L = "\<lambda>L. ledger (tc_capture t) (tc_outs t) (with_leak L os) os1 \<and> L \<inter> os_fds os = {} \<and>
      leaves env {..<nat (cf_rknn_thread (clamp_config cfg))} (tc_ready t) L"
  have none: "\<exists>L. ?L L" if "ledger (tc_capture t) (tc_outs t) os os1" using that by (intro exI [of _ "{}"]) (simp add: leaves_def)
  obtain ok cap os2 where ic: "init_capture (ie_kernel env) ?c os = (ok, cap, os2)" by (metis prod_cases3)
  note l = init_capture_ok [OF assms(1) ic]
  define t1 where "t1 = (new_transcoder cfg)\<lparr>tc_config := ?c, tc_tracker_type := tracker_of ?c, tc_capture := cap,
      tc_output_frame_size := c_div (cf_width ?c * cf_height ?c * 3) 2\<rparr>"
  have cfg: "tc_config (new_transcoder cfg) = cfg" by (simp add: new_transcoder_def)
  have n: "0 < cf_rknn_thread ?c" by (auto simp: clamp_config_def)
  show ?thesis
  proof (cases "\<not> ok")
    case True
    then have "tc_capture t = cap" "tc_outs t = []" "os1 = os2" "\<not> tc_ready t"
      using assms(2) ic by (auto simp: transcoder_init_def cfg new_transcoder_def Let_def)
    then show ?thesis using l(1) none by auto
  next
    case ok: False
    then have c: "capture_ok cap" "os_queue os2 (cp_fd cap) = [0..<length (cp_buffers cap)]" using l(2) by simp_all
    show ?thesis
    proof (cases "ie_malloc env (nat (max (to_int (int (cp_plane0_size cap))) (tc_output_frame_size t1) + 4096))")
      case None
      then have v: "close_capture t1 os2 = (t, os1)" using assms(2) ic ok by (simp add: transcoder_init_def cfg t1_def Let_def)
      have "ledger (tc_capture t1) (tc_outs t1) os os2" "\<not> tc_ready t1" using l(1) by (simp_all add: t1_def new_transcoder_def)
      then show ?thesis using close_capture_ledger [OF _ v] none by blast
    next
      case (Some mem)
      let ?t2 = "t1\<lparr>tc_encode_data := Some mem\<rparr>"
      have w: "init_workers env ?t2 os2 = (t, os1)" using assms(2) ic ok Some by (simp add: transcoder_init_def cfg t1_def Let_def)
      have t2: "tc_capture ?t2 = cap" "tc_config ?t2 = ?c" "\<not> tc_ready ?t2" by (simp_all add: t1_def new_transcoder_def)
      note iw = init_workers_ok [OF assms(1) _ _ _ _ w, unfolded t2, OF c(1) l(1) _ n refl]
      have "pipe_ready (run_pipe t frames images labels counter callback stop os1) \<and> run_starts t" if "tc_ready t"
        using iw(2) t2(3) that c n by (auto simp: pipe_ready_def run_pipe_def run_starts_def driver_queue_def capture_ok_def)
      then show ?thesis using iw(1) t2(3) by blast
    qed
  qed
qed

lemma make_transcoders_ready: "make_transcoders env cs os = (ts, os') \<Longrightarrow> \<forall>t\<in>set ts. tc_ready t"
  by (induction cs arbitrary: os ts) (auto simp: Let_def split: prod.splits if_splits)

interpretation transcoders: device "\<lambda>env. kernel_fresh (ie_kernel env) \<and> (\<forall>i. \<not> unloaded env i)"
  "\<lambda>env cfg. transcoder_init env (new_transcoder cfg)"
  "\<lambda>t before now. ledger (tc_capture t) (tc_outs t) before now" transcoder_destroy
proof
  show "ledger (tc_capture t) (tc_outs t) os os'"
    if "kernel_fresh (ie_kernel env) \<and> (\<forall>i. \<not> unloaded env i)" "transcoder_init env (new_transcoder cfg) os = (t, os')" for env cfg os t os'
  proof -
    from transcoder_init_ok [OF conjunct1 [OF that(1)] that(2)] obtain L where
      L: "ledger (tc_capture t) (tc_outs t) (with_leak L os) os'" "leaves env {..<nat (cf_rknn_thread (clamp_config cfg))} (tc_ready t) L" by blast
    have "L = {}" using L(2) that(1) by (auto simp: leaves_def)
    then show ?thesis using L(1) by simp
  qed
  show "same_ledger now' before" if "ledger (tc_capture t) (tc_outs t) before now" "transcoder_destroy t now = (t', now')" for t before now t' now'
    using that by (rule destroy_ledger)
qed

lemma make_transcoders_none:
  assumes "\<forall>c. kernel_fresh (ie_kernel (env c)) \<and> (\<forall>i. \<not> unloaded (env c) i)"
  shows "make_transcoders env cs os = ([], os') \<Longrightarrow> same_ledger os' os"
proof (induction cs arbitrary: os)
  case Nil
  then show ?case by (simp add: same_ledger_def)
next
  case (Cons c cs)
  let ?r = "transcoder_init (env c) (new_transcoder c) os"
  have "same_ledger (snd (transcoder_destroy (fst ?r) (snd ?r))) os" by (rule transcoders.tried [OF assms [rule_format]]) simp
  moreover have "make_transcoders env cs (snd (transcoder_destroy (fst ?r) (snd ?r))) = ([], os')"
    using Cons.prems by (auto simp: Let_def split: if_splits prod.splits)
  ultimately show ?case using Cons.IH same_ledger_trans by blast
qed

text \<open>A model that cannot be allocated leaves its file open in the process.\<close>

lemma failed_model_leaks:
  assumes "kernel_fresh k" "sys_open k path now = (fd, os)" "0 \<le> fd" "\<not> me_malloc (model i)"
  shows "init_yolos k path model (i # is) ys now = (False, ys, os) \<and> fd \<in> os_fds os \<and> fd \<notin> os_fds now"
  using assms sys_open_cases(2) [OF assms(1,2)] by (simp add: yolo_open_def yolo_init_def)

text \<open>
  C17.  A transcoder gives back all mappings and descriptors, at whatever point \<open>init\<close> has given up, with
  one exception: its destructor leaves the process with those it had before, and with at most one
  more descriptor, the file of a model that could not be allocated or rewound, and only when \<open>init\<close> has failed.
  A transcoder that reports to be ready passes the checks at the start of \<open>run\<close>, and the loop starts
  in a state in which every capture buffer is with the driver and detectors, output images and
  threads belong together.
\<close>

theorem transcoder_lifecycle:
  assumes "kernel_fresh (ie_kernel env)" "transcoder_init env (new_transcoder cfg) os = (t, os1)"
  shows "os_maps (snd (transcoder_destroy t os1)) = os_maps os \<and>
    (\<exists>leaked. os_fds (snd (transcoder_destroy t os1)) = leaked \<union> os_fds os \<and> leaked \<inter> os_fds os = {} \<and>
       (leaked = {} \<or> (\<exists>fd. leaked = {fd}) \<and> \<not> tc_ready t \<and>
          (\<exists>i<nat (cf_rknn_thread (clamp_config cfg)). \<not> me_malloc (ie_model env i) \<or> me_seek (ie_model env i) < 0))) \<and>
    (tc_ready t \<longrightarrow> run_starts t \<and> pipe_ready (run_pipe t frames images labels counter callback stop os1))"
proof -
  from transcoder_init_ok [OF assms, of frames images labels counter callback stop] obtain L where
    L: "ledger (tc_capture t) (tc_outs t) (with_leak L os) os1" "L \<inter> os_fds os = {}"
      "leaves env {..<nat (cf_rknn_thread (clamp_config cfg))} (tc_ready t) L" by blast
  have "same_ledger (snd (transcoder_destroy t os1)) (with_leak L os)" by (rule destroy_ledger [OF L(1) prod.collapse [symmetric]])
  then show ?thesis
    using L(2,3) transcoder_init_ok [OF assms, of frames images labels counter callback stop]
    by (auto simp: same_ledger_def leaves_def unloaded_def)
qed

text \<open>A process in which everything succeeds: one detector, two capture buffers.\<close>

definition counting_kernel :: kernel where
  "counting_kernel =
     \<lparr>kn_open = \<lambda>path os. if int (os_calls os) + 3 \<in> os_fds os then -1 else int (os_calls os) + 3,
      kn_heap_alloc = \<lambda>fd n os. if int (os_calls os) + 3 \<in> os_fds os then None else Some (int (os_calls os) + 3),
      kn_mmap = \<lambda>fd n os. if os_calls os + 1 \<in> os_maps os then None else Some (os_calls os + 1),
      kn_querycap = \<lambda>fd os. Some (0x04000001, 0), kn_s_fmt = \<lambda>fd f os. Some f, kn_reqbufs = \<lambda>fd n os. Some 2,
      kn_qbuf = \<lambda>fd r os. True, kn_streamon = \<lambda>fd os. True\<rparr>"

definition willing_env :: init_env where
  "willing_env =
     \<lparr>ie_kernel = counting_kernel, ie_malloc = \<lambda>n. Some (replicate n 0), ie_formats = (1, 2), ie_yuv420p = 0, ie_fixqp = 2, ie_create = 0,
      ie_start = 0, ie_cfg_init = (0, True), ie_control = \<lambda>settings. 0, ie_yolo_path = ''model/yolov5.rknn'',
      ie_model = \<lambda>i. \<lparr>me_opened = True, me_malloc = True, me_seek = 0, me_init = 0, me_core_mask = 0, me_version = 0, me_io_num = Some (1, 0),
         me_input_attr = \<lambda>i. Some \<lparr>ta_nchw = False, ta_dims = [1, 640, 640, 3], ta_w_stride = 0, ta_h_stride = 0, ta_scale = 1, ta_zp = 0\<rparr>,
         me_output_attr = \<lambda>i. None, me_input_mem = True, me_set_input = 0, me_output_mem = \<lambda>i. True, me_set_output = \<lambda>i. 0\<rparr>,
      ie_labels = None\<rparr>"

definition single_config :: config where
  "single_config = default_config\<lparr>cf_rknn_thread := 1, cf_tracker_enable := False\<rparr>"

definition fresh_os :: os where
  "fresh_os = \<lparr>os_fds = {0, 1, 2}, os_maps = {}, os_queue = \<lambda>fd. [], os_calls = 0\<rparr>"

lemma counting_kernel_fresh: "kernel_fresh counting_kernel"
  by (auto simp: kernel_fresh_def counting_kernel_def split: if_splits)

lemmas counting_simps = counting_kernel_def sys_open_def tick_def sys_close_def dma_buf_alloc_def v4l2_dmabuf_qbuf_def no_buffer_def Let_def

text \<open>The capture that the process gets, and the state of the operating system then.\<close>

definition counting_capture :: capture where
  "counting_capture = \<lparr>cp_fd = 3, cp_streaming = True, cp_width = 640, cp_height = 480, cp_pixfmt = V4L2_PIX_FMT_YUYV, cp_buf_type = 1,
     cp_mplane = False, cp_num_planes = 1, cp_plane0_size = 614400,
     cp_buffers = [\<lparr>db_fd = 9, db_va = 9, db_size = 614400\<rparr>, \<lparr>db_fd = 14, db_va = 14, db_size = 614400\<rparr>]\<rparr>"

lemma replicate_two: "replicate 2 x = [x, x]"
  by (simp add: numeral_2_eq_2)

lemma counting_open:
  assumes "cf_width c = 640" "cf_height c = 480" "cf_dma_buffers c = 4"
  shows "\<exists>os. init_capture counting_kernel c fresh_os = (True, counting_capture, os) \<and> os_fds os = {0, 1, 2, 3, 9, 14} \<and>
    os_maps os = {9, 14} \<and> os_calls os = 16"
proof -
  have o: "sys_open counting_kernel path fresh_os = (3, \<lparr>os_fds = {3, 0, 1, 2}, os_maps = {}, os_queue = (\<lambda>fd. [])(3 := []), os_calls = 1\<rparr>)" for path
    by (simp add: counting_simps fresh_os_def)
  let ?cap = "counting_capture\<lparr>cp_streaming := False, cp_buffers := [no_buffer, no_buffer]\<rparr>"
  have n: "v4l2_negotiate counting_kernel c 3 os = (Inr ?cap, os\<lparr>os_calls := os_calls os + 4\<rparr>)" for os
    using assms by (simp add: v4l2_negotiate_def counting_kernel_def tick_def buffer_type_def counting_capture_def Let_def no_buffer_def replicate_two)
  have "\<exists>os. setup_buffers counting_kernel (cf_dma_heap c) [0, 1] ?cap \<lparr>os_fds = {3, 0, 1, 2}, os_maps = {}, os_queue = (\<lambda>fd. [])(3 := []), os_calls = 5\<rparr> =
      (None, counting_capture\<lparr>cp_streaming := False\<rparr>, os) \<and> os_fds os = {0, 1, 2, 3, 9, 14} \<and> os_maps os = {9, 14} \<and> os_calls os = 15"
    by (simp add: counting_simps counting_capture_def) auto
  then obtain os where s: "setup_buffers counting_kernel (cf_dma_heap c) [0, 1] ?cap \<lparr>os_fds = {3, 0, 1, 2}, os_maps = {}, os_queue = (\<lambda>fd. [])(3 := []), os_calls = 5\<rparr> =
      (None, counting_capture\<lparr>cp_streaming := False\<rparr>, os)" "os_fds os = {0, 1, 2, 3, 9, 14}" "os_maps os = {9, 14}" "os_calls os = 15"
    by blast
  have "[0..<2] = [0, 1]" by (simp add: upt_rec)
  then have "v4l2_dmabuf_open counting_kernel c fresh_os = (None, counting_capture, tick os)"
    using s(1) by (simp add: v4l2_dmabuf_open_def o n) (simp add: counting_kernel_def counting_capture_def)
  then show ?thesis using s(2-4) assms by (simp add: init_capture_def counting_capture_def tick_def)
qed

lemma willing_ready: "tc_ready (fst (transcoder_init willing_env (new_transcoder single_config) fresh_os))"
proof -
  let ?c = "clamp_config single_config"
  have c: "cf_width ?c = 640" "cf_height ?c = 480" "cf_rknn_thread ?c = 1" "tracker_of ?c = NONE" "cf_dma_buffers ?c = 4"
    by (simp_all add: clamp_config_def single_config_def default_config_def tracker_of_def parse_tracker_type_def)
  from counting_open [OF c(1,2,5)] obtain os where o: "init_capture counting_kernel ?c fresh_os = (True, counting_capture, os)"
      "os_fds os = {0, 1, 2, 3, 9, 14}" "os_maps os = {9, 14}" "os_calls os = 16" by blast
  have a: "\<exists>outs os'. alloc_outputs counting_kernel heap n [0] [no_buffer] os = (True, outs, os') \<and> 0 \<le> kn_open counting_kernel path os'" for heap n path
    using o(2-4) by (simp add: counting_simps)
  obtain e where e: "encoder_of willing_env ?c = (0, e)" by (simp add: encoder_of_def encoder_init_def willing_env_def)
  obtain y where y: "yolo_init (ie_model willing_env 0\<lparr>me_opened := True\<rparr>) 1 new_yolo = (0, False, y)"
    by (simp add: willing_env_def yolo_init_def model_shape_def Let_def)
  have yo: "\<exists>os'. yolo_open counting_kernel path (ie_model willing_env 0) 1 o1 = (0, y, os')" if "0 \<le> kn_open counting_kernel path o1" for path o1
    using that y by (simp add: yolo_open_def sys_open_def Let_def)
  have w: "tc_ready (fst (init_workers willing_env t os))" if "tc_config t = ?c" "tc_tracker_type t = NONE" for t
  proof -
    obtain outs os' where "alloc_outputs counting_kernel (cf_dma_heap ?c) (nat (tc_output_frame_size t)) [0] [no_buffer] os = (True, outs, os')"
      and op: "0 \<le> kn_open counting_kernel (ie_yolo_path willing_env) os'"
      using a by blast
    moreover obtain os2 where "yolo_open counting_kernel (ie_yolo_path willing_env) (ie_model willing_env 0) 1 os' = (0, y, os2)"
      using yo [OF op] by blast
    moreover have "ie_kernel willing_env = counting_kernel" by (simp add: willing_env_def)
    ultimately show ?thesis using that c e by (simp add: init_workers_def init_tracker_def Let_def del: alloc_outputs.simps)
  qed
  have "ie_kernel willing_env = counting_kernel" "ie_malloc willing_env = (\<lambda>n. Some (replicate n 0))" by (simp_all add: willing_env_def)
  then show ?thesis using o(1) c by (simp add: transcoder_init_def w new_transcoder_def Let_def)
qed

theorem transcoder_lifecycle_witness:
  "case transcoder_init willing_env (new_transcoder single_config) fresh_os of (t, os1) \<Rightarrow>
     tc_ready t \<and> run_starts t \<and> same_ledger (snd (transcoder_destroy t os1)) fresh_os"
proof -
  obtain t os1 where i: "transcoder_init willing_env (new_transcoder single_config) fresh_os = (t, os1)"
    by (cases "transcoder_init willing_env (new_transcoder single_config) fresh_os")
  have "kernel_fresh (ie_kernel willing_env)" by (simp add: willing_env_def counting_kernel_fresh)
  from transcoder_lifecycle [OF this i, where frames = "\<lambda>_. ()"] show ?thesis using willing_ready by (auto simp: i same_ledger_def)
qed

end
