(* ===== verification/CamSource.thy ===== *)
theory CamSource imports Prelude "HOL-Library.Word" begin

unbundle bit_operations_syntax

text \<open>
  \<open>src/src/CamFramedSource.cc\<close>: the source that hands encoded frames to live555.  The callback of
  the transcoder's thread and the event loop run interleaved: the steps are the accesses to what the
  two share, namely the flags, the buffer under its mutex, and live555's event.  Of live555 the model
  has what \<open>FramedSource\<close> and the event trigger document: a request is pending from \<open>getNextFrame\<close>
  until \<open>afterGetting\<close> or \<open>stopGettingFrames\<close>, and events that are triggered again before they are
  handled are handled once.
\<close>

section \<open>NAL units\<close>

text \<open>The loop of \<open>hasNaluType\<close>: the byte after every start code of three or four bytes.\<close>

definition nal_pos :: "8 word list \<Rightarrow> nat \<Rightarrow> nat" where
  "nal_pos data i =
     (if data ! i = 0 \<and> data ! (i + 1) = 0 \<and> data ! (i + 2) = 1 then i + 3
      else if i + 4 < length data \<and> data ! i = 0 \<and> data ! (i + 1) = 0 \<and> data ! (i + 2) = 0 \<and> data ! (i + 3) = 1 then i + 4
      else length data)"

definition has_nalu_type :: "8 word list \<Rightarrow> 8 word \<Rightarrow> bool" where
  "has_nalu_type data target \<longleftrightarrow>
     data \<noteq> [] \<and>
     (data ! 0 AND 0x1f = target \<or>
      list_ex (\<lambda>i. nal_pos data i < length data \<and> data ! nal_pos data i AND 0x1f = target) [0..<length data - 3])"

section \<open>State\<close>

text \<open>
  Where the transcoder's thread is in \<open>onEncodedData\<close>: outside; about to drop the frame because no
  request is pending; at the test of \<open>waitForIdr_\<close>; about to clear the flag; about to push the
  frame; about to trigger the event.
\<close>

datatype producer =
    Outside
  | Dropping "8 word list"
  | Gate "8 word list"
  | Clearing "8 word list"
  | Pushing "8 word list"
  | Triggering

text \<open>
  \<open>fs_log\<close> and \<open>fs_taken\<close> are a record for the proofs: the frames of the encoder in their order, with
  whether they were put into the buffer, and the frames taken from it.
\<close>

record framed_source =
  fs_wait_idr :: bool
  fs_awaiting :: bool
  fs_max_size :: nat
  fs_buffer :: "8 word list list"
  fs_max_nalu :: nat
  fs_triggered :: bool
  fs_frame_size :: nat
  fs_truncated :: nat
  fs_delivered :: "8 word list list"
  fs_producer :: producer
  fs_fault :: bool
  fs_log :: "(8 word list \<times> bool) list"
  fs_taken :: "8 word list list"

definition new_source :: framed_source where
  "new_source =
     \<lparr>fs_wait_idr = True, fs_awaiting = False, fs_max_size = 0, fs_buffer = [], fs_max_nalu = 0, fs_triggered = False,
      fs_frame_size = 0, fs_truncated = 0, fs_delivered = [], fs_producer = Outside, fs_fault = False, fs_log = [], fs_taken = []\<rparr>"

section \<open>Steps\<close>

definition on_encoded_data :: "8 word list \<Rightarrow> framed_source \<Rightarrow> framed_source" where
  "on_encoded_data data s = s\<lparr>fs_producer := if fs_awaiting s then Gate data else Dropping data\<rparr>"

definition producer_step :: "framed_source \<Rightarrow> framed_source" where
  "producer_step s =
     (case fs_producer s of
        Outside \<Rightarrow> s
      | Dropping data \<Rightarrow> s\<lparr>fs_wait_idr := True, fs_producer := Outside, fs_log := fs_log s @ [(data, False)]\<rparr>
      | Gate data \<Rightarrow>
          (if fs_wait_idr s then
             if \<not> has_nalu_type data 5 then s\<lparr>fs_producer := Outside, fs_log := fs_log s @ [(data, False)]\<rparr>
             else s\<lparr>fs_producer := Clearing data\<rparr>
           else s\<lparr>fs_producer := Pushing data\<rparr>)
      | Clearing data \<Rightarrow> s\<lparr>fs_wait_idr := False, fs_producer := Pushing data\<rparr>
      | Pushing data \<Rightarrow> s\<lparr>fs_buffer := fs_buffer s @ [data], fs_producer := Triggering, fs_log := fs_log s @ [(data, True)]\<rparr>
      | Triggering \<Rightarrow> s\<lparr>fs_triggered := True, fs_producer := Outside\<rparr>)"

text \<open>\<open>deliverData\<close>; the first element of an empty buffer is a memory error.\<close>

definition deliver_data :: "framed_source \<Rightarrow> framed_source" where
  "deliver_data s =
     (if \<not> fs_awaiting s then s
      else case fs_buffer s of
        [] \<Rightarrow> s\<lparr>fs_fault := True\<rparr>
      | data # rest \<Rightarrow>
          (let s = s\<lparr>fs_buffer := rest, fs_max_nalu := max (fs_max_nalu s) (length data), fs_taken := fs_taken s @ [data]\<rparr>;
               s = (if length data > fs_max_size s
                    then s\<lparr>fs_frame_size := fs_max_size s, fs_truncated := length data - fs_max_size s\<rparr>
                    else s\<lparr>fs_frame_size := length data\<rparr>)
           in s\<lparr>fs_delivered := fs_delivered s @ [take (fs_frame_size s) data], fs_awaiting := False\<rparr>))"

definition do_get_next_frame :: "framed_source \<Rightarrow> framed_source" where
  "do_get_next_frame s = (if fs_buffer s \<noteq> [] then deliver_data s else s\<lparr>fs_frame_size := 0\<rparr>)"

definition do_stop_getting_frames :: "framed_source \<Rightarrow> framed_source" where
  "do_stop_getting_frames s = s\<lparr>fs_wait_idr := True\<rparr>"

text \<open>live555's side: \<open>getNextFrame\<close> with room for \<open>n\<close> bytes, and \<open>stopGettingFrames\<close>.\<close>

definition get_next_frame :: "nat \<Rightarrow> framed_source \<Rightarrow> framed_source" where
  "get_next_frame n s = do_get_next_frame (s\<lparr>fs_awaiting := True, fs_max_size := n, fs_truncated := 0\<rparr>)"

definition stop_getting_frames :: "framed_source \<Rightarrow> framed_source" where
  "stop_getting_frames s = do_stop_getting_frames (s\<lparr>fs_awaiting := False\<rparr>)"

inductive source_step :: "framed_source \<Rightarrow> framed_source \<Rightarrow> bool" where
  encoded: "\<not> fs_fault s \<Longrightarrow> fs_producer s = Outside \<Longrightarrow> source_step s (on_encoded_data data s)"
| producing: "\<not> fs_fault s \<Longrightarrow> source_step s (producer_step s)"
| event: "\<not> fs_fault s \<Longrightarrow> fs_triggered s \<Longrightarrow> source_step s (deliver_data (s\<lparr>fs_triggered := False\<rparr>))"
| request: "\<not> fs_fault s \<Longrightarrow> \<not> fs_awaiting s \<Longrightarrow> source_step s (get_next_frame n s)"
| stop: "\<not> fs_fault s \<Longrightarrow> source_step s (stop_getting_frames s)"

inductive source_run :: "framed_source \<Rightarrow> bool" where
  created: "source_run new_source"
| step: "source_run s \<Longrightarrow> source_step s s' \<Longrightarrow> source_run s'"

section \<open>Invariant\<close>

text \<open>A frame goes into the buffer only if it starts a sequence or its predecessor has gone there.\<close>

definition continues :: "(8 word list \<times> bool) list \<Rightarrow> 8 word list \<Rightarrow> bool" where
  "continues fl data \<longleftrightarrow> has_nalu_type data 5 \<or> (fl \<noteq> [] \<and> snd (last fl))"

definition gapless :: "(8 word list \<times> bool) list \<Rightarrow> bool" where
  "gapless fl \<longleftrightarrow> (\<forall>i<length fl. snd (fl ! i) \<longrightarrow> continues (take i fl) (fst (fl ! i)))"

lemma gapless_snoc: "gapless fl \<Longrightarrow> (b \<Longrightarrow> continues fl data) \<Longrightarrow> gapless (fl @ [(data, b)])"
  by (auto simp: gapless_def nth_append less_Suc_eq)

definition source_inv :: "framed_source \<Rightarrow> bool" where
  "source_inv s \<longleftrightarrow> gapless (fs_log s) \<and> (\<not> fs_wait_idr s \<and> (\<forall>d. fs_producer s \<noteq> Pushing d) \<longrightarrow> fs_log s \<noteq> [] \<and> snd (last (fs_log s))) \<and>
     (case fs_producer s of Clearing d \<Rightarrow> has_nalu_type d 5 | Pushing d \<Rightarrow> continues (fs_log s) d | _ \<Rightarrow> True) \<and>
     fs_taken s @ fs_buffer s = map fst (filter snd (fs_log s)) \<and>
     list_all2 (\<lambda>d out. \<exists>n. out = take n d) (fs_taken s) (fs_delivered s)"

lemma source_inv_simps [simp]:
  "source_inv (s\<lparr>fs_triggered := b\<rparr>) = source_inv s" "source_inv (s\<lparr>fs_awaiting := b\<rparr>) = source_inv s"
  "source_inv (s\<lparr>fs_awaiting := b, fs_max_size := n, fs_truncated := m\<rparr>) = source_inv s" "source_inv (s\<lparr>fs_frame_size := n\<rparr>) = source_inv s"
  "source_inv (s\<lparr>fs_fault := b\<rparr>) = source_inv s"
  by (cases "fs_producer s"; simp add: source_inv_def)+

lemma deliver_inv:
  assumes "source_inv s"
  shows "source_inv (deliver_data s)"
proof (cases "fs_awaiting s \<and> fs_buffer s \<noteq> []")
  case True
  then obtain d ds where b: "fs_buffer s = d # ds" by (cases "fs_buffer s") auto
  define t where "t = deliver_data s"
  have t: "fs_log t = fs_log s" "fs_wait_idr t = fs_wait_idr s" "fs_producer t = fs_producer s" "fs_buffer t = ds"
      "fs_taken t = fs_taken s @ [d]" "\<exists>n. fs_delivered t = fs_delivered s @ [take n d]"
    using True b by (auto simp: t_def deliver_data_def Let_def intro: exI [of _ "length d"])
  then obtain n where n: "fs_delivered t = fs_delivered s @ [take n d]" by blast
  have "list_all2 (\<lambda>d out. \<exists>n. out = take n d) (fs_taken s) (fs_delivered s)" using assms by (simp add: source_inv_def)
  then have "list_all2 (\<lambda>d out. \<exists>n. out = take n d) (fs_taken s @ [d]) (fs_delivered s @ [take n d])"
    by (rule list_all2_appendI) auto
  then show ?thesis using assms unfolding t_def [symmetric] source_inv_def t(1-5) n b by simp
next
  case False
  then have "deliver_data s = s \<or> deliver_data s = s\<lparr>fs_fault := True\<rparr>" by (auto simp: deliver_data_def)
  then show ?thesis using assms by auto
qed

lemma source_step_inv: "source_step s s' \<Longrightarrow> source_inv s \<Longrightarrow> source_inv s'"
proof (induction rule: source_step.induct)
  case (encoded s data)
  then show ?case by (auto simp: source_inv_def on_encoded_data_def)
next
  case (producing s)
  then show ?case
    by (cases "fs_producer s") (auto simp: source_inv_def producer_step_def continues_def intro!: gapless_snoc)
next
  case (event s)
  then show ?case by (intro deliver_inv) simp
next
  case (request s n)
  then show ?case by (simp add: get_next_frame_def do_get_next_frame_def deliver_inv)
next
  case (stop s)
  then have "source_inv (s\<lparr>fs_awaiting := False\<rparr>)" by simp
  then show ?case by (cases "fs_producer s") (simp_all add: source_inv_def stop_getting_frames_def do_stop_getting_frames_def)
qed

lemma source_run_inv: "source_run s \<Longrightarrow> source_inv s"
proof (induction rule: source_run.induct)
  case created
  show ?case by (simp add: source_inv_def new_source_def gapless_def)
qed (rule source_step_inv)

section \<open>Properties\<close>

text \<open>Where the byte after a start code stands; a start code of four bytes ends in one of three.\<close>

definition after_start_code :: "8 word list \<Rightarrow> nat \<Rightarrow> bool" where
  "after_start_code data p \<longleftrightarrow> 3 \<le> p \<and> p < length data \<and> data ! (p - 3) = 0 \<and> data ! (p - 2) = 0 \<and> data ! (p - 1) = 1"

lemma nal_pos_after: "i + 3 < length data \<Longrightarrow> nal_pos data i < length data \<Longrightarrow> after_start_code data (nal_pos data i)"
  by (auto simp: nal_pos_def after_start_code_def numeral_eq_Suc split: if_splits)

lemma after_nal_pos: "after_start_code data p \<Longrightarrow> nal_pos data (p - 3) = p"
  by (auto simp: nal_pos_def after_start_code_def numeral_eq_Suc Suc_diff_Suc)

lemma has_nalu_type_iff:
  "has_nalu_type data t \<longleftrightarrow> (\<exists>p<length data. (p = 0 \<or> after_start_code data p) \<and> data ! p AND 0x1f = t)"
proof
  assume h: "has_nalu_type data t"
  then consider "data \<noteq> []" "data ! 0 AND 0x1f = t" | i where "i < length data - 3" "nal_pos data i < length data" "data ! nal_pos data i AND 0x1f = t"
    by (auto simp: has_nalu_type_def list_ex_iff)
  then show "\<exists>p<length data. (p = 0 \<or> after_start_code data p) \<and> data ! p AND 0x1f = t"
  proof cases
    case 1
    then show ?thesis by (intro exI [of _ 0]) simp
  next
    case (2 i)
    then show ?thesis using nal_pos_after [of i data] by (intro exI [of _ "nal_pos data i"]) simp
  qed
next
  assume "\<exists>p<length data. (p = 0 \<or> after_start_code data p) \<and> data ! p AND 0x1f = t"
  then obtain p where p: "p < length data" "p = 0 \<or> after_start_code data p" "data ! p AND 0x1f = t" by blast
  show "has_nalu_type data t"
  proof (cases "p = 0")
    case True
    then show ?thesis using p by (auto simp: has_nalu_type_def)
  next
    case False
    then have a: "after_start_code data p" using p by simp
    then have "p - 3 < length data - 3" by (auto simp: after_start_code_def)
    then have "p - 3 \<in> set [0..<length data - 3]" by simp
    then show ?thesis using after_nal_pos [OF a] p unfolding has_nalu_type_def list_ex_iff by (auto intro: bexI [of _ "p - 3"])
  qed
qed

text \<open>
  C13.  What live555 receives can be decoded: of the encoder's frames those are handed on, in order,
  that hold an IDR slice or whose predecessor was handed on too, so that no frame refers to one that
  was dropped; each is cut to the room that the request has.  An IDR slice is found exactly at the
  start of the data or after a start code.
\<close>

theorem stream_gapless:
  assumes "source_run s"
  shows "gapless (fs_log s) \<and> fs_taken s @ fs_buffer s = map fst (filter snd (fs_log s)) \<and>
    list_all2 (\<lambda>d out. \<exists>n. out = take n d) (fs_taken s) (fs_delivered s) \<and>
    (\<forall>fl data. continues fl data \<longleftrightarrow>
       (\<exists>p<length data. (p = 0 \<or> after_start_code data p) \<and> data ! p AND 0x1f = 5) \<or> (fl \<noteq> [] \<and> snd (last fl)))"
  using source_run_inv [OF assms] by (simp add: source_inv_def continues_def has_nalu_type_iff)

text \<open>A first frame without IDR slice is dropped, the next one is delivered.\<close>

definition sample_requested :: framed_source where
  "sample_requested = get_next_frame 100 new_source"

lemma sample_requested_run: "source_run sample_requested"
  unfolding sample_requested_def by (rule step [OF created request]) (simp_all add: new_source_def)

definition sample_refused :: framed_source where
  "sample_refused = producer_step (on_encoded_data [0x61] sample_requested)"

definition sample_pushed :: framed_source where
  "sample_pushed = producer_step (producer_step (producer_step (on_encoded_data [0x65] sample_refused)))"

lemma sample_sources:
  "fs_log sample_refused = [([0x61], False)]" "fs_producer sample_refused = Outside" "\<not> fs_fault sample_refused"
  "fs_log sample_pushed = [([0x61], False), ([0x65], True)]" "fs_producer sample_pushed = Triggering" "\<not> fs_fault sample_pushed"
  "fs_buffer sample_pushed = [[0x65]]" "fs_awaiting sample_pushed" "fs_taken sample_pushed = []" "fs_max_size sample_pushed = 100"
  by (simp_all add: sample_pushed_def sample_refused_def sample_requested_def get_next_frame_def do_get_next_frame_def new_source_def
      on_encoded_data_def producer_step_def has_nalu_type_def)

lemma sample_refused_run: "source_run sample_refused"
  unfolding sample_refused_def
  by (rule step [OF step [OF sample_requested_run encoded] producing])
     (simp_all add: sample_requested_def get_next_frame_def do_get_next_frame_def new_source_def on_encoded_data_def)

lemma sample_pushed_run: "source_run sample_pushed"
  unfolding sample_pushed_def
  by (rule step [OF step [OF step [OF step [OF sample_refused_run encoded] producing] producing] producing])
     (simp_all add: sample_sources sample_refused_def sample_requested_def get_next_frame_def do_get_next_frame_def new_source_def
       on_encoded_data_def producer_step_def has_nalu_type_def)

theorem stream_gapless_witness:
  "source_run sample_pushed \<and> gapless [([0x61], False), ([0x65], True)] \<and> fs_buffer sample_pushed = [[0x65]]"
  using stream_gapless [OF sample_pushed_run] sample_pushed_run by (simp add: sample_sources)

text \<open>
  The event is not tied to a frame: a request that finds a frame in the buffer takes it without
  withdrawing its event, and when the next request is pending as the event is handled, \<open>front()\<close> is
  called on an empty buffer.
\<close>

lemma event_reads_empty_buffer:
  "\<exists>s s'. source_run s \<and> \<not> fs_fault s \<and> fs_triggered s \<and> fs_awaiting s \<and> fs_buffer s = [] \<and> fs_delivered s \<noteq> [] \<and>
     source_step s s' \<and> fs_fault s'"
proof -
  let ?a = "stop_getting_frames sample_pushed"
  let ?b = "get_next_frame 100 ?a"
  let ?c = "get_next_frame 100 ?b"
  let ?d = "producer_step ?c"
  note defs = stop_getting_frames_def do_stop_getting_frames_def get_next_frame_def do_get_next_frame_def deliver_data_def sample_sources
    producer_step_def
  have a: "source_run ?a" by (rule step [OF sample_pushed_run stop]) (simp add: sample_sources)
  have b: "source_run ?b" by (rule step [OF a request]) (simp_all add: defs)
  have c: "source_run ?c" by (rule step [OF b request]) (simp_all add: defs)
  have d: "source_run ?d" by (rule step [OF c producing]) (simp add: defs)
  have s: "\<not> fs_fault ?d" "fs_triggered ?d" "fs_awaiting ?d" "fs_buffer ?d = []" "fs_delivered ?d \<noteq> []" by (simp_all add: defs)
  have "source_step ?d (deliver_data (?d\<lparr>fs_triggered := False\<rparr>))" by (rule event [OF s(1,2)])
  moreover have "fs_fault (deliver_data (?d\<lparr>fs_triggered := False\<rparr>))" by (simp add: defs)
  ultimately show ?thesis using d s by blast
qed

end
