(* ===== verification/CamRtsp.thy ===== *)
theory CamRtsp imports Transcoder CamSource begin

text \<open>
  \<open>src/src/CamRTSPServer.cc\<close> and \<open>CamUnicastServerMediaSubsession.cc\<close>: the server that owns the
  transcoders and their sources, and the subsession that keeps the addresses of its clients.  live555
  is a parameter: whether the server can be created, and how it formats an IPv6 address; a source that
  is created starts its transcoder's thread and detaches it, a source that is closed stops it.
\<close>

section \<open>The server\<close>

text \<open>\<open>server_\<close> has no initialiser: until \<open>run\<close> assigns it, its value is indeterminate.\<close>

datatype handle = Wild | Null_handle | Live

record media_session =
  ms_name :: string
  ms_source :: nat
  ms_bitrate :: nat
  ms_packet :: nat

text \<open>A transcoder as the server sees it: its configuration and its thread.\<close>

record rtsp_server =
  rs_watcher :: bool
  rs_env :: bool
  rs_server :: handle
  rs_config :: "server_config option"
  rs_buffer_size :: nat
  rs_port :: nat
  rs_tunnel :: "nat option"
  rs_transcoders :: "(config \<times> mthread) list"
  rs_sources :: "nat list"
  rs_sessions :: "media_session list"

text \<open>The conversion of an \<open>int\<close> to an unsigned type of \<open>w\<close> bits.\<close>

definition to_unsigned :: "nat \<Rightarrow> int \<Rightarrow> nat" where
  "to_unsigned w i = nat (i mod 2 ^ w)"

definition new_server :: "nat \<Rightarrow> string option \<Rightarrow> rtsp_server" where
  "new_server max_size file =
     (let s = \<lparr>rs_watcher = False, rs_env = False, rs_server = Wild, rs_config = None, rs_buffer_size = max_size, rs_port = 0,
               rs_tunnel = None, rs_transcoders = [], rs_sources = [], rs_sessions = []\<rparr> in
      case server_settings file of
        None \<Rightarrow> s
      | Some c \<Rightarrow> s\<lparr>rs_config := Some c, rs_buffer_size := to_unsigned 32 (sv_max_buf_size c), rs_env := True\<rparr>)"

definition add_transcoder :: "config \<Rightarrow> rtsp_server \<Rightarrow> rtsp_server" where
  "add_transcoder cfg s = s\<lparr>rs_transcoders := rs_transcoders s @ [(cfg, new_mthread)]\<rparr>"

definition stop_server :: "rtsp_server \<Rightarrow> rtsp_server" where
  "stop_server s = s\<lparr>rs_watcher := True\<rparr>"

text \<open>
  \<open>CamFramedSource::createNew\<close>: the thread of the transcoder is started and detached; \<open>Medium::close\<close>
  of a source stops it.
\<close>

definition create_source :: "nat \<Rightarrow> rtsp_server \<Rightarrow> rtsp_server option" where
  "create_source i s =
     (let (cfg, t) = rs_transcoders s ! i in
      map_option (\<lambda>t. s\<lparr>rs_transcoders := (rs_transcoders s)[i := (cfg, t)], rs_sources := rs_sources s @ [i]\<rparr>)
        (Option.bind (mthread_start t) mthread_detach))"

definition close_source :: "nat \<Rightarrow> rtsp_server \<Rightarrow> rtsp_server option" where
  "close_source i s =
     (let (cfg, t) = rs_transcoders s ! i in
      map_option (\<lambda>t. s\<lparr>rs_transcoders := (rs_transcoders s)[i := (cfg, t)]\<rparr>) (mthread_stop t))"

definition add_media_session :: "server_config \<Rightarrow> nat \<Rightarrow> rtsp_server \<Rightarrow> rtsp_server option" where
  "add_media_session c i s =
     (let streamName = cf_stream_name (fst (rs_transcoders s ! i)) in
      map_option (\<lambda>s. s\<lparr>rs_sessions := rs_sessions s @
          [\<lparr>ms_name = streamName, ms_source = i, ms_bitrate = to_unsigned 64 (sv_bitrate c), ms_packet = to_unsigned 64 (sv_max_packet_size c)\<rparr>]\<rparr>)
        (create_source i s))"

fun add_sessions :: "server_config \<Rightarrow> nat list \<Rightarrow> rtsp_server \<Rightarrow> rtsp_server option" where
  "add_sessions c [] s = Some s"
| "add_sessions c (i # is) s = Option.bind (add_media_session c i s) (add_sessions c is)"

text \<open>
  \<open>run\<close> up to the event loop, which goes on until \<open>watcher_\<close> is set; \<^const>\<open>None\<close> is the use of a null
  environment.
\<close>

datatype run_outcome = Run_exit int | Event_loop rtsp_server

definition server_run :: "bool \<Rightarrow> bool \<Rightarrow> rtsp_server \<Rightarrow> run_outcome option" where
  "server_run created tunnelled s =
     (if \<not> rs_env s then None
      else
        (let c = the (rs_config s); s = s\<lparr>rs_server := (if created then Live else Null_handle), rs_port := to_unsigned 16 (sv_rtsp_port c)\<rparr> in
         if rs_server s = Null_handle then Some (Run_exit 1)
         else
           (let s = (if sv_is_http_enable c \<and> tunnelled then s\<lparr>rs_tunnel := Some (to_unsigned 16 (sv_http_port c))\<rparr> else s)
            in map_option Event_loop (add_sessions c [0..<length (rs_transcoders s)] s))))"

text \<open>
  The destructor: closing an indeterminate server and reclaiming a null environment are memory errors.
  With \<open>transcoders_.clear()\<close> the transcoders are destroyed; the result are their threads after
  \<open>~MThread\<close>.
\<close>

fun close_sources :: "nat list \<Rightarrow> rtsp_server \<Rightarrow> rtsp_server option" where
  "close_sources [] s = Some s"
| "close_sources (i # is) s = Option.bind (close_source i s) (close_sources is)"

definition server_destroy :: "rtsp_server \<Rightarrow> mthread list option" where
  "server_destroy s =
     (if rs_server s = Wild then None
      else Option.bind (close_sources (rs_sources s) (s\<lparr>rs_sessions := []\<rparr>)) (\<lambda>s.
        if \<not> rs_env s then None else all_some (map (mthread_destroy \<circ> snd) (rs_transcoders s))))"

text \<open>
  \<open>main\<close> from the creation of the server on: without a valid or ready transcoder it returns 1, which
  runs the destructor; otherwise \<open>run\<close> is called, and the destructor once it has returned.
\<close>

datatype main_end = Memory_error | Exited int | Returned int "mthread list"

definition leave_main :: "int \<Rightarrow> rtsp_server \<Rightarrow> main_end" where
  "leave_main code s = (case server_destroy s of None \<Rightarrow> Memory_error | Some ts \<Rightarrow> Returned code ts)"

definition main_serve :: "string option \<Rightarrow> (config \<Rightarrow> init_env) \<Rightarrow> nat \<Rightarrow> bool \<Rightarrow> bool \<Rightarrow> os \<Rightarrow> main_end" where
  "main_serve file env max_size created tunnelled os =
     (if ir_error (ini_reader_file file) < 0 then Exited 1
      else
        (let server = new_server max_size file in
         if load_configs file = [] then leave_main 1 server
         else
           (let (ts, os) = make_transcoders env (load_configs file) os;
                server = fold (add_transcoder \<circ> tc_config) ts server
            in if ts = [] then leave_main 1 server
               else case server_run created tunnelled server of
                 None \<Rightarrow> Memory_error
               | Some (Run_exit k) \<Rightarrow> Exited k
               | Some (Event_loop server) \<Rightarrow> leave_main 0 (stop_server server))))"

section \<open>The subsession\<close>

text \<open>The address of a client: IPv4, IPv6, or of another family.\<close>

datatype sockaddr = Inet "8 word" "8 word" "8 word" "8 word" | Inet6 "16 word list" | Other_family

definition show_byte :: "8 word \<Rightarrow> string" where
  "show_byte b = show_nat (unat b)"

text \<open>\<open>inet_ntop\<close>; \<open>ntop6\<close> is its result for IPv6.\<close>

definition ip_string :: "(16 word list \<Rightarrow> string) \<Rightarrow> sockaddr \<Rightarrow> string" where
  "ip_string ntop6 a =
     (case a of
        Inet p q r s \<Rightarrow> show_byte p @ ''.'' @ show_byte q @ ''.'' @ show_byte r @ ''.'' @ show_byte s
      | Inet6 ws \<Rightarrow> ntop6 ws
      | Other_family \<Rightarrow> ''Unknown AF'')"

datatype client_note = Connected "32 word" string | Disconnected "32 word" string | Disconnected_unknown "32 word"

record subsession =
  sb_bitrate :: nat
  sb_datagram :: nat
  sb_client_ips :: "32 word \<rightharpoonup> string"
  sb_notes :: "client_note list"

definition new_subsession :: "nat \<Rightarrow> nat \<Rightarrow> subsession" where
  "new_subsession estBitrate udpDatagramSize =
     \<lparr>sb_bitrate = estBitrate, sb_datagram = udpDatagramSize, sb_client_ips = Map.empty, sb_notes = []\<rparr>"

text \<open>What \<open>createNewStreamSource\<close> reports and \<open>createNewRTPSink\<close> asks for, as \<open>unsigned\<close>.\<close>

definition stream_bitrate :: "subsession \<Rightarrow> nat" where
  "stream_bitrate s = sb_bitrate s mod 2 ^ 32"

definition sink_packet_sizes :: "subsession \<Rightarrow> nat \<times> nat" where
  "sink_packet_sizes s = (sb_datagram s mod 2 ^ 32, sb_datagram s mod 2 ^ 32)"

definition get_stream_parameters :: "(16 word list \<Rightarrow> string) \<Rightarrow> 32 word \<Rightarrow> sockaddr \<Rightarrow> subsession \<Rightarrow> subsession" where
  "get_stream_parameters ntop6 clientSessionId clientAddress s =
     (let ipStr = ip_string ntop6 clientAddress
      in s\<lparr>sb_notes := sb_notes s @ [Connected clientSessionId ipStr], sb_client_ips := (sb_client_ips s)(clientSessionId \<mapsto> ipStr)\<rparr>)"

definition delete_stream :: "32 word \<Rightarrow> subsession \<Rightarrow> subsession" where
  "delete_stream clientSessionId s =
     (let ip = (case sb_client_ips s clientSessionId of None \<Rightarrow> [] | Some ip \<Rightarrow> ip);
          s = s\<lparr>sb_client_ips := (sb_client_ips s)(clientSessionId := None)\<rparr>
      in s\<lparr>sb_notes := sb_notes s @
            [if ip \<noteq> [] then Disconnected clientSessionId ip else Disconnected_unknown clientSessionId]\<rparr>)"

section \<open>The life of the server\<close>

lemma settings_given: "\<exists>c. server_settings (Some text) = Some c"
  using reader_error [of "Some text"] by (simp add: server_settings_def Let_def)

definition media_session_of :: "server_config \<Rightarrow> config list \<Rightarrow> nat \<Rightarrow> media_session" where
  "media_session_of c cfgs i =
     \<lparr>ms_name = cf_stream_name (cfgs ! i), ms_source = i, ms_bitrate = to_unsigned 64 (sv_bitrate c), ms_packet = to_unsigned 64 (sv_max_packet_size c)\<rparr>"

text \<open>The state of a transcoder's thread: as created, and after start and detach, then after a stop.\<close>

definition detached_thread :: "bool \<Rightarrow> mthread" where
  "detached_thread stop = \<lparr>mt_stop = stop, mt_joinable = False, mt_running = True\<rparr>"

lemma thread_steps:
  "Option.bind (mthread_start new_mthread) mthread_detach = Some (detached_thread False)"
  "mthread_stop (detached_thread False) = Some (detached_thread True)" "mthread_destroy (detached_thread True) = Some (detached_thread True)"
  by (simp_all add: mthread_start_def mthread_detach_def mthread_stop_def mthread_destroy_def new_mthread_def detached_thread_def)

text \<open>The first \<open>k\<close> of a list in one state and the others in another; the step from \<open>k\<close> to \<open>Suc k\<close>.\<close>

definition mixed :: "nat \<Rightarrow> 'b \<Rightarrow> 'b \<Rightarrow> 'a list \<Rightarrow> ('a \<times> 'b) list" where
  "mixed k new old xs = map (\<lambda>i. (xs ! i, if i < k then new else old)) [0..<length xs]"

lemma mixed_nth [simp]: "i < length xs \<Longrightarrow> mixed k new old xs ! i = (xs ! i, if i < k then new else old)" "length (mixed k new old xs) = length xs"
  by (simp_all add: mixed_def)

lemma mixed_update: "k < length xs \<Longrightarrow> (mixed k new old xs)[k := (xs ! k, new)] = mixed (Suc k) new old xs"
  by (rule nth_equalityI) (auto simp: nth_list_update)

lemma mixed_ends: "mixed 0 new old xs = map (\<lambda>x. (x, old)) xs" "mixed (length xs) new old xs = map (\<lambda>x. (x, new)) xs"
  by (rule nth_equalityI; simp)+

lemma add_sessions_all:
  assumes "k \<le> length cfgs" "rs_transcoders s = mixed k (detached_thread False) new_mthread cfgs"
  shows "add_sessions c [k..<length cfgs] s =
    Some (s\<lparr>rs_transcoders := map (\<lambda>x. (x, detached_thread False)) cfgs, rs_sources := rs_sources s @ [k..<length cfgs],
      rs_sessions := rs_sessions s @ map (media_session_of c cfgs) [k..<length cfgs]\<rparr>)"
  using assms
proof (induction "length cfgs - k" arbitrary: k s)
  case 0
  then have "k = length cfgs" by simp
  then have "rs_transcoders s = map (\<lambda>x. (x, detached_thread False)) cfgs" using 0 by (simp add: mixed_ends)
  then show ?case using \<open>k = length cfgs\<close> by (cases s) simp
next
  case (Suc m)
  then have k: "k < length cfgs" by simp
  let ?s1 = "s\<lparr>rs_transcoders := mixed (Suc k) (detached_thread False) new_mthread cfgs, rs_sources := rs_sources s @ [k],
      rs_sessions := rs_sessions s @ [media_session_of c cfgs k]\<rparr>"
  have "add_media_session c k s = Some ?s1"
    using k Suc.prems(2) thread_steps(1)
    by (simp add: mixed_update add_media_session_def create_source_def media_session_of_def)
  moreover have "[k..<length cfgs] = k # [Suc k..<length cfgs]" using k by (rule upt_conv_Cons)
  ultimately show ?case using Suc.hyps(1) [of "Suc k" ?s1] Suc.hyps(2) k by simp
qed

lemma close_sources_all:
  assumes "k \<le> length cfgs" "rs_transcoders s = mixed k (detached_thread True) (detached_thread False) cfgs"
  shows "close_sources [k..<length cfgs] s = Some (s\<lparr>rs_transcoders := map (\<lambda>x. (x, detached_thread True)) cfgs\<rparr>)"
  using assms
proof (induction "length cfgs - k" arbitrary: k s)
  case 0
  then have "k = length cfgs" by simp
  then have "rs_transcoders s = map (\<lambda>x. (x, detached_thread True)) cfgs" using 0 by (simp add: mixed_ends)
  then show ?case using \<open>k = length cfgs\<close> by (cases s) simp
next
  case (Suc m)
  then have k: "k < length cfgs" by simp
  let ?s1 = "s\<lparr>rs_transcoders := mixed (Suc k) (detached_thread True) (detached_thread False) cfgs\<rparr>"
  have "close_source k s = Some ?s1"
    using k Suc.prems(2) thread_steps(2) by (simp add: mixed_update close_source_def)
  moreover have "[k..<length cfgs] = k # [Suc k..<length cfgs]" using k by (rule upt_conv_Cons)
  ultimately show ?case using Suc.hyps(1) [of "Suc k" ?s1] Suc.hyps(2) k by simp
qed

text \<open>The server with its transcoders before \<open>run\<close>.\<close>

definition served :: "nat \<Rightarrow> string option \<Rightarrow> config list \<Rightarrow> rtsp_server" where
  "served max_size file cfgs = fold add_transcoder cfgs (new_server max_size file)"

lemma fold_add: "fold add_transcoder cfgs s = s\<lparr>rs_transcoders := rs_transcoders s @ map (\<lambda>c. (c, new_mthread)) cfgs\<rparr>"
  by (induction cfgs arbitrary: s) (simp_all add: add_transcoder_def)

lemma served_fields:
  assumes "server_settings file = Some c"
  shows "rs_env (served m file cfgs)" "rs_config (served m file cfgs) = Some c" "rs_transcoders (served m file cfgs) = map (\<lambda>c. (c, new_mthread)) cfgs"
    "rs_sources (served m file cfgs) = []" "rs_sessions (served m file cfgs) = []" "rs_server (served m file cfgs) = Wild"
  using assms by (simp_all add: served_def fold_add new_server_def)

lemma wild_destroy: "rs_server s = Wild \<Longrightarrow> leave_main k s = Memory_error"
  by (simp add: leave_main_def server_destroy_def)

section \<open>Properties\<close>

text \<open>
  C20.  Once the server could be created it has one session for each transcoder, in their order, under
  the transcoder's stream name and fed by the source of that transcoder alone, whose thread runs;
  the bit rate and packet size of the configuration arrive at live555 unchanged unless they are
  negative.  When the server is stopped and destroyed, every source asks its transcoder to stop, but
  as the threads were detached nothing waits for them: the transcoders are destroyed with their
  threads running.
\<close>

theorem server_life:
  "\<exists>c s. server_settings (Some text) = Some c \<and> server_run True tunnelled (served m (Some text) cfgs) = Some (Event_loop s) \<and>
    map ms_name (rs_sessions s) = map cf_stream_name cfgs \<and> map ms_source (rs_sessions s) = [0..<length cfgs] \<and>
    (\<forall>ms\<in>set (rs_sessions s).
       (0 \<le> sv_bitrate c \<longrightarrow> stream_bitrate (new_subsession (ms_bitrate ms) (ms_packet ms)) = nat (sv_bitrate c)) \<and>
       (0 \<le> sv_max_packet_size c \<longrightarrow> fst (sink_packet_sizes (new_subsession (ms_bitrate ms) (ms_packet ms))) = nat (sv_max_packet_size c))) \<and>
    rs_transcoders s = map (\<lambda>cfg. (cfg, \<lparr>mt_stop = False, mt_joinable = False, mt_running = True\<rparr>)) cfgs \<and>
    server_destroy (stop_server s) = Some (replicate (length cfgs) \<lparr>mt_stop = True, mt_joinable = False, mt_running = True\<rparr>)"
proof -
  obtain c where c: "server_settings (Some text) = Some c" using settings_given by blast
  note f = served_fields [OF c, of m cfgs]
  let ?n = "length cfgs" and ?s0 = "served m (Some text) cfgs"
  define t1 where "t1 = (if sv_is_http_enable c \<and> tunnelled then Some (to_unsigned 16 (sv_http_port c)) else rs_tunnel ?s0)"
  define s1 where "s1 = ?s0\<lparr>rs_server := Live, rs_port := to_unsigned 16 (sv_rtsp_port c), rs_tunnel := t1\<rparr>"
  define s2 where "s2 = s1\<lparr>rs_transcoders := map (\<lambda>x. (x, detached_thread False)) cfgs, rs_sources := [0..<?n], rs_sessions := map (media_session_of c cfgs) [0..<?n]\<rparr>"
  have "add_sessions c [0..<?n] s1 = Some s2"
    using add_sessions_all [of 0 cfgs s1 c] f by (simp add: s1_def s2_def mixed_ends)
  moreover have "server_run True tunnelled ?s0 = map_option Event_loop (add_sessions c [0..<?n] s1)"
    using f by (simp add: server_run_def s1_def t1_def Let_def)
  ultimately have r: "server_run True tunnelled ?s0 = Some (Event_loop s2)" by simp
  have "rs_transcoders s2 = mixed 0 (detached_thread True) (detached_thread False) cfgs" by (simp add: s2_def mixed_ends)
  then have "close_sources [0..<?n] (stop_server s2\<lparr>rs_sessions := []\<rparr>) =
      Some (stop_server s2\<lparr>rs_sessions := [], rs_transcoders := map (\<lambda>x. (x, detached_thread True)) cfgs\<rparr>)"
    using close_sources_all [of 0 cfgs "stop_server s2\<lparr>rs_sessions := []\<rparr>"] by (simp add: stop_server_def)
  moreover have "rs_sources (stop_server s2) = [0..<?n]" "rs_server (stop_server s2) = Live" "rs_env (stop_server s2)"
    using f by (simp_all add: stop_server_def s2_def s1_def)
  ultimately have d: "server_destroy (stop_server s2) = Some (map (\<lambda>_. detached_thread True) cfgs)"
    by (simp add: server_destroy_def stop_server_def all_some_iff thread_steps(3))
  have "get_int r s n d < 2 ^ 31" for r s n d by (rule get_int_range(2))
  then have small: "sv_bitrate c < 2 ^ 31" "sv_max_packet_size c < 2 ^ 31" using c by (auto simp: server_settings_def Let_def split: if_splits)
  have u: "to_unsigned 64 i mod 2 ^ 32 = nat i" if "0 \<le> i" "i < 2 ^ 31" for i
    using that by (simp add: to_unsigned_def nat_mod_distrib)
  have "stream_bitrate (new_subsession (ms_bitrate ms) (ms_packet ms)) = to_unsigned 64 (sv_bitrate c) mod 2 ^ 32 \<and>
      fst (sink_packet_sizes (new_subsession (ms_bitrate ms) (ms_packet ms))) = to_unsigned 64 (sv_max_packet_size c) mod 2 ^ 32"
    if "ms \<in> set (rs_sessions s2)" for ms
    using that by (auto simp: s2_def media_session_of_def stream_bitrate_def sink_packet_sizes_def new_subsession_def)
  then have b: "\<forall>ms\<in>set (rs_sessions s2).
       (0 \<le> sv_bitrate c \<longrightarrow> stream_bitrate (new_subsession (ms_bitrate ms) (ms_packet ms)) = nat (sv_bitrate c)) \<and>
       (0 \<le> sv_max_packet_size c \<longrightarrow> fst (sink_packet_sizes (new_subsession (ms_bitrate ms) (ms_packet ms))) = nat (sv_max_packet_size c))"
    using small u by simp
  have names: "map ms_name (rs_sessions s2) = map cf_stream_name cfgs" "map ms_source (rs_sessions s2) = [0..<?n]"
    by (rule nth_equalityI; simp add: s2_def media_session_of_def)+
  show ?thesis
    by (rule exI [of _ c], rule exI [of _ s2])
       (use c r names b d in \<open>simp add: s2_def detached_thread_def map_replicate_const\<close>)
qed

theorem server_life_witness:
  "\<exists>s ms. server_run True False (served 60000 (Some ''[server]
bitrate = 4000
max_packet_size = 1400'') [default_config]) = Some (Event_loop s) \<and> rs_sessions s = [ms] \<and> ms_source ms = 0 \<and>
    stream_bitrate (new_subsession (ms_bitrate ms) (ms_packet ms)) = 4000 \<and> fst (sink_packet_sizes (new_subsession (ms_bitrate ms) (ms_packet ms))) = 1400"
proof -
  let ?text = "''[server]
bitrate = 4000
max_packet_size = 1400''"
  have v: "map_option (\<lambda>c. (sv_bitrate c, sv_max_packet_size c)) (server_settings (Some ?text)) = Some (4000, 1400)" by code_simp
  obtain c s where s: "server_settings (Some ?text) = Some c" "server_run True False (served 60000 (Some ?text) [default_config]) = Some (Event_loop s)"
      "map ms_source (rs_sessions s) = [0..<length [default_config]]"
      and b: "\<forall>ms\<in>set (rs_sessions s).
       (0 \<le> sv_bitrate c \<longrightarrow> stream_bitrate (new_subsession (ms_bitrate ms) (ms_packet ms)) = nat (sv_bitrate c)) \<and>
       (0 \<le> sv_max_packet_size c \<longrightarrow> fst (sink_packet_sizes (new_subsession (ms_bitrate ms) (ms_packet ms))) = nat (sv_max_packet_size c))"
    using server_life [of ?text False 60000 "[default_config]"] by blast
  from s(3) obtain ms where ms: "rs_sessions s = [ms]" "ms_source ms = 0" by (auto simp: Cons_eq_map_conv)
  have "sv_bitrate c = 4000" "sv_max_packet_size c = 1400" using v s(1) by simp_all
  then show ?thesis using s(2) b ms by simp
qed

text \<open>
  C39.  When no transcoder is ready, \<open>main\<close> returns 1 before it calls \<open>run\<close>, and the destructor of the
  server closes \<open>server_\<close>, which nothing has initialised.
\<close>

theorem early_return_crashes:
  assumes "make_transcoders env (load_configs (Some text)) os = ([], os')"
  shows "main_start (Some text) env os = Exit 1 \<and> main_serve (Some text) env m created tunnelled os = Memory_error"
proof -
  have e: "\<not> ir_error (ini_reader_file (Some text)) < 0" by (simp add: reader_error)
  obtain c where c: "server_settings (Some text) = Some c" using settings_given by blast
  have "rs_server (new_server m (Some text)) = Wild" using c by (simp add: new_server_def)
  then show ?thesis using assms e by (simp add: main_start_def main_serve_def wild_destroy Let_def)
qed

text \<open>No camera can be opened.\<close>

definition blind_env :: init_env where
  "blind_env = willing_env\<lparr>ie_kernel := counting_kernel\<lparr>kn_open := \<lambda>path os. -1\<rparr>\<rparr>"

lemma blind_not_ready: "\<not> tc_ready (fst (transcoder_init blind_env (new_transcoder c) os))"
proof -
  have "kn_open (ie_kernel blind_env) p o' = -1" for p o' by (simp add: blind_env_def)
  then have "fst (v4l2_dmabuf_open (ie_kernel blind_env) c os) \<noteq> None" for os c
    by (simp add: v4l2_dmabuf_open_def sys_open_def split: prod.splits)
  then have "fst (init_capture (ie_kernel blind_env) c os) = False" for c os
    using \<open>\<And>os c. fst (v4l2_dmabuf_open (ie_kernel blind_env) c os) \<noteq> None\<close> [of c os]
    by (cases "v4l2_dmabuf_open (ie_kernel blind_env) c os") (simp add: init_capture_def)
  then show ?thesis by (simp add: transcoder_init_def new_transcoder_def Let_def split: prod.splits) (metis fst_conv)
qed

lemma blind_none: "\<exists>os'. make_transcoders (\<lambda>_. blind_env) cs os = ([], os')"
proof (induction cs arbitrary: os)
  case (Cons c cs)
  obtain t os1 where "transcoder_init blind_env (new_transcoder c) os = (t, os1)" by (cases "transcoder_init blind_env (new_transcoder c) os")
  moreover from this have "\<not> tc_ready t" using blind_not_ready [of c os] by simp
  ultimately show ?case using Cons.IH by simp
qed simp

theorem early_return_crashes_witness:
  "main_serve (Some []) (\<lambda>_. blind_env) 60000 True True fresh_os = Memory_error"
proof -
  obtain os' where "make_transcoders (\<lambda>_. blind_env) (load_configs (Some [])) fresh_os = ([], os')" using blind_none by blast
  from early_return_crashes [OF this] show ?thesis by blast
qed

section \<open>Clients\<close>

text \<open>
  What the clients do; live555's event loop calls one function at a time, and the map is changed under
  its mutex.
\<close>

datatype client_event = Setup "32 word" sockaddr | Teardown "32 word"

fun event_session :: "client_event \<Rightarrow> 32 word" where
  "event_session (Setup sid a) = sid"
| "event_session (Teardown sid) = sid"

fun serve_client :: "(16 word list \<Rightarrow> string) \<Rightarrow> client_event \<Rightarrow> subsession \<Rightarrow> subsession" where
  "serve_client ntop6 (Setup sid a) s = get_stream_parameters ntop6 sid a s"
| "serve_client ntop6 (Teardown sid) s = delete_stream sid s"

text \<open>Specification: the address under which a session is connected after some events, and the note of the next.\<close>

fun last_address :: "client_event list \<Rightarrow> 32 word \<Rightarrow> sockaddr option" where
  "last_address [] sid = None"
| "last_address (e # es) sid =
     (if event_session e = sid then (case e of Setup _ a \<Rightarrow> Some a | Teardown _ \<Rightarrow> None) else last_address es sid)"

definition note_of :: "(16 word list \<Rightarrow> string) \<Rightarrow> client_event list \<Rightarrow> client_event \<Rightarrow> client_note" where
  "note_of ntop6 before e =
     (case e of
        Setup sid a \<Rightarrow> Connected sid (ip_string ntop6 a)
      | Teardown sid \<Rightarrow>
          (case map_option (ip_string ntop6) (last_address (rev before) sid) of
             Some (c # cs) \<Rightarrow> Disconnected sid (c # cs)
           | _ \<Rightarrow> Disconnected_unknown sid))"

lemma last_address_own: "last_address (filter (\<lambda>e. event_session e = sid) es) sid = last_address es sid"
  by (induction es) auto

lemma clients_spec:
  "sb_client_ips (fold (serve_client ntop6) es (new_subsession b d)) = (\<lambda>sid. map_option (ip_string ntop6) (last_address (rev es) sid)) \<and>
   sb_notes (fold (serve_client ntop6) es (new_subsession b d)) = map (\<lambda>k. note_of ntop6 (take k es) (es ! k)) [0..<length es]"
proof (induction es rule: rev_induct)
  case Nil
  then show ?case by (simp add: new_subsession_def)
next
  case (snoc e es)
  let ?s = "fold (serve_client ntop6) es (new_subsession b d)"
  have m: "sb_client_ips ?s = (\<lambda>sid. map_option (ip_string ntop6) (last_address (rev es) sid))" and n: "sb_notes ?s = map (\<lambda>k. note_of ntop6 (take k es) (es ! k)) [0..<length es]"
    using snoc.IH by blast+
  have "map (\<lambda>k. note_of ntop6 (take k (es @ [e])) ((es @ [e]) ! k)) [0..<length (es @ [e])] = sb_notes ?s @ [note_of ntop6 es e]"
    unfolding n by (simp add: nth_append)
  moreover have "sb_notes (serve_client ntop6 e ?s) = sb_notes ?s @ [note_of ntop6 es e]"
    by (cases e) (simp_all add: get_stream_parameters_def delete_stream_def note_of_def m Let_def split: option.splits list.splits)
  moreover have "sb_client_ips (serve_client ntop6 e ?s) = (\<lambda>sid. map_option (ip_string ntop6) (last_address (rev (es @ [e])) sid))"
    by (cases e) (auto simp: get_stream_parameters_def delete_stream_def m Let_def)
  ultimately show ?case by simp
qed

text \<open>An IPv4 address can be read back from its text: digits contain no dot.\<close>

lemma show_nat_dot: "CHR ''.'' \<notin> set (show_nat n)"
proof
  assume "CHR ''.'' \<in> set (show_nat n)"
  then obtain d where "digit_value (CHR ''.'') = Some d" using show_nat_digits by blast
  then show False by (simp add: digit_value_def Let_def split: if_splits)
qed

lemma dot_split:
  "c \<notin> set xs \<Longrightarrow> c \<notin> set ys \<Longrightarrow> xs @ c # us = ys @ c # vs \<Longrightarrow> xs = ys \<and> us = vs"
  by (induction xs arbitrary: ys) (case_tac ys; auto)+

lemma inet_readable: "ip_string ntop6 (Inet p q r s) = ip_string ntop6 (Inet p' q' r' s') \<Longrightarrow> Inet p q r s = Inet p' q' r' s'"
proof -
  assume "ip_string ntop6 (Inet p q r s) = ip_string ntop6 (Inet p' q' r' s')"
  then have "show_byte p @ CHR ''.'' # show_byte q @ CHR ''.'' # show_byte r @ CHR ''.'' # show_byte s =
      show_byte p' @ CHR ''.'' # show_byte q' @ CHR ''.'' # show_byte r' @ CHR ''.'' # show_byte s'" by (simp add: ip_string_def)
  moreover have "CHR ''.'' \<notin> set (show_byte b)" for b by (simp add: show_byte_def show_nat_dot)
  ultimately have "show_byte p = show_byte p' \<and> show_byte q = show_byte q' \<and> show_byte r = show_byte r' \<and> show_byte s = show_byte s'"
    by (meson dot_split)
  moreover have "show_byte a = show_byte b \<Longrightarrow> a = b" for a b by (auto simp: show_byte_def dest!: show_nat_inj intro: unsigned_word_eqI)
  ultimately show ?thesis by blast
qed

text \<open>
  C40.  However the clients of a subsession come and go, the map holds for each session the address of
  its last set-up that no teardown has followed, and every line of the log names the right client: a
  disconnection the address under which that session had connected, whatever the other sessions did
  in between.  Two IPv4 clients are never logged alike.
\<close>

theorem subsession_clients:
  fixes ntop6 :: "16 word list \<Rightarrow> string"
  shows "sb_client_ips (fold (serve_client ntop6) es (new_subsession b d)) sid = map_option (ip_string ntop6) (last_address (rev es) sid) \<and>
    last_address (rev es) sid = last_address (rev (filter (\<lambda>e. event_session e = sid) es)) sid \<and>
    sb_notes (fold (serve_client ntop6) es (new_subsession b d)) = map (\<lambda>k. note_of ntop6 (take k es) (es ! k)) [0..<length es] \<and>
    (ip_string ntop6 (Inet p q r s) = ip_string ntop6 (Inet p' q' r' s') \<longleftrightarrow> (p, q, r, s) = (p', q', r', s'))"
proof -
  have "last_address (rev es) sid = last_address (rev (filter (\<lambda>e. event_session e = sid) es)) sid"
    using last_address_own [of sid "rev es"] by (simp add: rev_filter)
  then show ?thesis using clients_spec [of ntop6 es b d] inet_readable [of ntop6 p q r s p' q' r' s'] by auto
qed

theorem subsession_clients_witness:
  "sb_notes (fold (serve_client (\<lambda>_. [])) [Setup 1 (Inet 10 0 0 7), Setup 2 Other_family, Teardown 1] (new_subsession 2000 1500)) =
     [Connected 1 ''10.0.0.7'', Connected 2 ''Unknown AF'', Disconnected 1 ''10.0.0.7''] \<and>
   ip_string (\<lambda>_. []) (Inet 10 0 0 7) = ''10.0.0.7''"
proof -
  let ?es = "[Setup 1 (Inet 10 0 0 7), Setup 2 Other_family, Teardown 1]"
  have i: "ip_string (\<lambda>_. []) (Inet 10 0 0 7) = ''10.0.0.7''" by code_simp
  have "sb_notes (fold (serve_client (\<lambda>_. [])) ?es (new_subsession 2000 1500)) = map (\<lambda>k. note_of (\<lambda>_. []) (take k ?es) (?es ! k)) [0..<length ?es]"
    using subsession_clients [of "\<lambda>_. []" ?es 2000 1500] by blast
  then show ?thesis using i by (simp add: note_of_def upt_rec) (simp add: ip_string_def)
qed

end
