(* ===== verification/LiveStream.thy ===== *)
theory LiveStream imports PipeSafe CamSource begin

text \<open>
  The video path as a whole: the pipeline of \<open>TransCoder::run\<close> and the source of \<open>CamFramedSource.cc\<close>
  as one system.  The frame that the pipeline sends is the argument of the source's callback, which
  runs on the pipeline's main thread: while it is in the callback, that thread does nothing else, but
  the workers of the pool, the driver and live555's event loop go on.
\<close>

section \<open>Steps\<close>

text \<open>The steps of the pipeline that other threads than the main one do.\<close>

inductive other_thread :: "('p, 'm) pipe_env \<Rightarrow> 'p pipe \<Rightarrow> 'p pipe \<Rightarrow> bool" for env where
  worker: "pp_phase s \<noteq> Fault \<Longrightarrow> pool_step (pp_pool s) e q \<Longrightarrow> (\<exists>t. e = Take t) \<or> e = Silent \<or> e = Spurious \<Longrightarrow> other_thread env s (s\<lparr>pp_pool := q\<rparr>)"
| task: "pp_phase s \<noteq> Fault \<Longrightarrow> pool_step (pp_pool s) (Finish t) q \<Longrightarrow> other_thread env s (run_task env t (s\<lparr>pp_pool := q\<rparr>))"
| request_stop: "other_thread env s (s\<lparr>pp_stop := True\<rparr>)"
| others: "os_queue os (cp_fd (pp_capture s)) = os_queue (pp_os s) (cp_fd (pp_capture s)) \<Longrightarrow> other_thread env s (s\<lparr>pp_os := os\<rparr>)"

inductive live_step :: "('p, 'm) pipe_env \<Rightarrow> 'p pipe \<times> framed_source \<Rightarrow> 'p pipe \<times> framed_source \<Rightarrow> bool" for env where
  quiet: "\<not> fs_fault c \<Longrightarrow> fs_producer c = Outside \<Longrightarrow> pipe_step env s s' \<Longrightarrow> pp_sent s' = pp_sent s \<Longrightarrow> live_step env (s, c) (s', c)"
| hand_over: "\<not> fs_fault c \<Longrightarrow> fs_producer c = Outside \<Longrightarrow> pipe_step env s s' \<Longrightarrow> pp_sent s' = pp_sent s @ [data] \<Longrightarrow>
    live_step env (s, c) (s', on_encoded_data data c)"
| meanwhile: "\<not> fs_fault c \<Longrightarrow> other_thread env s s' \<Longrightarrow> live_step env (s, c) (s', c)"
| client: "source_step c c' \<Longrightarrow> fs_producer c = Outside \<longrightarrow> fs_producer c' = Outside \<Longrightarrow> live_step env (s, c) (s, c')"

inductive live_run :: "('p, 'm) pipe_env \<Rightarrow> 'p pipe \<Rightarrow> 'p pipe \<times> framed_source \<Rightarrow> bool" for env s0 where
  start: "live_run env s0 (s0, new_source)"
| go_on: "live_run env s0 x \<Longrightarrow> live_step env x y \<Longrightarrow> live_run env s0 y"

section \<open>Lemmas\<close>

lemma other_thread_step: "other_thread env s s' \<Longrightarrow> pipe_step env s s' \<and> pp_sent s' = pp_sent s"
proof (induction rule: other_thread.induct)
  case (worker s e q)
  then show ?case using pipe_step.worker [OF worker] by simp
next
  case (task s t q)
  have "pp_sent (run_task env t (s\<lparr>pp_pool := q\<rparr>)) = pp_sent s"
    by (cases t) (simp add: run_task_def split: option.split)
  then show ?case using pipe_step.task [OF task] by simp
next
  case (request_stop s)
  then show ?case by (simp add: pipe_step.request_stop)
next
  case (others os s)
  then show ?case by (simp add: pipe_step.others)
qed

text \<open>A step of the pipeline sends one frame at most, so that \<open>quiet\<close> and \<open>hand_over\<close> cover all of them.\<close>

definition sends_one :: "'p pipe \<Rightarrow> 'p pipe \<Rightarrow> bool" where
  "sends_one s s' \<longleftrightarrow> pp_sent s' = pp_sent s \<or> (\<exists>data. pp_sent s' = pp_sent s @ [data])"

lemma render_sent: "render_job env j s = Some (ok, s') \<Longrightarrow> pp_sent s' = pp_sent s"
  by (auto simp: render_job_def requeue_def case_prod_beta Let_def)

lemma encode_sent: "encode_job env j s = Some s' \<Longrightarrow> pp_sent s' = pp_sent s"
  by (auto simp: encode_job_def Let_def split: prod.splits)

lemma send_sent: "pp_sent s = pp_sent s0 \<Longrightarrow> sends_one s0 (send_frame s)"
  by (simp add: sends_one_def send_frame_def Let_def)

lemma finish_sent: "sends_one s (finish_job d env j r s)"
proof -
  let ?s = "s\<lparr>pp_phase := if d then Draining else Looping\<rparr>"
  show ?thesis
  proof (cases "render_job env j ?s")
    case None
    have "finish_job d env j r s = (if r \<noteq> 0 then requeue env j ?s else ?s\<lparr>pp_phase := Fault\<rparr>)"
      unfolding finish_job_def Let_def None by simp
    then show ?thesis by (simp add: sends_one_def requeue_def)
  next
    case (Some p)
    obtain ok s1 where p: "p = (ok, s1)" by (cases p)
    have 1: "pp_sent s1 = pp_sent s" using render_sent [of env j ?s ok s1] Some p by simp
    show ?thesis
    proof (cases "encode_job env j s1")
      case None
      have "finish_job d env j r s = (if r \<noteq> 0 then requeue env j ?s else if \<not> ok then s1 else s1\<lparr>pp_phase := Fault\<rparr>)"
        unfolding finish_job_def Let_def Some p by (simp add: None)
      then show ?thesis using 1 by (simp add: sends_one_def requeue_def)
    next
      case (Some s2)
      have 2: "pp_sent s2 = pp_sent s" using encode_sent [OF Some] 1 by simp
      have f: "finish_job d env j r s = (if r \<noteq> 0 then requeue env j ?s else if \<not> ok then s1
          else if \<not> pp_callback s2 \<or> pp_frame_size s2 = 0 \<or> d \<and> pp_frame_size s2 < 0 then s2 else send_frame s2)"
        unfolding finish_job_def Let_def \<open>render_job env j ?s = Some p\<close> p by (simp add: Some)
      show ?thesis unfolding f using 1 2 send_sent [OF 2] by (simp add: sends_one_def requeue_def)
    qed
  qed
qed

lemma step_sends: "pipe_step env s s' \<Longrightarrow> sends_one s s'"
proof (induction rule: pipe_step.induct)
  case (iterate s a px)
  show ?case by (auto simp: sends_one_def on_capture_def submit_frame_def await_oldest_def Let_def split: prod.splits sum.splits)
next
  case (finish s j r)
  show ?case unfolding finish_forms by (rule finish_sent)
next
  case (drain_finish s j r)
  show ?case unfolding finish_forms by (rule finish_sent)
next
  case (task s t q)
  show ?case by (cases t) (simp add: sends_one_def run_task_def split: option.split)
qed (simp_all add: sends_one_def drain_step_def split: list.split prod.split)

lemmas step_sent = step_sends [unfolded sends_one_def]

text \<open>The frame that is in the callback.\<close>

definition in_hand :: "framed_source \<Rightarrow> 8 word list list" where
  "in_hand c = (case fs_producer c of Dropping d \<Rightarrow> [d] | Gate d \<Rightarrow> [d] | Clearing d \<Rightarrow> [d] | Pushing d \<Rightarrow> [d] | _ \<Rightarrow> [])"

lemma deliver_log: "fs_log (deliver_data c) = fs_log c" "fs_producer (deliver_data c) = fs_producer c"
  by (simp_all add: deliver_data_def Let_def split: list.split)

lemma client_log:
  assumes "source_step c c'" "fs_producer c = Outside \<longrightarrow> fs_producer c' = Outside"
  shows "map fst (fs_log c') @ in_hand c' = map fst (fs_log c) @ in_hand c"
  using assms
proof (induction rule: source_step.induct)
  case (producing c)
  show ?case by (cases "fs_producer c") (simp_all add: producer_step_def in_hand_def)
next
  case (request c n)
  show ?case by (simp add: in_hand_def get_next_frame_def do_get_next_frame_def deliver_log)
qed (simp_all add: in_hand_def deliver_log stop_getting_frames_def do_stop_getting_frames_def on_encoded_data_def split: if_splits)

lemma live_inv:
  assumes "live_run env s0 x" "pp_sent s0 = []"
  shows "pipe_run env s0 (fst x) \<and> source_run (snd x) \<and> pp_sent (fst x) = map fst (fs_log (snd x)) @ in_hand (snd x)"
  using assms
proof (induction rule: live_run.induct)
  case start
  then show ?case using begin_run created by (simp add: in_hand_def new_source_def [abs_def])
next
  case (go_on x y)
  then have IH: "pipe_run env s0 (fst x)" "source_run (snd x)" "pp_sent (fst x) = map fst (fs_log (snd x)) @ in_hand (snd x)" by blast+
  from go_on.hyps(2) show ?case
  proof cases
    case (quiet c s s')
    then show ?thesis using IH pipe_run.continue [of env s0 s s'] by simp
  next
    case (hand_over c s s' data)
    have "source_run (on_encoded_data data c)" using IH(2) hand_over source_run.step [OF _ encoded] by simp
    moreover have "map fst (fs_log (on_encoded_data data c)) @ in_hand (on_encoded_data data c) = map fst (fs_log c) @ in_hand c @ [data]"
      using hand_over(4) by (simp add: on_encoded_data_def in_hand_def)
    ultimately show ?thesis using IH hand_over pipe_run.continue [of env s0 s s'] by simp
  next
    case (meanwhile c s s')
    then show ?thesis using IH other_thread_step [OF meanwhile(4)] pipe_run.continue [of env s0 s s'] by simp
  next
    case (client c c' s)
    then show ?thesis using IH client_log [OF client(3,4)] source_run.step [of c c'] by simp
  qed
qed

text \<open>As long as nothing is sent, the source may stay where it is.\<close>

lemma sent_grows: "pipe_run env s0 s \<Longrightarrow> \<exists>ds. pp_sent s = pp_sent s0 @ ds"
proof (induction rule: pipe_run.induct)
  case (continue s s')
  then show ?case using step_sent [OF continue.hyps(2)] by auto
qed simp

lemma quiet_run:
  assumes "pipe_run env s s'" "pp_sent s' = pp_sent s" "live_run env s0 (s, c)" "\<not> fs_fault c" "fs_producer c = Outside"
  shows "live_run env s0 (s', c)"
  using assms(1,2)
proof (induction rule: pipe_run.induct)
  case (continue s1 s2)
  obtain ds es where "pp_sent s1 = pp_sent s @ ds" "pp_sent s2 = pp_sent s1 @ es"
    using sent_grows [OF continue.hyps(1)] step_sent [OF continue.hyps(2)] by (metis append_Nil2)
  then have e: "pp_sent s1 = pp_sent s" "pp_sent s2 = pp_sent s1" using continue.prems by simp_all
  show ?case by (rule go_on [OF continue.IH [OF e(1)] quiet [OF assms(4,5) continue.hyps(2) e(2)]])
qed (rule assms(3))

section \<open>The property\<close>

text \<open>
  C1.  From the camera to the client: whatever the interleaving of the pipeline's threads with the
  event loop, what live555 is given are frames of the sequential program - captured, detected,
  tracked, drawn and encoded one after the other - in the order of capture, none altered except cut
  to the room of the request, and such that no frame refers to one that was left out; the frames that
  are still missing are those in flight, the one in the callback and those in the buffer.
\<close>

theorem camera_to_client:
  assumes "pipe_ready s0" "pp_sent s0 = []" "live_run env s0 (s, c)" "pp_phase s \<noteq> Fault"
  shows "\<exists>k m q. m + length (flight s) = length (pp_log s) \<and> seq_run env s0 k 0 (take m (pp_log s)) (seq_of s0) = Some q \<and>
    sq_sent q = map fst (fs_log c) @ in_hand c \<and> length (in_hand c) \<le> 1 \<and> gapless (fs_log c) \<and>
    fs_taken c @ fs_buffer c = map fst (filter snd (fs_log c)) \<and>
    list_all2 (\<lambda>data out. \<exists>n. out = take n data) (fs_taken c) (fs_delivered c)"
proof -
  have r: "pipe_run env s0 s" "source_run c" and sent: "pp_sent s = map fst (fs_log c) @ in_hand c" using live_inv [OF assms(3,2)] by simp_all
  obtain k m where inv: "run_inv env s0 k m s" using pipe_run_inv [OF r(1) assms(1)] assms(4) by (auto elim: pipe_invE)
  then have seq: "seq_run env s0 k 0 (take m (pp_log s)) (seq_of s0) = Some (seq_of s)" and j: "jobs_inv s0 k m s"
    by (simp_all add: run_inv_def results_inv_def)
  have "flight s = map (\<lambda>n. nth_job s0 n (pp_log s ! n)) [m..<length (pp_log s)]" using j by (simp add: jobs_inv_def)
  then have "m + length (flight s) = length (pp_log s)" using j by (simp add: jobs_inv_def)
  moreover have "sq_sent (seq_of s) = map fst (fs_log c) @ in_hand c" using sent by (simp add: seq_of_def)
  moreover have "length (in_hand c) \<le> 1" by (simp add: in_hand_def split: producer.split)
  moreover have "gapless (fs_log c)" "fs_taken c @ fs_buffer c = map fst (filter snd (fs_log c))"
      "list_all2 (\<lambda>data out. \<exists>n. out = take n data) (fs_taken c) (fs_delivered c)"
    using source_run_inv [OF r(2)] by (simp_all add: source_inv_def)
  ultimately show ?thesis using seq by (intro exI [of _ k] exI [of _ m] exI [of _ "seq_of s"] conjI)
qed

text \<open>One frame with an IDR slice, from the camera of the sample into the hands of a client that waits for it.\<close>

definition sample_waiting :: "unit pipe \<times> framed_source" where
  "sample_waiting = (sample_done, on_encoded_data [0x65] sample_requested)"

definition sample_received :: framed_source where
  "sample_received = deliver_data ((producer_step (producer_step (producer_step (producer_step (on_encoded_data [0x65] sample_requested)))))\<lparr>fs_triggered := False\<rparr>)"

lemmas received_simps = sample_requested_def get_next_frame_def do_get_next_frame_def new_source_def on_encoded_data_def producer_step_def
  has_nalu_type_def deliver_data_def

lemma sample_waiting_run: "live_run sample_env (sample_pipe 1 2) sample_waiting"
proof -
  have "source_step new_source sample_requested" unfolding sample_requested_def by (rule request) (simp_all add: new_source_def)
  moreover have "fs_producer sample_requested = Outside" "\<not> fs_fault sample_requested" by (simp_all add: received_simps)
  ultimately have r: "live_run sample_env (sample_pipe 1 2) (sample_pipe 1 2, sample_requested)" by (intro go_on [OF start] client) simp_all
  have "pp_sent sample_inferred = pp_sent (sample_pipe 1 2)" by (simp add: sample_inferred_state sample_captured_state sample_pipe_def)
  then have "live_run sample_env (sample_pipe 1 2) (sample_inferred, sample_requested)"
    by (rule quiet_run [OF sample_inferred_run _ r]) (simp_all add: received_simps)
  then show ?thesis unfolding sample_waiting_def
    by (rule go_on [OF _ hand_over [OF _ _ sample_done_step]])
       (simp_all add: sample_done_state(2) sample_inferred_state sample_captured_state received_simps)
qed

lemma sample_received_run: "live_run sample_env (sample_pipe 1 2) (sample_done, sample_received)"
proof -
  let ?p = "\<lambda>c. producer_step c" and ?c0 = "on_encoded_data [0x65] sample_requested"
  have step: "live_run sample_env (sample_pipe 1 2) (sample_done, ?p c)"
    if "live_run sample_env (sample_pipe 1 2) (sample_done, c)" "\<not> fs_fault c" for c
    by (rule go_on [OF that(1) client [OF producing [OF that(2)]]]) (simp add: producer_step_def)
  have 0: "live_run sample_env (sample_pipe 1 2) (sample_done, ?c0)" using sample_waiting_run by (simp add: sample_waiting_def)
  have 4: "live_run sample_env (sample_pipe 1 2) (sample_done, ?p (?p (?p (?p ?c0))))"
    by (intro step 0) (simp_all add: received_simps)
  show ?thesis unfolding sample_received_def
    by (rule go_on [OF 4 client [OF event]]) (simp_all add: received_simps)
qed

theorem camera_to_client_witness:
  "live_run sample_env (sample_pipe 1 2) (sample_done, sample_received) \<and> fs_delivered sample_received = [[0x65]] \<and>
   gapless [([0x65], True)] \<and> fs_taken sample_received @ fs_buffer sample_received = [[0x65]]"
proof -
  have "pp_sent (sample_pipe 1 2) = []" by (simp add: sample_pipe_def)
  from camera_to_client [OF sample_ready [of 1 2] this sample_received_run] have "gapless (fs_log sample_received)"
      "fs_taken sample_received @ fs_buffer sample_received = map fst (filter snd (fs_log sample_received))"
    by (auto simp: sample_done_state)
  moreover have "fs_log sample_received = [([0x65], True)]" "fs_delivered sample_received = [[0x65]]"
    by (simp_all add: sample_received_def received_simps)
  ultimately show ?thesis using sample_received_run by simp
qed

end
