(* ===== verification/Spec2Isabelle.thy ===== *)
theory Spec2Isabelle imports Prelude LapjvOpt ByteWrapper DeepWrapper DeepLive MatrixHeap RknnFp IniNumbers Labels PipeSafe Transcoder CamRtsp LiveStream begin

text \<open>
  Verification library of RkYoloRtspServer, a camera server for Rockchip boards: it captures frames
  over V4L2, detects objects with a YOLOv5 network on the NPU, tracks them with ByteTrack or
  DeepSort, draws them into the frame, encodes it with the MPP encoder and serves it over RTSP.

  How the program's parts and the theories correspond.  A theory models the file it names; its
  records have the fields of the class, its definitions the names of the functions.

  Shared.  \<^theory_text>\<open>Prelude\<close>: C++ conversions and integer division, counted loops, index lists, the
  locale \<open>bounded_history\<close> and the predicate \<open>assoc_ok\<close> of an association.  \<^theory_text>\<open>LinAlg\<close>: the vectors
  and matrices of Eigen as lists, quadratic forms and covariances.  \<^theory_text>\<open>Results\<close>: the structures of
  \<open>src/inc/postprocess.h\<close> that detector, trackers and overlay exchange, and the locale
  \<open>group_emitter\<close> of the loops that write tracks into a group.

  ByteTrack (\<open>src/src/bytetrack\<close>).  \<^theory_text>\<open>Lapjv\<close> is the Jonker-Volgenant solver \<open>lapjv.cpp\<close>; \<^theory_text>\<open>LapjvReduce\<close>,
  \<^theory_text>\<open>LapjvPath\<close> and \<^theory_text>\<open>LapjvOpt\<close> prove that it ends with an assignment of least cost for costs below
  \<open>LARGE / 2\<close> (column reduction, the shortest augmenting paths with their prices, and the
  optimality argument).  \<^theory_text>\<open>ByteKalman\<close> is \<open>kalmanFilter.cpp\<close>; it keeps covariances covariances and
  an update never raises a variance.  \<^theory_text>\<open>STrack\<close> is \<open>STrack.cpp\<close>, the life of a track.  \<^theory_text>\<open>ByteAssign\<close>
  holds the association functions of \<open>BYTETracker.cpp\<close>, \<^theory_text>\<open>ByteTracker\<close> its \<open>update\<close> in stages, \<^theory_text>\<open>ByteInv\<close>
  the invariant of the tracker.  \<^theory_text>\<open>ByteWrapper\<close> is \<open>ByteTrackerWrapper.cpp\<close>.

  DeepSort (\<open>src/src/deepsort\<close>).  \<^theory_text>\<open>Munkres\<close> is \<open>munkres.h\<close> with \<open>hungarianoper.cpp\<close>; \<^theory_text>\<open>MunkresOpt\<close> proves
  that its loop ends and that the matching is full and of least cost.  \<^theory_text>\<open>MatrixHeap\<close> is \<open>matrix.h\<close> on the
  level of its memory: tables and rows that are allocated, shared by nobody and released by hand; its
  programs refine the matrices as values that \<^theory_text>\<open>Munkres\<close> works on.  \<^theory_text>\<open>DeepKalman\<close> is
  \<open>kalmanfilter.cpp\<close>, proved equal to the filter of ByteTrack.  \<^theory_text>\<open>DeepTrack\<close> is \<open>track.cpp\<close>, \<^theory_text>\<open>NnMatching\<close>
  the appearance metric \<open>nn_matching.cpp\<close>, \<^theory_text>\<open>DeepAssign\<close> the gated matching and the cascade of
  \<open>linear_assignment.cpp\<close>, \<^theory_text>\<open>DeepTracker\<close> is \<open>tracker.cpp\<close> and \<^theory_text>\<open>DeepInv\<close> its invariant.  \<^theory_text>\<open>DeepLive\<close>
  shows that the detections of a new tracker's second frame that repeat boxes of the first confirm their tracks.  \<^theory_text>\<open>DeepSort\<close> is \<open>featuretensor.cpp\<close> and
  \<open>deepsort.cpp\<close>; \<^theory_text>\<open>RknnFp\<close> is the wrapper \<open>rknn_fp.cpp\<close> under the feature extraction, with the memories
  it copies crops into and reads features from, and shows that frame after frame the features are
  those of the function \<open>de_net\<close> of \<^theory_text>\<open>DeepSort\<close> when no run fails.  Both models of the extraction have no
  result when the configured dimension exceeds a feature row or the network's output (\<open>write_feature\<close>),
  which the program does not test.  \<^theory_text>\<open>DeepWrapper\<close> is \<open>DeepSortWrapper.cpp\<close>, with the theorem that an
  interval of two frames or more never confirms a track.

  Detection (\<open>src/src/postprocess.cc\<close>).  \<^theory_text>\<open>QuickSort\<close> is the in-place sort of the scores, proved to end
  and to sort; \<^theory_text>\<open>PostProcess\<close> the rest of the file, from the quantised tensors to a group of
  detections; \<^theory_text>\<open>PostInv\<close> its lemmas (suppression, reads inside the tensor, quantisation, the group);
  \<^theory_text>\<open>Labels\<close> compares the two readers of the label file.

  Configuration.  \<^theory_text>\<open>CString\<close> has the C library's character and number functions as the parser and
  the program use them; \<^theory_text>\<open>Ini\<close> is \<open>ini.c\<close>, \<^theory_text>\<open>IniReader\<close> is \<open>INIReader.cc\<close> with the round trip of a
  configuration, \<^theory_text>\<open>IniNumbers\<close> its 64-bit and unsigned readers, which read back printed numbers, and
  \<^theory_text>\<open>Settings\<close> is \<open>LoadConfigs\<close>, the repairs at the start of \<open>TransCoder::init\<close>, the
  server's settings and the log level.

  The video path.  \<^theory_text>\<open>Capture\<close> is the camera side of \<open>transcoder.cc\<close>: DMA buffers and the V4L2 device,
  over an operating-system state that records open descriptors, mappings and the buffers with the
  driver.  \<^theory_text>\<open>ThreadPool\<close> is \<open>ThreadPool.h\<close> as a step relation.  \<^theory_text>\<open>RkYolo\<close> is \<open>RkYolo.cc\<close>, one detector
  and its overlay; \<^theory_text>\<open>Encoder\<close> is \<open>RkEncoder.cc\<close>.  \<^theory_text>\<open>Pipeline\<close> is \<open>TransCoder::run\<close>: the main thread and
  the workers of the pool interleaved.  \<^theory_text>\<open>PipeSeq\<close> states the sequential program - infer, track, draw,
  encode, send, one frame after the other - and \<^theory_text>\<open>PipeInv\<close> proves the invariant that relates the two;
  \<^theory_text>\<open>PipeSafe\<close> draws the conclusions: no sharing, refinement, and the number of capture buffers that is
  needed.  \<^theory_text>\<open>Transcoder\<close> is \<open>TransCoder::init\<close> with its early returns, the destructor, \<open>MThread.cc\<close> and
  the start in \<open>main.cc\<close>, with the ledger of descriptors and mappings, the file of a model that a failed
  \<open>RkYolo::Init\<close> leaves open included (\<open>yolo_open\<close>, \<open>leaves\<close>); a ready transcoder satisfies the hypothesis \<open>pipe_ready\<close> of the pipeline's
  theorems.  \<^theory_text>\<open>CamSource\<close> is \<open>CamFramedSource.cc\<close>, which receives the frames that the pipeline sends and
  hands them to live555.  \<^theory_text>\<open>LiveStream\<close> composes the pipeline with the source: what a client is given
  are frames of the sequential program.  \<^theory_text>\<open>CamRtsp\<close> is \<open>CamRTSPServer.cc\<close>, which owns transcoders and
  sources, the rest of \<open>main.cc\<close>, and \<open>CamUnicastServerMediaSubsession.cc\<close>, which keeps the addresses of
  the clients.

  Interfaces.  The locales and where they are interpreted: \<open>bounded_history\<close> (trajectories of both
  trackers), \<open>item_emitter\<close> and \<open>group_emitter\<close> (the loops of both wrappers and of the overlay that
  fill a group), \<open>assignment_solver\<close> (Jonker-Volgenant in ByteTrack's associations), \<open>box_filter\<close> (both
  Kalman filters), \<open>task_server\<close> (the thread pool as the pipeline uses it) and \<open>device\<close> (camera and
  transcoder, which restore what they acquire).

  Steps and atomicity.  In \<open>pipe_step\<close> an iteration of the main loop up to the wait for a future, the
  rest of the iteration, a critical section of the pool and the end of an inference are one step
  each.  \<open>pipeline_no_sharing\<close> shows that the memory of two tasks in flight, of the main thread and of
  the driver is disjoint, so that finer steps would give the same results; the exception is the label
  table, which the first inferences of all detectors write without synchronisation.  In \<open>source_step\<close>
  every access to the shared flags, the buffer and the event is a step of its own.

  Conventions.  Numbers of type \<open>float\<close> and \<open>double\<close> are exact reals.  A failed assertion, an exception
  or a solver that does not return is \<^const>\<open>None\<close>, and every theorem about a result also states that
  there is one.  Loops that may not end are \<open>partial_function (option)\<close>: their ending is proved
  (\<open>munkres_loop_ok\<close>, \<open>path_loop_ok\<close>).  Eigen's triangular and Cholesky solvers, the network
  and OpenCV's resize are parameters; what is used of them is a named hypothesis (\<open>llt_solver\<close>,
  \<open>llt_factor\<close>, \<open>solves_right\<close>, \<open>keeps_rows\<close>).
  The kernel, the MPP library, RGA, OpenCV's drawing and live555 are parameters too: functions or
  answers that a call gives, with \<open>kernel_fresh\<close> (a new descriptor or mapping is not in use),
  \<open>driver_law\<close> (the driver hands out buffers that it holds) and \<open>mat_clips\<close> (OpenCV clips what it draws to
  the matrix) as the hypotheses about them.  The RKNN
  runtime under the feature extraction is the record \<open>npu_env\<close> with the law \<open>npu_law\<close>: memories have the
  size that was asked for, a null memory cannot be bound, and a run keeps the outputs' sizes.

  Corners where a total function of the logic stands for an operation that the program leaves
  undefined or that yields no number.  A division by 0: \<open>deep_iou\<close> of two empty boxes and \<open>normalise\<close> of a row of norm 0
  are NaN in the program (the range of the appearance costs is stated for other rows only), and
  \<open>speed_step\<close> divides by the frame rate, which is undefined at 0 (\<open>ByteTrackerWrapper\<close>, the only caller,
  passes 1 at least).  A list read beyond its end: \<open>tracker_update_cls\<close> reads the class and confidence of a detection
  from the second list, of which \<open>DeepSort::sort\<close> builds one entry per detection.  A character: a NUL ends a
  line in \<open>ini.c\<close> and is an ordinary character of \<open>ini_line\<close>, so configurations hold none.  live555 replaces
  a session when one of the same name is added; \<open>add_media_session\<close> lists the calls, and streams are taken to have different names.

  Not modelled.  \<open>dump_tensor_attr\<close>, \<open>operator<<\<close> of the matrix, \<open>announceStream\<close> and the other logging
  and printing; \<open>showDetection\<close> of \<open>deepsort.cpp\<close>, which only draws; the presentation time of a frame;
  what the classes of live555 do beyond the callbacks that the program overrides; and \<open>thirdparty\<close>.
  Allocation by \<open>new\<close> succeeds; rounding and overflow of \<open>float\<close> are not considered.
\<close>

end
